(* ===== verification/Prelude.thy ===== *)
theory Prelude
  imports Main "HOL-Library.Word" "HOL-Library.Monad_Syntax"
begin

text \<open>
  Shared vocabulary of the development: machine integers and the saturating and checked
  arithmetic of Rust's integer types, raw addresses, three-way comparison, the result type of
  operations that can panic, and the generic lemmas on lists and words that the components use.
\<close>

section \<open>Addresses and machine integers\<close>

text \<open>
  A raw pointer is a natural number; the null pointer is \<open>0\<close>. Rust compares pointers by
  \<open>a as usize\<close>, which is the order of the numbers.
\<close>

type_synonym addr = nat
type_synonym u32 = "32 word"
type_synonym u64 = "64 word"

definition u64_of :: "u32 \<Rightarrow> u64" where
  "u64_of x = ucast x"

text \<open>Rust's \<open>saturating_add\<close>, \<open>saturating_sub\<close>, \<open>saturating_mul\<close> and \<open>checked_sub\<close>.\<close>

definition saturating_add :: "'a::len word \<Rightarrow> 'a word \<Rightarrow> 'a word" where
  "saturating_add a b = (if a \<le> (- 1) - b then a + b else (- 1))"

definition saturating_sub :: "'a::len word \<Rightarrow> 'a word \<Rightarrow> 'a word" where
  "saturating_sub a b = (if b \<le> a then a - b else 0)"

definition saturating_mul :: "'a::len word \<Rightarrow> 'a word \<Rightarrow> 'a word" where
  "saturating_mul a b = (if unat a * unat b < 2 ^ LENGTH('a) then a * b else (- 1))"

definition checked_sub :: "'a::len word \<Rightarrow> 'a word \<Rightarrow> 'a word option" where
  "checked_sub a b = (if b \<le> a then Some (a - b) else None)"

definition checked_add :: "'a::len word \<Rightarrow> 'a word \<Rightarrow> 'a word option" where
  "checked_add a b = (if a \<le> (- 1) - b then Some (a + b) else None)"

definition checked_mul :: "'a::len word \<Rightarrow> 'a word \<Rightarrow> 'a word option" where
  "checked_mul a b = (if unat a * unat b < 2 ^ LENGTH('a) then Some (a * b) else None)"

section \<open>Three-way comparison\<close>

text \<open>Rust's \<open>core::cmp::Ordering\<close> and the derived comparison of integers.\<close>

datatype cmp_ordering = Less | Equal | Greater

definition cmp_of :: "'a::linorder \<Rightarrow> 'a \<Rightarrow> cmp_ordering" where
  "cmp_of a b = (if a < b then Less else if a = b then Equal else Greater)"

text \<open>\<open>match a.cmp(b) { Equal => next, other => other }\<close>: compare by the next key on a tie.\<close>

definition then_cmp :: "cmp_ordering \<Rightarrow> cmp_ordering \<Rightarrow> cmp_ordering" where
  "then_cmp c d = (if c = Equal then d else c)"

lemma cmp_of_simps [simp]:
  "cmp_of a b = Less \<longleftrightarrow> a < b" "cmp_of a b = Equal \<longleftrightarrow> a = b" "cmp_of a b = Greater \<longleftrightarrow> b < a"
  by (auto simp: cmp_of_def)

section \<open>Operations that can panic\<close>

text \<open>
  A panic (a failed assertion, arithmetic overflow, an access through null, \<open>unreachable!\<close>) and a
  loop that does not end are \<open>None\<close>. \<open>wpo m Q\<close> says that \<open>m\<close> completes with a result that
  satisfies \<open>Q\<close>; its rules follow the structure of the code.
\<close>

named_theorems wpo_simps \<open>rewriting rules for completed computations\<close>

definition wpo :: "'a option \<Rightarrow> ('a \<Rightarrow> bool) \<Rightarrow> bool" where
  "wpo m Q \<longleftrightarrow> (\<exists>x. m = Some x \<and> Q x)"

lemma wpo_Some [simp, wpo_simps]: "wpo (Some x) Q = Q x"
  by (simp add: wpo_def)

lemma wpo_None [simp, wpo_simps]: "wpo None Q = False"
  by (simp add: wpo_def)

lemma wpo_bind [simp, wpo_simps]: "wpo (m \<bind> f) Q = wpo m (\<lambda>x. wpo (f x) Q)"
  by (cases m) auto

lemma wpo_if [wpo_simps]: "wpo (if b then m else n) Q = (if b then wpo m Q else wpo n Q)"
  by simp

lemma wpo_mono: "wpo m P \<Longrightarrow> (\<And>x. P x \<Longrightarrow> Q x) \<Longrightarrow> wpo m Q"
  by (auto simp: wpo_def)

lemma wpo_conj: "wpo m P \<Longrightarrow> wpo m Q \<Longrightarrow> wpo m (\<lambda>x. P x \<and> Q x)"
  by (auto simp: wpo_def)

lemma wpoE: "wpo m Q \<Longrightarrow> (\<And>x. m = Some x \<Longrightarrow> Q x \<Longrightarrow> R) \<Longrightarrow> R"
  by (auto simp: wpo_def)

definition require :: "bool \<Rightarrow> unit option" where
  "require b = (if b then Some () else None)"

lemma wpo_require [simp, wpo_simps]: "wpo (require b) Q \<longleftrightarrow> b \<and> Q ()"
  by (simp add: require_def)

lemma require_eq_Some [simp]: "require b = Some u \<longleftrightarrow> b"
  by (simp add: require_def)

section \<open>Saturating arithmetic\<close>

lemma unat_max_word: "unat (- 1 :: 'a::len word) = 2 ^ LENGTH('a) - 1"
  by (simp add: unsigned_minus_1_eq_mask mask_eq_exp_minus_1)

lemma unat_bound: "unat (w :: 'a::len word) < 2 ^ LENGTH('a)"
  by (rule unsigned_less)

lemma unat_le_max: "unat (w :: 'a::len word) \<le> 2 ^ LENGTH('a) - 1"
  using unat_bound [of w] by linarith

lemma unat_saturating_add:
  "unat (saturating_add a b :: 'a::len word) = min (unat a + unat b) (2 ^ LENGTH('a) - 1)"
proof -
  have m: "unat (- 1 - b) = 2 ^ LENGTH('a) - 1 - unat b"
    using unat_le_max [of b] by (simp add: unat_sub_if' unat_max_word)
  have lt: "unat a \<le> 2 ^ LENGTH('a) - 1" "unat b \<le> 2 ^ LENGTH('a) - 1" "(0::nat) < 2 ^ LENGTH('a)"
    by (rule unat_le_max)+ simp
  show ?thesis
  proof (cases "a \<le> - 1 - b")
    case True
    then have "unat a + unat b < 2 ^ LENGTH('a)" using m lt unfolding word_le_nat_alt by linarith
    then show ?thesis using True by (simp add: saturating_add_def unat_word_ariths)
  next
    case False
    then have "unat a + unat b \<ge> 2 ^ LENGTH('a) - 1" using m lt unfolding word_le_nat_alt by linarith
    then show ?thesis using False by (simp add: saturating_add_def unat_max_word)
  qed
qed

lemma unat_saturating_sub: "unat (saturating_sub a b) = unat a - unat b"
  by (simp add: saturating_sub_def unat_sub word_le_nat_alt)

lemma checked_add_ok:
  fixes a b :: "'a::len word"
  assumes "unat a + unat b < 2 ^ LENGTH('a)"
  shows "checked_add a b = Some (a + b) \<and> unat (a + b) = unat a + unat b"
proof -
  have "unat (- 1 - b) = 2 ^ LENGTH('a) - 1 - unat b"
    using unat_le_max [of b] by (simp add: unat_sub_if' unat_max_word)
  then have "a \<le> - 1 - b" using assms unat_le_max [of b] unfolding word_le_nat_alt by linarith
  then show ?thesis using assms by (simp add: checked_add_def unat_word_ariths)
qed

lemma saturating_add_0 [simp]: "saturating_add a 0 = a"
  by (simp add: saturating_add_def)

lemma saturating_add_ge: "a \<le> saturating_add a b"
  using unat_le_max [of a] by (simp add: word_le_nat_alt unat_saturating_add)

lemma saturating_add_gt: "a < - 1 \<Longrightarrow> 0 < b \<Longrightarrow> a < saturating_add a b"
  using unat_bound [of a]
  by (simp add: word_less_nat_alt unat_saturating_add unat_max_word)

lemma unat_u64_of [simp]: "unat (u64_of x) = unat x"
  using unat_bound [of x] by (simp add: u64_of_def unsigned_ucast_eq take_bit_nat_eq_self)

lemma u64_of_pos [simp]: "0 < u64_of x \<longleftrightarrow> 0 < x"
  by (simp only: word_less_nat_alt unat_u64_of) simp

end
