(* ===== verification/OrdList.thy ===== *)
theory OrdList
  imports Prelude
begin

text \<open>
  The abstract value of every tree of the program: the list of the entities it holds, in the
  strict order of the entity type's \<open>cmp\<close>. \<open>strict_cmp\<close> is the contract of \<open>RBTreeNode::cmp\<close>
  (ties are broken by the entity address, so only an entity itself compares equal to it), and
  \<open>ordered_queue\<close> is the contract of the tree operations: what each returns and how it changes
  the list. The pointer tree of \<^verbatim>\<open>src/rbtree.rs\<close> is shown to meet it, and so are the list
  operations that the scheduler components of the model work with.
\<close>

section \<open>Strict comparison\<close>

locale strict_cmp =
  fixes c :: "addr \<Rightarrow> addr \<Rightarrow> cmp_ordering"
  assumes cmp_Equal: "c a b = Equal \<longleftrightarrow> a = b"
    and cmp_Greater: "c a b = Greater \<longleftrightarrow> c b a = Less"
    and cmp_trans: "c a b = Less \<Longrightarrow> c b d = Less \<Longrightarrow> c a d = Less"
begin

lemma cmp_irrefl: "c a a \<noteq> Less"
  using cmp_Equal [of a a] by simp

lemma cmp_asym: "c a b = Less \<Longrightarrow> c b a \<noteq> Less"
  using cmp_trans cmp_irrefl by blast

lemma cmp_total: "a \<noteq> b \<Longrightarrow> c a b = Less \<or> c b a = Less"
  using cmp_Equal [of a b] cmp_Greater [of a b] by (cases "c a b") auto

lemma cmp_not_Less: "c a b \<noteq> Less \<Longrightarrow> a \<noteq> b \<Longrightarrow> c b a = Less"
  using cmp_total by blast

end

text \<open>
  The shape of the comparison in all four entity types: a key read from the entity, then the
  address.
\<close>

definition key_cmp :: "(addr \<Rightarrow> 'k::linorder) \<Rightarrow> addr \<Rightarrow> addr \<Rightarrow> cmp_ordering" where
  "key_cmp key a b = then_cmp (cmp_of (key a) (key b)) (cmp_of a b)"

lemma key_cmp_Less: "key_cmp key a b = Less \<longleftrightarrow> key a < key b \<or> (key a = key b \<and> a < b)"
  by (auto simp: key_cmp_def then_cmp_def cmp_of_def)

interpretation keyed: strict_cmp "key_cmp key" for key :: "addr \<Rightarrow> 'k::linorder"
proof
  fix a b d :: addr
  show "key_cmp key a b = Equal \<longleftrightarrow> a = b"
    by (auto simp: key_cmp_def then_cmp_def cmp_of_def)
  show "key_cmp key a b = Greater \<longleftrightarrow> key_cmp key b a = Less"
    by (auto simp: key_cmp_def then_cmp_def cmp_of_def)
  show "key_cmp key a b = Less \<Longrightarrow> key_cmp key b d = Less \<Longrightarrow> key_cmp key a d = Less"
    by (auto simp: key_cmp_Less)
qed

section \<open>Ordered lists of entities\<close>

definition ordered :: "('a \<Rightarrow> 'a \<Rightarrow> cmp_ordering) \<Rightarrow> 'a list \<Rightarrow> bool" where
  "ordered c xs \<longleftrightarrow> sorted_wrt (\<lambda>a b. c a b = Less) xs"

fun oinsert :: "('a \<Rightarrow> 'a \<Rightarrow> cmp_ordering) \<Rightarrow> 'a \<Rightarrow> 'a list \<Rightarrow> 'a list" where
  "oinsert c x [] = [x]"
| "oinsert c x (y # ys) = (if c x y = Less then x # y # ys else y # oinsert c x ys)"

definition head_or_null :: "addr list \<Rightarrow> addr" where
  "head_or_null xs = (case xs of [] \<Rightarrow> 0 | x # _ \<Rightarrow> x)"

fun onext :: "addr list \<Rightarrow> addr \<Rightarrow> addr" where
  "onext [] e = 0"
| "onext (x # xs) e = (if x = e then head_or_null xs else onext xs e)"

definition oupper :: "(addr \<Rightarrow> addr \<Rightarrow> cmp_ordering) \<Rightarrow> addr list \<Rightarrow> addr \<Rightarrow> addr" where
  "oupper c xs e = head_or_null (filter (\<lambda>a. c e a = Less) xs)"

lemma head_or_null_simps [simp]:
  "head_or_null [] = 0" "head_or_null (x # xs) = x"
  "head_or_null (xs @ ys) = (if xs = [] then head_or_null ys else head_or_null xs)"
  by (auto simp: head_or_null_def split: list.splits)

lemma head_or_null_in: "xs \<noteq> [] \<Longrightarrow> head_or_null xs \<in> set xs"
  by (cases xs) auto

lemma set_oinsert [simp]: "set (oinsert c x xs) = insert x (set xs)"
  by (induction xs) auto

lemma length_oinsert [simp]: "length (oinsert c x xs) = Suc (length xs)"
  by (induction xs) auto

lemma oinsert_map:
  assumes "\<And>y. y \<in> set xs \<Longrightarrow> d (f x) (f y) = c x y"
  shows "oinsert d (f x) (map f xs) = map f (oinsert c x xs)"
  using assms by (induction xs) auto

lemma oinsert_append:
  "sorted_wrt (\<lambda>a b. c x a = Less \<longrightarrow> c x b = Less) (xs @ a # ys) \<Longrightarrow>
   oinsert c x (xs @ a # ys) =
     (if c x a = Less then oinsert c x xs @ a # ys else xs @ a # oinsert c x ys)"
  by (induction xs) auto

lemma onext_append: "e \<notin> set xs \<Longrightarrow> onext (xs @ e # ys) e = head_or_null ys"
  by (induction xs) auto

context strict_cmp
begin

lemma ordered_distinct: "ordered c xs \<Longrightarrow> distinct xs"
  unfolding ordered_def by (induction xs) (auto simp: cmp_irrefl)

lemma ordered_oinsert: "ordered c xs \<Longrightarrow> x \<notin> set xs \<Longrightarrow> ordered c (oinsert c x xs)"
  unfolding ordered_def
proof (induction xs)
  case (Cons y ys)
  then show ?case using cmp_not_Less [of x y] cmp_trans by auto
qed simp

lemma ordered_remove1: "ordered c xs \<Longrightarrow> ordered c (remove1 x xs)"
  unfolding ordered_def by (induction xs) (auto dest: notin_set_remove1)

lemma ordered_head_least:
  "ordered c xs \<Longrightarrow> x \<in> set xs \<Longrightarrow> x \<noteq> head_or_null xs \<Longrightarrow> c (head_or_null xs) x = Less"
  unfolding ordered_def by (cases xs) auto

lemma ordered_upclosed:
  "ordered c xs \<Longrightarrow> sorted_wrt (\<lambda>a b. c x a = Less \<longrightarrow> c x b = Less) xs"
  unfolding ordered_def by (rule sorted_wrt_mono_rel) (auto intro: cmp_trans)

lemma remove1_oinsert: "x \<notin> set xs \<Longrightarrow> remove1 x (oinsert c x xs) = xs"
  by (induction xs) auto

lemma ordered_unique: "ordered c xs \<Longrightarrow> ordered c ys \<Longrightarrow> set xs = set ys \<Longrightarrow> xs = ys"
proof (induction xs arbitrary: ys)
  case (Cons x xs)
  then obtain y ys' where ys: "ys = y # ys'" by (cases ys) auto
  have "x = y"
  proof (rule ccontr)
    assume "x \<noteq> y"
    moreover have "x \<in> set ys" "y \<in> set (x # xs)" using Cons.prems ys by auto
    ultimately have "c y x = Less" "c x y = Less" using Cons.prems ys by (auto simp: ordered_def)
    then show False using cmp_asym by blast
  qed
  moreover have "distinct (x # xs)" "distinct ys" using Cons.prems ordered_distinct by blast+
  moreover from calculation have "set xs = set ys'"
    using Cons.prems(3) ys by (simp add: insert_ident)
  ultimately show ?case
    using Cons.IH [of ys'] Cons.prems ys by (simp add: ordered_def)
qed simp

end

section \<open>The contract of an ordered queue\<close>

text \<open>
  \<open>repr q xs\<close> says that the queue \<open>q\<close> holds the entities \<open>xs\<close> in order. The other parameters are
  the operations of \<open>RBTree\<close>; \<open>None\<close> stands for an operation that does not complete.
\<close>

locale ordered_queue = strict_cmp c for c :: "addr \<Rightarrow> addr \<Rightarrow> cmp_ordering" +
  fixes repr :: "'q \<Rightarrow> addr list \<Rightarrow> bool"
    and q_first :: "'q \<Rightarrow> addr option"
    and q_last :: "'q \<Rightarrow> addr option"
    and q_next :: "'q \<Rightarrow> addr \<Rightarrow> addr option"
    and q_upper :: "'q \<Rightarrow> addr \<Rightarrow> addr option"
    and q_contains :: "'q \<Rightarrow> addr \<Rightarrow> bool option"
    and q_insert :: "'q \<Rightarrow> addr \<Rightarrow> 'q option"
    and q_remove :: "'q \<Rightarrow> addr \<Rightarrow> ('q \<times> addr) option"
    and q_pop :: "'q \<Rightarrow> ('q \<times> addr option) option"
  assumes repr_ordered: "repr q xs \<Longrightarrow> ordered c xs"
    and repr_nonnull: "repr q xs \<Longrightarrow> 0 \<notin> set xs"
    and first_law: "repr q xs \<Longrightarrow> q_first q = Some (head_or_null xs)"
    and last_law: "repr q xs \<Longrightarrow> q_last q = Some (head_or_null (rev xs))"
    and next_law: "repr q xs \<Longrightarrow> e \<in> set xs \<Longrightarrow> q_next q e = Some (onext xs e)"
    and upper_law: "repr q xs \<Longrightarrow> q_upper q e = Some (oupper c xs e)"
    and contains_law: "repr q xs \<Longrightarrow> q_contains q e = Some (e \<in> set xs)"
    and insert_law: "repr q xs \<Longrightarrow> e \<noteq> 0 \<Longrightarrow> e \<notin> set xs \<Longrightarrow>
      \<exists>q'. q_insert q e = Some q' \<and> repr q' (oinsert c e xs)"
    and remove_law: "repr q xs \<Longrightarrow> e \<in> set xs \<Longrightarrow>
      \<exists>q'. q_remove q e = Some (q', e) \<and> repr q' (remove1 e xs)"
    and pop_empty: "repr q [] \<Longrightarrow> q_pop q = Some (q, None)"
    and pop_law: "repr q (x # xs) \<Longrightarrow> \<exists>q'. q_pop q = Some (q', Some x) \<and> repr q' xs"

text \<open>Clients of the contract: inserting a batch of entities, and popping until nothing is left.\<close>

primrec insert_all :: "('q \<Rightarrow> addr \<Rightarrow> 'q option) \<Rightarrow> 'q \<Rightarrow> addr list \<Rightarrow> 'q option" where
  "insert_all ins q [] = Some q"
| "insert_all ins q (e # es) = do { q' \<leftarrow> ins q e; insert_all ins q' es }"

primrec pop_many :: "('q \<Rightarrow> ('q \<times> addr option) option) \<Rightarrow> nat \<Rightarrow> 'q \<Rightarrow> (addr list \<times> 'q) option" where
  "pop_many pop 0 q = Some ([], q)"
| "pop_many pop (Suc n) q = do {
     (q', e) \<leftarrow> pop q;
     case e of
       None \<Rightarrow> Some ([], q')
     | Some x \<Rightarrow> do { (xs, q'') \<leftarrow> pop_many pop n q'; Some (x # xs, q'') }
   }"

context ordered_queue
begin

lemma insert_all_law:
  assumes "repr q xs" "distinct es" "0 \<notin> set es" "set es \<inter> set xs = {}"
  shows "\<exists>q'. insert_all q_insert q es = Some q' \<and> repr q' (fold (oinsert c) es xs)"
  using assms
proof (induction es arbitrary: q xs)
  case (Cons e es)
  then obtain q1 where q1: "q_insert q e = Some q1" "repr q1 (oinsert c e xs)"
    using insert_law [of q xs e] by auto
  then show ?case using Cons.prems Cons.IH [OF q1(2)] by auto
qed simp

lemma set_fold_oinsert: "set (fold (oinsert c) es xs) = set es \<union> set xs"
  by (induction es arbitrary: xs) auto

lemma pop_many_law: "repr q xs \<Longrightarrow> n \<ge> length xs \<Longrightarrow>
  \<exists>q'. pop_many q_pop n q = Some (xs, q') \<and> repr q' []"
proof (induction xs arbitrary: q n)
  case Nil
  then show ?case using pop_empty by (cases n) auto
next
  case (Cons x xs)
  from pop_law [OF Cons.prems(1)] obtain q' where "q_pop q = Some (q', Some x)" "repr q' xs" by blast
  then show ?case using Cons.prems(2) Cons.IH [of q' "n - 1"] by (cases n) auto
qed

text \<open>Insertion in any order and popping until empty sorts.\<close>

lemma drain_sorts:
  assumes "repr q []" "distinct es" "0 \<notin> set es" "length es \<le> n"
  shows "\<exists>q1 ys q2. insert_all q_insert q es = Some q1 \<and> pop_many q_pop n q1 = Some (ys, q2)
    \<and> ordered c ys \<and> set ys = set es \<and> repr q2 []"
proof -
  obtain q1 where q1: "insert_all q_insert q es = Some q1" "repr q1 (fold (oinsert c) es [])"
    using insert_all_law [OF assms(1-3)] by auto
  have "length (fold (oinsert c) es xs) = length es + length xs" for xs
    by (induction es arbitrary: xs) auto
  then show ?thesis
    using q1 pop_many_law [OF q1(2), of n] repr_ordered [OF q1(2)] assms(4)
    by (auto simp: set_fold_oinsert)
qed

text \<open>An entity that goes in and out leaves the queue as it was.\<close>

lemma insert_remove_round_trip:
  assumes "repr q xs" "e \<noteq> 0" "e \<notin> set xs"
  shows "\<exists>q1 q2. q_insert q e = Some q1 \<and> q_contains q1 e = Some True \<and> q_remove q1 e = Some (q2, e)
    \<and> repr q2 xs"
proof -
  obtain q1 where q1: "q_insert q e = Some q1" "repr q1 (oinsert c e xs)" using insert_law [OF assms] by blast
  then show ?thesis
    using contains_law [OF q1(2), of e] remove_law [OF q1(2), of e] remove1_oinsert [OF assms(3)] by auto
qed

text \<open>The first entity comes before every other one.\<close>

lemma first_least:
  assumes "repr q xs" "x \<in> set xs"
  shows "\<exists>f. q_first q = Some f \<and> f \<in> set xs \<and> (x \<noteq> f \<longrightarrow> c f x = Less)"
  using first_law [OF assms(1)] ordered_head_least [OF repr_ordered [OF assms(1)] assms(2)] assms(2)
    head_or_null_in [of xs] by (cases xs) auto

end

section \<open>Ordered lists meet the contract\<close>

text \<open>
  The scheduler components work with the list operations below; they fail exactly where the tree
  operations have no defined result: inserting a null or already linked entity and removing an
  entity that is not linked.
\<close>

definition ol_insert :: "('a \<Rightarrow> 'a \<Rightarrow> cmp_ordering) \<Rightarrow> 'a list \<Rightarrow> 'a \<Rightarrow> 'a list option" where
  "ol_insert c xs e = (if e \<in> set xs then None else Some (oinsert c e xs))"

definition ol_remove :: "'a list \<Rightarrow> 'a \<Rightarrow> ('a list \<times> 'a) option" where
  "ol_remove xs e = (if e \<in> set xs then Some (remove1 e xs, e) else None)"

definition ol_pop :: "'a list \<Rightarrow> ('a list \<times> 'a option) option" where
  "ol_pop xs = (case xs of [] \<Rightarrow> Some ([], None) | x # ys \<Rightarrow> Some (ys, Some x))"

interpretation olq: ordered_queue "key_cmp key" "\<lambda>xs ys. xs = ys \<and> ordered (key_cmp key) ys \<and> 0 \<notin> set ys"
  "\<lambda>xs. Some (head_or_null xs)" "\<lambda>xs. Some (head_or_null (rev xs))" "\<lambda>xs e. Some (onext xs e)"
  "\<lambda>xs e. Some (oupper (key_cmp key) xs e)" "\<lambda>xs e. Some (e \<in> set xs)"
  "ol_insert (key_cmp key)" ol_remove ol_pop
  for key :: "addr \<Rightarrow> 'k::linorder"
proof (unfold_locales, goal_cases)
  case (8 q xs e)
  then show ?case using keyed.ordered_oinsert [of key xs e] by (auto simp: ol_insert_def)
next
  case (9 q xs e)
  then show ?case using keyed.ordered_remove1 [of key xs e] notin_set_remove1 [of 0 xs e]
    by (auto simp: ol_remove_def)
qed (auto simp: ol_pop_def ordered_def)

end
