(* ===== verification/RbHeap.thy ===== *)
theory RbHeap
  imports OrdList
begin

text \<open>
  The intrusive red-black tree of \<^verbatim>\<open>src/rbtree.rs\<close>, pointer by pointer.

  Every entity embeds an \<open>RbNode\<close>; the nodes live in a store indexed by their address, and a
  tree is the pointer to its root node, its length and that store. Dereferencing the null
  pointer, a failed \<open>debug_assert!\<close> and \<open>unreachable!\<close> are \<open>None\<close>, and a loop that never ends
  is \<open>None\<close> as well, so an operation that returns \<open>Some\<close> has run to completion on memory it
  may touch.
\<close>

section \<open>Nodes, entities and trees\<close>

datatype color = Red | Black

record RbNode =
  parent :: addr
  left :: addr
  right :: addr
  color :: color

definition RbNode_new :: RbNode where
  "RbNode_new = \<lparr>parent = 0, left = 0, right = 0, color = Red\<rparr>"

definition RbNode_reset_links :: "RbNode \<Rightarrow> RbNode" where
  "RbNode_reset_links n = n\<lparr>parent := 0, left := 0, right := 0, color := Red\<rparr>"

definition RbNode_is_linked :: "RbNode \<Rightarrow> bool" where
  "RbNode_is_linked n \<longleftrightarrow> parent n \<noteq> 0 \<or> left n \<noteq> 0 \<or> right n \<noteq> 0"

text \<open>
  The trait \<open>RBTreeNode\<close> as the record of its functions. Its four implementations in the crate
  all have the shape \<open>offset_entity\<close>: the node sits at a fixed offset inside the entity.
\<close>

record RBTreeNode =
  node :: "addr \<Rightarrow> addr"
  entity_of :: "addr \<Rightarrow> addr"
  cmp :: "addr \<Rightarrow> addr \<Rightarrow> cmp_ordering"

definition offset_entity :: "nat \<Rightarrow> (addr \<Rightarrow> addr \<Rightarrow> cmp_ordering) \<Rightarrow> RBTreeNode" where
  "offset_entity off c =
     \<lparr>node = (\<lambda>entity. if entity = 0 then 0 else entity + off),
      entity_of = (\<lambda>n. if n = 0 then 0 else n - off),
      cmp = c\<rparr>"

record RBTree =
  nodes :: "addr \<Rightarrow> RbNode"
  root :: addr
  len :: nat

definition RBTree_new :: "(addr \<Rightarrow> RbNode) \<Rightarrow> RBTree" where
  "RBTree_new h = \<lparr>nodes = h, root = 0, len = 0\<rparr>"

definition is_empty :: "RBTree \<Rightarrow> bool" where
  "is_empty s \<longleftrightarrow> root s = 0"

section \<open>Reading and writing links\<close>

definition get_parent :: "RBTree \<Rightarrow> addr \<Rightarrow> addr option" where
  "get_parent s p = (if p = 0 then None else Some (parent (nodes s p)))"

definition get_left :: "RBTree \<Rightarrow> addr \<Rightarrow> addr option" where
  "get_left s p = (if p = 0 then None else Some (left (nodes s p)))"

definition get_right :: "RBTree \<Rightarrow> addr \<Rightarrow> addr option" where
  "get_right s p = (if p = 0 then None else Some (right (nodes s p)))"

definition get_color :: "RBTree \<Rightarrow> addr \<Rightarrow> color option" where
  "get_color s p = (if p = 0 then None else Some (color (nodes s p)))"

definition set_node :: "addr \<Rightarrow> (RbNode \<Rightarrow> RbNode) \<Rightarrow> RBTree \<Rightarrow> RBTree option" where
  "set_node p f s = (if p = 0 then None else Some (s\<lparr>nodes := (nodes s)(p := f (nodes s p))\<rparr>))"

definition set_parent :: "addr \<Rightarrow> addr \<Rightarrow> RBTree \<Rightarrow> RBTree option" where
  "set_parent p v = set_node p (parent_update (\<lambda>_. v))"

definition set_left :: "addr \<Rightarrow> addr \<Rightarrow> RBTree \<Rightarrow> RBTree option" where
  "set_left p v = set_node p (left_update (\<lambda>_. v))"

definition set_right :: "addr \<Rightarrow> addr \<Rightarrow> RBTree \<Rightarrow> RBTree option" where
  "set_right p v = set_node p (right_update (\<lambda>_. v))"

definition set_color :: "addr \<Rightarrow> color \<Rightarrow> RBTree \<Rightarrow> RBTree option" where
  "set_color p c = set_node p (color_update (\<lambda>_. c))"

definition color_of :: "RBTree \<Rightarrow> addr \<Rightarrow> color" where
  "color_of s p = (if p = 0 then Black else color (nodes s p))"

definition parent_of :: "RBTree \<Rightarrow> addr \<Rightarrow> addr" where
  "parent_of s p = (if p = 0 then 0 else parent (nodes s p))"

definition left_of :: "RBTree \<Rightarrow> addr \<Rightarrow> addr" where
  "left_of s p = (if p = 0 then 0 else left (nodes s p))"

definition right_of :: "RBTree \<Rightarrow> addr \<Rightarrow> addr" where
  "right_of s p = (if p = 0 then 0 else right (nodes s p))"

definition cmp_nodes :: "RBTreeNode \<Rightarrow> addr \<Rightarrow> addr \<Rightarrow> cmp_ordering" where
  "cmp_nodes T a b = cmp T (entity_of T a) (entity_of T b)"

section \<open>Navigation\<close>

partial_function (option) minimum :: "RBTree \<Rightarrow> addr \<Rightarrow> addr option" where
  [code]: "minimum s n =
     (if n \<noteq> 0 \<and> left (nodes s n) \<noteq> 0 then minimum s (left (nodes s n)) else Some n)"

partial_function (option) maximum :: "RBTree \<Rightarrow> addr \<Rightarrow> addr option" where
  [code]: "maximum s n =
     (if n \<noteq> 0 \<and> right (nodes s n) \<noteq> 0 then maximum s (right (nodes s n)) else Some n)"

definition root_entity :: "RBTreeNode \<Rightarrow> RBTree \<Rightarrow> addr" where
  "root_entity T s = entity_of T (root s)"

definition first :: "RBTreeNode \<Rightarrow> RBTree \<Rightarrow> addr option" where
  "first T s = do { m \<leftarrow> minimum s (root s); Some (entity_of T m) }"

definition last_entity :: "RBTreeNode \<Rightarrow> RBTree \<Rightarrow> addr option" where
  "last_entity T s = do { m \<leftarrow> maximum s (root s); Some (entity_of T m) }"

partial_function (option) climb :: "RBTree \<Rightarrow> addr \<Rightarrow> addr \<Rightarrow> addr option" where
  [code]: "climb s n p =
     (if p \<noteq> 0 \<and> n = right (nodes s p) then climb s p (parent (nodes s p)) else Some p)"

definition next_entity :: "RBTreeNode \<Rightarrow> RBTree \<Rightarrow> addr \<Rightarrow> addr option" where
  "next_entity T s entity =
     (if entity = 0 then Some 0
      else do {
        let n = node T entity;
        r \<leftarrow> get_right s n;
        if r \<noteq> 0 then do { m \<leftarrow> minimum s r; Some (entity_of T m) }
        else do {
          p \<leftarrow> get_parent s n;
          q \<leftarrow> climb s n p;
          Some (entity_of T q)
        }
      })"

partial_function (option) upper_bound_loop ::
    "RBTreeNode \<Rightarrow> RBTree \<Rightarrow> addr \<Rightarrow> addr \<Rightarrow> addr \<Rightarrow> addr option" where
  [code]: "upper_bound_loop T s entity candidate current =
     (if current \<noteq> 0 then
        (if cmp T entity (entity_of T current) = Less
         then upper_bound_loop T s entity current (left (nodes s current))
         else upper_bound_loop T s entity candidate (right (nodes s current)))
      else Some candidate)"

definition upper_bound :: "RBTreeNode \<Rightarrow> RBTree \<Rightarrow> addr \<Rightarrow> addr option" where
  "upper_bound T s entity =
     do { c \<leftarrow> upper_bound_loop T s entity 0 (root s); Some (entity_of T c) }"

partial_function (option) contains_loop ::
    "RBTreeNode \<Rightarrow> RBTree \<Rightarrow> addr \<Rightarrow> addr \<Rightarrow> bool option" where
  [code]: "contains_loop T s entity current =
     (if current \<noteq> 0 then
        (if current = entity then Some True
         else do { n \<leftarrow> next_entity T s current; contains_loop T s entity n })
      else Some False)"

definition contains :: "RBTreeNode \<Rightarrow> RBTree \<Rightarrow> addr \<Rightarrow> bool option" where
  "contains T s entity = do { f \<leftarrow> first T s; contains_loop T s entity f }"

section \<open>Rotations and transplant\<close>

text \<open>
  The three-way branch on the parent \<open>p\<close> of \<open>u\<close>: a null parent makes \<open>v\<close> the root, otherwise \<open>v\<close>
  replaces \<open>u\<close> as the left or right child. \<open>left_rotate\<close> and \<open>transplant\<close> test the left link
  first, \<open>right_rotate\<close> the right one.
\<close>

definition link_left_first :: "addr \<Rightarrow> addr \<Rightarrow> addr \<Rightarrow> RBTree \<Rightarrow> RBTree option" where
  "link_left_first p u v s =
     (if p = 0 then Some (s\<lparr>root := v\<rparr>)
      else do {
        l \<leftarrow> get_left s p;
        if u = l then set_left p v s else set_right p v s
      })"

definition link_right_first :: "addr \<Rightarrow> addr \<Rightarrow> addr \<Rightarrow> RBTree \<Rightarrow> RBTree option" where
  "link_right_first p u v s =
     (if p = 0 then Some (s\<lparr>root := v\<rparr>)
      else do {
        r \<leftarrow> get_right s p;
        if u = r then set_right p v s else set_left p v s
      })"

definition left_rotate :: "RBTree \<Rightarrow> addr \<Rightarrow> RBTree option" where
  "left_rotate s x = do {
     y \<leftarrow> get_right s x;
     yl \<leftarrow> get_left s y;
     s \<leftarrow> set_right x yl s;
     yl \<leftarrow> get_left s y;
     s \<leftarrow> (if yl \<noteq> 0 then set_parent yl x s else Some s);
     xp \<leftarrow> get_parent s x;
     s \<leftarrow> set_parent y xp s;
     xp \<leftarrow> get_parent s x;
     s \<leftarrow> link_left_first xp x y s;
     s \<leftarrow> set_left y x s;
     set_parent x y s
   }"

definition right_rotate :: "RBTree \<Rightarrow> addr \<Rightarrow> RBTree option" where
  "right_rotate s y = do {
     x \<leftarrow> get_left s y;
     xr \<leftarrow> get_right s x;
     s \<leftarrow> set_left y xr s;
     xr \<leftarrow> get_right s x;
     s \<leftarrow> (if xr \<noteq> 0 then set_parent xr y s else Some s);
     yp \<leftarrow> get_parent s y;
     s \<leftarrow> set_parent x yp s;
     yp \<leftarrow> get_parent s y;
     s \<leftarrow> link_right_first yp y x s;
     s \<leftarrow> set_right x y s;
     set_parent y x s
   }"

definition transplant :: "RBTree \<Rightarrow> addr \<Rightarrow> addr \<Rightarrow> RBTree option" where
  "transplant s u v = do {
     up \<leftarrow> get_parent s u;
     s \<leftarrow> link_left_first up u v s;
     if v \<noteq> 0 then do { up \<leftarrow> get_parent s u; set_parent v up s } else Some s
   }"

section \<open>Insertion\<close>

partial_function (option) insert_fixup_loop :: "RBTree \<Rightarrow> addr \<Rightarrow> RBTree option" where
  [code]: "insert_fixup_loop s z = do {
     p \<leftarrow> get_parent s z;
     if color_of s p = Red then do {
       g \<leftarrow> get_parent s p;
       gl \<leftarrow> get_left s g;
       if p = gl then do {
         uncle \<leftarrow> get_right s g;
         if color_of s uncle = Red then do {
           s \<leftarrow> set_color p Black s;
           s \<leftarrow> set_color uncle Black s;
           s \<leftarrow> set_color g Red s;
           insert_fixup_loop s g
         } else do {
           pr \<leftarrow> get_right s p;
           (s, z) \<leftarrow> (if z = pr then do { s \<leftarrow> left_rotate s p; Some (s, p) } else Some (s, z));
           p \<leftarrow> get_parent s z;
           g \<leftarrow> get_parent s p;
           s \<leftarrow> set_color p Black s;
           s \<leftarrow> set_color g Red s;
           s \<leftarrow> right_rotate s g;
           insert_fixup_loop s z
         }
       } else do {
         uncle \<leftarrow> get_left s g;
         if color_of s uncle = Red then do {
           s \<leftarrow> set_color p Black s;
           s \<leftarrow> set_color uncle Black s;
           s \<leftarrow> set_color g Red s;
           insert_fixup_loop s g
         } else do {
           pl \<leftarrow> get_left s p;
           (s, z) \<leftarrow> (if z = pl then do { s \<leftarrow> right_rotate s p; Some (s, p) } else Some (s, z));
           p \<leftarrow> get_parent s z;
           g \<leftarrow> get_parent s p;
           s \<leftarrow> set_color p Black s;
           s \<leftarrow> set_color g Red s;
           s \<leftarrow> left_rotate s g;
           insert_fixup_loop s z
         }
       }
     } else Some s
   }"

definition insert_fixup :: "RBTree \<Rightarrow> addr \<Rightarrow> RBTree option" where
  "insert_fixup s z = do {
     s \<leftarrow> insert_fixup_loop s z;
     if root s \<noteq> 0 then set_color (root s) Black s else Some s
   }"

partial_function (option) insert_descend ::
    "RBTreeNode \<Rightarrow> RBTree \<Rightarrow> addr \<Rightarrow> addr \<Rightarrow> addr \<Rightarrow> addr option" where
  [code]: "insert_descend T s n p current =
     (if current \<noteq> 0 then
        (if cmp_nodes T n current = Less
         then insert_descend T s n current (left (nodes s current))
         else if cmp_nodes T n current = Greater
         then insert_descend T s n current (right (nodes s current))
         else None)
      else Some p)"

definition rb_insert :: "RBTreeNode \<Rightarrow> RBTree \<Rightarrow> addr \<Rightarrow> RBTree option" where
  "rb_insert T s entity =
     (if entity = 0 then None
      else do {
        c \<leftarrow> contains T s entity;
        if c then None
        else do {
          let n = node T entity;
          s \<leftarrow> set_node n RbNode_reset_links s;
          p \<leftarrow> insert_descend T s n 0 (root s);
          s \<leftarrow> set_parent n p s;
          s \<leftarrow> (if p = 0 then Some (s\<lparr>root := n\<rparr>)
               else if cmp_nodes T n p = Less then set_left p n s
               else set_right p n s);
          s \<leftarrow> insert_fixup s n;
          Some (s\<lparr>len := len s + 1\<rparr>)
        }
      })"

section \<open>Removal\<close>

partial_function (option) remove_fixup_loop :: "RBTree \<Rightarrow> addr \<Rightarrow> addr \<Rightarrow> (RBTree \<times> addr) option" where
  [code]: "remove_fixup_loop s x p =
     (if x \<noteq> root s \<and> color_of s x = Black then
        (if x = left_of s p then do {
           let w = right_of s p;
           (s, w) \<leftarrow> (if color_of s w = Red then do {
                       s \<leftarrow> set_color w Black s;
                       s \<leftarrow> set_color p Red s;
                       s \<leftarrow> left_rotate s p;
                       Some (s, right_of s p)
                     } else Some (s, w));
           if color_of s (left_of s w) = Black \<and> color_of s (right_of s w) = Black then do {
             s \<leftarrow> (if w \<noteq> 0 then set_color w Red s else Some s);
             remove_fixup_loop s p (parent_of s p)
           } else do {
             (s, w) \<leftarrow> (if color_of s (right_of s w) = Black then do {
                         let l = left_of s w;
                         s \<leftarrow> (if l \<noteq> 0 then set_color l Black s else Some s);
                         s \<leftarrow> (if w \<noteq> 0
                              then do { s \<leftarrow> set_color w Red s; right_rotate s w }
                              else Some s);
                         Some (s, right_of s p)
                       } else Some (s, w));
             pc \<leftarrow> get_color s p;
             s \<leftarrow> (if w \<noteq> 0 then set_color w pc s else Some s);
             s \<leftarrow> set_color p Black s;
             let r = right_of s w;
             s \<leftarrow> (if r \<noteq> 0 then set_color r Black s else Some s);
             s \<leftarrow> left_rotate s p;
             remove_fixup_loop s (root s) 0
           }
         } else do {
           let w = left_of s p;
           (s, w) \<leftarrow> (if color_of s w = Red then do {
                       s \<leftarrow> set_color w Black s;
                       s \<leftarrow> set_color p Red s;
                       s \<leftarrow> right_rotate s p;
                       Some (s, left_of s p)
                     } else Some (s, w));
           if color_of s (right_of s w) = Black \<and> color_of s (left_of s w) = Black then do {
             s \<leftarrow> (if w \<noteq> 0 then set_color w Red s else Some s);
             remove_fixup_loop s p (parent_of s p)
           } else do {
             (s, w) \<leftarrow> (if color_of s (left_of s w) = Black then do {
                         let r = right_of s w;
                         s \<leftarrow> (if r \<noteq> 0 then set_color r Black s else Some s);
                         s \<leftarrow> (if w \<noteq> 0
                              then do { s \<leftarrow> set_color w Red s; left_rotate s w }
                              else Some s);
                         Some (s, left_of s p)
                       } else Some (s, w));
             pc \<leftarrow> get_color s p;
             s \<leftarrow> (if w \<noteq> 0 then set_color w pc s else Some s);
             s \<leftarrow> set_color p Black s;
             let l = left_of s w;
             s \<leftarrow> (if l \<noteq> 0 then set_color l Black s else Some s);
             s \<leftarrow> right_rotate s p;
             remove_fixup_loop s (root s) 0
           }
         })
      else Some (s, x))"

definition remove_fixup :: "RBTree \<Rightarrow> addr \<Rightarrow> addr \<Rightarrow> RBTree option" where
  "remove_fixup s x p = do {
     (s, x) \<leftarrow> remove_fixup_loop s x p;
     if x \<noteq> 0 then set_color x Black s else Some s
   }"

definition unlink_node :: "RBTree \<Rightarrow> addr \<Rightarrow> (RBTree \<times> addr \<times> addr \<times> color) option" where
  "unlink_node s n = do {
     y_original_color \<leftarrow> get_color s n;
     nl \<leftarrow> get_left s n;
     nr \<leftarrow> get_right s n;
     if nl = 0 then do {
       np \<leftarrow> get_parent s n;
       s \<leftarrow> transplant s n nr;
       Some (s, nr, np, y_original_color)
     } else if nr = 0 then do {
       np \<leftarrow> get_parent s n;
       s \<leftarrow> transplant s n nl;
       Some (s, nl, np, y_original_color)
     } else do {
       y \<leftarrow> minimum s nr;
       y_original_color \<leftarrow> get_color s y;
       x \<leftarrow> get_right s y;
       yp \<leftarrow> get_parent s y;
       (s, x_parent) \<leftarrow>
         (if yp = n then do {
            s \<leftarrow> (if x \<noteq> 0 then set_parent x y s else Some s);
            Some (s, y)
          } else do {
            yr \<leftarrow> get_right s y;
            s \<leftarrow> transplant s y yr;
            nr \<leftarrow> get_right s n;
            s \<leftarrow> set_right y nr s;
            yr \<leftarrow> get_right s y;
            s \<leftarrow> set_parent yr y s;
            Some (s, yp)
          });
       s \<leftarrow> transplant s n y;
       nl \<leftarrow> get_left s n;
       s \<leftarrow> set_left y nl s;
       yl \<leftarrow> get_left s y;
       s \<leftarrow> set_parent yl y s;
       nc \<leftarrow> get_color s n;
       s \<leftarrow> set_color y nc s;
       Some (s, x, x_parent, y_original_color)
     }
   }"

definition rb_remove :: "RBTreeNode \<Rightarrow> RBTree \<Rightarrow> addr \<Rightarrow> (RBTree \<times> addr) option" where
  "rb_remove T s entity =
     (if entity = 0 then Some (s, 0)
      else do {
        let n = node T entity;
        (s, x, x_parent, y_original_color) \<leftarrow> unlink_node s n;
        s \<leftarrow> (if y_original_color = Black then remove_fixup s x x_parent else Some s);
        s \<leftarrow> set_node n RbNode_reset_links s;
        if len s = 0 then None else Some (s\<lparr>len := len s - 1\<rparr>, entity)
      })"

definition pop_first :: "RBTreeNode \<Rightarrow> RBTree \<Rightarrow> (RBTree \<times> addr option) option" where
  "pop_first T s = do {
     f \<leftarrow> first T s;
     if f = 0 then Some (s, None)
     else do { (s, e) \<leftarrow> rb_remove T s f; Some (s, Some f) }
   }"

end
