(* ===== verification/RbShape.thy ===== *)
theory RbShape
  imports RbHeap
begin

text \<open>
  What the nodes of a tree look like as a mathematical object: a binary tree whose nodes carry
  their own address and colour, a zipper of the path from a node up to the root (the pointer
  code climbs by parent links), and the relation \<open>rep\<close> between the node store and such a tree.
  Rotations, colour changes and navigation are proved here as steps on that object.
\<close>

section \<open>Trees and paths\<close>

datatype rbt = Leaf | Node rbt color addr rbt

datatype frame = LF color addr rbt | RF rbt color addr

type_synonym path = "frame list"

primrec inorder :: "rbt \<Rightarrow> addr list" where
  "inorder Leaf = []"
| "inorder (Node l c a r) = inorder l @ a # inorder r"

primrec raddr :: "rbt \<Rightarrow> addr" where
  "raddr Leaf = 0"
| "raddr (Node l c a r) = a"

primrec col :: "rbt \<Rightarrow> color" where
  "col Leaf = Black"
| "col (Node l c a r) = c"

primrec paint :: "color \<Rightarrow> rbt \<Rightarrow> rbt" where
  "paint d Leaf = Leaf"
| "paint d (Node l c a r) = Node l d a r"

primrec faddr :: "frame \<Rightarrow> addr" where
  "faddr (LF c a r) = a"
| "faddr (RF l c a) = a"

primrec fcol :: "frame \<Rightarrow> color" where
  "fcol (LF c a r) = c"
| "fcol (RF l c a) = c"

primrec fill :: "frame \<Rightarrow> rbt \<Rightarrow> rbt" where
  "fill (LF c a r) t = Node t c a r"
| "fill (RF l c a) t = Node l c a t"

primrec plug :: "path \<Rightarrow> rbt \<Rightarrow> rbt" where
  "plug [] t = t"
| "plug (f # k) t = plug k (fill f t)"

definition paddr :: "path \<Rightarrow> addr" where
  "paddr k = (case k of [] \<Rightarrow> 0 | f # _ \<Rightarrow> faddr f)"

definition pcol :: "path \<Rightarrow> color" where
  "pcol k = (case k of [] \<Rightarrow> Black | f # _ \<Rightarrow> fcol f)"

primrec before :: "path \<Rightarrow> addr list" where
  "before [] = []"
| "before (f # k) = before k @ (case f of LF c a r \<Rightarrow> [] | RF l c a \<Rightarrow> inorder l @ [a])"

primrec after :: "path \<Rightarrow> addr list" where
  "after [] = []"
| "after (f # k) = (case f of LF c a r \<Rightarrow> a # inorder r | RF l c a \<Rightarrow> []) @ after k"

lemma paddr_simps [simp]: "paddr [] = 0" "paddr (f # k) = faddr f"
  by (simp_all add: paddr_def)

lemma pcol_simps [simp]: "pcol [] = Black" "pcol (f # k) = fcol f"
  by (simp_all add: pcol_def)

lemma inorder_plug: "inorder (plug k t) = before k @ inorder t @ after k"
  by (induction k arbitrary: t) (auto split: frame.splits)

lemma inorder_paint [simp]: "inorder (paint c t) = inorder t"
  by (cases t) auto

lemma raddr_paint [simp]: "raddr (paint c t) = raddr t"
  by (cases t) auto

lemma col_paint [simp]: "col (paint c t) = (if t = Leaf then Black else c)"
  by (cases t) auto

lemma paint_eq_Leaf [simp]: "paint c t = Leaf \<longleftrightarrow> t = Leaf"
  by (cases t) auto

lemma plug_append: "plug (m @ k) t = plug k (plug m t)"
  by (induction m arbitrary: t) auto

lemma raddr_in [simp]: "raddr t \<in> set (inorder t) \<longleftrightarrow> t \<noteq> Leaf"
  by (cases t) auto

section \<open>Representation in the node store\<close>

primrec rep :: "(addr \<Rightarrow> RbNode) \<Rightarrow> addr \<Rightarrow> rbt \<Rightarrow> bool" where
  "rep h p Leaf \<longleftrightarrow> True"
| "rep h p (Node l c a r) \<longleftrightarrow>
     a \<noteq> 0 \<and> h a = \<lparr>parent = p, left = raddr l, right = raddr r, color = c\<rparr>
     \<and> rep h a l \<and> rep h a r"

primrec prep :: "(addr \<Rightarrow> RbNode) \<Rightarrow> path \<Rightarrow> addr \<Rightarrow> bool" where
  "prep h [] v \<longleftrightarrow> True"
| "prep h (f # k) v \<longleftrightarrow>
     (case f of
        LF c a r \<Rightarrow> a \<noteq> 0 \<and> h a = \<lparr>parent = paddr k, left = v, right = raddr r, color = c\<rparr>
                    \<and> rep h a r \<and> prep h k a
      | RF l c a \<Rightarrow> a \<noteq> 0 \<and> h a = \<lparr>parent = paddr k, left = raddr l, right = v, color = c\<rparr>
                    \<and> rep h a l \<and> prep h k a)"

definition pset :: "path \<Rightarrow> addr set" where
  "pset k = set (before k) \<union> set (after k)"

lemma pset_simps [simp]:
  "pset [] = {}"
  "pset (LF c a r # k) = insert a (set (inorder r) \<union> pset k)"
  "pset (RF l c a # k) = insert a (set (inorder l) \<union> pset k)"
  by (auto simp: pset_def)

lemma rep_plug: "rep h 0 (plug k t) \<longleftrightarrow> prep h k (raddr t) \<and> rep h (paddr k) t"
proof (induction k arbitrary: t)
  case (Cons f k)
  show ?case by (cases f) (auto simp: Cons.IH)
qed simp

lemma rep_nonzero: "rep h p t \<Longrightarrow> 0 \<notin> set (inorder t)"
  by (induction t arbitrary: p) auto

lemma prep_nonzero: "prep h k v \<Longrightarrow> 0 \<notin> pset k"
  by (induction k arbitrary: v) (auto split: frame.splits dest: rep_nonzero)

lemma raddr_plug: "k \<noteq> [] \<Longrightarrow> raddr (plug k t) = faddr (last k)"
proof (induction k arbitrary: t)
  case (Cons f k)
  then show ?case by (cases "k = []"; cases f) auto
qed simp

lemma raddr_zero: "rep h p t \<Longrightarrow> raddr t = 0 \<longleftrightarrow> t = Leaf"
  by (cases t) auto

lemma rep_cong: "(\<And>z. z \<in> set (inorder t) \<Longrightarrow> g z = h z) \<Longrightarrow> rep g p t = rep h p t"
  by (induction t arbitrary: p) auto

text \<open>A write outside a tree, or outside a path, leaves it represented.\<close>

lemma rep_upd [simp]: "x \<notin> set (inorder t) \<Longrightarrow> rep (h(x := n)) p t = rep h p t"
  by (induction t arbitrary: p) auto

lemma prep_upd [simp]: "x \<notin> pset k \<Longrightarrow> prep (h(x := n)) k v = prep h k v"
  by (induction k arbitrary: v) (auto split: frame.splits)

lemma reset_links_new: "RbNode_reset_links n = RbNode_new"
  by (cases n) (simp add: RbNode_reset_links_def RbNode_new_def)

text \<open>The store and the root pointer represent a tree; every node outside it is as in \<open>h\<^sub>0\<close>.\<close>

definition wf :: "(addr \<Rightarrow> RbNode) \<Rightarrow> nat \<Rightarrow> addr set \<Rightarrow> RBTree \<Rightarrow> rbt \<Rightarrow> bool" where
  "wf h0 n A s t \<longleftrightarrow>
     rep (nodes s) 0 t \<and> root s = raddr t \<and> distinct (inorder t) \<and> set (inorder t) \<subseteq> A
     \<and> len s = n \<and> (\<forall>z. z \<notin> A \<longrightarrow> nodes s z = h0 z)"

lemma wf_frame: "wf h0 n A s t \<Longrightarrow> z \<notin> A \<Longrightarrow> nodes s z = h0 z"
  by (simp add: wf_def)

lemma wf_self: "wf h0 n A s t \<Longrightarrow> wf (nodes s) n (set (inorder t)) s t"
  by (simp add: wf_def)

primrec pdist :: "path \<Rightarrow> bool" where
  "pdist [] \<longleftrightarrow> True"
| "pdist (f # k) \<longleftrightarrow>
     (case f of
        LF c a r \<Rightarrow> distinct (a # inorder r) \<and> a \<notin> pset k \<and> set (inorder r) \<inter> pset k = {}
      | RF l c a \<Rightarrow> distinct (a # inorder l) \<and> a \<notin> pset k \<and> set (inorder l) \<inter> pset k = {})
     \<and> pdist k"

lemma distinct_plug:
  "distinct (inorder (plug k t)) \<longleftrightarrow>
     pdist k \<and> distinct (inorder t) \<and> set (inorder t) \<inter> pset k = {}"
proof (induction k arbitrary: t)
  case (Cons f k)
  show ?case by (cases f) (auto simp: Cons.IH)
qed simp

lemma set_plug: "set (inorder (plug k t)) = set (inorder t) \<union> pset k"
  by (auto simp: inorder_plug pset_def)

section \<open>Single writes: the child link of a path, the parent link of a subtree\<close>

lemmas link_defs = get_parent_def get_left_def get_right_def get_color_def set_node_def
  set_parent_def set_left_def set_right_def set_color_def color_of_def parent_of_def
  left_of_def right_of_def

definition hole_upd :: "path \<Rightarrow> addr \<Rightarrow> (addr \<Rightarrow> RbNode) \<Rightarrow> addr \<Rightarrow> RbNode" where
  "hole_upd k w h = (case k of [] \<Rightarrow> h
     | LF c a r # _ \<Rightarrow> h(a := (h a)\<lparr>left := w\<rparr>)
     | RF l c a # _ \<Rightarrow> h(a := (h a)\<lparr>right := w\<rparr>))"

definition par_upd :: "rbt \<Rightarrow> addr \<Rightarrow> (addr \<Rightarrow> RbNode) \<Rightarrow> addr \<Rightarrow> RbNode" where
  "par_upd t p h = (if t = Leaf then h else h(raddr t := (h (raddr t))\<lparr>parent := p\<rparr>))"

lemma hole_upd_other [simp]: "z \<notin> pset k \<Longrightarrow> hole_upd k w h z = h z"
  by (auto simp: hole_upd_def split: list.splits frame.splits)

lemma rep_hole_upd [simp]: "set (inorder t) \<inter> pset k = {} \<Longrightarrow> rep (hole_upd k w h) p t = rep h p t"
  by (auto simp: hole_upd_def split: list.splits frame.splits)

lemma par_upd_other [simp]: "z \<notin> set (inorder t) \<Longrightarrow> par_upd t p h z = h z"
  by (cases t) (auto simp: par_upd_def)

lemma rep_par_upd_other [simp]:
  "set (inorder t) \<inter> set (inorder u) = {} \<Longrightarrow> rep (par_upd t q h) p u = rep h p u"
  by (cases t) (auto simp: par_upd_def)

lemma prep_par_upd_other [simp]:
  "set (inorder t) \<inter> pset k = {} \<Longrightarrow> prep (par_upd t q h) k v = prep h k v"
  by (cases t) (auto simp: par_upd_def)

lemma rep_par_upd: "rep h q t \<Longrightarrow> distinct (inorder t) \<Longrightarrow> rep (par_upd t p h) p t"
  by (cases t) (auto simp: par_upd_def)

lemma prep_hole_upd: "prep h k v \<Longrightarrow> pdist k \<Longrightarrow> prep (hole_upd k w h) k w"
  by (cases k) (auto simp: hole_upd_def split: frame.splits)

definition root_upd :: "path \<Rightarrow> addr \<Rightarrow> addr \<Rightarrow> addr" where
  "root_upd k v r = (if k = [] then v else r)"

lemma root_upd_plug: "root_upd k (raddr t) (raddr (plug k u)) = raddr (plug k t)"
  by (cases "k = []") (auto simp: root_upd_def raddr_plug)

lemma paddr_zero: "prep h k v \<Longrightarrow> paddr k = 0 \<longleftrightarrow> k = []"
  by (cases k) (auto split: frame.splits)

lemma link_first:
  assumes "prep (nodes s) k u" "u \<noteq> 0" "u \<notin> pset k"
  shows "link_left_first (paddr k) u v s
       = Some (s\<lparr>nodes := hole_upd k v (nodes s), root := root_upd k v (root s)\<rparr>)"
    and "link_right_first (paddr k) u v s
       = Some (s\<lparr>nodes := hole_upd k v (nodes s), root := root_upd k v (root s)\<rparr>)"
  using assms
  by (cases k; auto simp: hole_upd_def root_upd_def link_left_first_def link_right_first_def
        link_defs split: frame.splits)+

section \<open>Colour changes and rotations\<close>

lemma set_color_wf:
  assumes "wf h0 n A s (plug k (Node l c a r))"
  shows "\<exists>s'. set_color a d s = Some s' \<and> wf h0 n A s' (plug k (Node l d a r))"
  using assms root_upd_plug [of k "Node l d a r" "Node l c a r"]
  by (auto simp: wf_def rep_plug distinct_plug set_plug link_defs root_upd_def split: if_splits)

lemma left_rotate_wf:
  assumes "wf h0 n A s (plug k (Node a c x (Node b d y e)))"
  shows "\<exists>s'. left_rotate s x = Some s' \<and> wf h0 n A s' (plug k (Node (Node a c x b) d y e))"
proof -
  define h where "h = nodes s"
  define g where "g = h(x := (h x)\<lparr>right := raddr b\<rparr>)"
  define h1 where "h1 = par_upd b x g"
  define h2 where "h2 = hole_upd k y (h1(y := (h1 y)\<lparr>parent := paddr k\<rparr>))"
  define h3 where "h3 = h2(y := (h2 y)\<lparr>left := x\<rparr>)"
  define h4 where "h4 = h3(x := (h3 x)\<lparr>parent := y\<rparr>)"
  note upd = g_def h1_def h2_def h3_def h4_def
  have tree: "prep h k x" "rep h (paddr k) (Node a c x (Node b d y e))" "pdist k" "distinct (inorder (Node a c x (Node b d y e)))"
    "set (inorder (Node a c x (Node b d y e))) \<inter> pset k = {}"
    using assms by (simp_all add: wf_def rep_plug distinct_plug h_def)
  have b: "raddr b = 0 \<longleftrightarrow> b = Leaf"
    using tree raddr_zero [of h y b] by simp
  have child: "b = Leaf \<Longrightarrow> h1 = g"
    "b \<noteq> Leaf \<Longrightarrow> set_parent (raddr b) x (s\<lparr>nodes := g\<rparr>) = Some (s\<lparr>nodes := h1\<rparr>)"
    using b by (auto simp: h1_def par_upd_def set_parent_def set_node_def)
  have h1: "h1 x = (h x)\<lparr>right := raddr b\<rparr>" "prep h1 k x"
    using tree by (simp_all add: h1_def g_def Int_Un_distrib2)
  have fields: "left (h y) = raddr b" "right (h x) = y" "parent (h x) = paddr k"
    "x \<noteq> 0" "y \<noteq> 0" "x \<noteq> y" "x \<notin> pset k" "y \<notin> pset k"
    using tree by simp_all
  have "left_rotate s x = Some (s\<lparr>nodes := h4, root := root_upd k y (root s)\<rparr>)"
    using fields b child h1 h_def [symmetric] unfolding h4_def h3_def h2_def g_def
    by (cases "b = Leaf") (simp_all add: left_rotate_def get_left_def get_right_def get_parent_def
        set_right_def set_left_def set_node_def set_parent_def [of x] set_parent_def [of y] link_first)
  moreover have "rep h4 0 (plug k (Node (Node a c x b) d y e))"
    using tree unfolding rep_plug upd
    by (simp add: prep_hole_upd rep_par_upd [where q = y] Int_Un_distrib Int_Un_distrib2 Int_commute)
  moreover have "h4 z = h0 z" if "z \<notin> A" for z
  proof -
    from assms that have "z \<noteq> x" "z \<noteq> y" "z \<notin> pset k" "z \<notin> set (inorder b)" "h z = h0 z"
      by (auto simp: wf_def set_plug h_def)
    then show ?thesis by (simp add: upd)
  qed
  ultimately show ?thesis
    using assms root_upd_plug [of k "Node (Node a c x b) d y e" "Node a c x (Node b d y e)"]
    by (auto simp: wf_def inorder_plug)
qed

lemma right_rotate_wf:
  assumes "wf h0 n A s (plug k (Node (Node a c x b) d y e))"
  shows "\<exists>s'. right_rotate s y = Some s' \<and> wf h0 n A s' (plug k (Node a c x (Node b d y e)))"
proof -
  define h where "h = nodes s"
  define g where "g = h(y := (h y)\<lparr>left := raddr b\<rparr>)"
  define h1 where "h1 = par_upd b y g"
  define h2 where "h2 = hole_upd k x (h1(x := (h1 x)\<lparr>parent := paddr k\<rparr>))"
  define h3 where "h3 = h2(x := (h2 x)\<lparr>right := y\<rparr>)"
  define h4 where "h4 = h3(y := (h3 y)\<lparr>parent := x\<rparr>)"
  note upd = g_def h1_def h2_def h3_def h4_def
  have tree: "prep h k y" "rep h (paddr k) (Node (Node a c x b) d y e)" "pdist k" "distinct (inorder (Node (Node a c x b) d y e))"
    "set (inorder (Node (Node a c x b) d y e)) \<inter> pset k = {}"
    using assms by (simp_all add: wf_def rep_plug distinct_plug h_def)
  have b: "raddr b = 0 \<longleftrightarrow> b = Leaf"
    using tree raddr_zero [of h x b] by simp
  have child: "b = Leaf \<Longrightarrow> h1 = g"
    "b \<noteq> Leaf \<Longrightarrow> set_parent (raddr b) y (s\<lparr>nodes := g\<rparr>) = Some (s\<lparr>nodes := h1\<rparr>)"
    using b by (auto simp: h1_def par_upd_def set_parent_def set_node_def)
  have h1: "h1 y = (h y)\<lparr>left := raddr b\<rparr>" "prep h1 k y"
    using tree by (simp_all add: h1_def g_def Int_Un_distrib2)
  have fields: "right (h x) = raddr b" "left (h y) = x" "parent (h y) = paddr k"
    "y \<noteq> 0" "x \<noteq> 0" "y \<noteq> x" "y \<notin> pset k" "x \<notin> pset k"
    using tree by simp_all
  have "right_rotate s y = Some (s\<lparr>nodes := h4, root := root_upd k x (root s)\<rparr>)"
    using fields b child h1 h_def [symmetric] unfolding h4_def h3_def h2_def g_def
    by (cases "b = Leaf") (simp_all add: right_rotate_def get_left_def get_right_def get_parent_def
        set_right_def set_left_def set_node_def set_parent_def [of x] set_parent_def [of y] link_first)
  moreover have "rep h4 0 (plug k (Node a c x (Node b d y e)))"
    using tree unfolding rep_plug upd
    by (simp add: prep_hole_upd rep_par_upd [where q = x] Int_Un_distrib Int_Un_distrib2 Int_commute)
  moreover have "h4 z = h0 z" if "z \<notin> A" for z
  proof -
    from assms that have "z \<noteq> x" "z \<noteq> y" "z \<notin> pset k" "z \<notin> set (inorder b)" "h z = h0 z"
      by (auto simp: wf_def set_plug h_def)
    then show ?thesis by (simp add: upd)
  qed
  ultimately show ?thesis
    using assms root_upd_plug [of k "Node a c x (Node b d y e)" "Node (Node a c x b) d y e"]
    by (auto simp: wf_def inorder_plug)
qed

section \<open>Navigation\<close>

lemma inorder_eq_Nil [simp]: "inorder t = [] \<longleftrightarrow> t = Leaf"
  by (cases t) auto

lemma minimum_rep: "rep (nodes s) p t \<Longrightarrow> minimum s (raddr t) = Some (head_or_null (inorder t))"
proof (induction t arbitrary: p)
  case Leaf
  then show ?case by (simp add: minimum.simps)
next
  case (Node l c a r)
  then show ?case
    by (cases l) (auto simp: minimum.simps [of s a])
qed

lemma maximum_rep: "rep (nodes s) p t \<Longrightarrow> maximum s (raddr t) = Some (head_or_null (rev (inorder t)))"
proof (induction t arbitrary: p)
  case Leaf
  then show ?case by (simp add: maximum.simps)
next
  case (Node l c a r)
  then show ?case
    by (cases r) (auto simp: maximum.simps [of s a])
qed

lemma climb_rep:
  "prep (nodes s) k n \<Longrightarrow> n \<noteq> 0 \<Longrightarrow> n \<notin> pset k \<Longrightarrow> pdist k \<Longrightarrow>
   climb s n (paddr k) = Some (head_or_null (after k))"
proof (induction k arbitrary: n)
  case Nil
  then show ?case by (simp add: climb.simps)
next
  case (Cons f k)
  then show ?case by (cases f) (auto simp: climb.simps [of s n])
qed

text \<open>Every member is the focus of a path.\<close>

lemma focus: "a \<in> set (inorder t) \<Longrightarrow> \<exists>k l c r. t = plug k (Node l c a r)"
proof (induction t)
  case (Node l c b r)
  consider "a = b" | "a \<in> set (inorder l)" | "a \<in> set (inorder r)" using Node.prems by auto
  then show ?case
  proof cases
    case 1
    then show ?thesis by (metis plug.simps(1))
  next
    case 2
    then obtain k l' c' r' where "l = plug k (Node l' c' a r')" using Node.IH by blast
    then have "Node l c b r = plug (k @ [LF c b r]) (Node l' c' a r')" by (simp add: plug_append)
    then show ?thesis by blast
  next
    case 3
    then obtain k l' c' r' where "r = plug k (Node l' c' a r')" using Node.IH by blast
    then have "Node l c b r = plug (k @ [RF l c b]) (Node l' c' a r')" by (simp add: plug_append)
    then show ?thesis by blast
  qed
qed simp

lemma upper_bound_loop_rep:
  assumes "rep (nodes s) p t"
    and "sorted_wrt (\<lambda>a b. cmp T x (entity_of T a) = Less \<longrightarrow> cmp T x (entity_of T b) = Less) (inorder t)"
  shows "upper_bound_loop T s x d (raddr t) =
    Some (head_or_null (filter (\<lambda>a. cmp T x (entity_of T a) = Less) (inorder t) @ [d]))"
  using assms
proof (induction t arbitrary: p d)
  case Leaf
  then show ?case by (simp add: upper_bound_loop.simps)
next
  case (Node l c a r)
  show ?case
  proof (cases "cmp T x (entity_of T a) = Less")
    case True
    with Node show ?thesis
      by (auto simp: upper_bound_loop.simps [of T s x d a] sorted_wrt_append)
  next
    case False
    with Node have "filter (\<lambda>a. cmp T x (entity_of T a) = Less) (inorder l) = []"
      by (auto simp: sorted_wrt_append filter_empty_conv)
    with False Node show ?thesis
      by (auto simp: upper_bound_loop.simps [of T s x d a] sorted_wrt_append)
  qed
qed

section \<open>Red-black invariants on trees and paths\<close>

primrec bh :: "rbt \<Rightarrow> nat" where
  "bh Leaf = 0"
| "bh (Node l c a r) = bh l + (if c = Black then 1 else 0)"

primrec invh :: "rbt \<Rightarrow> bool" where
  "invh Leaf \<longleftrightarrow> True"
| "invh (Node l c a r) \<longleftrightarrow> bh l = bh r \<and> invh l \<and> invh r"

primrec invc :: "rbt \<Rightarrow> bool" where
  "invc Leaf \<longleftrightarrow> True"
| "invc (Node l c a r) \<longleftrightarrow>
     (c = Red \<longrightarrow> col l = Black \<and> col r = Black) \<and> invc l \<and> invc r"

definition rbtree :: "rbt \<Rightarrow> bool" where
  "rbtree t \<longleftrightarrow> invh t \<and> invc t \<and> col t = Black"

primrec pinvh :: "path \<Rightarrow> nat \<Rightarrow> bool" where
  "pinvh [] n \<longleftrightarrow> True"
| "pinvh (f # k) n \<longleftrightarrow>
     (case f of LF c a r \<Rightarrow> bh r = n \<and> invh r | RF l c a \<Rightarrow> bh l = n \<and> invh l)
     \<and> pinvh k (n + (if fcol f = Black then 1 else 0))"

primrec pinvc :: "path \<Rightarrow> bool" where
  "pinvc [] \<longleftrightarrow> True"
| "pinvc (f # k) \<longleftrightarrow>
     (case f of LF c a r \<Rightarrow> invc r \<and> (c = Red \<longrightarrow> col r = Black)
              | RF l c a \<Rightarrow> invc l \<and> (c = Red \<longrightarrow> col l = Black))
     \<and> (fcol f = Red \<longrightarrow> k \<noteq> [] \<and> pcol k = Black) \<and> pinvc k"

lemma not_Black [simp]: "c \<noteq> Black \<longleftrightarrow> c = Red"
  by (cases c) auto

lemma not_Red [simp]: "c \<noteq> Red \<longleftrightarrow> c = Black"
  by (cases c) auto

lemma invh_plug: "invh (plug k t) \<longleftrightarrow> invh t \<and> pinvh k (bh t)"
proof (induction k arbitrary: t)
  case (Cons f k)
  show ?case by (cases f) (auto simp: Cons.IH)
qed simp

lemma col_plug: "k \<noteq> [] \<Longrightarrow> col (plug k t) = fcol (last k)"
proof (induction k arbitrary: t)
  case (Cons f k)
  then show ?case by (cases "k = []"; cases f) auto
qed simp

lemma invc_plug:
  "(invc (plug k t) \<and> (k \<noteq> [] \<longrightarrow> col (plug k t) = Black)) \<longleftrightarrow> invc t \<and> pinvc k \<and> \<not> (col t = Red \<and> pcol k = Red)"
proof (induction k arbitrary: t)
  case (Cons f k)
  show ?case using Cons[of "fill f t"] by (cases f) (auto)
qed simp

lemma rbtree_plug:
  "rbtree (plug k t) \<longleftrightarrow>
     invh t \<and> pinvh k (bh t) \<and> invc t \<and> pinvc k \<and> \<not> (col t = Red \<and> pcol k = Red)
     \<and> (k = [] \<longrightarrow> col t = Black)"
  using invc_plug [of k t] by (auto simp: rbtree_def invh_plug)

lemma bh_paint_Black [simp]: "col t = Red \<Longrightarrow> bh (paint Black t) = Suc (bh t)"
  by (cases t) auto

lemma invh_paint [simp]: "invh (paint c t) = invh t"
  by (cases t) auto

lemma invc_paint_Black [simp]: "invc t \<Longrightarrow> invc (paint Black t)"
  by (cases t) auto

lemma rbtree_paint: "invh t \<Longrightarrow> invc t \<Longrightarrow> rbtree (paint Black t)"
  by (simp add: rbtree_def)

lemma rbtree_Node:
  "rbtree (Node l c a r) \<longleftrightarrow>
     c = Black \<and> bh l = bh r \<and> invh l \<and> invh r \<and> invc l \<and> invc r"
  by (auto simp: rbtree_def)

lemma invc_plugI:
  "invc t \<Longrightarrow> pinvc k \<Longrightarrow> col t = Black \<or> pcol k = Black \<Longrightarrow> invc (plug k t)"
  using invc_plug [of k t] by auto

section \<open>Reading the store along a path\<close>

lemma wf_rep: "wf h0 n A s (plug k t) \<Longrightarrow> rep (nodes s) (paddr k) t \<and> prep (nodes s) k (raddr t)"
  by (simp add: wf_def rep_plug)

lemma wf_dist: "wf h0 n A s (plug k t) \<Longrightarrow> distinct (inorder t)"
  by (simp add: wf_def distinct_plug)

lemma color_of_rep: "rep (nodes s) q t \<Longrightarrow> color_of s (raddr t) = col t"
  by (cases t) (auto simp: color_of_def)

lemma color_of_prep: "prep (nodes s) k v \<Longrightarrow> color_of s (paddr k) = pcol k"
  by (cases k) (auto simp: color_of_def split: frame.splits)

end
