(* ===== verification/RbInsert.thy ===== *)
theory RbInsert
  imports RbShape
begin

text \<open>
  Insertion (\<^verbatim>\<open>RBTree::insert\<close>, \<^verbatim>\<open>insert_fixup\<close>): the pointer code computes the same tree as
  the function \<open>ins_fix\<close> on paths, which restores the red-black invariants and keeps the order.
\<close>

section \<open>Insertion on paths\<close>

fun ins_fix :: "path \<Rightarrow> rbt \<Rightarrow> rbt" where
  "ins_fix (LF Red p pr # LF gc g u # k) z =
     (if col u = Red then ins_fix k (Node (Node z Black p pr) Red g (paint Black u))
      else plug k (Node z Black p (Node pr Red g u)))"
| "ins_fix (RF pl Red p # LF gc g u # k) z =
     (if col u = Red then ins_fix k (Node (Node pl Black p z) Red g (paint Black u))
      else (case z of Leaf \<Rightarrow> Leaf
            | Node zl zc za zr \<Rightarrow> plug k (Node (Node pl Red p zl) Black za (Node zr Red g u))))"
| "ins_fix (LF Red p pr # RF u gc g # k) z =
     (if col u = Red then ins_fix k (Node (paint Black u) Red g (Node z Black p pr))
      else (case z of Leaf \<Rightarrow> Leaf
            | Node zl zc za zr \<Rightarrow> plug k (Node (Node u Red g zl) Black za (Node zr Red p pr))))"
| "ins_fix (RF pl Red p # RF u gc g # k) z =
     (if col u = Red then ins_fix k (Node (paint Black u) Red g (Node pl Black p z))
      else plug k (Node (Node u Red g pl) Black p z))"
| "ins_fix k z = plug k z"

lemma inorder_ins_fix: "z \<noteq> Leaf \<Longrightarrow> inorder (ins_fix k z) = inorder (plug k z)"
  by (induction k z rule: ins_fix.induct) (auto simp: inorder_plug split: rbt.splits)

lemma rbtree_ins_fix:
  assumes "invh z" "invc z" "col z = Red" "pinvh k (bh z)" "pinvc k"
  shows "rbtree (paint Black (ins_fix k z))"
  using assms
  by (induction k z rule: ins_fix.induct)
    (auto intro!: rbtree_paint invc_plugI simp: invh_plug rbtree_Node split: rbt.splits frame.splits)

section \<open>The fix-up loop follows the path\<close>

lemma recolour_left:
  assumes "wf h0 n A s (plug k (Node (Node a c p b) d g (Node ul e u ur)))"
  shows "\<exists>s1 s2 s3. set_color p Black s = Some s1 \<and> set_color u Black s1 = Some s2
    \<and> set_color g Red s2 = Some s3
    \<and> wf h0 n A s3 (plug k (Node (Node a Black p b) Red g (Node ul Black u ur)))"
  using set_color_wf [of h0 n A s "LF d g (Node ul e u ur) # k" a c p b Black] assms
    set_color_wf [of h0 n A _ "RF (Node a Black p b) d g # k" ul e u ur Black]
    set_color_wf [of h0 n A _ k "Node a Black p b" d g "Node ul Black u ur" Red]
  by (simp; blast)

lemma recolour_right:
  assumes "wf h0 n A s (plug k (Node (Node ul e u ur) d g (Node a c p b)))"
  shows "\<exists>s1 s2 s3. set_color p Black s = Some s1 \<and> set_color u Black s1 = Some s2
    \<and> set_color g Red s2 = Some s3
    \<and> wf h0 n A s3 (plug k (Node (Node ul Black u ur) Red g (Node a Black p b)))"
  using set_color_wf [of h0 n A s "RF (Node ul e u ur) d g # k" a c p b Black] assms
    set_color_wf [of h0 n A _ "LF d g (Node a Black p b) # k" ul e u ur Black]
    set_color_wf [of h0 n A _ k "Node ul Black u ur" d g "Node a Black p b" Red]
  by (simp; blast)

lemma pivot_left:
  assumes "wf h0 n A s (plug k (Node (Node a c p b) d g u))"
  shows "\<exists>s1 s2 s3. set_color p Black s = Some s1 \<and> set_color g Red s1 = Some s2
    \<and> right_rotate s2 g = Some s3 \<and> wf h0 n A s3 (plug k (Node a Black p (Node b Red g u)))"
  using set_color_wf [of h0 n A s "LF d g u # k" a c p b Black] assms
    set_color_wf [of h0 n A _ k "Node a Black p b" d g u Red]
    right_rotate_wf [of h0 n A _ k a Black p b Red g u]
  by (simp; blast)

lemma pivot_right:
  assumes "wf h0 n A s (plug k (Node u d g (Node a c p b)))"
  shows "\<exists>s1 s2 s3. set_color p Black s = Some s1 \<and> set_color g Red s1 = Some s2
    \<and> left_rotate s2 g = Some s3 \<and> wf h0 n A s3 (plug k (Node (Node u Red g a) Black p b))"
  using set_color_wf [of h0 n A s "RF u d g # k" a c p b Black] assms
    set_color_wf [of h0 n A _ k u d g "Node a Black p b" Red]
    left_rotate_wf [of h0 n A _ k u Red g a Black p b]
  by (simp; blast)

lemma insert_fixup_loop_stop:
  assumes "wf h0 n A s (plug k (Node l c z r))" "pcol k = Black"
  shows "insert_fixup_loop s z = Some s"
  using wf_rep [OF assms(1)] assms(2) color_of_prep [of s k z]
  by (simp add: insert_fixup_loop.simps [of s z] get_parent_def)


lemma iter_recolour_left:
  assumes "wf h0 n A s (plug k (Node (Node a Red p b) gc g u))" "col u = Red" "get_parent s z = Some p"
  shows "\<exists>s'. insert_fixup_loop s z = insert_fixup_loop s' g
    \<and> wf h0 n A s' (plug k (Node (Node a Black p b) Red g (paint Black u)))"
proof -
  from assms(2) obtain ul v ur where u: "u = Node ul Red v ur" by (cases u) auto
  show ?thesis
    using wf_rep [OF assms(1)] wf_dist [OF assms(1)] assms(3) recolour_left [OF assms(1) [unfolded u]]
    by (auto simp: u insert_fixup_loop.simps [of s z] get_parent_def get_left_def get_right_def
        color_of_def)
qed

lemma iter_outer_left:
  assumes "wf h0 n A s (plug k (Node (Node (Node l Red z r) Red p b) gc g u))" "col u = Black"
  shows "\<exists>s'. insert_fixup_loop s z = Some s'
    \<and> wf h0 n A s' (plug k (Node (Node l Red z r) Black p (Node b Red g u)))"
proof -
  note r = wf_rep [OF assms(1)] and d = wf_dist [OF assms(1)]
  from r d have "raddr b \<noteq> z" "color_of s (raddr u) = Black"
    using assms(2) color_of_rep [of s g u] by (cases b; auto)+
  then show ?thesis
    using r d pivot_left [OF assms(1)]
      insert_fixup_loop_stop [of h0 n A _ "LF Black p (Node b Red g u) # k" l Red z r]
    by (auto simp: insert_fixup_loop.simps [of s z] get_parent_def get_left_def get_right_def
        color_of_def [of s p])
qed

lemma iter_inner_left:
  assumes "wf h0 n A s (plug k (Node (Node a Red p (Node l Red z r)) gc g u))" "col u = Black"
  shows "\<exists>s'. insert_fixup_loop s z = Some s' \<and> wf h0 n A s' (plug k (Node (Node a Red p l) Black z (Node r Red g u)))"
proof -
  note r = wf_rep [OF assms(1)] and d = wf_dist [OF assms(1)]
  from r d have "color_of s (raddr u) = Black"
    using assms(2) color_of_rep [of s g u] by auto
  moreover obtain s1 where s1: "left_rotate s p = Some s1" "wf h0 n A s1 (plug k (Node (Node (Node a Red p l) Red z r) gc g u))"
    using left_rotate_wf [of h0 n A s "LF gc g u # k" a Red p l Red z r] assms(1)
    by auto
  ultimately show ?thesis
    using r d wf_rep [OF s1(2)] pivot_left [OF s1(2)]
      insert_fixup_loop_stop [of h0 n A _ "LF Black z (Node r Red g u) # k" a Red p l]
    by (auto simp: insert_fixup_loop.simps [of s z] get_parent_def get_left_def get_right_def
        color_of_def [of s p])
qed

lemma iter_recolour_right:
  assumes "wf h0 n A s (plug k (Node u gc g (Node b Red p a)))" "col u = Red" "get_parent s z = Some p"
  shows "\<exists>s'. insert_fixup_loop s z = insert_fixup_loop s' g
    \<and> wf h0 n A s' (plug k (Node (paint Black u) Red g (Node b Black p a)))"
proof -
  from assms(2) obtain ul v ur where u: "u = Node ul Red v ur" by (cases u) auto
  show ?thesis
    using wf_rep [OF assms(1)] wf_dist [OF assms(1)] assms(3) recolour_right [OF assms(1) [unfolded u]]
    by (auto simp: u insert_fixup_loop.simps [of s z] get_parent_def get_left_def get_right_def
        color_of_def)
qed

lemma iter_outer_right:
  assumes "wf h0 n A s (plug k (Node u gc g (Node b Red p (Node l Red z r))))" "col u = Black"
  shows "\<exists>s'. insert_fixup_loop s z = Some s'
    \<and> wf h0 n A s' (plug k (Node (Node u Red g b) Black p (Node l Red z r)))"
proof -
  note r = wf_rep [OF assms(1)] and d = wf_dist [OF assms(1)]
  from r d have "raddr b \<noteq> z" "color_of s (raddr u) = Black"
    using assms(2) color_of_rep [of s g u] by (cases b; auto)+
  then show ?thesis
    using r d pivot_right [OF assms(1)]
      insert_fixup_loop_stop [of h0 n A _ "RF (Node u Red g b) Black p # k" l Red z r]
    by (auto simp: insert_fixup_loop.simps [of s z] get_parent_def get_left_def get_right_def
        color_of_def [of s p])
qed

lemma iter_inner_right:
  assumes "wf h0 n A s (plug k (Node u gc g (Node (Node l Red z r) Red p a)))" "col u = Black"
  shows "\<exists>s'. insert_fixup_loop s z = Some s' \<and> wf h0 n A s' (plug k (Node (Node u Red g l) Black z (Node r Red p a)))"
proof -
  note r = wf_rep [OF assms(1)] and d = wf_dist [OF assms(1)]
  from r d have "color_of s (raddr u) = Black"
    using assms(2) color_of_rep [of s g u] by auto
  moreover obtain s1 where s1: "right_rotate s p = Some s1" "wf h0 n A s1 (plug k (Node u gc g (Node l Red z (Node r Red p a))))"
    using right_rotate_wf [of h0 n A s "RF u gc g # k" l Red z r Red p a] assms(1)
    by auto
  ultimately show ?thesis
    using r d wf_rep [OF s1(2)] pivot_right [OF s1(2)]
      insert_fixup_loop_stop [of h0 n A _ "RF (Node u Red g l) Black z # k" r Red p a]
    by (auto simp: insert_fixup_loop.simps [of s z] get_parent_def get_left_def get_right_def
        color_of_def [of s p])
qed

lemma ins_fix_stop: "pcol k = Black \<Longrightarrow> ins_fix k z = plug k z"
  by (cases "(k, z)" rule: ins_fix.cases) auto

lemma insert_fixup_loop_wf:
  assumes "wf h0 n A s (plug k (Node l Red z r))" "pinvc k"
  shows "\<exists>s'. insert_fixup_loop s z = Some s' \<and> wf h0 n A s' (ins_fix k (Node l Red z r))"
  using assms
proof (induction "length k" arbitrary: k s l z r rule: less_induct)
  case less
  let ?z = "Node l Red z r"
  show ?case
  proof (cases "pcol k")
    case Black
    then show ?thesis using less.prems by (auto simp: ins_fix_stop insert_fixup_loop_stop)
  next
    case Red
    with less.prems(2) obtain f f' k' where k: "k = f # f' # k'" "fcol f = Red"
      by (cases k) (auto simp: neq_Nil_conv)
    have parent: "get_parent s z = Some (faddr f)"
      using wf_rep [OF less.prems(1)] by (simp add: k get_parent_def)
    have IH: "\<exists>s''. insert_fixup_loop s' z' = Some s'' \<and> wf h0 n A s'' (ins_fix k' (Node l' Red z' r'))"
      if "wf h0 n A s' (plug k' (Node l' Red z' r'))" for s' z' l' r'
      using that less.prems(2) by (intro less.hyps) (auto simp: k)
    show ?thesis
    proof (cases f; cases f')
      fix c p b gc g u
      assume "f = LF c p b" "f' = LF gc g u"
      then show ?thesis
        using less.prems(1) k parent IH iter_outer_left [of h0 n A s k' l z r p b gc g u]
          iter_recolour_left [of h0 n A s k' ?z p b gc g u z]
        by (cases "col u") fastforce+
    next
      fix c p b gc g u
      assume "f = LF c p b" "f' = RF u gc g"
      then show ?thesis
        using less.prems(1) k parent IH iter_inner_right [of h0 n A s k' u gc g l z r p b]
          iter_recolour_right [of h0 n A s k' u gc g ?z p b z]
        by (cases "col u") fastforce+
    next
      fix c p a gc g u
      assume "f = RF a c p" "f' = LF gc g u"
      then show ?thesis
        using less.prems(1) k parent IH iter_inner_left [of h0 n A s k' a p l z r gc g u]
          iter_recolour_left [of h0 n A s k' a p ?z gc g u z]
        by (cases "col u") fastforce+
    next
      fix c p a gc g u
      assume "f = RF a c p" "f' = RF u gc g"
      then show ?thesis
        using less.prems(1) k parent IH iter_outer_right [of h0 n A s k' u gc g a p l z r]
          iter_recolour_right [of h0 n A s k' u gc g a p ?z z]
        by (cases "col u") fastforce+
    qed
  qed
qed
section \<open>Descent\<close>

fun ins_path :: "RBTreeNode \<Rightarrow> addr \<Rightarrow> rbt \<Rightarrow> path \<Rightarrow> path" where
  "ins_path T x Leaf k = k"
| "ins_path T x (Node l c a r) k =
     (if cmp_nodes T x a = Less then ins_path T x l (LF c a r # k)
      else ins_path T x r (RF l c a # k))"

definition turns :: "RBTreeNode \<Rightarrow> addr \<Rightarrow> path \<Rightarrow> bool" where
  "turns T x k \<longleftrightarrow>
     (case k of [] \<Rightarrow> True
      | LF c a r # _ \<Rightarrow> cmp_nodes T x a = Less
      | RF l c a # _ \<Rightarrow> cmp_nodes T x a \<noteq> Less)"

lemma plug_ins_path: "plug (ins_path T x t k) Leaf = plug k t"
  by (induction T x t k rule: ins_path.induct) auto

lemma turns_ins_path: "turns T x k \<Longrightarrow> turns T x (ins_path T x t k)"
  by (induction T x t k rule: ins_path.induct) (auto simp: turns_def)

lemma insert_descend_rep:
  assumes "rep (nodes s) q t" "\<forall>a \<in> set (inorder t). cmp_nodes T x a \<noteq> Equal"
  shows "insert_descend T s x (paddr k) (raddr t) = Some (paddr (ins_path T x t k))"
  using assms
proof (induction t arbitrary: q k)
  case Leaf
  then show ?case by (simp add: insert_descend.simps)
next
  case (Node l c a r)
  have "cmp_nodes T x a = Less \<or> cmp_nodes T x a = Greater"
    using Node.prems(2) by (cases "cmp_nodes T x a") auto
  then show ?case
    using Node.prems Node.IH(1) [of a "LF c a r # k"] Node.IH(2) [of a "RF l c a # k"]
    by (auto simp: insert_descend.simps [of T s x "paddr k" a])
qed

lemma inorder_ins_path:
  "sorted_wrt (\<lambda>a b. cmp_nodes T x a = Less \<longrightarrow> cmp_nodes T x b = Less) (inorder t) \<Longrightarrow>
   before (ins_path T x t k) @ x # after (ins_path T x t k)
     = before k @ oinsert (cmp_nodes T) x (inorder t) @ after k"
proof (induction T x t k rule: ins_path.induct)
  case (2 T x l c a r k)
  have "oinsert (cmp_nodes T) x (inorder l @ a # inorder r) =
      (if cmp_nodes T x a = Less then oinsert (cmp_nodes T) x (inorder l) @ a # inorder r
       else inorder l @ a # oinsert (cmp_nodes T) x (inorder r))"
    using 2(3) by (intro oinsert_append) simp
  moreover have "sorted_wrt (\<lambda>a b. cmp_nodes T x a = Less \<longrightarrow> cmp_nodes T x b = Less) (inorder l)"
    "sorted_wrt (\<lambda>a b. cmp_nodes T x a = Less \<longrightarrow> cmp_nodes T x b = Less) (inorder r)"
    using 2(3) by (simp_all only: inorder.simps sorted_wrt_append sorted_wrt.simps)
  note IH = 2(1) [OF _ this(1)] 2(2) [OF _ this(2)]
  ultimately show ?case by (cases "cmp_nodes T x a = Less") (simp_all add: IH)
qed simp

section \<open>Linking the new node\<close>

lemma link_new_node:
  assumes w: "wf h0 m A s (plug k Leaf)" and n: "n \<noteq> 0" "n \<notin> pset k" "n \<in> A"
    and t: "turns T n k"
    and nn: "nodes s n = RbNode_new"
  shows "\<exists>s1 s2. set_parent n (paddr k) s = Some s1
    \<and> (if paddr k = 0 then Some (s1\<lparr>root := n\<rparr>)
        else if cmp_nodes T n (paddr k) = Less then set_left (paddr k) n s1
        else set_right (paddr k) n s1) = Some s2
    \<and> wf h0 m A s2 (plug k (Node Leaf Red n Leaf))"
proof -
  define h where "h = (nodes s)(n := \<lparr>parent = paddr k, left = 0, right = 0, color = Red\<rparr>)"
  have p: "prep (nodes s) k 0" "pdist k" using w by (auto simp: wf_def rep_plug distinct_plug)
  have s1: "set_parent n (paddr k) s = Some (s\<lparr>nodes := h\<rparr>)"
    using n nn by (simp add: h_def set_parent_def set_node_def RbNode_new_def)
  have s2: "(if paddr k = 0 then Some (s\<lparr>nodes := h, root := n\<rparr>)
        else if cmp_nodes T n (paddr k) = Less then set_left (paddr k) n (s\<lparr>nodes := h\<rparr>)
        else set_right (paddr k) n (s\<lparr>nodes := h\<rparr>))
      = Some (s\<lparr>nodes := hole_upd k n h, root := root_upd k n (root s)\<rparr>)"
    using p(1) t by (cases k) (auto simp: turns_def hole_upd_def root_upd_def set_left_def
        set_right_def set_node_def split: frame.splits)
  have "prep h k 0" using p n by (simp add: h_def)
  then have "prep (hole_upd k n h) k n" using p(2) by (rule prep_hole_upd)
  then have "rep (hole_upd k n h) 0 (plug k (Node Leaf Red n Leaf))"
    using n by (simp add: rep_plug h_def)
  moreover have "hole_upd k n h z = h0 z" if "z \<notin> A" for z
  proof -
    from w n that have "z \<noteq> n" "z \<notin> pset k" "nodes s z = h0 z"
      by (auto simp: wf_def set_plug)
    then show ?thesis by (simp add: h_def)
  qed
  ultimately have "wf h0 m A (s\<lparr>nodes := hole_upd k n h, root := root_upd k n (root s)\<rparr>)
      (plug k (Node Leaf Red n Leaf))"
    using w n root_upd_plug [of k "Node Leaf Red n Leaf" Leaf]
    by (auto simp: wf_def distinct_plug set_plug)
  then show ?thesis using s1 s2 by auto
qed

lemma insert_fixup_wf:
  assumes "wf h0 m A s (plug k (Node Leaf Red n Leaf))" "pinvc k"
  shows "\<exists>s'. insert_fixup s n = Some s'
    \<and> wf h0 m A s' (paint Black (ins_fix k (Node Leaf Red n Leaf)))"
proof -
  let ?t = "ins_fix k (Node Leaf Red n Leaf)"
  obtain s1 where s1: "insert_fixup_loop s n = Some s1" "wf h0 m A s1 ?t"
    using insert_fixup_loop_wf [OF assms] by blast
  have "inorder ?t \<noteq> []" by (subst inorder_ins_fix) (auto simp: inorder_plug)
  then obtain l c a r where t: "?t = Node l c a r" by (cases ?t) auto
  then show ?thesis
    using s1 set_color_wf [of h0 m A s1 "[]" l c a r Black]
    by (auto simp: insert_fixup_def wf_def [of h0 m A s1])
qed

end
