(* ===== verification/RbRemove.thy ===== *)
theory RbRemove
  imports RbInsert
begin

text \<open>
  Removal (\<^verbatim>\<open>RBTree::remove\<close>, \<^verbatim>\<open>transplant\<close>, \<^verbatim>\<open>remove_fixup\<close>): unlinking a node leaves the
  tree with one path too short by one black node, and the fix-up loop computes the function
  \<open>del_fix\<close> on paths, which repairs it and keeps the order.
\<close>

section \<open>Removal on paths\<close>

text \<open>
  \<open>final_left x c p w\<close> is the subtree after the last rotation of the loop when the focus \<open>x\<close> is
  the left child of \<open>p\<close> and its black sibling \<open>w\<close> has a red child; \<open>final_right\<close> is its mirror
  image. \<open>del_fix k x\<close> is the tree after the whole fix-up at the focus \<open>x\<close>.
\<close>

fun final_left :: "rbt \<Rightarrow> color \<Rightarrow> addr \<Rightarrow> rbt \<Rightarrow> rbt" where
  "final_left x c p (Node wl wc w wr) =
     (if col wr = Black
      then (case wl of Leaf \<Rightarrow> Leaf
            | Node a d b e \<Rightarrow> Node (Node x Black p a) c b (Node e Black w wr))
      else Node (Node x Black p wl) c w (paint Black wr))"
| "final_left x c p Leaf = Leaf"

fun final_right :: "rbt \<Rightarrow> color \<Rightarrow> addr \<Rightarrow> rbt \<Rightarrow> rbt" where
  "final_right (Node wl wc w wr) c p x =
     (if col wl = Black
      then (case wr of Leaf \<Rightarrow> Leaf
            | Node a d b e \<Rightarrow> Node (Node wl Black w a) c b (Node e Black p x))
      else Node (paint Black wl) c w (Node wr Black p x))"
| "final_right Leaf c p x = Leaf"

primrec nephews_black :: "rbt \<Rightarrow> bool" where
  "nephews_black Leaf \<longleftrightarrow> True"
| "nephews_black (Node l c a r) \<longleftrightarrow> col l = Black \<and> col r = Black"

fun del_fix :: "path \<Rightarrow> rbt \<Rightarrow> rbt" where
  "del_fix [] x = paint Black x"
| "del_fix (LF c p w # k) x =
     (if col x = Red then plug (LF c p w # k) (paint Black x)
      else case w of Leaf \<Rightarrow> Leaf
      | Node wl Red a wr \<Rightarrow>
          (if nephews_black wl then plug k (Node (Node x Black p (paint Red wl)) Black a wr)
           else paint Black (plug k (Node (final_left x Red p wl) Black a wr)))
      | Node wl Black a wr \<Rightarrow>
          (if nephews_black w then del_fix k (Node x c p (paint Red w))
           else paint Black (plug k (final_left x c p w))))"
| "del_fix (RF w c p # k) x =
     (if col x = Red then plug (RF w c p # k) (paint Black x)
      else case w of Leaf \<Rightarrow> Leaf
      | Node wl Red a wr \<Rightarrow>
          (if nephews_black wr then plug k (Node wl Black a (Node (paint Red wr) Black p x))
           else paint Black (plug k (Node wl Black a (final_right wr Red p x))))
      | Node wl Black a wr \<Rightarrow>
          (if nephews_black w then del_fix k (Node (paint Red w) c p x)
           else paint Black (plug k (final_right w c p x))))"

lemma inorder_final:
  "\<not> nephews_black w \<Longrightarrow> inorder (final_left x c p w) = inorder x @ p # inorder w"
  "\<not> nephews_black w \<Longrightarrow> inorder (final_right w c p x) = inorder w @ p # inorder x"
  by (cases w; auto split: rbt.splits)+

lemma inv_final_left:
  assumes "\<not> nephews_black w" "invh x" "invc x" "col x = Black" "invh w" "invc w" "bh w = Suc (bh x)" "col w = Black"
  shows "invh (final_left x c p w) \<and> bh (final_left x c p w) = Suc (bh x) + (if c = Black then 1 else 0)
    \<and> invc (final_left x c p w) \<and> col (final_left x c p w) = c"
  using assms by (cases w) (auto split: rbt.splits)

lemma inv_final_right:
  assumes "\<not> nephews_black w" "invh x" "invc x" "col x = Black" "invh w" "invc w" "bh w = Suc (bh x)" "col w = Black"
  shows "invh (final_right w c p x) \<and> bh (final_right w c p x) = Suc (bh x) + (if c = Black then 1 else 0)
    \<and> invc (final_right w c p x) \<and> col (final_right w c p x) = c"
  using assms by (cases w) (auto split: rbt.splits)

lemma paint_col: "col t = c \<Longrightarrow> paint c t = t"
  by (cases t) auto

lemma bh_paint_Red [simp]: "col t = Black \<Longrightarrow> bh (paint Red t) = bh t - 1"
  by (cases t) auto

lemma invc_paint_Red: "nephews_black t \<Longrightarrow> invc t \<Longrightarrow> invc (paint Red t)"
  by (cases t) auto

lemma inorder_del_fix:
  assumes "pinvh k (Suc (bh x))" "pinvc k" "invh x"
  shows "inorder (del_fix k x) = inorder (plug k x)"
  using assms
proof (induction k x rule: del_fix.induct)
  case (2 c p w k x)
  show ?case
  proof (cases "col x")
    case Black
    from 2(2) obtain wl d a wr where w: "w = Node wl d a wr" by (cases w) auto
    show ?thesis
    proof (cases "d = Black \<and> nephews_black w")
      case True
      then show ?thesis using 2(1) [OF _ w] 2(2-) Black by (clarsimp simp: w inorder_plug)
    next
      case False
      then show ?thesis
        using Black by (cases d) (simp_all add: w inorder_plug inorder_final del: nephews_black.simps final_left.simps final_right.simps)
    qed
  qed (simp add: inorder_plug)
next
  case (3 w c p k x)
  show ?case
  proof (cases "col x")
    case Black
    from 3(2) obtain wl d a wr where w: "w = Node wl d a wr" by (cases w) auto
    show ?thesis
    proof (cases "d = Black \<and> nephews_black w")
      case True
      then show ?thesis using 3(1) [OF _ w] 3(2-) Black by (clarsimp simp: w inorder_plug)
    next
      case False
      then show ?thesis
        using Black by (cases d) (simp_all add: w inorder_plug inorder_final del: nephews_black.simps final_left.simps final_right.simps)
    qed
  qed (simp add: inorder_plug)
qed simp

lemma rbtree_del_fix:
  assumes "invh x" "invc (paint Black x)" "pinvh k (Suc (bh x))" "pinvc k"
  shows "rbtree (del_fix k x)"
  using assms
proof (induction k x rule: del_fix.induct)
  case (2 c p w k x)
  show ?case
  proof (cases "col x")
    case Red
    then show ?thesis using 2(2-) by (cases x) (auto simp: rbtree_plug)
  next
    case Black
    from 2(4) obtain wl d a wr where w: "w = Node wl d a wr" by (cases w) auto
    have x: "invc x" using 2(3) Black by (simp add: paint_col)
    show ?thesis
    proof (cases d)
      case Red
      then show ?thesis
        using 2(2-) Black x inv_final_left [of wl x Red p]
        by (auto simp: w rbtree_plug invh_plug invc_paint_Red intro!: rbtree_paint invc_plugI)
    next
      case d: Black
      show ?thesis
      proof (cases "nephews_black w")
        case True
        then show ?thesis using 2(1) [OF _ w] 2(2-) Black x by (clarsimp simp: w d)
      next
        case False
        then show ?thesis
          using 2(2-) Black x inv_final_left [of w x c p] d
          by (auto simp: w rbtree_plug invh_plug simp del: nephews_black.simps intro!: rbtree_paint invc_plugI)
      qed
    qed
  qed
next
  case (3 w c p k x)
  show ?case
  proof (cases "col x")
    case Red
    then show ?thesis using 3(2-) by (cases x) (auto simp: rbtree_plug)
  next
    case Black
    from 3(4) obtain wl d a wr where w: "w = Node wl d a wr" by (cases w) auto
    have x: "invc x" using 3(3) Black by (simp add: paint_col)
    show ?thesis
    proof (cases d)
      case Red
      then show ?thesis
        using 3(2-) Black x inv_final_right [of wr x Red p]
        by (auto simp: w rbtree_plug invh_plug invc_paint_Red intro!: rbtree_paint invc_plugI)
    next
      case d: Black
      show ?thesis
      proof (cases "nephews_black w")
        case True
        then show ?thesis using 3(1) [OF _ w] 3(2-) Black x by (clarsimp simp: w d)
      next
        case False
        then show ?thesis
          using 3(2-) Black x inv_final_right [of w x c p] d
          by (auto simp: w rbtree_plug invh_plug simp del: nephews_black.simps intro!: rbtree_paint invc_plugI)
      qed
    qed
  qed
qed (simp add: rbtree_def)


section \<open>The fix-up loop follows the path\<close>

lemma last_in_pset: "k \<noteq> [] \<Longrightarrow> faddr (last k) \<in> pset k"
proof (induction k)
  case (Cons f k)
  then show ?case by (cases "k = []"; cases f) auto
qed simp

lemma not_root:
  assumes "wf h0 n A s (plug (f # k) x)"
  shows "raddr x \<noteq> root s"
proof -
  have "root s \<in> pset (f # k)"
    using assms last_in_pset [of "f # k"] raddr_plug [of "f # k" x] by (simp add: wf_def)
  moreover have "raddr x \<notin> pset (f # k)"
    using assms prep_nonzero [of "nodes s" "f # k"]
    by (cases x) (auto simp: wf_def rep_plug [of _ "f # k"] distinct_plug [of "f # k"] simp del: plug.simps)
  ultimately show ?thesis by auto
qed

lemma wf_links:
  assumes "wf h0 n A s (plug k (Node l c a r))"
  shows "a \<noteq> 0" "left_of s a = raddr l" "right_of s a = raddr r" "get_color s a = Some c"
    "parent_of s a = paddr k" "color_of s a = c" "color_of s (raddr l) = col l" "color_of s (raddr r) = col r"
  using wf_rep [OF assms] color_of_rep [of s a l] color_of_rep [of s a r]
  by (auto simp: left_of_def right_of_def get_color_def parent_of_def color_of_def)

lemmas wf_links_left = wf_links [where k = "LF d p w # k" for d p w k, simplified]
lemmas wf_links_right = wf_links [where k = "RF w d p # k" for d p w k, simplified]

lemma raddr_neq:
  assumes "wf h0 n A s (plug k (Node l c a r))" "r \<noteq> Leaf \<or> l \<noteq> Leaf"
  shows "raddr l \<noteq> raddr r"
proof -
  have "rep (nodes s) a l" "rep (nodes s) a r" "distinct (inorder l @ a # inorder r)"
    using wf_rep [OF assms(1)] wf_dist [OF assms(1)] by simp_all
  then show ?thesis using assms(2) by (cases l; cases r) auto
qed

lemma loop_stop: "x = root s \<or> color_of s x = Red \<Longrightarrow> remove_fixup_loop s x p = Some (s, x)"
  by (auto simp: remove_fixup_loop.simps [of s x p])

text \<open>One iteration with the focus as the left child.\<close>

lemma iter_up_left:
  assumes w: "wf h0 n A s (plug k (Node x c p (Node wl Black a wr)))" and "col x = Black"
    "col wl = Black" "col wr = Black"
  shows "\<exists>s'. remove_fixup_loop s (raddr x) p = remove_fixup_loop s' p (paddr k)
    \<and> wf h0 n A s' (plug k (Node x c p (Node wl Red a wr)))"
proof -
  have l: "wf h0 n A s (plug (LF c p (Node wl Black a wr) # k) x)"
    and r: "wf h0 n A s (plug (RF x c p # k) (Node wl Black a wr))" using w by simp_all
  obtain s' where s': "set_color a Red s = Some s'" "wf h0 n A s' (plug k (Node x c p (Node wl Red a wr)))"
    using set_color_wf [OF r, of Red] by auto
  show ?thesis
    using not_root [OF l] wf_links [OF w] wf_links [OF r] wf_links [OF s'(2)] s' assms(2-)
    by (intro exI [of _ s']) (simp add: remove_fixup_loop.simps [of s "raddr x" p])
qed

lemma iter_final_left:
  assumes w: "wf h0 n A s (plug k (Node x c p (Node wl Black a wr)))" and "col x = Black"
    "col wl = Red \<or> col wr = Red"
  shows "\<exists>s'. remove_fixup_loop s (raddr x) p = Some (s', root s')
    \<and> wf h0 n A s' (plug k (final_left x c p (Node wl Black a wr)))"
proof -
  have l: "wf h0 n A s (plug (LF c p (Node wl Black a wr) # k) x)"
    and r: "wf h0 n A s (plug (RF x c p # k) (Node wl Black a wr))" using w by simp_all
  note L = not_root [OF l] wf_links [OF w] wf_links [OF r]
  show ?thesis
  proof (cases "col wr")
    case Red
    then obtain b1 b b2 where wr: "wr = Node b1 Red b b2" by (cases wr) auto
    obtain s1 where s1: "set_color a c s = Some s1" "wf h0 n A s1 (plug k (Node x c p (Node wl c a wr)))"
      using set_color_wf [OF r, of c] by auto
    obtain s2 where s2: "set_color p Black s1 = Some s2" "wf h0 n A s2 (plug k (Node x Black p (Node wl c a wr)))"
      using set_color_wf [OF s1(2)] by auto
    obtain s3 where s3: "set_color b Black s2 = Some s3"
      "wf h0 n A s3 (plug k (Node x Black p (Node wl c a (Node b1 Black b b2))))"
      using set_color_wf [of h0 n A s2 "RF wl c a # RF x Black p # k" b1 Red b b2 Black] s2 wr by auto
    obtain s4 where s4: "left_rotate s3 p = Some s4"
      "wf h0 n A s4 (plug k (Node (Node x Black p wl) c a (Node b1 Black b b2)))"
      using left_rotate_wf [OF s3(2)] by auto
    have "right_of s2 a = b" "b \<noteq> 0"
      using s2(2) wf_links [of h0 n A s2 "RF x Black p # k" wl c a wr]
        wf_links [of h0 n A s2 "RF wl c a # RF x Black p # k" b1 Red b b2] by (simp_all add: wr)
    then show ?thesis
      using L s1(1) s2(1) s3(1) s4 Red assms(2) loop_stop [of "root s4" s4 0]
      by (simp add: remove_fixup_loop.simps [of s "raddr x" p] wr)
  next
    case Black
    with assms(3) obtain b1 b b2 where wl: "wl = Node b1 Red b b2" by (cases wl) auto
    obtain s1 where s1: "set_color b Black s = Some s1"
      "wf h0 n A s1 (plug k (Node x c p (Node (Node b1 Black b b2) Black a wr)))"
      using set_color_wf [of h0 n A s "LF Black a wr # RF x c p # k" b1 Red b b2 Black] w wl by auto
    obtain s2 where s2: "set_color a Red s1 = Some s2"
      "wf h0 n A s2 (plug k (Node x c p (Node (Node b1 Black b b2) Red a wr)))"
      using set_color_wf [of h0 n A s1 "RF x c p # k" "Node b1 Black b b2" Black a wr Red] s1(2) by auto
    obtain s3 where s3: "right_rotate s2 a = Some s3"
      "wf h0 n A s3 (plug k (Node x c p (Node b1 Black b (Node b2 Red a wr))))"
      using right_rotate_wf [of h0 n A s2 "RF x c p # k" b1 Black b b2 Red a wr] s2(2) by auto
    obtain s4 where s4: "set_color b c s3 = Some s4"
      "wf h0 n A s4 (plug k (Node x c p (Node b1 c b (Node b2 Red a wr))))"
      using set_color_wf [of h0 n A s3 "RF x c p # k" b1 Black b "Node b2 Red a wr" c] s3(2) by auto
    obtain s5 where s5: "set_color p Black s4 = Some s5"
      "wf h0 n A s5 (plug k (Node x Black p (Node b1 c b (Node b2 Red a wr))))"
      using set_color_wf [OF s4(2), of Black] by auto
    obtain s6 where s6: "set_color a Black s5 = Some s6"
      "wf h0 n A s6 (plug k (Node x Black p (Node b1 c b (Node b2 Black a wr))))"
      using set_color_wf [of h0 n A s5 "RF b1 c b # RF x Black p # k" b2 Red a wr Black] s5(2) by auto
    obtain s7 where s7: "left_rotate s6 p = Some s7"
      "wf h0 n A s7 (plug k (Node (Node x Black p b1) c b (Node b2 Black a wr)))"
      using left_rotate_wf [OF s6(2)] by auto
    have "b \<noteq> 0" "right_of s5 b = a"
      using s1(2) s5(2) wf_links [of h0 n A s1 "LF Black a wr # RF x c p # k" b1 Black b b2]
        wf_links [of h0 n A s5 "RF x Black p # k" b1 c b "Node b2 Red a wr"] by simp_all
    then show ?thesis
      using L wf_links [OF s3(2)] s1(1) s2(1) s3(1) s4(1) s5(1) s6(1) s7 Black assms(2)
        loop_stop [of "root s7" s7 0]
      by (simp add: remove_fixup_loop.simps [of s "raddr x" p] wl)
  qed
qed

lemma iter_red_left:
  assumes w: "wf h0 n A s (plug k (Node x c p (Node wl Red a wr)))" and "col x = Black" "col wl = Black"
  shows "\<exists>s'. remove_fixup_loop s (raddr x) p = remove_fixup_loop s' (raddr x) p
    \<and> wf h0 n A s' (plug k (Node (Node x Red p wl) Black a wr))"
proof -
  have l: "wf h0 n A s (plug (LF c p (Node wl Red a wr) # k) x)"
    and r: "wf h0 n A s (plug (RF x c p # k) (Node wl Red a wr))" using w by simp_all
  obtain s1 where s1: "set_color a Black s = Some s1" "wf h0 n A s1 (plug k (Node x c p (Node wl Black a wr)))"
    using set_color_wf [OF r, of Black] by auto
  obtain s2 where s2: "set_color p Red s1 = Some s2" "wf h0 n A s2 (plug k (Node x Red p (Node wl Black a wr)))"
    using set_color_wf [OF s1(2), of Red] by auto
  obtain s3 where s3: "left_rotate s2 p = Some s3" "wf h0 n A s3 (plug k (Node (Node x Red p wl) Black a wr))"
    using left_rotate_wf [OF s2(2)] by auto
  have p: "wf h0 n A s3 (plug (LF Black a wr # k) (Node x Red p wl))"
    "wf h0 n A s3 (plug (LF Red p wl # LF Black a wr # k) x)" using s3(2) by simp_all
  show ?thesis
    using not_root [OF l] wf_links [OF w] wf_links [OF r] not_root [OF p(2)] wf_links [OF p(1)]
      s1(1) s2(1) s3 assms(2,3)
    by (intro exI [of _ s3]) (simp add: remove_fixup_loop.simps [of s "raddr x" p] 
        remove_fixup_loop.simps [of s3 "raddr x" p] Let_def)
qed

text \<open>One iteration with the focus as the right child.\<close>

lemma iter_up_right:
  assumes w: "wf h0 n A s (plug k (Node (Node wl Black a wr) c p x))" and "col x = Black"
    "col wl = Black" "col wr = Black"
  shows "\<exists>s'. remove_fixup_loop s (raddr x) p = remove_fixup_loop s' p (paddr k)
    \<and> wf h0 n A s' (plug k (Node (Node wl Red a wr) c p x))"
proof -
  have l: "wf h0 n A s (plug (RF (Node wl Black a wr) c p # k) x)"
    and r: "wf h0 n A s (plug (LF c p x # k) (Node wl Black a wr))" using w by simp_all
  obtain s' where s': "set_color a Red s = Some s'" "wf h0 n A s' (plug k (Node (Node wl Red a wr) c p x))"
    using set_color_wf [OF r, of Red] by auto
  have "raddr x \<noteq> a" using raddr_neq [OF w] by auto
  then show ?thesis
    using not_root [OF l] wf_links [OF w] wf_links [OF r] wf_links [OF s'(2)] s' assms(2-)
    by (intro exI [of _ s']) (simp add: remove_fixup_loop.simps [of s "raddr x" p])
qed

lemma iter_final_right:
  assumes w: "wf h0 n A s (plug k (Node (Node wl Black a wr) c p x))" and "col x = Black"
    "col wl = Red \<or> col wr = Red"
  shows "\<exists>s'. remove_fixup_loop s (raddr x) p = Some (s', root s')
    \<and> wf h0 n A s' (plug k (final_right (Node wl Black a wr) c p x))"
proof -
  have l: "wf h0 n A s (plug (RF (Node wl Black a wr) c p # k) x)"
    and r: "wf h0 n A s (plug (LF c p x # k) (Node wl Black a wr))" using w by simp_all
  have xa: "raddr x \<noteq> a" using raddr_neq [OF w] by auto
  note L = not_root [OF l] wf_links [OF w] wf_links [OF r] xa
  show ?thesis
  proof (cases "col wl")
    case Red
    then obtain b1 b b2 where wl: "wl = Node b1 Red b b2" by (cases wl) auto
    obtain s1 where s1: "set_color a c s = Some s1" "wf h0 n A s1 (plug k (Node (Node wl c a wr) c p x))"
      using set_color_wf [OF r, of c] by auto
    obtain s2 where s2: "set_color p Black s1 = Some s2" "wf h0 n A s2 (plug k (Node (Node wl c a wr) Black p x))"
      using set_color_wf [OF s1(2)] by auto
    obtain s3 where s3: "set_color b Black s2 = Some s3"
      "wf h0 n A s3 (plug k (Node (Node (Node b1 Black b b2) c a wr) Black p x))"
      using set_color_wf [of h0 n A s2 "LF c a wr # LF Black p x # k" b1 Red b b2 Black] s2 wl by auto
    obtain s4 where s4: "right_rotate s3 p = Some s4"
      "wf h0 n A s4 (plug k (Node (Node b1 Black b b2) c a (Node wr Black p x)))"
      using right_rotate_wf [OF s3(2)] by auto
    have "left_of s2 a = b" "b \<noteq> 0"
      using s2(2) wf_links [of h0 n A s2 "LF Black p x # k" wl c a wr]
        wf_links [of h0 n A s2 "LF c a wr # LF Black p x # k" b1 Red b b2] by (simp_all add: wl)
    then show ?thesis
      using L s1(1) s2(1) s3(1) s4 Red assms(2) loop_stop [of "root s4" s4 0]
      by (simp add: remove_fixup_loop.simps [of s "raddr x" p] wl)
  next
    case Black
    with assms(3) obtain b1 b b2 where wr: "wr = Node b1 Red b b2" by (cases wr) auto
    obtain s1 where s1: "set_color b Black s = Some s1"
      "wf h0 n A s1 (plug k (Node (Node wl Black a (Node b1 Black b b2)) c p x))"
      using set_color_wf [of h0 n A s "RF wl Black a # LF c p x # k" b1 Red b b2 Black] w wr by auto
    obtain s2 where s2: "set_color a Red s1 = Some s2"
      "wf h0 n A s2 (plug k (Node (Node wl Red a (Node b1 Black b b2)) c p x))"
      using set_color_wf [of h0 n A s1 "LF c p x # k" wl Black a "Node b1 Black b b2" Red] s1(2) by auto
    obtain s3 where s3: "left_rotate s2 a = Some s3"
      "wf h0 n A s3 (plug k (Node (Node (Node wl Red a b1) Black b b2) c p x))"
      using left_rotate_wf [of h0 n A s2 "LF c p x # k" wl Red a b1 Black b b2] s2(2) by auto
    obtain s4 where s4: "set_color b c s3 = Some s4"
      "wf h0 n A s4 (plug k (Node (Node (Node wl Red a b1) c b b2) c p x))"
      using set_color_wf [of h0 n A s3 "LF c p x # k" "Node wl Red a b1" Black b b2 c] s3(2) by auto
    obtain s5 where s5: "set_color p Black s4 = Some s5"
      "wf h0 n A s5 (plug k (Node (Node (Node wl Red a b1) c b b2) Black p x))"
      using set_color_wf [OF s4(2), of Black] by auto
    obtain s6 where s6: "set_color a Black s5 = Some s6"
      "wf h0 n A s6 (plug k (Node (Node (Node wl Black a b1) c b b2) Black p x))"
      using set_color_wf [of h0 n A s5 "LF c b b2 # LF Black p x # k" wl Red a b1 Black] s5(2) by auto
    obtain s7 where s7: "right_rotate s6 p = Some s7"
      "wf h0 n A s7 (plug k (Node (Node wl Black a b1) c b (Node b2 Black p x)))"
      using right_rotate_wf [OF s6(2)] by auto
    have "b \<noteq> 0" "left_of s5 b = a"
      using s1(2) s5(2) wf_links [of h0 n A s1 "RF wl Black a # LF c p x # k" b1 Black b b2]
        wf_links [of h0 n A s5 "LF Black p x # k" "Node wl Red a b1" c b b2] by simp_all
    then show ?thesis
      using L wf_links [OF s3(2)] s1(1) s2(1) s3(1) s4(1) s5(1) s6(1) s7 Black assms(2)
        loop_stop [of "root s7" s7 0]
      by (simp add: remove_fixup_loop.simps [of s "raddr x" p] wr)
  qed
qed

lemma iter_red_right:
  assumes w: "wf h0 n A s (plug k (Node (Node wl Red a wr) c p x))" and "col x = Black" "col wr = Black"
    and nl: "wr \<noteq> Leaf"
  shows "\<exists>s'. remove_fixup_loop s (raddr x) p = remove_fixup_loop s' (raddr x) p
    \<and> wf h0 n A s' (plug k (Node wl Black a (Node wr Red p x)))"
proof -
  have l: "wf h0 n A s (plug (RF (Node wl Red a wr) c p # k) x)"
    and r: "wf h0 n A s (plug (LF c p x # k) (Node wl Red a wr))" using w by simp_all
  obtain s1 where s1: "set_color a Black s = Some s1" "wf h0 n A s1 (plug k (Node (Node wl Black a wr) c p x))"
    using set_color_wf [OF r, of Black] by auto
  obtain s2 where s2: "set_color p Red s1 = Some s2" "wf h0 n A s2 (plug k (Node (Node wl Black a wr) Red p x))"
    using set_color_wf [OF s1(2), of Red] by auto
  obtain s3 where s3: "right_rotate s2 p = Some s3" "wf h0 n A s3 (plug k (Node wl Black a (Node wr Red p x)))"
    using right_rotate_wf [OF s2(2)] by auto
  have p: "wf h0 n A s3 (plug (RF wl Black a # k) (Node wr Red p x))"
    "wf h0 n A s3 (plug (RF wr Red p # RF wl Black a # k) x)" using s3(2) by simp_all
  have "raddr x \<noteq> a" "raddr x \<noteq> raddr wr" using raddr_neq [OF w] raddr_neq [OF p(1)] nl by auto
  then show ?thesis
    using not_root [OF l] wf_links [OF w] wf_links [OF r] not_root [OF p(2)] wf_links [OF p(1)]
      s1(1) s2(1) s3 assms(2,3)
    by (intro exI [of _ s3]) (simp add: remove_fixup_loop.simps [of s "raddr x" p]
        remove_fixup_loop.simps [of s3 "raddr x" p] Let_def)
qed

text \<open>The loop and the final recolouring compute \<open>del_fix\<close>.\<close>

lemma fixup_at_focus:
  assumes "wf h0 n A s (plug k x)" "remove_fixup_loop s' (raddr x') p = Some (s, raddr x)"
  shows "\<exists>s''. remove_fixup s' (raddr x') p = Some s'' \<and> wf h0 n A s'' (plug k (paint Black x))"
proof (cases x)
  case (Node l c a r)
  then have "a \<noteq> 0" using wf_rep [OF assms(1)] by simp
  then show ?thesis
    using assms set_color_wf [of h0 n A s k l c a r Black] by (auto simp: remove_fixup_def Node)
qed (use assms in \<open>simp add: remove_fixup_def\<close>)

lemma fixup_at_root:
  assumes "wf h0 n A s t" "remove_fixup_loop s' x' p = Some (s, root s)"
  shows "\<exists>s''. remove_fixup s' x' p = Some s'' \<and> wf h0 n A s'' (paint Black t)"
proof (cases t)
  case (Node l c a r)
  then have "a \<noteq> 0" "root s = a" using assms(1) by (simp_all add: wf_def)
  then show ?thesis
    using assms set_color_wf [of h0 n A s "[]" l c a r Black] by (auto simp: remove_fixup_def Node)
qed (use assms in \<open>simp add: remove_fixup_def wf_def\<close>)

lemma remove_fixup_cong:
  "remove_fixup_loop s x p = remove_fixup_loop s' x' p' \<Longrightarrow> remove_fixup s x p = remove_fixup s' x' p'"
  by (simp add: remove_fixup_def)

lemma fixup_black_left:
  assumes w: "wf h0 n A s (plug k (Node x c p w))" "col x = Black" "col w = Black" "w \<noteq> Leaf"
    and up: "\<And>s'. wf h0 n A s' (plug k (Node x c p (paint Red w))) \<Longrightarrow> nephews_black w \<Longrightarrow>
      \<exists>s''. remove_fixup s' p (paddr k) = Some s'' \<and> wf h0 n A s'' t"
  shows "\<exists>s'. remove_fixup s (raddr x) p = Some s'
    \<and> wf h0 n A s' (if nephews_black w then t else paint Black (plug k (final_left x c p w)))"
proof -
  obtain wl a wr where wd: "w = Node wl Black a wr" using w by (cases w) auto
  show ?thesis
  proof (cases "nephews_black w")
    case True
    then obtain s' where s': "remove_fixup_loop s (raddr x) p = remove_fixup_loop s' p (paddr k)"
      "wf h0 n A s' (plug k (Node x c p (paint Red w)))"
      using iter_up_left [OF w(1) [unfolded wd] w(2)] by (auto simp: wd)
    show ?thesis using up [OF s'(2) True] True remove_fixup_cong [OF s'(1)] by simp
  next
    case False
    then have "col wl = Red \<or> col wr = Red" by (auto simp: wd)
    then obtain s' where "remove_fixup_loop s (raddr x) p = Some (s', root s')"
      "wf h0 n A s' (plug k (final_left x c p w))"
      using iter_final_left [OF w(1) [unfolded wd] w(2)] unfolding wd by blast
    then show ?thesis using fixup_at_root False by auto
  qed
qed

lemma fixup_black_right:
  assumes w: "wf h0 n A s (plug k (Node w c p x))" "col x = Black" "col w = Black" "w \<noteq> Leaf"
    and up: "\<And>s'. wf h0 n A s' (plug k (Node (paint Red w) c p x)) \<Longrightarrow> nephews_black w \<Longrightarrow>
      \<exists>s''. remove_fixup s' p (paddr k) = Some s'' \<and> wf h0 n A s'' t"
  shows "\<exists>s'. remove_fixup s (raddr x) p = Some s'
    \<and> wf h0 n A s' (if nephews_black w then t else paint Black (plug k (final_right w c p x)))"
proof -
  obtain wl a wr where wd: "w = Node wl Black a wr" using w by (cases w) auto
  show ?thesis
  proof (cases "nephews_black w")
    case True
    then obtain s' where s': "remove_fixup_loop s (raddr x) p = remove_fixup_loop s' p (paddr k)"
      "wf h0 n A s' (plug k (Node (paint Red w) c p x))"
      using iter_up_right [OF w(1) [unfolded wd] w(2)] by (auto simp: wd)
    show ?thesis using up [OF s'(2) True] True remove_fixup_cong [OF s'(1)] by simp
  next
    case False
    then have "col wl = Red \<or> col wr = Red" by (auto simp: wd)
    then obtain s' where "remove_fixup_loop s (raddr x) p = Some (s', root s')"
      "wf h0 n A s' (plug k (final_right w c p x))"
      using iter_final_right [OF w(1) [unfolded wd] w(2)] unfolding wd by blast
    then show ?thesis using fixup_at_root False by auto
  qed
qed

text \<open>A red focus stops the loop.\<close>

lemma fixup_red:
  assumes "wf h0 n A s (plug k x)" "col x = Red"
  shows "\<exists>s'. remove_fixup s (raddr x) (paddr k) = Some s' \<and> wf h0 n A s' (plug k (paint Black x))"
  using assms wf_rep [OF assms(1)] color_of_rep [of s "paddr k" x]
    loop_stop [of "raddr x" s "paddr k"] fixup_at_focus by auto

lemma remove_fixup_wf:
  assumes "wf h0 n A s (plug k x)" "pinvh k (Suc (bh x))" "pinvc k" "invh x"
  shows "\<exists>s'. remove_fixup s (raddr x) (paddr k) = Some s' \<and> wf h0 n A s' (del_fix k x)"
  using assms
proof (induction k x arbitrary: s rule: del_fix.induct)
  case (1 x)
  then show ?case
    using fixup_at_focus [of h0 n A s "[]" x s x 0] by (simp add: wf_def loop_stop)
next
  case (2 c p w k x)
  show ?case
  proof (cases "col x")
    case Red
    then show ?thesis using fixup_red [OF 2(2)] by simp
  next
    case Black
    from 2(3) obtain wl d a wr where w: "w = Node wl d a wr" by (cases w) auto
    have wf: "wf h0 n A s (plug k (Node x c p w))" using 2(2) by simp
    show ?thesis
    proof (cases d)
      case Red
      then have wl: "col wl = Black" "wl \<noteq> Leaf" using 2(3,4) by (auto simp: w)
      obtain s1 where s1: "remove_fixup_loop s (raddr x) p = remove_fixup_loop s1 (raddr x) p"
        "wf h0 n A s1 (plug (LF Black a wr # k) (Node x Red p wl))"
        using iter_red_left [OF wf [unfolded w Red] Black wl(1)] by auto
      from fixup_black_left [OF s1(2) Black wl,
          of "plug k (Node (Node x Black p (paint Red wl)) Black a wr)"]
        fixup_red [of h0 n A _ "LF Black a wr # k" "Node x Red p (paint Red wl)"]
      show ?thesis using Black Red remove_fixup_cong [OF s1(1)] by (auto simp: w)
    next
      case d: Black
      have "\<exists>s''. remove_fixup s' p (paddr k) = Some s'' \<and> wf h0 n A s'' (del_fix k (Node x c p (paint Red w)))"
        if "wf h0 n A s' (plug k (Node x c p (paint Red w)))" "nephews_black w" for s'
        using 2(1) [OF _ w d that(2,1)] 2(3-) Black that by (clarsimp simp: w d)
      from fixup_black_left [OF wf Black _ _ this] show ?thesis
        using Black d by (auto simp: w)
    qed
  qed
next
  case (3 w c p k x)
  show ?case
  proof (cases "col x")
    case Red
    then show ?thesis using fixup_red [OF 3(2)] by simp
  next
    case Black
    from 3(3) obtain wl d a wr where w: "w = Node wl d a wr" by (cases w) auto
    have wf: "wf h0 n A s (plug k (Node w c p x))" using 3(2) by simp
    show ?thesis
    proof (cases d)
      case Red
      then have wr: "col wr = Black" "wr \<noteq> Leaf" using 3(3,4) by (auto simp: w)
      obtain s1 where s1: "remove_fixup_loop s (raddr x) p = remove_fixup_loop s1 (raddr x) p"
        "wf h0 n A s1 (plug (RF wl Black a # k) (Node wr Red p x))"
        using iter_red_right [OF wf [unfolded w Red] Black wr] by auto
      from fixup_black_right [OF s1(2) Black wr,
          of "plug k (Node wl Black a (Node (paint Red wr) Black p x))"]
        fixup_red [of h0 n A _ "RF wl Black a # k" "Node (paint Red wr) Red p x"]
      show ?thesis using Black Red remove_fixup_cong [OF s1(1)] by (auto simp: w)
    next
      case d: Black
      have "\<exists>s''. remove_fixup s' p (paddr k) = Some s'' \<and> wf h0 n A s'' (del_fix k (Node (paint Red w) c p x))"
        if "wf h0 n A s' (plug k (Node (paint Red w) c p x))" "nephews_black w" for s'
        using 3(1) [OF _ w d that(2,1)] 3(3-) Black that by (clarsimp simp: w d)
      from fixup_black_right [OF wf Black _ _ this] show ?thesis
        using Black d by (auto simp: w)
    qed
  qed
qed

section \<open>Unlinking a node\<close>

lemma transplant_rep:
  assumes p: "prep (nodes s) k u" "pdist k" and u: "u \<noteq> 0" "u \<notin> pset k" "parent (nodes s u) = paddr k"
    and t: "rep (nodes s) q t" "distinct (inorder t)" "set (inorder t) \<inter> pset k = {}"
  shows "\<exists>s'. transplant s u (raddr t) = Some s' \<and> rep (nodes s') 0 (plug k t)
    \<and> root s' = root_upd k (raddr t) (root s) \<and> len s' = len s
    \<and> (\<forall>z. z \<notin> pset k \<longrightarrow> (t \<noteq> Leaf \<longrightarrow> z \<noteq> raddr t) \<longrightarrow> nodes s' z = nodes s z)"
proof -
  let ?g = "hole_upd k (raddr t) (nodes s)"
  let ?s = "s\<lparr>nodes := par_upd t (paddr k) ?g, root := root_upd k (raddr t) (root s)\<rparr>"
  have "transplant s u (raddr t) = Some ?s"
    using link_first(1) [OF p(1) u(1,2), of "raddr t"] u raddr_zero [OF t(1)]
    by (auto simp: transplant_def get_parent_def set_parent_def set_node_def par_upd_def)
  moreover have "rep (nodes ?s) 0 (plug k t)"
    using p t prep_hole_upd [OF p, of "raddr t"] by (simp add: rep_plug rep_par_upd [where q = q])
  moreover have "nodes ?s z = nodes s z" if "z \<notin> pset k" "t \<noteq> Leaf \<longrightarrow> z \<noteq> raddr t" for z
    using that by (auto simp: par_upd_def)
  ultimately show ?thesis by auto
qed

lemma transplant_wf:
  assumes w: "wf h0 n A s (plug k u)" and u: "u \<noteq> Leaf"
    and t: "rep (nodes s) q t" "distinct (inorder t)" "set (inorder t) \<subseteq> set (inorder u)"
  shows "\<exists>s'. transplant s (raddr u) (raddr t) = Some s' \<and> wf h0 n A s' (plug k t)
    \<and> (\<forall>z. z \<notin> pset k \<longrightarrow> (t \<noteq> Leaf \<longrightarrow> z \<noteq> raddr t) \<longrightarrow> nodes s' z = nodes s z)"
proof -
  have d: "pdist k" "set (inorder u) \<inter> pset k = {}" "set (inorder t) \<inter> pset k = {}"
    and A: "set (inorder t) \<subseteq> A" "pset k \<subseteq> A"
    and r: "root s = raddr (plug k u)" "len s = n" "\<And>z. z \<notin> A \<Longrightarrow> nodes s z = h0 z"
    using w t(3) by (auto simp: wf_def distinct_plug set_plug)
  have p: "raddr u \<noteq> 0" "raddr u \<notin> pset k" "parent (nodes s (raddr u)) = paddr k" "prep (nodes s) k (raddr u)"
    using wf_rep [OF w] u d(2) by (cases u; auto)+
  obtain s' where s': "transplant s (raddr u) (raddr t) = Some s'" "rep (nodes s') 0 (plug k t)"
    "root s' = root_upd k (raddr t) (root s)" "len s' = len s"
    "\<forall>z. z \<notin> pset k \<longrightarrow> (t \<noteq> Leaf \<longrightarrow> z \<noteq> raddr t) \<longrightarrow> nodes s' z = nodes s z"
    using transplant_rep [OF p(4) d(1) p(1,2,3) t(1,2) d(3)] by blast
  moreover have "nodes s' z = h0 z" if "z \<notin> A" for z
  proof -
    have "z \<notin> pset k" "t \<noteq> Leaf \<longrightarrow> z \<noteq> raddr t"
      using that A raddr_in [of t] by (blast, metis subsetD)
    then show ?thesis using s'(5) r(3) [OF that] by simp
  qed
  ultimately show ?thesis
    using d t(2) A r root_upd_plug [of k t u] by (simp add: wf_def distinct_plug set_plug)
qed

lemma unlink_one_child:
  assumes "wf h0 m A s (plug k (Node l c n r))" "l = Leaf \<or> r = Leaf"
  shows "\<exists>s' x. unlink_node s n = Some (s', raddr x, paddr k, c) \<and> wf h0 m A s' (plug k x)
    \<and> x = (if l = Leaf then r else l)"
proof -
  let ?x = "if l = Leaf then r else l"
  note r = wf_rep [OF assms(1)] and d = wf_dist [OF assms(1)]
  have "rep (nodes s) n ?x" "distinct (inorder ?x)" "set (inorder ?x) \<subseteq> set (inorder (Node l c n r))"
    using r d by auto
  then obtain s' where s': "transplant s n (raddr ?x) = Some s'" "wf h0 m A s' (plug k ?x)"
    using transplant_wf [OF assms(1), of n ?x] by auto
  have "raddr l = 0 \<longleftrightarrow> l = Leaf" using r raddr_zero [of "nodes s" n l] by auto
  then have "unlink_node s n = Some (s', raddr ?x, paddr k, c)"
    using r s'(1) assms(2) by (auto simp: unlink_node_def get_left_def get_right_def get_color_def get_parent_def)
  then show ?thesis using s'(2) by blast
qed

text \<open>The successor is at the end of the left spine of the right subtree.\<close>

lemma before_append: "before (m @ k) = before k @ before m"
  by (induction m) auto

lemma left_spine: "r \<noteq> Leaf \<Longrightarrow> \<exists>m c y u. r = plug m (Node Leaf c y u) \<and> before m = []"
proof (induction r)
  case (Node l c a u)
  show ?case
  proof (cases "l = Leaf")
    case True
    then show ?thesis by (metis before.simps(1) plug.simps(1))
  next
    case False
    then obtain m d y v where "l = plug m (Node Leaf d y v)" "before m = []" using Node.IH by blast
    then have "Node l c a u = plug (m @ [LF c a u]) (Node Leaf d y v)" "before (m @ [LF c a u]) = []"
      by (simp_all add: plug_append before_append)
    then show ?thesis by blast
  qed
qed simp

lemma paddr_append: "paddr (m @ k) = (if m = [] then paddr k else paddr m)"
  by (cases m) auto

text \<open>
  Replacing \<open>n\<close> by its successor \<open>y\<close>, which already heads the rest of the right subtree.
\<close>

lemma replace_by_successor:
  assumes p: "prep (nodes s) k n" "pdist k" "n \<noteq> 0" "n \<notin> pset k"
    and n: "parent (nodes s n) = paddr k" "left (nodes s n) = raddr l" "color (nodes s n) = c"
    and l: "rep (nodes s) n l" "l \<noteq> Leaf"
    and y: "rep (nodes s) q (Node Leaf cy y r)" 
    and d: "distinct (n # inorder l @ y # inorder r)" "set (inorder l @ y # inorder r) \<inter> pset k = {}"
    and A: "set (inorder l @ y # inorder r) \<subseteq> A" "pset k \<subseteq> A" 
    and s: "root s = raddr (plug k u)" "len s = m" "\<And>z. z \<notin> A \<Longrightarrow> nodes s z = h0 z"
  shows "\<exists>s1 s2 s3 s4. transplant s n y = Some s1 \<and> get_left s1 n = Some (raddr l)
    \<and> set_left y (raddr l) s1 = Some s2 \<and> get_left s2 y = Some (raddr l)
    \<and> set_parent (raddr l) y s2 = Some s3 \<and> get_color s3 n = Some c
    \<and> set_color y c s3 = Some s4 \<and> wf h0 m A s4 (plug k (Node l c y r))"
proof -
  obtain s1 where s1: "transplant s n y = Some s1" "rep (nodes s1) 0 (plug k (Node Leaf cy y r))"
    "root s1 = root_upd k y (root s)" "len s1 = len s"
    "\<And>z. z \<notin> pset k \<Longrightarrow> z \<noteq> y \<Longrightarrow> nodes s1 z = nodes s z"
    using transplant_rep [OF p(1,2,3,4) n(1) y] d by auto
  define g where "g = nodes s1"
  define g' where "g' = (par_upd l y (g(y := (g y)\<lparr>left := raddr l\<rparr>)))(y := (g y)\<lparr>left := raddr l, color := c\<rparr>)"
  have y0: "y \<noteq> 0" "raddr l \<noteq> 0" using y raddr_zero [OF l(1)] l(2) by auto
  have ny: "n \<noteq> y" "n \<noteq> raddr l" "y \<noteq> raddr l" "raddr l \<in> set (inorder l)" "y \<notin> set (inorder l)"
    "n \<notin> set (inorder l)" using d(1) l(2) raddr_in [of l] by auto
  have gn: "g n = nodes s n" using s1(5) [of n] p(4) ny by (simp add: g_def)
  have gl: "rep g n l"
  proof -
    have "g z = nodes s z" if "z \<in> set (inorder l)" for z
      using s1(5) [of z] that d ny by (auto simp: g_def)
    then have "rep g n l \<longleftrightarrow> rep (nodes s) n l"
      by (rule rep_cong)
    then show ?thesis using l(1) by simp
  qed
  have ops: "get_left s1 n = Some (raddr l)"
    "set_left y (raddr l) s1 = Some (s1\<lparr>nodes := g(y := (g y)\<lparr>left := raddr l\<rparr>)\<rparr>)"
    "set_parent (raddr l) y (s1\<lparr>nodes := g(y := (g y)\<lparr>left := raddr l\<rparr>)\<rparr>)
      = Some (s1\<lparr>nodes := par_upd l y (g(y := (g y)\<lparr>left := raddr l\<rparr>))\<rparr>)"
    "set_color y c (s1\<lparr>nodes := par_upd l y (g(y := (g y)\<lparr>left := raddr l\<rparr>))\<rparr>) = Some (s1\<lparr>nodes := g'\<rparr>)"
    "get_color (s1\<lparr>nodes := par_upd l y (g(y := (g y)\<lparr>left := raddr l\<rparr>))\<rparr>) n = Some c"
    using p(3) n gn y0 ny l(2)
    by (simp_all add: get_left_def set_left_def set_node_def set_parent_def set_color_def get_color_def
        g_def [symmetric] g'_def par_upd_def)
  have t: "prep g k y" "rep g (paddr k) (Node Leaf cy y r)"
    using s1(2) by (simp_all add: rep_plug g_def)
  have "rep g' 0 (plug k (Node l c y r))"
    using t gl d ny unfolding rep_plug g'_def
    by (simp add: rep_par_upd [where q = n] Int_Un_distrib Int_Un_distrib2 Int_commute)
  moreover have "g' z = h0 z" if "z \<notin> A" for z
  proof -
    from that A ny(4) have "z \<notin> pset k" "z \<noteq> y" "z \<notin> set (inorder l)" by auto
    then show ?thesis using s1(5) [of z] s(3) [OF that] by (simp add: g'_def g_def)
  qed
  moreover have "root s1 = raddr (plug k (Node l c y r))"
    using s1(3) s(1) root_upd_plug [of k "Node l c y r" u] by simp
  ultimately have "wf h0 m A (s1\<lparr>nodes := g'\<rparr>) (plug k (Node l c y r))"
    using s1(4) s(2) d p(2) A by (auto simp: wf_def distinct_plug set_plug)
  then show ?thesis using s1(1) ops y0 by (auto simp: get_left_def)
qed

text \<open>Detaching the successor \<open>y\<close> from its place and giving it the rest of the right subtree.\<close>

lemma detach_successor:
  assumes w: "wf h0 len0 A s (plug k (Node l c n (plug m (Node Leaf cy y ry))))" and m: "m \<noteq> []"
  shows "\<exists>s1 s2 s3 q. transplant s y (raddr ry) = Some s1
    \<and> get_right s1 n = Some (raddr (plug m ry)) \<and> set_right y (raddr (plug m ry)) s1 = Some s2
    \<and> get_right s2 y = Some (raddr (plug m ry)) \<and> set_parent (raddr (plug m ry)) y s2 = Some s3
    \<and> rep (nodes s3) q (Node Leaf cy y (plug m ry))
    \<and> prep (nodes s3) k n \<and> nodes s3 n = \<lparr>parent = paddr k, left = raddr l, right = raddr (plug m ry), color = c\<rparr>
    \<and> rep (nodes s3) n l \<and> root s3 = root s \<and> len s3 = len s \<and> (\<forall>z. z \<notin> A \<longrightarrow> nodes s3 z = h0 z)"
proof -
  let ?R = "plug m ry" and ?k = "m @ RF l c n # k" and ?y = "Node Leaf cy y ry"
  have w': "wf h0 len0 A s (plug ?k ?y)" using w by (simp add: plug_append)
  have ry: "rep (nodes s) y ry" "distinct (inorder ry)" "y \<noteq> 0" "y \<notin> set (inorder ry)"
    "left (nodes s y) = 0" "color (nodes s y) = cy" "right (nodes s y) = raddr ry"
    using wf_rep [OF w'] wf_dist [OF w'] by auto
  obtain s1 where s1: "transplant s y (raddr ry) = Some s1" "wf h0 len0 A s1 (plug ?k ry)"
    "\<And>z. z \<notin> pset ?k \<Longrightarrow> (ry \<noteq> Leaf \<longrightarrow> z \<noteq> raddr ry) \<Longrightarrow> nodes s1 z = nodes s z"
    using transplant_wf [OF w' _ ry(1,2)] by auto
  have yk: "y \<notin> pset ?k" "y \<in> A" using w' by (auto simp: wf_def distinct_plug set_plug)
  have "nodes s1 y = nodes s y" using s1(3) [OF yk(1)] ry(4) raddr_in [of ry] by metis
  define g where "g = nodes s1"
  have gy: "left (g y) = 0" "color (g y) = cy"
    using \<open>nodes s1 y = nodes s y\<close> ry by (simp_all add: g_def)
  have w1: "wf h0 len0 A s1 (plug k (Node l c n ?R))" using s1(2) by (simp add: plug_append)
  have R: "?R \<noteq> Leaf" "raddr ?R \<noteq> 0" "rep g n ?R" "distinct (inorder ?R)" "rep g n l" "prep g k n" "n \<noteq> 0"
    "g n = \<lparr>parent = paddr k, left = raddr l, right = raddr ?R, color = c\<rparr>"
  proof -
    have "set (inorder ?R) \<noteq> {}" unfolding set_plug using last_in_pset [OF m] by auto
    then show "?R \<noteq> Leaf" by (cases ?R) simp_all
    then show "raddr ?R \<noteq> 0" using wf_rep [OF w1] raddr_zero by auto
  qed (use wf_rep [OF w1] wf_dist [OF w1] in \<open>simp_all add: g_def\<close>)
  have y: "y \<notin> pset k" "y \<notin> set (inorder l)" "y \<notin> set (inorder ?R)" "y \<noteq> n"
    using w by (auto simp: wf_def distinct_plug set_plug)
  have dR: "set (inorder ?R) \<inter> set (inorder l) = {}" "n \<notin> set (inorder ?R)" "set (inorder ?R) \<inter> pset k = {}"
    "set (inorder ?R) \<subseteq> A"
    using w1 wf_dist [OF w1]
    by (simp_all add: wf_def distinct_plug [of k] set_plug [of k] Int_Un_distrib Int_commute)
  define g' where "g' = par_upd ?R y (g(y := (g y)\<lparr>right := raddr ?R\<rparr>))"
  have "set_right y (raddr ?R) s1 = Some (s1\<lparr>nodes := g(y := (g y)\<lparr>right := raddr ?R\<rparr>)\<rparr>)"
    "set_parent (raddr ?R) y (s1\<lparr>nodes := g(y := (g y)\<lparr>right := raddr ?R\<rparr>)\<rparr>) = Some (s1\<lparr>nodes := g'\<rparr>)"
    "get_right s1 n = Some (raddr ?R)"
    using ry(3) R by (simp_all add: set_right_def set_node_def set_parent_def g'_def par_upd_def get_right_def g_def)
  moreover have "rep g' (parent (g y)) (Node Leaf cy y ?R)" "prep g' k n" "rep g' n l" "g' n = g n"
    using R y dR ry(3) gy unfolding g'_def
    by (simp_all add: rep_par_upd [where q = n])
  moreover have "g' z = h0 z" if "z \<notin> A" for z
  proof -
    have "z \<noteq> y" "z \<notin> set (inorder ?R)" "g z = h0 z" 
      using that yk(2) dR(4) wf_frame [OF w1 that] by (auto simp: g_def)
    then show ?thesis by (simp add: g'_def)
  qed
  moreover have "root s1 = root s" "len s1 = len s"
    using s1(2) w' by (auto simp: wf_def raddr_plug)
  ultimately show ?thesis
    using s1(1) R(8) ry(3) by (intro exI [of _ s1] exI [of _ "s1\<lparr>nodes := g(y := (g y)\<lparr>right := raddr ?R\<rparr>)\<rparr>"]
      exI [of _ "s1\<lparr>nodes := g'\<rparr>"] exI [of _ "parent (g y)"]) (simp add: get_right_def)
qed

lemma unlink_two_children:
  assumes w: "wf h0 len0 A s (plug k (Node l c n (plug m (Node Leaf cy y ry))))"
    and m: "before m = []" and l: "l \<noteq> Leaf"
  shows "\<exists>s'. unlink_node s n = Some (s', raddr ry, paddr (m @ RF l c y # k), cy)
    \<and> wf h0 len0 A s' (plug (m @ RF l c y # k) ry)"
proof -
  let ?r = "plug m (Node Leaf cy y ry)" and ?R = "plug m ry" and ?k = "m @ RF l c n # k"
  have w': "wf h0 len0 A s (plug ?k (Node Leaf cy y ry))" using w by (simp add: plug_append)
  note r = wf_rep [OF w] and r' = wf_rep [OF w'] and d = wf_dist [OF w]
  have y: "y \<noteq> 0" "nodes s y = \<lparr>parent = paddr ?k, left = 0, right = raddr ry, color = cy\<rparr>" "rep (nodes s) y ry"
    using r' by auto
  have n: "n \<noteq> 0" "nodes s n = \<lparr>parent = paddr k, left = raddr l, right = raddr ?r, color = c\<rparr>"
    "rep (nodes s) n l" "rep (nodes s) n ?r" "prep (nodes s) k n" "raddr l \<noteq> 0"
    using r l raddr_zero [of "nodes s" n l] by auto
  have rr: "?r \<noteq> Leaf" using set_plug [of m "Node Leaf cy y ry"] by auto
  then have r0: "raddr ?r \<noteq> 0" using n(4) raddr_zero by auto
  have min: "minimum s (raddr ?r) = Some y"
    using minimum_rep [OF n(4)] m by (simp add: inorder_plug)
  have D: "distinct (n # inorder l @ y # inorder ?R)" "set (inorder l @ y # inorder ?R) \<inter> pset k = {}"
    "pdist k" "n \<notin> pset k" "set (inorder l @ y # inorder ?R) \<subseteq> A" "pset k \<subseteq> A"
    using w by (auto simp: wf_def distinct_plug set_plug)
  have s: "root s = raddr (plug k (Node l c n ?r))" "len s = len0" "\<And>z. z \<notin> A \<Longrightarrow> nodes s z = h0 z"
    using w by (auto simp: wf_def)
  have head: "paddr ?k = n \<longleftrightarrow> m = []"
  proof (cases m)
    case (Cons f m')
    then have "faddr f \<in> set (inorder ?r)" using set_plug [of m "Node Leaf cy y ry"] by (cases f) auto
    then show ?thesis using d Cons by auto
  qed simp
  show ?thesis
  proof (cases "m = []")
    case True
    have "set_parent (raddr ry) y s = Some s" if "ry \<noteq> Leaf"
      using that y(3) by (cases s; cases ry) (auto simp: set_parent_def set_node_def fun_upd_idem)
    moreover have "raddr ry = 0 \<longleftrightarrow> ry = Leaf" using y(3) raddr_zero by auto
    moreover obtain s1 s2 s3 s4 where
      "transplant s n y = Some s1" "get_left s1 n = Some (raddr l)"
      "set_left y (raddr l) s1 = Some s2" "get_left s2 y = Some (raddr l)"
      "set_parent (raddr l) y s2 = Some s3" "get_color s3 n = Some c"
      "set_color y c s3 = Some s4" "wf h0 len0 A s4 (plug k (Node l c y ?R))"
      using replace_by_successor [OF n(5) D(3) n(1) D(4) _ _ _ n(3) l _ D(1,2,5,6) s] n(2,4) True by fastforce
    ultimately show ?thesis
      using True n y min r0
      by (auto simp: unlink_node_def get_left_def [of s] get_right_def get_color_def [of s] get_parent_def)
  next
    case False
    obtain s1 s2 s3 q where a: "transplant s y (raddr ry) = Some s1"
      "get_right s1 n = Some (raddr ?R)" "set_right y (raddr ?R) s1 = Some s2"
      "get_right s2 y = Some (raddr ?R)" "set_parent (raddr ?R) y s2 = Some s3"
      and b: "rep (nodes s3) q (Node Leaf cy y ?R)" "prep (nodes s3) k n"
      "nodes s3 n = \<lparr>parent = paddr k, left = raddr l, right = raddr ?R, color = c\<rparr>"
      "rep (nodes s3) n l" "root s3 = root s" "len s3 = len s" "\<And>z. z \<notin> A \<Longrightarrow> nodes s3 z = h0 z"
      using detach_successor [OF w False] by blast
    obtain t1 t2 t3 t4 where
      "transplant s3 n y = Some t1" "get_left t1 n = Some (raddr l)"
      "set_left y (raddr l) t1 = Some t2" "get_left t2 y = Some (raddr l)"
      "set_parent (raddr l) y t2 = Some t3" "get_color t3 n = Some c"
      "set_color y c t3 = Some t4" "wf h0 len0 A t4 (plug k (Node l c y ?R))"
      using replace_by_successor [OF b(2) D(3) n(1) D(4) _ _ _ b(4) l b(1) D(1,2,5,6) _ _ b(7),
          where u = "Node l c n ?r"] b(3,5,6) s(1,2) by fastforce
    then show ?thesis
      using False head n y min r0 a
      by (auto simp: unlink_node_def get_left_def [of s] get_right_def [of s] get_color_def [of s]
          get_parent_def plug_append paddr_append)
  qed
qed

text \<open>The address in a frame plays no part in the invariants.\<close>

lemma pinvh_swap: "pinvh (m @ RF l c n # k) b = pinvh (m @ RF l c y # k) b"
  by (induction m arbitrary: b) auto

lemma pcol_append: "pcol (m @ k) = (if m = [] then pcol k else pcol m)"
  by (cases m) auto

lemma pinvc_swap: "pinvc (m @ RF l c n # k) = pinvc (m @ RF l c y # k)"
  by (induction m) (auto simp: pcol_append)


lemma unlink_node_wf:
  assumes w: "wf h0 len0 A s (plug k (Node l c n r))" and inv: "rbtree (plug k (Node l c n r))"
  shows "\<exists>s' x k' d. unlink_node s n = Some (s', raddr x, paddr k', d) \<and> wf h0 len0 A s' (plug k' x)
    \<and> inorder (plug k' x) = before k @ inorder l @ inorder r @ after k
    \<and> invh x \<and> invc x \<and> pinvc k' \<and> pinvh k' (bh x + (if d = Black then 1 else 0))
    \<and> (d = Red \<longrightarrow> rbtree (plug k' x))"
proof (cases "l = Leaf \<or> r = Leaf")
  case True
  from unlink_one_child [OF w this] obtain s' x where
    "unlink_node s n = Some (s', raddr x, paddr k, c)" "wf h0 len0 A s' (plug k x)"
    "x = (if l = Leaf then r else l)" by blast
  then show ?thesis
    using True inv by (intro exI [of _ s'] exI [of _ x] exI [of _ k] exI [of _ c])
      (auto simp: inorder_plug rbtree_plug)
next
  case False
  then obtain m cy y ry where r: "r = plug m (Node Leaf cy y ry)" and m: "before m = []"
    using left_spine [of r] by auto
  from unlink_two_children [OF w [unfolded r] m] False obtain s' where
    s': "unlink_node s n = Some (s', raddr ry, paddr (m @ RF l c y # k), cy)"
    "wf h0 len0 A s' (plug (m @ RF l c y # k) ry)" by blast
  have "rbtree (plug (m @ RF l c n # k) (Node Leaf cy y ry))" using inv by (simp add: plug_append r)
  then have "rbtree (plug (m @ RF l c y # k) (Node Leaf cy y ry))"
    by (auto simp: rbtree_plug pinvh_swap [of m l c n k _ y] pinvc_swap [of m l c n k y] pcol_append)
  then have "invh ry" "invc ry" "pinvc (m @ RF l c y # k)"
    "pinvh (m @ RF l c y # k) (bh ry + (if cy = Black then 1 else 0))"
    "cy = Red \<Longrightarrow> rbtree (plug (m @ RF l c y # k) ry)"
    by (auto simp: rbtree_plug)
  then show ?thesis
    using s' m by (intro exI [of _ s'] exI [of _ ry] exI [of _ "m @ RF l c y # k"] exI [of _ cy])
      (auto simp: inorder_plug r plug_append)
qed

lemma remove_tree:
  assumes w: "wf h0 (Suc len0) A s (plug k (Node l c n r))" and inv: "rbtree (plug k (Node l c n r))"
    and n: "n = node T e" "e \<noteq> 0"
  shows "\<exists>s' t. rb_remove T s e = Some (s', e) \<and> wf (h0(n := RbNode_new)) len0 (A - {n}) s' t \<and> rbtree t
    \<and> inorder t = before k @ inorder l @ inorder r @ after k \<and> nodes s' n = RbNode_new"
proof -
  obtain s1 x k' d where s1: "unlink_node s n = Some (s1, raddr x, paddr k', d)" "wf h0 (Suc len0) A s1 (plug k' x)"
    and i: "inorder (plug k' x) = before k @ inorder l @ inorder r @ after k"
    and x: "invh x" "invc x" "pinvc k'" "pinvh k' (bh x + (if d = Black then 1 else 0))"
      "d = Red \<Longrightarrow> rbtree (plug k' x)"
    using unlink_node_wf [OF w inv] by blast
  obtain s2 t where s2: "(if d = Black then remove_fixup s1 (raddr x) (paddr k') else Some s1) = Some s2"
    "wf h0 (Suc len0) A s2 t" "rbtree t" "inorder t = before k @ inorder l @ inorder r @ after k"
  proof (cases d)
    case Red
    then show ?thesis using that s1(2) x(5) i by auto
  next
    case Black
    then have h: "pinvh k' (Suc (bh x))" using x(4) by simp
    obtain s2 where "remove_fixup s1 (raddr x) (paddr k') = Some s2" "wf h0 (Suc len0) A s2 (del_fix k' x)"
      using remove_fixup_wf [OF s1(2) h x(3,1)] by blast
    then show ?thesis
      using that [of s2 "del_fix k' x"] Black i rbtree_del_fix [OF x(1) _ h x(3)] x(2)
        inorder_del_fix [OF h x(3,1)] by simp
  qed
  have "distinct (before k @ inorder l @ n # inorder r @ after k)" "n \<in> A"
    using w by (simp_all add: wf_def inorder_plug)
  then have nd: "n \<notin> set (inorder t)" "n \<noteq> 0" "n \<in> A"
    using wf_rep [OF w] by (simp_all add: s2(4))
  let ?s = "s2\<lparr>nodes := (nodes s2)(n := RbNode_new), len := len0\<rparr>"
  have "rb_remove T s e = Some (?s, e)"
    using n s1(1) s2(1,2) nd by (auto simp: rb_remove_def set_node_def reset_links_new wf_def)
  moreover have "wf (h0(n := RbNode_new)) len0 (A - {n}) ?s t"
  proof -
    have "rep (nodes s2) 0 t" "root s2 = raddr t" "distinct (inorder t)" "set (inorder t) \<subseteq> A"
      and fr: "\<And>z. z \<notin> A \<Longrightarrow> nodes s2 z = h0 z" using s2(2) by (auto simp: wf_def)
    then have "rep (nodes ?s) 0 t" "root ?s = raddr t" "set (inorder t) \<subseteq> A - {n}" "len ?s = len0"
      using nd(1) by auto
    moreover have "nodes ?s z = (h0(n := RbNode_new)) z" if "z \<notin> A - {n}" for z
      using that fr by (cases "z = n") auto
    ultimately show ?thesis using \<open>distinct (inorder t)\<close> unfolding wf_def by blast
  qed
  ultimately show ?thesis using s2(3,4) by (intro exI [of _ ?s] exI [of _ t]) simp
qed

end
