(* ===== verification/RbApi.thy ===== *)
theory RbApi
  imports RbRemove
begin

text \<open>
  The public operations of \<^verbatim>\<open>RBTree\<close> against the ordered list of the entities in the tree.
  \<open>rb_entity\<close> is the contract of the trait \<open>RBTreeNode\<close>; everything the tree promises is proved
  once in that locale, for every entity type.
\<close>

section \<open>The tree as an ordered list of entities\<close>

definition rb_abs :: "RBTreeNode \<Rightarrow> RBTree \<Rightarrow> addr list \<Rightarrow> bool" where
  "rb_abs T s xs \<longleftrightarrow>
     (\<exists>t. wf (nodes s) (length xs) (set (inorder t)) s t \<and> rbtree t \<and> inorder t = map (node T) xs)
     \<and> 0 \<notin> set xs \<and> ordered (cmp T) xs"

lemma list_split_unique:
  "xs @ a # ys = us @ a # vs \<Longrightarrow> distinct (us @ a # vs) \<Longrightarrow> xs = us \<and> ys = vs"
  by (auto simp: append_eq_append_conv2 append_eq_Cons_conv Cons_eq_append_conv)

locale rb_entity = strict_cmp "cmp T" for T :: RBTreeNode +
  assumes entity_of_node [simp]: "entity_of T (node T e) = e"
    and node_null [simp]: "node T e = 0 \<longleftrightarrow> e = 0"
begin

lemma entity_of_null [simp]: "entity_of T 0 = 0"
  using entity_of_node [of 0] node_null [of 0] by metis

lemma inj_node: "inj (node T)"
  by (rule inj_on_inverseI [where g = "entity_of T"]) simp

lemma node_eq [simp]: "node T a = node T b \<longleftrightarrow> a = b"
  using inj_node by (auto dest: injD)

lemma cmp_nodes_node [simp]: "cmp_nodes T (node T a) (node T b) = cmp T a b"
  by (simp add: cmp_nodes_def)

lemma entity_head [simp]: "entity_of T (head_or_null (map (node T) xs)) = head_or_null xs"
  by (cases xs) auto

lemma first_abs: "rb_abs T s xs \<Longrightarrow> first T s = Some (head_or_null xs)"
  using minimum_rep [of s 0] by (auto simp: rb_abs_def wf_def first_def)

lemma last_abs: "rb_abs T s xs \<Longrightarrow> last_entity T s = Some (head_or_null (rev xs))"
  using maximum_rep [of s 0] by (auto simp: rb_abs_def wf_def last_entity_def rev_map)

lemma next_rep:
  assumes w: "wf h0 m A s t" and t: "inorder t = map (node T) (xs @ e # ys)" and e: "e \<noteq> 0"
  shows "next_entity T s e = Some (head_or_null ys)"
proof -
  obtain k l c r where f: "t = plug k (Node l c (node T e) r)"
    using focus [of "node T e" t] t by auto
  have R: "prep (nodes s) k (node T e)" "rep (nodes s) (paddr k) (Node l c (node T e) r)"
    "pdist k" "node T e \<notin> pset k"
    using w by (auto simp: f wf_def rep_plug distinct_plug)
  have "distinct (inorder t)" using w by (simp add: wf_def)
  then have eq: "inorder r @ after k = map (node T) ys"
    using t by (auto simp: f inorder_plug append_eq_append_conv2 append_eq_Cons_conv Cons_eq_append_conv)
  show ?thesis
  proof (cases "r = Leaf")
    case True
    then show ?thesis using R e eq climb_rep [OF R(1)]
      by (auto simp: next_entity_def get_right_def get_parent_def)
  next
    case False
    then have "head_or_null (inorder r) = head_or_null (map (node T) ys)"
      using eq by (metis head_or_null_simps(3) inorder_eq_Nil)
    then show ?thesis using R e False minimum_rep [of s "node T e" r] raddr_zero [of "nodes s" "node T e" r]
      by (auto simp: next_entity_def get_right_def)
  qed
qed


lemma next_abs: "rb_abs T s xs \<Longrightarrow> e \<in> set xs \<Longrightarrow> next_entity T s e = Some (onext xs e)"
proof -
  assume a: "rb_abs T s xs" and e: "e \<in> set xs"
  then obtain ys zs where xs: "xs = ys @ e # zs" by (auto simp: in_set_conv_decomp)
  have "distinct xs" using a ordered_distinct by (simp add: rb_abs_def)
  then show ?thesis using a e next_rep [of "nodes s" "length xs" _ s _ ys e zs]
    by (auto simp: rb_abs_def xs onext_append)
qed

lemma contains_loop_rep:
  assumes w: "wf h0 m A s t"
  shows "inorder t = map (node T) (xs @ ys) \<Longrightarrow> 0 \<notin> set ys \<Longrightarrow>
    contains_loop T s e (head_or_null ys) = Some (e \<in> set ys)"
proof (induction ys arbitrary: xs)
  case Nil
  then show ?case by (simp add: contains_loop.simps)
next
  case (Cons y ys)
  have "next_entity T s y = Some (head_or_null ys)"
    using next_rep [OF w Cons.prems(1)] Cons.prems(2) by simp
  moreover have "contains_loop T s e (head_or_null ys) = Some (e \<in> set ys)"
    using Cons.IH [of "xs @ [y]"] Cons.prems by simp
  ultimately show ?case using Cons.prems by (auto simp: contains_loop.simps [of T s e y])
qed

lemma contains_abs: "rb_abs T s xs \<Longrightarrow> contains T s e = Some (e \<in> set xs)"
  using first_abs [of s xs] contains_loop_rep [of "nodes s" "length xs" _ s _ "[]" xs e]
  by (auto simp: rb_abs_def contains_def)

lemma upper_bound_abs: "rb_abs T s xs \<Longrightarrow> upper_bound T s e = Some (oupper (cmp T) xs e)"
proof -
  assume a: "rb_abs T s xs"
  then obtain t where t: "rep (nodes s) 0 t" "root s = raddr t" "inorder t = map (node T) xs"
    by (auto simp: rb_abs_def wf_def)
  have "sorted_wrt (\<lambda>a b. cmp T e (entity_of T a) = Less \<longrightarrow> cmp T e (entity_of T b) = Less) (inorder t)"
    using a ordered_upclosed [of xs e] by (simp add: t(3) sorted_wrt_map rb_abs_def)
  from upper_bound_loop_rep [OF t(1) this, of 0] show ?thesis
    by (auto simp: upper_bound_def oupper_def t(2,3) filter_map comp_def)
qed

lemma insert_tree:
  assumes a: "rb_abs T s xs" and e: "e \<noteq> 0" "e \<notin> set xs"
    and h0: "\<And>z. z \<noteq> node T e \<Longrightarrow> z \<notin> node T ` set xs \<Longrightarrow> nodes s z = h0 z"
  shows "\<exists>s' t. rb_insert T s e = Some s' \<and> rbtree t
    \<and> wf h0 (Suc (length xs)) (insert (node T e) (node T ` set xs)) s' t
    \<and> inorder t = map (node T) (oinsert (cmp T) e xs)"
proof -
  let ?n = "node T e" and ?A = "insert (node T e) (node T ` set xs)" and ?z = "Node Leaf Red (node T e) Leaf"
  from a obtain t where w: "wf (nodes s) (length xs) (set (inorder t)) s t"
    and t: "rbtree t" "inorder t = map (node T) xs" by (auto simp: rb_abs_def)
  define s0 where "s0 = s\<lparr>nodes := (nodes s)(?n := RbNode_new)\<rparr>"
  define k where "k = ins_path T ?n t []"
  have pk: "plug k Leaf = t" by (simp add: k_def plug_ins_path)
  have ps: "pset k = node T ` set xs"
    using t(2) set_plug [of k Leaf] by (simp add: pk)
  have n: "?n \<noteq> 0" "?n \<notin> pset k" "?n \<in> ?A"
    using e by (auto simp: ps)
  have w0: "wf h0 (length xs) ?A s0 (plug k Leaf)"
    using w n(2) h0 t(2) set_plug [of k Leaf] by (auto simp: pk wf_def s0_def)
  have up: "sorted_wrt (\<lambda>a b. cmp_nodes T ?n a = Less \<longrightarrow> cmp_nodes T ?n b = Less) (inorder t)"
    using a ordered_upclosed [of xs e] by (simp add: t(2) sorted_wrt_map rb_abs_def)
  have reset: "set_node ?n RbNode_reset_links s = Some s0"
    using e by (simp add: set_node_def s0_def reset_links_new)
  have "\<forall>a \<in> set (inorder t). cmp_nodes T ?n a \<noteq> Equal"
    using e by (auto simp: t(2) cmp_Equal)
  moreover have "rep (nodes s0) 0 t" "root s0 = raddr t" using w0 by (simp_all add: wf_def pk)
  ultimately have descend: "insert_descend T s0 ?n 0 (root s0) = Some (paddr k)"
    using insert_descend_rep [of s0 0 t T ?n "[]"] by (simp add: k_def)
  have turn: "turns T ?n k"
    unfolding k_def by (rule turns_ins_path) (simp add: turns_def)
  have inv: "invh ?z" "invc ?z" "col ?z = Red" "pinvh k (bh ?z)" "pinvc k"
    using t(1) rbtree_plug [of k Leaf] by (auto simp: pk)
  obtain s1 s2 where s2: "set_parent ?n (paddr k) s0 = Some s1"
    "(if paddr k = 0 then Some (s1\<lparr>root := ?n\<rparr>)
        else if cmp_nodes T ?n (paddr k) = Less then set_left (paddr k) ?n s1
        else set_right (paddr k) ?n s1) = Some s2"
    "wf h0 (length xs) ?A s2 (plug k ?z)"
    using link_new_node [OF w0 n turn] by (auto simp: s0_def)
  obtain s3 where s3: "insert_fixup s2 ?n = Some s3"
    "wf h0 (length xs) ?A s3 (paint Black (ins_fix k ?z))"
    using insert_fixup_wf [OF s2(3) inv(5)] by blast
  have "rb_insert T s e = Some (s3\<lparr>len := len s3 + 1\<rparr>)"
    using e reset descend s2(1,2) s3(1) contains_abs [OF a, of e]
    by (simp add: rb_insert_def del: if_split_asm)
  moreover have "inorder (ins_fix k ?z) = map (node T) (oinsert (cmp T) e xs)"
    using inorder_ins_path [OF up, of "[]"] oinsert_map [of xs "cmp_nodes T" "node T" e "cmp T"]
    by (simp add: inorder_ins_fix inorder_plug k_def t(2))
  ultimately show ?thesis
    using s3(2) rbtree_ins_fix [OF inv]
    by (intro exI [of _ "s3\<lparr>len := len s3 + 1\<rparr>"] exI [of _ "paint Black (ins_fix k ?z)"])
      (simp add: wf_def)
qed

lemma insert_abs:
  assumes a: "rb_abs T s xs" and e: "e \<noteq> 0" "e \<notin> set xs"
  shows "\<exists>s'. rb_insert T s e = Some s' \<and> rb_abs T s' (oinsert (cmp T) e xs)
    \<and> (\<forall>z. z \<notin> node T ` insert e (set xs) \<longrightarrow> nodes s' z = nodes s z)"
proof -
  obtain s' t where i: "rb_insert T s e = Some s'" "rbtree t"
    "wf (nodes s) (Suc (length xs)) (insert (node T e) (node T ` set xs)) s' t"
    "inorder t = map (node T) (oinsert (cmp T) e xs)"
    using insert_tree [OF a e, of "nodes s"] by auto
  have "rb_abs T s' (oinsert (cmp T) e xs)"
    using a e i ordered_oinsert [of xs e] by (auto simp: rb_abs_def wf_def intro!: exI [of _ t])
  then show ?thesis using i(1,3) by (auto simp: wf_def)
qed

lemma remove_abs:
  assumes a: "rb_abs T s xs" and e: "e \<in> set xs"
  shows "\<exists>s'. rb_remove T s e = Some (s', e) \<and> rb_abs T s' (remove1 e xs)
    \<and> nodes s' (node T e) = RbNode_new
    \<and> (\<forall>z. z \<notin> node T ` set xs \<longrightarrow> nodes s' z = nodes s z)"
proof -
  from a obtain t where t: "wf (nodes s) (length xs) (set (inorder t)) s t" "rbtree t" "inorder t = map (node T) xs"
    by (auto simp: rb_abs_def)
  have e0: "e \<noteq> 0" and dx: "distinct xs" using a e ordered_distinct by (metis rb_abs_def)+
  obtain k l c r where f: "t = plug k (Node l c (node T e) r)" using focus [of "node T e" t] t(3) e by auto
  obtain m where m: "length xs = Suc m" using e by (cases xs) auto
  obtain s' u where u: "rb_remove T s e = Some (s', e)"
    "wf ((nodes s)(node T e := RbNode_new)) m (set (inorder t) - {node T e}) s' u" "rbtree u"
    "inorder u = before k @ inorder l @ inorder r @ after k" "nodes s' (node T e) = RbNode_new"
    using remove_tree [OF t(1) [unfolded f m] t(2) [unfolded f] refl e0] unfolding f by blast
  obtain ys zs where xs: "xs = ys @ e # zs" using e by (auto simp: in_set_conv_decomp)
  have r1: "remove1 e xs = ys @ zs" using dx by (simp add: xs remove1_append)
  have "before k @ inorder l @ node T e # inorder r @ after k = map (node T) ys @ node T e # map (node T) zs"
    using t(3) by (simp add: f inorder_plug xs)
  moreover have "distinct (map (node T) ys @ node T e # map (node T) zs)"
    using t(1) by (simp only: wf_def t(3) xs map_append list.map)
  ultimately have "inorder u = map (node T) (ys @ zs)"
    unfolding u(4) using list_split_unique [of "before k @ inorder l" "node T e" "inorder r @ after k"] by simp
  moreover have "ordered (cmp T) (ys @ zs)" "0 \<notin> set (ys @ zs)"
    using a ordered_remove1 [of xs e] r1 by (auto simp: rb_abs_def xs)
  moreover have "m = length (ys @ zs)" using m by (simp add: xs)
  ultimately have "rb_abs T s' (ys @ zs)"
    using wf_self [OF u(2)] u(3) unfolding rb_abs_def by (intro conjI exI [of _ u]) simp_all
  moreover have "nodes s' z = nodes s z" if "z \<notin> node T ` set xs" for z
  proof -
    have "z \<noteq> node T e" using that e by auto
    then show ?thesis using wf_frame [OF u(2), of z] that by (simp add: t(3))
  qed
  ultimately show ?thesis using u(1,5) r1 by auto
qed

lemma pop_first_abs:
  assumes "rb_abs T s xs"
  shows "case xs of
      [] \<Rightarrow> pop_first T s = Some (s, None)
    | x # ys \<Rightarrow> \<exists>s'. pop_first T s = Some (s', Some x) \<and> rb_abs T s' ys \<and> nodes s' (node T x) = RbNode_new
                \<and> (\<forall>z. z \<notin> node T ` set xs \<longrightarrow> nodes s' z = nodes s z)"
proof (cases xs)
  case (Cons x ys)
  then have "x \<noteq> 0" using assms by (auto simp: rb_abs_def)
  then show ?thesis
    using first_abs [OF assms] remove_abs [OF assms, of x] Cons by (auto simp: pop_first_def)
qed (use first_abs [OF assms] in \<open>simp add: pop_first_def\<close>)

end

section \<open>The pointer tree meets the contract\<close>

lemma offset_rb_entity: "strict_cmp c \<Longrightarrow> rb_entity (offset_entity off c)"
  by (auto simp: rb_entity_def rb_entity_axioms_def offset_entity_def)

lemma empty_abs: "rb_abs T (RBTree_new h) []"
  by (auto simp: rb_abs_def RBTree_new_def wf_def rbtree_def ordered_def intro!: exI [of _ Leaf])

interpretation rbe: rb_entity "offset_entity off (key_cmp key)"
  for off :: nat and key :: "addr \<Rightarrow> 'k::linorder"
  by (rule offset_rb_entity) unfold_locales

lemma cmp_offset [simp]: "cmp (offset_entity off c) = c"
  by (simp add: offset_entity_def)

interpretation rbq: ordered_queue "key_cmp key" "rb_abs (offset_entity off (key_cmp key))"
  "first (offset_entity off (key_cmp key))" "last_entity (offset_entity off (key_cmp key))"
  "next_entity (offset_entity off (key_cmp key))" "upper_bound (offset_entity off (key_cmp key))"
  "contains (offset_entity off (key_cmp key))" "rb_insert (offset_entity off (key_cmp key))"
  "rb_remove (offset_entity off (key_cmp key))" "pop_first (offset_entity off (key_cmp key))"
  for off :: nat and key :: "addr \<Rightarrow> 'k::linorder"
proof (unfold_locales, goal_cases)
  case (6 q xs e)
  then show ?case using rbe.upper_bound_abs by fastforce
next
  case (8 q xs e)
  then show ?case using rbe.insert_abs [OF 8(1-3)] by auto
next
  case (9 q xs e)
  then show ?case using rbe.remove_abs [OF 9] by auto
next
  case (10 q)
  then show ?case using rbe.pop_first_abs by fastforce
next
  case (11 q x xs)
  then show ?case using rbe.pop_first_abs [OF 11] by auto
qed (auto simp: rb_abs_def [where s = q for q] rbe.first_abs rbe.last_abs rbe.next_abs rbe.contains_abs)

section \<open>Depth\<close>

primrec depth :: "rbt \<Rightarrow> nat" where
  "depth Leaf = 0"
| "depth (Node l c a r) = Suc (max (depth l) (depth r))"

lemma depth_bh: "invh t \<Longrightarrow> invc t \<Longrightarrow> depth t \<le> 2 * bh t + (if col t = Red then 1 else 0)"
  by (induction t) (auto split: if_splits)

lemma bh_size: "invh t \<Longrightarrow> 2 ^ bh t \<le> Suc (length (inorder t))"
proof (induction t)
  case (Node l c a r)
  then have "2 ^ bh l \<le> Suc (length (inorder l))" "(2::nat) ^ bh l \<le> Suc (length (inorder r))" by auto
  then show ?case by auto
qed simp

lemma depth_size: "rbtree t \<Longrightarrow> 2 ^ depth t \<le> (Suc (length (inorder t)))\<^sup>2"
proof -
  assume t: "rbtree t"
  then have "depth t \<le> 2 * bh t" using depth_bh [of t] by (simp add: rbtree_def)
  then have "(2::nat) ^ depth t \<le> (2 ^ bh t)\<^sup>2"
    by (simp add: power_mult [symmetric] mult.commute)
  also have "\<dots> \<le> (Suc (length (inorder t)))\<^sup>2"
    using bh_size t by (intro power_mono) (auto simp: rbtree_def)
  finally show ?thesis .
qed

text \<open>A descent from a node along the links of the program, left for true.\<close>

primrec descend :: "RBTree \<Rightarrow> addr \<Rightarrow> bool list \<Rightarrow> addr option" where
  "descend s p [] = Some p"
| "descend s p (d # ds) = do { c \<leftarrow> (if d then get_left s p else get_right s p); descend s c ds }"

lemma descend_depth: "rep (nodes s) p t \<Longrightarrow> descend s (raddr t) ds = Some c \<Longrightarrow> c \<noteq> 0 \<Longrightarrow> length ds < depth t"
proof (induction ds arbitrary: t p)
  case Nil
  then show ?case by (cases t) auto
next
  case (Cons d ds)
  then obtain l k a r where t: "t = Node l k a r" by (cases t) (auto simp: get_left_def get_right_def split: if_splits)
  define u where "u = (if d then l else r)"
  have "rep (nodes s) a u" "descend s (raddr u) ds = Some c"
    using Cons.prems(1,2) by (auto simp: t u_def get_left_def get_right_def split: if_splits)
  then have "length ds < depth u" using Cons.IH Cons.prems(3) by blast
  then show ?case by (auto simp: t u_def split: if_splits)
qed

lemma descend_bound:
  assumes "rb_abs T s xs" "descend s (root s) ds = Some c" "c \<noteq> 0"
  shows "2 ^ (length ds + 1) \<le> (length xs + 1)\<^sup>2"
proof -
  obtain t where t: "rep (nodes s) 0 t" "root s = raddr t" "rbtree t" "inorder t = map (node T) xs"
    using assms(1) by (auto simp: rb_abs_def wf_def)
  have "Suc (length ds) \<le> depth t" using descend_depth [OF t(1)] assms(2,3) t(2) Suc_leI by metis
  then have "(2 :: nat) ^ (length ds + 1) \<le> 2 ^ depth t" by (intro power_increasing) simp_all
  also have "\<dots> \<le> (length xs + 1)\<^sup>2" using depth_size [OF t(3)] by (simp add: t(4))
  finally show ?thesis .
qed

section \<open>Sequences of operations\<close>

datatype tree_op = InsertOp addr | RemoveOp addr | PopOp

primrec run_op :: "RBTreeNode \<Rightarrow> tree_op \<Rightarrow> RBTree \<Rightarrow> RBTree option" where
  "run_op T (InsertOp e) s = rb_insert T s e"
| "run_op T (RemoveOp e) s = do { (s, _) \<leftarrow> rb_remove T s e; Some s }"
| "run_op T PopOp s = do { (s, _) \<leftarrow> pop_first T s; Some s }"

primrec run_ops :: "RBTreeNode \<Rightarrow> tree_op list \<Rightarrow> RBTree \<Rightarrow> RBTree option" where
  "run_ops T [] s = Some s"
| "run_ops T (p # ps) s = do { s \<leftarrow> run_op T p s; run_ops T ps s }"

text \<open>The same on the ordered list; what is inserted is new and not null, what is removed is there.\<close>

primrec list_op :: "(addr \<Rightarrow> addr \<Rightarrow> cmp_ordering) \<Rightarrow> tree_op \<Rightarrow> addr list \<Rightarrow> addr list" where
  "list_op c (InsertOp e) xs = oinsert c e xs"
| "list_op c (RemoveOp e) xs = remove1 e xs"
| "list_op c PopOp xs = tl xs"

primrec op_valid :: "tree_op \<Rightarrow> addr list \<Rightarrow> bool" where
  "op_valid (InsertOp e) xs \<longleftrightarrow> e \<noteq> 0 \<and> e \<notin> set xs"
| "op_valid (RemoveOp e) xs \<longleftrightarrow> e \<in> set xs"
| "op_valid PopOp xs \<longleftrightarrow> True"

primrec ops_valid :: "(addr \<Rightarrow> addr \<Rightarrow> cmp_ordering) \<Rightarrow> tree_op list \<Rightarrow> addr list \<Rightarrow> bool" where
  "ops_valid c [] xs \<longleftrightarrow> True"
| "ops_valid c (p # ps) xs \<longleftrightarrow> op_valid p xs \<and> ops_valid c ps (list_op c p xs)"

lemma run_op_abs:
  assumes "rb_abs (offset_entity off (key_cmp key)) s xs" "op_valid p xs"
  shows "\<exists>s'. run_op (offset_entity off (key_cmp key)) p s = Some s'
    \<and> rb_abs (offset_entity off (key_cmp key)) s' (list_op (key_cmp key) p xs)"
proof (cases p)
  case (InsertOp e)
  then show ?thesis using rbe.insert_abs [OF assms(1), of e] assms(2) by auto
next
  case (RemoveOp e)
  then show ?thesis using rbe.remove_abs [OF assms(1), of e] assms(2) by auto
next
  case PopOp
  then show ?thesis using rbe.pop_first_abs [OF assms(1)] assms(1) by (cases xs) auto
qed

lemma run_ops_abs:
  "rb_abs (offset_entity off (key_cmp key)) s xs \<Longrightarrow> ops_valid (key_cmp key) ps xs \<Longrightarrow>
    \<exists>s'. run_ops (offset_entity off (key_cmp key)) ps s = Some s'
      \<and> rb_abs (offset_entity off (key_cmp key)) s' (fold (list_op (key_cmp key)) ps xs)"
proof (induction ps arbitrary: s xs)
  case (Cons p ps)
  then obtain s1 where "run_op (offset_entity off (key_cmp key)) p s = Some s1"
    "rb_abs (offset_entity off (key_cmp key)) s1 (list_op (key_cmp key) p xs)" using run_op_abs [of off key s xs p] by auto
  then show ?case using Cons.IH [of s1 "list_op (key_cmp key) p xs"] Cons.prems(2) by simp
qed simp

section \<open>Properties of the tree operations\<close>

text \<open>
  C15: inserting a detached, non-null entity into a well-formed red-black tree completes, gives a
  well-formed red-black tree that holds the old entities and the new one in order, and writes no
  node outside the tree but the new one.
\<close>

theorem rb_insert_refines:
  assumes "rb_abs (offset_entity off (key_cmp key)) s xs" "e \<noteq> 0" "e \<notin> set xs"
  shows "\<exists>s'. rb_insert (offset_entity off (key_cmp key)) s e = Some s'
    \<and> rb_abs (offset_entity off (key_cmp key)) s' (oinsert (key_cmp key) e xs)
    \<and> (\<forall>z. z \<notin> node (offset_entity off (key_cmp key)) ` insert e (set xs) \<longrightarrow> nodes s' z = nodes s z)"
  using rbe.insert_abs [OF assms] by simp

text \<open>A tree with three entities, whose key is the distance of their address from 100.\<close>

definition sample_entity :: RBTreeNode where
  "sample_entity = offset_entity 4 (key_cmp (\<lambda>a. 100 - a))"

definition sample_tree :: RBTree where
  "sample_tree = the (insert_all (rb_insert sample_entity) (RBTree_new (\<lambda>_. RbNode_new)) [10, 30, 20])"

lemma sample_abs: "rb_abs sample_entity sample_tree [30, 20, 10]"
proof -
  have "fold (oinsert (key_cmp (\<lambda>a. 100 - a))) [10, 30, 20] [] = [30, 20, 10]"
    by (simp add: key_cmp_def cmp_of_def then_cmp_def)
  then show ?thesis
    using rbq.insert_all_law [OF empty_abs [of _ "\<lambda>_. RbNode_new"], of "[10, 30, 20]" 4 "\<lambda>a. 100 - a"]
    by (auto simp: sample_tree_def sample_entity_def simp del: insert_all.simps)
qed

theorem rb_insert_refines_witness:
  "\<exists>s'. rb_insert sample_entity sample_tree 25 = Some s' \<and> rb_abs sample_entity s' [30, 25, 20, 10]"
  using rb_insert_refines [OF sample_abs [unfolded sample_entity_def], of 25]
  by (auto simp: sample_entity_def key_cmp_def cmp_of_def then_cmp_def)

text \<open>
  C14: removing an entity that is in the tree completes, returns that entity, leaves the others in
  order, detaches its node and writes no node outside the tree.
\<close>

theorem rb_remove_refines:
  assumes "rb_abs (offset_entity off (key_cmp key)) s xs" "e \<in> set xs"
  shows "\<exists>s'. rb_remove (offset_entity off (key_cmp key)) s e = Some (s', e)
    \<and> rb_abs (offset_entity off (key_cmp key)) s' (remove1 e xs)
    \<and> nodes s' (node (offset_entity off (key_cmp key)) e) = RbNode_new
    \<and> (\<forall>z. z \<notin> node (offset_entity off (key_cmp key)) ` set xs \<longrightarrow> nodes s' z = nodes s z)"
  using rbe.remove_abs [OF assms] by simp

theorem rb_remove_refines_witness:
  "\<exists>s'. rb_remove sample_entity sample_tree 20 = Some (s', 20) \<and> rb_abs sample_entity s' [30, 10]
    \<and> nodes s' 24 = RbNode_new"
  using rb_remove_refines [OF sample_abs [unfolded sample_entity_def], of 20]
  by (auto simp: sample_entity_def offset_entity_def)

text \<open>
  Inserting any batch of distinct entities into an empty tree and popping the first entity
  until none is left returns exactly that batch, sorted by \<open>cmp\<close>.
\<close>

theorem rb_drain_sorts:
  assumes "distinct es" "0 \<notin> set es"
  shows "\<exists>t ys t'. insert_all (rb_insert (offset_entity off (key_cmp key))) (RBTree_new h) es = Some t
    \<and> pop_many (pop_first (offset_entity off (key_cmp key))) (length es) t = Some (ys, t')
    \<and> ordered (key_cmp key) ys \<and> set ys = set es \<and> is_empty t'"
proof -
  have "rb_abs T s [] \<Longrightarrow> is_empty s" for T s
    by (auto simp: rb_abs_def wf_def is_empty_def)
  then show ?thesis using rbq.drain_sorts [OF empty_abs assms order_refl, of off key h] by blast
qed

text \<open>
  C24: \<open>first\<close> and \<open>next\<close> walk the tree in order and end with null, \<open>last\<close> is the greatest entity,
  \<open>contains\<close> decides membership and \<open>upper_bound\<close> is the least entity greater than the given one.
\<close>

theorem rb_navigation:
  assumes a: "rb_abs (offset_entity off (key_cmp key)) s xs"
  shows "first (offset_entity off (key_cmp key)) s = Some (head_or_null xs)
    \<and> last_entity (offset_entity off (key_cmp key)) s = Some (head_or_null (rev xs))
    \<and> (\<forall>i < length xs. next_entity (offset_entity off (key_cmp key)) s (xs ! i)
          = Some (if Suc i < length xs then xs ! Suc i else 0))
    \<and> contains (offset_entity off (key_cmp key)) s e = Some (e \<in> set xs)
    \<and> upper_bound (offset_entity off (key_cmp key)) s e
          = Some (head_or_null (filter (\<lambda>a. key_cmp key e a = Less) xs))"
proof -
  have "next_entity (offset_entity off (key_cmp key)) s (xs ! i) = Some (if Suc i < length xs then xs ! Suc i else 0)"
    if i: "i < length xs" for i
  proof -
    have "distinct xs" using keyed.ordered_distinct rbq.repr_ordered [OF a] by blast
    then have n: "xs ! i \<notin> set (take i xs)" using i by (metis distinct_take id_take_nth_drop not_distinct_conv_prefix)
    have "onext xs (xs ! i) = onext (take i xs @ xs ! i # drop (Suc i) xs) (xs ! i)"
      using id_take_nth_drop [OF i] by simp
    also have "\<dots> = head_or_null (drop (Suc i) xs)" using n by (rule onext_append)
    also have "\<dots> = (if Suc i < length xs then xs ! Suc i else 0)"
      by (auto simp: Cons_nth_drop_Suc [symmetric] simp del: drop_Suc)
    finally show ?thesis using rbq.next_law [OF a nth_mem [OF i]] by simp
  qed
  then show ?thesis
    using rbq.first_law [OF a] rbq.last_law [OF a] rbq.contains_law [OF a, of e] rbq.upper_law [OF a, of e]
    by (simp add: oupper_def)
qed

theorem rb_navigation_witness:
  "first sample_entity sample_tree = Some 30 \<and> next_entity sample_entity sample_tree 30 = Some 20
    \<and> next_entity sample_entity sample_tree 10 = Some 0 \<and> upper_bound sample_entity sample_tree 25 = Some 20"
proof -
  have n: "\<forall>i < 3. next_entity sample_entity sample_tree ([30, 20, 10] ! i)
      = Some (if Suc i < 3 then [30, 20, 10] ! Suc i else 0)"
    using rb_navigation [OF sample_abs [unfolded sample_entity_def]] by (simp add: sample_entity_def)
  show ?thesis
    using rb_navigation [OF sample_abs [unfolded sample_entity_def], of 25] n [rule_format, of 0] n [rule_format, of 2]
    by (simp add: sample_entity_def key_cmp_def cmp_of_def then_cmp_def)
qed

text \<open>
  C25: the operations keep the tree balanced: from a well-formed tree, the empty one included, any sequence of
  inserts of new entities, removals of members and pops completes, and in the tree it leaves every descent along left
  and right links from the root that ends at a node visits at most \<open>2 * log 2 (n + 1)\<close> nodes, where \<open>n\<close> is the number of
  entities the tree then has.
\<close>

theorem rb_depth_logarithmic:
  assumes "rb_abs (offset_entity off (key_cmp key)) s xs" "ops_valid (key_cmp key) ps xs"
  shows "\<exists>s'. run_ops (offset_entity off (key_cmp key)) ps s = Some s'
    \<and> len s' = length (fold (list_op (key_cmp key)) ps xs)
    \<and> (\<forall>ds n. descend s' (root s') ds = Some n \<and> n \<noteq> 0 \<longrightarrow> 2 ^ (length ds + 1) \<le> (len s' + 1)\<^sup>2)"
proof -
  obtain s' where s': "run_ops (offset_entity off (key_cmp key)) ps s = Some s'"
    "rb_abs (offset_entity off (key_cmp key)) s' (fold (list_op (key_cmp key)) ps xs)" using run_ops_abs [OF assms] by blast
  have "len s' = length (fold (list_op (key_cmp key)) ps xs)" using s'(2) by (auto simp: rb_abs_def wf_def)
  then show ?thesis using s' descend_bound [OF s'(2)] by auto
qed

theorem rb_depth_logarithmic_witness:
  "\<exists>s'. run_ops sample_entity [InsertOp 40, RemoveOp 20, PopOp] sample_tree = Some s' \<and> len s' = 2
    \<and> (\<forall>ds n. descend s' (root s') ds = Some n \<and> n \<noteq> 0 \<longrightarrow> 2 ^ (length ds + 1) \<le> (9 :: nat))"
proof -
  have c: "key_cmp (\<lambda>a. 100 - a) 40 b = (if b < 40 then Less else if b = 40 then Equal else Greater)" if "b \<le> 100" for b :: nat
    using that by (auto simp: key_cmp_def cmp_of_def then_cmp_def)
  have "ops_valid (key_cmp (\<lambda>a. 100 - a)) [InsertOp 40, RemoveOp 20, PopOp] [30, 20, 10 :: addr]" by (simp add: c)
  from rb_depth_logarithmic [OF sample_abs [unfolded sample_entity_def] this] obtain s' where
    "run_ops sample_entity [InsertOp 40, RemoveOp 20, PopOp] sample_tree = Some s'"
    and l: "len s' = length (fold (list_op (key_cmp (\<lambda>a. 100 - a))) [InsertOp 40, RemoveOp 20, PopOp] [30, 20, 10 :: addr])"
    and d: "\<And>ds n. descend s' (root s') ds = Some n \<Longrightarrow> n \<noteq> 0 \<Longrightarrow> 2 ^ (length ds + 1) \<le> (len s' + 1)\<^sup>2"
    unfolding sample_entity_def by blast
  moreover have "len s' = 2" using l by (simp add: c)
  ultimately show ?thesis by (intro exI [of _ s']) (use d in \<open>auto simp: power2_eq_square\<close>)
qed

text \<open>
  The guards of the operations: a null or already linked entity is refused (a panic), removing
  null changes nothing, and popping an empty tree returns nothing.
\<close>

theorem rb_guards:
  assumes "rb_abs (offset_entity off (key_cmp key)) s xs"
  shows "rb_insert (offset_entity off (key_cmp key)) s 0 = None
    \<and> (e \<in> set xs \<longrightarrow> rb_insert (offset_entity off (key_cmp key)) s e = None)
    \<and> rb_remove (offset_entity off (key_cmp key)) s 0 = Some (s, 0)
    \<and> (is_empty s \<longrightarrow> pop_first (offset_entity off (key_cmp key)) s = Some (s, None))
    \<and> (is_empty s \<longleftrightarrow> xs = []) \<and> len s = length xs"
proof -
  have e: "is_empty s \<longleftrightarrow> xs = []"
    using assms raddr_zero by (fastforce simp: rb_abs_def wf_def is_empty_def)
  have "len s = length xs" using assms by (auto simp: rb_abs_def wf_def)
  then show ?thesis
    using rbq.contains_law [OF assms, of e] rbq.pop_empty [of off key s] e assms
    by (auto simp: rb_insert_def rb_remove_def)
qed

end
