(* ===== verification/Kernel.thy ===== *)
theory Kernel
  imports OrdList "HOL-Library.Product_Lexorder" "HOL-Library.Option_ord"
begin

text \<open>
  The state of the scheduler: thread control blocks (\<^verbatim>\<open>src/thread.rs\<close>), the entities embedded in
  them (\<^verbatim>\<open>src/waitq.rs\<close>, \<^verbatim>\<open>src/runq.rs\<close>, \<^verbatim>\<open>src/sync.rs\<close>), kernel timers (\<^verbatim>\<open>src/ktimer.rs\<close>), the
  global queues, the platform timer and the trace counters (\<^verbatim>\<open>src/diagnostics/trace.rs\<close>).

  Threads and timers live in stores indexed by address. An entity embedded in a thread sits at a
  constant offset, so it is named by the address of its thread, and the order of entity addresses
  is the order of thread addresses. Every tree is the list of its entities in order: the pointer
  trees meet that contract (\<open>ordered_queue\<close>). A critical section is one atomic step on a single
  core and leaves no trace in the model.
\<close>

section \<open>Wait events\<close>

datatype SyncType = SyncBinarySemaphore | SyncCountingSemaphore | SyncMutex
  | SyncMessageQueueSend | SyncMessageQueueReceive

definition u32_from_be_bytes :: "string \<Rightarrow> u32" where
  "u32_from_be_bytes bs = foldl (\<lambda>acc c. acc * 256 + of_char c) 0 bs"

primrec wait_event :: "SyncType \<Rightarrow> u32" where
  "wait_event SyncBinarySemaphore = u32_from_be_bytes ''semb''"
| "wait_event SyncCountingSemaphore = u32_from_be_bytes ''semc''"
| "wait_event SyncMutex = u32_from_be_bytes ''mute''"
| "wait_event SyncMessageQueueSend = u32_from_be_bytes ''mqtx''"
| "wait_event SyncMessageQueueReceive = u32_from_be_bytes ''mqrx''"

definition from_wait_event :: "u32 \<Rightarrow> SyncType option" where
  "from_wait_event e =
     (if e = wait_event SyncBinarySemaphore then Some SyncBinarySemaphore
      else if e = wait_event SyncCountingSemaphore then Some SyncCountingSemaphore
      else if e = wait_event SyncMutex then Some SyncMutex
      else if e = wait_event SyncMessageQueueSend then Some SyncMessageQueueSend
      else if e = wait_event SyncMessageQueueReceive then Some SyncMessageQueueReceive
      else None)"

lemma wait_event_tags [simp]:
  "wait_event SyncBinarySemaphore = 0x73656d62" "wait_event SyncCountingSemaphore = 0x73656d63"
  "wait_event SyncMutex = 0x6d757465" "wait_event SyncMessageQueueSend = 0x6d717478"
  "wait_event SyncMessageQueueReceive = 0x6d717278"
  by (simp_all add: u32_from_be_bytes_def of_char_def)

declare wait_event.simps [simp del]

lemma wait_event_inj: "wait_event a = wait_event b \<Longrightarrow> a = b"
  by (cases a; cases b) simp_all

text \<open>\<open>Ord for SyncType\<close> compares the tags.\<close>

instantiation SyncType :: linorder
begin

definition less_eq_SyncType :: "SyncType \<Rightarrow> SyncType \<Rightarrow> bool" where
  "less_eq_SyncType a b \<longleftrightarrow> wait_event a \<le> wait_event b"

definition less_SyncType :: "SyncType \<Rightarrow> SyncType \<Rightarrow> bool" where
  "less_SyncType a b \<longleftrightarrow> wait_event a < wait_event b"

instance
  by standard (auto simp: less_eq_SyncType_def less_SyncType_def intro: wait_event_inj)

end

section \<open>Threads\<close>

datatype ThreadState = Ready | Running | Waiting | Suspended

definition is_blocked :: "ThreadState \<Rightarrow> bool" where
  "is_blocked st \<longleftrightarrow> (case st of Waiting \<Rightarrow> True | Suspended \<Rightarrow> True | _ \<Rightarrow> False)"

definition can_transition_to :: "ThreadState \<Rightarrow> ThreadState \<Rightarrow> bool" where
  "can_transition_to st next \<longleftrightarrow>
     (case st of
        Ready \<Rightarrow> True
      | Running \<Rightarrow> True
      | Waiting \<Rightarrow> next = Ready \<or> next = Waiting
      | Suspended \<Rightarrow> next = Ready \<or> next = Suspended)"

datatype ThreadKind = Idle | Cfs | Rt

text \<open>
  The common context is the first part of every control block; the fields that follow are those
  of \<open>CfsThread\<close> and \<open>RtThread\<close>, each used only for threads of its kind.
\<close>

record ThreadCtx =
  sp :: u32
  exc_return :: u32
  thread_id :: u32
  thread_name :: string
  state :: ThreadState
  kind :: ThreadKind

record WaitEntity =
  wake_at :: u64
  waitevt :: "SyncType option"

record SyncEntity =
  deadline_at :: u64

record SchedEntity =
  sched_tick_cnt :: u64
  vruntime :: u64
  priority :: u32

record TCB = ThreadCtx +
  wait_entity :: WaitEntity
  sync_entity :: SyncEntity
  sched_entity :: SchedEntity
  ktimer_entity :: addr
  runtime :: u32

definition WaitEntity_new :: WaitEntity where
  "WaitEntity_new = \<lparr>wake_at = 0, waitevt = None\<rparr>"

definition SyncEntity_new :: SyncEntity where
  "SyncEntity_new = \<lparr>deadline_at = 0\<rparr>"

definition SchedEntity_new :: "u32 \<Rightarrow> SchedEntity" where
  "SchedEntity_new p = \<lparr>sched_tick_cnt = 0, vruntime = 0, priority = p\<rparr>"

definition set_wake_after :: "u64 \<Rightarrow> u32 \<Rightarrow> WaitEntity \<Rightarrow> WaitEntity" where
  "set_wake_after now ticks w = w\<lparr>wake_at := saturating_add now (u64_of ticks)\<rparr>"

definition wait_remaining_at :: "WaitEntity \<Rightarrow> u64 \<Rightarrow> u32" where
  "wait_remaining_at w now = ucast (min (saturating_sub (wake_at w) now) (u64_of (- 1)))"

definition wait_is_expired_at :: "WaitEntity \<Rightarrow> u64 \<Rightarrow> bool" where
  "wait_is_expired_at w now \<longleftrightarrow> wake_at w \<le> now"

section \<open>Kernel timers\<close>

record RtTiming =
  period_ticks :: u32
  relative_deadline_ticks :: u32
  budget_ticks :: u32

definition RtTiming_new :: "u32 \<Rightarrow> u32 \<Rightarrow> u32 \<Rightarrow> RtTiming" where
  "RtTiming_new p d b = \<lparr>period_ticks = p, relative_deadline_ticks = d, budget_ticks = b\<rparr>"

definition RtTiming_from_period :: "u32 \<Rightarrow> RtTiming" where
  "RtTiming_from_period p = RtTiming_new p p p"

text \<open>
  \<open>RtKTimer\<close>: a timer entity followed by the fields of its container. The CFS and wait timers use
  the entity and the name only.
\<close>

record KTimerEntity =
  expire_at :: u64
  active :: bool
  timing :: RtTiming

record RtKTimer = KTimerEntity +
  ktimer_label :: string
  miss_cnt :: u32
  thread_ctx :: addr

definition KTIMER_EXPIRE_NEVER :: u64 where
  "KTIMER_EXPIRE_NEVER = - 1"

definition SCHEDULER_TIMER_RELOAD_MIN :: u32 where
  "SCHEDULER_TIMER_RELOAD_MIN = 1"

definition SCHEDULER_TIMER_RELOAD_MAX :: u32 where
  "SCHEDULER_TIMER_RELOAD_MAX = 2 ^ 24 - 1"

definition RtKTimer_new_with_timing :: "RtTiming \<Rightarrow> addr \<Rightarrow> string \<Rightarrow> RtKTimer" where
  "RtKTimer_new_with_timing tm t nm =
     \<lparr>expire_at = u64_of (relative_deadline_ticks tm), active = True, timing = tm,
      ktimer_label = nm, miss_cnt = 0, thread_ctx = t\<rparr>"

definition RtKTimer_new :: "u32 \<Rightarrow> addr \<Rightarrow> string \<Rightarrow> RtKTimer" where
  "RtKTimer_new period t nm = RtKTimer_new_with_timing (RtTiming_from_period period) t nm"

definition CfsKTimer_new :: "u32 \<Rightarrow> u32 \<Rightarrow> string \<Rightarrow> RtKTimer" where
  "CfsKTimer_new period execution nm =
     \<lparr>expire_at = u64_of period, active = True, timing = RtTiming_new period execution execution,
      ktimer_label = nm, miss_cnt = 0, thread_ctx = 0\<rparr>"

definition WaitKTimer_new :: RtKTimer where
  "WaitKTimer_new =
     \<lparr>expire_at = KTIMER_EXPIRE_NEVER, active = False, timing = RtTiming_new 0 0 0,
      ktimer_label = ''wait'', miss_cnt = 0, thread_ctx = 0\<rparr>"

definition set_expire_after :: "u64 \<Rightarrow> u32 \<Rightarrow> RtKTimer \<Rightarrow> RtKTimer" where
  "set_expire_after now ticks k = k\<lparr>expire_at := saturating_add now (u64_of ticks)\<rparr>"

definition ktimer_is_expired_at :: "RtKTimer \<Rightarrow> u64 \<Rightarrow> bool" where
  "ktimer_is_expired_at k now \<longleftrightarrow> expire_at k \<le> now"

definition ktimer_remaining_at :: "RtKTimer \<Rightarrow> u64 \<Rightarrow> u32" where
  "ktimer_remaining_at k now =
     (if expire_at k = KTIMER_EXPIRE_NEVER then SCHEDULER_TIMER_RELOAD_MAX
      else ucast (min (saturating_sub (expire_at k) now) (u64_of SCHEDULER_TIMER_RELOAD_MAX)))"

section \<open>Trace events\<close>

record TraceThread =
  tt_id :: u32
  tt_name :: string
  tt_is_cfs :: bool

datatype TraceEvent =
    ContextSwitch "TraceThread option" TraceThread
  | DeadlineMiss TraceThread u32 u32
  | Wakeup TraceThread
  | Yield TraceThread u32

record TraceCounters =
  context_switches :: u32
  deadline_misses :: u32
  wakeups :: u32
  yields :: u32

section \<open>The scheduler state\<close>

record kstate =
  threads :: "addr \<Rightarrow> TCB"
  ktimers :: "addr \<Rightarrow> RtKTimer"
  CFS_KTIMER :: addr
  WAIT_KTIMER :: addr
  run_tree :: "addr list"
  priority_sum :: u32
  wait_tree :: "addr list"
  suspended :: "addr list"
  active_tree :: "addr list"
  inactive_tree :: "addr list"
  first_active_node :: addr
  first_inactive_node :: addr
  now_ticks :: u64
  NEXT_KTIMER :: addr
  CURRENT_THREAD_CTX :: addr
  CURRENT_THREAD_IS_CFS :: bool
  IDLE_THREAD_CTX :: addr
  SCHEDULER_STARTED :: bool
  NEXT_THREAD_ID :: u32
  SYS_CLK_FREQ :: u32
  timer_reload :: "u32 option"
  timer_current :: "u32 option"
  pendsv :: bool
  counters :: TraceCounters
  trace_fn :: bool
  trace_log :: "TraceEvent list"

definition get_thread :: "kstate \<Rightarrow> addr \<Rightarrow> TCB option" where
  "get_thread s t = (if t = 0 then None else Some (threads s t))"

definition upd_thread :: "addr \<Rightarrow> (TCB \<Rightarrow> TCB) \<Rightarrow> kstate \<Rightarrow> kstate option" where
  "upd_thread t f s = (if t = 0 then None else Some (s\<lparr>threads := (threads s)(t := f (threads s t))\<rparr>))"

definition get_ktimer :: "kstate \<Rightarrow> addr \<Rightarrow> RtKTimer option" where
  "get_ktimer s k = (if k = 0 then None else Some (ktimers s k))"

definition upd_ktimer :: "addr \<Rightarrow> (RtKTimer \<Rightarrow> RtKTimer) \<Rightarrow> kstate \<Rightarrow> kstate option" where
  "upd_ktimer k f s = (if k = 0 then None else Some (s\<lparr>ktimers := (ktimers s)(k := f (ktimers s k))\<rparr>))"

lemmas store_defs = get_thread_def upd_thread_def get_ktimer_def upd_ktimer_def

definition set_state :: "addr \<Rightarrow> ThreadState \<Rightarrow> kstate \<Rightarrow> kstate option" where
  "set_state t next s = do {
     th \<leftarrow> get_thread s t;
     require (can_transition_to (state th) next);
     upd_thread t (state_update (\<lambda>_. next)) s
   }"

section \<open>Entity orders\<close>

definition wait_cmp :: "kstate \<Rightarrow> addr \<Rightarrow> addr \<Rightarrow> cmp_ordering" where
  "wait_cmp s = key_cmp (\<lambda>t. (wake_at (wait_entity (threads s t)), waitevt (wait_entity (threads s t))))"

definition sched_cmp :: "kstate \<Rightarrow> addr \<Rightarrow> addr \<Rightarrow> cmp_ordering" where
  "sched_cmp s = key_cmp (\<lambda>t. vruntime (sched_entity (threads s t)))"

definition sync_cmp :: "kstate \<Rightarrow> addr \<Rightarrow> addr \<Rightarrow> cmp_ordering" where
  "sync_cmp s = key_cmp (\<lambda>t. deadline_at (sync_entity (threads s t)))"

definition ktimer_cmp :: "kstate \<Rightarrow> addr \<Rightarrow> addr \<Rightarrow> cmp_ordering" where
  "ktimer_cmp s = key_cmp (\<lambda>k. expire_at (ktimers s k))"

interpretation wcmp: strict_cmp "wait_cmp s" for s
  unfolding wait_cmp_def by unfold_locales

interpretation scmp: strict_cmp "sched_cmp s" for s
  unfolding sched_cmp_def by unfold_locales

interpretation ycmp: strict_cmp "sync_cmp s" for s
  unfolding sync_cmp_def by unfold_locales

interpretation kcmp: strict_cmp "ktimer_cmp s" for s
  unfolding ktimer_cmp_def by unfold_locales

text \<open>An order depends only on the keys of the entities compared.\<close>

lemma ordered_cong:
  "(\<And>a b. a \<in> set xs \<Longrightarrow> b \<in> set xs \<Longrightarrow> c a b = d a b) \<Longrightarrow> ordered c xs = ordered d xs"
  unfolding ordered_def by (induction xs) auto

lemma oinsert_cong:
  "(\<And>b. b \<in> set xs \<Longrightarrow> c x b = d x b) \<Longrightarrow> oinsert c x xs = oinsert d x xs"
  by (induction xs) auto

section \<open>Trace hooks\<close>

definition trace_thread :: "kstate \<Rightarrow> addr \<Rightarrow> TraceThread option" where
  "trace_thread s t =
     (if t = 0 then None
      else Some \<lparr>tt_id = thread_id (threads s t), tt_name = thread_name (threads s t),
                 tt_is_cfs = (kind (threads s t) = Cfs)\<rparr>)"

definition increment :: "u32 \<Rightarrow> u32" where
  "increment c = (case checked_add c 1 of None \<Rightarrow> c | Some v \<Rightarrow> v)"

definition emit :: "TraceEvent \<Rightarrow> kstate \<Rightarrow> kstate" where
  "emit e s = (if trace_fn s then s\<lparr>trace_log := trace_log s @ [e]\<rparr> else s)"

definition record_context_switch :: "addr \<Rightarrow> addr \<Rightarrow> kstate \<Rightarrow> kstate" where
  "record_context_switch from to s =
     (if from = to then s
      else case trace_thread s to of None \<Rightarrow> s
      | Some t \<Rightarrow> emit (ContextSwitch (trace_thread s from) t)
          (s\<lparr>counters := (counters s)\<lparr>context_switches := increment (context_switches (counters s))\<rparr>\<rparr>))"

definition record_deadline_miss :: "addr \<Rightarrow> u32 \<Rightarrow> u32 \<Rightarrow> kstate \<Rightarrow> kstate" where
  "record_deadline_miss t rt dl s =
     (case trace_thread s t of None \<Rightarrow> s
      | Some th \<Rightarrow> emit (DeadlineMiss th rt dl)
          (s\<lparr>counters := (counters s)\<lparr>deadline_misses := increment (deadline_misses (counters s))\<rparr>\<rparr>))"

definition record_wakeup :: "addr \<Rightarrow> kstate \<Rightarrow> kstate" where
  "record_wakeup t s =
     (case trace_thread s t of None \<Rightarrow> s
      | Some th \<Rightarrow> emit (Wakeup th)
          (s\<lparr>counters := (counters s)\<lparr>wakeups := increment (wakeups (counters s))\<rparr>\<rparr>))"

definition record_yield :: "addr \<Rightarrow> u32 \<Rightarrow> kstate \<Rightarrow> kstate" where
  "record_yield t elapsed s =
     (case trace_thread s t of None \<Rightarrow> s
      | Some th \<Rightarrow> emit (Yield th elapsed)
          (s\<lparr>counters := (counters s)\<lparr>yields := increment (yields (counters s))\<rparr>\<rparr>))"

text \<open>Trace hooks touch the counters and the log only.\<close>

lemma record_context_switch_frame [simp]:
  "threads (record_context_switch a b s) = threads s" "ktimers (record_context_switch a b s) = ktimers s"
  "CFS_KTIMER (record_context_switch a b s) = CFS_KTIMER s" "WAIT_KTIMER (record_context_switch a b s) = WAIT_KTIMER s"
  "run_tree (record_context_switch a b s) = run_tree s" "priority_sum (record_context_switch a b s) = priority_sum s"
  "wait_tree (record_context_switch a b s) = wait_tree s" "suspended (record_context_switch a b s) = suspended s"
  "active_tree (record_context_switch a b s) = active_tree s" "inactive_tree (record_context_switch a b s) = inactive_tree s"
  "first_active_node (record_context_switch a b s) = first_active_node s" "first_inactive_node (record_context_switch a b s) = first_inactive_node s"
  "now_ticks (record_context_switch a b s) = now_ticks s" "NEXT_KTIMER (record_context_switch a b s) = NEXT_KTIMER s"
  "CURRENT_THREAD_CTX (record_context_switch a b s) = CURRENT_THREAD_CTX s" "CURRENT_THREAD_IS_CFS (record_context_switch a b s) = CURRENT_THREAD_IS_CFS s"
  "IDLE_THREAD_CTX (record_context_switch a b s) = IDLE_THREAD_CTX s" "SCHEDULER_STARTED (record_context_switch a b s) = SCHEDULER_STARTED s"
  "NEXT_THREAD_ID (record_context_switch a b s) = NEXT_THREAD_ID s" "SYS_CLK_FREQ (record_context_switch a b s) = SYS_CLK_FREQ s"
  "timer_reload (record_context_switch a b s) = timer_reload s" "timer_current (record_context_switch a b s) = timer_current s"
  "pendsv (record_context_switch a b s) = pendsv s" "trace_fn (record_context_switch a b s) = trace_fn s"
  by (simp_all add: record_context_switch_def emit_def split: option.splits)

lemma record_deadline_miss_frame [simp]:
  "threads (record_deadline_miss a b c s) = threads s" "ktimers (record_deadline_miss a b c s) = ktimers s"
  "CFS_KTIMER (record_deadline_miss a b c s) = CFS_KTIMER s" "WAIT_KTIMER (record_deadline_miss a b c s) = WAIT_KTIMER s"
  "run_tree (record_deadline_miss a b c s) = run_tree s" "priority_sum (record_deadline_miss a b c s) = priority_sum s"
  "wait_tree (record_deadline_miss a b c s) = wait_tree s" "suspended (record_deadline_miss a b c s) = suspended s"
  "active_tree (record_deadline_miss a b c s) = active_tree s" "inactive_tree (record_deadline_miss a b c s) = inactive_tree s"
  "first_active_node (record_deadline_miss a b c s) = first_active_node s" "first_inactive_node (record_deadline_miss a b c s) = first_inactive_node s"
  "now_ticks (record_deadline_miss a b c s) = now_ticks s" "NEXT_KTIMER (record_deadline_miss a b c s) = NEXT_KTIMER s"
  "CURRENT_THREAD_CTX (record_deadline_miss a b c s) = CURRENT_THREAD_CTX s" "CURRENT_THREAD_IS_CFS (record_deadline_miss a b c s) = CURRENT_THREAD_IS_CFS s"
  "IDLE_THREAD_CTX (record_deadline_miss a b c s) = IDLE_THREAD_CTX s" "SCHEDULER_STARTED (record_deadline_miss a b c s) = SCHEDULER_STARTED s"
  "NEXT_THREAD_ID (record_deadline_miss a b c s) = NEXT_THREAD_ID s" "SYS_CLK_FREQ (record_deadline_miss a b c s) = SYS_CLK_FREQ s"
  "timer_reload (record_deadline_miss a b c s) = timer_reload s" "timer_current (record_deadline_miss a b c s) = timer_current s"
  "pendsv (record_deadline_miss a b c s) = pendsv s" "trace_fn (record_deadline_miss a b c s) = trace_fn s"
  by (simp_all add: record_deadline_miss_def emit_def split: option.splits)

lemma record_wakeup_frame [simp]:
  "threads (record_wakeup a s) = threads s" "ktimers (record_wakeup a s) = ktimers s"
  "CFS_KTIMER (record_wakeup a s) = CFS_KTIMER s" "WAIT_KTIMER (record_wakeup a s) = WAIT_KTIMER s"
  "run_tree (record_wakeup a s) = run_tree s" "priority_sum (record_wakeup a s) = priority_sum s"
  "wait_tree (record_wakeup a s) = wait_tree s" "suspended (record_wakeup a s) = suspended s"
  "active_tree (record_wakeup a s) = active_tree s" "inactive_tree (record_wakeup a s) = inactive_tree s"
  "first_active_node (record_wakeup a s) = first_active_node s" "first_inactive_node (record_wakeup a s) = first_inactive_node s"
  "now_ticks (record_wakeup a s) = now_ticks s" "NEXT_KTIMER (record_wakeup a s) = NEXT_KTIMER s"
  "CURRENT_THREAD_CTX (record_wakeup a s) = CURRENT_THREAD_CTX s" "CURRENT_THREAD_IS_CFS (record_wakeup a s) = CURRENT_THREAD_IS_CFS s"
  "IDLE_THREAD_CTX (record_wakeup a s) = IDLE_THREAD_CTX s" "SCHEDULER_STARTED (record_wakeup a s) = SCHEDULER_STARTED s"
  "NEXT_THREAD_ID (record_wakeup a s) = NEXT_THREAD_ID s" "SYS_CLK_FREQ (record_wakeup a s) = SYS_CLK_FREQ s"
  "timer_reload (record_wakeup a s) = timer_reload s" "timer_current (record_wakeup a s) = timer_current s"
  "pendsv (record_wakeup a s) = pendsv s" "trace_fn (record_wakeup a s) = trace_fn s"
  by (simp_all add: record_wakeup_def emit_def split: option.splits)

lemma record_yield_frame [simp]:
  "threads (record_yield a b s) = threads s" "ktimers (record_yield a b s) = ktimers s"
  "CFS_KTIMER (record_yield a b s) = CFS_KTIMER s" "WAIT_KTIMER (record_yield a b s) = WAIT_KTIMER s"
  "run_tree (record_yield a b s) = run_tree s" "priority_sum (record_yield a b s) = priority_sum s"
  "wait_tree (record_yield a b s) = wait_tree s" "suspended (record_yield a b s) = suspended s"
  "active_tree (record_yield a b s) = active_tree s" "inactive_tree (record_yield a b s) = inactive_tree s"
  "first_active_node (record_yield a b s) = first_active_node s" "first_inactive_node (record_yield a b s) = first_inactive_node s"
  "now_ticks (record_yield a b s) = now_ticks s" "NEXT_KTIMER (record_yield a b s) = NEXT_KTIMER s"
  "CURRENT_THREAD_CTX (record_yield a b s) = CURRENT_THREAD_CTX s" "CURRENT_THREAD_IS_CFS (record_yield a b s) = CURRENT_THREAD_IS_CFS s"
  "IDLE_THREAD_CTX (record_yield a b s) = IDLE_THREAD_CTX s" "SCHEDULER_STARTED (record_yield a b s) = SCHEDULER_STARTED s"
  "NEXT_THREAD_ID (record_yield a b s) = NEXT_THREAD_ID s" "SYS_CLK_FREQ (record_yield a b s) = SYS_CLK_FREQ s"
  "timer_reload (record_yield a b s) = timer_reload s" "timer_current (record_yield a b s) = timer_current s"
  "pendsv (record_yield a b s) = pendsv s" "trace_fn (record_yield a b s) = trace_fn s"
  by (simp_all add: record_yield_def emit_def split: option.splits)

end
