(* ===== verification/WaitQ.thy ===== *)
theory WaitQ
  imports Kernel
begin

text \<open>
  The wait queue (\<^verbatim>\<open>src/waitq.rs\<close>): threads with a finite timeout in a tree ordered by wake-up
  time, threads that wait indefinitely in a FIFO list. \<open>wq_ok\<close> is the invariant of both; its
  operations keep it, and a thread is taken out of the queue it is in.
\<close>

section \<open>Operations\<close>

definition wait_entity_of :: "addr \<Rightarrow> kstate \<Rightarrow> WaitEntity option" where
  "wait_entity_of t s = do {
     th \<leftarrow> get_thread s t;
     if kind th = Idle then None else Some (wait_entity th)
   }"

definition suspended_push_back :: "addr \<Rightarrow> kstate \<Rightarrow> kstate option" where
  "suspended_push_back t s = do {
     require (t \<notin> set (suspended s));
     Some (s\<lparr>suspended := suspended s @ [t]\<rparr>)
   }"

definition suspended_remove :: "addr \<Rightarrow> kstate \<Rightarrow> kstate option" where
  "suspended_remove t s = do {
     require (t \<in> set (suspended s));
     Some (s\<lparr>suspended := remove1 t (suspended s)\<rparr>)
   }"

definition insert_wait_thread :: "addr \<Rightarrow> kstate \<Rightarrow> kstate option" where
  "insert_wait_thread t s = do {
     w \<leftarrow> wait_entity_of t s;
     if wake_at w = - 1 then do {
       s \<leftarrow> set_state t Suspended s;
       suspended_push_back t s
     } else do {
       s \<leftarrow> set_state t Waiting s;
       require (t \<notin> set (wait_tree s));
       xs \<leftarrow> ol_insert (wait_cmp s) (wait_tree s) t;
       Some (s\<lparr>wait_tree := xs\<rparr>)
     }
   }"

definition remove_wait_thread :: "addr \<Rightarrow> kstate \<Rightarrow> kstate option" where
  "remove_wait_thread t s = do {
     _ \<leftarrow> wait_entity_of t s;
     th \<leftarrow> get_thread s t;
     if state th = Suspended then suspended_remove t s
     else do {
       (xs, _) \<leftarrow> ol_remove (wait_tree s) t;
       Some (s\<lparr>wait_tree := xs\<rparr>)
     }
   }"

definition pop_expired_wait_thread :: "u64 \<Rightarrow> kstate \<Rightarrow> (addr option \<times> kstate) option" where
  "pop_expired_wait_thread now s =
     (let first = head_or_null (wait_tree s) in
      if first = 0 then Some (None, s)
      else do {
        th \<leftarrow> get_thread s first;
        if \<not> wait_is_expired_at (wait_entity th) now then Some (None, s)
        else do {
          (xs, e) \<leftarrow> ol_pop (wait_tree s);
          case e of None \<Rightarrow> Some (None, s) | Some t \<Rightarrow> Some (Some t, s\<lparr>wait_tree := xs\<rparr>)
        }
      })"

definition next_wait_entity :: "addr option \<Rightarrow> kstate \<Rightarrow> addr option" where
  "next_wait_entity cursor s =
     (case cursor of
        None \<Rightarrow>
          (let e = head_or_null (wait_tree s) in
           Some (if e = 0 then head_or_null (suspended s) else e))
      | Some t \<Rightarrow> do {
          th \<leftarrow> get_thread s t;
          _ \<leftarrow> wait_entity_of t s;
          if state th = Suspended then Some (onext (suspended s) t)
          else
            (let e = onext (wait_tree s) t in
             Some (if e = 0 then head_or_null (suspended s) else e))
        })"

section \<open>Invariant\<close>

definition wq_ok :: "kstate \<Rightarrow> bool" where
  "wq_ok s \<longleftrightarrow>
     ordered (wait_cmp s) (wait_tree s) \<and> distinct (suspended s)
     \<and> 0 \<notin> set (wait_tree s) \<and> 0 \<notin> set (suspended s)
     \<and> (\<forall>t \<in> set (wait_tree s). state (threads s t) = Waiting \<and> kind (threads s t) \<noteq> Idle)
     \<and> (\<forall>t \<in> set (suspended s). state (threads s t) = Suspended \<and> kind (threads s t) \<noteq> Idle)"

text \<open>Threads that are blocked in this queue.\<close>

definition waiting :: "kstate \<Rightarrow> addr set" where
  "waiting s = set (wait_tree s) \<union> set (suspended s)"

lemma wq_ok_disjoint: "wq_ok s \<Longrightarrow> set (wait_tree s) \<inter> set (suspended s) = {}"
  by (auto simp: wq_ok_def)

lemma wq_ok_distinct: "wq_ok s \<Longrightarrow> distinct (wait_tree s)"
  using wcmp.ordered_distinct by (auto simp: wq_ok_def)

lemma wq_ok_blocked: "wq_ok s \<Longrightarrow> t \<in> waiting s \<Longrightarrow> is_blocked (state (threads s t)) \<and> kind (threads s t) \<noteq> Idle \<and> t \<noteq> 0"
  unfolding wq_ok_def waiting_def is_blocked_def by (metis ThreadState.simps(15,16) UnE)

text \<open>\<open>wq_ok\<close> depends on the threads in the queue only.\<close>

lemma wait_ordered_cong:
  assumes "\<And>t. t \<in> set xs \<Longrightarrow> wait_entity (threads s' t) = wait_entity (threads s t)"
  shows "ordered (wait_cmp s') xs = ordered (wait_cmp s) xs"
  by (rule ordered_cong) (simp add: wait_cmp_def key_cmp_def assms)

lemma wq_ok_frame:
  assumes "wq_ok s" "wait_tree s' = wait_tree s" "suspended s' = suspended s"
    "\<And>t. t \<in> waiting s \<Longrightarrow> wait_entity (threads s' t) = wait_entity (threads s t)
      \<and> state (threads s' t) = state (threads s t) \<and> kind (threads s' t) = kind (threads s t)"
  shows "wq_ok s'"
  using assms wait_ordered_cong [of "wait_tree s" s' s] by (auto simp: wq_ok_def waiting_def)

section \<open>Behaviour of the operations\<close>

definition waits_forever :: "kstate \<Rightarrow> addr \<Rightarrow> bool" where
  "waits_forever s t \<longleftrightarrow> wake_at (wait_entity (threads s t)) = - 1"

definition block_thread :: "addr \<Rightarrow> kstate \<Rightarrow> kstate" where
  "block_thread t s =
     (if waits_forever s t
      then s\<lparr>threads := (threads s)(t := (threads s t)\<lparr>state := Suspended\<rparr>), suspended := suspended s @ [t]\<rparr>
      else s\<lparr>threads := (threads s)(t := (threads s t)\<lparr>state := Waiting\<rparr>),
             wait_tree := oinsert (wait_cmp s) t (wait_tree s)\<rparr>)"

lemma insert_wait_thread_eq:
  assumes "t \<noteq> 0" "kind (threads s t) \<noteq> Idle" "t \<notin> waiting s" "\<not> is_blocked (state (threads s t))"
  shows "insert_wait_thread t s = Some (block_thread t s)"
proof -
  have c: "can_transition_to (state (threads s t)) st" for st
    using assms(4) by (cases "state (threads s t)") (auto simp: can_transition_to_def is_blocked_def)
  have "oinsert (wait_cmp (s\<lparr>threads := (threads s)(t := (threads s t)\<lparr>state := Waiting\<rparr>)\<rparr>)) t (wait_tree s)
      = oinsert (wait_cmp s) t (wait_tree s)"
    by (rule oinsert_cong) (simp add: wait_cmp_def key_cmp_def)
  then show ?thesis
    using assms c
    by (auto simp: insert_wait_thread_def wait_entity_of_def set_state_def store_defs require_def
        suspended_push_back_def ol_insert_def block_thread_def waits_forever_def waiting_def)
qed

lemma block_thread_wq_ok:
  assumes "wq_ok s" "t \<noteq> 0" "kind (threads s t) \<noteq> Idle" "t \<notin> waiting s"
  shows "wq_ok (block_thread t s)"
proof -
  let ?s = "s\<lparr>threads := (threads s)(t := (threads s t)\<lparr>state := Waiting\<rparr>)\<rparr>"
  have "wait_cmp (block_thread t s) = wait_cmp s"
    by (auto simp: block_thread_def wait_cmp_def intro!: arg_cong [where f = key_cmp])
  moreover have "ordered (wait_cmp s) (oinsert (wait_cmp s) t (wait_tree s))"
    using assms wcmp.ordered_oinsert [of s "wait_tree s" t] by (auto simp: wq_ok_def waiting_def)
  ultimately show ?thesis
    using assms by (auto simp: wq_ok_def block_thread_def waiting_def)
qed

lemma waiting_block_thread [simp]: "waiting (block_thread t s) = insert t (waiting s)"
  by (auto simp: waiting_def block_thread_def)

definition unblock_thread :: "addr \<Rightarrow> kstate \<Rightarrow> kstate" where
  "unblock_thread t s = s\<lparr>wait_tree := remove1 t (wait_tree s), suspended := remove1 t (suspended s)\<rparr>"

lemma remove_wait_thread_eq:
  assumes "wq_ok s" "t \<in> waiting s"
  shows "remove_wait_thread t s = Some (unblock_thread t s)"
proof -
  have t: "t \<noteq> 0" "kind (threads s t) \<noteq> Idle" using wq_ok_blocked [OF assms] by auto
  consider "t \<in> set (wait_tree s)" "t \<notin> set (suspended s)" "state (threads s t) = Waiting"
    | "t \<in> set (suspended s)" "t \<notin> set (wait_tree s)" "state (threads s t) = Suspended"
    using assms wq_ok_disjoint [OF assms(1)] by (auto simp: waiting_def wq_ok_def)
  then show ?thesis
    using t by cases (auto simp: remove_wait_thread_def wait_entity_of_def store_defs ol_remove_def
        suspended_remove_def unblock_thread_def remove1_idem require_def)
qed

lemma unblock_thread_wq_ok: "wq_ok s \<Longrightarrow> wq_ok (unblock_thread t s)"
proof -
  assume w: "wq_ok s"
  have "wait_cmp (unblock_thread t s) = wait_cmp s"
    by (simp add: unblock_thread_def wait_cmp_def)
  then show ?thesis
    using w wcmp.ordered_remove1 [of s "wait_tree s" t]
    by (auto simp: wq_ok_def unblock_thread_def dest: notin_set_remove1)
qed

lemma waiting_unblock_thread:
  "wq_ok s \<Longrightarrow> waiting (unblock_thread t s) = waiting s - {t}"
  using wq_ok_distinct [of s] by (auto simp: waiting_def unblock_thread_def wq_ok_def)

lemma pop_expired_eq:
  assumes "wq_ok s"
  shows "pop_expired_wait_thread now s =
    (case wait_tree s of
       [] \<Rightarrow> Some (None, s)
     | t # ts \<Rightarrow> if wake_at (wait_entity (threads s t)) \<le> now
                then Some (Some t, unblock_thread t s) else Some (None, s))"
proof (cases "wait_tree s")
  case (Cons t ts)
  then have "t \<noteq> 0" "t \<notin> set (suspended s)" using assms by (auto simp: wq_ok_def)
  then show ?thesis
    using Cons by (auto simp: pop_expired_wait_thread_def store_defs ol_pop_def wait_is_expired_at_def
        unblock_thread_def remove1_idem)
qed (simp add: pop_expired_wait_thread_def)

lemma wait_head_least:
  assumes "wq_ok s" "wait_tree s = t # ts" "u \<in> set ts"
  shows "wake_at (wait_entity (threads s t)) \<le> wake_at (wait_entity (threads s u))"
  using assms by (auto simp: wq_ok_def ordered_def wait_cmp_def key_cmp_Less)

text \<open>Walking the queue from \<open>None\<close> visits the finite waits in order, then the suspended ones.\<close>

lemma next_wait_entity_walk:
  assumes w: "wq_ok s"
  shows "next_wait_entity None s = Some (head_or_null (wait_tree s @ suspended s))"
    and "wait_tree s @ suspended s = xs @ t # ys \<Longrightarrow> next_wait_entity (Some t) s = Some (head_or_null ys)"
proof -
  have z: "head_or_null (wait_tree s) = 0 \<longleftrightarrow> wait_tree s = []" using w by (cases "wait_tree s") (auto simp: wq_ok_def)
  then show "next_wait_entity None s = Some (head_or_null (wait_tree s @ suspended s))"
    by (simp add: next_wait_entity_def)
  assume e: "wait_tree s @ suspended s = xs @ t # ys"
  have d: "distinct (wait_tree s @ suspended s)"
    using w wq_ok_disjoint [OF w] wq_ok_distinct [OF w] by (auto simp: wq_ok_def)
  have mem: "t \<in> waiting s" using e by (metis in_set_conv_decomp set_append waiting_def)
  note t = wq_ok_blocked [OF w mem]
  show "next_wait_entity (Some t) s = Some (head_or_null ys)"
  proof (cases "t \<in> set (wait_tree s)")
    case True
    then obtain us vs where u: "wait_tree s = us @ t # vs" by (auto simp: in_set_conv_decomp)
    have "us = xs \<and> vs @ suspended s = ys"
      using d e unfolding u by (auto simp: append_eq_append_conv2 append_eq_Cons_conv Cons_eq_append_conv)
    moreover have "head_or_null vs = 0 \<longleftrightarrow> vs = []" using w u by (cases vs) (auto simp: wq_ok_def)
    moreover have "onext (wait_tree s) t = head_or_null vs" using d u by (auto simp: onext_append)
    moreover have "state (threads s t) = Waiting" using w True by (simp add: wq_ok_def)
    ultimately show ?thesis using t by (auto simp: next_wait_entity_def store_defs wait_entity_of_def)
  next
    case False
    then have "t \<in> set (suspended s)" using mem by (simp add: waiting_def)
    then obtain us vs where u: "suspended s = us @ t # vs" by (auto simp: in_set_conv_decomp)
    have "vs = ys"
      using d e False unfolding u by (auto simp: append_eq_append_conv2 append_eq_Cons_conv Cons_eq_append_conv)
    moreover have "onext (suspended s) t = head_or_null vs" using d u by (auto simp: onext_append)
    moreover have "state (threads s t) = Suspended" using w \<open>t \<in> set (suspended s)\<close> by (simp add: wq_ok_def)
    ultimately show ?thesis using t by (auto simp: next_wait_entity_def store_defs wait_entity_of_def)
  qed
qed

end
