(* ===== verification/RunQ.thy ===== *)
theory RunQ
  imports Kernel
begin

text \<open>
  The CFS run queue (\<^verbatim>\<open>src/runq.rs\<close>): ready CFS threads in a tree ordered by virtual runtime, and
  the sum of the priorities of the threads taking part. \<open>rq_ok\<close> is the invariant. The move of a
  running thread to the wait queue (\<^verbatim>\<open>dequeue_runq_to_waitq\<close>) reprograms the wait timer and is
  with the blocking operations.
\<close>

section \<open>Virtual runtime\<close>

definition cfs_vruntime_delta :: "u64 \<Rightarrow> u32 \<Rightarrow> u32 \<Rightarrow> u64 option" where
  "cfs_vruntime_delta elapsed prio prio_sum = do {
     require (prio \<noteq> 0);
     if prio_sum = 0 then Some 0
     else do {
       m \<leftarrow> checked_mul elapsed (u64_of prio);
       Some (m div u64_of prio_sum)
     }
   }"

definition cfs_sched_ticks_from_vruntime :: "u64 \<Rightarrow> u32 \<Rightarrow> u32 \<Rightarrow> u64 option" where
  "cfs_sched_ticks_from_vruntime vr prio prio_sum = do {
     require (prio \<noteq> 0);
     if prio_sum = 0 then Some 0
     else do {
       m \<leftarrow> checked_mul vr (u64_of prio_sum);
       Some (m div u64_of prio)
     }
   }"

section \<open>Operations\<close>

definition cfs_sched_entity :: "addr \<Rightarrow> kstate \<Rightarrow> SchedEntity option" where
  "cfs_sched_entity t s = do {
     th \<leftarrow> get_thread s t;
     require (kind th = Cfs);
     Some (sched_entity th)
   }"

definition upd_sched :: "addr \<Rightarrow> (SchedEntity \<Rightarrow> SchedEntity) \<Rightarrow> kstate \<Rightarrow> kstate option" where
  "upd_sched t f s = upd_thread t (sched_entity_update f) s"

definition init_cfs_rq :: "kstate \<Rightarrow> kstate" where
  "init_cfs_rq s = s\<lparr>run_tree := [], priority_sum := 0\<rparr>"

definition rq_insert :: "addr \<Rightarrow> kstate \<Rightarrow> kstate option" where
  "rq_insert t s = do {
     xs \<leftarrow> ol_insert (sched_cmp s) (run_tree s) t;
     Some (s\<lparr>run_tree := xs\<rparr>)
   }"

definition rq_pop_first :: "kstate \<Rightarrow> (addr option \<times> kstate) option" where
  "rq_pop_first s = do {
     (xs, e) \<leftarrow> ol_pop (run_tree s);
     Some (e, s\<lparr>run_tree := xs\<rparr>)
   }"

definition rq_remove :: "addr \<Rightarrow> kstate \<Rightarrow> kstate option" where
  "rq_remove t s = do {
     (xs, _) \<leftarrow> ol_remove (run_tree s) t;
     Some (s\<lparr>run_tree := xs\<rparr>)
   }"

definition update_from_leftmost :: "addr \<Rightarrow> kstate \<Rightarrow> kstate option" where
  "update_from_leftmost t s =
     (if t = 0 then Some s
      else do {
        e \<leftarrow> cfs_sched_entity t s;
        let leftmost = head_or_null (run_tree s);
        if leftmost \<noteq> 0 then do {
          l \<leftarrow> cfs_sched_entity leftmost s;
          s \<leftarrow> upd_sched t (vruntime_update (\<lambda>_. vruntime l)) s;
          ticks \<leftarrow> cfs_sched_ticks_from_vruntime (vruntime l) (priority e) (priority_sum s);
          upd_sched t (sched_tick_cnt_update (\<lambda>_. ticks)) s
        } else Some s
      })"

definition enqueue_thread :: "addr \<Rightarrow> kstate \<Rightarrow> kstate option" where
  "enqueue_thread t s = do {
     s \<leftarrow> set_state t Ready s;
     _ \<leftarrow> cfs_sched_entity t s;
     require (t \<notin> set (run_tree s));
     s \<leftarrow> update_from_leftmost t s;
     s \<leftarrow> rq_insert t s;
     e \<leftarrow> cfs_sched_entity t s;
     sum \<leftarrow> checked_add (priority_sum s) (priority e);
     Some (s\<lparr>priority_sum := sum\<rparr>)
   }"

text \<open>The loop that rebuilds the tree after the priority sum has changed.\<close>

fun rebuild_rq :: "addr list \<Rightarrow> addr list \<Rightarrow> kstate \<Rightarrow> (addr list \<times> kstate) option" where
  "rebuild_rq [] updated s = Some (updated, s)"
| "rebuild_rq (q # qs) updated s = do {
     e \<leftarrow> cfs_sched_entity q s;
     ticks \<leftarrow> cfs_sched_ticks_from_vruntime (vruntime e) (priority e) (priority_sum s);
     s \<leftarrow> upd_sched q (sched_tick_cnt_update (\<lambda>_. ticks)) s;
     updated \<leftarrow> ol_insert (sched_cmp s) updated q;
     rebuild_rq qs updated s
   }"

definition enqueue_runq_from_waitq :: "addr \<Rightarrow> kstate \<Rightarrow> kstate option" where
  "enqueue_runq_from_waitq t s = do {
     th \<leftarrow> get_thread s t;
     require (kind th = Cfs);
     e \<leftarrow> cfs_sched_entity t s;
     let sum = saturating_add (priority_sum s) (priority e);
     require (t \<notin> set (run_tree s));
     s \<leftarrow> Some (s\<lparr>priority_sum := sum\<rparr>);
     s \<leftarrow> set_state t Ready s;
     (updated, s) \<leftarrow> rebuild_rq (run_tree s) [] s;
     s \<leftarrow> Some (s\<lparr>run_tree := updated\<rparr>);
     s \<leftarrow> update_from_leftmost t s;
     rq_insert t s
   }"

section \<open>Bounds of the runtime arithmetic\<close>

lemma unat_div: "unat (a div b) = unat a div unat (b :: 'a::len word)"
  by (simp add: unat_div_distrib)

text \<open>A charge never overflows: a tick count of 32 bits times a priority of 32 bits fits.\<close>

lemma cfs_vruntime_delta_eq:
  assumes "prio \<noteq> 0" "unat elapsed < 2 ^ 32"
  shows "cfs_vruntime_delta elapsed prio prio_sum =
    Some (if prio_sum = 0 then 0 else (elapsed * u64_of prio) div u64_of prio_sum)"
    and "prio_sum \<noteq> 0 \<Longrightarrow>
      unat ((elapsed * u64_of prio) div u64_of prio_sum) = unat elapsed * unat prio div unat prio_sum"
proof -
  have "unat elapsed * unat prio < 2 ^ 32 * 2 ^ 32"
    using assms(2) unat_bound [of prio] by (intro mult_strict_mono') auto
  then have m: "unat elapsed * unat prio < 2 ^ 64" by simp
  then show "cfs_vruntime_delta elapsed prio prio_sum =
    Some (if prio_sum = 0 then 0 else (elapsed * u64_of prio) div u64_of prio_sum)"
    using assms by (auto simp: cfs_vruntime_delta_def checked_mul_def require_def)
  show "unat ((elapsed * u64_of prio) div u64_of prio_sum) = unat elapsed * unat prio div unat prio_sum"
    using m by (simp add: unat_div unat_word_ariths)
qed

definition ticks_fit :: "u64 \<Rightarrow> u32 \<Rightarrow> bool" where
  "ticks_fit vr prio_sum \<longleftrightarrow> unat vr * unat prio_sum < 2 ^ 64"

lemma cfs_sched_ticks_ok:
  "prio \<noteq> 0 \<Longrightarrow> ticks_fit vr prio_sum \<Longrightarrow>
   \<exists>ticks. cfs_sched_ticks_from_vruntime vr prio prio_sum = Some ticks"
  by (auto simp: cfs_sched_ticks_from_vruntime_def checked_mul_def ticks_fit_def require_def)

section \<open>Invariant\<close>

definition rq_ok :: "kstate \<Rightarrow> bool" where
  "rq_ok s \<longleftrightarrow>
     ordered (sched_cmp s) (run_tree s) \<and> 0 \<notin> set (run_tree s)
     \<and> (\<forall>t \<in> set (run_tree s). state (threads s t) = Ready \<and> kind (threads s t) = Cfs
          \<and> priority (sched_entity (threads s t)) \<noteq> 0)"

lemma rq_ok_distinct: "rq_ok s \<Longrightarrow> distinct (run_tree s)"
  using scmp.ordered_distinct by (auto simp: rq_ok_def)

lemma sched_ordered_cong:
  assumes "\<And>t. t \<in> set xs \<Longrightarrow> vruntime (sched_entity (threads s' t)) = vruntime (sched_entity (threads s t))"
  shows "ordered (sched_cmp s') xs = ordered (sched_cmp s) xs"
  by (rule ordered_cong) (simp add: sched_cmp_def key_cmp_def assms)

lemma rq_ok_frame:
  assumes "rq_ok s" "run_tree s' = run_tree s"
    "\<And>t. t \<in> set (run_tree s) \<Longrightarrow> sched_entity (threads s' t) = sched_entity (threads s t)
      \<and> state (threads s' t) = state (threads s t) \<and> kind (threads s' t) = kind (threads s t)"
  shows "rq_ok s'"
  using assms sched_ordered_cong [of "run_tree s" s' s] by (auto simp: rq_ok_def)

text \<open>
  What a run queue operation may change: the queue, the priority sum, and of the threads nothing
  but their scheduling entity and state.
\<close>

definition rq_step :: "kstate \<Rightarrow> kstate \<Rightarrow> bool" where
  "rq_step s s' \<longleftrightarrow>
     s' = s\<lparr>threads := threads s', run_tree := run_tree s', priority_sum := priority_sum s'\<rparr>
     \<and> (\<forall>u. threads s' u = (threads s u)\<lparr>sched_entity := sched_entity (threads s' u), state := state (threads s' u)\<rparr>)"

lemma rq_step_refl [simp]: "rq_step s s"
  by (simp add: rq_step_def)

lemma rq_step_trans: "rq_step s s' \<Longrightarrow> rq_step s' s'' \<Longrightarrow> rq_step s s''"
  unfolding rq_step_def
proof (elim conjE, intro conjI allI)
  fix u
  assume a: "\<forall>u. threads s' u = (threads s u)\<lparr>sched_entity := sched_entity (threads s' u), state := state (threads s' u)\<rparr>"
    and b: "\<forall>u. threads s'' u = (threads s' u)\<lparr>sched_entity := sched_entity (threads s'' u), state := state (threads s'' u)\<rparr>"
  have "threads s'' u = ((threads s u)\<lparr>sched_entity := sched_entity (threads s' u), state := state (threads s' u)\<rparr>)
      \<lparr>sched_entity := sched_entity (threads s'' u), state := state (threads s'' u)\<rparr>"
    using a [rule_format, of u] b [rule_format, of u] by metis
  then show "threads s'' u = (threads s u)\<lparr>sched_entity := sched_entity (threads s'' u), state := state (threads s'' u)\<rparr>"
    by simp
qed (cases s; cases s'; cases s''; simp)

lemma rq_step_thread:
  assumes "rq_step s s'"
  shows "kind (threads s' u) = kind (threads s u)" "wait_entity (threads s' u) = wait_entity (threads s u)"
    "sync_entity (threads s' u) = sync_entity (threads s u)"
    "ktimer_entity (threads s' u) = ktimer_entity (threads s u)" "runtime (threads s' u) = runtime (threads s u)"
proof -
  have "threads s' u = (threads s u)\<lparr>sched_entity := sched_entity (threads s' u), state := state (threads s' u)\<rparr>"
    using assms by (simp add: rq_step_def)
  then show "kind (threads s' u) = kind (threads s u)" "wait_entity (threads s' u) = wait_entity (threads s u)"
    "sync_entity (threads s' u) = sync_entity (threads s u)"
    "ktimer_entity (threads s' u) = ktimer_entity (threads s u)" "runtime (threads s' u) = runtime (threads s u)"
    by (cases "threads s u"; cases "threads s' u"; simp)+
qed

lemma rq_step_queues:
  assumes "rq_step s s'"
  shows "ktimers s' = ktimers s" "CFS_KTIMER s' = CFS_KTIMER s" "WAIT_KTIMER s' = WAIT_KTIMER s"
    "wait_tree s' = wait_tree s" "suspended s' = suspended s" "active_tree s' = active_tree s"
    "inactive_tree s' = inactive_tree s" "first_active_node s' = first_active_node s"
    "first_inactive_node s' = first_inactive_node s" "now_ticks s' = now_ticks s"
    "NEXT_KTIMER s' = NEXT_KTIMER s" "CURRENT_THREAD_CTX s' = CURRENT_THREAD_CTX s"
    "CURRENT_THREAD_IS_CFS s' = CURRENT_THREAD_IS_CFS s" "IDLE_THREAD_CTX s' = IDLE_THREAD_CTX s"
    "timer_reload s' = timer_reload s" "timer_current s' = timer_current s"
proof -
  have "s' = s\<lparr>threads := threads s', run_tree := run_tree s', priority_sum := priority_sum s'\<rparr>"
    using assms by (simp add: rq_step_def)
  then show "ktimers s' = ktimers s" "CFS_KTIMER s' = CFS_KTIMER s" "WAIT_KTIMER s' = WAIT_KTIMER s"
    "wait_tree s' = wait_tree s" "suspended s' = suspended s" "active_tree s' = active_tree s"
    "inactive_tree s' = inactive_tree s" "first_active_node s' = first_active_node s"
    "first_inactive_node s' = first_inactive_node s" "now_ticks s' = now_ticks s"
    "NEXT_KTIMER s' = NEXT_KTIMER s" "CURRENT_THREAD_CTX s' = CURRENT_THREAD_CTX s"
    "CURRENT_THREAD_IS_CFS s' = CURRENT_THREAD_IS_CFS s" "IDLE_THREAD_CTX s' = IDLE_THREAD_CTX s"
    "timer_reload s' = timer_reload s" "timer_current s' = timer_current s"
    by (cases s; cases s'; simp)+
qed

section \<open>Behaviour of the operations\<close>

lemma oinsert_end: "(\<And>y. y \<in> set xs \<Longrightarrow> c x y \<noteq> Less) \<Longrightarrow> oinsert c x xs = xs @ [x]"
  by (induction xs) auto

definition with_ticks :: "addr \<Rightarrow> u64 \<Rightarrow> kstate \<Rightarrow> kstate" where
  "with_ticks t n s =
     s\<lparr>threads := (threads s)(t := sched_entity_update (sched_tick_cnt_update (\<lambda>_. n)) (threads s t))\<rparr>"

lemma with_ticks_simps [simp]:
  "vruntime (sched_entity (threads (with_ticks t n s) u)) = vruntime (sched_entity (threads s u))"
  "priority (sched_entity (threads (with_ticks t n s) u)) = priority (sched_entity (threads s u))"
  "kind (threads (with_ticks t n s) u) = kind (threads s u)"
  "state (threads (with_ticks t n s) u) = state (threads s u)"
  "run_tree (with_ticks t n s) = run_tree s" "priority_sum (with_ticks t n s) = priority_sum s"
  "sched_cmp (with_ticks t n s) = sched_cmp s"
  by (auto simp: with_ticks_def sched_cmp_def intro!: arg_cong [where f = key_cmp])

lemma with_ticks_other: "u \<noteq> t \<Longrightarrow> threads (with_ticks t n s) u = threads s u"
  by (simp add: with_ticks_def)

lemma rq_step_with_ticks: "rq_step s (with_ticks t n s)"
  by (simp add: rq_step_def with_ticks_def)

lemma upd_ticks_eq: "t \<noteq> 0 \<Longrightarrow> upd_sched t (sched_tick_cnt_update (\<lambda>_. n)) s = Some (with_ticks t n s)"
  by (simp add: upd_sched_def store_defs with_ticks_def)

text \<open>
  Rebuilding keeps the order and touches the tick counters only; it completes when the
  conversions do not overflow.
\<close>

lemma rebuild_rq_ok:
  assumes "ordered (sched_cmp s) (us @ qs)" "0 \<notin> set qs"
    "\<And>q. q \<in> set qs \<Longrightarrow> kind (threads s q) = Cfs \<and> priority (sched_entity (threads s q)) \<noteq> 0
      \<and> ticks_fit (vruntime (sched_entity (threads s q))) (priority_sum s)"
  shows "wpo (rebuild_rq qs us s) (\<lambda>(xs, s'). xs = us @ qs \<and> rq_step s s' \<and> run_tree s' = run_tree s
    \<and> priority_sum s' = priority_sum s
    \<and> (\<forall>u. state (threads s' u) = state (threads s u)
          \<and> vruntime (sched_entity (threads s' u)) = vruntime (sched_entity (threads s u))
          \<and> priority (sched_entity (threads s' u)) = priority (sched_entity (threads s u)))
    \<and> (\<forall>u. u \<notin> set qs \<longrightarrow> threads s' u = threads s u))"
  using assms
proof (induction qs arbitrary: us s)
  case (Cons q qs)
  have q: "q \<noteq> 0" "kind (threads s q) = Cfs" "priority (sched_entity (threads s q)) \<noteq> 0"
    "ticks_fit (vruntime (sched_entity (threads s q))) (priority_sum s)"
    using Cons.prems by auto
  from cfs_sched_ticks_ok [OF q(3,4)] obtain n where
    n: "cfs_sched_ticks_from_vruntime (vruntime (sched_entity (threads s q)))
          (priority (sched_entity (threads s q))) (priority_sum s) = Some n" by blast
  have o: "ordered (sched_cmp s) (us @ q # qs)" using Cons.prems(1) by simp
  then have lt: "\<And>y. y \<in> set us \<Longrightarrow> sched_cmp s y q = Less" by (auto simp: ordered_def sorted_wrt_append)
  then have ins: "ol_insert (sched_cmp s) us q = Some (us @ [q])"
    using scmp.cmp_asym [of s _ q] scmp.cmp_irrefl [of s q] oinsert_end [of us "sched_cmp s" q]
    by (auto simp: ol_insert_def)
  have IH: "wpo (rebuild_rq qs (us @ [q]) (with_ticks q n s)) (\<lambda>(xs, s'). xs = (us @ [q]) @ qs
    \<and> rq_step (with_ticks q n s) s' \<and> run_tree s' = run_tree (with_ticks q n s)
    \<and> priority_sum s' = priority_sum (with_ticks q n s)
    \<and> (\<forall>u. state (threads s' u) = state (threads (with_ticks q n s) u)
          \<and> vruntime (sched_entity (threads s' u)) = vruntime (sched_entity (threads (with_ticks q n s) u))
          \<and> priority (sched_entity (threads s' u)) = priority (sched_entity (threads (with_ticks q n s) u)))
    \<and> (\<forall>u. u \<notin> set qs \<longrightarrow> threads s' u = threads (with_ticks q n s) u))"
    by (rule Cons.IH) (use o Cons.prems in \<open>auto simp: sched_cmp_def\<close>)
  have "rebuild_rq (q # qs) us s = rebuild_rq qs (us @ [q]) (with_ticks q n s)"
    using q n ins by (simp add: cfs_sched_entity_def store_defs require_def upd_ticks_eq)
  then show ?case
    by (simp only:) (rule wpo_mono [OF IH],
        clarsimp simp: with_ticks_other rq_step_trans [OF rq_step_with_ticks])
qed simp

text \<open>
  The entity that joins takes the virtual runtime of the left-most one; it never gets ahead of the
  threads already queued.
\<close>

definition joined_vruntime :: "addr \<Rightarrow> kstate \<Rightarrow> u64" where
  "joined_vruntime t s =
     (if run_tree s = [] then vruntime (sched_entity (threads s t))
      else vruntime (sched_entity (threads s (head_or_null (run_tree s)))))"

lemma update_from_leftmost_ok:
  assumes "rq_ok s" "t \<noteq> 0" "kind (threads s t) = Cfs" "priority (sched_entity (threads s t)) \<noteq> 0"
    "t \<notin> set (run_tree s)" "ticks_fit (joined_vruntime t s) (priority_sum s)"
  shows "wpo (update_from_leftmost t s) (\<lambda>s'. rq_step s s' \<and> run_tree s' = run_tree s
    \<and> priority_sum s' = priority_sum s \<and> (\<forall>u. u \<noteq> t \<longrightarrow> threads s' u = threads s u)
    \<and> state (threads s' t) = state (threads s t)
    \<and> priority (sched_entity (threads s' t)) = priority (sched_entity (threads s t))
    \<and> vruntime (sched_entity (threads s' t)) = joined_vruntime t s)"
proof (cases "run_tree s")
  case Nil
  then show ?thesis
    using assms by (simp add: update_from_leftmost_def cfs_sched_entity_def store_defs joined_vruntime_def)
next
  case (Cons l ls)
  then have l: "l \<noteq> 0" "kind (threads s l) = Cfs" "l \<noteq> t" using assms(1,5) by (auto simp: rq_ok_def)
  from cfs_sched_ticks_ok [OF assms(4,6)] obtain n where
    "cfs_sched_ticks_from_vruntime (vruntime (sched_entity (threads s l)))
       (priority (sched_entity (threads s t))) (priority_sum s) = Some n"
    by (auto simp: joined_vruntime_def Cons)
  then show ?thesis
    using assms l Cons
    by (simp add: update_from_leftmost_def cfs_sched_entity_def store_defs upd_sched_def joined_vruntime_def
        rq_step_def Let_def)
qed

lemma rq_insert_ok:
  assumes "rq_ok s" "t \<noteq> 0" "kind (threads s t) = Cfs" "priority (sched_entity (threads s t)) \<noteq> 0"
    "state (threads s t) = Ready" "t \<notin> set (run_tree s)"
  shows "rq_insert t s = Some (s\<lparr>run_tree := oinsert (sched_cmp s) t (run_tree s)\<rparr>)"
    and "rq_ok (s\<lparr>run_tree := oinsert (sched_cmp s) t (run_tree s)\<rparr>)"
proof -
  show "rq_insert t s = Some (s\<lparr>run_tree := oinsert (sched_cmp s) t (run_tree s)\<rparr>)"
    using assms by (simp add: rq_insert_def ol_insert_def)
  have "sched_cmp (s\<lparr>run_tree := oinsert (sched_cmp s) t (run_tree s)\<rparr>) = sched_cmp s"
    by (simp add: sched_cmp_def)
  then show "rq_ok (s\<lparr>run_tree := oinsert (sched_cmp s) t (run_tree s)\<rparr>)"
    using assms scmp.ordered_oinsert [of s "run_tree s" t] by (auto simp: rq_ok_def)
qed

text \<open>What joining the run queue means: the queue gains \<open>t\<close>, ready and aligned with the left-most.\<close>

definition joined :: "addr \<Rightarrow> kstate \<Rightarrow> kstate \<Rightarrow> bool" where
  "joined t s s' \<longleftrightarrow>
     rq_step s s' \<and> rq_ok s' \<and> set (run_tree s') = insert t (set (run_tree s))
     \<and> state (threads s' t) = Ready
     \<and> vruntime (sched_entity (threads s' t)) = joined_vruntime t s
     \<and> (\<forall>u. u \<noteq> t \<longrightarrow> state (threads s' u) = state (threads s u)
          \<and> vruntime (sched_entity (threads s' u)) = vruntime (sched_entity (threads s u)))
     \<and> (\<forall>u. priority (sched_entity (threads s' u)) = priority (sched_entity (threads s u)))
     \<and> (\<forall>u. u \<noteq> t \<longrightarrow> u \<notin> set (run_tree s) \<longrightarrow> threads s' u = threads s u)"

definition can_join :: "addr \<Rightarrow> kstate \<Rightarrow> u32 \<Rightarrow> bool" where
  "can_join t s prio_sum \<longleftrightarrow>
     t \<noteq> 0 \<and> kind (threads s t) = Cfs \<and> priority (sched_entity (threads s t)) \<noteq> 0
     \<and> t \<notin> set (run_tree s) \<and> ticks_fit (joined_vruntime t s) prio_sum"

lemma can_transition_Ready [simp]: "can_transition_to st Ready"
  by (cases st) (auto simp: can_transition_to_def)

lemma enqueue_thread_joined:
  assumes "rq_ok s" "can_join t s (priority_sum s)"
    and sum: "unat (priority_sum s) + unat (priority (sched_entity (threads s t))) < 2 ^ 32"
  shows "wpo (enqueue_thread t s) (\<lambda>s'. joined t s s'
    \<and> unat (priority_sum s') = unat (priority_sum s) + unat (priority (sched_entity (threads s t))))"
proof -
  define s1 where "s1 = s\<lparr>threads := (threads s)(t := (threads s t)\<lparr>state := Ready\<rparr>)\<rparr>"
  note j = assms(2) [unfolded can_join_def]
  have s1: "set_state t Ready s = Some s1" "cfs_sched_entity t s1 = Some (sched_entity (threads s t))"
    using j by (simp_all add: set_state_def store_defs s1_def cfs_sched_entity_def require_def)
  have r1: "rq_ok s1" by (rule rq_ok_frame [OF assms(1)]) (use j in \<open>auto simp: s1_def\<close>)
  have jv: "joined_vruntime t s1 = joined_vruntime t s"
    using j assms(1) by (cases "run_tree s") (auto simp: joined_vruntime_def s1_def)
  have step1: "rq_step s s1" by (simp add: rq_step_def s1_def)
  from update_from_leftmost_ok [OF r1, of t] obtain s2 where
    s2: "update_from_leftmost t s1 = Some s2" "rq_step s1 s2" "run_tree s2 = run_tree s"
      "priority_sum s2 = priority_sum s" "\<forall>u. u \<noteq> t \<longrightarrow> threads s2 u = threads s1 u"
      "state (threads s2 t) = Ready"
      "priority (sched_entity (threads s2 t)) = priority (sched_entity (threads s t))"
      "vruntime (sched_entity (threads s2 t)) = joined_vruntime t s"
    using j jv by (auto simp: s1_def wpo_def)
  have k2: "kind (threads s2 t) = Cfs" using rq_step_thread(1) [OF s2(2), of t] j by (simp add: s1_def)
  have r2: "rq_ok s2" by (rule rq_ok_frame [OF r1]) (use s2(3,5) j in \<open>auto simp: s1_def\<close>)
  note ins = rq_insert_ok [OF r2, of t]
  have add: "checked_add (priority_sum s) (priority (sched_entity (threads s t)))
      = Some (priority_sum s + priority (sched_entity (threads s t)))"
    "unat (priority_sum s + priority (sched_entity (threads s t))) = unat (priority_sum s) + unat (priority (sched_entity (threads s t)))"
    using sum checked_add_ok [of "priority_sum s" "priority (sched_entity (threads s t))"] by simp_all
  let ?s3 = "s2\<lparr>run_tree := oinsert (sched_cmp s2) t (run_tree s),
    priority_sum := priority_sum s + priority (sched_entity (threads s t))\<rparr>"
  have "enqueue_thread t s = Some ?s3"
    using s1 s2 ins(1) add(1) j k2 by (simp add: enqueue_thread_def require_def cfs_sched_entity_def store_defs s1_def)
  moreover have "rq_ok ?s3"
    by (rule rq_ok_frame [OF ins(2)]) (use s2 j k2 in simp_all)
  moreover have "rq_step s ?s3"
    by (rule rq_step_trans [OF step1 rq_step_trans [OF s2(2)]]) (simp add: rq_step_def)
  ultimately show ?thesis
    using s2 add(2) by (auto simp: joined_def s1_def)
qed

definition sum_with :: "addr \<Rightarrow> kstate \<Rightarrow> u32" where
  "sum_with t s = saturating_add (priority_sum s) (priority (sched_entity (threads s t)))"

definition rq_fits :: "kstate \<Rightarrow> u32 \<Rightarrow> bool" where
  "rq_fits s prio_sum \<longleftrightarrow> (\<forall>q \<in> set (run_tree s). ticks_fit (vruntime (sched_entity (threads s q))) prio_sum)"

lemma enqueue_runq_from_waitq_joined:
  assumes r: "rq_ok s" and c: "can_join t s (sum_with t s)" and f: "rq_fits s (sum_with t s)"
  shows "wpo (enqueue_runq_from_waitq t s) (\<lambda>s'. joined t s s' \<and> priority_sum s' = sum_with t s)"
proof -
  note j = c [unfolded can_join_def]
  define s1 where "s1 = s\<lparr>priority_sum := sum_with t s, threads := (threads s)(t := (threads s t)\<lparr>state := Ready\<rparr>)\<rparr>"
  have s1: "set_state t Ready (s\<lparr>priority_sum := sum_with t s\<rparr>) = Some s1"
    using j by (simp add: set_state_def store_defs s1_def require_def)
  have r1: "rq_ok s1" by (rule rq_ok_frame [OF r]) (use j in \<open>auto simp: s1_def\<close>)
  have step1: "rq_step s s1" by (simp add: rq_step_def s1_def)
  have th1: "u \<noteq> t \<Longrightarrow> threads s1 u = threads s u" for u by (simp add: s1_def)
  have "wpo (rebuild_rq (run_tree s) [] s1) (\<lambda>(xs, s2). xs = [] @ run_tree s \<and> rq_step s1 s2 \<and> run_tree s2 = run_tree s1
    \<and> priority_sum s2 = priority_sum s1
    \<and> (\<forall>u. state (threads s2 u) = state (threads s1 u)
          \<and> vruntime (sched_entity (threads s2 u)) = vruntime (sched_entity (threads s1 u))
          \<and> priority (sched_entity (threads s2 u)) = priority (sched_entity (threads s1 u)))
    \<and> (\<forall>u. u \<notin> set (run_tree s) \<longrightarrow> threads s2 u = threads s1 u))"
    by (rule rebuild_rq_ok) (use r1 f j th1 in \<open>auto simp: rq_ok_def rq_fits_def s1_def\<close>)
  then obtain s2 where s2: "rebuild_rq (run_tree s) [] s1 = Some (run_tree s, s2)" "rq_step s1 s2"
    "run_tree s2 = run_tree s" "priority_sum s2 = sum_with t s"
    "\<And>u. state (threads s2 u) = state (threads s1 u)"
    "\<And>u. vruntime (sched_entity (threads s2 u)) = vruntime (sched_entity (threads s1 u))"
    "\<And>u. priority (sched_entity (threads s2 u)) = priority (sched_entity (threads s1 u))"
    "\<And>u. u \<notin> set (run_tree s) \<Longrightarrow> threads s2 u = threads s1 u"
    by (auto simp: wpo_def s1_def)
  have t2: "kind (threads s2 t) = Cfs" "priority (sched_entity (threads s2 t)) = priority (sched_entity (threads s t))"
    "state (threads s2 t) = Ready"
    using rq_step_thread(1) [OF s2(2), of t] s2(5,7) [of t] j by (simp_all add: s1_def)
  have rt1: "run_tree s1 = run_tree s" by (simp add: s1_def)
  have r2: "rq_ok s2"
    using r1 sched_ordered_cong [of "run_tree s" s2 s1] s2(3,5,6,7) rq_step_thread(1) [OF s2(2)]
    by (auto simp: rq_ok_def rt1)
  have jv: "joined_vruntime t s2 = joined_vruntime t s"
    using j r s2(3,6) by (cases "run_tree s") (auto simp: joined_vruntime_def s1_def)
  from update_from_leftmost_ok [OF r2, of t] j jv t2 s2(3,4) obtain s3 where
    s3: "update_from_leftmost t s2 = Some s3" "rq_step s2 s3" "run_tree s3 = run_tree s" "priority_sum s3 = sum_with t s"
      "\<And>u. u \<noteq> t \<Longrightarrow> threads s3 u = threads s2 u" "state (threads s3 t) = Ready"
      "priority (sched_entity (threads s3 t)) = priority (sched_entity (threads s t))"
      "vruntime (sched_entity (threads s3 t)) = joined_vruntime t s"
    by (auto simp: wpo_def)
  have k3: "kind (threads s3 t) = Cfs" using rq_step_thread(1) [OF s3(2), of t] t2 by simp
  have nt: "u \<in> set (run_tree s) \<Longrightarrow> u \<noteq> t" for u using j by auto
  have r3: "rq_ok s3"
    by (rule rq_ok_frame [OF r2]) (use s3(3) s3(5) [OF nt] s2(3) in auto)
  note ins = rq_insert_ok [OF r3, of t]
  let ?s4 = "s3\<lparr>run_tree := oinsert (sched_cmp s3) t (run_tree s)\<rparr>"
  have upd: "s2\<lparr>run_tree := run_tree s\<rparr> = s2" using s2(3) by (cases s2) simp
  have "enqueue_runq_from_waitq t s = Some ?s4"
    using s1 s2(1) s3 ins(1) j k3 upd rt1
    by (simp add: enqueue_runq_from_waitq_def require_def cfs_sched_entity_def store_defs sum_with_def [symmetric] Let_def)
  moreover have "rq_ok ?s4" using ins(2) j k3 s3 by simp
  moreover have "rq_step s ?s4"
    by (rule rq_step_trans [OF step1 rq_step_trans [OF s2(2) rq_step_trans [OF s3(2)]]]) (simp add: rq_step_def)
  moreover have "state (threads s3 u) = state (threads s u)
      \<and> vruntime (sched_entity (threads s3 u)) = vruntime (sched_entity (threads s u))
      \<and> priority (sched_entity (threads s3 u)) = priority (sched_entity (threads s u))" if "u \<noteq> t" for u
    using s3(5) [OF that] s2(5-7) [of u] th1 [OF that] by simp
  moreover have "threads s3 u = threads s u" if "u \<noteq> t" "u \<notin> set (run_tree s)" for u
    using s3(5) [OF that(1)] s2(8) [OF that(2)] th1 [OF that(1)] by simp
  ultimately show ?thesis
    using s3 by (auto simp: joined_def) (metis s3(7))
qed

end
