(* ===== verification/KTimerQ.thy ===== *)
theory KTimerQ
  imports Kernel
begin

text \<open>
  The kernel timer queue (\<^verbatim>\<open>KTimerQueue\<close> in \<^verbatim>\<open>src/ktimer.rs\<close>): active and inactive timers in two
  trees, each with a cached pointer to its earliest timer. \<open>ktq_ok\<close> is the invariant; the
  operations keep it, \<open>first\<close> is the earliest timer of both trees, and \<open>next\<close> walks both trees
  in one combined order.
\<close>

section \<open>Operations\<close>

definition ktq_contains :: "addr \<Rightarrow> kstate \<Rightarrow> bool" where
  "ktq_contains e s \<longleftrightarrow> e \<in> set (active_tree s) \<or> e \<in> set (inactive_tree s)"

definition ktq_len :: "kstate \<Rightarrow> nat" where
  "ktq_len s = length (active_tree s) + length (inactive_tree s)"

definition earlier_of :: "kstate \<Rightarrow> addr \<Rightarrow> addr \<Rightarrow> addr" where
  "earlier_of s a b = (if a = 0 then b else if b = 0 \<or> ktimer_cmp s a b = Less then a else b)"

definition ktq_first_active :: "kstate \<Rightarrow> addr" where
  "ktq_first_active s = first_active_node s"

definition ktq_first :: "kstate \<Rightarrow> addr" where
  "ktq_first s = earlier_of s (ktq_first_active s) (first_inactive_node s)"

definition ktq_next :: "addr \<Rightarrow> kstate \<Rightarrow> addr option" where
  "ktq_next e s =
     (if e = 0 then Some 0
      else do {
        k \<leftarrow> get_ktimer s e;
        (own, other) \<leftarrow> Some (if active k then (active_tree s, inactive_tree s)
                              else (inactive_tree s, active_tree s));
        Some (earlier_of s (onext own e) (oupper (ktimer_cmp s) other e))
      })"

definition ktq_advance_time :: "u32 \<Rightarrow> kstate \<Rightarrow> kstate" where
  "ktq_advance_time elapsed s = s\<lparr>now_ticks := saturating_add (now_ticks s) (u64_of elapsed)\<rparr>"

definition ktq_insert :: "addr \<Rightarrow> bool \<Rightarrow> kstate \<Rightarrow> kstate option" where
  "ktq_insert e act s = do {
     require (e \<noteq> 0);
     require (\<not> ktq_contains e s);
     xs \<leftarrow> ol_insert (ktimer_cmp s) (if act then active_tree s else inactive_tree s) e;
     s \<leftarrow> Some (if act then s\<lparr>active_tree := xs\<rparr> else s\<lparr>inactive_tree := xs\<rparr>);
     s \<leftarrow> upd_ktimer e (active_update (\<lambda>_. act)) s;
     left_most \<leftarrow> Some (if act then first_active_node s else first_inactive_node s);
     if left_most = 0 \<or> ktimer_cmp s e left_most = Less
     then Some (if act then s\<lparr>first_active_node := e\<rparr> else s\<lparr>first_inactive_node := e\<rparr>)
     else Some s
   }"

definition ktq_enqueue_active :: "addr \<Rightarrow> kstate \<Rightarrow> kstate option" where
  "ktq_enqueue_active e s = ktq_insert e True s"

definition ktq_enqueue_inactive :: "addr \<Rightarrow> kstate \<Rightarrow> kstate option" where
  "ktq_enqueue_inactive e s = ktq_insert e False s"

definition ktq_remove :: "addr \<Rightarrow> kstate \<Rightarrow> (addr \<times> kstate) option" where
  "ktq_remove e s =
     (if e = 0 then Some (0, s)
      else do {
        k \<leftarrow> get_ktimer s e;
        tree \<leftarrow> Some (if active k then active_tree s else inactive_tree s);
        left_most \<leftarrow> Some (if active k then first_active_node s else first_inactive_node s);
        next_left_most \<leftarrow> Some (if e = left_most then onext tree e else 0);
        (xs, removed) \<leftarrow> ol_remove tree e;
        s \<leftarrow> Some (if active k then s\<lparr>active_tree := xs\<rparr> else s\<lparr>inactive_tree := xs\<rparr>);
        s \<leftarrow> Some (if e = left_most
                    then (if active k then s\<lparr>first_active_node := next_left_most\<rparr>
                          else s\<lparr>first_inactive_node := next_left_most\<rparr>)
                    else s);
        Some (removed, s)
      })"

definition ktq_dequeue :: "addr \<Rightarrow> kstate \<Rightarrow> (addr \<times> kstate) option" where
  "ktq_dequeue e s = do {
     (removed, s) \<leftarrow> ktq_remove e s;
     if removed \<noteq> 0 then do {
       s \<leftarrow> upd_ktimer removed (active_update (\<lambda>_. False)) s;
       Some (removed, s)
     } else Some (removed, s)
   }"

section \<open>Invariant\<close>

definition ktq_ok :: "kstate \<Rightarrow> bool" where
  "ktq_ok s \<longleftrightarrow>
     ordered (ktimer_cmp s) (active_tree s) \<and> ordered (ktimer_cmp s) (inactive_tree s)
     \<and> 0 \<notin> set (active_tree s) \<and> 0 \<notin> set (inactive_tree s)
     \<and> (\<forall>k \<in> set (active_tree s). active (ktimers s k))
     \<and> (\<forall>k \<in> set (inactive_tree s). \<not> active (ktimers s k))
     \<and> first_active_node s = head_or_null (active_tree s)
     \<and> first_inactive_node s = head_or_null (inactive_tree s)"

definition queued :: "kstate \<Rightarrow> addr set" where
  "queued s = set (active_tree s) \<union> set (inactive_tree s)"

lemma ktq_contains_queued: "ktq_contains e s \<longleftrightarrow> e \<in> queued s"
  by (auto simp: ktq_contains_def queued_def)

lemma ktq_ok_nonzero: "ktq_ok s \<Longrightarrow> k \<in> queued s \<Longrightarrow> k \<noteq> 0"
  unfolding ktq_ok_def queued_def by (metis UnE)

lemma ktq_ok_distinct:
  "ktq_ok s \<Longrightarrow> distinct (active_tree s) \<and> distinct (inactive_tree s) \<and> set (active_tree s) \<inter> set (inactive_tree s) = {}"
  using kcmp.ordered_distinct by (auto simp: ktq_ok_def)

lemma ktq_ok_active: "ktq_ok s \<Longrightarrow> k \<in> queued s \<Longrightarrow> active (ktimers s k) \<longleftrightarrow> k \<in> set (active_tree s)"
  by (auto simp: ktq_ok_def queued_def)

lemma ktimer_ordered_cong:
  assumes "\<And>k. k \<in> set xs \<Longrightarrow> expire_at (ktimers s' k) = expire_at (ktimers s k)"
  shows "ordered (ktimer_cmp s') xs = ordered (ktimer_cmp s) xs"
  by (rule ordered_cong) (simp add: ktimer_cmp_def key_cmp_def assms)

lemma ktq_ok_frame:
  assumes "ktq_ok s" "active_tree s' = active_tree s" "inactive_tree s' = inactive_tree s"
    "first_active_node s' = first_active_node s" "first_inactive_node s' = first_inactive_node s"
    "\<And>k. k \<in> queued s \<Longrightarrow> expire_at (ktimers s' k) = expire_at (ktimers s k) \<and> active (ktimers s' k) = active (ktimers s k)"
  shows "ktq_ok s'"
  using assms ktimer_ordered_cong [of "active_tree s" s' s] ktimer_ordered_cong [of "inactive_tree s" s' s]
  by (auto simp: ktq_ok_def queued_def)

section \<open>Behaviour of the operations\<close>

definition ktq_put :: "addr \<Rightarrow> bool \<Rightarrow> kstate \<Rightarrow> kstate" where
  "ktq_put e act s =
     (if act
      then s\<lparr>ktimers := (ktimers s)(e := (ktimers s e)\<lparr>active := True\<rparr>),
             active_tree := oinsert (ktimer_cmp s) e (active_tree s),
             first_active_node := head_or_null (oinsert (ktimer_cmp s) e (active_tree s))\<rparr>
      else s\<lparr>ktimers := (ktimers s)(e := (ktimers s e)\<lparr>active := False\<rparr>),
             inactive_tree := oinsert (ktimer_cmp s) e (inactive_tree s),
             first_inactive_node := head_or_null (oinsert (ktimer_cmp s) e (inactive_tree s))\<rparr>)"

lemma head_oinsert:
  "head_or_null (oinsert c e xs) = (if xs = [] \<or> c e (head_or_null xs) = Less then e else head_or_null xs)"
  by (cases xs) auto

lemma ktimer_cmp_active [simp]:
  "ktimer_cmp (s\<lparr>ktimers := (ktimers s)(e := (ktimers s e)\<lparr>active := a\<rparr>)\<rparr>) = ktimer_cmp s"
  "ktimer_cmp (s\<lparr>active_tree := xs\<rparr>) = ktimer_cmp s" "ktimer_cmp (s\<lparr>inactive_tree := xs\<rparr>) = ktimer_cmp s"
  by (auto simp: ktimer_cmp_def intro!: arg_cong [where f = key_cmp])

lemma ktq_insert_eq:
  assumes "ktq_ok s" "e \<noteq> 0" "e \<notin> queued s"
  shows "ktq_insert e act s = Some (ktq_put e act s)"
proof -
  have h: "head_or_null (active_tree s) = 0 \<longleftrightarrow> active_tree s = []"
    "head_or_null (inactive_tree s) = 0 \<longleftrightarrow> inactive_tree s = []"
    using assms(1) by (cases "active_tree s"; cases "inactive_tree s"; auto simp: ktq_ok_def)+
  have c: "ktimer_cmp (s\<lparr>active_tree := xs, ktimers := (ktimers s)(e := (ktimers s e)\<lparr>active := True\<rparr>)\<rparr>) = ktimer_cmp s"
    "ktimer_cmp (s\<lparr>inactive_tree := xs, ktimers := (ktimers s)(e := (ktimers s e)\<lparr>active := False\<rparr>)\<rparr>) = ktimer_cmp s" for xs
    by (auto simp: ktimer_cmp_def intro!: arg_cong [where f = key_cmp])
  show ?thesis
    using assms h
    by (cases act) (auto simp: ktq_insert_def ktq_contains_queued require_def ol_insert_def store_defs queued_def
        ktq_put_def head_oinsert ktq_ok_def c)
qed

lemma ktq_put_simps [simp]:
  "threads (ktq_put e act s) = threads s" "wait_tree (ktq_put e act s) = wait_tree s"
  "suspended (ktq_put e act s) = suspended s" "run_tree (ktq_put e act s) = run_tree s"
  "priority_sum (ktq_put e act s) = priority_sum s" "now_ticks (ktq_put e act s) = now_ticks s"
  "CFS_KTIMER (ktq_put e act s) = CFS_KTIMER s" "WAIT_KTIMER (ktq_put e act s) = WAIT_KTIMER s"
  "NEXT_KTIMER (ktq_put e act s) = NEXT_KTIMER s"
  "CURRENT_THREAD_CTX (ktq_put e act s) = CURRENT_THREAD_CTX s"
  "CURRENT_THREAD_IS_CFS (ktq_put e act s) = CURRENT_THREAD_IS_CFS s"
  "IDLE_THREAD_CTX (ktq_put e act s) = IDLE_THREAD_CTX s"
  "timer_reload (ktq_put e act s) = timer_reload s"
  "ktimers (ktq_put e act s) = (ktimers s)(e := (ktimers s e)\<lparr>active := act\<rparr>)"
  by (simp_all add: ktq_put_def)

lemma queued_ktq_put [simp]: "queued (ktq_put e act s) = insert e (queued s)"
  by (auto simp: queued_def ktq_put_def)

lemma ktq_put_ok:
  assumes "ktq_ok s" "e \<noteq> 0" "e \<notin> queued s"
  shows "ktq_ok (ktq_put e act s)"
proof -
  have c: "ktimer_cmp (ktq_put e act s) = ktimer_cmp s"
    by (auto simp: ktimer_cmp_def intro!: arg_cong [where f = key_cmp])
  show ?thesis
    using assms kcmp.ordered_oinsert [of s "active_tree s" e] kcmp.ordered_oinsert [of s "inactive_tree s" e]
    unfolding ktq_ok_def c by (cases act) (auto simp: ktq_put_def queued_def)
qed

definition ktq_take :: "addr \<Rightarrow> kstate \<Rightarrow> kstate" where
  "ktq_take e s =
     s\<lparr>active_tree := remove1 e (active_tree s), inactive_tree := remove1 e (inactive_tree s),
       first_active_node := head_or_null (remove1 e (active_tree s)),
       first_inactive_node := head_or_null (remove1 e (inactive_tree s))\<rparr>"

lemma head_remove1:
  "distinct xs \<Longrightarrow> e \<in> set xs \<Longrightarrow>
   head_or_null (remove1 e xs) = (if e = head_or_null xs then onext xs e else head_or_null xs)"
  by (cases xs) auto

lemma ktq_remove_eq:
  assumes "ktq_ok s" "e \<in> queued s"
  shows "ktq_remove e s = Some (e, ktq_take e s)"
proof -
  note d = ktq_ok_distinct [OF assms(1)] and e0 = ktq_ok_nonzero [OF assms]
  show ?thesis
  proof (cases "e \<in> set (active_tree s)")
    case True
    then have "e \<notin> set (inactive_tree s)" "active (ktimers s e)" using d assms(1) by (auto simp: ktq_ok_def)
    then show ?thesis
      using True e0 assms(1) d head_remove1 [of "active_tree s" e]
      by (auto simp: ktq_remove_def store_defs ol_remove_def ktq_take_def remove1_idem ktq_ok_def)
  next
    case False
    then have "e \<in> set (inactive_tree s)" "\<not> active (ktimers s e)"
      using assms by (auto simp: ktq_ok_def queued_def)
    then show ?thesis
      using False e0 assms(1) d head_remove1 [of "inactive_tree s" e]
      by (auto simp: ktq_remove_def store_defs ol_remove_def ktq_take_def remove1_idem ktq_ok_def)
  qed
qed

lemma ktq_take_simps [simp]:
  "threads (ktq_take e s) = threads s" "wait_tree (ktq_take e s) = wait_tree s"
  "suspended (ktq_take e s) = suspended s" "run_tree (ktq_take e s) = run_tree s"
  "priority_sum (ktq_take e s) = priority_sum s" "now_ticks (ktq_take e s) = now_ticks s"
  "CFS_KTIMER (ktq_take e s) = CFS_KTIMER s" "WAIT_KTIMER (ktq_take e s) = WAIT_KTIMER s"
  "NEXT_KTIMER (ktq_take e s) = NEXT_KTIMER s"
  "CURRENT_THREAD_CTX (ktq_take e s) = CURRENT_THREAD_CTX s"
  "CURRENT_THREAD_IS_CFS (ktq_take e s) = CURRENT_THREAD_IS_CFS s"
  "IDLE_THREAD_CTX (ktq_take e s) = IDLE_THREAD_CTX s"
  "timer_reload (ktq_take e s) = timer_reload s"
  "ktimers (ktq_take e s) = ktimers s"
  by (simp_all add: ktq_take_def)

lemma queued_ktq_take: "ktq_ok s \<Longrightarrow> queued (ktq_take e s) = queued s - {e}"
  using ktq_ok_distinct [of s] by (auto simp: queued_def ktq_take_def)

lemma ktq_take_ok: "ktq_ok s \<Longrightarrow> ktq_ok (ktq_take e s)"
proof -
  assume k: "ktq_ok s"
  have "ktimer_cmp (ktq_take e s) = ktimer_cmp s" by (simp add: ktimer_cmp_def)
  then show ?thesis
    using k kcmp.ordered_remove1 [of s "active_tree s" e] kcmp.ordered_remove1 [of s "inactive_tree s" e]
    by (auto simp: ktq_ok_def ktq_take_def dest: notin_set_remove1)
qed

section \<open>First and next\<close>

lemma earlier_of_cases: "earlier_of s a b = a \<or> earlier_of s a b = b"
  by (auto simp: earlier_of_def)

lemma ktq_first_zero: "ktq_ok s \<Longrightarrow> ktq_first s = 0 \<longleftrightarrow> queued s = {}"
  by (cases "active_tree s"; cases "inactive_tree s")
    (auto simp: ktq_first_def ktq_first_active_def earlier_of_def queued_def ktq_ok_def)

lemma ktq_first_in: "ktq_ok s \<Longrightarrow> ktq_first s \<noteq> 0 \<Longrightarrow> ktq_first s \<in> queued s"
  using earlier_of_cases [of s "first_active_node s" "first_inactive_node s"]
  by (cases "active_tree s"; cases "inactive_tree s")
    (auto simp: ktq_first_def ktq_first_active_def queued_def ktq_ok_def)

lemma ktimer_ordered_le:
  "ordered (ktimer_cmp s) xs \<Longrightarrow> k \<in> set xs \<Longrightarrow> expire_at (ktimers s (head_or_null xs)) \<le> expire_at (ktimers s k)"
  using kcmp.ordered_head_least [of s xs k] by (cases "k = head_or_null xs") (auto simp: ktimer_cmp_def key_cmp_Less)

lemma ktq_first_least:
  assumes "ktq_ok s" "k \<in> queued s"
  shows "expire_at (ktimers s (ktq_first s)) \<le> expire_at (ktimers s k)"
proof -
  have a: "k \<in> set (active_tree s) \<Longrightarrow> expire_at (ktimers s (first_active_node s)) \<le> expire_at (ktimers s k)"
    and b: "k \<in> set (inactive_tree s) \<Longrightarrow> expire_at (ktimers s (first_inactive_node s)) \<le> expire_at (ktimers s k)"
    using assms(1) ktimer_ordered_le by (auto simp: ktq_ok_def)
  have z: "first_active_node s = 0 \<Longrightarrow> active_tree s = []" "first_inactive_node s = 0 \<Longrightarrow> inactive_tree s = []"
    using assms(1) by (cases "active_tree s"; cases "inactive_tree s"; auto simp: ktq_ok_def)+
  have "ktimer_cmp s x y = Less \<Longrightarrow> expire_at (ktimers s x) \<le> expire_at (ktimers s y)"
    "ktimer_cmp s x y \<noteq> Less \<Longrightarrow> expire_at (ktimers s y) \<le> expire_at (ktimers s x)" for x y
    by (auto simp: ktimer_cmp_def key_cmp_Less)
  then show ?thesis
    using assms(2) a b z unfolding queued_def ktq_first_def ktq_first_active_def earlier_of_def
    by (smt (verit) Un_iff empty_iff empty_set order_trans)
qed

lemma ktq_first_active_in: "ktq_ok s \<Longrightarrow> ktq_first_active s \<noteq> 0 \<Longrightarrow> ktq_first_active s \<in> set (active_tree s)"
  by (cases "active_tree s") (auto simp: ktq_first_active_def ktq_ok_def)

text \<open>The combined order of both trees.\<close>

definition ktq_list :: "kstate \<Rightarrow> addr list" where
  "ktq_list s = fold (oinsert (ktimer_cmp s)) (inactive_tree s) (active_tree s)"

context strict_cmp
begin

lemma fold_oinsert_ordered:
  "ordered c xs \<Longrightarrow> distinct ys \<Longrightarrow> set ys \<inter> set xs = {} \<Longrightarrow> ordered c (fold (oinsert c) ys xs)"
proof (induction ys arbitrary: xs)
  case (Cons y ys)
  then show ?case using ordered_oinsert [of xs y] by auto
qed simp

lemma head_unique:
  "ordered c xs \<Longrightarrow> x \<in> set xs \<Longrightarrow> (\<And>y. y \<in> set xs \<Longrightarrow> y \<noteq> x \<Longrightarrow> c x y = Less) \<Longrightarrow> head_or_null xs = x"
  using ordered_head_least [of xs x] cmp_asym head_or_null_in [of xs] by (cases xs) auto

lemma ordered_filter: "ordered c xs \<Longrightarrow> ordered c (filter P xs)"
  by (simp add: ordered_def sorted_wrt_filter)

lemma onext_oupper: "ordered c xs \<Longrightarrow> e \<in> set xs \<Longrightarrow> onext xs e = oupper c xs e"
proof -
  assume o: "ordered c xs" and e: "e \<in> set xs"
  then obtain us vs where x: "xs = us @ e # vs" by (auto simp: in_set_conv_decomp)
  have "filter (\<lambda>a. c e a = Less) us = []"
    using o cmp_asym by (auto simp: filter_empty_conv ordered_def x sorted_wrt_append)
  moreover have "filter (\<lambda>a. c e a = Less) vs = vs"
    using o by (auto simp: filter_id_conv ordered_def x sorted_wrt_append)
  moreover have "e \<notin> set us" using ordered_distinct [OF o] by (simp add: x)
  ultimately show ?thesis by (simp add: x onext_append oupper_def cmp_irrefl)
qed

end

lemma earlier_of_head:
  assumes m: "ordered (ktimer_cmp s) ms" "set ms = set xs \<union> set ys" "0 \<notin> set ms"
    and o: "ordered (ktimer_cmp s) xs" "ordered (ktimer_cmp s) ys"
  shows "earlier_of s (head_or_null xs) (head_or_null ys) = head_or_null ms"
proof (cases "xs = [] \<or> ys = []")
  case True
  then show ?thesis
  proof
    assume "xs = []"
    then have "ms = ys" using kcmp.ordered_unique [OF m(1) o(2)] m(2) by simp
    then show ?thesis using \<open>xs = []\<close> by (simp add: earlier_of_def)
  next
    assume "ys = []"
    then have "ms = xs" using kcmp.ordered_unique [OF m(1) o(1)] m(2) by simp
    then show ?thesis using \<open>ys = []\<close> by (simp add: earlier_of_def)
  qed
next
  case False
  let ?x = "head_or_null xs" and ?y = "head_or_null ys"
  have h: "?x \<in> set xs" "?y \<in> set ys" using False head_or_null_in by auto
  have z: "?x \<noteq> 0" "?y \<noteq> 0" using h m(2,3) by (metis UnI1, metis UnI2)
  let ?m = "if ktimer_cmp s ?x ?y = Less then ?x else ?y"
  have "head_or_null ms = ?m"
  proof (rule kcmp.head_unique [OF m(1)])
    show "?m \<in> set ms" using h m(2) by auto
    fix b assume b: "b \<in> set ms" "b \<noteq> ?m"
    then have mem: "b \<in> set xs \<or> b \<in> set ys" using m(2) by auto
    note x = kcmp.ordered_head_least [OF o(1), of b] and y = kcmp.ordered_head_least [OF o(2), of b]
    show "ktimer_cmp s ?m b = Less"
    proof (cases "ktimer_cmp s ?x ?y = Less")
      case True
      then show ?thesis using mem b(2) x y kcmp.cmp_trans [OF True, of b] by (cases "b = ?y") auto
    next
      case False
      then have "?x = ?y \<or> ktimer_cmp s ?y ?x = Less" using kcmp.cmp_not_Less [of s ?x ?y] by blast
      then show ?thesis using False mem b(2) x y kcmp.cmp_trans [of s ?y ?x b] by (cases "b = ?x") auto
    qed
  qed
  then show ?thesis using z by (simp add: earlier_of_def)
qed

lemma ktq_list_ok:
  assumes "ktq_ok s"
  shows "ordered (ktimer_cmp s) (ktq_list s)" "set (ktq_list s) = queued s" "0 \<notin> set (ktq_list s)"
proof -
  have "set (fold (oinsert c) ys xs) = set ys \<union> set xs" for c and ys xs :: "addr list"
    by (induction ys arbitrary: xs) auto
  then show "set (ktq_list s) = queued s" by (auto simp: ktq_list_def queued_def)
  then show "0 \<notin> set (ktq_list s)" using ktq_ok_nonzero [OF assms] by auto
  show "ordered (ktimer_cmp s) (ktq_list s)"
    unfolding ktq_list_def using assms ktq_ok_distinct [OF assms]
    by (intro kcmp.fold_oinsert_ordered) (auto simp: ktq_ok_def)
qed

lemma ktq_first_list: "ktq_ok s \<Longrightarrow> ktq_first s = head_or_null (ktq_list s)"
  using earlier_of_head [of s "ktq_list s" "active_tree s" "inactive_tree s"] ktq_list_ok [of s]
  by (auto simp: ktq_first_def ktq_first_active_def ktq_ok_def queued_def)

lemma ktq_next_list:
  assumes k: "ktq_ok s" and e: "e \<in> queued s"
  shows "ktq_next e s = Some (onext (ktq_list s) e)"
proof -
  note l = ktq_list_ok [OF k]
  let ?f = "filter (\<lambda>a. ktimer_cmp s e a = Less)"
  have o: "ordered (ktimer_cmp s) (active_tree s)" "ordered (ktimer_cmp s) (inactive_tree s)"
    using k by (auto simp: ktq_ok_def)
  have up: "earlier_of s (oupper (ktimer_cmp s) xs e) (oupper (ktimer_cmp s) ys e) = onext (ktq_list s) e"
    if "ordered (ktimer_cmp s) xs" "ordered (ktimer_cmp s) ys" "set xs \<union> set ys = queued s" for xs ys
  proof -
    have "earlier_of s (head_or_null (?f xs)) (head_or_null (?f ys)) = head_or_null (?f (ktq_list s))"
      using that l by (intro earlier_of_head kcmp.ordered_filter) auto
    then show ?thesis using kcmp.onext_oupper [OF l(1)] e l(2) by (simp add: oupper_def)
  qed
  show ?thesis
  proof (cases "e \<in> set (active_tree s)")
    case True
    then show ?thesis
      using up [OF o] k e kcmp.onext_oupper [OF o(1) True] ktq_ok_nonzero [OF k e]
      by (auto simp: ktq_next_def store_defs ktq_ok_def queued_def)
  next
    case False
    then have i: "e \<in> set (inactive_tree s)" using e by (simp add: queued_def)
    then show ?thesis
      using up [OF o(2,1)] k e kcmp.onext_oupper [OF o(2) i] ktq_ok_nonzero [OF k e]
      by (auto simp: ktq_next_def store_defs ktq_ok_def queued_def)
  qed
qed

end
