(* ===== verification/KTimer.thy ===== *)
theory KTimer
  imports WaitQ RunQ KTimerQ
begin

text \<open>
  The kernel timers (\<^verbatim>\<open>src/ktimer.rs\<close>): the CFS timer, the wait timer and one timer per real-time
  thread, the moves of threads between the timer queue and the wait queue, the dispatch of
  expired timers and the programming of the platform timer.
\<close>

section \<open>Timer identities\<close>

definition is_cfs_ktimer :: "addr \<Rightarrow> kstate \<Rightarrow> bool" where
  "is_cfs_ktimer e s \<longleftrightarrow> e \<noteq> 0 \<and> e = CFS_KTIMER s"

definition is_wait_ktimer :: "addr \<Rightarrow> kstate \<Rightarrow> bool" where
  "is_wait_ktimer e s \<longleftrightarrow> e \<noteq> 0 \<and> e = WAIT_KTIMER s"

definition container_of :: "addr \<Rightarrow> kstate \<Rightarrow> RtKTimer option" where
  "container_of e s = do {
     require (e \<noteq> 0);
     require (\<not> is_cfs_ktimer e s);
     require (\<not> is_wait_ktimer e s);
     get_ktimer s e
   }"

definition rt_thread :: "addr \<Rightarrow> kstate \<Rightarrow> TCB option" where
  "rt_thread t s = do {
     th \<leftarrow> get_thread s t;
     require (kind th = Rt);
     Some th
   }"

definition ktimer_name :: "addr \<Rightarrow> kstate \<Rightarrow> string option" where
  "ktimer_name e s =
     (if is_cfs_ktimer e s then Some (ktimer_label (ktimers s (CFS_KTIMER s)))
      else if is_wait_ktimer e s then Some (ktimer_label (ktimers s (WAIT_KTIMER s)))
      else do { k \<leftarrow> container_of e s; Some (ktimer_label k) })"

section \<open>Deadlines and budgets\<close>

definition record_rt_budget_overrun :: "addr \<Rightarrow> addr \<Rightarrow> kstate \<Rightarrow> kstate option" where
  "record_rt_budget_overrun e t s = do {
     th \<leftarrow> rt_thread t s;
     k \<leftarrow> get_ktimer s e;
     if runtime th > budget_ticks (timing k) then do {
       k \<leftarrow> container_of e s;
       upd_ktimer e (miss_cnt_update (\<lambda>c. saturating_add c 1)) s
     } else Some s
   }"

definition is_real_rt_deadline_miss :: "addr \<Rightarrow> addr \<Rightarrow> kstate \<Rightarrow> bool option" where
  "is_real_rt_deadline_miss e t s = do {
     th \<leftarrow> rt_thread t s;
     k \<leftarrow> get_ktimer s e;
     Some (runtime th > relative_deadline_ticks (timing k))
   }"

text \<open>
  \<open>record_rt_deadline_miss\<close> counts the miss, prints diagnostics and then panics, so it has no
  result state.
\<close>

definition record_rt_deadline_miss :: "addr \<Rightarrow> addr \<Rightarrow> kstate \<Rightarrow> kstate option" where
  "record_rt_deadline_miss e t s = do {
     th \<leftarrow> rt_thread t s;
     k \<leftarrow> container_of e s;
     s \<leftarrow> Some (record_deadline_miss t (runtime th) (relative_deadline_ticks (timing k)) s);
     s \<leftarrow> upd_ktimer e (miss_cnt_update (\<lambda>c. saturating_add c 1)) s;
     None
   }"

text \<open>The release of an expired real-time timer: check for a miss, start a new job window.\<close>

definition release_rt :: "addr \<Rightarrow> bool \<Rightarrow> kstate \<Rightarrow> kstate option" where
  "release_rt e check s = do {
     k \<leftarrow> container_of e s;
     let t = thread_ctx k;
     th \<leftarrow> rt_thread t s;
     missed \<leftarrow> is_real_rt_deadline_miss e t s;
     s \<leftarrow> (if check \<and> missed then record_rt_deadline_miss e t s else Some s);
     s \<leftarrow> upd_thread t (runtime_update (\<lambda>_. 0)) s;
     upd_ktimer e (set_expire_after (now_ticks s) (relative_deadline_ticks (timing k))) s
   }"

section \<open>Selecting the next timer\<close>

definition refresh_next_ktimer :: "kstate \<Rightarrow> kstate option" where
  "refresh_next_ktimer s = (
     let e = ktq_first_active s in
     if e \<noteq> 0 \<and> ktimer_is_expired_at (ktimers s e) (now_ticks s) then do {
       (_, s) \<leftarrow> ktq_remove e s;
       s \<leftarrow> (if is_cfs_ktimer e s then do {
               k \<leftarrow> get_ktimer s e;
               upd_ktimer e (set_expire_after (now_ticks s) (period_ticks (timing k))) s
             } else release_rt e True s);
       s \<leftarrow> ktq_enqueue_active e s;
       Some (s\<lparr>NEXT_KTIMER := ktq_first_active s\<rparr>)
     } else Some (s\<lparr>NEXT_KTIMER := e\<rparr>))"

definition update_next_ktimer :: "addr \<Rightarrow> kstate \<Rightarrow> kstate" where
  "update_next_ktimer e s = s\<lparr>NEXT_KTIMER := e\<rparr>"

definition init_ktimer_queue :: "kstate \<Rightarrow> kstate option" where
  "init_ktimer_queue s =
     ktq_enqueue_inactive (WAIT_KTIMER s)
       (s\<lparr>active_tree := [], inactive_tree := [], first_active_node := 0, first_inactive_node := 0,
          now_ticks := 0, NEXT_KTIMER := 0, ktimers := (ktimers s)(WAIT_KTIMER s := WaitKTimer_new)\<rparr>)"

definition enqueue_ktimer :: "addr \<Rightarrow> kstate \<Rightarrow> kstate option" where
  "enqueue_ktimer e s = do {
     require (\<not> ktq_contains e s);
     s \<leftarrow> ktq_enqueue_active e s;
     refresh_next_ktimer s
   }"

definition remove_ktimer :: "addr \<Rightarrow> kstate \<Rightarrow> (addr \<times> kstate) option" where
  "remove_ktimer e s =
     (if e = 0 then Some (0, s)
      else do {
        (removed, s) \<leftarrow> ktq_dequeue e s;
        s \<leftarrow> (if NEXT_KTIMER s = removed then refresh_next_ktimer s else Some s);
        Some (removed, s)
      })"

definition reinsert_ktimer :: "addr \<Rightarrow> kstate \<Rightarrow> kstate option" where
  "reinsert_ktimer e s =
     (if e = 0 then Some s
      else do {
        require (\<not> ktq_contains e s);
        s \<leftarrow> ktq_enqueue_active e s;
        refresh_next_ktimer s
      })"

section \<open>The wait timer\<close>

definition wait_deadline :: "kstate \<Rightarrow> u64" where
  "wait_deadline s =
     (let w = head_or_null (wait_tree s) in
      if w = 0 then KTIMER_EXPIRE_NEVER else wake_at (wait_entity (threads s w)))"

definition update_wait_ktimer_deadline :: "addr \<Rightarrow> kstate \<Rightarrow> kstate option" where
  "update_wait_ktimer_deadline e s = upd_ktimer e (expire_at_update (\<lambda>_. wait_deadline s)) s"

definition program_wait_ktimer :: "kstate \<Rightarrow> kstate option" where
  "program_wait_ktimer s = (
     let e = WAIT_KTIMER s; d = wait_deadline s in do {
       k \<leftarrow> get_ktimer s e;
       s \<leftarrow> (if expire_at k \<noteq> d then do {
               (_, s) \<leftarrow> ktq_remove e s;
               s \<leftarrow> upd_ktimer e (expire_at_update (\<lambda>_. d)) s;
               ktq_enqueue_inactive e s
             } else Some s);
       refresh_next_ktimer s
     })"

text \<open>One woken real-time thread goes back to the timer queue with what is left of its deadline.\<close>

definition wake_rt :: "addr \<Rightarrow> u32 \<Rightarrow> kstate \<Rightarrow> kstate option" where
  "wake_rt t elapsed s = do {
     th \<leftarrow> rt_thread t s;
     let e = ktimer_entity th;
     s \<leftarrow> upd_thread t (runtime_update (\<lambda>r. saturating_add r elapsed)) s;
     s \<leftarrow> record_rt_budget_overrun e t s;
     th \<leftarrow> rt_thread t s;
     k \<leftarrow> get_ktimer s e;
     s \<leftarrow> upd_ktimer e (set_expire_after (now_ticks s)
            (saturating_sub (relative_deadline_ticks (timing k)) (runtime th))) s;
     ktq_enqueue_active e s
   }"

partial_function (option) wake_wait_thread :: "u32 \<Rightarrow> kstate \<Rightarrow> kstate option" where
  [code]: "wake_wait_thread elapsed s = do {
     (r, s) \<leftarrow> pop_expired_wait_thread (now_ticks s) s;
     case r of
       None \<Rightarrow> Some s
     | Some t \<Rightarrow> do {
         s \<leftarrow> set_state t Ready s;
         s \<leftarrow> Some (record_wakeup t s);
         th \<leftarrow> get_thread s t;
         s \<leftarrow> (if kind th = Cfs then enqueue_runq_from_waitq t s
               else if kind th = Rt then wake_rt t elapsed s
               else Some s);
         wake_wait_thread elapsed s
       }
   }"

section \<open>Between the timer queue and the wait queue\<close>

datatype WaitQueueError = NotFound

definition dequeue_ktimerq_to_waitq :: "addr \<Rightarrow> kstate \<Rightarrow> ((WaitQueueError + unit) \<times> kstate) option" where
  "dequeue_ktimerq_to_waitq t s = do {
     th \<leftarrow> get_thread s t;
     if kind th \<noteq> Rt then Some (Inl NotFound, s)
     else if ktimer_entity th = 0 then Some (Inl NotFound, s)
     else do {
       (_, s) \<leftarrow> remove_ktimer (ktimer_entity th) s;
       s \<leftarrow> insert_wait_thread t s;
       s \<leftarrow> program_wait_ktimer s;
       Some (Inr (), s)
     }
   }"

definition enqueue_ktimerq_from_waitq :: "addr \<Rightarrow> kstate \<Rightarrow> ((WaitQueueError + unit) \<times> kstate) option" where
  "enqueue_ktimerq_from_waitq t s = do {
     th \<leftarrow> get_thread s t;
     if kind th \<noteq> Rt then Some (Inl NotFound, s)
     else if ktimer_entity th = 0 then Some (Inl NotFound, s)
     else do {
       s \<leftarrow> remove_wait_thread t s;
       s \<leftarrow> set_state t Ready s;
       s \<leftarrow> Some (record_wakeup t s);
       s \<leftarrow> reinsert_ktimer (ktimer_entity th) s;
       s \<leftarrow> program_wait_ktimer s;
       Some (Inr (), s)
     }
   }"

section \<open>The platform timer\<close>

definition reload_from_ticks :: "u32 \<Rightarrow> u32 option" where
  "reload_from_ticks ticks = do {
     reload \<leftarrow> checked_sub ticks 1;
     if reload \<le> SCHEDULER_TIMER_RELOAD_MAX then Some reload else None
   }"

definition writable_reload :: "u32 \<Rightarrow> u32" where
  "writable_reload reload = max SCHEDULER_TIMER_RELOAD_MIN (min reload SCHEDULER_TIMER_RELOAD_MAX)"

definition programmable_reload_from_ticks :: "u32 \<Rightarrow> u32" where
  "programmable_reload_from_ticks ticks =
     writable_reload
       (case reload_from_ticks ticks of
          Some r \<Rightarrow> r
        | None \<Rightarrow> if ticks = 0 then 0 else SCHEDULER_TIMER_RELOAD_MAX)"

definition scheduler_timer_reload_for_entity :: "addr \<Rightarrow> kstate \<Rightarrow> u32 option" where
  "scheduler_timer_reload_for_entity e s =
     (if e = 0 then None
      else let k = ktimers s e in
        Some (if is_cfs_ktimer e s
              then programmable_reload_from_ticks
                     (min (ktimer_remaining_at k (now_ticks s)) (relative_deadline_ticks (timing k)))
              else writable_reload
                     (ucast (min (saturating_sub (saturating_sub (expire_at k) (now_ticks s)) 1)
                                 (u64_of SCHEDULER_TIMER_RELOAD_MAX)))))"

definition next_ktimer_reload :: "kstate \<Rightarrow> u32 option" where
  "next_ktimer_reload s = scheduler_timer_reload_for_entity (ktq_first s) s"

definition elapsed_ticks_since_last_interrupt :: "kstate \<Rightarrow> u32" where
  "elapsed_ticks_since_last_interrupt s =
     (case (case timer_reload s of Some r \<Rightarrow> Some r | None \<Rightarrow> next_ktimer_reload s) of
        Some r \<Rightarrow> saturating_add r 1
      | None \<Rightarrow> 0)"

definition elapsed_ticks_since_current_reload :: "kstate \<Rightarrow> u32" where
  "elapsed_ticks_since_current_reload s =
     (case timer_reload s of
        None \<Rightarrow> 0
      | Some r \<Rightarrow> (case timer_current s of None \<Rightarrow> 0 | Some c \<Rightarrow> saturating_sub r c))"

text \<open>
  \<open>program_reload\<close> of the two platforms: the host has no timer; Cortex-M writes the reload
  register and clears the counter.
\<close>

definition program_scheduler_timer_reload :: "u32 \<Rightarrow> kstate \<Rightarrow> kstate" where
  "program_scheduler_timer_reload reload s =
     (case timer_reload s of
        None \<Rightarrow> s
      | Some _ \<Rightarrow> s\<lparr>timer_reload := Some reload, timer_current := Some 0\<rparr>)"

definition program_next_scheduler_timer :: "kstate \<Rightarrow> (u32 option \<times> kstate) option" where
  "program_next_scheduler_timer s =
     (case scheduler_timer_reload_for_entity (ktq_first s) s of
        None \<Rightarrow> Some (None, s)
      | Some reload \<Rightarrow> do {
          require (SCHEDULER_TIMER_RELOAD_MIN \<le> reload \<and> reload \<le> SCHEDULER_TIMER_RELOAD_MAX);
          Some (Some reload, program_scheduler_timer_reload reload s)
        })"

section \<open>Expiry dispatch\<close>

definition advance_ktimers :: "u32 \<Rightarrow> kstate \<Rightarrow> kstate" where
  "advance_ktimers elapsed s = ktq_advance_time elapsed s"

text \<open>One iteration of the dispatch loop: \<open>Inl\<close> continues, \<open>Inr\<close> returns the selected timer.\<close>

definition dispatch_step :: "u32 \<Rightarrow> kstate \<Rightarrow> (kstate + (addr \<times> kstate)) option" where
  "dispatch_step elapsed s = (
     let expired = ktq_first s; first_active = ktq_first_active s in
     if expired = 0 \<or> \<not> ktimer_is_expired_at (ktimers s expired) (now_ticks s)
     then Some (Inr (first_active, s))
     else do {
       (_, s) \<leftarrow> ktq_remove expired s;
       k \<leftarrow> get_ktimer s expired;
       s \<leftarrow> (if is_wait_ktimer expired s then do {
               s \<leftarrow> wake_wait_thread elapsed s;
               s \<leftarrow> update_wait_ktimer_deadline expired s;
               ktq_enqueue_inactive expired s
             } else if is_cfs_ktimer expired s then
               (if active k then do {
                  s \<leftarrow> upd_ktimer expired (set_expire_after (now_ticks s)
                         (saturating_sub (period_ticks (timing k)) elapsed)) s;
                  ktq_enqueue_inactive expired s
                } else do {
                  s \<leftarrow> upd_ktimer expired (set_expire_after (now_ticks s) (period_ticks (timing k))) s;
                  ktq_enqueue_active expired s
                })
             else do {
               s \<leftarrow> release_rt expired (active k) s;
               ktq_enqueue_active expired s
             });
       Some (Inl s)
     })"

partial_function (option) dispatch_expired :: "u32 \<Rightarrow> kstate \<Rightarrow> (addr \<times> kstate) option" where
  [code]: "dispatch_expired elapsed s = do {
     r \<leftarrow> dispatch_step elapsed s;
     case r of Inl s \<Rightarrow> dispatch_expired elapsed s | Inr x \<Rightarrow> Some x
   }"

text \<open>
  The first \<open>n\<close> rounds of the loop: \<open>None\<close> if one of them panics, \<open>Inr\<close> if one of them returns, and \<open>Inl\<close> if the loop goes on.
\<close>

primrec dispatch_rounds :: "nat \<Rightarrow> u32 \<Rightarrow> kstate \<Rightarrow> (kstate + (addr \<times> kstate)) option" where
  "dispatch_rounds 0 elapsed s = Some (Inl s)"
| "dispatch_rounds (Suc n) elapsed s = do {
     r \<leftarrow> dispatch_step elapsed s;
     case r of Inl s \<Rightarrow> dispatch_rounds n elapsed s | Inr x \<Rightarrow> Some (Inr x)
   }"

section \<open>Yielding and priority inheritance\<close>

definition yield_ktimer :: "addr \<Rightarrow> u32 \<Rightarrow> bool \<Rightarrow> kstate \<Rightarrow> (addr \<times> kstate) option" where
  "yield_ktimer e elapsed reset_runtime s =
     (if e = 0 then Some (0, s)
      else do {
        (_, s) \<leftarrow> ktq_remove e s;
        let later = saturating_add (now_ticks s) (u64_of elapsed);
        k \<leftarrow> get_ktimer s e;
        s \<leftarrow> (if is_cfs_ktimer e s then
                upd_ktimer e (set_expire_after later (saturating_sub (period_ticks (timing k)) elapsed)) s
              else do {
                k \<leftarrow> container_of e s;
                let t = thread_ctx k;
                th \<leftarrow> rt_thread t s;
                s \<leftarrow> upd_thread t (runtime_update (\<lambda>r. saturating_add r elapsed)) s;
                s \<leftarrow> record_rt_budget_overrun e t s;
                th \<leftarrow> rt_thread t s;
                s \<leftarrow> upd_ktimer e (set_expire_after later
                       (saturating_sub (period_ticks (timing k)) (runtime th))) s;
                if reset_runtime then upd_thread t (runtime_update (\<lambda>_. 0)) s else Some s
              });
        s \<leftarrow> Some (ktq_advance_time elapsed s);
        s \<leftarrow> ktq_enqueue_inactive e s;
        Some (ktq_first_active s, s)
      })"

definition thread_scheduler_ktimer :: "addr \<Rightarrow> kstate \<Rightarrow> addr option" where
  "thread_scheduler_ktimer t s = do {
     th \<leftarrow> get_thread s t;
     Some (case kind th of Cfs \<Rightarrow> CFS_KTIMER s | Rt \<Rightarrow> ktimer_entity th | Idle \<Rightarrow> 0)
   }"

definition thread_scheduler_expire_at :: "addr \<Rightarrow> kstate \<Rightarrow> u64 option" where
  "thread_scheduler_expire_at t s = do {
     e \<leftarrow> thread_scheduler_ktimer t s;
     Some (if e = 0 then KTIMER_EXPIRE_NEVER else expire_at (ktimers s e))
   }"

partial_function (option) earliest_queued_from :: "addr \<Rightarrow> kstate \<Rightarrow> u64 option" where
  [code]: "earliest_queued_from e s =
     (if e = 0 then Some KTIMER_EXPIRE_NEVER
      else if \<not> is_wait_ktimer e s then Some (expire_at (ktimers s e))
      else do { n \<leftarrow> ktq_next e s; earliest_queued_from n s })"

definition earliest_queued_scheduler_expire_at :: "kstate \<Rightarrow> u64 option" where
  "earliest_queued_scheduler_expire_at s = earliest_queued_from (ktq_first s) s"

definition set_thread_scheduler_expire_at :: "addr \<Rightarrow> u64 \<Rightarrow> kstate \<Rightarrow> kstate option" where
  "set_thread_scheduler_expire_at t d s = do {
     e \<leftarrow> thread_scheduler_ktimer t s;
     if e = 0 then Some s
     else do {
       let was_queued = ktq_contains e s;
       let was_active = active (ktimers s e);
       s \<leftarrow> (if was_queued then do { (_, s) \<leftarrow> ktq_remove e s; Some s } else Some s);
       s \<leftarrow> upd_ktimer e (expire_at_update (\<lambda>_. d)) s;
       if was_queued then do {
         s \<leftarrow> (if was_active then ktq_enqueue_active e s else ktq_enqueue_inactive e s);
         refresh_next_ktimer s
       } else if NEXT_KTIMER s = e then refresh_next_ktimer s
       else Some s
     }
   }"

partial_function (option) is_active_ktimer_from :: "string \<Rightarrow> addr \<Rightarrow> kstate \<Rightarrow> bool option" where
  [code]: "is_active_ktimer_from nm e s =
     (if e = 0 then Some False
      else do {
        n \<leftarrow> ktimer_name e s;
        if n = nm then Some (active (ktimers s e))
        else do { e' \<leftarrow> ktq_next e s; is_active_ktimer_from nm e' s }
      })"

definition is_active_ktimer :: "string \<Rightarrow> kstate \<Rightarrow> bool option" where
  "is_active_ktimer nm s = is_active_ktimer_from nm (ktq_first s) s"

end
