(* ===== verification/KInv.thy ===== *)
theory KInv
  imports KTimer
begin

text \<open>
  The invariant of the scheduler state across its queues, and that the timer operations keep it
  and complete. \<open>links\<close> ties real-time threads to their timers: a queued real-time timer belongs to
  a thread that is not blocked, and the timer of a blocked real-time thread is in no queue.
\<close>

section \<open>The invariant\<close>

definition rt_linked :: "kstate \<Rightarrow> addr \<Rightarrow> bool" where
  "rt_linked s k \<longleftrightarrow>
     thread_ctx (ktimers s k) \<noteq> 0 \<and> kind (threads s (thread_ctx (ktimers s k))) = Rt
     \<and> ktimer_entity (threads s (thread_ctx (ktimers s k))) = k
     \<and> k \<noteq> 0 \<and> k \<noteq> CFS_KTIMER s \<and> k \<noteq> WAIT_KTIMER s"

definition timer_ok :: "kstate \<Rightarrow> addr \<Rightarrow> bool" where
  "timer_ok s k \<longleftrightarrow>
     k = CFS_KTIMER s \<or> k = WAIT_KTIMER s \<or> (rt_linked s k \<and> thread_ctx (ktimers s k) \<notin> waiting s)"

definition waiter_ok :: "kstate \<Rightarrow> addr \<Rightarrow> bool" where
  "waiter_ok s t \<longleftrightarrow>
     (kind (threads s t) = Rt \<longrightarrow> rt_linked s (ktimer_entity (threads s t))
        \<and> thread_ctx (ktimers s (ktimer_entity (threads s t))) = t)
     \<and> (kind (threads s t) = Cfs \<longrightarrow> priority (sched_entity (threads s t)) \<noteq> 0)"

definition links :: "kstate \<Rightarrow> bool" where
  "links s \<longleftrightarrow>
     CFS_KTIMER s \<noteq> 0 \<and> WAIT_KTIMER s \<noteq> 0 \<and> CFS_KTIMER s \<noteq> WAIT_KTIMER s
     \<and> WAIT_KTIMER s \<notin> set (active_tree s)
     \<and> (\<forall>k \<in> queued s. timer_ok s k) \<and> (\<forall>t \<in> waiting s. waiter_ok s t)"

definition kinv0 :: "kstate \<Rightarrow> bool" where
  "kinv0 s \<longleftrightarrow> wq_ok s \<and> rq_ok s \<and> ktq_ok s \<and> links s"

definition kinv :: "kstate \<Rightarrow> bool" where
  "kinv s \<longleftrightarrow> kinv0 s \<and> WAIT_KTIMER s \<in> set (inactive_tree s)"

lemma waiter_timer_not_queued:
  assumes "links s" "t \<in> waiting s" "kind (threads s t) = Rt"
  shows "ktimer_entity (threads s t) \<notin> queued s"
proof
  assume q: "ktimer_entity (threads s t) \<in> queued s"
  have "rt_linked s (ktimer_entity (threads s t))" "thread_ctx (ktimers s (ktimer_entity (threads s t))) = t"
    using assms by (auto simp: links_def waiter_ok_def)
  moreover have "timer_ok s (ktimer_entity (threads s t))" using assms q by (simp add: links_def)
  ultimately show False using assms(2) by (auto simp: timer_ok_def rt_linked_def)
qed

section \<open>Timer steps\<close>

text \<open>
  What a timer operation may change: the timer queue, the clock, the selected timer; of a timer
  its deadline, activity and miss count; of a thread its runtime.
\<close>

definition kt_step :: "kstate \<Rightarrow> kstate \<Rightarrow> bool" where
  "kt_step s s' \<longleftrightarrow>
     s' = s\<lparr>threads := threads s', ktimers := ktimers s', active_tree := active_tree s',
            inactive_tree := inactive_tree s', first_active_node := first_active_node s',
            first_inactive_node := first_inactive_node s', now_ticks := now_ticks s',
            NEXT_KTIMER := NEXT_KTIMER s'\<rparr>
     \<and> (\<forall>u. threads s' u = (threads s u)\<lparr>runtime := runtime (threads s' u)\<rparr>)
     \<and> (\<forall>k. timing (ktimers s' k) = timing (ktimers s k) \<and> thread_ctx (ktimers s' k) = thread_ctx (ktimers s k)
            \<and> ktimer_label (ktimers s' k) = ktimer_label (ktimers s k))"

lemma kt_step_refl [simp]: "kt_step s s"
  by (simp add: kt_step_def)

lemma kt_step_threads:
  assumes "kt_step s s'"
  shows "kind (threads s' u) = kind (threads s u)" "state (threads s' u) = state (threads s u)"
    "wait_entity (threads s' u) = wait_entity (threads s u)"
    "sync_entity (threads s' u) = sync_entity (threads s u)"
    "sched_entity (threads s' u) = sched_entity (threads s u)"
    "ktimer_entity (threads s' u) = ktimer_entity (threads s u)"
proof -
  have "threads s' u = (threads s u)\<lparr>runtime := runtime (threads s' u)\<rparr>" using assms by (simp add: kt_step_def)
  then show "kind (threads s' u) = kind (threads s u)" "state (threads s' u) = state (threads s u)"
    "wait_entity (threads s' u) = wait_entity (threads s u)"
    "sync_entity (threads s' u) = sync_entity (threads s u)"
    "sched_entity (threads s' u) = sched_entity (threads s u)"
    "ktimer_entity (threads s' u) = ktimer_entity (threads s u)"
    by (cases "threads s u"; cases "threads s' u"; simp)+
qed

lemma kt_step_ktimers:
  assumes "kt_step s s'"
  shows "timing (ktimers s' k) = timing (ktimers s k)" "thread_ctx (ktimers s' k) = thread_ctx (ktimers s k)"
  using assms by (auto simp: kt_step_def)

lemma kt_step_queues:
  assumes "kt_step s s'"
  shows "CFS_KTIMER s' = CFS_KTIMER s" "WAIT_KTIMER s' = WAIT_KTIMER s"
    "run_tree s' = run_tree s" "priority_sum s' = priority_sum s"
    "wait_tree s' = wait_tree s" "suspended s' = suspended s"
    "CURRENT_THREAD_CTX s' = CURRENT_THREAD_CTX s" "CURRENT_THREAD_IS_CFS s' = CURRENT_THREAD_IS_CFS s"
    "IDLE_THREAD_CTX s' = IDLE_THREAD_CTX s" "timer_reload s' = timer_reload s" "timer_current s' = timer_current s"
proof -
  have "s' = s\<lparr>threads := threads s', ktimers := ktimers s', active_tree := active_tree s',
            inactive_tree := inactive_tree s', first_active_node := first_active_node s',
            first_inactive_node := first_inactive_node s', now_ticks := now_ticks s',
            NEXT_KTIMER := NEXT_KTIMER s'\<rparr>"
    using assms by (simp add: kt_step_def)
  then show "CFS_KTIMER s' = CFS_KTIMER s" "WAIT_KTIMER s' = WAIT_KTIMER s"
    "run_tree s' = run_tree s" "priority_sum s' = priority_sum s"
    "wait_tree s' = wait_tree s" "suspended s' = suspended s"
    "CURRENT_THREAD_CTX s' = CURRENT_THREAD_CTX s" "CURRENT_THREAD_IS_CFS s' = CURRENT_THREAD_IS_CFS s"
    "IDLE_THREAD_CTX s' = IDLE_THREAD_CTX s" "timer_reload s' = timer_reload s" "timer_current s' = timer_current s"
    by (cases s; cases s'; simp)+
qed

lemma kt_step_trans:
  assumes "kt_step s s'" "kt_step s' s''"
  shows "kt_step s s''"
  unfolding kt_step_def
proof (intro conjI allI)
  fix u
  have "threads s'' u = ((threads s u)\<lparr>runtime := runtime (threads s' u)\<rparr>)\<lparr>runtime := runtime (threads s'' u)\<rparr>"
    using assms unfolding kt_step_def by metis
  then show "threads s'' u = (threads s u)\<lparr>runtime := runtime (threads s'' u)\<rparr>" by simp
next
  show "s'' = s\<lparr>threads := threads s'', ktimers := ktimers s'', active_tree := active_tree s'',
            inactive_tree := inactive_tree s'', first_active_node := first_active_node s'',
            first_inactive_node := first_inactive_node s'', now_ticks := now_ticks s'',
            NEXT_KTIMER := NEXT_KTIMER s''\<rparr>"
    using assms unfolding kt_step_def by (elim conjE) (cases s; cases s'; cases s''; simp)
qed (use assms in \<open>auto simp: kt_step_def\<close>)

lemmas kt_step_simps = kt_step_threads kt_step_ktimers kt_step_queues

lemma kt_step_waiting: "kt_step s s' \<Longrightarrow> waiting s' = waiting s"
  by (simp add: waiting_def kt_step_queues)

lemma kt_step_wq_ok: "kt_step s s' \<Longrightarrow> wq_ok s \<Longrightarrow> wq_ok s'"
  by (rule wq_ok_frame) (auto simp: kt_step_simps)

lemma kt_step_rq_ok: "kt_step s s' \<Longrightarrow> rq_ok s \<Longrightarrow> rq_ok s'"
  by (rule rq_ok_frame) (auto simp: kt_step_simps)

lemma kt_step_rt_linked: "kt_step s s' \<Longrightarrow> rt_linked s' k = rt_linked s k"
  by (simp add: rt_linked_def kt_step_simps)

lemma kt_step_timer_ok: "kt_step s s' \<Longrightarrow> timer_ok s' k = timer_ok s k"
  by (simp add: timer_ok_def kt_step_rt_linked kt_step_waiting kt_step_simps)

lemma kt_step_waiter_ok: "kt_step s s' \<Longrightarrow> waiter_ok s' k = waiter_ok s k"
  by (simp add: waiter_ok_def kt_step_rt_linked kt_step_simps)

lemma kt_step_kinv0:
  assumes "kt_step s s'" "kinv0 s" "ktq_ok s'" "\<And>k. k \<in> queued s' \<Longrightarrow> timer_ok s k"
    "WAIT_KTIMER s \<notin> set (active_tree s')"
  shows "kinv0 s'"
  using assms kt_step_wq_ok kt_step_rq_ok
  by (auto simp: kinv0_def links_def kt_step_timer_ok kt_step_waiter_ok kt_step_waiting kt_step_simps)

text \<open>Steps of the queue itself.\<close>

lemma kt_step_take: "kt_step s (ktq_take e s)"
  by (simp add: kt_step_def ktq_take_def)

lemma kt_step_put: "kt_step s (ktq_put e act s)"
  by (simp add: kt_step_def ktq_put_def)

definition kt_set :: "addr \<Rightarrow> (RtKTimer \<Rightarrow> RtKTimer) \<Rightarrow> kstate \<Rightarrow> kstate" where
  "kt_set e f s = s\<lparr>ktimers := (ktimers s)(e := f (ktimers s e))\<rparr>"

definition keeps_identity :: "(RtKTimer \<Rightarrow> RtKTimer) \<Rightarrow> bool" where
  "keeps_identity f \<longleftrightarrow>
     (\<forall>k. timing (f k) = timing k \<and> thread_ctx (f k) = thread_ctx k \<and> ktimer_label (f k) = ktimer_label k)"

lemma keeps_identity_simps [simp]:
  "keeps_identity (set_expire_after n t)" "keeps_identity (expire_at_update g)"
  "keeps_identity (miss_cnt_update h)" "keeps_identity (active_update b)"
  by (simp_all add: keeps_identity_def set_expire_after_def)

lemma kt_step_set: "keeps_identity f \<Longrightarrow> kt_step s (kt_set e f s)"
  by (simp add: kt_step_def kt_set_def keeps_identity_def)

lemma upd_ktimer_eq: "e \<noteq> 0 \<Longrightarrow> upd_ktimer e f s = Some (kt_set e f s)"
  by (simp add: upd_ktimer_def kt_set_def)

lemma kt_set_simps [simp]:
  "threads (kt_set e f s) = threads s" "active_tree (kt_set e f s) = active_tree s"
  "inactive_tree (kt_set e f s) = inactive_tree s" "queued (kt_set e f s) = queued s"
  "now_ticks (kt_set e f s) = now_ticks s" "CFS_KTIMER (kt_set e f s) = CFS_KTIMER s"
  "WAIT_KTIMER (kt_set e f s) = WAIT_KTIMER s" "ktimers (kt_set e f s) e = f (ktimers s e)"
  "k \<noteq> e \<Longrightarrow> ktimers (kt_set e f s) k = ktimers s k" "waiting (kt_set e f s) = waiting s"
  "NEXT_KTIMER (kt_set e f s) = NEXT_KTIMER s" "wait_tree (kt_set e f s) = wait_tree s"
  "timer_reload (kt_set e f s) = timer_reload s" "timer_current (kt_set e f s) = timer_current s"
  by (simp_all add: kt_set_def queued_def waiting_def)

lemma kt_set_ktq_ok:
  "ktq_ok s \<Longrightarrow> e \<notin> queued s \<Longrightarrow> ktq_ok (kt_set e f s)"
  by (rule ktq_ok_frame) (auto simp: kt_set_def queued_def)

definition set_runtime :: "addr \<Rightarrow> u32 \<Rightarrow> kstate \<Rightarrow> kstate" where
  "set_runtime t r s = s\<lparr>threads := (threads s)(t := (threads s t)\<lparr>runtime := r\<rparr>)\<rparr>"

lemma kt_step_runtime: "kt_step s (set_runtime t r s)"
  by (simp add: kt_step_def set_runtime_def)

lemma set_runtime_simps [simp]:
  "ktimers (set_runtime t r s) = ktimers s" "active_tree (set_runtime t r s) = active_tree s"
  "inactive_tree (set_runtime t r s) = inactive_tree s" "queued (set_runtime t r s) = queued s"
  "now_ticks (set_runtime t r s) = now_ticks s" "CFS_KTIMER (set_runtime t r s) = CFS_KTIMER s"
  "WAIT_KTIMER (set_runtime t r s) = WAIT_KTIMER s" "waiting (set_runtime t r s) = waiting s"
  "runtime (threads (set_runtime t r s) t) = r" "kind (threads (set_runtime t r s) u) = kind (threads s u)"
  "u \<noteq> t \<Longrightarrow> threads (set_runtime t r s) u = threads s u"
  "ktimer_entity (threads (set_runtime t r s) u) = ktimer_entity (threads s u)"
  "NEXT_KTIMER (set_runtime t r s) = NEXT_KTIMER s"
  by (auto simp: set_runtime_def queued_def waiting_def)

lemma set_runtime_ktq_ok: "ktq_ok s \<Longrightarrow> ktq_ok (set_runtime t r s)"
  by (rule ktq_ok_frame) (auto simp: set_runtime_def)

section \<open>Moving one timer\<close>

text \<open>
  The common shape of the timer operations: take a queued timer out, change it, put it back.
\<close>

lemma retime_ok:
  assumes k: "kinv0 s" "e \<in> queued s" and st: "kt_step (ktq_take e s) s1" "ktq_ok s1" "queued s1 = queued s - {e}"
    "active_tree s1 = remove1 e (active_tree s)" "inactive_tree s1 = remove1 e (inactive_tree s)"
    and act: "act \<longrightarrow> e \<noteq> WAIT_KTIMER s"
  shows "ktq_insert e act s1 = Some (ktq_put e act s1)" "kinv0 (ktq_put e act s1)"
    "queued (ktq_put e act s1) = queued s" "kt_step s (ktq_put e act s1)"
    "set (active_tree (ktq_put e act s1)) = (if act then insert e (set (active_tree s)) else set (active_tree s) - {e})"
    "set (inactive_tree (ktq_put e act s1)) = (if act then set (inactive_tree s) - {e} else insert e (set (inactive_tree s)))"
proof -
  have ok: "ktq_ok s" "links s" using k(1) by (auto simp: kinv0_def)
  have e0: "e \<noteq> 0" using ktq_ok_nonzero [OF ok(1) k(2)] .
  have en: "e \<notin> queued s1" using st(3) by simp
  show "ktq_insert e act s1 = Some (ktq_put e act s1)" by (rule ktq_insert_eq [OF st(2) e0 en])
  show step: "kt_step s (ktq_put e act s1)"
    by (rule kt_step_trans [OF kt_step_take kt_step_trans [OF st(1) kt_step_put]])
  show q: "queued (ktq_put e act s1) = queued s" using st(3) k(2) by auto
  have d: "distinct (active_tree s)" "distinct (inactive_tree s)" using ktq_ok_distinct [OF ok(1)] by auto
  show A: "set (active_tree (ktq_put e act s1)) = (if act then insert e (set (active_tree s)) else set (active_tree s) - {e})"
    using d st(4) by (auto simp: ktq_put_def)
  show "set (inactive_tree (ktq_put e act s1)) = (if act then set (inactive_tree s) - {e} else insert e (set (inactive_tree s)))"
    using d st(5) by (auto simp: ktq_put_def)
  show "kinv0 (ktq_put e act s1)"
    by (rule kt_step_kinv0 [OF step k(1) ktq_put_ok [OF st(2) e0 en]])
      (use ok(2) A act q in \<open>auto simp: links_def\<close>)
qed

section \<open>Release of a real-time timer\<close>

definition missed :: "kstate \<Rightarrow> addr \<Rightarrow> bool" where
  "missed s k \<longleftrightarrow>
     runtime (threads s (thread_ctx (ktimers s k))) > relative_deadline_ticks (timing (ktimers s k))"

text \<open>No active real-time timer has expired with its thread's runtime past the deadline.\<close>

definition no_overdue :: "kstate \<Rightarrow> bool" where
  "no_overdue s \<longleftrightarrow>
     (\<forall>k \<in> set (active_tree s). k \<noteq> CFS_KTIMER s \<longrightarrow> expire_at (ktimers s k) \<le> now_ticks s \<longrightarrow> \<not> missed s k)"

definition released :: "addr \<Rightarrow> kstate \<Rightarrow> kstate" where
  "released e s =
     kt_set e (set_expire_after (now_ticks s) (relative_deadline_ticks (timing (ktimers s e))))
       (set_runtime (thread_ctx (ktimers s e)) 0 s)"

lemma rt_linkedD:
  assumes "rt_linked s e"
  shows "thread_ctx (ktimers s e) \<noteq> 0" "kind (threads s (thread_ctx (ktimers s e))) = Rt"
    "e \<noteq> 0" "e \<noteq> CFS_KTIMER s" "e \<noteq> WAIT_KTIMER s"
    "ktimer_entity (threads s (thread_ctx (ktimers s e))) = e"
    "container_of e s = Some (ktimers s e)"
    "rt_thread (thread_ctx (ktimers s e)) s = Some (threads s (thread_ctx (ktimers s e)))"
  using assms by (auto simp: rt_linked_def container_of_def is_cfs_ktimer_def is_wait_ktimer_def
      store_defs rt_thread_def require_def)

lemma release_rt_eq:
  assumes "rt_linked s e" "check \<longrightarrow> \<not> missed s e"
  shows "release_rt e check s = Some (released e s)"
  using rt_linkedD [OF assms(1)] assms(2)
  by (auto simp: release_rt_def is_real_rt_deadline_miss_def store_defs released_def missed_def Let_def
      kt_set_def set_runtime_def)

lemma release_rt_miss:
  assumes "rt_linked s e" "check" "missed s e"
  shows "release_rt e check s = None"
  using rt_linkedD [OF assms(1)] assms(2,3)
  by (auto simp: release_rt_def is_real_rt_deadline_miss_def store_defs missed_def Let_def record_rt_deadline_miss_def)

lemma kt_step_released: "kt_step s (released e s)"
  unfolding released_def by (rule kt_step_trans [OF kt_step_runtime kt_step_set]) simp

lemma released_simps [simp]:
  "queued (released e s) = queued s" "active_tree (released e s) = active_tree s"
  "inactive_tree (released e s) = inactive_tree s" "now_ticks (released e s) = now_ticks s"
  by (simp_all add: released_def)

lemma released_ktq_ok: "ktq_ok s \<Longrightarrow> e \<notin> queued s \<Longrightarrow> ktq_ok (released e s)"
  unfolding released_def by (rule kt_set_ktq_ok [OF set_runtime_ktq_ok]) simp_all

lemma released_other:
  "k \<noteq> e \<Longrightarrow> ktimers (released e s) k = ktimers s k"
  "expire_at (ktimers (released e s) e) = saturating_add (now_ticks s) (u64_of (relative_deadline_ticks (timing (ktimers s e))))"
  "runtime (threads (released e s) u) = (if u = thread_ctx (ktimers s e) then 0 else runtime (threads s u))"
  by (simp_all add: released_def set_expire_after_def)

section \<open>Selecting the next timer\<close>

definition refreshed :: "kstate \<Rightarrow> kstate \<Rightarrow> bool" where
  "refreshed s s' \<longleftrightarrow>
     kinv0 s' \<and> no_overdue s' \<and> kt_step s s' \<and> queued s' = queued s \<and> set (active_tree s') = set (active_tree s)
     \<and> set (inactive_tree s') = set (inactive_tree s) \<and> now_ticks s' = now_ticks s
     \<and> NEXT_KTIMER s' = ktq_first_active s'"

lemma kinv0_NEXT: "kinv0 s \<Longrightarrow> no_overdue s \<Longrightarrow> refreshed s (s\<lparr>NEXT_KTIMER := ktq_first_active s\<rparr>)"
proof -
  assume k: "kinv0 s" and n: "no_overdue s"
  let ?s = "s\<lparr>NEXT_KTIMER := ktq_first_active s\<rparr>"
  have step: "kt_step s ?s" by (simp add: kt_step_def)
  have ok: "ktq_ok ?s" by (rule ktq_ok_frame [of s]) (use k in \<open>auto simp: kinv0_def\<close>)
  have q: "queued ?s = queued s" by (simp add: queued_def)
  have "kinv0 ?s"
    by (rule kt_step_kinv0 [OF step k ok]) (use k q in \<open>auto simp: kinv0_def links_def\<close>)
  moreover have "no_overdue ?s" using n by (simp add: no_overdue_def missed_def)
  ultimately show ?thesis using step q by (simp add: refreshed_def ktq_first_active_def)
qed

lemma no_overdue_retimed:
  assumes n: "no_overdue s" and step: "kt_step s s'" and same: "now_ticks s' = now_ticks s"
    "set (active_tree s') \<subseteq> insert e (set (active_tree s))"
    "\<And>k. k \<in> set (active_tree s) \<Longrightarrow> k \<noteq> e \<Longrightarrow> expire_at (ktimers s' k) = expire_at (ktimers s k)"
    "\<And>u. runtime (threads s' u) \<le> runtime (threads s u)"
    and e: "e \<noteq> CFS_KTIMER s \<longrightarrow> expire_at (ktimers s' e) \<le> now_ticks s \<longrightarrow> \<not> missed s' e"
  shows "no_overdue s'"
  unfolding no_overdue_def
proof (intro ballI impI)
  fix k assume k: "k \<in> set (active_tree s')" "k \<noteq> CFS_KTIMER s'" "expire_at (ktimers s' k) \<le> now_ticks s'"
  show "\<not> missed s' k"
  proof (cases "k = e")
    case True
    then show ?thesis using k e same(1) by (simp add: kt_step_queues [OF step])
  next
    case False
    then have "\<not> missed s k"
      using n k same kt_step_queues(1) [OF step] by (auto simp: no_overdue_def)
    then show ?thesis
      using same(4) [of "thread_ctx (ktimers s k)"] by (auto simp: missed_def kt_step_ktimers [OF step])
  qed
qed

lemma refreshed_trans: "kt_step s s1 \<Longrightarrow> queued s1 = queued s \<Longrightarrow> set (active_tree s1) = set (active_tree s) \<Longrightarrow>
  set (inactive_tree s1) = set (inactive_tree s) \<Longrightarrow> now_ticks s1 = now_ticks s \<Longrightarrow> refreshed s1 s2 \<Longrightarrow> refreshed s s2"
  by (auto simp: refreshed_def intro: kt_step_trans)

lemma kinv0_active_linked:
  assumes "kinv0 s" "e \<in> set (active_tree s)" "e \<noteq> CFS_KTIMER s"
  shows "rt_linked s e"
proof -
  have "timer_ok s e" "e \<noteq> WAIT_KTIMER s" using assms by (auto simp: kinv0_def links_def queued_def)
  then show ?thesis using assms(3) by (simp add: timer_ok_def)
qed

lemma refresh_next_ok:
  assumes k: "kinv0 s" and n: "no_overdue s"
  shows "wpo (refresh_next_ktimer s) (refreshed s)"
proof (cases "ktq_first_active s \<noteq> 0 \<and> ktimer_is_expired_at (ktimers s (ktq_first_active s)) (now_ticks s)")
  case False
  then show ?thesis using kinv0_NEXT [OF k n] by (auto simp: refresh_next_ktimer_def Let_def)
next
  case True
  let ?e = "ktq_first_active s" and ?s1 = "ktq_take (ktq_first_active s) s"
  have ok: "ktq_ok s" "links s" using k by (auto simp: kinv0_def)
  have eA: "?e \<in> set (active_tree s)" using ktq_first_active_in [OF ok(1)] True by blast
  then have eq: "?e \<in> queued s" by (simp add: queued_def)
  have eW: "?e \<noteq> WAIT_KTIMER s" using ok(2) eA by (auto simp: links_def)
  have t1: "ktq_ok ?s1" "queued ?s1 = queued s - {?e}" using ktq_take_ok queued_ktq_take ok(1) by blast+
  obtain s2 where s2: "(if is_cfs_ktimer ?e ?s1 then do {
               k \<leftarrow> get_ktimer ?s1 ?e;
               upd_ktimer ?e (set_expire_after (now_ticks ?s1) (period_ticks (timing k))) ?s1
             } else release_rt ?e True ?s1) = Some s2"
    "kt_step ?s1 s2" "ktq_ok s2" "queued s2 = queued s - {?e}" "active_tree s2 = active_tree ?s1"
    "inactive_tree s2 = inactive_tree ?s1" "now_ticks s2 = now_ticks s"
    "\<And>k. k \<noteq> ?e \<Longrightarrow> ktimers s2 k = ktimers s k" "\<And>u. runtime (threads s2 u) \<le> runtime (threads s u)"
    "?e \<noteq> CFS_KTIMER s \<Longrightarrow> runtime (threads s2 (thread_ctx (ktimers s ?e))) = 0"
  proof (cases "?e = CFS_KTIMER s")
    case c: True
    then show ?thesis
      using that [of "kt_set ?e (set_expire_after (now_ticks s) (period_ticks (timing (ktimers s ?e)))) ?s1"] True t1
      by (simp add: is_cfs_ktimer_def get_ktimer_def upd_ktimer_eq kt_step_set kt_set_ktq_ok)
  next
    case c: False
    have l: "rt_linked s ?e" by (rule kinv0_active_linked [OF k eA c])
    then have "rt_linked ?s1 ?e" by (simp add: kt_step_rt_linked [OF kt_step_take])
    moreover have "\<not> missed ?s1 ?e"
      using n eA c True by (simp add: no_overdue_def ktimer_is_expired_at_def missed_def)
    ultimately show ?thesis
      using that [of "released ?e ?s1"] release_rt_eq [of ?s1 ?e True] c t1
      by (simp add: is_cfs_ktimer_def kt_step_released released_ktq_ok released_other)
  qed
  have tr: "active_tree s2 = remove1 ?e (active_tree s)" "inactive_tree s2 = remove1 ?e (inactive_tree s)"
    using s2(5,6) by (simp_all add: ktq_take_def)
  note r = retime_ok [OF k eq s2(2-4) tr, of True]
  have put: "refreshed (ktq_put ?e True s2) ((ktq_put ?e True s2)\<lparr>NEXT_KTIMER := ktq_first_active (ktq_put ?e True s2)\<rparr>)"
  proof (rule kinv0_NEXT)
    show "kinv0 (ktq_put ?e True s2)" using r(2) eW by simp
    show "no_overdue (ktq_put ?e True s2)"
      by (rule no_overdue_retimed [OF n r(4), of ?e])
        (use eW eA r(5) s2(7-10) kt_step_ktimers [OF s2(2)] in \<open>auto simp: missed_def\<close>)
  qed
  have "refresh_next_ktimer s = Some ((ktq_put ?e True s2)\<lparr>NEXT_KTIMER := ktq_first_active (ktq_put ?e True s2)\<rparr>)"
    using True ktq_remove_eq [OF ok(1) eq] s2(1) r(1) eW
    by (simp add: refresh_next_ktimer_def Let_def ktq_enqueue_active_def)
  moreover have "refreshed s ((ktq_put ?e True s2)\<lparr>NEXT_KTIMER := ktq_first_active (ktq_put ?e True s2)\<rparr>)"
    by (rule refreshed_trans [OF _ _ _ _ _ put])
      (use r(3-6) s2(7) eW eA ktq_ok_distinct [OF ok(1)] in auto)
  ultimately show ?thesis by simp
qed

section \<open>The wait timer\<close>

lemma no_overdue_cong:
  assumes "no_overdue s" "set (active_tree s') \<subseteq> set (active_tree s)" "now_ticks s' = now_ticks s" "CFS_KTIMER s' = CFS_KTIMER s"
    "\<And>k. k \<in> set (active_tree s') \<Longrightarrow> ktimers s' k = ktimers s k"
    "\<And>k. k \<in> set (active_tree s') \<Longrightarrow> runtime (threads s' (thread_ctx (ktimers s k))) = runtime (threads s (thread_ctx (ktimers s k)))"
  shows "no_overdue s'"
  using assms by (auto simp: no_overdue_def missed_def)

lemma kinvD:
  assumes "kinv s"
  shows "kinv0 s" "wq_ok s" "rq_ok s" "ktq_ok s" "links s" "WAIT_KTIMER s \<in> set (inactive_tree s)"
    "WAIT_KTIMER s \<in> queued s" "WAIT_KTIMER s \<noteq> 0" "WAIT_KTIMER s \<notin> set (active_tree s)"
  using assms by (auto simp: kinv_def kinv0_def links_def queued_def)

lemma refreshed_kinv: "refreshed s s' \<Longrightarrow> WAIT_KTIMER s \<in> set (inactive_tree s) \<Longrightarrow> kinv s'"
  by (auto simp: refreshed_def kinv_def kt_step_simps)

lemma program_wait_ktimer_ok:
  assumes k: "kinv s" and n: "no_overdue s"
  shows "wpo (program_wait_ktimer s) (\<lambda>s'. kinv s' \<and> refreshed s s')"
proof (cases "expire_at (ktimers s (WAIT_KTIMER s)) = wait_deadline s")
  case True
  then show ?thesis
    using refresh_next_ok [OF kinvD(1) [OF k] n] refreshed_kinv [OF _ kinvD(6) [OF k]] kinvD(8) [OF k]
    by (auto simp: program_wait_ktimer_def store_defs Let_def elim: wpo_mono)
next
  case False
  let ?w = "WAIT_KTIMER s"
  let ?s1 = "ktq_take ?w s"
  let ?s2 = "kt_set ?w (expire_at_update (\<lambda>_. wait_deadline s)) ?s1"
  have t1: "ktq_ok ?s1" "queued ?s1 = queued s - {?w}" using ktq_take_ok queued_ktq_take kinvD(4) [OF k] by blast+
  have t2: "kt_step ?s1 ?s2" "ktq_ok ?s2" "queued ?s2 = queued s - {?w}"
    "active_tree ?s2 = remove1 ?w (active_tree s)" "inactive_tree ?s2 = remove1 ?w (inactive_tree s)"
    using t1 by (simp_all add: kt_step_set kt_set_ktq_ok) (simp_all add: ktq_take_def)
  note r = retime_ok [OF kinvD(1,7) [OF k] t2, of False]
  let ?s3 = "ktq_put ?w False ?s2"
  have k3: "kinv0 ?s3" using r(2) by simp
  have wa: "?w \<notin> set (active_tree s)" by (rule kinvD(9) [OF k])
  have a3: "set (active_tree ?s3) = set (active_tree s)" "set (inactive_tree ?s3) = set (inactive_tree s)"
    using r(5,6) wa kinvD(6) [OF k] by auto
  have "no_overdue ?s3"
    by (rule no_overdue_cong [OF n]) (use a3(1) wa in auto)
  from refresh_next_ok [OF k3 this] have "wpo (refresh_next_ktimer ?s3) (refreshed s)"
    using a3 r(3,4) by (elim wpo_mono) (rule refreshed_trans; simp)
  moreover have "program_wait_ktimer s = refresh_next_ktimer ?s3"
    using False ktq_remove_eq [OF kinvD(4,7) [OF k]] r(1) kinvD(8) [OF k]
    by (simp add: program_wait_ktimer_def get_ktimer_def upd_ktimer_eq Let_def ktq_enqueue_inactive_def)
  ultimately show ?thesis
    using refreshed_kinv [OF _ kinvD(6) [OF k]] by (auto elim: wpo_mono)
qed

text \<open>The wait timer is set to the earliest timeout of the wait queue.\<close>

definition wait_armed :: "kstate \<Rightarrow> bool" where
  "wait_armed s \<longleftrightarrow> expire_at (ktimers s (WAIT_KTIMER s)) = wait_deadline s"

lemma kt_step_wait_deadline: "kt_step s s' \<Longrightarrow> wait_deadline s' = wait_deadline s"
  by (simp add: wait_deadline_def Let_def kt_step_simps)

lemma ktq_remove_ktimers: "ktq_remove e s = Some (r, s') \<Longrightarrow> ktimers s' = ktimers s"
  by (auto simp: ktq_remove_def bind_eq_Some_conv split: if_splits)

lemma ktq_insert_ktimers: "ktq_insert e act s = Some s' \<Longrightarrow> k \<noteq> e \<Longrightarrow> ktimers s' k = ktimers s k"
  by (auto simp: ktq_insert_def upd_ktimer_def bind_eq_Some_conv split: if_splits)

lemma release_rt_ktimers:
  assumes "release_rt e check s = Some s'" "k \<noteq> e"
  shows "ktimers s' k = ktimers s k"
proof -
  from assms(1) obtain s1 t f g where "upd_ktimer e f s1 = Some s'" "upd_thread t g s = Some s1"
    by (auto simp: release_rt_def record_rt_deadline_miss_def Let_def bind_eq_Some_conv split: if_splits)
  then show ?thesis using assms(2) by (auto simp: store_defs split: if_splits)
qed

lemma refresh_next_ktimers:
  assumes "refresh_next_ktimer s = Some s'" "k \<noteq> ktq_first_active s"
  shows "ktimers s' k = ktimers s k"
  using assms
  by (auto simp: refresh_next_ktimer_def Let_def bind_eq_Some_conv ktq_enqueue_active_def upd_ktimer_def
      dest!: ktq_remove_ktimers ktq_insert_ktimers [where k = k] release_rt_ktimers [where k = k] split: if_splits)

text \<open>Deadlines that are still ahead are kept, apart from that of the wait timer.\<close>

definition keeps_deadlines :: "kstate \<Rightarrow> kstate \<Rightarrow> bool" where
  "keeps_deadlines s s' \<longleftrightarrow>
     (\<forall>k. k \<noteq> WAIT_KTIMER s \<longrightarrow> now_ticks s < expire_at (ktimers s k) \<longrightarrow>
        expire_at (ktimers s' k) = expire_at (ktimers s k))"

lemma keeps_deadlines_trans:
  "keeps_deadlines s s1 \<Longrightarrow> keeps_deadlines s1 s2 \<Longrightarrow> WAIT_KTIMER s1 = WAIT_KTIMER s \<Longrightarrow> now_ticks s1 = now_ticks s \<Longrightarrow>
   keeps_deadlines s s2"
  by (simp add: keeps_deadlines_def)

lemma refresh_keeps:
  assumes r: "refresh_next_ktimer s = Some s'"
  shows "keeps_deadlines s s'"
  unfolding keeps_deadlines_def
proof (intro allI impI)
  fix k assume k: "now_ticks s < expire_at (ktimers s k)"
  show "expire_at (ktimers s' k) = expire_at (ktimers s k)"
  proof (cases "k = ktq_first_active s")
    case False
    then show ?thesis using refresh_next_ktimers [OF r] by simp
  next
    case True
    then have "s' = s\<lparr>NEXT_KTIMER := k\<rparr>"
      using r k by (simp add: refresh_next_ktimer_def Let_def ktimer_is_expired_at_def not_le split: if_splits)
    then show ?thesis by simp
  qed
qed

lemma program_wait_keeps:
  assumes k: "kinv s" and p: "program_wait_ktimer s = Some s'"
  shows "keeps_deadlines s s'"
proof (cases "expire_at (ktimers s (WAIT_KTIMER s)) = wait_deadline s")
  case True
  then show ?thesis
    using p kinvD(8) [OF k] refresh_keeps by (auto simp: program_wait_ktimer_def Let_def get_ktimer_def)
next
  case False
  let ?w = "WAIT_KTIMER s"
  let ?s1 = "kt_set ?w (expire_at_update (\<lambda>_. wait_deadline s)) (ktq_take ?w s)"
  let ?s2 = "ktq_put ?w False ?s1"
  have ok: "ktq_ok s" by (rule kinvD(4) [OF k])
  have ok1: "ktq_ok ?s1" "?w \<notin> queued ?s1" using ktq_take_ok [OF ok] queued_ktq_take [OF ok] by (simp_all add: kt_set_ktq_ok)
  have "refresh_next_ktimer ?s2 = Some s'"
    using p False kinvD(8) [OF k] ktq_remove_eq [OF ok kinvD(7) [OF k]] ktq_insert_eq [OF ok1(1) kinvD(8) [OF k] ok1(2)]
    by (simp add: program_wait_ktimer_def Let_def get_ktimer_def upd_ktimer_eq ktq_enqueue_inactive_def)
  then have "keeps_deadlines ?s2 s'" by (rule refresh_keeps)
  then show ?thesis by (simp add: keeps_deadlines_def)
qed

lemma program_wait_ktimer_armed:
  assumes k: "kinv s" and n: "no_overdue s" and p: "program_wait_ktimer s = Some s'"
  shows "wait_armed s'"
proof -
  let ?w = "WAIT_KTIMER s"
  have step: "kt_step s s'" using program_wait_ktimer_ok [OF k n] p by (simp add: refreshed_def)
  have w: "?w \<noteq> 0" "?w \<notin> set (active_tree s)" using kinvD [OF k] by auto
  have nf: "ktq_ok u \<Longrightarrow> ?w \<notin> set (active_tree u) \<Longrightarrow> ?w \<noteq> ktq_first_active u" for u
    using ktq_first_active_in [of u] w(1) by metis
  show ?thesis
  proof (cases "expire_at (ktimers s ?w) = wait_deadline s")
    case True
    then have "refresh_next_ktimer s = Some s'"
      using p w by (simp add: program_wait_ktimer_def store_defs Let_def)
    then show ?thesis
      using True refresh_next_ktimers nf [OF kinvD(4) [OF k] w(2)] kt_step_wait_deadline [OF step]
      by (simp add: wait_armed_def kt_step_simps [OF step])
  next
    case False
    let ?s2 = "kt_set ?w (expire_at_update (\<lambda>_. wait_deadline s)) (ktq_take ?w s)"
    have q: "ktq_ok (ktq_take ?w s)" "queued (ktq_take ?w s) = queued s - {?w}"
      using ktq_take_ok queued_ktq_take kinvD(4) [OF k] by blast+
    have ok2: "ktq_ok ?s2" using q by (simp add: kt_set_ktq_ok)
    have nq: "?w \<notin> queued ?s2" using q by simp
    let ?s3 = "ktq_put ?w False ?s2"
    have r: "refresh_next_ktimer ?s3 = Some s'"
      using p False ktq_remove_eq [OF kinvD(4,7) [OF k]] ktq_insert_eq [OF ok2 w(1) nq] w(1)
      by (simp add: program_wait_ktimer_def get_ktimer_def upd_ktimer_eq Let_def ktq_enqueue_inactive_def)
    have "?w \<notin> set (active_tree ?s3)" using w(2) notin_set_remove1 by (auto simp: ktq_put_def kt_set_def ktq_take_def)
    then show ?thesis
      using refresh_next_ktimers [OF r] nf [OF ktq_put_ok [OF ok2 w(1) nq]] kt_step_wait_deadline [OF step]
      by (simp add: wait_armed_def kt_step_simps [OF step])
  qed
qed

section \<open>Blocking and unblocking a thread\<close>

lemma block_thread_simps [simp]:
  "ktimers (block_thread t s) = ktimers s" "queued (block_thread t s) = queued s"
  "active_tree (block_thread t s) = active_tree s" "inactive_tree (block_thread t s) = inactive_tree s"
  "first_active_node (block_thread t s) = first_active_node s" "first_inactive_node (block_thread t s) = first_inactive_node s"
  "CFS_KTIMER (block_thread t s) = CFS_KTIMER s" "WAIT_KTIMER (block_thread t s) = WAIT_KTIMER s"
  "run_tree (block_thread t s) = run_tree s" "now_ticks (block_thread t s) = now_ticks s"
  "priority_sum (block_thread t s) = priority_sum s" "NEXT_KTIMER (block_thread t s) = NEXT_KTIMER s"
  "kind (threads (block_thread t s) u) = kind (threads s u)"
  "ktimer_entity (threads (block_thread t s) u) = ktimer_entity (threads s u)"
  "sched_entity (threads (block_thread t s) u) = sched_entity (threads s u)"
  "sync_entity (threads (block_thread t s) u) = sync_entity (threads s u)"
  "wait_entity (threads (block_thread t s) u) = wait_entity (threads s u)"
  "runtime (threads (block_thread t s) u) = runtime (threads s u)"
  "u \<noteq> t \<Longrightarrow> threads (block_thread t s) u = threads s u"
  "CURRENT_THREAD_CTX (block_thread t s) = CURRENT_THREAD_CTX s"
  "CURRENT_THREAD_IS_CFS (block_thread t s) = CURRENT_THREAD_IS_CFS s" "IDLE_THREAD_CTX (block_thread t s) = IDLE_THREAD_CTX s"
  "suspended (block_thread t s) = (if waits_forever s t then suspended s @ [t] else suspended s)"
  by (auto simp: block_thread_def queued_def)

lemma block_thread_state: "is_blocked (state (threads (block_thread t s) t))"
  by (simp add: block_thread_def is_blocked_def)

lemma block_thread_no_overdue: "no_overdue s \<Longrightarrow> no_overdue (block_thread t s)"
  by (rule no_overdue_cong) auto

lemma block_thread_kinv:
  assumes k: "kinv s" and t: "t \<noteq> 0" "kind (threads s t) \<noteq> Idle" "t \<notin> waiting s" "t \<notin> set (run_tree s)" "waiter_ok s t"
    and q: "kind (threads s t) = Rt \<longrightarrow> ktimer_entity (threads s t) \<notin> queued s"
  shows "kinv (block_thread t s)"
proof -
  let ?s = "block_thread t s"
  have "wq_ok ?s" by (rule block_thread_wq_ok [OF kinvD(2) [OF k] t(1-3)])
  moreover have "rq_ok ?s"
    by (rule rq_ok_frame [OF kinvD(3) [OF k]]) (use t(4) in \<open>auto simp: block_thread_def\<close>)
  moreover have "ktq_ok ?s" by (rule ktq_ok_frame [OF kinvD(4) [OF k]]) auto
  moreover have "links ?s"
  proof -
    have "thread_ctx (ktimers s k) \<noteq> t" if "k \<in> queued s" "rt_linked s k" for k
      using that q by (auto simp: rt_linked_def)
    then show ?thesis
      using kinvD(5) [OF k] t(5)
      by (auto simp: links_def timer_ok_def waiter_ok_def rt_linked_def)
  qed
  ultimately show ?thesis using kinvD(6) [OF k] by (simp add: kinv_def kinv0_def)
qed

definition make_ready :: "addr \<Rightarrow> kstate \<Rightarrow> kstate" where
  "make_ready t s = s\<lparr>threads := (threads s)(t := (threads s t)\<lparr>state := Ready\<rparr>)\<rparr>"

lemma set_state_Ready: "t \<noteq> 0 \<Longrightarrow> set_state t Ready s = Some (make_ready t s)"
  by (simp add: set_state_def store_defs require_def make_ready_def)

definition woken :: "addr \<Rightarrow> kstate \<Rightarrow> kstate" where
  "woken t s = record_wakeup t (make_ready t (unblock_thread t s))"

lemma woken_simps [simp]:
  "ktimers (woken t s) = ktimers s" "queued (woken t s) = queued s"
  "active_tree (woken t s) = active_tree s" "inactive_tree (woken t s) = inactive_tree s"
  "first_active_node (woken t s) = first_active_node s" "first_inactive_node (woken t s) = first_inactive_node s"
  "CFS_KTIMER (woken t s) = CFS_KTIMER s" "WAIT_KTIMER (woken t s) = WAIT_KTIMER s"
  "run_tree (woken t s) = run_tree s" "now_ticks (woken t s) = now_ticks s"
  "priority_sum (woken t s) = priority_sum s" "NEXT_KTIMER (woken t s) = NEXT_KTIMER s"
  "kind (threads (woken t s) u) = kind (threads s u)"
  "ktimer_entity (threads (woken t s) u) = ktimer_entity (threads s u)"
  "sched_entity (threads (woken t s) u) = sched_entity (threads s u)"
  "wait_entity (threads (woken t s) u) = wait_entity (threads s u)"
  "runtime (threads (woken t s) u) = runtime (threads s u)"
  "state (threads (woken t s) t) = Ready"
  "u \<noteq> t \<Longrightarrow> threads (woken t s) u = threads s u"
  "wait_tree (woken t s) = remove1 t (wait_tree s)"
  "suspended (woken t s) = remove1 t (suspended s)"
  "sync_entity (threads (woken t s) u) = sync_entity (threads s u)"
  "CURRENT_THREAD_CTX (woken t s) = CURRENT_THREAD_CTX s"
  "CURRENT_THREAD_IS_CFS (woken t s) = CURRENT_THREAD_IS_CFS s" "IDLE_THREAD_CTX (woken t s) = IDLE_THREAD_CTX s"
  by (auto simp: woken_def make_ready_def unblock_thread_def queued_def)

lemma waiting_woken: "wq_ok s \<Longrightarrow> waiting (woken t s) = waiting s - {t}"
  using waiting_unblock_thread [of s t] by (simp add: waiting_def unblock_thread_def)

lemma waiting_not_running: "kinv0 s \<Longrightarrow> t \<in> waiting s \<Longrightarrow> t \<notin> set (run_tree s)"
  using wq_ok_blocked [of s t] by (auto simp: kinv0_def rq_ok_def is_blocked_def)

lemma woken_links [simp]:
  "rt_linked (woken t s) k = rt_linked s k" "waiter_ok (woken t s) u = waiter_ok s u"
  by (simp_all add: rt_linked_def waiter_ok_def)

lemma woken_timer_ok: "wq_ok s \<Longrightarrow> timer_ok s k \<Longrightarrow> timer_ok (woken t s) k"
  by (auto simp: timer_ok_def waiting_woken)

lemma woken_kinv0:
  assumes k: "kinv0 s" and t: "t \<in> waiting s"
  shows "kinv0 (woken t s)"
proof -
  have ok: "wq_ok s" "rq_ok s" "ktq_ok s" "links s" using k by (auto simp: kinv0_def)
  have "wq_ok (woken t s)"
    by (rule wq_ok_frame [OF unblock_thread_wq_ok [OF ok(1), of t]])
      (use waiting_unblock_thread [OF ok(1), of t] in \<open>auto simp: unblock_thread_def\<close>)
  moreover have "rq_ok (woken t s)"
    by (rule rq_ok_frame [OF ok(2)]) (use waiting_not_running [OF k t] in \<open>auto simp: woken_def make_ready_def unblock_thread_def\<close>)
  moreover have "ktq_ok (woken t s)" by (rule ktq_ok_frame [OF ok(3)]) auto
  moreover have "links (woken t s)"
    using ok(4) woken_timer_ok [OF ok(1)] by (simp add: links_def waiting_woken [OF ok(1)])
  ultimately show ?thesis by (simp add: kinv0_def)
qed

end
