(* ===== verification/KMoves.thy ===== *)
theory KMoves
  imports KInv
begin

text \<open>
  Moves between the queues: a timer enters or leaves the timer queue, a real-time thread goes to
  the wait queue and comes back, and all threads whose timeout has passed are woken. Each move
  completes on a state that satisfies the invariant and keeps it.
\<close>

section \<open>Entering and leaving the timer queue\<close>

lemma ktq_put_kinv0:
  assumes k: "kinv0 s" and e: "timer_ok s e" "e \<noteq> 0" "e \<notin> queued s" "e \<noteq> WAIT_KTIMER s"
  shows "kinv0 (ktq_put e act s)"
proof -
  have ok: "ktq_ok s" "links s" using k by (auto simp: kinv0_def)
  show ?thesis
    by (rule kt_step_kinv0 [OF kt_step_put k ktq_put_ok [OF ok(1) e(2,3)]])
      (use ok(2) e in \<open>auto simp: links_def\<close>, auto simp: ktq_put_def links_def split: if_splits)
qed

lemma active_ktq_put: "set (active_tree (ktq_put e True s)) = insert e (set (active_tree s))"
  "inactive_tree (ktq_put e True s) = inactive_tree s"
  by (simp_all add: ktq_put_def)

lemma no_overdue_put:
  assumes "no_overdue s" "e \<noteq> CFS_KTIMER s \<longrightarrow> expire_at (ktimers s e) \<le> now_ticks s \<longrightarrow> \<not> missed s e"
  shows "no_overdue (ktq_put e True s)"
  using assms by (auto simp: no_overdue_def missed_def active_ktq_put)

definition entered :: "addr \<Rightarrow> kstate \<Rightarrow> kstate \<Rightarrow> bool" where
  "entered e s s' \<longleftrightarrow>
     kinv0 s' \<and> no_overdue s' \<and> kt_step s s' \<and> queued s' = insert e (queued s)
     \<and> set (active_tree s') = insert e (set (active_tree s)) \<and> set (inactive_tree s') = set (inactive_tree s)
     \<and> now_ticks s' = now_ticks s \<and> NEXT_KTIMER s' = ktq_first_active s'"

lemma put_refresh_ok:
  assumes k: "kinv0 s" and e: "timer_ok s e" "e \<noteq> 0" "e \<notin> queued s" "e \<noteq> WAIT_KTIMER s"
    and n: "no_overdue s" "e \<noteq> CFS_KTIMER s \<longrightarrow> expire_at (ktimers s e) \<le> now_ticks s \<longrightarrow> \<not> missed s e"
  shows "wpo (ktq_enqueue_active e s \<bind> refresh_next_ktimer) (entered e s)"
proof -
  have "ktq_ok s" using k by (simp add: kinv0_def)
  then have eq: "ktq_enqueue_active e s = Some (ktq_put e True s)"
    using e by (simp add: ktq_enqueue_active_def ktq_insert_eq)
  have "wpo (refresh_next_ktimer (ktq_put e True s)) (refreshed (ktq_put e True s))"
    by (rule refresh_next_ok [OF ktq_put_kinv0 [OF k e] no_overdue_put [OF n]])
  then show ?thesis
    unfolding eq by (auto elim!: wpo_mono simp: refreshed_def entered_def active_ktq_put
        intro: kt_step_trans [OF kt_step_put])
qed

lemma enqueue_ktimer_ok:
  assumes "kinv0 s" "timer_ok s e" "e \<noteq> 0" "e \<notin> queued s" "e \<noteq> WAIT_KTIMER s"
    "no_overdue s" "e \<noteq> CFS_KTIMER s \<longrightarrow> expire_at (ktimers s e) \<le> now_ticks s \<longrightarrow> \<not> missed s e"
  shows "wpo (enqueue_ktimer e s) (entered e s)" "wpo (reinsert_ktimer e s) (entered e s)"
  using put_refresh_ok [OF assms] assms
  by (simp_all add: enqueue_ktimer_def reinsert_ktimer_def ktq_contains_queued)

definition left_queue :: "addr \<Rightarrow> kstate \<Rightarrow> kstate \<Rightarrow> bool" where
  "left_queue e s s' \<longleftrightarrow>
     kinv s' \<and> no_overdue s' \<and> kt_step s s' \<and> queued s' = queued s - {e} \<and> set (active_tree s') = set (active_tree s) - {e}
     \<and> now_ticks s' = now_ticks s"

lemma ktq_take_no_overdue: "ktq_ok s \<Longrightarrow> no_overdue s \<Longrightarrow> no_overdue (ktq_take e s)"
  by (rule no_overdue_cong) (use ktq_ok_distinct [of s] in \<open>auto simp: ktq_take_def\<close>)

lemma remove_ktimer_ok:
  assumes k: "kinv s" and n: "no_overdue s" and e: "e \<in> queued s" "e \<noteq> WAIT_KTIMER s"
  shows "wpo (remove_ktimer e s) (\<lambda>(r, s'). r = e \<and> left_queue e s s'
    \<and> (NEXT_KTIMER s = e \<longrightarrow> NEXT_KTIMER s' = ktq_first_active s'))"
proof -
  let ?s1 = "ktq_take e s"
  let ?s2 = "kt_set e (active_update (\<lambda>_. False)) ?s1"
  have ok: "ktq_ok s" "e \<noteq> 0" using kinvD(4) [OF k] ktq_ok_nonzero e by auto
  have q1: "queued ?s1 = queued s - {e}" "ktq_ok ?s1" using queued_ktq_take ktq_take_ok ok by blast+
  have d: "set (active_tree ?s1) = set (active_tree s) - {e}" "set (inactive_tree ?s1) = set (inactive_tree s) - {e}"
    using ktq_ok_distinct [OF ok(1)] by (simp_all add: ktq_take_def)
  have step: "kt_step s ?s2" by (rule kt_step_trans [OF kt_step_take kt_step_set]) simp
  have ok2: "ktq_ok ?s2" using q1 by (simp add: kt_set_ktq_ok)
  have k2: "kinv0 ?s2"
    by (rule kt_step_kinv0 [OF step kinvD(1) [OF k] ok2]) (use kinvD(5) [OF k] q1 d in \<open>auto simp: links_def\<close>)
  have n2: "no_overdue ?s2"
    by (rule no_overdue_cong [OF ktq_take_no_overdue [OF ok(1) n]]) (use d in auto)
  have kinv2: "kinv ?s2" using k2 kinvD(6) [OF k] d e(2) by (simp add: kinv_def)
  have l2: "left_queue e s ?s2" using kinv2 n2 step q1 d by (simp add: left_queue_def)
  have eq: "ktq_dequeue e s = Some (e, ?s2)"
    using ktq_remove_eq [OF ok(1) e(1)] ok(2) by (simp add: ktq_dequeue_def upd_ktimer_eq)
  have "wpo (refresh_next_ktimer ?s2) (\<lambda>s'. left_queue e s s' \<and> NEXT_KTIMER s' = ktq_first_active s')"
    by (rule wpo_mono [OF refresh_next_ok [OF k2 n2]])
      (use refreshed_kinv [of ?s2] kinvD(6) [OF kinv2] l2 kt_step_trans [OF step] in
        \<open>auto simp: left_queue_def refreshed_def kt_step_simps\<close>)
  then show ?thesis
    using eq ok(2) l2 by (auto simp: remove_ktimer_def elim: wpo_mono)
qed

section \<open>A real-time thread blocks\<close>

definition runnable_rt :: "kstate \<Rightarrow> addr \<Rightarrow> bool" where
  "runnable_rt s t \<longleftrightarrow>
     t \<noteq> 0 \<and> kind (threads s t) = Rt \<and> \<not> is_blocked (state (threads s t))
     \<and> ktimer_entity (threads s t) \<in> queued s \<and> rt_linked s (ktimer_entity (threads s t))
     \<and> thread_ctx (ktimers s (ktimer_entity (threads s t))) = t"

lemma runnable_not_waiting: "wq_ok s \<Longrightarrow> \<not> is_blocked (state (threads s t)) \<Longrightarrow> t \<notin> waiting s"
  using wq_ok_blocked by blast

definition blocked :: "addr \<Rightarrow> kstate \<Rightarrow> kstate \<Rightarrow> bool" where
  "blocked t s s' \<longleftrightarrow>
     kinv s' \<and> no_overdue s' \<and> waiting s' = insert t (waiting s) \<and> is_blocked (state (threads s' t))
     \<and> NEXT_KTIMER s' = ktq_first_active s' \<and> now_ticks s' = now_ticks s
     \<and> (\<forall>u. u \<noteq> t \<longrightarrow> state (threads s' u) = state (threads s u))
     \<and> (\<forall>u. kind (threads s' u) = kind (threads s u))
     \<and> (\<forall>u. wait_entity (threads s' u) = wait_entity (threads s u))
     \<and> (\<forall>u. sync_entity (threads s' u) = sync_entity (threads s u))
     \<and> suspended s' = (if waits_forever s t then suspended s @ [t] else suspended s)
     \<and> CURRENT_THREAD_CTX s' = CURRENT_THREAD_CTX s \<and> CURRENT_THREAD_IS_CFS s' = CURRENT_THREAD_IS_CFS s
     \<and> IDLE_THREAD_CTX s' = IDLE_THREAD_CTX s
     \<and> (\<forall>u. priority (sched_entity (threads s' u)) = priority (sched_entity (threads s u)))"

lemma dequeue_ktimerq_split:
  assumes k: "kinv s" and n: "no_overdue s" and t: "runnable_rt s t"
  obtains s1 where "remove_ktimer (ktimer_entity (threads s t)) s = Some (ktimer_entity (threads s t), s1)"
    "left_queue (ktimer_entity (threads s t)) s s1" "kinv (block_thread t s1)" "no_overdue (block_thread t s1)"
    "dequeue_ktimerq_to_waitq t s = program_wait_ktimer (block_thread t s1) \<bind> (\<lambda>s. Some (Inr (), s))"
proof -
  let ?e = "ktimer_entity (threads s t)"
  note tt = t [unfolded runnable_rt_def]
  have e: "?e \<noteq> WAIT_KTIMER s" "?e \<noteq> 0" "?e \<noteq> CFS_KTIMER s" using tt rt_linkedD [of s ?e] by auto
  obtain s1 where s1: "remove_ktimer ?e s = Some (?e, s1)" "left_queue ?e s s1"
    using remove_ktimer_ok [OF k n _ e(1)] tt by (auto simp: wpo_def)
  note l = s1(2) [unfolded left_queue_def]
  have step: "kt_step s s1" and k1: "kinv s1" using l by auto
  have t1: "t \<noteq> 0" "kind (threads s1 t) = Rt" "\<not> is_blocked (state (threads s1 t))" "ktimer_entity (threads s1 t) = ?e"
    using tt by (simp_all add: kt_step_simps [OF step])
  have nw: "t \<notin> waiting s1" using runnable_not_waiting [OF kinvD(2) [OF k1] t1(3)] .
  have nr: "t \<notin> set (run_tree s1)" using kinvD(3) [OF k1] t1(2) by (auto simp: rq_ok_def)
  have w1: "waiter_ok s1 t" using tt by (simp add: waiter_ok_def kt_step_simps [OF step] kt_step_rt_linked [OF step])
  have kb: "kinv (block_thread t s1)"
    by (rule block_thread_kinv [OF k1 t1(1) _ nw nr w1]) (use t1 l in auto)
  have nb: "no_overdue (block_thread t s1)" using l block_thread_no_overdue by blast
  have "dequeue_ktimerq_to_waitq t s = program_wait_ktimer (block_thread t s1) \<bind> (\<lambda>s. Some (Inr (), s))"
    using tt e s1(1) insert_wait_thread_eq [OF t1(1) _ nw t1(3)] t1(2) by (simp add: dequeue_ktimerq_to_waitq_def store_defs)
  then show ?thesis using that s1 kb nb by blast
qed

lemma dequeue_ktimerq_to_waitq_ok:
  assumes k: "kinv s" and n: "no_overdue s" and t: "runnable_rt s t"
  shows "wpo (dequeue_ktimerq_to_waitq t s) (\<lambda>(r, s'). r = Inr () \<and> blocked t s s'
    \<and> wait_armed s' \<and> queued s' = queued s - {ktimer_entity (threads s t)} \<and> run_tree s' = run_tree s)"
proof -
  obtain s1 where s1: "left_queue (ktimer_entity (threads s t)) s s1" "kinv (block_thread t s1)" "no_overdue (block_thread t s1)"
    "dequeue_ktimerq_to_waitq t s = program_wait_ktimer (block_thread t s1) \<bind> (\<lambda>s. Some (Inr (), s))"
    using dequeue_ktimerq_split [OF assms] .
  note l = s1(1) [unfolded left_queue_def]
  have step: "kt_step s s1" using l by auto
  from program_wait_ktimer_ok [OF s1(2,3)] obtain s2 where
    s2: "program_wait_ktimer (block_thread t s1) = Some s2" "kinv s2" "refreshed (block_thread t s1) s2"
    by (auto simp: wpo_def)
  note f = s2(3) [unfolded refreshed_def]
  have step2: "kt_step (block_thread t s1) s2" using f by simp
  have "waits_forever s1 t = waits_forever s t" by (simp add: waits_forever_def kt_step_simps [OF step])
  then have "blocked t s s2"
    using s2(2) f l block_thread_state [of t s1]
    by (simp add: blocked_def kt_step_simps [OF step2] kt_step_simps [OF step] kt_step_waiting [OF step2]
        kt_step_waiting [OF step])
  then show ?thesis
    using s1(4) s2(1) f l program_wait_ktimer_armed [OF s1(2,3) s2(1)]
    by (simp add: kt_step_simps [OF step2] kt_step_simps [OF step])
qed

section \<open>A real-time thread is woken\<close>

definition unblocked :: "addr \<Rightarrow> kstate \<Rightarrow> kstate \<Rightarrow> bool" where
  "unblocked t s s' \<longleftrightarrow>
     kinv s' \<and> no_overdue s' \<and> waiting s' = waiting s - {t} \<and> state (threads s' t) = Ready
     \<and> NEXT_KTIMER s' = ktq_first_active s' \<and> now_ticks s' = now_ticks s
     \<and> (\<forall>u. u \<noteq> t \<longrightarrow> state (threads s' u) = state (threads s u))
     \<and> (\<forall>u. kind (threads s' u) = kind (threads s u))
     \<and> (\<forall>u. sync_entity (threads s' u) = sync_entity (threads s u))
     \<and> suspended s' = remove1 t (suspended s) \<and> CURRENT_THREAD_CTX s' = CURRENT_THREAD_CTX s
     \<and> CURRENT_THREAD_IS_CFS s' = CURRENT_THREAD_IS_CFS s
     \<and> (\<forall>u. ktimer_entity (threads s' u) = ktimer_entity (threads s u))
     \<and> CFS_KTIMER s' = CFS_KTIMER s \<and> WAIT_KTIMER s' = WAIT_KTIMER s \<and> IDLE_THREAD_CTX s' = IDLE_THREAD_CTX s
     \<and> (\<forall>u. priority (sched_entity (threads s' u)) = priority (sched_entity (threads s u)))"

lemma woken_no_overdue: "no_overdue s \<Longrightarrow> no_overdue (woken t s)"
  by (rule no_overdue_cong) auto

lemma woken_missed [simp]: "missed (woken t s) e = missed s e"
  by (simp add: missed_def)

lemma waiting_rt_timer:
  assumes "kinv0 s" "t \<in> waiting s" "kind (threads s t) = Rt"
  shows "rt_linked s (ktimer_entity (threads s t))" "thread_ctx (ktimers s (ktimer_entity (threads s t))) = t"
    "ktimer_entity (threads s t) \<notin> queued s" "timer_ok (woken t s) (ktimer_entity (threads s t))"
    "ktimer_entity (threads s t) \<noteq> 0" "ktimer_entity (threads s t) \<noteq> WAIT_KTIMER s"
    "ktimer_entity (threads s t) \<noteq> CFS_KTIMER s"
proof -
  have ok: "wq_ok s" "links s" using assms(1) by (auto simp: kinv0_def)
  show a: "rt_linked s (ktimer_entity (threads s t))" "thread_ctx (ktimers s (ktimer_entity (threads s t))) = t"
    using ok(2) assms(2,3) by (auto simp: links_def waiter_ok_def)
  show "ktimer_entity (threads s t) \<notin> queued s" by (rule waiter_timer_not_queued [OF ok(2) assms(2,3)])
  show "timer_ok (woken t s) (ktimer_entity (threads s t))"
    using a by (simp add: timer_ok_def waiting_woken [OF ok(1)])
  show "ktimer_entity (threads s t) \<noteq> 0" "ktimer_entity (threads s t) \<noteq> WAIT_KTIMER s"
    "ktimer_entity (threads s t) \<noteq> CFS_KTIMER s" using rt_linkedD [OF a(1)] by auto
qed

lemma enqueue_ktimerq_from_waitq_ok:
  assumes k: "kinv s" and n: "no_overdue s" and t: "t \<in> waiting s" "kind (threads s t) = Rt"
    and m: "expire_at (ktimers s (ktimer_entity (threads s t))) \<le> now_ticks s \<longrightarrow> \<not> missed s (ktimer_entity (threads s t))"
  shows "wpo (enqueue_ktimerq_from_waitq t s) (\<lambda>(r, s'). r = Inr () \<and> unblocked t s s'
    \<and> queued s' = insert (ktimer_entity (threads s t)) (queued s)
    \<and> set (active_tree s') = insert (ktimer_entity (threads s t)) (set (active_tree s)) \<and> run_tree s' = run_tree s
    \<and> wait_armed s' \<and> keeps_deadlines s s')"
proof -
  let ?e = "ktimer_entity (threads s t)" and ?s1 = "woken t s"
  note e = waiting_rt_timer [OF kinvD(1) [OF k] t]
  have t0: "t \<noteq> 0" using wq_ok_blocked [OF kinvD(2) [OF k] t(1)] by simp
  have k1: "kinv0 ?s1" by (rule woken_kinv0 [OF kinvD(1) [OF k] t(1)])
  have "wpo (reinsert_ktimer ?e ?s1) (entered ?e ?s1)"
    by (rule enqueue_ktimer_ok(2) [OF k1 e(4,5) _ _ woken_no_overdue [OF n]]) (use e m in auto)
  then obtain s2 where s2: "reinsert_ktimer ?e ?s1 = Some s2" "entered ?e ?s1 s2" by (auto simp: wpo_def)
  note f = s2(2) [unfolded entered_def]
  have step: "kt_step ?s1 s2" using f by simp
  have k2: "kinv s2" using f kinvD(6) [OF k] by (simp add: kinv_def kt_step_simps [OF step])
  have n2: "no_overdue s2" using f by simp
  from program_wait_ktimer_ok [OF k2 n2] obtain s3 where
    s3: "program_wait_ktimer s2 = Some s3" "kinv s3" "refreshed s2 s3" by (auto simp: wpo_def)
  note g = s3(3) [unfolded refreshed_def]
  have step3: "kt_step s2 s3" using g by simp
  have "keeps_deadlines s2 s3" by (rule program_wait_keeps [OF k2 s3(1)])
  moreover have "keeps_deadlines ?s1 s2"
  proof -
    have ok1: "ktq_ok ?s1" using k1 by (simp add: kinv0_def)
    have "refresh_next_ktimer (ktq_put ?e True ?s1) = Some s2"
      using s2(1) e ktq_insert_eq [OF ok1 e(5)] by (simp add: reinsert_ktimer_def ktq_enqueue_active_def bind_eq_Some_conv)
    from refresh_keeps [OF this] show ?thesis by (auto simp: keeps_deadlines_def split: if_splits)
  qed
  ultimately have kd: "keeps_deadlines s s3"
    using f by (simp add: keeps_deadlines_def kt_step_simps [OF step])
  have eq: "enqueue_ktimerq_from_waitq t s = Some (Inr (), s3)"
    using t t0 e(5) remove_wait_thread_eq [OF kinvD(2) [OF k] t(1)] s2(1) s3(1)
    by (simp add: enqueue_ktimerq_from_waitq_def store_defs set_state_Ready woken_def)
  have "unblocked t s s3"
    using s3(2) g f
    by (simp add: unblocked_def kt_step_simps [OF step3] kt_step_simps [OF step] kt_step_waiting [OF step3]
        kt_step_waiting [OF step] waiting_woken [OF kinvD(2) [OF k]])
  then show ?thesis
    using eq kd g f program_wait_ktimer_armed [OF k2 n2 s3(1)] by (simp add: kt_step_simps [OF step3] kt_step_simps [OF step])
qed

section \<open>Waking every thread whose timeout has passed\<close>

text \<open>The budget check changes at most the miss count.\<close>

lemma record_rt_budget_overrun_eq:
  assumes "rt_linked s e"
  shows "record_rt_budget_overrun e (thread_ctx (ktimers s e)) s =
    Some (if runtime (threads s (thread_ctx (ktimers s e))) > budget_ticks (timing (ktimers s e))
          then kt_set e (miss_cnt_update (\<lambda>c. saturating_add c 1)) s else s)"
  using rt_linkedD [OF assms] by (simp add: record_rt_budget_overrun_def store_defs kt_set_def)

lemma wake_rt_ok:
  assumes k: "kinv0 s" and e: "timer_ok s e" "e \<notin> queued s" "e \<noteq> WAIT_KTIMER s" "e \<noteq> CFS_KTIMER s"
    and t: "ktimer_entity (threads s t) = e" "thread_ctx (ktimers s e) = t"
  shows "wpo (wake_rt t elapsed s) (\<lambda>s'. kinv0 s' \<and> kt_step s s' \<and> queued s' = insert e (queued s)
    \<and> set (active_tree s') = insert e (set (active_tree s)) \<and> inactive_tree s' = inactive_tree s
    \<and> now_ticks s' = now_ticks s
    \<and> runtime (threads s' t) = saturating_add (runtime (threads s t)) elapsed
    \<and> expire_at (ktimers s' e) = saturating_add (now_ticks s)
        (u64_of (saturating_sub (relative_deadline_ticks (timing (ktimers s e))) (saturating_add (runtime (threads s t)) elapsed)))
    \<and> (\<forall>k. k \<noteq> e \<longrightarrow> ktimers s' k = ktimers s k) \<and> (\<forall>u. u \<noteq> t \<longrightarrow> threads s' u = threads s u))"
proof -
  have l: "rt_linked s e" using e by (simp add: timer_ok_def)
  let ?r = "saturating_add (runtime (threads s t)) elapsed"
  let ?s1 = "set_runtime t ?r s"
  define s2 where "s2 = (if ?r > budget_ticks (timing (ktimers s e))
    then kt_set e (miss_cnt_update (\<lambda>c. saturating_add c 1)) ?s1 else ?s1)"
  have step1: "kt_step s ?s1" by (rule kt_step_runtime)
  have step2: "kt_step s s2"
    unfolding s2_def using step1 kt_step_trans [OF step1 kt_step_set [of "miss_cnt_update (\<lambda>c. saturating_add c 1)"]]
    by simp
  have l1: "rt_linked ?s1 e" using l by (simp add: kt_step_rt_linked [OF step1])
  have b: "record_rt_budget_overrun e t ?s1 = Some s2"
    using record_rt_budget_overrun_eq [OF l1] t(2) by (simp add: s2_def)
  have q2: "queued s2 = queued s" "active_tree s2 = active_tree s" "inactive_tree s2 = inactive_tree s"
    "now_ticks s2 = now_ticks s" "runtime (threads s2 t) = ?r"
    by (auto simp: s2_def)
  have ok: "ktq_ok s" using k by (simp add: kinv0_def)
  have ok2: "ktq_ok s2" using ok e(2) set_runtime_ktq_ok [of s t ?r] by (simp add: s2_def kt_set_ktq_ok)
  let ?s3 = "kt_set e (set_expire_after (now_ticks s) (saturating_sub (relative_deadline_ticks (timing (ktimers s e))) ?r)) s2"
  have step3: "kt_step s ?s3" by (rule kt_step_trans [OF step2 kt_step_set]) simp
  have ok3: "ktq_ok ?s3" using ok2 e(2) q2 by (simp add: kt_set_ktq_ok)
  have k3: "kinv0 ?s3"
    by (rule kt_step_kinv0 [OF step3 k ok3]) (use k q2 in \<open>auto simp: kinv0_def links_def\<close>)
  have e3: "timer_ok ?s3 e" using e(1) by (simp add: kt_step_timer_ok [OF step3])
  have e0: "e \<noteq> 0" using rt_linkedD [OF l] by simp
  have "wake_rt t elapsed s = ktq_enqueue_active e ?s3"
  proof -
    have th: "rt_thread t s = Some (threads s t)" "t \<noteq> 0" using rt_linkedD [OF l] t(2) by auto
    have th2: "rt_thread t s2 = Some (threads s2 t)"
      using th by (simp add: rt_thread_def store_defs require_def kt_step_simps [OF step2] split: if_splits)
    have u: "upd_thread t (runtime_update (\<lambda>r. saturating_add r elapsed)) s = Some ?s1"
      using th by (cases "threads s t") (simp add: upd_thread_def set_runtime_def)
    show ?thesis
      using th th2 u b t(1) q2 e0 kt_step_ktimers [OF step2, of e]
      by (simp add: wake_rt_def get_ktimer_def upd_ktimer_eq Let_def)
  qed
  also have "\<dots> = Some (ktq_put e True ?s3)"
    using ktq_insert_eq [OF ok3 e0] e(2) q2 by (simp add: ktq_enqueue_active_def)
  finally have eq: "wake_rt t elapsed s = Some (ktq_put e True ?s3)" .
  have other: "k \<noteq> e \<Longrightarrow> ktimers s2 k = ktimers s k" "u \<noteq> t \<Longrightarrow> threads s2 u = threads s u" for k u
    by (simp_all add: s2_def)
  have "kinv0 (ktq_put e True ?s3)"
    by (rule ktq_put_kinv0 [OF k3 e3 e0]) (use e(2,3) q2 step2 in \<open>auto simp: kt_step_simps\<close>)
  then show ?thesis
    using eq kt_step_trans [OF step3 kt_step_put] q2 other by (simp add: active_ktq_put set_expire_after_def)
qed

end
