(* ===== verification/Wake.thy ===== *)
theory Wake
  imports KMoves
begin

text \<open>
  Waking every thread whose timeout has passed (\<open>wake_wait_thread\<close> in \<^verbatim>\<open>src/ktimer.rs\<close>). The loop
  ends, keeps the invariant and moves exactly the threads with \<open>wake_at \<le> now\<close>: CFS threads to
  the run queue, timers of real-time threads to the active tree. \<open>headroom\<close> is the condition
  under which the 64-bit runtime arithmetic of the run queue does not overflow.
\<close>

section \<open>What no queue operation changes\<close>

definition same_ids :: "kstate \<Rightarrow> kstate \<Rightarrow> bool" where
  "same_ids s s' \<longleftrightarrow>
     (\<forall>u. kind (threads s' u) = kind (threads s u) \<and> ktimer_entity (threads s' u) = ktimer_entity (threads s u)
        \<and> wait_entity (threads s' u) = wait_entity (threads s u) \<and> sync_entity (threads s' u) = sync_entity (threads s u)
        \<and> priority (sched_entity (threads s' u)) = priority (sched_entity (threads s u)))
     \<and> (\<forall>k. timing (ktimers s' k) = timing (ktimers s k) \<and> thread_ctx (ktimers s' k) = thread_ctx (ktimers s k))
     \<and> CFS_KTIMER s' = CFS_KTIMER s \<and> WAIT_KTIMER s' = WAIT_KTIMER s
     \<and> CURRENT_THREAD_CTX s' = CURRENT_THREAD_CTX s \<and> CURRENT_THREAD_IS_CFS s' = CURRENT_THREAD_IS_CFS s
     \<and> IDLE_THREAD_CTX s' = IDLE_THREAD_CTX s \<and> timer_reload s' = timer_reload s \<and> timer_current s' = timer_current s"

lemma same_ids_refl [simp]: "same_ids s s"
  by (simp add: same_ids_def)

lemma same_ids_trans: "same_ids s s1 \<Longrightarrow> same_ids s1 s2 \<Longrightarrow> same_ids s s2"
  by (simp add: same_ids_def)

lemma same_idsD:
  assumes "same_ids s s'"
  shows "kind (threads s' u) = kind (threads s u)" "ktimer_entity (threads s' u) = ktimer_entity (threads s u)"
    "wait_entity (threads s' u) = wait_entity (threads s u)" "sync_entity (threads s' u) = sync_entity (threads s u)"
    "priority (sched_entity (threads s' u)) = priority (sched_entity (threads s u))"
    "timing (ktimers s' k) = timing (ktimers s k)" "thread_ctx (ktimers s' k) = thread_ctx (ktimers s k)"
    "CFS_KTIMER s' = CFS_KTIMER s" "WAIT_KTIMER s' = WAIT_KTIMER s"
    "CURRENT_THREAD_CTX s' = CURRENT_THREAD_CTX s" "CURRENT_THREAD_IS_CFS s' = CURRENT_THREAD_IS_CFS s"
    "IDLE_THREAD_CTX s' = IDLE_THREAD_CTX s" "timer_reload s' = timer_reload s" "timer_current s' = timer_current s"
  using assms by (simp_all add: same_ids_def)

lemma kt_step_same_ids: "kt_step s s' \<Longrightarrow> same_ids s s'"
  by (simp add: same_ids_def kt_step_simps)

lemma joined_same_ids:
  assumes "joined t s s'"
  shows "same_ids s s'"
proof -
  have "rq_step s s'" using assms by (simp add: joined_def)
  then show ?thesis
    using assms by (simp add: same_ids_def joined_def rq_step_thread [of s s'] rq_step_queues [of s s'])
qed

lemma woken_same_ids: "same_ids s (woken t s)"
  by (auto simp: same_ids_def) (simp_all add: woken_def make_ready_def unblock_thread_def)

lemma same_ids_links:
  assumes "same_ids s s'"
  shows "rt_linked s' k = rt_linked s k" "waiter_ok s' u = waiter_ok s u"
  by (simp_all add: rt_linked_def waiter_ok_def same_idsD [OF assms])

section \<open>Headroom of the runtime arithmetic\<close>

definition blocked_cfs :: "kstate \<Rightarrow> addr set" where
  "blocked_cfs s = {t \<in> waiting s. kind (threads s t) = Cfs}"

definition all_prio :: "kstate \<Rightarrow> nat" where
  "all_prio s = unat (priority_sum s) + (\<Sum>t \<in> blocked_cfs s. unat (priority (sched_entity (threads s t))))"

definition headroom :: "kstate \<Rightarrow> bool" where
  "headroom s \<longleftrightarrow>
     all_prio s < 2 ^ 32
     \<and> (\<forall>t \<in> set (run_tree s) \<union> blocked_cfs s. unat (vruntime (sched_entity (threads s t))) * all_prio s < 2 ^ 64)"

lemma finite_blocked_cfs [simp]: "finite (blocked_cfs s)"
  by (rule finite_subset [of _ "waiting s"]) (auto simp: blocked_cfs_def waiting_def)

lemma headroom_cong:
  assumes "headroom s" "all_prio s' = all_prio s" "set (run_tree s') \<union> blocked_cfs s' \<subseteq> set (run_tree s) \<union> blocked_cfs s"
    "\<And>t. t \<in> set (run_tree s') \<union> blocked_cfs s' \<Longrightarrow>
      \<exists>u \<in> set (run_tree s) \<union> blocked_cfs s. vruntime (sched_entity (threads s' t)) = vruntime (sched_entity (threads s u))"
  shows "headroom s'"
  using assms unfolding headroom_def by metis

lemma kt_step_headroom: "kt_step s s' \<Longrightarrow> headroom s' = headroom s"
  by (simp add: headroom_def all_prio_def blocked_cfs_def kt_step_simps kt_step_waiting)

lemma all_prio_split:
  assumes "t \<in> blocked_cfs s"
  shows "all_prio s = unat (priority_sum s) + unat (priority (sched_entity (threads s t)))
    + (\<Sum>u \<in> blocked_cfs s - {t}. unat (priority (sched_entity (threads s u))))"
  using sum.remove [OF finite_blocked_cfs assms, of "\<lambda>u. unat (priority (sched_entity (threads s u)))"]
  by (simp add: all_prio_def)

lemma headroom_ticks_fit:
  assumes "headroom s" "t \<in> set (run_tree s) \<union> blocked_cfs s" "unat p \<le> all_prio s"
  shows "ticks_fit (vruntime (sched_entity (threads s t))) p"
proof -
  have "unat (vruntime (sched_entity (threads s t))) * unat p \<le> unat (vruntime (sched_entity (threads s t))) * all_prio s"
    using assms(3) by simp
  also have "\<dots> < 2 ^ 64" using assms(1,2) by (auto simp: headroom_def)
  finally show ?thesis by (simp add: ticks_fit_def)
qed

section \<open>A woken CFS thread\<close>

lemma joined_kinv0:
  assumes k: "kinv0 s" and j: "joined t s s'" and t: "t \<notin> waiting s"
  shows "kinv0 s'"
proof -
  note jj = j [unfolded joined_def]
  have st: "rq_step s s'" using jj by simp
  have ids: "same_ids s s'" by (rule joined_same_ids [OF j])
  have w: "waiting s' = waiting s" by (simp add: waiting_def rq_step_queues [OF st])
  have q: "queued s' = queued s" by (simp add: queued_def rq_step_queues [OF st])
  have "wq_ok s'"
    by (rule wq_ok_frame [of s]) (use k t jj in \<open>auto simp: kinv0_def rq_step_queues [OF st] rq_step_thread [OF st]\<close>)
  moreover have "ktq_ok s'"
    by (rule ktq_ok_frame [of s]) (use k in \<open>auto simp: kinv0_def rq_step_queues [OF st]\<close>)
  moreover have "timer_ok s' x = timer_ok s x" for x
    by (simp add: timer_ok_def same_ids_links [OF ids] w same_idsD [OF ids])
  then have "links s'"
    using k by (simp add: kinv0_def links_def q w rq_step_queues [OF st] same_ids_links [OF ids])
  ultimately show ?thesis using jj by (simp add: kinv0_def)
qed

lemma blocked_cfs_woken: "wq_ok s \<Longrightarrow> blocked_cfs (woken t s) = blocked_cfs s - {t}"
  by (auto simp: blocked_cfs_def waiting_woken)

lemma joined_vruntime_from:
  assumes "rq_ok s"
  shows "joined_vruntime t s = vruntime (sched_entity (threads s t))
    \<or> (\<exists>u \<in> set (run_tree s). joined_vruntime t s = vruntime (sched_entity (threads s u)))"
  by (cases "run_tree s") (auto simp: joined_vruntime_def)

lemma wake_cfs_ok:
  assumes k: "kinv0 s" and h: "headroom s" and t: "t \<in> waiting s" "kind (threads s t) = Cfs"
  shows "wpo (enqueue_runq_from_waitq t (woken t s)) (\<lambda>s'. joined t (woken t s) s' \<and> kinv0 s' \<and> headroom s'
    \<and> priority_sum s' = sum_with t s)"
proof -
  let ?s1 = "woken t s"
  have ok: "wq_ok s" "rq_ok s" using k by (auto simp: kinv0_def)
  have k1: "kinv0 ?s1" by (rule woken_kinv0 [OF k t(1)])
  have r1: "rq_ok ?s1" using k1 by (simp add: kinv0_def)
  have t0: "t \<noteq> 0" "priority (sched_entity (threads s t)) \<noteq> 0"
    using wq_ok_blocked [OF ok(1) t(1)] k t by (auto simp: kinv0_def links_def waiter_ok_def)
  have tb: "t \<in> blocked_cfs s" using t by (simp add: blocked_cfs_def)
  have nr: "t \<notin> set (run_tree s)" by (rule waiting_not_running [OF k t(1)])
  have sw: "sum_with t ?s1 = sum_with t s" by (simp add: sum_with_def)
  have fit: "unat (priority_sum s) + unat (priority (sched_entity (threads s t))) \<le> all_prio s"
    using all_prio_split [OF tb] by simp
  have us: "unat (sum_with t s) = unat (priority_sum s) + unat (priority (sched_entity (threads s t)))"
    using fit h by (simp add: sum_with_def unat_saturating_add headroom_def)
  have le: "unat (sum_with t s) \<le> all_prio s" using us fit by simp
  have src: "\<exists>u \<in> set (run_tree s) \<union> blocked_cfs s. joined_vruntime t ?s1 = vruntime (sched_entity (threads s u))"
    using joined_vruntime_from [OF r1, of t] tb by auto
  then have "ticks_fit (joined_vruntime t ?s1) (sum_with t s)"
    using headroom_ticks_fit [OF h _ le] by metis
  then have c: "can_join t ?s1 (sum_with t ?s1)" using t t0 nr by (simp add: can_join_def sw)
  have f: "rq_fits ?s1 (sum_with t ?s1)" using headroom_ticks_fit [OF h _ le] by (simp add: rq_fits_def sw)
  from enqueue_runq_from_waitq_joined [OF r1 c f] obtain s' where
    s': "enqueue_runq_from_waitq t ?s1 = Some s'" "joined t ?s1 s'" "priority_sum s' = sum_with t s"
    by (auto simp: wpo_def sw)
  note jj = s'(2) [unfolded joined_def]
  have st: "rq_step ?s1 s'" using jj by simp
  have nw: "t \<notin> waiting ?s1" by (simp add: waiting_woken [OF ok(1)])
  have bc: "blocked_cfs s' = blocked_cfs s - {t}"
    using blocked_cfs_woken [OF ok(1), of t] by (simp add: blocked_cfs_def waiting_def rq_step_queues [OF st] rq_step_thread [OF st])
  have ap: "all_prio s' = all_prio s"
    using all_prio_split [OF tb] us jj s'(3) by (simp add: all_prio_def bc)
  have "headroom s'"
  proof (rule headroom_cong [OF h ap])
    show "set (run_tree s') \<union> blocked_cfs s' \<subseteq> set (run_tree s) \<union> blocked_cfs s" using jj bc tb by auto
    fix u assume u: "u \<in> set (run_tree s') \<union> blocked_cfs s'"
    show "\<exists>v\<in>set (run_tree s) \<union> blocked_cfs s. vruntime (sched_entity (threads s' u)) = vruntime (sched_entity (threads s v))"
    proof (cases "u = t")
      case True
      then show ?thesis using src jj by simp
    next
      case False
      then have "vruntime (sched_entity (threads s' u)) = vruntime (sched_entity (threads s u))"
        "u \<in> set (run_tree s) \<union> blocked_cfs s" using jj u bc by auto
      then show ?thesis by blast
    qed
  qed
  then show ?thesis using s' joined_kinv0 [OF k1 s'(2) nw] by simp
qed

section \<open>The loop\<close>

definition rt_timers :: "addr set \<Rightarrow> kstate \<Rightarrow> addr set" where
  "rt_timers W s = {ktimer_entity (threads s t) | t. t \<in> W \<and> kind (threads s t) = Rt}"

definition woke :: "u32 \<Rightarrow> addr set \<Rightarrow> kstate \<Rightarrow> kstate \<Rightarrow> bool" where
  "woke elapsed W s s' \<longleftrightarrow>
     kinv0 s' \<and> headroom s' \<and> same_ids s s' \<and> now_ticks s' = now_ticks s \<and> suspended s' = suspended s
     \<and> set (wait_tree s') = set (wait_tree s) - W \<and> set (inactive_tree s') = set (inactive_tree s)
     \<and> set (run_tree s') = set (run_tree s) \<union> {t \<in> W. kind (threads s t) = Cfs}
     \<and> set (active_tree s') = set (active_tree s) \<union> rt_timers W s
     \<and> (\<forall>t \<in> W. state (threads s' t) = Ready)
     \<and> (\<forall>u. u \<notin> W \<longrightarrow> state (threads s' u) = state (threads s u))
     \<and> (\<forall>u. u \<notin> W \<or> kind (threads s u) \<noteq> Rt \<longrightarrow> runtime (threads s' u) = runtime (threads s u))
     \<and> (\<forall>k. k \<notin> rt_timers W s \<longrightarrow> ktimers s' k = ktimers s k)
     \<and> (\<forall>t \<in> W. kind (threads s t) = Rt \<longrightarrow>
          runtime (threads s' t) = saturating_add (runtime (threads s t)) elapsed
          \<and> expire_at (ktimers s' (ktimer_entity (threads s t))) = saturating_add (now_ticks s)
               (u64_of (saturating_sub (relative_deadline_ticks (timing (ktimers s (ktimer_entity (threads s t)))))
                         (runtime (threads s' t)))))"

lemma wokeD:
  assumes "woke elapsed W s s'"
  shows "kinv0 s'" "headroom s'" "same_ids s s'" "now_ticks s' = now_ticks s" "suspended s' = suspended s"
    "set (wait_tree s') = set (wait_tree s) - W" "set (inactive_tree s') = set (inactive_tree s)"
    "set (run_tree s') = set (run_tree s) \<union> {t \<in> W. kind (threads s t) = Cfs}"
    "set (active_tree s') = set (active_tree s) \<union> rt_timers W s"
    "t \<in> W \<Longrightarrow> state (threads s' t) = Ready" "t \<notin> W \<Longrightarrow> state (threads s' t) = state (threads s t)"
    "t \<notin> W \<or> kind (threads s t) \<noteq> Rt \<Longrightarrow> runtime (threads s' t) = runtime (threads s t)"
    "k \<notin> rt_timers W s \<Longrightarrow> ktimers s' k = ktimers s k"
    "t \<in> W \<Longrightarrow> kind (threads s t) = Rt \<Longrightarrow> runtime (threads s' t) = saturating_add (runtime (threads s t)) elapsed"
    "t \<in> W \<Longrightarrow> kind (threads s t) = Rt \<Longrightarrow> expire_at (ktimers s' (ktimer_entity (threads s t))) = saturating_add (now_ticks s)
               (u64_of (saturating_sub (relative_deadline_ticks (timing (ktimers s (ktimer_entity (threads s t)))))
                         (runtime (threads s' t))))"
  using assms unfolding woke_def by simp_all

text \<open>One woken thread.\<close>

lemma wake_one_cfs:
  assumes k: "kinv0 s" and h: "headroom s" and t: "t \<in> set (wait_tree s)" "kind (threads s t) = Cfs"
  shows "wpo (enqueue_runq_from_waitq t (woken t s)) (\<lambda>s'. woke elapsed {t} s s' \<and> wait_tree s' = remove1 t (wait_tree s))"
proof -
  have tw: "t \<in> waiting s" using t by (simp add: waiting_def)
  have ok: "wq_ok s" using k by (simp add: kinv0_def)
  have ts: "t \<notin> set (suspended s)" using wq_ok_disjoint [OF ok] t by auto
  show ?thesis
  proof (rule wpo_mono [OF wake_cfs_ok [OF k h tw t(2)]], elim conjE)
    fix s' assume s': "joined t (woken t s) s'" "kinv0 s'" "headroom s'"
    note jj = s'(1) [unfolded joined_def]
    have st: "rq_step (woken t s) s'" using jj by simp
    have "same_ids s s'" by (rule same_ids_trans [OF woken_same_ids joined_same_ids [OF s'(1)]])
    moreover have "rt_timers {t} s = {}" using t(2) by (simp add: rt_timers_def)
    ultimately show "woke elapsed {t} s s' \<and> wait_tree s' = remove1 t (wait_tree s)"
      using s' jj t wq_ok_distinct [OF ok] ts
      by (auto simp: woke_def rq_step_queues [OF st] rq_step_thread [OF st] remove1_idem)
  qed
qed

lemma wake_one_rt:
  assumes k: "kinv0 s" and h: "headroom s" and t: "t \<in> set (wait_tree s)" "kind (threads s t) = Rt"
  shows "wpo (wake_rt t elapsed (woken t s)) (\<lambda>s'. woke elapsed {t} s s' \<and> wait_tree s' = remove1 t (wait_tree s))"
proof -
  have tw: "t \<in> waiting s" using t by (simp add: waiting_def)
  have ok: "wq_ok s" using k by (simp add: kinv0_def)
  have ts: "t \<notin> set (suspended s)" using wq_ok_disjoint [OF ok] t by auto
  note e = waiting_rt_timer [OF k tw t(2)]
  have "blocked_cfs (woken t s) = blocked_cfs s"
    using t by (auto simp: blocked_cfs_woken [OF ok]) (simp add: blocked_cfs_def)
  then have h1: "headroom (woken t s)" using h by (simp add: headroom_def all_prio_def)
  have tm: "rt_timers {t} s = {ktimer_entity (threads s t)}" using t(2) by (auto simp: rt_timers_def)
  have w: "wpo (wake_rt t elapsed (woken t s)) (\<lambda>s'. kinv0 s' \<and> kt_step (woken t s) s' \<and> queued s' = insert (ktimer_entity (threads s t)) (queued (woken t s))
    \<and> set (active_tree s') = insert (ktimer_entity (threads s t)) (set (active_tree (woken t s))) \<and> inactive_tree s' = inactive_tree (woken t s)
    \<and> now_ticks s' = now_ticks (woken t s)
    \<and> runtime (threads s' t) = saturating_add (runtime (threads (woken t s) t)) elapsed
    \<and> expire_at (ktimers s' (ktimer_entity (threads s t))) = saturating_add (now_ticks (woken t s))
        (u64_of (saturating_sub (relative_deadline_ticks (timing (ktimers (woken t s) (ktimer_entity (threads s t))))) (saturating_add (runtime (threads (woken t s) t)) elapsed)))
    \<and> (\<forall>k. k \<noteq> ktimer_entity (threads s t) \<longrightarrow> ktimers s' k = ktimers (woken t s) k)
    \<and> (\<forall>u. u \<noteq> t \<longrightarrow> threads s' u = threads (woken t s) u))"
    by (rule wake_rt_ok) (use woken_kinv0 [OF k tw] e in simp_all)
  show ?thesis
  proof (rule wpo_mono [OF w], elim conjE)
    fix s' assume s': "kinv0 s'" "kt_step (woken t s) s'" "set (active_tree s') = insert (ktimer_entity (threads s t)) (set (active_tree (woken t s)))"
      "inactive_tree s' = inactive_tree (woken t s)" "now_ticks s' = now_ticks (woken t s)"
      "runtime (threads s' t) = saturating_add (runtime (threads (woken t s) t)) elapsed"
      "expire_at (ktimers s' (ktimer_entity (threads s t))) = saturating_add (now_ticks (woken t s))
        (u64_of (saturating_sub (relative_deadline_ticks (timing (ktimers (woken t s) (ktimer_entity (threads s t))))) (saturating_add (runtime (threads (woken t s) t)) elapsed)))"
      "\<forall>k. k \<noteq> ktimer_entity (threads s t) \<longrightarrow> ktimers s' k = ktimers (woken t s) k"
      "\<forall>u. u \<noteq> t \<longrightarrow> threads s' u = threads (woken t s) u"
    have "same_ids s s'" by (rule same_ids_trans [OF woken_same_ids kt_step_same_ids [OF s'(2)]])
    moreover have "headroom s'" using h1 by (simp add: kt_step_headroom [OF s'(2)])
    ultimately show "woke elapsed {t} s s' \<and> wait_tree s' = remove1 t (wait_tree s)"
      using s' t wq_ok_distinct [OF ok] ts tm
      by (auto simp: woke_def kt_step_simps [OF s'(2)] remove1_idem)
  qed
qed

lemma rt_timers_same_ids: "same_ids s s' \<Longrightarrow> rt_timers W s' = rt_timers W s"
  by (simp add: rt_timers_def same_idsD)

lemma rt_timers_un: "rt_timers (insert t W) s = rt_timers {t} s \<union> rt_timers W s"
  by (auto simp: rt_timers_def)

lemma rt_timers_inj:
  assumes "links s" "u \<in> waiting s" "kind (threads s u) = Rt" "W \<subseteq> waiting s" "ktimer_entity (threads s u) \<in> rt_timers W s"
  shows "u \<in> W"
proof -
  from assms(5) obtain t where t: "t \<in> W" "kind (threads s t) = Rt" "ktimer_entity (threads s u) = ktimer_entity (threads s t)"
    by (auto simp: rt_timers_def)
  then have "waiter_ok s t" "waiter_ok s u" using assms by (auto simp: links_def)
  then show ?thesis using t assms(3) by (auto simp: waiter_ok_def)
qed

lemma woke_insert:
  assumes l: "links s" and a: "woke elapsed {t} s s1" and b: "woke elapsed W s1 s2"
    and t: "t \<in> waiting s" "t \<notin> W" and W: "W \<subseteq> waiting s"
  shows "woke elapsed (insert t W) s s2"
proof -
  note A = wokeD [OF a] and B = wokeD [OF b]
  note i = A(3) same_ids_trans [OF A(3) B(3)]
  have tW: "rt_timers W s1 = rt_timers W s" by (rule rt_timers_same_ids [OF i(1)])
  have n1: "kind (threads s t) = Rt \<Longrightarrow> ktimer_entity (threads s t) \<notin> rt_timers W s"
    using rt_timers_inj [OF l t(1) _ W] t(2) by blast
  show ?thesis
    unfolding woke_def rt_timers_un [of t W]
  proof (intro conjI allI ballI impI)
    fix u assume "u \<notin> insert t W \<or> kind (threads s u) \<noteq> Rt"
    then have "u \<notin> {t} \<or> kind (threads s u) \<noteq> Rt" "u \<notin> W \<or> kind (threads s u) \<noteq> Rt" by auto
    then show "runtime (threads s2 u) = runtime (threads s u)"
      using A(12) [of u] B(12) [of u] unfolding same_idsD(1) [OF i(1)] by metis
  next
    fix u assume u: "u \<in> insert t W" "kind (threads s u) = Rt"
    show r: "runtime (threads s2 u) = saturating_add (runtime (threads s u)) elapsed"
      using A(12,14) [of u] B(12,14) [of u] u t by (cases "u = t") (simp_all add: same_idsD [OF i(1)])
    show "expire_at (ktimers s2 (ktimer_entity (threads s u))) = saturating_add (now_ticks s)
               (u64_of (saturating_sub (relative_deadline_ticks (timing (ktimers s (ktimer_entity (threads s u)))))
                         (runtime (threads s2 u))))"
    proof (cases "u = t")
      case True
      then have "ktimers s2 (ktimer_entity (threads s u)) = ktimers s1 (ktimer_entity (threads s u))"
        using B(13) n1 u tW by simp
      then show ?thesis using A(15) [of u] B(12) [of u] True u t by simp
    next
      case False
      then show ?thesis using B(15) [of u] A(4) u by (simp add: same_idsD [OF i(1)])
    qed
  next
    fix k assume "k \<notin> rt_timers {t} s \<union> rt_timers W s"
    then show "ktimers s2 k = ktimers s k" using A(13) [of k] B(13) [of k] tW by simp
  next
    fix u assume "u \<in> insert t W"
    then show "state (threads s2 u) = Ready" using A(10) [of u] B(10,11) [of u] t by (cases "u = t") simp_all
  next
    fix u assume "u \<notin> insert t W"
    then show "state (threads s2 u) = state (threads s u)" using A(11) [of u] B(11) [of u] by simp
  next
    show "set (run_tree s2) = set (run_tree s) \<union> {u \<in> insert t W. kind (threads s u) = Cfs}"
      unfolding A(8) B(8) same_idsD(1) [OF i(1)] by blast
    show "set (wait_tree s2) = set (wait_tree s) - insert t W" unfolding A(6) B(6) by blast
    show "set (active_tree s2) = set (active_tree s) \<union> (rt_timers {t} s \<union> rt_timers W s)"
      unfolding A(9) B(9) tW by blast
    show "same_ids s s2" by (rule i(2))
  qed (simp_all add: A B)
qed

lemma woke_empty: "kinv0 s \<Longrightarrow> headroom s \<Longrightarrow> woke elapsed {} s s"
  by (simp add: woke_def rt_timers_def)

definition expired_waiters :: "kstate \<Rightarrow> addr set" where
  "expired_waiters s = {t \<in> set (wait_tree s). wake_at (wait_entity (threads s t)) \<le> now_ticks s}"

lemma wake_wait_thread_ok:
  assumes "kinv0 s" "headroom s"
  shows "wpo (wake_wait_thread elapsed s) (woke elapsed (expired_waiters s) s)"
  using assms
proof (induction "length (wait_tree s)" arbitrary: s rule: less_induct)
  case less
  have ok: "wq_ok s" "links s" using less.prems by (auto simp: kinv0_def)
  show ?case
  proof (cases "wait_tree s")
    case Nil
    then show ?thesis
      using less.prems woke_empty pop_expired_eq [OF ok(1)]
      by (simp add: wake_wait_thread.simps [of elapsed s] expired_waiters_def)
  next
    case (Cons t ts)
    then have tt: "t \<in> set (wait_tree s)" "t \<in> waiting s" by (auto simp: waiting_def)
    have t0: "t \<noteq> 0" "kind (threads s t) \<noteq> Idle" using wq_ok_blocked [OF ok(1) tt(2)] by auto
    show ?thesis
    proof (cases "wake_at (wait_entity (threads s t)) \<le> now_ticks s")
      case False
      have "expired_waiters s = {}"
        using False wait_head_least [OF ok(1) Cons] Cons by (fastforce simp: expired_waiters_def)
      then show ?thesis
        using less.prems woke_empty pop_expired_eq [OF ok(1)] Cons False
        by (simp add: wake_wait_thread.simps [of elapsed s])
    next
      case True
      have "wpo (if kind (threads s t) = Cfs then enqueue_runq_from_waitq t (woken t s)
              else wake_rt t elapsed (woken t s)) (\<lambda>s'. woke elapsed {t} s s' \<and> wait_tree s' = remove1 t (wait_tree s))"
        using wake_one_cfs [OF less.prems tt(1)] wake_one_rt [OF less.prems tt(1)] t0(2)
        by (cases "kind (threads s t)") auto
      then obtain s1 where s1: "(if kind (threads s t) = Cfs then enqueue_runq_from_waitq t (woken t s)
              else wake_rt t elapsed (woken t s)) = Some s1" "woke elapsed {t} s s1" "wait_tree s1 = ts"
        by (auto simp: wpo_def Cons)
      have ids: "same_ids s s1" "kinv0 s1" "headroom s1" "now_ticks s1 = now_ticks s" using s1(2) by (auto simp: woke_def)
      have kr: "kind (threads (make_ready t (unblock_thread t s)) t) = kind (threads s t)"
        by (simp add: make_ready_def unblock_thread_def)
      have eq: "wake_wait_thread elapsed s = wake_wait_thread elapsed s1"
        using pop_expired_eq [OF ok(1)] Cons True t0 s1(1) kr
        by (cases "kind (threads s t)") (auto simp: wake_wait_thread.simps [of elapsed s] set_state_Ready get_thread_def woken_def [symmetric])
      have ex: "expired_waiters s = insert t (expired_waiters s1)" "t \<notin> expired_waiters s1"
        "expired_waiters s1 \<subseteq> waiting s"
        using True wq_ok_distinct [OF ok(1)] s1(3) Cons
        by (auto simp: expired_waiters_def same_idsD [OF ids(1)] ids(4) waiting_def)
      have "wpo (wake_wait_thread elapsed s1) (woke elapsed (expired_waiters s1) s1)"
        using less.hyps ids s1(3) Cons by simp
      then show ?thesis
        unfolding eq ex(1) by (rule wpo_mono) (rule woke_insert [OF ok(2) s1(2) _ tt(2) ex(2,3)])
    qed
  qed
qed

end
