(* ===== verification/Dispatch.thy ===== *)
theory Dispatch
  imports Wake
begin

text \<open>
  The dispatch loop (\<open>KTimerQueue::dispatch_expired\<close> in \<^verbatim>\<open>src/ktimer.rs\<close>): it ends, leaves no expired
  timer and no overdue waiter behind, keeps the invariant and touches no timer that has not
  expired. It does not end when a real-time timer has a relative deadline of zero.
\<close>

section \<open>What dispatch relies on\<close>

definition positive :: "kstate \<Rightarrow> addr \<Rightarrow> bool" where
  "positive s k \<longleftrightarrow>
     (k = CFS_KTIMER s \<longrightarrow> 0 < period_ticks (timing (ktimers s k)))
     \<and> (k \<noteq> CFS_KTIMER s \<longrightarrow> k \<noteq> WAIT_KTIMER s \<longrightarrow> 0 < relative_deadline_ticks (timing (ktimers s k)))"

lemma same_ids_positive:
  assumes "same_ids s s'"
  shows "positive s' k = positive s k"
  by (simp add: positive_def same_idsD [OF assms])

definition late_after :: "u32 \<Rightarrow> kstate \<Rightarrow> addr \<Rightarrow> bool" where
  "late_after elapsed s t \<longleftrightarrow>
     relative_deadline_ticks (timing (ktimers s (ktimer_entity (threads s t)))) < saturating_add (runtime (threads s t)) elapsed"

definition dispatch_pre :: "u32 \<Rightarrow> kstate \<Rightarrow> bool" where
  "dispatch_pre elapsed s \<longleftrightarrow>
     kinv s \<and> headroom s \<and> wait_armed s \<and> no_overdue s \<and> now_ticks s < - 1
     \<and> (\<forall>k \<in> queued s \<union> rt_timers (waiting s) s. positive s k)
     \<and> (\<forall>t \<in> expired_waiters s. kind (threads s t) = Rt \<longrightarrow> \<not> late_after elapsed s t)"

definition expired_at_now :: "kstate \<Rightarrow> addr \<Rightarrow> bool" where
  "expired_at_now s k \<longleftrightarrow> expire_at (ktimers s k) \<le> now_ticks s"

definition dispatched :: "addr set \<Rightarrow> kstate \<Rightarrow> kstate \<Rightarrow> bool" where
  "dispatched W s s' \<longleftrightarrow>
     same_ids s s' \<and> now_ticks s' = now_ticks s \<and> waiting s' = waiting s - W
     \<and> queued s' = queued s \<union> rt_timers W s
     \<and> set (run_tree s') = set (run_tree s) \<union> {t \<in> W. kind (threads s t) = Cfs}
     \<and> (\<forall>t \<in> W. state (threads s' t) = Ready) \<and> (\<forall>u. u \<notin> W \<longrightarrow> state (threads s' u) = state (threads s u))
     \<and> (\<forall>k \<in> queued s. \<not> expired_at_now s k \<longrightarrow>
          expire_at (ktimers s' k) = expire_at (ktimers s k) \<and> active (ktimers s' k) = active (ktimers s k))"

lemma dispatchedD:
  assumes "dispatched W s s'"
  shows "same_ids s s'" "now_ticks s' = now_ticks s" "waiting s' = waiting s - W"
    "queued s' = queued s \<union> rt_timers W s" "set (run_tree s') = set (run_tree s) \<union> {t \<in> W. kind (threads s t) = Cfs}"
    "t \<in> W \<Longrightarrow> state (threads s' t) = Ready" "t \<notin> W \<Longrightarrow> state (threads s' t) = state (threads s t)"
    "k \<in> queued s \<Longrightarrow> \<not> expired_at_now s k \<Longrightarrow> expire_at (ktimers s' k) = expire_at (ktimers s k)"
    "k \<in> queued s \<Longrightarrow> \<not> expired_at_now s k \<Longrightarrow> active (ktimers s' k) = active (ktimers s k)"
  using assms by (auto simp: dispatched_def)

lemma dispatched_trans:
  assumes a: "dispatched W s s1" and b: "dispatched W' s1 s2"
  shows "dispatched (W \<union> W') s s2"
proof -
  note A = dispatchedD [OF a] and B = dispatchedD [OF b]
  have tm: "rt_timers (W \<union> W') s = rt_timers W s \<union> rt_timers W' s1"
    unfolding rt_timers_same_ids [OF A(1)] by (auto simp: rt_timers_def)
  show ?thesis
    unfolding dispatched_def
  proof (intro conjI allI ballI impI)
    show "same_ids s s2" by (rule same_ids_trans [OF A(1) B(1)])
    show "waiting s2 = waiting s - (W \<union> W')" unfolding A(3) B(3) by blast
    show "queued s2 = queued s \<union> rt_timers (W \<union> W') s" unfolding A(4) B(4) tm by blast
    show "set (run_tree s2) = set (run_tree s) \<union> {t \<in> W \<union> W'. kind (threads s t) = Cfs}"
      unfolding A(5) B(5) same_idsD(1) [OF A(1)] by blast
  next
    fix t assume "t \<in> W \<union> W'"
    then show "state (threads s2 t) = Ready" using A(6) [of t] B(6,7) [of t] by (cases "t \<in> W'") auto
  next
    fix u assume "u \<notin> W \<union> W'"
    then show "state (threads s2 u) = state (threads s u)" using A(7) [of u] B(7) [of u] by simp
  next
    fix k assume k: "k \<in> queued s" "\<not> expired_at_now s k"
    then have "k \<in> queued s1" "\<not> expired_at_now s1 k" using A(2,4,8) by (auto simp: expired_at_now_def)
    then show "expire_at (ktimers s2 k) = expire_at (ktimers s k)" "active (ktimers s2 k) = active (ktimers s k)"
      using A(8,9) [OF k] B(8,9) [of k] by simp_all
  qed (simp add: A(2) B(2))
qed

section \<open>Progress measure\<close>

definition wait_due :: "kstate \<Rightarrow> nat" where
  "wait_due s = (if expired_at_now s (WAIT_KTIMER s) then 1 else 0)"

definition timers_due :: "kstate \<Rightarrow> nat" where
  "timers_due s =
     card {k \<in> queued s. k \<noteq> CFS_KTIMER s \<and> k \<noteq> WAIT_KTIMER s \<and> expired_at_now s k}
     + (if CFS_KTIMER s \<in> queued s \<and> expired_at_now s (CFS_KTIMER s)
        then if active (ktimers s (CFS_KTIMER s)) then 2 else 1 else 0)"

definition progress :: "(kstate \<times> kstate) set" where
  "progress = measures [wait_due, timers_due]"

lemma wf_progress: "wf progress"
  by (simp add: progress_def)

lemma progress_iff: "(s', s) \<in> progress \<longleftrightarrow> wait_due s' < wait_due s \<or> wait_due s' = wait_due s \<and> timers_due s' < timers_due s"
  by (auto simp: progress_def)

lemma finite_queued [simp]: "finite (queued s)"
  by (simp add: queued_def)

lemma timers_due_less:
  assumes e: "e \<in> queued s" "expired_at_now s e" "e \<noteq> WAIT_KTIMER s"
    and q: "queued s' = queued s" "CFS_KTIMER s' = CFS_KTIMER s" "WAIT_KTIMER s' = WAIT_KTIMER s" "now_ticks s' = now_ticks s"
    and same: "\<And>k. k \<noteq> e \<Longrightarrow> ktimers s' k = ktimers s k"
    and less: "\<not> expired_at_now s' e \<or> (e = CFS_KTIMER s \<and> active (ktimers s e) \<and> \<not> active (ktimers s' e))"
  shows "timers_due s' < timers_due s"
proof -
  have ex: "expired_at_now s' k = expired_at_now s k" if "k \<noteq> e" for k using same [OF that] q(4) by (simp add: expired_at_now_def)
  let ?R = "\<lambda>s. {k \<in> queued s. k \<noteq> CFS_KTIMER s \<and> k \<noteq> WAIT_KTIMER s \<and> expired_at_now s k}"
  show ?thesis
  proof (cases "e = CFS_KTIMER s")
    case True
    then have "?R s' = ?R s" using ex q by auto
    then show ?thesis using e True less q by (auto simp: timers_due_def)
  next
    case False
    have "k \<in> ?R s' \<longleftrightarrow> k \<in> ?R s - {e}" for k using ex [of k] q less False by (cases "k = e") auto
    then have R: "?R s' = ?R s - {e}" by blast
    have "card (?R s') < card (?R s)" unfolding R by (rule card_Diff1_less) (use e False in auto)
    then show ?thesis using ex [of "CFS_KTIMER s"] same [of "CFS_KTIMER s"] False q by (simp add: timers_due_def)
  qed
qed

section \<open>A step that re-times one timer\<close>

lemma saturating_add_mono: "a \<le> b \<Longrightarrow> saturating_add a c \<le> saturating_add b c"
  by (simp add: word_le_nat_alt unat_saturating_add)

lemma retime_dispatch:
  assumes d: "dispatch_pre elapsed s" and e: "e \<in> queued s" "expired_at_now s e" "e \<noteq> WAIT_KTIMER s"
    and s2: "kt_step (ktq_take e s) s2" "ktq_ok s2" "queued s2 = queued s - {e}"
    "active_tree s2 = remove1 e (active_tree s)" "inactive_tree s2 = remove1 e (inactive_tree s)"
    and now: "now_ticks s2 = now_ticks s" and same: "\<And>k. k \<noteq> e \<Longrightarrow> ktimers s2 k = ktimers s k"
    and rt: "\<And>u. runtime (threads s2 u) \<le> runtime (threads s u)"
    "e \<noteq> CFS_KTIMER s \<Longrightarrow> runtime (threads s2 (thread_ctx (ktimers s e))) = 0"
    and less: "\<not> expired_at_now s2 e \<or> (e = CFS_KTIMER s \<and> active (ktimers s e) \<and> \<not> act)"
  shows "ktq_insert e act s2 = Some (ktq_put e act s2)" "dispatch_pre elapsed (ktq_put e act s2)"
    "dispatched {} s (ktq_put e act s2)" "expired_waiters (ktq_put e act s2) = expired_waiters s"
    "(ktq_put e act s2, s) \<in> progress"
proof -
  let ?s3 = "ktq_put e act s2"
  note dd = d [unfolded dispatch_pre_def]
  have k: "kinv s" using dd by simp
  have n: "no_overdue s" using dd by simp
  note r = retime_ok [OF kinvD(1) [OF k] e(1) s2]
  show "ktq_insert e act s2 = Some ?s3" using r(1) e(3) by simp
  have step: "kt_step s ?s3" using r(4) e(3) by simp
  have q: "queued ?s3 = queued s" using r(3) e(3) by simp
  have w: "waiting ?s3 = waiting s" "wait_tree ?s3 = wait_tree s" "WAIT_KTIMER ?s3 = WAIT_KTIMER s" "CFS_KTIMER ?s3 = CFS_KTIMER s"
    by (simp_all only: kt_step_waiting [OF step] kt_step_simps [OF step])
  have k3: "kinv ?s3" using r(2,6) kinvD(6) [OF k] e(3) w(3) by (auto simp: kinv_def)
  have t3: "ktimers ?s3 k = ktimers s k" if "k \<noteq> e" for k using same [OF that] that by simp
  have now3: "now_ticks ?s3 = now_ticks s" using now by simp
  have n3: "no_overdue ?s3"
    by (rule no_overdue_retimed [OF n step now3, of e])
      (use r(5) e(3) t3 rt kt_step_ktimers [OF s2(1), of e] in \<open>auto simp: missed_def split: if_splits\<close>)
  have armed: "wait_armed ?s3"
    using dd t3 [of "WAIT_KTIMER s"] e(3) w by (simp add: wait_armed_def kt_step_wait_deadline [OF step])
  show ew: "expired_waiters ?s3 = expired_waiters s"
    unfolding expired_waiters_def w(2) kt_step_threads(3) [OF step] now3 by (rule refl)
  have ids: "same_ids s ?s3" by (rule kt_step_same_ids [OF step])
  have pos: "positive ?s3 k = positive s k" for k
    by (simp only: positive_def kt_step_ktimers [OF step] w)
  have late: "\<not> late_after elapsed ?s3 t" if "\<not> late_after elapsed s t" for t
    using that saturating_add_mono [OF rt(1) [of t], of elapsed]
    by (auto simp: late_after_def kt_step_simps [OF s2(1)])
  show "dispatch_pre elapsed ?s3"
    using dd k3 n3 armed now3 pos late
    by (auto simp only: dispatch_pre_def kt_step_headroom [OF step] q w rt_timers_same_ids [OF ids] ew same_idsD [OF ids])
  show "dispatched {} s ?s3"
    unfolding dispatched_def using ids now3 w q e(2) t3 kt_step_simps [OF step]
    by (auto simp: rt_timers_def)
  have "wait_due ?s3 = wait_due s" using t3 [of "WAIT_KTIMER s"] e(3) w now3 by (simp only: wait_due_def expired_at_now_def)
  moreover have "timers_due ?s3 < timers_due s"
    by (rule timers_due_less [OF e q w(4,3) now3 t3]) (use less in \<open>auto simp: expired_at_now_def\<close>)
  ultimately show "(?s3, s) \<in> progress" by (simp add: progress_iff)
qed

section \<open>The three kinds of expired timers\<close>

lemma expired_first:
  assumes "dispatch_pre elapsed s" "ktq_first s \<noteq> 0" "ktimer_is_expired_at (ktimers s (ktq_first s)) (now_ticks s)"
  shows "ktq_first s \<in> queued s" "expired_at_now s (ktq_first s)"
    "ktq_remove (ktq_first s) s = Some (ktq_first s, ktq_take (ktq_first s) s)"
    "queued (ktq_take (ktq_first s) s) = queued s - {ktq_first s}" "ktq_ok (ktq_take (ktq_first s) s)"
proof -
  have ok: "ktq_ok s" using assms(1) kinvD(4) by (auto simp: dispatch_pre_def)
  show q: "ktq_first s \<in> queued s" by (rule ktq_first_in [OF ok assms(2)])
  show "expired_at_now s (ktq_first s)" using assms(3) by (simp add: expired_at_now_def ktimer_is_expired_at_def)
  show "ktq_remove (ktq_first s) s = Some (ktq_first s, ktq_take (ktq_first s) s)" by (rule ktq_remove_eq [OF ok q])
  show "queued (ktq_take (ktq_first s) s) = queued s - {ktq_first s}" "ktq_ok (ktq_take (ktq_first s) s)"
    using queued_ktq_take [OF ok] ktq_take_ok [OF ok] by auto
qed

definition stepped :: "u32 \<Rightarrow> kstate \<Rightarrow> kstate \<Rightarrow> bool" where
  "stepped elapsed s s' \<longleftrightarrow>
     dispatch_pre elapsed s' \<and> (s', s) \<in> progress
     \<and> (\<exists>W. dispatched W s s' \<and> expired_waiters s = W \<union> expired_waiters s')"

lemma saturating_later: "now < - 1 \<Longrightarrow> 0 < t \<Longrightarrow> \<not> saturating_add now (u64_of t) \<le> now"
  using saturating_add_gt [of now "u64_of t"] by (simp add: not_le)

lemma step_cfs:
  assumes d: "dispatch_pre elapsed s" and e: "ktq_first s \<noteq> 0" "ktimer_is_expired_at (ktimers s (ktq_first s)) (now_ticks s)"
    and c: "ktq_first s = CFS_KTIMER s"
  shows "wpo (dispatch_step elapsed s) (\<lambda>r. \<exists>s'. r = Inl s' \<and> stepped elapsed s s')"
proof -
  let ?e = "CFS_KTIMER s" and ?s1 = "ktq_take (CFS_KTIMER s) s"
  note x = expired_first [OF d e, unfolded c]
  have w: "?e \<noteq> WAIT_KTIMER s" using d by (auto simp: dispatch_pre_def kinv_def kinv0_def links_def)
  have pos: "0 < period_ticks (timing (ktimers s ?e))" and now: "now_ticks s < - 1"
    using d x(1) by (auto simp: dispatch_pre_def positive_def)
  let ?act = "\<not> active (ktimers s ?e)"
  let ?t = "if active (ktimers s ?e) then saturating_sub (period_ticks (timing (ktimers s ?e))) elapsed
    else period_ticks (timing (ktimers s ?e))"
  let ?s2 = "kt_set ?e (set_expire_after (now_ticks s) ?t) ?s1"
  have ok2: "ktq_ok ?s2" using x by (simp add: kt_set_ktq_ok)
  have tr: "active_tree ?s2 = remove1 ?e (active_tree s)" "inactive_tree ?s2 = remove1 ?e (inactive_tree s)"
    by (simp_all add: ktq_take_def)
  have less: "\<not> expired_at_now ?s2 ?e \<or> (?e = CFS_KTIMER s \<and> active (ktimers s ?e) \<and> \<not> ?act)"
    using saturating_later [OF now pos] by (auto simp: expired_at_now_def set_expire_after_def)
  have st: "kt_step ?s1 ?s2" by (rule kt_step_set) simp
  have r: "ktq_insert ?e ?act ?s2 = Some (ktq_put ?e ?act ?s2)" "dispatch_pre elapsed (ktq_put ?e ?act ?s2)"
    "dispatched {} s (ktq_put ?e ?act ?s2)" "expired_waiters (ktq_put ?e ?act ?s2) = expired_waiters s"
    "(ktq_put ?e ?act ?s2, s) \<in> progress"
    by (rule retime_dispatch [OF d x(1,2) w st ok2 _ tr _ _ _ _ less]; use x(4) in simp)+
  have "dispatch_step elapsed s = Some (Inl (ktq_put ?e ?act ?s2))"
    using e c x(3) r(1) w
    by (cases "active (ktimers s ?e)") (simp_all add: dispatch_step_def Let_def get_ktimer_def is_wait_ktimer_def is_cfs_ktimer_def upd_ktimer_eq
        ktq_enqueue_active_def ktq_enqueue_inactive_def)
  moreover have "stepped elapsed s (ktq_put ?e ?act ?s2)"
    unfolding stepped_def using r(2-5) by (metis Un_empty_left)
  ultimately show ?thesis by simp
qed

lemma step_rt:
  assumes d: "dispatch_pre elapsed s" and e: "ktq_first s \<noteq> 0" "ktimer_is_expired_at (ktimers s (ktq_first s)) (now_ticks s)"
    and c: "ktq_first s \<noteq> CFS_KTIMER s" "ktq_first s \<noteq> WAIT_KTIMER s"
  shows "wpo (dispatch_step elapsed s) (\<lambda>r. \<exists>s'. r = Inl s' \<and> stepped elapsed s s')"
proof -
  define e' where "e' = ktq_first s"
  let ?s1 = "ktq_take e' s"
  note x = expired_first [OF d e, folded e'_def] and c' = c [folded e'_def]
  have k: "kinv s" "no_overdue s" using d by (auto simp: dispatch_pre_def)
  have l: "rt_linked s e'" using kinvD(5) [OF k(1)] x(1) c' by (auto simp: links_def timer_ok_def)
  have l1: "rt_linked ?s1 e'" using l by (simp add: kt_step_rt_linked [OF kt_step_take])
  have pos: "0 < relative_deadline_ticks (timing (ktimers s e'))" and now: "now_ticks s < - 1"
    using d x(1) c' by (auto simp: dispatch_pre_def positive_def)
  have m: "active (ktimers s e') \<longrightarrow> \<not> missed ?s1 e'"
    using k(2) x(1,2) c' ktq_ok_active [OF kinvD(4) [OF k(1)] x(1)]
    by (auto simp: no_overdue_def missed_def expired_at_now_def)
  let ?s2 = "released e' ?s1"
  have tr: "active_tree ?s2 = remove1 e' (active_tree s)" "inactive_tree ?s2 = remove1 e' (inactive_tree s)"
    by (simp_all add: ktq_take_def)
  have ok2: "ktq_ok ?s2" using x by (simp add: released_ktq_ok)
  have less: "\<not> expired_at_now ?s2 e' \<or> (e' = CFS_KTIMER s \<and> active (ktimers s e') \<and> \<not> True)"
    using saturating_later [OF now pos] by (simp add: expired_at_now_def released_other)
  have r: "ktq_insert e' True ?s2 = Some (ktq_put e' True ?s2)" "dispatch_pre elapsed (ktq_put e' True ?s2)"
    "dispatched {} s (ktq_put e' True ?s2)" "expired_waiters (ktq_put e' True ?s2) = expired_waiters s"
    "(ktq_put e' True ?s2, s) \<in> progress"
    by (rule retime_dispatch [OF d x(1,2) c'(2) kt_step_released ok2 _ tr _ _ _ _ less]; use x(4) in \<open>simp add: released_other\<close>)+
  have "dispatch_step elapsed s = Some (Inl (ktq_put e' True ?s2))"
    using e c' x(3) r(1) release_rt_eq [OF l1 m]
    by (simp add: dispatch_step_def Let_def get_ktimer_def is_wait_ktimer_def is_cfs_ktimer_def e'_def [symmetric]
        ktq_enqueue_active_def)
  moreover have "stepped elapsed s (ktq_put e' True ?s2)"
    unfolding stepped_def using r(2-5) by (metis Un_empty_left)
  ultimately show ?thesis by simp
qed

text \<open>The wait timer: the state after waking the expired waiters and re-arming the timer.\<close>

definition rearmed :: "kstate \<Rightarrow> kstate" where
  "rearmed s = ktq_put (WAIT_KTIMER s) False (kt_set (WAIT_KTIMER s) (expire_at_update (\<lambda>_. wait_deadline s)) s)"

lemma kt_step_rearmed: "kt_step s (rearmed s)"
  unfolding rearmed_def by (rule kt_step_trans [OF kt_step_set kt_step_put]) simp

lemma rearmed_simps [simp]:
  "threads (rearmed s) = threads s" "active_tree (rearmed s) = active_tree s" "now_ticks (rearmed s) = now_ticks s"
  "queued (rearmed s) = insert (WAIT_KTIMER s) (queued s)" "wait_tree (rearmed s) = wait_tree s"
  "k \<noteq> WAIT_KTIMER s \<Longrightarrow> ktimers (rearmed s) k = ktimers s k"
  "expire_at (ktimers (rearmed s) (WAIT_KTIMER s)) = wait_deadline s"
  "WAIT_KTIMER (rearmed s) = WAIT_KTIMER s" "run_tree (rearmed s) = run_tree s" "waiting (rearmed s) = waiting s"
  "CFS_KTIMER (rearmed s) = CFS_KTIMER s"
  by (simp_all add: rearmed_def) (simp_all add: ktq_put_def kt_set_def waiting_def)

lemma WAIT_in_rearmed: "WAIT_KTIMER s \<in> set (inactive_tree (rearmed s))"
  by (simp add: rearmed_def ktq_put_def)

lemma rearmed_kinv:
  assumes k: "kinv0 s" and q: "WAIT_KTIMER s \<notin> queued s"
  shows "kinv (rearmed s)" "wait_armed (rearmed s)"
    "ktq_enqueue_inactive (WAIT_KTIMER s) (kt_set (WAIT_KTIMER s) (expire_at_update (\<lambda>_. wait_deadline s)) s) = Some (rearmed s)"
proof -
  have ok: "ktq_ok s" "links s" "WAIT_KTIMER s \<noteq> 0" using k by (auto simp: kinv0_def links_def)
  have ok1: "ktq_ok (kt_set (WAIT_KTIMER s) (expire_at_update (\<lambda>_. wait_deadline s)) s)" using ok q by (simp add: kt_set_ktq_ok)
  have ok2: "ktq_ok (rearmed s)" unfolding rearmed_def by (rule ktq_put_ok [OF ok1 ok(3)]) (use q in simp)
  show "ktq_enqueue_inactive (WAIT_KTIMER s) (kt_set (WAIT_KTIMER s) (expire_at_update (\<lambda>_. wait_deadline s)) s) = Some (rearmed s)"
    unfolding rearmed_def ktq_enqueue_inactive_def by (rule ktq_insert_eq [OF ok1 ok(3)]) (use q in simp)
  have "kinv0 (rearmed s)"
    by (rule kt_step_kinv0 [OF kt_step_rearmed k ok2]) (use ok(2) in \<open>auto simp: links_def timer_ok_def\<close>)
  then show "kinv (rearmed s)" using WAIT_in_rearmed by (simp add: kinv_def)
  show "wait_armed (rearmed s)"
    by (simp add: wait_armed_def kt_step_wait_deadline [OF kt_step_rearmed])
qed

lemma wait_deadline_later:
  assumes "wq_ok s" "now_ticks s < - 1" "expired_waiters s = {}"
  shows "now_ticks s < wait_deadline s"
proof (cases "wait_tree s")
  case (Cons t ts)
  then have "t \<noteq> 0" "\<not> wake_at (wait_entity (threads s t)) \<le> now_ticks s"
    using assms(1,3) by (auto simp: wq_ok_def expired_waiters_def)
  then show ?thesis using Cons by (simp add: wait_deadline_def)
qed (use assms(2) in \<open>simp add: wait_deadline_def KTIMER_EXPIRE_NEVER_def\<close>)

lemma wake_keeps_overdue:
  assumes k: "kinv s" and n: "no_overdue s" and w: "woke elapsed W (ktq_take (WAIT_KTIMER s) s) s2" and W: "W \<subseteq> waiting s"
    and late: "\<And>t. t \<in> W \<Longrightarrow> kind (threads s t) = Rt \<Longrightarrow> \<not> late_after elapsed s t"
  shows "no_overdue (rearmed s2)"
  unfolding no_overdue_def
proof (intro ballI impI)
  let ?s1 = "ktq_take (WAIT_KTIMER s) s"
  note A = wokeD [OF w]
  have tm: "rt_timers W ?s1 = rt_timers W s" by (simp add: rt_timers_def)
  have wn: "WAIT_KTIMER s \<notin> set (active_tree s)" "links s" using kinvD [OF k] by auto
  have a1: "active_tree ?s1 = active_tree s" using wn by (simp add: ktq_take_def remove1_idem)
  fix x assume x: "x \<in> set (active_tree (rearmed s2))" "x \<noteq> CFS_KTIMER (rearmed s2)" "expire_at (ktimers (rearmed s2) x) \<le> now_ticks (rearmed s2)"
  have xc: "x \<noteq> CFS_KTIMER s" using x(2) same_idsD(8) [OF A(3)] by simp
  have xa: "x \<in> set (active_tree s) \<union> rt_timers W s" using x(1) A(9) tm a1 by simp
  have xw: "x \<noteq> WAIT_KTIMER s2"
    using x(1) A(1) by (auto simp: kinv0_def links_def)
  show "\<not> missed (rearmed s2) x"
  proof (cases "x \<in> rt_timers W s")
    case True
    then obtain t where t: "t \<in> W" "kind (threads s t) = Rt" "x = ktimer_entity (threads s t)" by (auto simp: rt_timers_def)
    have "thread_ctx (ktimers s x) = t" using waiting_rt_timer [OF kinvD(1) [OF k], of t] t W by auto
    then show ?thesis
      using late [OF t(1,2)] A(14) [of t] t xw same_idsD(6,7) [OF A(3), of x]
      by (simp add: missed_def late_after_def not_less)
  next
    case False
    then have xs: "x \<in> set (active_tree s)" using xa by simp
    have same: "ktimers s2 x = ktimers s x" using A(13) False tm by simp
    have "timer_ok s x" "x \<noteq> WAIT_KTIMER s" using wn xs by (auto simp: links_def queued_def)
    then have "thread_ctx (ktimers s x) \<notin> W" using xc W by (auto simp: timer_ok_def)
    then show ?thesis
      using n xs xc x(3) A(4) A(12) [of "thread_ctx (ktimers s x)"] same xw by (auto simp: no_overdue_def missed_def)
  qed
qed

lemma step_wait:
  assumes d: "dispatch_pre elapsed s" and e: "ktq_first s \<noteq> 0" "ktimer_is_expired_at (ktimers s (ktq_first s)) (now_ticks s)"
    and c: "ktq_first s = WAIT_KTIMER s"
  shows "wpo (dispatch_step elapsed s) (\<lambda>r. \<exists>s'. r = Inl s' \<and> stepped elapsed s s')"
proof -
  let ?w = "WAIT_KTIMER s" and ?W = "expired_waiters s"
  let ?s1 = "ktq_take ?w s"
  note x = expired_first [OF d e, unfolded c] and dd = d [unfolded dispatch_pre_def]
  have k: "kinv s" and h: "headroom s" using dd by auto
  have wq: "wq_ok s" "links s" by (rule kinvD [OF k])+
  have wn: "?w \<notin> set (active_tree s)" "?w \<noteq> 0" using kinvD [OF k] by auto
  have a1: "active_tree ?s1 = active_tree s" using wn by (simp add: ktq_take_def remove1_idem)
  have k1: "kinv0 ?s1"
    by (rule kt_step_kinv0 [OF kt_step_take kinvD(1) [OF k] x(5)]) (use x(4) wq(2) a1 in \<open>auto simp: links_def\<close>)
  have h1: "headroom ?s1" using h by (simp add: kt_step_headroom [OF kt_step_take])
  have e1: "expired_waiters ?s1 = ?W" by (simp add: expired_waiters_def)
  have W: "?W \<subseteq> waiting s" by (auto simp: expired_waiters_def waiting_def)
  from wake_wait_thread_ok [OF k1 h1, of elapsed] obtain s2 where
    s2: "wake_wait_thread elapsed ?s1 = Some s2" "woke elapsed ?W ?s1 s2" by (auto simp: wpo_def e1)
  note A = wokeD [OF s2(2)]
  have tm: "rt_timers X ?s1 = rt_timers X s" for X by (simp add: rt_timers_def)
  have ids: "same_ids s s2" using same_ids_trans [OF kt_step_same_ids [OF kt_step_take] A(3)] .
  note I = same_idsD [OF ids]
  have tq: "rt_timers ?W s \<inter> insert ?w (queued s) = {}"
    using waiting_rt_timer [OF kinvD(1) [OF k]] W kinvD(7) [OF k] by (auto simp: rt_timers_def)
  have q2: "queued s2 = (queued s - {?w}) \<union> rt_timers ?W s"
    using A(7,9) x(4) tm by (auto simp: queued_def)
  have wq2: "WAIT_KTIMER s2 \<notin> queued s2" using q2 tq I(9) by auto
  note R = rearmed_kinv [OF A(1) wq2]
  let ?s4 = "rearmed s2"
  have ids4: "same_ids s ?s4" by (rule same_ids_trans [OF ids kt_step_same_ids [OF kt_step_rearmed]])
  have ew: "expired_waiters s2 = {}" using A(4,6) I(3) by (auto simp: expired_waiters_def)
  have ew4: "expired_waiters ?s4 = {}" using ew by (simp add: expired_waiters_def)
  have waiting2: "waiting s2 = waiting s - ?W"
    using A(5,6) wq_ok_disjoint [OF wq(1)] by (auto simp: waiting_def expired_waiters_def)
  have q4: "queued ?s4 = queued s \<union> rt_timers ?W s" using q2 I(9) kinvD(7) [OF k] by auto
  have now2: "now_ticks s2 = now_ticks s" using A(4) by simp
  have eq: "dispatch_step elapsed s = Some (Inl ?s4)"
    using e c x(3) s2(1) R(3) wn I(9)
    by (simp add: dispatch_step_def Let_def get_ktimer_def is_wait_ktimer_def update_wait_ktimer_deadline_def upd_ktimer_eq)
  have same4: "ktimers ?s4 y = ktimers s y" if "y \<in> queued s" "y \<noteq> ?w" for y
    using that A(13) [of y] tm tq I(9) by auto
  have pos4: "\<forall>y\<in>queued ?s4 \<union> rt_timers (waiting ?s4) ?s4. positive ?s4 y"
  proof
    fix y assume "y \<in> queued ?s4 \<union> rt_timers (waiting ?s4) ?s4"
    then have "y \<in> queued s \<union> rt_timers (waiting s) s"
      using q4 W waiting2 unfolding rt_timers_same_ids [OF ids4] by (auto simp: rt_timers_def)
    then show "positive ?s4 y" using dd unfolding same_ids_positive [OF ids4] by blast
  qed
  have n4: "no_overdue ?s4"
    by (rule wake_keeps_overdue [OF k _ s2(2) W]) (use dd in auto)
  have pre: "dispatch_pre elapsed ?s4"
    unfolding dispatch_pre_def
    using R(1,2) n4 A(2) dd now2 pos4 ew4 by (simp add: kt_step_headroom [OF kt_step_rearmed])
  have same5: "ktimers ?s4 y = ktimers s y" if "y \<in> queued s" "\<not> expired_at_now s y" for y
    using same4 [OF that(1)] that(2) x(2) by (cases "y = ?w") simp_all
  have disp: "dispatched ?W s ?s4"
    unfolding dispatched_def using ids4 now2 waiting2 q4 A(8) A(10,11) same5 by simp
  have due: "wait_due ?s4 = 0" "wait_due s = 1"
    using wait_deadline_later [of s2] A(1,4) ew dd x(2) by (auto simp: wait_due_def expired_at_now_def kinv0_def not_le)
  have "stepped elapsed s ?s4"
    unfolding stepped_def progress_iff using pre disp ew4 due by auto
  then show ?thesis using eq by simp
qed

section \<open>The loop\<close>

lemma dispatch_expired_ok:
  assumes "dispatch_pre elapsed s"
  shows "wpo (dispatch_expired elapsed s) (\<lambda>(e, s'). e = ktq_first_active s' \<and> dispatch_pre elapsed s'
    \<and> dispatched (expired_waiters s) s s' \<and> (\<forall>k \<in> queued s'. \<not> expired_at_now s' k))"
  using assms
proof (induction s rule: wf_induct_rule [OF wf_progress])
  case (1 s)
  have ok: "ktq_ok s" "wait_armed s" "WAIT_KTIMER s \<in> queued s" "now_ticks s < - 1" "wq_ok s"
    using 1(2) kinvD by (auto simp: dispatch_pre_def)
  show ?case
  proof (cases "ktq_first s = 0 \<or> \<not> ktimer_is_expired_at (ktimers s (ktq_first s)) (now_ticks s)")
    case True
    have no: "\<not> expired_at_now s k" if "k \<in> queued s" for k
    proof -
      have "ktq_first s \<noteq> 0" using ktq_first_zero [OF ok(1)] that by auto
      then show ?thesis
        using True ktq_first_least [OF ok(1) that] by (auto simp: expired_at_now_def ktimer_is_expired_at_def)
    qed
    have dl: "now_ticks s < wait_deadline s" using no [OF ok(3)] ok(2) by (simp add: expired_at_now_def wait_armed_def not_le)
    have "expired_waiters s = {}"
    proof (cases "wait_tree s")
      case (Cons t ts)
      then have "now_ticks s < wake_at (wait_entity (threads s t))"
        using dl ok(5) by (auto simp: wait_deadline_def wq_ok_def)
      then have "now_ticks s < wake_at (wait_entity (threads s u))" if "u \<in> set (wait_tree s)" for u
        using wait_head_least [OF ok(5) Cons, of u] that Cons by (cases "u = t") (auto elim: less_le_trans)
      then show ?thesis by (auto simp: expired_waiters_def not_le)
    qed (simp add: expired_waiters_def)
    moreover have "dispatched {} s s" by (simp add: dispatched_def rt_timers_def)
    ultimately show ?thesis
      using True no 1(2) by (auto simp: dispatch_expired.simps [of elapsed s] dispatch_step_def Let_def)
  next
    case False
    then have e: "ktq_first s \<noteq> 0" "ktimer_is_expired_at (ktimers s (ktq_first s)) (now_ticks s)" by auto
    have "wpo (dispatch_step elapsed s) (\<lambda>r. \<exists>s'. r = Inl s' \<and> stepped elapsed s s')"
      using step_cfs [OF 1(2) e] step_rt [OF 1(2) e] step_wait [OF 1(2) e] by blast
    then obtain s1 W where s1: "dispatch_step elapsed s = Some (Inl s1)" "dispatch_pre elapsed s1" "(s1, s) \<in> progress"
      "dispatched W s s1" "expired_waiters s = W \<union> expired_waiters s1"
      by (auto simp: wpo_def stepped_def)
    have "wpo (dispatch_expired elapsed s1) (\<lambda>(e, s'). e = ktq_first_active s' \<and> dispatch_pre elapsed s'
      \<and> dispatched (expired_waiters s1) s1 s' \<and> (\<forall>k \<in> queued s'. \<not> expired_at_now s' k))"
      by (rule 1(1) [OF s1(3,2)])
    then have "wpo (dispatch_expired elapsed s1) (\<lambda>(e, s'). e = ktq_first_active s' \<and> dispatch_pre elapsed s'
      \<and> dispatched (expired_waiters s) s s' \<and> (\<forall>k \<in> queued s'. \<not> expired_at_now s' k))"
      unfolding s1(5) by (rule wpo_mono) (auto intro: dispatched_trans [OF s1(4)])
    then show ?thesis using s1(1) by (simp add: dispatch_expired.simps [of elapsed s])
  qed
qed

section \<open>A relative deadline of zero\<close>

text \<open>
  A released timer with a relative deadline of zero expires at once, so the loop selects it again:
  the states below are closed under its steps.
\<close>

definition spinning :: "addr \<Rightarrow> kstate \<Rightarrow> bool" where
  "spinning e s \<longleftrightarrow>
     kinv s \<and> e \<in> set (active_tree s) \<and> e \<noteq> CFS_KTIMER s \<and> expired_at_now s e \<and> \<not> missed s e
     \<and> relative_deadline_ticks (timing (ktimers s e)) = 0
     \<and> (\<forall>k \<in> queued s. k \<noteq> e \<longrightarrow> \<not> expired_at_now s k)"

lemma spinning_first:
  assumes "spinning e s"
  shows "ktq_first s = e" "e \<noteq> 0" "e \<in> queued s"
proof -
  have ok: "ktq_ok s" and q: "e \<in> queued s" using assms kinvD(4) by (auto simp: spinning_def queued_def)
  show "e \<in> queued s" "e \<noteq> 0" using q ktq_ok_nonzero [OF ok] by auto
  have "ktq_first s \<in> queued s" using ktq_first_in [OF ok] ktq_first_zero [OF ok] q by auto
  moreover have "expired_at_now s (ktq_first s)"
    using ktq_first_least [OF ok q] assms by (auto simp: spinning_def expired_at_now_def)
  ultimately show "ktq_first s = e" using assms by (auto simp: spinning_def)
qed

lemma spinning_step:
  assumes sp: "spinning e s"
  shows "\<exists>s'. dispatch_step elapsed s = Some (Inl s') \<and> spinning e s'"
proof -
  note f = spinning_first [OF sp] and p = sp [unfolded spinning_def]
  have k: "kinv s" using p by simp
  have l: "rt_linked s e" by (rule kinv0_active_linked [OF kinvD(1) [OF k]]) (use p in auto)
  let ?s1 = "ktq_take e s"
  let ?s2 = "released e ?s1"
  let ?s3 = "ktq_put e True ?s2"
  have l1: "rt_linked ?s1 e" using l by (simp add: kt_step_rt_linked [OF kt_step_take])
  have rel: "release_rt e (active (ktimers s e)) ?s1 = Some ?s2"
    by (rule release_rt_eq [OF l1]) (use p in \<open>auto simp: missed_def\<close>)
  have q1: "ktq_ok ?s1" "queued ?s1 = queued s - {e}" using ktq_take_ok queued_ktq_take kinvD(4) [OF k] by blast+
  have ok2: "ktq_ok ?s2" using q1 by (simp add: released_ktq_ok)
  have tr: "queued ?s2 = queued s - {e}" "active_tree ?s2 = remove1 e (active_tree s)" "inactive_tree ?s2 = remove1 e (inactive_tree s)"
    using q1 by (simp_all add: ktq_take_def)
  have ew: "e \<noteq> WAIT_KTIMER s" using rt_linkedD [OF l] by simp
  note r = retime_ok [OF kinvD(1) [OF k] f(3) kt_step_released ok2 tr, of True]
  have "dispatch_step elapsed s = Some (Inl ?s3)"
    using f p rel r(1) ew ktq_remove_eq [OF kinvD(4) [OF k] f(3)]
    by (simp add: dispatch_step_def Let_def ktimer_is_expired_at_def expired_at_now_def get_ktimer_def
        is_wait_ktimer_def is_cfs_ktimer_def ktq_enqueue_active_def)
  moreover have "spinning e ?s3"
    unfolding spinning_def
  proof (intro conjI)
    have step: "kt_step s ?s3" using r(4) ew by simp
    have "WAIT_KTIMER ?s3 = WAIT_KTIMER s" by (simp only: kt_step_simps [OF step])
    then show "kinv ?s3" using r(2,6) ew kinvD(6) [OF k] by (simp only: kinv_def) simp
    show "e \<in> set (active_tree ?s3)" using r(5) ew by simp
    show "e \<noteq> CFS_KTIMER ?s3" using p by (simp only: kt_step_simps [OF step]) simp
    show "expired_at_now ?s3 e" "\<not> missed ?s3 e" "relative_deadline_ticks (timing (ktimers ?s3 e)) = 0"
      using p by (simp_all add: expired_at_now_def missed_def released_other u64_of_def kt_step_ktimers [OF kt_step_released])
    show "\<forall>k\<in>queued ?s3. k \<noteq> e \<longrightarrow> \<not> expired_at_now ?s3 k"
      using p r(3) ew by (simp add: expired_at_now_def released_other)
  qed
  ultimately show ?thesis by blast
qed

lemma spinning_diverges: "spinning e s \<Longrightarrow> dispatch_expired elapsed s = None"
proof -
  have "\<not> spinning e s" if "dispatch_expired elapsed s = Some r" for r
  proof (rule dispatch_expired.raw_induct [OF _ that, where P = "\<lambda>_ s _. \<not> spinning e s"])
    fix f elapsed s and r :: "addr \<times> kstate"
    assume IH: "\<And>elapsed s r. f elapsed s = Some r \<Longrightarrow> \<not> spinning e s"
      and body: "dispatch_step elapsed s \<bind> (\<lambda>r. case r of Inl s \<Rightarrow> f elapsed s | Inr x \<Rightarrow> Some x) = Some r"
    show "\<not> spinning e s"
    proof
      assume "spinning e s"
      from spinning_step [OF this, of elapsed] obtain s' where "dispatch_step elapsed s = Some (Inl s')" "spinning e s'" by blast
      then show False using IH body by simp
    qed
  qed
  then show "spinning e s \<Longrightarrow> dispatch_expired elapsed s = None" by (cases "dispatch_expired elapsed s") auto
qed

text \<open>The loop is its first rounds, followed by the loop.\<close>

lemma dispatch_expired_rounds:
  "dispatch_expired elapsed s =
     dispatch_rounds n elapsed s \<bind> (\<lambda>r. case r of Inl s' \<Rightarrow> dispatch_expired elapsed s' | Inr x \<Rightarrow> Some x)"
proof (induction n arbitrary: s)
  case (Suc n)
  let ?go = "\<lambda>r. case r of Inl s' \<Rightarrow> dispatch_expired elapsed s' | Inr x \<Rightarrow> Some x"
  let ?more = "\<lambda>r. case r of Inl s' \<Rightarrow> dispatch_rounds n elapsed s' | Inr x \<Rightarrow> Some (Inr x)"
  have e: "?go r = ?more r \<bind> ?go" for r by (cases r) (use Suc.IH in simp_all)
  have "dispatch_expired elapsed s = dispatch_step elapsed s \<bind> ?go" by (rule dispatch_expired.simps)
  also have "\<dots> = dispatch_step elapsed s \<bind> (\<lambda>r. ?more r \<bind> ?go)" by (rule arg_cong [where f = "Option.bind (dispatch_step elapsed s)"]) (rule ext, rule e)
  finally show ?case by simp
qed simp

lemma spinning_rounds: "spinning e s \<Longrightarrow> \<exists>s'. dispatch_rounds n elapsed s = Some (Inl s') \<and> spinning e s'"
proof (induction n arbitrary: s)
  case (Suc n)
  from spinning_step [OF Suc.prems, of elapsed] obtain s1 where "dispatch_step elapsed s = Some (Inl s1)" "spinning e s1" by blast
  then show ?case using Suc.IH [of s1] by simp
qed simp

end
