(* ===== verification/Blocking.thy ===== *)
theory Blocking
  imports Dispatch
begin

text \<open>
  How the running thread gives up the processor: yielding its timer (\<open>yield_ktimer\<close>), cooperative
  yield and sleep (\<open>yieldyi\<close>, \<open>msleepyi\<close> in \<^verbatim>\<open>src/thread.rs\<close>), and the move of a CFS thread to the
  wait queue (\<open>dequeue_runq_to_waitq\<close> in \<^verbatim>\<open>src/runq.rs\<close>), with the clock conversion of
  \<^verbatim>\<open>src/clock.rs\<close>. Each completes on a state with the invariant and keeps it.
\<close>

section \<open>Operations\<close>

definition update_sys_clk_freq :: "u32 \<Rightarrow> kstate \<Rightarrow> kstate" where
  "update_sys_clk_freq freq s = s\<lparr>SYS_CLK_FREQ := freq\<rparr>"

definition ticks_per_ms :: "kstate \<Rightarrow> u32" where
  "ticks_per_ms s = SYS_CLK_FREQ s div 1000"

definition request_context_switch :: "kstate \<Rightarrow> kstate" where
  "request_context_switch s = s\<lparr>pendsv := True\<rparr>"

definition dequeue_runq_to_waitq :: "addr \<Rightarrow> kstate \<Rightarrow> ((WaitQueueError + unit) \<times> kstate) option" where
  "dequeue_runq_to_waitq t s = do {
     th \<leftarrow> get_thread s t;
     require (kind th = Cfs);
     s \<leftarrow> (if state th = Ready then rq_remove t s else Some s);
     s \<leftarrow> insert_wait_thread t s;
     e \<leftarrow> cfs_sched_entity t s;
     s \<leftarrow> Some (s\<lparr>priority_sum := saturating_sub (priority_sum s) (priority e)\<rparr>);
     s \<leftarrow> program_wait_ktimer s;
     Some (Inr (), s)
   }"

definition yieldyi :: "kstate \<Rightarrow> kstate option" where
  "yieldyi s = do {
     let elapsed = elapsed_ticks_since_current_reload s;
     let t = CURRENT_THREAD_CTX s;
     th \<leftarrow> get_thread s t;
     if kind th = Idle then Some s
     else do {
       e \<leftarrow> thread_scheduler_ktimer t s;
       (n, s) \<leftarrow> yield_ktimer e elapsed True s;
       s \<leftarrow> Some (update_next_ktimer n s);
       s \<leftarrow> Some (record_yield t elapsed s);
       Some (request_context_switch s)
     }
   }"

definition sleep_until :: "addr \<Rightarrow> u32 \<Rightarrow> kstate \<Rightarrow> kstate" where
  "sleep_until t ticks s =
     s\<lparr>threads := (threads s)(t := (threads s t)\<lparr>wait_entity := (set_wake_after (now_ticks s) ticks
         (wait_entity (threads s t)))\<lparr>waitevt := None\<rparr>\<rparr>)\<rparr>"

definition msleepyi :: "u32 \<Rightarrow> kstate \<Rightarrow> kstate option" where
  "msleepyi msec s = do {
     let elapsed = elapsed_ticks_since_current_reload s;
     let t = CURRENT_THREAD_CTX s;
     th \<leftarrow> get_thread s t;
     if kind th = Idle then Some s
     else do {
       e \<leftarrow> thread_scheduler_ktimer t s;
       (_, s) \<leftarrow> yield_ktimer e elapsed False s;
       s \<leftarrow> Some (sleep_until t (saturating_mul msec (ticks_per_ms s)) s);
       (_, s) \<leftarrow> (if CURRENT_THREAD_IS_CFS s then dequeue_runq_to_waitq t s
                   else dequeue_ktimerq_to_waitq t s);
       Some (request_context_switch s)
     }
   }"

section \<open>Yielding a timer\<close>

definition charged :: "addr \<Rightarrow> u32 \<Rightarrow> kstate \<Rightarrow> kstate" where
  "charged e elapsed s =
     (let t = thread_ctx (ktimers s e); r = saturating_add (runtime (threads s t)) elapsed;
          s1 = set_runtime t r s
      in if r > budget_ticks (timing (ktimers s e))
         then kt_set e (miss_cnt_update (\<lambda>c. saturating_add c 1)) s1 else s1)"

lemma charged_simps [simp]:
  "queued (charged e n s) = queued s" "active_tree (charged e n s) = active_tree s"
  "inactive_tree (charged e n s) = inactive_tree s" "now_ticks (charged e n s) = now_ticks s"
  "runtime (threads (charged e n s) (thread_ctx (ktimers s e))) = saturating_add (runtime (threads s (thread_ctx (ktimers s e)))) n"
  "u \<noteq> thread_ctx (ktimers s e) \<Longrightarrow> threads (charged e n s) u = threads s u"
  "k \<noteq> e \<Longrightarrow> ktimers (charged e n s) k = ktimers s k"
  by (simp_all add: charged_def Let_def)

lemma kt_step_charged: "kt_step s (charged e n s)"
  using kt_step_trans [OF kt_step_runtime kt_step_set [of "miss_cnt_update (\<lambda>c. saturating_add c 1)"]] kt_step_runtime
  by (simp add: charged_def Let_def)

lemma charged_ktq_ok: "ktq_ok s \<Longrightarrow> e \<notin> queued s \<Longrightarrow> ktq_ok (charged e n s)"
  using set_runtime_ktq_ok [of s] by (simp add: charged_def Let_def kt_set_ktq_ok)

lemma charge_eq:
  assumes "rt_linked s e"
  shows "upd_thread (thread_ctx (ktimers s e)) (runtime_update (\<lambda>r. saturating_add r n)) s
    \<bind> record_rt_budget_overrun e (thread_ctx (ktimers s e)) = Some (charged e n s)"
proof -
  let ?t = "thread_ctx (ktimers s e)"
  let ?s1 = "set_runtime ?t (saturating_add (runtime (threads s ?t)) n) s"
  have t0: "?t \<noteq> 0" using rt_linkedD [OF assms] by simp
  have l: "rt_linked ?s1 e" using assms by (simp add: kt_step_rt_linked [OF kt_step_runtime])
  have "upd_thread ?t (runtime_update (\<lambda>r. saturating_add r n)) s = Some ?s1"
    using t0 by (cases "threads s ?t") (simp add: upd_thread_def set_runtime_def)
  then show ?thesis using record_rt_budget_overrun_eq [OF l] by (simp add: charged_def Let_def)
qed

text \<open>The deadline of a yielded timer: what is left of its period, counted from the new time.\<close>

definition yield_ticks :: "addr \<Rightarrow> u32 \<Rightarrow> kstate \<Rightarrow> u32" where
  "yield_ticks e elapsed s =
     saturating_sub (period_ticks (timing (ktimers s e)))
       (if e = CFS_KTIMER s then elapsed
        else saturating_add (runtime (threads s (thread_ctx (ktimers s e)))) elapsed)"

definition yielded :: "addr \<Rightarrow> u32 \<Rightarrow> bool \<Rightarrow> kstate \<Rightarrow> kstate \<Rightarrow> bool" where
  "yielded e elapsed reset s s' \<longleftrightarrow>
     kinv s' \<and> kt_step s s' \<and> queued s' = queued s
     \<and> set (active_tree s') = set (active_tree s) - {e} \<and> set (inactive_tree s') = insert e (set (inactive_tree s))
     \<and> now_ticks s' = saturating_add (now_ticks s) (u64_of elapsed)
     \<and> expire_at (ktimers s' e) = saturating_add (now_ticks s') (u64_of (yield_ticks e elapsed s))
     \<and> (\<forall>k. k \<noteq> e \<longrightarrow> ktimers s' k = ktimers s k)
     \<and> (\<forall>u. e = CFS_KTIMER s \<or> u \<noteq> thread_ctx (ktimers s e) \<longrightarrow> threads s' u = threads s u)
     \<and> (e \<noteq> CFS_KTIMER s \<longrightarrow> runtime (threads s' (thread_ctx (ktimers s e))) =
          (if reset then 0 else saturating_add (runtime (threads s (thread_ctx (ktimers s e)))) elapsed))"

lemma yield_ktimer_ok:
  assumes k: "kinv s" and e: "e \<in> queued s" "e \<noteq> WAIT_KTIMER s"
  shows "wpo (yield_ktimer e elapsed reset s) (\<lambda>(n, s'). n = ktq_first_active s' \<and> yielded e elapsed reset s s')"
proof -
  let ?s1 = "ktq_take e s" and ?t = "thread_ctx (ktimers s e)"
  let ?later = "saturating_add (now_ticks s) (u64_of elapsed)"
  have ok: "ktq_ok s" "e \<noteq> 0" using kinvD(4) [OF k] ktq_ok_nonzero e by auto
  have q1: "queued ?s1 = queued s - {e}" "ktq_ok ?s1" using queued_ktq_take ktq_take_ok ok by blast+
  define c where "c = (if e = CFS_KTIMER s then ?s1 else charged e elapsed ?s1)"
  define x where "x = kt_set e (set_expire_after ?later (yield_ticks e elapsed s)) c"
  define s2 where "s2 = (if e \<noteq> CFS_KTIMER s \<and> reset then set_runtime ?t 0 x else x)"
  let ?s3 = "ktq_advance_time elapsed s2"
  have stc: "kt_step ?s1 c" by (simp add: c_def kt_step_charged)
  have stx: "kt_step ?s1 x" unfolding x_def by (rule kt_step_trans [OF stc kt_step_set]) simp
  have st2: "kt_step ?s1 s2" using stx kt_step_trans [OF stx kt_step_runtime] by (simp add: s2_def)
  have st3: "kt_step ?s1 ?s3"
    by (rule kt_step_trans [OF st2]) (simp add: kt_step_def ktq_advance_time_def)
  have okc: "ktq_ok c" using q1 charged_ktq_ok [of ?s1 e] by (auto simp: c_def)
  have qc: "queued c = queued s - {e}" using q1 by (auto simp: c_def)
  have ok2: "ktq_ok s2" using okc qc set_runtime_ktq_ok [of x] by (simp add: s2_def x_def kt_set_ktq_ok)
  have ok3: "ktq_ok ?s3" by (rule ktq_ok_frame [OF ok2]) (simp_all add: ktq_advance_time_def)
  have tr: "queued ?s3 = queued s - {e}" "active_tree ?s3 = remove1 e (active_tree s)" "inactive_tree ?s3 = remove1 e (inactive_tree s)"
    using qc by (simp_all add: s2_def x_def ktq_advance_time_def queued_def) (simp_all add: c_def ktq_take_def)
  note r = retime_ok [OF kinvD(1) [OF k] e(1) st3 ok3 tr, of False]
  let ?s4 = "ktq_put e False ?s3"
  have body: "yield_ktimer e elapsed reset s = Some (ktq_first_active ?s4, ?s4)"
  proof (cases "e = CFS_KTIMER s")
    case True
    then have "s2 = kt_set e (set_expire_after ?later (saturating_sub (period_ticks (timing (ktimers s e))) elapsed)) ?s1"
      by (simp add: s2_def x_def c_def yield_ticks_def)
    then show ?thesis
      using True ok(2) ktq_remove_eq [OF ok(1) e(1)] r(1)
      by (simp add: yield_ktimer_def Let_def get_ktimer_def is_cfs_ktimer_def upd_ktimer_eq ktq_enqueue_inactive_def)
  next
    case False
    then have l: "rt_linked s e" using kinvD(5) [OF k] e by (auto simp: links_def timer_ok_def)
    have l1: "rt_linked ?s1 e" using l by (simp add: kt_step_rt_linked [OF kt_step_take])
    have l2: "rt_linked c e" using l1 by (simp add: kt_step_rt_linked [OF stc])
    have d: "container_of e ?s1 = Some (ktimers ?s1 e)" "rt_thread ?t ?s1 = Some (threads ?s1 ?t)" "?t \<noteq> 0"
      using rt_linkedD [OF l1] by simp_all
    have d2: "rt_thread ?t c = Some (threads c ?t)" using rt_linkedD(8) [OF l2] by (simp add: kt_step_ktimers [OF stc])
    have rc: "runtime (threads c ?t) = saturating_add (runtime (threads s ?t)) elapsed"
      using charged_simps(5) [of e elapsed ?s1] False by (simp add: c_def)
    have up: "upd_thread ?t (runtime_update (\<lambda>_. 0)) x = Some (set_runtime ?t 0 x)"
      using d(3) by (simp add: upd_thread_def set_runtime_def)
    obtain s' where s': "upd_thread ?t (runtime_update (\<lambda>r. saturating_add r elapsed)) ?s1 = Some s'"
      "record_rt_budget_overrun e ?t s' = Some c"
      using charge_eq [OF l1, of elapsed] False by (auto simp: c_def bind_eq_Some_conv)
    have y: "saturating_sub (period_ticks (timing (ktimers s e))) (runtime (threads c ?t)) = yield_ticks e elapsed s"
      using False rc by (simp add: yield_ticks_def)
    show ?thesis
      using False ok(2) ktq_remove_eq [OF ok(1) e(1)] r(1) d(1,2) d2 s' up
      by (cases reset) (simp_all add: yield_ktimer_def Let_def get_ktimer_def is_cfs_ktimer_def upd_ktimer_eq
          ktq_enqueue_inactive_def y x_def [symmetric] s2_def)
  qed
  have "yielded e elapsed reset s ?s4"
    unfolding yielded_def
  proof (intro conjI allI impI)
    have step: "kt_step s ?s4" using r(4) by simp
    then show "kt_step s ?s4" .
    have "WAIT_KTIMER ?s4 = WAIT_KTIMER s" by (simp only: kt_step_simps [OF step])
    then show "kinv ?s4" using r(2,6) kinvD(6) [OF k] unfolding kinv_def by auto
    show "queued ?s4 = queued s" "set (active_tree ?s4) = set (active_tree s) - {e}"
      "set (inactive_tree ?s4) = insert e (set (inactive_tree s))" using r(3,5,6) by simp_all
    have nc: "now_ticks c = now_ticks s" by (simp add: c_def)
    then show "now_ticks ?s4 = ?later" by (simp add: s2_def x_def ktq_advance_time_def)
    show "expire_at (ktimers ?s4 e) = saturating_add (now_ticks ?s4) (u64_of (yield_ticks e elapsed s))"
      using nc by (simp add: s2_def x_def ktq_advance_time_def set_expire_after_def)
    show "ktimers ?s4 y = ktimers s y" if "y \<noteq> e" for y
      using that by (simp add: s2_def x_def ktq_advance_time_def c_def)
    show "threads ?s4 u = threads s u" if "e = CFS_KTIMER s \<or> u \<noteq> ?t" for u
      using that by (auto simp: s2_def x_def ktq_advance_time_def c_def)
    show "runtime (threads ?s4 ?t) = (if reset then 0 else saturating_add (runtime (threads s ?t)) elapsed)"
      if "e \<noteq> CFS_KTIMER s"
      using that charged_simps(5) [of e elapsed ?s1] by (simp add: s2_def x_def ktq_advance_time_def c_def)
  qed
  then show ?thesis using body by simp
qed

section \<open>A CFS thread blocks\<close>

definition with_rq :: "addr list \<Rightarrow> u32 \<Rightarrow> kstate \<Rightarrow> kstate" where
  "with_rq xs p s = s\<lparr>run_tree := xs, priority_sum := p\<rparr>"

lemma with_rq_simps [simp]:
  "threads (with_rq xs p s) = threads s" "ktimers (with_rq xs p s) = ktimers s" "run_tree (with_rq xs p s) = xs"
  "priority_sum (with_rq xs p s) = p" "wait_tree (with_rq xs p s) = wait_tree s" "suspended (with_rq xs p s) = suspended s"
  "waiting (with_rq xs p s) = waiting s" "queued (with_rq xs p s) = queued s" "active_tree (with_rq xs p s) = active_tree s"
  "inactive_tree (with_rq xs p s) = inactive_tree s" "now_ticks (with_rq xs p s) = now_ticks s"
  "CFS_KTIMER (with_rq xs p s) = CFS_KTIMER s" "WAIT_KTIMER (with_rq xs p s) = WAIT_KTIMER s"
  "NEXT_KTIMER (with_rq xs p s) = NEXT_KTIMER s" "CURRENT_THREAD_CTX (with_rq xs p s) = CURRENT_THREAD_CTX s"
  "CURRENT_THREAD_IS_CFS (with_rq xs p s) = CURRENT_THREAD_IS_CFS s" "IDLE_THREAD_CTX (with_rq xs p s) = IDLE_THREAD_CTX s"
  "timer_reload (with_rq xs p s) = timer_reload s" "timer_current (with_rq xs p s) = timer_current s"
  "first_active_node (with_rq xs p s) = first_active_node s" "first_inactive_node (with_rq xs p s) = first_inactive_node s"
  by (simp_all add: with_rq_def waiting_def queued_def)

lemma rt_linked_with_rq [simp]: "rt_linked (with_rq xs p s) k = rt_linked s k"
  by (simp add: rt_linked_def)

lemma kinv_with_rq:
  assumes k: "kinv s" and r: "rq_ok (with_rq xs p s)"
  shows "kinv (with_rq xs p s)"
proof -
  have "wq_ok (with_rq xs p s)" by (rule wq_ok_frame [OF kinvD(2) [OF k]]) simp_all
  moreover have "ktq_ok (with_rq xs p s)" by (rule ktq_ok_frame [OF kinvD(4) [OF k]]) simp_all
  moreover have "links (with_rq xs p s)"
    using kinvD(5) [OF k] by (simp add: links_def timer_ok_def waiter_ok_def)
  ultimately show ?thesis using r kinvD(6) [OF k] by (simp add: kinv_def kinv0_def)
qed

lemma rq_ok_remove: "rq_ok s \<Longrightarrow> rq_ok (with_rq (remove1 t (run_tree s)) p s)"
proof -
  assume r: "rq_ok s"
  have "sched_cmp (with_rq (remove1 t (run_tree s)) p s) = sched_cmp s" by (simp add: sched_cmp_def)
  then show ?thesis
    using r scmp.ordered_remove1 [of s "run_tree s" t] by (auto simp: rq_ok_def dest: notin_set_remove1)
qed

lemma rq_ok_sum: "rq_ok s \<Longrightarrow> rq_ok (with_rq (run_tree s) p s)"
  by (erule rq_ok_frame) simp_all

lemma no_overdue_with_rq: "no_overdue s \<Longrightarrow> no_overdue (with_rq xs p s)"
  by (erule no_overdue_cong) simp_all

definition runnable_cfs :: "kstate \<Rightarrow> addr \<Rightarrow> bool" where
  "runnable_cfs s t \<longleftrightarrow>
     t \<noteq> 0 \<and> kind (threads s t) = Cfs \<and> priority (sched_entity (threads s t)) \<noteq> 0
     \<and> (state (threads s t) = Running \<or> state (threads s t) = Ready \<and> t \<in> set (run_tree s))"

lemma runnable_cfs_remove:
  assumes "rq_ok s" "runnable_cfs s t"
  shows "(if state (threads s t) = Ready then rq_remove t s else Some s) = Some (with_rq (remove1 t (run_tree s)) (priority_sum s) s)"
proof -
  have id: "with_rq xs (priority_sum s) s = s\<lparr>run_tree := xs\<rparr>" for xs by (cases s) (simp add: with_rq_def)
  show ?thesis
  proof (cases "state (threads s t) = Ready")
    case True
    then show ?thesis using assms(2) by (simp add: runnable_cfs_def rq_remove_def ol_remove_def id)
  next
    case False
    then have "t \<notin> set (run_tree s)" using assms(1) by (auto simp: rq_ok_def)
    then show ?thesis using False unfolding id by (simp add: remove1_idem)
  qed
qed

text \<open>The state of the queues once \<open>t\<close> has left the run queue, before the wait timer is set.\<close>

definition cfs_off :: "addr \<Rightarrow> kstate \<Rightarrow> kstate" where
  "cfs_off t s =
     (let s2 = block_thread t (with_rq (remove1 t (run_tree s)) (priority_sum s) s) in
      with_rq (run_tree s2) (saturating_sub (priority_sum s) (priority (sched_entity (threads s t)))) s2)"

lemma cfs_off_ok:
  assumes k: "kinv s" and t: "runnable_cfs s t"
  shows "kinv (cfs_off t s)"
    "dequeue_runq_to_waitq t s = program_wait_ktimer (cfs_off t s) \<bind> (\<lambda>s. Some (Inr (), s))"
proof -
  note tt = t [unfolded runnable_cfs_def]
  let ?s1 = "with_rq (remove1 t (run_tree s)) (priority_sum s) s"
  let ?s2 = "block_thread t ?s1"
  have nb: "\<not> is_blocked (state (threads s t))" using tt by (auto simp: is_blocked_def)
  have nw: "t \<notin> waiting ?s1" using runnable_not_waiting [OF kinvD(2) [OF k] nb] by simp
  have k1: "kinv ?s1" by (rule kinv_with_rq [OF k rq_ok_remove [OF kinvD(3) [OF k]]])
  have nr: "t \<notin> set (run_tree ?s1)" using rq_ok_distinct [OF kinvD(3) [OF k]] by simp
  have ins: "insert_wait_thread t ?s1 = Some ?s2"
    by (rule insert_wait_thread_eq [OF _ _ nw]) (use tt nb in simp_all)
  have k2: "kinv ?s2"
    by (rule block_thread_kinv [OF k1 _ _ nw nr]) (use tt in \<open>simp_all add: waiter_ok_def\<close>)
  show "kinv (cfs_off t s)"
    unfolding cfs_off_def Let_def by (rule kinv_with_rq [OF k2 rq_ok_sum [OF kinvD(3) [OF k2]]])
  have "?s2\<lparr>priority_sum := saturating_sub (priority_sum s) (priority (sched_entity (threads s t)))\<rparr> = cfs_off t s"
    by (simp add: with_rq_def cfs_off_def Let_def)
  then show "dequeue_runq_to_waitq t s = program_wait_ktimer (cfs_off t s) \<bind> (\<lambda>s. Some (Inr (), s))"
    using tt runnable_cfs_remove [OF kinvD(3) [OF k] t] ins
    by (simp add: dequeue_runq_to_waitq_def store_defs require_def cfs_sched_entity_def)
qed

lemma cfs_off_simps [simp]:
  "ktimers (cfs_off t s) = ktimers s" "queued (cfs_off t s) = queued s" "active_tree (cfs_off t s) = active_tree s"
  "inactive_tree (cfs_off t s) = inactive_tree s" "first_active_node (cfs_off t s) = first_active_node s"
  "first_inactive_node (cfs_off t s) = first_inactive_node s" "now_ticks (cfs_off t s) = now_ticks s"
  "CFS_KTIMER (cfs_off t s) = CFS_KTIMER s" "WAIT_KTIMER (cfs_off t s) = WAIT_KTIMER s"
  "run_tree (cfs_off t s) = remove1 t (run_tree s)" "waiting (cfs_off t s) = insert t (waiting s)"
  "priority_sum (cfs_off t s) = saturating_sub (priority_sum s) (priority (sched_entity (threads s t)))"
  "kind (threads (cfs_off t s) u) = kind (threads s u)" "sched_entity (threads (cfs_off t s) u) = sched_entity (threads s u)"
  "sync_entity (threads (cfs_off t s) u) = sync_entity (threads s u)" "wait_entity (threads (cfs_off t s) u) = wait_entity (threads s u)"
  "runtime (threads (cfs_off t s) u) = runtime (threads s u)" "ktimer_entity (threads (cfs_off t s) u) = ktimer_entity (threads s u)"
  "u \<noteq> t \<Longrightarrow> threads (cfs_off t s) u = threads s u" "is_blocked (state (threads (cfs_off t s) t))"
  "suspended (cfs_off t s) = (if waits_forever s t then suspended s @ [t] else suspended s)"
  "CURRENT_THREAD_CTX (cfs_off t s) = CURRENT_THREAD_CTX s" "CURRENT_THREAD_IS_CFS (cfs_off t s) = CURRENT_THREAD_IS_CFS s"
  "IDLE_THREAD_CTX (cfs_off t s) = IDLE_THREAD_CTX s"
  by (simp_all add: cfs_off_def Let_def block_thread_state waits_forever_def)

lemma dequeue_runq_to_waitq_ok:
  assumes k: "kinv s" and n: "no_overdue s" and t: "runnable_cfs s t"
  shows "wpo (dequeue_runq_to_waitq t s) (\<lambda>(r, s'). r = Inr () \<and> blocked t s s' \<and> wait_armed s' \<and> queued s' = queued s
    \<and> run_tree s' = remove1 t (run_tree s)
    \<and> priority_sum s' = saturating_sub (priority_sum s) (priority (sched_entity (threads s t)))
    \<and> (\<forall>u. sched_entity (threads s' u) = sched_entity (threads s u)) \<and> same_ids s s')"
proof -
  note o = cfs_off_ok [OF k t]
  have n3: "no_overdue (cfs_off t s)" by (rule no_overdue_cong [OF n]) simp_all
  obtain s4 where s4: "program_wait_ktimer (cfs_off t s) = Some s4" "kinv s4" "refreshed (cfs_off t s) s4"
    using program_wait_ktimer_ok [OF o(1) n3] by (auto simp: wpo_def)
  note f = s4(3) [unfolded refreshed_def]
  have step: "kt_step (cfs_off t s) s4" using f by simp
  have b: "blocked t s s4"
    using s4(2) f by (simp add: blocked_def kt_step_simps [OF step] kt_step_waiting [OF step])
  have "same_ids s (cfs_off t s)"
    by (simp add: same_ids_def) (simp add: cfs_off_def Let_def with_rq_def block_thread_def)
  then have ids: "same_ids s s4" by (rule same_ids_trans [OF _ kt_step_same_ids [OF step]])
  show ?thesis
    using o(2) s4(1) b ids f program_wait_ktimer_armed [OF o(1) n3 s4(1)] by (simp add: kt_step_simps [OF step])
qed

section \<open>Cooperative yield\<close>

text \<open>Two states that agree on everything the invariant speaks about.\<close>

definition same_core :: "kstate \<Rightarrow> kstate \<Rightarrow> bool" where
  "same_core s s' \<longleftrightarrow>
     threads s' = threads s \<and> ktimers s' = ktimers s \<and> CFS_KTIMER s' = CFS_KTIMER s \<and> WAIT_KTIMER s' = WAIT_KTIMER s
     \<and> run_tree s' = run_tree s \<and> priority_sum s' = priority_sum s \<and> wait_tree s' = wait_tree s
     \<and> suspended s' = suspended s \<and> active_tree s' = active_tree s \<and> inactive_tree s' = inactive_tree s
     \<and> first_active_node s' = first_active_node s \<and> first_inactive_node s' = first_inactive_node s
     \<and> now_ticks s' = now_ticks s"

lemma same_core_inv:
  assumes c: "same_core s s'"
  shows "kinv s' = kinv s" "no_overdue s' = no_overdue s" "wait_armed s' = wait_armed s" "headroom s' = headroom s"
    "waiting s' = waiting s" "queued s' = queued s" "ktq_first_active s' = ktq_first_active s" "expired_waiters s' = expired_waiters s"
proof -
  note cc = c [unfolded same_core_def]
  show w: "waiting s' = waiting s" and q: "queued s' = queued s" using cc by (simp_all add: waiting_def queued_def)
  have cm: "wait_cmp s' = wait_cmp s" "sched_cmp s' = sched_cmp s" "ktimer_cmp s' = ktimer_cmp s"
    using cc by (simp_all add: wait_cmp_def sched_cmp_def ktimer_cmp_def)
  have "rt_linked s' k = rt_linked s k" "waiter_ok s' k = waiter_ok s k" for k
    using cc by (simp_all add: rt_linked_def waiter_ok_def)
  then have "links s' = links s" using cc by (simp add: links_def timer_ok_def w q)
  then show "kinv s' = kinv s" using cc by (simp add: kinv_def kinv0_def wq_ok_def rq_ok_def ktq_ok_def cm)
  show "no_overdue s' = no_overdue s" "wait_armed s' = wait_armed s" "headroom s' = headroom s"
    "ktq_first_active s' = ktq_first_active s" "expired_waiters s' = expired_waiters s"
    using cc by (simp_all add: no_overdue_def missed_def wait_armed_def wait_deadline_def Let_def headroom_def all_prio_def
        blocked_cfs_def w ktq_first_active_def expired_waiters_def)
qed

lemma same_core_simps [simp]:
  "same_core s (request_context_switch s)" "same_core s (update_next_ktimer e s)" "same_core s (record_yield t n s)"
  "same_core s (record_context_switch t u s)" "same_core s (record_wakeup t s)"
  by (simp_all add: same_core_def request_context_switch_def update_next_ktimer_def)

lemma same_core_trans: "same_core s s1 \<Longrightarrow> same_core s1 s2 \<Longrightarrow> same_core s s2"
  by (simp add: same_core_def)

definition own_timer :: "kstate \<Rightarrow> addr" where
  "own_timer s = (if kind (threads s (CURRENT_THREAD_CTX s)) = Cfs then CFS_KTIMER s
                  else ktimer_entity (threads s (CURRENT_THREAD_CTX s)))"

definition can_yield :: "kstate \<Rightarrow> bool" where
  "can_yield s \<longleftrightarrow>
     CURRENT_THREAD_CTX s \<noteq> 0 \<and> kind (threads s (CURRENT_THREAD_CTX s)) \<noteq> Idle
     \<and> own_timer s \<in> queued s \<and> own_timer s \<noteq> WAIT_KTIMER s"

lemma own_timer_eq:
  "can_yield s \<Longrightarrow> thread_scheduler_ktimer (CURRENT_THREAD_CTX s) s = Some (own_timer s)"
  by (cases "kind (threads s (CURRENT_THREAD_CTX s))")
    (auto simp: can_yield_def thread_scheduler_ktimer_def store_defs own_timer_def)

text \<open>Which thread runs does not change before the context switch.\<close>

definition same_run :: "kstate \<Rightarrow> kstate \<Rightarrow> bool" where
  "same_run s s' \<longleftrightarrow>
     CURRENT_THREAD_CTX s' = CURRENT_THREAD_CTX s \<and> CURRENT_THREAD_IS_CFS s' = CURRENT_THREAD_IS_CFS s
     \<and> IDLE_THREAD_CTX s' = IDLE_THREAD_CTX s \<and> (\<forall>u. kind (threads s' u) = kind (threads s u))
     \<and> (\<forall>u. priority (sched_entity (threads s' u)) = priority (sched_entity (threads s u)))"

lemma yieldyi_ok:
  assumes k: "kinv s" and c: "can_yield s"
  shows "wpo (yieldyi s) (\<lambda>s'. kinv s' \<and> pendsv s' \<and> NEXT_KTIMER s' = ktq_first_active s'
    \<and> same_run s s'
    \<and> (\<exists>s1. yielded (own_timer s) (elapsed_ticks_since_current_reload s) True s s1 \<and> same_core s1 s'))"
proof -
  let ?n = "elapsed_ticks_since_current_reload s" and ?t = "CURRENT_THREAD_CTX s"
  from yield_ktimer_ok [OF k, of "own_timer s" ?n True] c obtain s1 where
    s1: "yield_ktimer (own_timer s) ?n True s = Some (ktq_first_active s1, s1)" "yielded (own_timer s) ?n True s s1"
    by (auto simp: can_yield_def wpo_def)
  let ?s' = "request_context_switch (record_yield ?t ?n (update_next_ktimer (ktq_first_active s1) s1))"
  have eq: "yieldyi s = Some ?s'"
    using c s1(1) own_timer_eq [OF c] by (simp add: yieldyi_def Let_def can_yield_def get_thread_def)
  have core: "same_core s1 ?s'" using same_core_trans same_core_simps(1-3) by meson
  have "pendsv ?s'" "NEXT_KTIMER ?s' = ktq_first_active s1"
    by (simp_all add: request_context_switch_def update_next_ktimer_def)
  moreover have "same_run s ?s'"
  proof -
    have st: "kt_step s s1" using s1(2) by (simp add: yielded_def)
    show ?thesis by (simp add: same_run_def request_context_switch_def update_next_ktimer_def kt_step_simps [OF st])
  qed
  ultimately show ?thesis
    using eq s1(2) core by (auto simp: same_core_inv [OF core] yielded_def)
qed

section \<open>Sleep\<close>

definition set_wait :: "addr \<Rightarrow> WaitEntity \<Rightarrow> kstate \<Rightarrow> kstate" where
  "set_wait t w s = s\<lparr>threads := (threads s)(t := (threads s t)\<lparr>wait_entity := w\<rparr>)\<rparr>"

lemma set_wait_simps [simp]:
  "ktimers (set_wait t w s) = ktimers s" "active_tree (set_wait t w s) = active_tree s"
  "inactive_tree (set_wait t w s) = inactive_tree s" "queued (set_wait t w s) = queued s"
  "waiting (set_wait t w s) = waiting s" "run_tree (set_wait t w s) = run_tree s" "now_ticks (set_wait t w s) = now_ticks s"
  "CFS_KTIMER (set_wait t w s) = CFS_KTIMER s" "WAIT_KTIMER (set_wait t w s) = WAIT_KTIMER s"
  "wait_tree (set_wait t w s) = wait_tree s" "suspended (set_wait t w s) = suspended s"
  "first_active_node (set_wait t w s) = first_active_node s" "first_inactive_node (set_wait t w s) = first_inactive_node s"
  "kind (threads (set_wait t w s) u) = kind (threads s u)" "state (threads (set_wait t w s) u) = state (threads s u)"
  "ktimer_entity (threads (set_wait t w s) u) = ktimer_entity (threads s u)"
  "runtime (threads (set_wait t w s) u) = runtime (threads s u)"
  "sched_entity (threads (set_wait t w s) u) = sched_entity (threads s u)"
  "u \<noteq> t \<Longrightarrow> threads (set_wait t w s) u = threads s u"
  "wait_entity (threads (set_wait t w s) t) = w"
  "CURRENT_THREAD_IS_CFS (set_wait t w s) = CURRENT_THREAD_IS_CFS s" "IDLE_THREAD_CTX (set_wait t w s) = IDLE_THREAD_CTX s"
  "CURRENT_THREAD_CTX (set_wait t w s) = CURRENT_THREAD_CTX s"
  "sync_entity (threads (set_wait t w s) u) = sync_entity (threads s u)"
  by (simp_all add: set_wait_def queued_def waiting_def)

lemma set_wait_links [simp]: "rt_linked (set_wait t w s) k = rt_linked s k"
  by (simp add: rt_linked_def)

lemma set_wait_kinv:
  assumes k: "kinv s" and t: "t \<notin> waiting s"
  shows "kinv (set_wait t w s)"
proof -
  have "wq_ok (set_wait t w s)"
    by (rule wq_ok_frame [OF kinvD(2) [OF k]]) (use t in \<open>auto simp: set_wait_def\<close>)
  moreover have "rq_ok (set_wait t w s)" by (rule rq_ok_frame [OF kinvD(3) [OF k]]) simp_all
  moreover have "ktq_ok (set_wait t w s)" by (rule ktq_ok_frame [OF kinvD(4) [OF k]]) simp_all
  moreover have "links (set_wait t w s)"
    using kinvD(5) [OF k] by (simp add: links_def timer_ok_def waiter_ok_def)
  ultimately show ?thesis using kinvD(6) [OF k] by (simp add: kinv_def kinv0_def)
qed

lemma yielded_no_overdue:
  assumes k: "kinv s" and n: "no_overdue (ktq_advance_time elapsed s)" and y: "yielded e elapsed reset s s1"
    and e: "e \<in> queued s" "e \<noteq> WAIT_KTIMER s"
  shows "no_overdue s1"
  unfolding no_overdue_def
proof (intro ballI impI)
  note yy = y [unfolded yielded_def]
  have step: "kt_step s s1" using yy by simp
  fix x assume x: "x \<in> set (active_tree s1)" "x \<noteq> CFS_KTIMER s1" "expire_at (ktimers s1 x) \<le> now_ticks s1"
  have xe: "x \<noteq> e" "x \<in> set (active_tree s)" "x \<noteq> CFS_KTIMER s" using x(1,2) yy by (auto simp: kt_step_simps [OF step])
  have nm: "\<not> missed s x"
    using n xe x(3) yy by (auto simp: no_overdue_def missed_def ktq_advance_time_def)
  have l: "rt_linked s x" by (rule kinv0_active_linked [OF kinvD(1) [OF k] xe(2,3)])
  have "e = CFS_KTIMER s \<or> thread_ctx (ktimers s x) \<noteq> thread_ctx (ktimers s e) \<or> \<not> rt_linked s e"
    using rt_linkedD(6) [OF l] rt_linkedD(6) [of s e] xe(1) by metis
  moreover have "rt_linked s e" if "e \<noteq> CFS_KTIMER s"
    using kinvD(5) [OF k] e that by (auto simp: links_def timer_ok_def)
  ultimately have "threads s1 (thread_ctx (ktimers s x)) = threads s (thread_ctx (ktimers s x))" using yy by blast
  then show "\<not> missed s1 x" using nm by (simp add: missed_def kt_step_ktimers [OF step])
qed

definition can_block :: "kstate \<Rightarrow> bool" where
  "can_block s \<longleftrightarrow>
     (let t = CURRENT_THREAD_CTX s in
      if CURRENT_THREAD_IS_CFS s
      then runnable_cfs s t \<and> state (threads s t) = Running \<and> CFS_KTIMER s \<in> queued s
      else runnable_rt s t)"

lemma can_block_yield:
  assumes k: "kinv s" and c: "can_block s"
  shows "can_yield s" "CURRENT_THREAD_CTX s \<notin> waiting s" "CURRENT_THREAD_CTX s \<noteq> 0"
    "own_timer s = (if CURRENT_THREAD_IS_CFS s then CFS_KTIMER s else ktimer_entity (threads s (CURRENT_THREAD_CTX s)))"
proof -
  let ?t = "CURRENT_THREAD_CTX s"
  have cw: "CFS_KTIMER s \<noteq> WAIT_KTIMER s" using kinvD(5) [OF k] by (simp add: links_def)
  show t0: "?t \<noteq> 0" using c by (auto simp: can_block_def Let_def runnable_cfs_def runnable_rt_def split: if_splits)
  show o: "own_timer s = (if CURRENT_THREAD_IS_CFS s then CFS_KTIMER s else ktimer_entity (threads s ?t))"
    using c by (auto simp: can_block_def Let_def runnable_cfs_def runnable_rt_def own_timer_def split: if_splits)
  have "\<not> is_blocked (state (threads s ?t))"
    using c by (auto simp: can_block_def Let_def runnable_cfs_def runnable_rt_def is_blocked_def split: if_splits)
  then show "?t \<notin> waiting s" by (rule runnable_not_waiting [OF kinvD(2) [OF k]])
  show "can_yield s"
    unfolding can_yield_def o using c cw rt_linkedD(5) [of s "ktimer_entity (threads s ?t)"] t0
    by (auto simp: can_block_def Let_def runnable_cfs_def runnable_rt_def split: if_splits)
qed

text \<open>The state in which the running thread has given up its timer and has a new timeout.\<close>

lemma go_to_sleep:
  assumes k: "kinv s" and c: "can_block s" and n: "no_overdue (ktq_advance_time elapsed s)"
    and y: "yielded (own_timer s) elapsed False s s1"
    and t_def: "t = CURRENT_THREAD_CTX s" and s2_def: "s2 = set_wait (CURRENT_THREAD_CTX s) w s1"
  shows "wpo (if CURRENT_THREAD_IS_CFS s then dequeue_runq_to_waitq t s2 else dequeue_ktimerq_to_waitq t s2)
    (\<lambda>(r, s'). r = Inr () \<and> blocked t s2 s' \<and> wait_armed s'
       \<and> queued s' = (if CURRENT_THREAD_IS_CFS s then queued s else queued s - {own_timer s}))"
proof -
  note b = can_block_yield [OF k c]
  note yy = y [unfolded yielded_def]
  have step: "kt_step s s1" and k1: "kinv s1" using yy by auto
  have q: "queued s1 = queued s" using yy by simp
  have w: "t \<notin> waiting s1" using b(2) by (simp add: t_def kt_step_waiting [OF step])
  have k2: "kinv s2" unfolding s2_def t_def [symmetric] by (rule set_wait_kinv [OF k1 w])
  have n1: "no_overdue s1" by (rule yielded_no_overdue [OF k n y]) (use b(1) in \<open>auto simp: can_yield_def\<close>)
  have n2: "no_overdue s2" unfolding s2_def by (rule no_overdue_cong [OF n1]) simp_all
  show ?thesis
  proof (cases "CURRENT_THREAD_IS_CFS s")
    case True
    have "runnable_cfs s2 t"
      using c True by (simp add: can_block_def Let_def runnable_cfs_def s2_def t_def kt_step_simps [OF step])
    note d = dequeue_runq_to_waitq_ok [OF k2 n2 this]
    have "wpo (dequeue_runq_to_waitq t s2) (\<lambda>(r, s'). r = Inr () \<and> blocked t s2 s' \<and> wait_armed s' \<and> queued s' = queued s)"
      by (rule wpo_mono [OF d]) (auto simp: s2_def q)
    then show ?thesis using True by simp
  next
    case False
    have "runnable_rt s2 t"
      using c False by (simp add: can_block_def Let_def runnable_rt_def s2_def t_def kt_step_simps [OF step] kt_step_rt_linked [OF step] q)
    note d = dequeue_ktimerq_to_waitq_ok [OF k2 n2 this]
    have "wpo (dequeue_ktimerq_to_waitq t s2) (\<lambda>(r, s'). r = Inr () \<and> blocked t s2 s' \<and> wait_armed s' \<and> queued s' = queued s - {own_timer s})"
      by (rule wpo_mono [OF d]) (use False b(4) in \<open>auto simp: s2_def q t_def kt_step_simps [OF step]\<close>)
    then show ?thesis using False by simp
  qed
qed

lemma msleepyi_ok:
  assumes k: "kinv s" and c: "can_block s" and n: "no_overdue (ktq_advance_time (elapsed_ticks_since_current_reload s) s)"
  shows "wpo (msleepyi msec s) (\<lambda>s'. kinv s' \<and> no_overdue s' \<and> wait_armed s' \<and> pendsv s'
    \<and> waiting s' = insert (CURRENT_THREAD_CTX s) (waiting s) \<and> NEXT_KTIMER s' = ktq_first_active s'
    \<and> is_blocked (state (threads s' (CURRENT_THREAD_CTX s)))
    \<and> now_ticks s' = saturating_add (now_ticks s) (u64_of (elapsed_ticks_since_current_reload s))
    \<and> wake_at (wait_entity (threads s' (CURRENT_THREAD_CTX s))) =
        saturating_add (now_ticks s') (u64_of (saturating_mul msec (ticks_per_ms s)))
    \<and> (\<forall>u. u \<noteq> CURRENT_THREAD_CTX s \<longrightarrow> state (threads s' u) = state (threads s u))
    \<and> queued s' = (if CURRENT_THREAD_IS_CFS s then queued s else queued s - {own_timer s}) \<and> same_run s s'
    \<and> (\<forall>u. sync_entity (threads s' u) = sync_entity (threads s u)))"
proof -
  let ?n = "elapsed_ticks_since_current_reload s" and ?t = "CURRENT_THREAD_CTX s"
  let ?ticks = "saturating_mul msec (ticks_per_ms s)"
  note b = can_block_yield [OF k c]
  from yield_ktimer_ok [OF k, of "own_timer s" ?n False] b(1) obtain s1 where
    s1: "yield_ktimer (own_timer s) ?n False s = Some (ktq_first_active s1, s1)" "yielded (own_timer s) ?n False s s1"
    by (auto simp: can_yield_def wpo_def)
  note yy = s1(2) [unfolded yielded_def]
  have step: "kt_step s s1" using yy by simp
  have clk: "ticks_per_ms s1 = ticks_per_ms s" using step by (cases s; cases s1) (simp add: kt_step_def ticks_per_ms_def)
  let ?w = "(set_wake_after (now_ticks s1) ?ticks (wait_entity (threads s1 ?t)))\<lparr>waitevt := None\<rparr>"
  let ?s2 = "set_wait ?t ?w s1"
  have sl: "sleep_until ?t ?ticks s1 = ?s2" by (simp add: sleep_until_def set_wait_def)
  from go_to_sleep [OF k c n s1(2) refl refl, of ?w] obtain s3 where
    s3: "(if CURRENT_THREAD_IS_CFS s then dequeue_runq_to_waitq ?t ?s2 else dequeue_ktimerq_to_waitq ?t ?s2) = Some (Inr (), s3)"
      "blocked ?t ?s2 s3" "wait_armed s3" "queued s3 = (if CURRENT_THREAD_IS_CFS s then queued s else queued s - {own_timer s})"
    by (auto simp: wpo_def)
  have core: "same_core s3 (request_context_switch s3)" by simp
  have "msleepyi msec s = Some (request_context_switch s3)"
    using b(1,3) s1(1) own_timer_eq [OF b(1)] s3(1)
    by (cases "CURRENT_THREAD_IS_CFS s")
      (simp_all add: msleepyi_def Let_def can_yield_def get_thread_def clk sl kt_step_simps [OF step])
  moreover have "same_run s (request_context_switch s3)"
    using s3(2) by (simp add: same_run_def request_context_switch_def blocked_def kt_step_simps [OF step])
  ultimately show ?thesis
    using s3(2-4) yy
    by (simp add: same_core_inv [OF core] blocked_def kt_step_waiting [OF step] kt_step_simps [OF step])
      (simp add: request_context_switch_def set_wake_after_def)
qed

end
