(* ===== verification/Sched.thy ===== *)
theory Sched
  imports Blocking
begin

text \<open>
  The scheduler (\<^verbatim>\<open>src/sched.rs\<close>): charging the running CFS thread, choosing the next thread from
  the selected timer and the run queue, switching to it, and the timer tick that dispatches expired
  timers and requests a switch.
\<close>

section \<open>Operations\<close>

definition is_idle_thread :: "addr \<Rightarrow> kstate \<Rightarrow> bool" where
  "is_idle_thread t s \<longleftrightarrow> t \<noteq> 0 \<and> t = IDLE_THREAD_CTX s"

definition init_cfs :: "u32 \<Rightarrow> u32 \<Rightarrow> kstate \<Rightarrow> kstate option" where
  "init_cfs period exec s = do {
     s \<leftarrow> Some (init_cfs_rq s);
     s \<leftarrow> Some (s\<lparr>IDLE_THREAD_CTX := 0\<rparr>);
     s \<leftarrow> upd_ktimer (CFS_KTIMER s) (\<lambda>_. CfsKTimer_new period exec ''cfs'') s;
     s \<leftarrow> upd_ktimer (CFS_KTIMER s) (expire_at_update (\<lambda>_. u64_of exec)) s;
     enqueue_ktimer (CFS_KTIMER s) s
   }"

definition register_idle_thread :: "addr \<Rightarrow> kstate \<Rightarrow> kstate option" where
  "register_idle_thread t s = do {
     th \<leftarrow> get_thread s t;
     require (kind th = Idle);
     Some (s\<lparr>IDLE_THREAD_CTX := t\<rparr>)
   }"

text \<open>The outgoing thread becomes ready unless it is blocked or stays.\<close>

definition retire_current :: "addr \<Rightarrow> kstate \<Rightarrow> kstate option" where
  "retire_current n s =
     (let c = CURRENT_THREAD_CTX s in
      if c \<noteq> 0 \<and> c \<noteq> n \<and> \<not> is_blocked (state (threads s c)) then set_state c Ready s else Some s)"

definition switch_to_cfs_thread :: "addr \<Rightarrow> kstate \<Rightarrow> kstate option" where
  "switch_to_cfs_thread n s = do {
     s \<leftarrow> Some (record_context_switch (CURRENT_THREAD_CTX s) n s);
     s \<leftarrow> retire_current n s;
     s \<leftarrow> set_state n Running s;
     Some (s\<lparr>CURRENT_THREAD_CTX := n, CURRENT_THREAD_IS_CFS := True\<rparr>)
   }"

definition switch_to_idle_thread :: "kstate \<Rightarrow> kstate option" where
  "switch_to_idle_thread s =
     (let i = IDLE_THREAD_CTX s in
      if i = 0 then Some s
      else do {
        s \<leftarrow> Some (record_context_switch (CURRENT_THREAD_CTX s) i s);
        s \<leftarrow> retire_current i s;
        s \<leftarrow> set_state i Running s;
        th \<leftarrow> get_thread s i;
        Some (s\<lparr>CURRENT_THREAD_CTX := i, CURRENT_THREAD_IS_CFS := (kind th = Cfs)\<rparr>)
      })"

definition requeue_current_cfs_thread_before_idle :: "kstate \<Rightarrow> kstate option" where
  "requeue_current_cfs_thread_before_idle s =
     (let c = CURRENT_THREAD_CTX s in
      if IDLE_THREAD_CTX s = 0 \<or> c = 0 \<or> \<not> CURRENT_THREAD_IS_CFS s \<or> is_idle_thread c s
         \<or> is_blocked (state (threads s c))
      then Some s
      else do {
        _ \<leftarrow> cfs_sched_entity c s;
        require (c \<notin> set (run_tree s));
        s \<leftarrow> set_state c Ready s;
        rq_insert c s
      })"

definition switch_to_idle_thread_with_current_requeued :: "kstate \<Rightarrow> kstate option" where
  "switch_to_idle_thread_with_current_requeued s = do {
     s \<leftarrow> requeue_current_cfs_thread_before_idle s;
     switch_to_idle_thread s
   }"

text \<open>The running CFS thread pays for the elapsed ticks.\<close>

definition charge_current :: "u32 \<Rightarrow> kstate \<Rightarrow> kstate option" where
  "charge_current elapsed s =
     (if \<not> CURRENT_THREAD_IS_CFS s then Some s
      else do {
        let c = CURRENT_THREAD_CTX s;
        th \<leftarrow> get_thread s c;
        if state th = Running \<and> \<not> is_idle_thread c s \<and> priority_sum s \<noteq> 0 then do {
          e \<leftarrow> cfs_sched_entity c s;
          d \<leftarrow> cfs_vruntime_delta (u64_of elapsed) (priority e) (priority_sum s);
          v \<leftarrow> checked_add (vruntime e) d;
          n \<leftarrow> checked_add (sched_tick_cnt e) (u64_of elapsed);
          upd_sched c (\<lambda>e. e\<lparr>vruntime := v, sched_tick_cnt := n\<rparr>) s
        } else Some s
      })"

text \<open>The active CFS timer is selected and \<open>n\<close> has been popped from the run queue.\<close>

definition schedule_cfs :: "addr \<Rightarrow> kstate \<Rightarrow> kstate option" where
  "schedule_cfs n s = do {
     let c = CURRENT_THREAD_CTX s;
     cur \<leftarrow> get_thread s c;
     if CURRENT_THREAD_IS_CFS s then
       (if is_blocked (state cur) \<or> is_idle_thread c s then switch_to_cfs_thread n s
        else do {
          ce \<leftarrow> cfs_sched_entity c s;
          require (c \<noteq> n);
          ne \<leftarrow> cfs_sched_entity n s;
          if vruntime ce > vruntime ne then do {
            s \<leftarrow> Some (record_context_switch c n s);
            s \<leftarrow> set_state c Ready s;
            s \<leftarrow> rq_insert c s;
            s \<leftarrow> set_state n Running s;
            Some (s\<lparr>CURRENT_THREAD_CTX := n, CURRENT_THREAD_IS_CFS := True\<rparr>)
          } else rq_insert n s
        })
     else do {
       s \<leftarrow> (if \<not> is_blocked (state cur) then set_state c Ready s else Some s);
       switch_to_cfs_thread n s
     }
   }"

text \<open>A real-time timer is selected: its thread runs.\<close>

definition schedule_rt :: "addr \<Rightarrow> kstate \<Rightarrow> kstate option" where
  "schedule_rt n s = do {
     let c = CURRENT_THREAD_CTX s;
     cur \<leftarrow> get_thread s c;
     s \<leftarrow> (if \<not> is_blocked (state cur) then do {
             s \<leftarrow> set_state c Ready s;
             if CURRENT_THREAD_IS_CFS s \<and> \<not> is_idle_thread c s then do {
               _ \<leftarrow> cfs_sched_entity c s;
               rq_insert c s
             } else Some s
           } else Some s);
     s \<leftarrow> Some (record_context_switch c n s);
     s \<leftarrow> set_state n Running s;
     Some (s\<lparr>CURRENT_THREAD_CTX := n, CURRENT_THREAD_IS_CFS := False\<rparr>)
   }"

definition schedule :: "kstate \<Rightarrow> kstate option" where
  "schedule s = do {
     let next = NEXT_KTIMER s;
     let elapsed = elapsed_ticks_since_last_interrupt s;
     s \<leftarrow> charge_current elapsed s;
     if next = 0 then do {
       s \<leftarrow> switch_to_idle_thread_with_current_requeued s;
       (_, s) \<leftarrow> program_next_scheduler_timer s;
       Some s
     } else if is_cfs_ktimer next s then do {
       s \<leftarrow> (if \<not> active (ktimers s next) then switch_to_idle_thread_with_current_requeued s
             else do {
               (n, s) \<leftarrow> rq_pop_first s;
               case n of None \<Rightarrow> switch_to_idle_thread_with_current_requeued s
               | Some n \<Rightarrow> schedule_cfs n s
             });
       (_, s) \<leftarrow> program_next_scheduler_timer s;
       Some s
     } else do {
       k \<leftarrow> container_of next s;
       if thread_ctx k = 0 then Some s
       else do {
         s \<leftarrow> schedule_rt (thread_ctx k) s;
         (_, s) \<leftarrow> program_next_scheduler_timer s;
         Some s
       }
     }
   }"

definition handle_sched_tick :: "kstate \<Rightarrow> kstate option" where
  "handle_sched_tick s =
     (if \<not> SCHEDULER_STARTED s then Some s
      else do {
        let elapsed = elapsed_ticks_since_last_interrupt s;
        s \<leftarrow> Some (advance_ktimers elapsed s);
        (n, s) \<leftarrow> dispatch_expired elapsed s;
        s \<leftarrow> Some (update_next_ktimer n s);
        Some (request_context_switch s)
      })"

section \<open>The timer is always programmed within range\<close>

lemma writable_reload_range:
  "SCHEDULER_TIMER_RELOAD_MIN \<le> writable_reload r \<and> writable_reload r \<le> SCHEDULER_TIMER_RELOAD_MAX"
  by (auto simp: writable_reload_def SCHEDULER_TIMER_RELOAD_MIN_def SCHEDULER_TIMER_RELOAD_MAX_def)

lemma reload_for_entity_range:
  "scheduler_timer_reload_for_entity e s = Some r \<Longrightarrow> SCHEDULER_TIMER_RELOAD_MIN \<le> r \<and> r \<le> SCHEDULER_TIMER_RELOAD_MAX"
  using writable_reload_range
  by (auto simp: scheduler_timer_reload_for_entity_def programmable_reload_from_ticks_def Let_def split: if_splits)

definition programmed :: "kstate \<Rightarrow> kstate" where
  "programmed s =
     (case scheduler_timer_reload_for_entity (ktq_first s) s of
        None \<Rightarrow> s | Some r \<Rightarrow> program_scheduler_timer_reload r s)"

lemma program_next_eq: "\<exists>r. program_next_scheduler_timer s = Some (r, programmed s)"
  using reload_for_entity_range [of "ktq_first s" s]
  by (cases "scheduler_timer_reload_for_entity (ktq_first s) s")
    (auto simp: program_next_scheduler_timer_def programmed_def require_def)

lemma programmed_frame [simp]:
  "same_core s (programmed s)" "CURRENT_THREAD_CTX (programmed s) = CURRENT_THREAD_CTX s"
  "CURRENT_THREAD_IS_CFS (programmed s) = CURRENT_THREAD_IS_CFS s" "IDLE_THREAD_CTX (programmed s) = IDLE_THREAD_CTX s"
  "NEXT_KTIMER (programmed s) = NEXT_KTIMER s" "SCHEDULER_STARTED (programmed s) = SCHEDULER_STARTED s"
  by (auto simp: programmed_def program_scheduler_timer_reload_def same_core_def split: option.splits)

section \<open>What a switch may change\<close>

definition sched_frame :: "kstate \<Rightarrow> kstate \<Rightarrow> bool" where
  "sched_frame s s' \<longleftrightarrow>
     (\<forall>u. threads s' u = (threads s u)\<lparr>state := state (threads s' u)\<rparr>
        \<and> (is_blocked (state (threads s u)) \<longrightarrow> state (threads s' u) = state (threads s u)))
     \<and> ktimers s' = ktimers s \<and> CFS_KTIMER s' = CFS_KTIMER s \<and> WAIT_KTIMER s' = WAIT_KTIMER s
     \<and> priority_sum s' = priority_sum s \<and> wait_tree s' = wait_tree s \<and> suspended s' = suspended s
     \<and> active_tree s' = active_tree s \<and> inactive_tree s' = inactive_tree s
     \<and> first_active_node s' = first_active_node s \<and> first_inactive_node s' = first_inactive_node s
     \<and> now_ticks s' = now_ticks s \<and> IDLE_THREAD_CTX s' = IDLE_THREAD_CTX s \<and> NEXT_KTIMER s' = NEXT_KTIMER s
     \<and> SCHEDULER_STARTED s' = SCHEDULER_STARTED s \<and> timer_reload s' = timer_reload s"

lemma sched_frameD:
  assumes "sched_frame s s'"
  shows "ktimers s' = ktimers s" "CFS_KTIMER s' = CFS_KTIMER s" "WAIT_KTIMER s' = WAIT_KTIMER s"
    "priority_sum s' = priority_sum s" "wait_tree s' = wait_tree s" "suspended s' = suspended s"
    "active_tree s' = active_tree s" "inactive_tree s' = inactive_tree s"
    "first_active_node s' = first_active_node s" "first_inactive_node s' = first_inactive_node s"
    "now_ticks s' = now_ticks s" "IDLE_THREAD_CTX s' = IDLE_THREAD_CTX s" "NEXT_KTIMER s' = NEXT_KTIMER s"
    "queued s' = queued s" "waiting s' = waiting s"
    "is_blocked (state (threads s u)) \<Longrightarrow> state (threads s' u) = state (threads s u)"
    "SCHEDULER_STARTED s' = SCHEDULER_STARTED s" "timer_reload s' = timer_reload s"
  using assms by (simp_all add: sched_frame_def queued_def waiting_def)

lemma sched_frame_thread:
  assumes "sched_frame s s'"
  shows "kind (threads s' u) = kind (threads s u)" "wait_entity (threads s' u) = wait_entity (threads s u)"
    "sync_entity (threads s' u) = sync_entity (threads s u)" "sched_entity (threads s' u) = sched_entity (threads s u)"
    "ktimer_entity (threads s' u) = ktimer_entity (threads s u)" "runtime (threads s' u) = runtime (threads s u)"
proof -
  have "threads s' u = (threads s u)\<lparr>state := state (threads s' u)\<rparr>" using assms by (simp add: sched_frame_def)
  then show "kind (threads s' u) = kind (threads s u)" "wait_entity (threads s' u) = wait_entity (threads s u)"
    "sync_entity (threads s' u) = sync_entity (threads s u)" "sched_entity (threads s' u) = sched_entity (threads s u)"
    "ktimer_entity (threads s' u) = ktimer_entity (threads s u)" "runtime (threads s' u) = runtime (threads s u)"
    by (cases "threads s u"; cases "threads s' u"; simp)+
qed

lemmas sched_frame_simps = sched_frameD(1-15,17,18) sched_frame_thread

lemma sched_frame_refl [simp]: "sched_frame s s"
  by (simp add: sched_frame_def)

lemma sched_frame_trans:
  assumes "sched_frame s s1" "sched_frame s1 s2"
  shows "sched_frame s s2"
proof -
  have "threads s2 u = (threads s u)\<lparr>state := state (threads s2 u)\<rparr>" for u
  proof -
    have "threads s2 u = ((threads s u)\<lparr>state := state (threads s1 u)\<rparr>)\<lparr>state := state (threads s2 u)\<rparr>"
      using assms unfolding sched_frame_def by metis
    then show ?thesis by simp
  qed
  moreover have "is_blocked (state (threads s u)) \<Longrightarrow> state (threads s2 u) = state (threads s u)" for u
    using sched_frameD(16) [OF assms(1), of u] sched_frameD(16) [OF assms(2), of u] by simp
  ultimately show ?thesis using assms by (simp add: sched_frame_def)
qed

lemma sched_frame_kinv:
  assumes k: "kinv s" and f: "sched_frame s s'" and r: "rq_ok s'"
  shows "kinv s'"
proof -
  have "wq_ok s'"
    by (rule wq_ok_frame [OF kinvD(2) [OF k]])
      (use wq_ok_blocked [OF kinvD(2) [OF k]] sched_frameD(16) [OF f] in \<open>auto simp: sched_frame_simps [OF f]\<close>)
  moreover have "ktq_ok s'" by (rule ktq_ok_frame [OF kinvD(4) [OF k]]) (auto simp: sched_frame_simps [OF f])
  moreover have "rt_linked s' x = rt_linked s x" for x by (simp add: rt_linked_def sched_frame_simps [OF f])
  then have "links s'"
    using kinvD(5) [OF k] by (simp add: links_def timer_ok_def waiter_ok_def sched_frame_simps [OF f])
  ultimately show ?thesis using r kinvD(6) [OF k] by (simp add: kinv_def kinv0_def sched_frame_simps [OF f])
qed

definition put_state :: "addr \<Rightarrow> ThreadState \<Rightarrow> kstate \<Rightarrow> kstate" where
  "put_state t st s = s\<lparr>threads := (threads s)(t := (threads s t)\<lparr>state := st\<rparr>)\<rparr>"

lemma put_state_simps [simp]:
  "threads (put_state t st s) u = (if u = t then (threads s t)\<lparr>state := st\<rparr> else threads s u)"
  "run_tree (put_state t st s) = run_tree s" "CURRENT_THREAD_CTX (put_state t st s) = CURRENT_THREAD_CTX s"
  "CURRENT_THREAD_IS_CFS (put_state t st s) = CURRENT_THREAD_IS_CFS s" "IDLE_THREAD_CTX (put_state t st s) = IDLE_THREAD_CTX s"
  "priority_sum (put_state t st s) = priority_sum s" "ktimers (put_state t st s) = ktimers s"
  by (simp_all add: put_state_def)

lemma set_state_eq:
  "t \<noteq> 0 \<Longrightarrow> can_transition_to (state (threads s t)) st \<Longrightarrow> set_state t st s = Some (put_state t st s)"
  by (simp add: set_state_def store_defs require_def put_state_def)

lemma not_blocked_transition: "\<not> is_blocked st \<Longrightarrow> can_transition_to st st'"
  by (cases st) (auto simp: is_blocked_def can_transition_to_def)

lemma set_state_runnable:
  "t \<noteq> 0 \<Longrightarrow> \<not> is_blocked (state (threads s t)) \<Longrightarrow> set_state t st s = Some (put_state t st s)"
  by (simp add: set_state_eq not_blocked_transition)

lemma sched_frame_put_state: "\<not> is_blocked (state (threads s t)) \<Longrightarrow> sched_frame s (put_state t st s)"
  by (auto simp: sched_frame_def) (simp_all add: put_state_def)

lemma sched_frame_with_rq: "sched_frame s (with_rq xs (priority_sum s) s)"
  by (simp add: sched_frame_def) (simp add: with_rq_def)

lemma sched_frame_trace: "sched_frame s (record_context_switch a b s)"
  by (simp add: sched_frame_def)

lemma sched_frame_current: "sched_frame s (s\<lparr>CURRENT_THREAD_CTX := t, CURRENT_THREAD_IS_CFS := b\<rparr>)"
  by (simp add: sched_frame_def)

definition enq :: "addr \<Rightarrow> kstate \<Rightarrow> kstate" where
  "enq t s = with_rq (oinsert (sched_cmp s) t (run_tree s)) (priority_sum s) s"

lemma enq_simps [simp]:
  "threads (enq t s) = threads s" "set (run_tree (enq t s)) = insert t (set (run_tree s))"
  "CURRENT_THREAD_CTX (enq t s) = CURRENT_THREAD_CTX s" "CURRENT_THREAD_IS_CFS (enq t s) = CURRENT_THREAD_IS_CFS s"
  "IDLE_THREAD_CTX (enq t s) = IDLE_THREAD_CTX s"
  by (simp_all add: enq_def)

lemma sched_frame_enq: "sched_frame s (enq t s)"
  unfolding enq_def by (rule sched_frame_with_rq)

lemma rq_insert_eq: "t \<notin> set (run_tree s) \<Longrightarrow> rq_insert t s = Some (enq t s)"
  by (cases s) (simp add: rq_insert_def ol_insert_def enq_def with_rq_def)

lemma enq_rq_ok:
  assumes "rq_ok s" "t \<noteq> 0" "kind (threads s t) = Cfs" "priority (sched_entity (threads s t)) \<noteq> 0"
    "state (threads s t) = Ready" "t \<notin> set (run_tree s)"
  shows "rq_ok (enq t s)"
  using rq_insert_ok [OF assms] rq_insert_eq [OF assms(6)] by simp

lemma rq_ok_put_state: "rq_ok s \<Longrightarrow> t \<notin> set (run_tree s) \<Longrightarrow> rq_ok (put_state t st s)"
  by (erule rq_ok_frame) auto

lemma rq_ok_same: "rq_ok s \<Longrightarrow> threads s' = threads s \<Longrightarrow> run_tree s' = run_tree s \<Longrightarrow> rq_ok s'"
  by (erule rq_ok_frame) auto

section \<open>Invariant of the scheduler\<close>

text \<open>
  At most the current thread is running, a blocked thread is in the wait queue, and the idle
  thread is there to fall back to.
\<close>

definition sched_inv :: "kstate \<Rightarrow> bool" where
  "sched_inv s \<longleftrightarrow>
     kinv s \<and> CURRENT_THREAD_CTX s \<noteq> 0 \<and> IDLE_THREAD_CTX s \<noteq> 0
     \<and> (CURRENT_THREAD_IS_CFS s \<longleftrightarrow> kind (threads s (CURRENT_THREAD_CTX s)) = Cfs)
     \<and> (kind (threads s (CURRENT_THREAD_CTX s)) = Cfs \<longrightarrow>
          priority (sched_entity (threads s (CURRENT_THREAD_CTX s))) \<noteq> 0 \<and> state (threads s (CURRENT_THREAD_CTX s)) \<noteq> Ready)
     \<and> (\<forall>u. state (threads s u) = Running \<longrightarrow> u = CURRENT_THREAD_CTX s)
     \<and> (\<forall>u. is_blocked (state (threads s u)) \<longrightarrow> u \<in> waiting s)
     \<and> kind (threads s (IDLE_THREAD_CTX s)) = Idle"

text \<open>The CFS threads that want the processor: the queued ones and the current one unless it is blocked.\<close>

definition runnable_set :: "kstate \<Rightarrow> addr set" where
  "runnable_set s =
     set (run_tree s) \<union> (if CURRENT_THREAD_IS_CFS s \<and> \<not> is_blocked (state (threads s (CURRENT_THREAD_CTX s)))
                          then {CURRENT_THREAD_CTX s} else {})"

definition switched :: "addr \<Rightarrow> kstate \<Rightarrow> kstate \<Rightarrow> bool" where
  "switched n s s' \<longleftrightarrow>
     sched_frame s s' \<and> rq_ok s' \<and> CURRENT_THREAD_CTX s' = n
     \<and> (CURRENT_THREAD_IS_CFS s' \<longleftrightarrow> kind (threads s n) = Cfs)
     \<and> set (run_tree s') = runnable_set s - {n}
     \<and> (\<forall>u. state (threads s' u) = Running \<longleftrightarrow> u = n)
     \<and> (\<forall>u. \<not> is_blocked (state (threads s u)) \<longrightarrow> \<not> is_blocked (state (threads s' u)))"

lemma sched_invD:
  assumes "sched_inv s"
  shows "kinv s" "CURRENT_THREAD_CTX s \<noteq> 0" "IDLE_THREAD_CTX s \<noteq> 0"
    "CURRENT_THREAD_IS_CFS s \<longleftrightarrow> kind (threads s (CURRENT_THREAD_CTX s)) = Cfs"
    "kind (threads s (CURRENT_THREAD_CTX s)) = Cfs \<Longrightarrow> priority (sched_entity (threads s (CURRENT_THREAD_CTX s))) \<noteq> 0"
    "kind (threads s (CURRENT_THREAD_CTX s)) = Cfs \<Longrightarrow> state (threads s (CURRENT_THREAD_CTX s)) \<noteq> Ready"
    "state (threads s u) = Running \<Longrightarrow> u = CURRENT_THREAD_CTX s"
    "is_blocked (state (threads s u)) \<Longrightarrow> u \<in> waiting s"
    "kind (threads s (IDLE_THREAD_CTX s)) = Idle" "rq_ok s" "wq_ok s"
    "CURRENT_THREAD_CTX s \<notin> set (run_tree s)" "IDLE_THREAD_CTX s \<notin> set (run_tree s)"
    "\<not> is_blocked (state (threads s (IDLE_THREAD_CTX s)))"
proof -
  note ss = assms [unfolded sched_inv_def]
  show k: "kinv s" "CURRENT_THREAD_CTX s \<noteq> 0" "IDLE_THREAD_CTX s \<noteq> 0"
    "CURRENT_THREAD_IS_CFS s \<longleftrightarrow> kind (threads s (CURRENT_THREAD_CTX s)) = Cfs"
    "kind (threads s (CURRENT_THREAD_CTX s)) = Cfs \<Longrightarrow> priority (sched_entity (threads s (CURRENT_THREAD_CTX s))) \<noteq> 0"
    "kind (threads s (CURRENT_THREAD_CTX s)) = Cfs \<Longrightarrow> state (threads s (CURRENT_THREAD_CTX s)) \<noteq> Ready"
    "state (threads s u) = Running \<Longrightarrow> u = CURRENT_THREAD_CTX s"
    "is_blocked (state (threads s u)) \<Longrightarrow> u \<in> waiting s"
    "kind (threads s (IDLE_THREAD_CTX s)) = Idle"
    using ss by blast+
  show r: "rq_ok s" "wq_ok s" by (rule kinvD [OF k(1)])+
  show "CURRENT_THREAD_CTX s \<notin> set (run_tree s)" "IDLE_THREAD_CTX s \<notin> set (run_tree s)"
    using r(1) ss by (auto simp: rq_ok_def)
  show "\<not> is_blocked (state (threads s (IDLE_THREAD_CTX s)))"
    using ss wq_ok_blocked [OF r(2), of "IDLE_THREAD_CTX s"] by blast
qed

lemma switched_inv:
  assumes i: "sched_inv s" and w: "switched n s s'" and n: "n \<noteq> 0" "\<not> is_blocked (state (threads s n))"
    "kind (threads s n) = Cfs \<Longrightarrow> n \<in> runnable_set s"
  shows "sched_inv s'" "runnable_set s' = runnable_set s" "state (threads s' n) = Running"
proof -
  note I = sched_invD [OF i]
  have f: "sched_frame s s'" "rq_ok s'" and c: "CURRENT_THREAD_CTX s' = n" "CURRENT_THREAD_IS_CFS s' \<longleftrightarrow> kind (threads s n) = Cfs"
    and rt: "set (run_tree s') = runnable_set s - {n}"
    and run: "\<And>u. state (threads s' u) = Running \<longleftrightarrow> u = n"
    and nb: "\<And>u. \<not> is_blocked (state (threads s u)) \<Longrightarrow> \<not> is_blocked (state (threads s' u))"
    using w by (auto simp: switched_def)
  note F = sched_frame_simps [OF f(1)]
  have k: "kinv s'" by (rule sched_frame_kinv [OF I(1) f])
  show rn: "state (threads s' n) = Running" using run by simp
  then have nr: "state (threads s' n) \<noteq> Ready" by simp
  have pr: "priority (sched_entity (threads s n)) \<noteq> 0" if "kind (threads s n) = Cfs"
    using n(3) [OF that] I(4,5,10) by (auto simp: runnable_set_def rq_ok_def split: if_splits)
  show "sched_inv s'"
    unfolding sched_inv_def c F using k n(1) I(3,9) nr run pr nb I(8) by auto
  show "runnable_set s' = runnable_set s"
  proof (cases "kind (threads s n) = Cfs")
    case True
    then show ?thesis using n(3) rt c rn by (auto simp: runnable_set_def [of s'] is_blocked_def)
  next
    case False
    have "n \<notin> runnable_set s" using False I(4,10) by (auto simp: runnable_set_def rq_ok_def split: if_splits)
    then show ?thesis using False rt c by (auto simp: runnable_set_def [of s'])
  qed
qed

section \<open>Falling back to the idle thread\<close>

lemma retire_current_eq:
  "retire_current n s = Some (if CURRENT_THREAD_CTX s \<noteq> 0 \<and> CURRENT_THREAD_CTX s \<noteq> n \<and> \<not> is_blocked (state (threads s (CURRENT_THREAD_CTX s)))
     then put_state (CURRENT_THREAD_CTX s) Ready s else s)"
  by (simp add: retire_current_def Let_def set_state_runnable)

lemma switch_to_idle_ok:
  assumes i: "sched_inv s"
  shows "wpo (switch_to_idle_thread_with_current_requeued s) (switched (IDLE_THREAD_CTX s) s)"
proof -
  note I = sched_invD [OF i]
  let ?c = "CURRENT_THREAD_CTX s" and ?i = "IDLE_THREAD_CTX s"
  let ?go = "CURRENT_THREAD_IS_CFS s \<and> \<not> is_blocked (state (threads s ?c))"
  define a where "a = (if ?go then enq ?c (put_state ?c Ready s) else s)"
  define b where "b = record_context_switch ?c ?i a"
  define d where "d = (if ?c \<noteq> ?i \<and> \<not> is_blocked (state (threads b ?c)) then put_state ?c Ready b else b)"
  define e where "e = put_state ?i Running d"
  let ?s' = "e\<lparr>CURRENT_THREAD_CTX := ?i, CURRENT_THREAD_IS_CFS := False\<rparr>"
  have ci: "CURRENT_THREAD_IS_CFS s \<Longrightarrow> ?c \<noteq> ?i" using I(4,9) by auto
  have rq: "requeue_current_cfs_thread_before_idle s = Some a"
    using I(2,3,4,12) ci
    by (auto simp: requeue_current_cfs_thread_before_idle_def Let_def a_def is_idle_thread_def cfs_sched_entity_def
        store_defs require_def set_state_runnable rq_insert_eq)
  have ab: "CURRENT_THREAD_CTX b = ?c" "IDLE_THREAD_CTX b = ?i" "IDLE_THREAD_CTX a = ?i" "CURRENT_THREAD_CTX a = ?c" by (simp_all add: a_def b_def)
  have tb: "threads b u = (if ?go \<and> u = ?c then (threads s ?c)\<lparr>state := Ready\<rparr> else threads s u)" for u
    by (simp add: a_def b_def)
  have td: "threads d u = (if u = ?c \<and> ?c \<noteq> ?i \<and> \<not> is_blocked (state (threads s ?c)) then (threads s ?c)\<lparr>state := Ready\<rparr> else threads b u)" for u
    by (auto simp: d_def tb is_blocked_def)
  have nbi: "\<not> is_blocked (state (threads d ?i))" using I(14) by (auto simp: td tb is_blocked_def)
  have ret: "retire_current ?i b = Some d" unfolding retire_current_eq d_def using ab I(2) by simp
  have run: "set_state ?i Running d = Some e" unfolding e_def by (rule set_state_runnable [OF I(3) nbi])
  have ke: "kind (threads e ?i) = Idle" using I(9) by (auto simp: e_def td tb)
  have eq: "switch_to_idle_thread_with_current_requeued s = Some ?s'"
    using rq I(3) ab ret run ke
    by (simp add: switch_to_idle_thread_with_current_requeued_def switch_to_idle_thread_def Let_def b_def [symmetric] get_thread_def)
  have fa: "sched_frame s a"
    unfolding a_def using sched_frame_trans [OF sched_frame_put_state sched_frame_enq] by auto
  have fb: "sched_frame s b" unfolding b_def by (rule sched_frame_trans [OF fa sched_frame_trace])
  have fd: "sched_frame s d" unfolding d_def using fb sched_frame_trans [OF fb sched_frame_put_state] by auto
  have fe: "sched_frame s e" unfolding e_def by (rule sched_frame_trans [OF fd sched_frame_put_state [OF nbi]])
  have fs: "sched_frame s ?s'" by (rule sched_frame_trans [OF fe sched_frame_current])
  have ra: "rq_ok a"
    unfolding a_def using I(2,4,5,10,12) rq_ok_put_state [OF I(10), of ?c Ready]
    by (auto intro!: enq_rq_ok)
  have rb: "rq_ok b" by (rule rq_ok_same [OF ra]) (simp_all add: b_def)
  have rd: "rq_ok d"
  proof (cases "?c \<in> set (run_tree b)")
    case True
    then have "state (threads b ?c) = Ready" using rb by (simp add: rq_ok_def)
    then have "put_state ?c Ready b = b" by (cases b) (auto simp: put_state_def)
    then show ?thesis using rb by (simp add: d_def)
  next
    case False
    then show ?thesis using rb rq_ok_put_state by (simp add: d_def)
  qed
  have rtd: "set (run_tree d) = runnable_set s" by (auto simp: d_def b_def a_def runnable_set_def)
  have ni: "?i \<notin> runnable_set s" using I(13) ci by (auto simp: runnable_set_def)
  have re: "rq_ok ?s'"
    by (rule rq_ok_same [of e]) (use rq_ok_put_state [OF rd] ni rtd in \<open>auto simp: e_def\<close>)
  have "state (threads ?s' u) = Running \<longleftrightarrow> u = ?i" for u
    using I(4,6) I(7) [of u] by (cases "u = ?i") (auto simp: e_def td tb is_blocked_def split: if_splits ThreadState.splits)
  moreover have "\<not> is_blocked (state (threads s u)) \<Longrightarrow> \<not> is_blocked (state (threads ?s' u))" for u
    by (auto simp: e_def td tb is_blocked_def)
  ultimately have "switched ?i s ?s'"
    unfolding switched_def using fs re I(9) rtd ni by (auto simp: e_def)
  then show ?thesis using eq by simp
qed

section \<open>Choosing a CFS thread\<close>

lemma switch_to_cfs_eq:
  assumes "CURRENT_THREAD_CTX s \<noteq> 0" "CURRENT_THREAD_CTX s \<noteq> n" "n \<noteq> 0" "\<not> is_blocked (state (threads s n))"
  shows "switch_to_cfs_thread n s = Some ((put_state n Running
    (if is_blocked (state (threads s (CURRENT_THREAD_CTX s))) then record_context_switch (CURRENT_THREAD_CTX s) n s
     else put_state (CURRENT_THREAD_CTX s) Ready (record_context_switch (CURRENT_THREAD_CTX s) n s)))
    \<lparr>CURRENT_THREAD_CTX := n, CURRENT_THREAD_IS_CFS := True\<rparr>)"
  using assms by (simp add: switch_to_cfs_thread_def retire_current_eq set_state_runnable)

lemma popped_head:
  assumes i: "sched_inv s" and q: "run_tree s = n # ns"
  defines "s1 \<equiv> with_rq ns (priority_sum s) s"
  shows "rq_pop_first s = Some (Some n, s1)" "n \<noteq> 0" "kind (threads s n) = Cfs" "state (threads s n) = Ready"
    "priority (sched_entity (threads s n)) \<noteq> 0" "n \<notin> set ns" "n \<noteq> CURRENT_THREAD_CTX s" "rq_ok s1" "sched_frame s s1"
    "\<And>u. u \<in> set (run_tree s) \<Longrightarrow> vruntime (sched_entity (threads s n)) \<le> vruntime (sched_entity (threads s u))"
proof -
  note I = sched_invD [OF i]
  show "rq_pop_first s = Some (Some n, s1)"
    using q by (cases s) (simp add: rq_pop_first_def ol_pop_def s1_def with_rq_def)
  show "n \<noteq> 0" "kind (threads s n) = Cfs" "state (threads s n) = Ready" "priority (sched_entity (threads s n)) \<noteq> 0"
    using I(10) q by (auto simp: rq_ok_def)
  show "n \<notin> set ns" using rq_ok_distinct [OF I(10)] q by simp
  show "n \<noteq> CURRENT_THREAD_CTX s" using I(12) q by auto
  show "rq_ok s1" using rq_ok_remove [OF I(10), of n "priority_sum s"] q by (simp add: s1_def)
  show "sched_frame s s1" unfolding s1_def by (rule sched_frame_with_rq)
  fix u assume u: "u \<in> set (run_tree s)"
  have "ordered (sched_cmp s) (run_tree s)" using I(10) by (simp add: rq_ok_def)
  then show "vruntime (sched_entity (threads s n)) \<le> vruntime (sched_entity (threads s u))"
    using u q by (auto simp: ordered_def sched_cmp_def key_cmp_Less)
qed

text \<open>The thread leaving the processor is not a CFS thread that stays runnable.\<close>

lemma switch_away_ok:
  assumes i: "sched_inv s" and q: "run_tree s = n # ns"
    and c: "\<not> CURRENT_THREAD_IS_CFS s \<or> is_blocked (state (threads s (CURRENT_THREAD_CTX s)))"
  shows "wpo (schedule_cfs n (with_rq ns (priority_sum s) s)) (switched n s)"
proof -
  note I = sched_invD [OF i] and P = popped_head [OF i q]
  let ?c = "CURRENT_THREAD_CTX s" and ?s1 = "with_rq ns (priority_sum s) s"
  let ?b = "is_blocked (state (threads s ?c))"
  define x where "x = (if ?b then ?s1 else put_state ?c Ready ?s1)"
  define r where "r = record_context_switch ?c n x"
  define d where "d = (if ?b then r else put_state ?c Ready r)"
  define e where "e = put_state n Running d"
  let ?s' = "e\<lparr>CURRENT_THREAD_CTX := n, CURRENT_THREAD_IS_CFS := True\<rparr>"
  have br: "\<not> is_blocked Ready" "\<not> is_blocked Running" by (simp_all add: is_blocked_def)
  have tx: "threads d u = (if u = ?c \<and> \<not> ?b then (threads s ?c)\<lparr>state := Ready\<rparr> else threads s u)" for u
    by (simp add: d_def r_def x_def)
  have xx: "CURRENT_THREAD_CTX x = ?c" "is_blocked (state (threads x ?c)) = ?b" "\<not> is_blocked (state (threads x n))"
    using P(4,7) br by (simp_all add: x_def)
  have "switch_to_cfs_thread n x = Some ?s'"
    using switch_to_cfs_eq [of x n] xx I(2) P(2,7) by (simp add: e_def d_def r_def)
  moreover have "schedule_cfs n ?s1 = switch_to_cfs_thread n x"
    using c I(2) by (cases ?b) (auto simp: schedule_cfs_def Let_def get_thread_def x_def set_state_runnable)
  ultimately have eq: "schedule_cfs n ?s1 = Some ?s'" by simp
  have fx: "sched_frame s x" unfolding x_def using P(9) sched_frame_trans [OF P(9) sched_frame_put_state] by auto
  have fr: "sched_frame s r" unfolding r_def by (rule sched_frame_trans [OF fx sched_frame_trace])
  have nr: "\<not> ?b \<Longrightarrow> \<not> is_blocked (state (threads r ?c))" using br by (simp add: r_def x_def)
  have fd: "sched_frame s d" unfolding d_def using fr sched_frame_trans [OF fr sched_frame_put_state [OF nr]] by auto
  have nbn: "\<not> is_blocked (state (threads d n))" using P(4,7) br by (simp add: tx)
  have fe: "sched_frame s e" unfolding e_def by (rule sched_frame_trans [OF fd sched_frame_put_state [OF nbn]])
  have fs: "sched_frame s ?s'" by (rule sched_frame_trans [OF fe sched_frame_current])
  have rt: "run_tree e = ns" by (simp add: e_def d_def r_def x_def)
  have cn: "?c \<notin> set ns" using I(12) q by auto
  have rx: "rq_ok x" unfolding x_def using P(8) rq_ok_put_state [OF P(8)] cn by simp
  have rr: "rq_ok r" by (rule rq_ok_same [OF rx]) (simp_all add: r_def)
  have cr: "?c \<notin> set (run_tree r)" using cn by (simp add: r_def x_def)
  have rd: "rq_ok d" unfolding d_def using rr rq_ok_put_state [OF rr cr] by simp
  have re: "rq_ok e" unfolding e_def by (rule rq_ok_put_state [OF rd]) (use P(6) in \<open>simp add: d_def r_def x_def\<close>)
  have rs: "rq_ok ?s'" by (rule rq_ok_same [OF re]) simp_all
  have rset: "runnable_set s = set (run_tree s)" using c by (auto simp: runnable_set_def)
  have "state (threads ?s' u) = Running \<longleftrightarrow> u = n" for u
    using I(7) [of u] P(4) by (auto simp: e_def tx is_blocked_def split: if_splits)
  moreover have "\<not> is_blocked (state (threads s u)) \<Longrightarrow> \<not> is_blocked (state (threads ?s' u))" for u
    using br by (simp add: e_def tx)
  ultimately have "switched n s ?s'"
    unfolding switched_def using fs rs rt P(3,6) rset q by simp
  then show ?thesis using eq by simp
qed

lemma preempt_ok:
  assumes i: "sched_inv s" and q: "run_tree s = n # ns"
    and c: "CURRENT_THREAD_IS_CFS s" "\<not> is_blocked (state (threads s (CURRENT_THREAD_CTX s)))"
  defines "m \<equiv> if vruntime (sched_entity (threads s (CURRENT_THREAD_CTX s))) > vruntime (sched_entity (threads s n))
    then n else CURRENT_THREAD_CTX s"
  shows "wpo (schedule_cfs n (with_rq ns (priority_sum s) s)) (switched m s)"
proof -
  note I = sched_invD [OF i] and P = popped_head [OF i q]
  let ?c = "CURRENT_THREAD_CTX s" and ?s1 = "with_rq ns (priority_sum s) s"
  have kc: "kind (threads s ?c) = Cfs" using c(1) I(4) by simp
  have ci: "?c \<noteq> IDLE_THREAD_CTX s" using kc I(9) by auto
  have cn: "?c \<notin> set ns" using I(12) q by auto
  have br: "\<not> is_blocked Ready" "\<not> is_blocked Running" by (simp_all add: is_blocked_def)
  have run: "state (threads s ?c) = Running"
    using c(2) I(6) kc by (cases "state (threads s ?c)") (auto simp: is_blocked_def)
  have rset: "runnable_set s = insert ?c (set (run_tree s))" using c by (simp add: runnable_set_def)
  have ce: "cfs_sched_entity ?c ?s1 = Some (sched_entity (threads s ?c))" "cfs_sched_entity n ?s1 = Some (sched_entity (threads s n))"
    using kc P(2,3) I(2) by (simp_all add: cfs_sched_entity_def store_defs require_def)
  show ?thesis
  proof (cases "vruntime (sched_entity (threads s ?c)) > vruntime (sched_entity (threads s n))")
    case True
    define r where "r = put_state ?c Ready (record_context_switch ?c n ?s1)"
    define e where "e = put_state n Running (enq ?c r)"
    let ?s' = "e\<lparr>CURRENT_THREAD_CTX := n, CURRENT_THREAD_IS_CFS := True\<rparr>"
    have tr: "threads r u = (if u = ?c then (threads s ?c)\<lparr>state := Ready\<rparr> else threads s u)" for u by (simp add: r_def)
    have nbr: "\<not> is_blocked (state (threads (enq ?c r) n))" using P(4,7) br by (simp add: tr)
    have fr: "sched_frame s r" unfolding r_def
      by (rule sched_frame_trans [OF P(9) sched_frame_trans [OF sched_frame_trace sched_frame_put_state]]) (use c(2) in simp)
    have fe: "sched_frame s e" unfolding e_def
      by (rule sched_frame_trans [OF fr sched_frame_trans [OF sched_frame_enq sched_frame_put_state [OF nbr]]])
    have fs: "sched_frame s ?s'" by (rule sched_frame_trans [OF fe sched_frame_current])
    have rr: "rq_ok r" unfolding r_def
      by (rule rq_ok_put_state [OF rq_ok_same [OF P(8)]]) (use cn in simp_all)
    have rq: "rq_ok (enq ?c r)" by (rule enq_rq_ok [OF rr I(2)]) (use kc I(5) cn in \<open>simp_all add: r_def\<close>)
    have re: "rq_ok e" unfolding e_def by (rule rq_ok_put_state [OF rq]) (use P(6,7) in \<open>simp add: r_def\<close>)
    have rs: "rq_ok ?s'" by (rule rq_ok_same [OF re]) simp_all
    have "rq_insert ?c r = Some (enq ?c r)" by (rule rq_insert_eq) (use cn in \<open>simp add: r_def\<close>)
    then have eq: "schedule_cfs n ?s1 = Some ?s'"
      using c True ci I(2) P(2,7) ce set_state_runnable [OF P(2) nbr]
      by (simp add: schedule_cfs_def Let_def get_thread_def is_idle_thread_def set_state_runnable r_def [symmetric] e_def require_def)
    have "state (threads ?s' u) = Running \<longleftrightarrow> u = n" for u
      using I(7) [of u] P(4) by (auto simp: e_def tr)
    moreover have "\<not> is_blocked (state (threads s u)) \<Longrightarrow> \<not> is_blocked (state (threads ?s' u))" for u
      using br by (simp add: e_def tr)
    ultimately have "switched n s ?s'"
      unfolding switched_def using fs rs P(3,6,7) rset q by (auto simp: e_def r_def)
    then show ?thesis using eq True by (simp add: m_def)
  next
    case False
    let ?s' = "enq n ?s1"
    have "rq_insert n ?s1 = Some ?s'" by (rule rq_insert_eq) (use P(6) in simp)
    then have eq: "schedule_cfs n ?s1 = Some ?s'"
      using c False ci I(2) P(2,7) ce
      by (simp add: schedule_cfs_def Let_def get_thread_def is_idle_thread_def require_def)
    have rs: "rq_ok ?s'" by (rule enq_rq_ok [OF P(8)]) (use P in simp_all)
    have fs: "sched_frame s ?s'" by (rule sched_frame_trans [OF P(9) sched_frame_enq])
    have one: "state (threads s u) = Running \<longleftrightarrow> u = ?c" for u using I(7) [of u] run by blast
    have tree: "set (run_tree ?s') = runnable_set s - {?c}" unfolding rset using I(12) q by simp
    have "switched ?c s ?s'"
      unfolding switched_def using fs rs kc c(1) tree one by simp
    then show ?thesis using eq False by (simp add: m_def)
  qed
qed

lemma schedule_cfs_ok:
  assumes i: "sched_inv s" and q: "run_tree s = n # ns"
  shows "wpo (schedule_cfs n (with_rq ns (priority_sum s) s)) (\<lambda>s'. \<exists>m \<in> runnable_set s. switched m s s'
    \<and> (\<forall>u \<in> runnable_set s. vruntime (sched_entity (threads s m)) \<le> vruntime (sched_entity (threads s u))))"
proof (cases "CURRENT_THREAD_IS_CFS s \<and> \<not> is_blocked (state (threads s (CURRENT_THREAD_CTX s)))")
  case True
  let ?c = "CURRENT_THREAD_CTX s"
  have r: "runnable_set s = insert ?c (set (run_tree s))" using True by (simp add: runnable_set_def)
  note P = popped_head(10) [OF i q]
  have "vruntime (sched_entity (threads s ?c)) \<le> vruntime (sched_entity (threads s u))"
    if "\<not> vruntime (sched_entity (threads s ?c)) > vruntime (sched_entity (threads s n))" "u \<in> runnable_set s" for u
    using that P [of u] r by (auto intro: order_trans [of _ "vruntime (sched_entity (threads s n))"])
  moreover have "n \<in> runnable_set s" "?c \<in> runnable_set s" using r q by auto
  moreover have "vruntime (sched_entity (threads s n)) \<le> vruntime (sched_entity (threads s u))"
    if "vruntime (sched_entity (threads s ?c)) > vruntime (sched_entity (threads s n))" "u \<in> runnable_set s" for u
    using that P [of u] r by auto
  ultimately show ?thesis
    using True by (intro wpo_mono [OF preempt_ok [OF i q]]) (auto split: if_splits)
next
  case False
  then have r: "runnable_set s = set (run_tree s)" by (auto simp: runnable_set_def)
  show ?thesis
    by (rule wpo_mono [OF switch_away_ok [OF i q]]) (use False r q popped_head(10) [OF i q] in auto)
qed

section \<open>Choosing a real-time thread\<close>

lemma schedule_rt_ok:
  assumes i: "sched_inv s" and n: "n \<noteq> 0" "kind (threads s n) = Rt" "\<not> is_blocked (state (threads s n))"
  shows "wpo (schedule_rt n s) (switched n s)"
proof -
  note I = sched_invD [OF i]
  let ?c = "CURRENT_THREAD_CTX s" and ?b = "is_blocked (state (threads s (CURRENT_THREAD_CTX s)))"
  define a where "a = (if ?b then s else put_state ?c Ready s)"
  define x where "x = (if CURRENT_THREAD_IS_CFS s \<and> \<not> ?b then enq ?c a else a)"
  define r where "r = record_context_switch ?c n x"
  define e where "e = put_state n Running r"
  let ?s' = "e\<lparr>CURRENT_THREAD_CTX := n, CURRENT_THREAD_IS_CFS := False\<rparr>"
  have br: "\<not> is_blocked Ready" "\<not> is_blocked Running" by (simp_all add: is_blocked_def)
  have ci: "CURRENT_THREAD_IS_CFS s \<Longrightarrow> ?c \<noteq> IDLE_THREAD_CTX s" using I(4,9) by auto
  have tx: "threads r u = (if u = ?c \<and> \<not> ?b then (threads s ?c)\<lparr>state := Ready\<rparr> else threads s u)" for u
    by (simp add: r_def x_def a_def)
  have ca: "?c \<notin> set (run_tree a)" using I(12) by (simp add: a_def)
  have ka: "kind (threads a u) = kind (threads s u)" for u by (simp add: a_def)
  have nbn: "\<not> is_blocked (state (threads r n))" using n(3) br by (simp add: tx)
  have run: "set_state n Running r = Some e" unfolding e_def by (rule set_state_runnable [OF n(1) nbn])
  have "schedule_rt n s = Some ?s'"
  proof (cases ?b)
    case True
    then show ?thesis using I(2) run by (simp add: schedule_rt_def Let_def get_thread_def a_def x_def r_def)
  next
    case False
    have "set_state ?c Ready s = Some a" using set_state_runnable [OF I(2) False] False by (simp add: a_def)
    moreover have "CURRENT_THREAD_IS_CFS a = CURRENT_THREAD_IS_CFS s" "IDLE_THREAD_CTX a = IDLE_THREAD_CTX s" by (simp_all add: a_def)
    moreover have "CURRENT_THREAD_IS_CFS s \<Longrightarrow> cfs_sched_entity ?c a = Some (sched_entity (threads a ?c))"
      using I(2,4) ka [of ?c] by (simp add: cfs_sched_entity_def store_defs require_def)
    ultimately show ?thesis
      using False I(2) run ci rq_insert_eq [OF ca]
      by (cases "CURRENT_THREAD_IS_CFS s")
        (simp_all add: schedule_rt_def Let_def get_thread_def x_def r_def is_idle_thread_def)
  qed
  have fa: "sched_frame s a" unfolding a_def using sched_frame_put_state by auto
  have fx: "sched_frame s x" unfolding x_def using fa sched_frame_trans [OF fa sched_frame_enq] by auto
  have fr: "sched_frame s r" unfolding r_def by (rule sched_frame_trans [OF fx sched_frame_trace])
  have fe: "sched_frame s e" unfolding e_def by (rule sched_frame_trans [OF fr sched_frame_put_state [OF nbn]])
  have fs: "sched_frame s ?s'" by (rule sched_frame_trans [OF fe sched_frame_current])
  have ra: "rq_ok a" unfolding a_def using I(10) rq_ok_put_state [OF I(10) I(12)] by simp
  have rx: "rq_ok x"
    unfolding x_def using ra enq_rq_ok [OF ra I(2) _ _ _ ca] I(4,5) by (auto simp: a_def)
  have rr: "rq_ok r" by (rule rq_ok_same [OF rx]) (simp_all add: r_def)
  have setr: "set (run_tree r) = runnable_set s" by (auto simp: r_def x_def a_def runnable_set_def)
  have nr: "n \<notin> runnable_set s" using n(2) I(4,10) by (auto simp: runnable_set_def rq_ok_def split: if_splits)
  have re: "rq_ok e" unfolding e_def by (rule rq_ok_put_state [OF rr]) (use setr nr in simp)
  have rs: "rq_ok ?s'" by (rule rq_ok_same [OF re]) simp_all
  have "state (threads ?s' u) = Running \<longleftrightarrow> u = n" for u
    using I(7) [of u] by (auto simp: e_def tx is_blocked_def split: if_splits)
  moreover have "\<not> is_blocked (state (threads s u)) \<Longrightarrow> \<not> is_blocked (state (threads ?s' u))" for u
    using br by (simp add: e_def tx)
  moreover have "set (run_tree ?s') = runnable_set s - {n}" using setr nr by (simp add: e_def)
  ultimately have "switched n s ?s'"
    unfolding switched_def using fs rs n(2) by simp
  with \<open>schedule_rt n s = Some ?s'\<close> show ?thesis by simp
qed

section \<open>Charging\<close>

definition pays :: "kstate \<Rightarrow> bool" where
  "pays s \<longleftrightarrow> CURRENT_THREAD_IS_CFS s \<and> state (threads s (CURRENT_THREAD_CTX s)) = Running \<and> priority_sum s \<noteq> 0"

definition charge_ticks :: "u32 \<Rightarrow> kstate \<Rightarrow> nat" where
  "charge_ticks elapsed s =
     unat elapsed * unat (priority (sched_entity (threads s (CURRENT_THREAD_CTX s)))) div unat (priority_sum s)"

definition charge_fits :: "u32 \<Rightarrow> kstate \<Rightarrow> bool" where
  "charge_fits elapsed s \<longleftrightarrow>
     (pays s \<longrightarrow> unat (vruntime (sched_entity (threads s (CURRENT_THREAD_CTX s)))) + charge_ticks elapsed s < 2 ^ 64
        \<and> unat (sched_tick_cnt (sched_entity (threads s (CURRENT_THREAD_CTX s)))) + unat elapsed < 2 ^ 64)"

definition paid :: "u64 \<Rightarrow> u64 \<Rightarrow> kstate \<Rightarrow> kstate" where
  "paid v n s =
     s\<lparr>threads := (threads s)(CURRENT_THREAD_CTX s :=
         sched_entity_update (\<lambda>e. e\<lparr>vruntime := v, sched_tick_cnt := n\<rparr>) (threads s (CURRENT_THREAD_CTX s)))\<rparr>"

lemma paid_simps [simp]:
  "kind (threads (paid v n s) u) = kind (threads s u)" "state (threads (paid v n s) u) = state (threads s u)"
  "wait_entity (threads (paid v n s) u) = wait_entity (threads s u)"
  "ktimer_entity (threads (paid v n s) u) = ktimer_entity (threads s u)" "runtime (threads (paid v n s) u) = runtime (threads s u)"
  "priority (sched_entity (threads (paid v n s) u)) = priority (sched_entity (threads s u))"
  "u \<noteq> CURRENT_THREAD_CTX s \<Longrightarrow> threads (paid v n s) u = threads s u"
  "vruntime (sched_entity (threads (paid v n s) (CURRENT_THREAD_CTX s))) = v"
  "ktimers (paid v n s) = ktimers s" "CFS_KTIMER (paid v n s) = CFS_KTIMER s" "WAIT_KTIMER (paid v n s) = WAIT_KTIMER s"
  "run_tree (paid v n s) = run_tree s" "priority_sum (paid v n s) = priority_sum s" "waiting (paid v n s) = waiting s"
  "queued (paid v n s) = queued s" "wait_tree (paid v n s) = wait_tree s" "suspended (paid v n s) = suspended s"
  "active_tree (paid v n s) = active_tree s" "inactive_tree (paid v n s) = inactive_tree s"
  "first_active_node (paid v n s) = first_active_node s" "first_inactive_node (paid v n s) = first_inactive_node s"
  "CURRENT_THREAD_CTX (paid v n s) = CURRENT_THREAD_CTX s" "CURRENT_THREAD_IS_CFS (paid v n s) = CURRENT_THREAD_IS_CFS s"
  "IDLE_THREAD_CTX (paid v n s) = IDLE_THREAD_CTX s" "NEXT_KTIMER (paid v n s) = NEXT_KTIMER s" "now_ticks (paid v n s) = now_ticks s"
  "timer_reload (paid v n s) = timer_reload s"
  by (auto simp: paid_def waiting_def queued_def)

lemma paid_inv:
  assumes i: "sched_inv s"
  shows "sched_inv (paid v n s)" "runnable_set (paid v n s) = runnable_set s"
proof -
  note I = sched_invD [OF i]
  have "wq_ok (paid v n s)" by (rule wq_ok_frame [OF I(11)]) simp_all
  moreover have "rq_ok (paid v n s)"
    by (rule rq_ok_frame [OF I(10)]) (use I(12) in \<open>auto intro!: arg_cong [where f = sched_entity] paid_simps(7)\<close>)
  moreover have "ktq_ok (paid v n s)" by (rule ktq_ok_frame [OF kinvD(4) [OF I(1)]]) simp_all
  moreover have "rt_linked (paid v n s) x = rt_linked s x" for x by (simp add: rt_linked_def)
  then have "links (paid v n s)" using kinvD(5) [OF I(1)] by (simp add: links_def timer_ok_def waiter_ok_def)
  ultimately have "kinv (paid v n s)" using kinvD(6) [OF I(1)] by (simp add: kinv_def kinv0_def)
  then show "sched_inv (paid v n s)" using i by (simp add: sched_inv_def)
  show "runnable_set (paid v n s) = runnable_set s" by (simp add: runnable_set_def)
qed

text \<open>The state after the charge.\<close>

definition after_charge :: "u32 \<Rightarrow> kstate \<Rightarrow> kstate" where
  "after_charge elapsed s =
     (if pays s
      then paid (vruntime (sched_entity (threads s (CURRENT_THREAD_CTX s))) + of_nat (charge_ticks elapsed s))
             (sched_tick_cnt (sched_entity (threads s (CURRENT_THREAD_CTX s))) + u64_of elapsed) s
      else s)"

lemma charge_current_eq:
  assumes i: "sched_inv s" and f: "charge_fits elapsed s"
  shows "charge_current elapsed s = Some (after_charge elapsed s)"
proof (cases "pays s")
  case True
  note I = sched_invD [OF i] and p = True [unfolded pays_def]
  let ?c = "CURRENT_THREAD_CTX s"
  let ?e = "sched_entity (threads s ?c)"
  have kc: "kind (threads s ?c) = Cfs" "?c \<noteq> IDLE_THREAD_CTX s" using p I(4,9) by auto
  have pr: "priority ?e \<noteq> 0" using I(5) kc by simp
  let ?d = "(u64_of elapsed * u64_of (priority ?e)) div u64_of (priority_sum s)"
  have d: "cfs_vruntime_delta (u64_of elapsed) (priority ?e) (priority_sum s) = Some ?d" "unat ?d = charge_ticks elapsed s"
    using cfs_vruntime_delta_eq [OF pr, of "u64_of elapsed" "priority_sum s"] p unat_bound [of elapsed]
    by (simp_all add: charge_ticks_def)
  have dn: "?d = of_nat (charge_ticks elapsed s)" unfolding d(2) [symmetric] by simp
  have fit: "unat (vruntime ?e) + unat ?d < 2 ^ LENGTH(64)" "unat (sched_tick_cnt ?e) + unat (u64_of elapsed) < 2 ^ LENGTH(64)"
    using f True d(2) by (simp_all add: charge_fits_def)
  note v = checked_add_ok [OF fit(1)] and n = checked_add_ok [OF fit(2)]
  show ?thesis
    using p kc I(2) d(1) v n dn True
    by (simp add: charge_current_def Let_def get_thread_def is_idle_thread_def cfs_sched_entity_def require_def
        upd_sched_def upd_thread_def after_charge_def paid_def)
next
  case False
  note I = sched_invD [OF i]
  show ?thesis
    using False I(2,4,9) by (auto simp: charge_current_def Let_def get_thread_def pays_def after_charge_def)
qed

lemma after_charge_inv:
  assumes "sched_inv s"
  shows "sched_inv (after_charge elapsed s)" "runnable_set (after_charge elapsed s) = runnable_set s"
    "CURRENT_THREAD_CTX (after_charge elapsed s) = CURRENT_THREAD_CTX s" "IDLE_THREAD_CTX (after_charge elapsed s) = IDLE_THREAD_CTX s"
    "run_tree (after_charge elapsed s) = run_tree s" "ktimers (after_charge elapsed s) = ktimers s"
    "CFS_KTIMER (after_charge elapsed s) = CFS_KTIMER s" "WAIT_KTIMER (after_charge elapsed s) = WAIT_KTIMER s"
    "priority_sum (after_charge elapsed s) = priority_sum s" "kind (threads (after_charge elapsed s) u) = kind (threads s u)"
    "queued (after_charge elapsed s) = queued s"
  using assms paid_inv [OF assms] by (simp_all add: after_charge_def)

section \<open>The scheduling decision\<close>

definition to_idle :: "kstate \<Rightarrow> bool" where
  "to_idle s \<longleftrightarrow>
     NEXT_KTIMER s = 0
     \<or> NEXT_KTIMER s = CFS_KTIMER s \<and> (\<not> active (ktimers s (CFS_KTIMER s)) \<or> run_tree s = [])"

definition selected :: "kstate \<Rightarrow> kstate \<Rightarrow> addr \<Rightarrow> bool" where
  "selected s s1 n \<longleftrightarrow>
     (if to_idle s then n = IDLE_THREAD_CTX s
      else if NEXT_KTIMER s = CFS_KTIMER s
      then n \<in> runnable_set s
        \<and> (\<forall>u \<in> runnable_set s. vruntime (sched_entity (threads s1 n)) \<le> vruntime (sched_entity (threads s1 u)))
      else n = thread_ctx (ktimers s (NEXT_KTIMER s)))"

lemma programmed_inv:
  "sched_inv (programmed s) = sched_inv s" "runnable_set (programmed s) = runnable_set s"
  "threads (programmed s) = threads s"
proof -
  have c: "same_core s (programmed s)" by simp
  show t: "threads (programmed s) = threads s" using c by (simp add: same_core_def)
  have r: "run_tree (programmed s) = run_tree s" using c by (simp add: same_core_def)
  show "runnable_set (programmed s) = runnable_set s" by (simp add: runnable_set_def t r)
  show "sched_inv (programmed s) = sched_inv s" by (simp add: sched_inv_def same_core_inv [OF c] t)
qed

definition decided :: "kstate \<Rightarrow> kstate \<Rightarrow> bool" where
  "decided s s' \<longleftrightarrow>
     sched_inv s' \<and> runnable_set s' = runnable_set s \<and> state (threads s' (CURRENT_THREAD_CTX s')) = Running
     \<and> selected s (after_charge (elapsed_ticks_since_last_interrupt s) s) (CURRENT_THREAD_CTX s')
     \<and> (\<exists>x. switched (CURRENT_THREAD_CTX s') (after_charge (elapsed_ticks_since_last_interrupt s) s) x \<and> s' = programmed x)"

lemma decidedI:
  assumes i: "sched_inv s" and w: "switched n (after_charge (elapsed_ticks_since_last_interrupt s) s) x"
    and n: "n \<noteq> 0" "\<not> is_blocked (state (threads s n))" "kind (threads s n) = Cfs \<Longrightarrow> n \<in> runnable_set s"
    and sel: "selected s (after_charge (elapsed_ticks_since_last_interrupt s) s) n"
  shows "decided s (programmed x)"
proof -
  let ?s1 = "after_charge (elapsed_ticks_since_last_interrupt s) s"
  note A = after_charge_inv [OF i]
  have nb: "\<not> is_blocked (state (threads ?s1 n))" using n(2) by (simp add: after_charge_def)
  have n3: "kind (threads ?s1 n) = Cfs \<Longrightarrow> n \<in> runnable_set ?s1" using n(3) A(2,10) by simp
  note S = switched_inv [OF A(1) w n(1) nb n3]
  have "CURRENT_THREAD_CTX x = n" using w by (simp add: switched_def)
  then show ?thesis unfolding decided_def using S A(2) sel w by (auto simp: programmed_inv)
qed

lemma schedule_ok:
  assumes i: "sched_inv s" and f: "charge_fits (elapsed_ticks_since_last_interrupt s) s"
    and nx: "NEXT_KTIMER s \<noteq> 0 \<Longrightarrow> NEXT_KTIMER s \<in> queued s \<and> NEXT_KTIMER s \<noteq> WAIT_KTIMER s"
  shows "wpo (schedule s) (decided s)"
proof -
  let ?el = "elapsed_ticks_since_last_interrupt s"
  let ?s1 = "after_charge ?el s"
  note I = sched_invD [OF i] and A = after_charge_inv [OF i, of ?el]
  note A1 = sched_invD [OF A(1)]
  have ch: "charge_current ?el s = Some ?s1" by (rule charge_current_eq [OF i f])
  have prog: "\<exists>r. program_next_scheduler_timer x = Some (r, programmed x)" for x by (rule program_next_eq)
  have idle: "wpo (switch_to_idle_thread_with_current_requeued ?s1) (\<lambda>x. wpo (program_next_scheduler_timer x) (\<lambda>(r, s'). decided s s'))"
    if "to_idle s"
  proof (rule wpo_mono [OF switch_to_idle_ok [OF A(1)]])
    fix x assume x: "switched (IDLE_THREAD_CTX ?s1) ?s1 x"
    have "decided s (programmed x)"
      by (rule decidedI [OF i x]) (use I(3,9,14) that A(4) in \<open>simp_all add: selected_def\<close>)
    then show "wpo (program_next_scheduler_timer x) (\<lambda>(r, s'). decided s s')" using prog [of x] by (auto simp: wpo_def)
  qed
  consider (z) "NEXT_KTIMER s = 0" | (cfs) "NEXT_KTIMER s \<noteq> 0" "NEXT_KTIMER s = CFS_KTIMER s"
    | (rt) "NEXT_KTIMER s \<noteq> 0" "NEXT_KTIMER s \<noteq> CFS_KTIMER s" by blast
  then show ?thesis
  proof cases
    case z
    then show ?thesis using idle ch by (simp add: schedule_def Let_def to_idle_def case_prod_beta')
  next
    case cfs
    have ic: "is_cfs_ktimer (NEXT_KTIMER s) ?s1" using cfs A(7) by (simp add: is_cfs_ktimer_def)
    show ?thesis
    proof (cases "to_idle s")
      case True
      have "schedule s = switch_to_idle_thread_with_current_requeued ?s1 \<bind> (\<lambda>s. program_next_scheduler_timer s \<bind> (\<lambda>(_, s). Some s))"
      proof (cases "active (ktimers s (CFS_KTIMER s))")
        case a: True
        then have "run_tree s = []" using True cfs by (simp add: to_idle_def)
        then have "rq_pop_first ?s1 = Some (None, ?s1)" using A(5) by (cases ?s1) (simp add: rq_pop_first_def ol_pop_def)
        then show ?thesis using ch ic cfs a A(6,7) by (simp add: schedule_def Let_def)
      next
        case False
        then show ?thesis using ch ic cfs A(6,7) by (simp add: schedule_def Let_def)
      qed
      then show ?thesis using idle [OF True] by (simp add: case_prod_beta')
    next
      case False
      then obtain n ns where q: "run_tree s = n # ns" and act: "active (ktimers s (CFS_KTIMER s))"
        using cfs by (cases "run_tree s") (auto simp: to_idle_def)
      have q1: "run_tree ?s1 = n # ns" using q A(5) by simp
      have eq: "schedule s = schedule_cfs n (with_rq ns (priority_sum ?s1) ?s1) \<bind> (\<lambda>s. program_next_scheduler_timer s \<bind> (\<lambda>(_, s). Some s))"
        using ch ic cfs act A(6,7) popped_head(1) [OF A(1) q1] by (simp add: schedule_def Let_def)
      have "wpo (schedule_cfs n (with_rq ns (priority_sum ?s1) ?s1)) (\<lambda>x. wpo (program_next_scheduler_timer x) (\<lambda>(r, s'). decided s s'))"
      proof (rule wpo_mono [OF schedule_cfs_ok [OF A(1) q1]])
        fix x assume "\<exists>m\<in>runnable_set ?s1. switched m ?s1 x
          \<and> (\<forall>u\<in>runnable_set ?s1. vruntime (sched_entity (threads ?s1 m)) \<le> vruntime (sched_entity (threads ?s1 u)))"
        then obtain m where m: "m \<in> runnable_set s" "switched m ?s1 x"
          "\<forall>u\<in>runnable_set s. vruntime (sched_entity (threads ?s1 m)) \<le> vruntime (sched_entity (threads ?s1 u))"
          unfolding A(2) by blast
        have m0: "m \<noteq> 0" "\<not> is_blocked (state (threads s m))"
          using m(1) I(2,10) by (auto simp: runnable_set_def rq_ok_def is_blocked_def split: if_splits intro!: gr0I)
        have "decided s (programmed x)"
          by (rule decidedI [OF i m(2) m0 m(1)]) (use m False cfs in \<open>simp add: selected_def\<close>)
        then show "wpo (program_next_scheduler_timer x) (\<lambda>(r, s'). decided s s')" using prog [of x] by (auto simp: wpo_def)
      qed
      then show ?thesis unfolding eq by (simp add: case_prod_beta')
    qed
  next
    case rt
    let ?k = "NEXT_KTIMER s"
    let ?n = "thread_ctx (ktimers s ?k)"
    have l: "rt_linked s ?k" "?n \<notin> waiting s"
      using kinvD(5) [OF I(1)] nx rt by (auto simp: links_def timer_ok_def)
    have n: "?n \<noteq> 0" "kind (threads s ?n) = Rt" "\<not> is_blocked (state (threads s ?n))"
      using rt_linkedD [OF l(1)] I(8) l(2) by auto
    have c1: "container_of ?k ?s1 = Some (ktimers s ?k)"
      using rt nx A(6-8) by (simp add: container_of_def is_cfs_ktimer_def is_wait_ktimer_def require_def get_ktimer_def)
    have eq: "schedule s = schedule_rt ?n ?s1 \<bind> (\<lambda>s. program_next_scheduler_timer s \<bind> (\<lambda>(_, s). Some s))"
      using ch rt n(1) c1 A(7) by (simp add: schedule_def Let_def is_cfs_ktimer_def)
    have n1: "kind (threads ?s1 ?n) = Rt" "\<not> is_blocked (state (threads ?s1 ?n))"
      using n A(10) by (simp_all add: after_charge_def)
    have ti: "\<not> to_idle s" using rt by (simp add: to_idle_def)
    have "wpo (schedule_rt ?n ?s1) (\<lambda>x. wpo (program_next_scheduler_timer x) (\<lambda>(r, s'). decided s s'))"
    proof (rule wpo_mono [OF schedule_rt_ok [OF A(1) n(1) n1]])
      fix x assume x: "switched ?n ?s1 x"
      have "decided s (programmed x)"
        by (rule decidedI [OF i x n(1,3)]) (use n(2) rt ti in \<open>simp_all add: selected_def\<close>)
      then show "wpo (program_next_scheduler_timer x) (\<lambda>(r, s'). decided s s')" using prog [of x] by (auto simp: wpo_def)
    qed
    then show ?thesis unfolding eq by (simp add: case_prod_beta')
  qed
qed

section \<open>The tick\<close>

lemma handle_sched_tick_ok:
  assumes st: "SCHEDULER_STARTED s"
    and d: "dispatch_pre (elapsed_ticks_since_last_interrupt s) (advance_ktimers (elapsed_ticks_since_last_interrupt s) s)"
  shows "wpo (handle_sched_tick s) (\<lambda>s'. pendsv s' \<and> NEXT_KTIMER s' = ktq_first_active s'
    \<and> (\<exists>x. dispatched (expired_waiters (advance_ktimers (elapsed_ticks_since_last_interrupt s) s))
              (advance_ktimers (elapsed_ticks_since_last_interrupt s) s) x
          \<and> dispatch_pre (elapsed_ticks_since_last_interrupt s) x \<and> same_core x s' \<and> same_run x s'
          \<and> (\<forall>k \<in> queued x. \<not> expired_at_now x k)))"
proof -
  let ?el = "elapsed_ticks_since_last_interrupt s"
  from dispatch_expired_ok [OF d] obtain x where
    x: "dispatch_expired ?el (advance_ktimers ?el s) = Some (ktq_first_active x, x)" "dispatch_pre ?el x"
      "dispatched (expired_waiters (advance_ktimers ?el s)) (advance_ktimers ?el s) x" "\<forall>k\<in>queued x. \<not> expired_at_now x k"
    by (auto simp: wpo_def)
  let ?s' = "request_context_switch (update_next_ktimer (ktq_first_active x) x)"
  have eq: "handle_sched_tick s = Some ?s'" using st x(1) by (simp add: handle_sched_tick_def Let_def)
  have core: "same_core x ?s'" using same_core_trans same_core_simps(1,2) by meson
  have "pendsv ?s'" "NEXT_KTIMER ?s' = ktq_first_active x" by (simp_all add: request_context_switch_def update_next_ktimer_def)
  moreover have "same_run x ?s'" by (simp add: same_run_def request_context_switch_def update_next_ktimer_def)
  ultimately show ?thesis using eq x core by (auto simp: same_core_inv(7) [OF core])
qed

end
