(* ===== verification/Sync.thy ===== *)
theory Sync
  imports Sched
begin

text \<open>
  The synchronisation primitives (\<^verbatim>\<open>src/sync.rs\<close>): binary and counting semaphores and the mutex
  with priority inheritance, over a common tree of waiters ordered by scheduler deadline. A primitive
  is a record passed to its operations beside the scheduler state; its tree of waiters is the list
  of its entities in order. The critical section and the atomic words of the source leave no trace
  on a single core, where every operation below is one step.
\<close>

section \<open>Words\<close>

definition load_word :: "u32 \<Rightarrow> u32" where
  "load_word w = w"

definition compare_exchange_word :: "addr \<Rightarrow> addr \<Rightarrow> addr \<Rightarrow> (addr + addr) \<times> addr" where
  "compare_exchange_word w current new = (if w = current then (Inr w, new) else (Inl w, w))"

definition decrement_word_if_positive :: "u32 \<Rightarrow> bool \<times> u32" where
  "decrement_word_if_positive w = (case checked_sub w 1 of Some v \<Rightarrow> (True, v) | None \<Rightarrow> (False, w))"

definition increment_word_if_below :: "u32 \<Rightarrow> u32 \<Rightarrow> bool \<times> u32" where
  "increment_word_if_below w limit = (if w < limit then (True, w + 1) else (False, w))"

section \<open>Waiters\<close>

definition current_thread_handle :: "kstate \<Rightarrow> addr option" where
  "current_thread_handle s = (if CURRENT_THREAD_CTX s = 0 then None else Some (CURRENT_THREAD_CTX s))"

definition block_current_thread :: "addr \<Rightarrow> SyncType \<Rightarrow> kstate \<Rightarrow> ((WaitQueueError + u64) \<times> kstate) option" where
  "block_current_thread t ty s = do {
     require (t = CURRENT_THREAD_CTX s);
     let elapsed = elapsed_ticks_since_current_reload s;
     th \<leftarrow> get_thread s t;
     if kind th = Idle then Some (Inl NotFound, s)
     else do {
       let e = (if kind th = Cfs then CFS_KTIMER s else ktimer_entity th);
       let deadline = (if e = 0 then - 1 else expire_at (ktimers s e));
       (_, s) \<leftarrow> yield_ktimer e elapsed False s;
       s \<leftarrow> upd_thread t (wait_entity_update (\<lambda>w. w\<lparr>wake_at := - 1, waitevt := Some ty\<rparr>)) s;
       (r, s) \<leftarrow> (if kind th = Cfs then dequeue_runq_to_waitq t s else dequeue_ktimerq_to_waitq t s);
       Some (case r of Inl er \<Rightarrow> Inl er | Inr _ \<Rightarrow> Inr deadline, s)
     }
   }"

definition sync_entity_of :: "addr \<Rightarrow> kstate \<Rightarrow> SyncEntity option" where
  "sync_entity_of t s = do {
     th \<leftarrow> get_thread s t;
     if kind th = Idle then None else Some (sync_entity th)
   }"

definition insert_sync_waiter :: "addr list \<Rightarrow> addr \<Rightarrow> u64 \<Rightarrow> kstate \<Rightarrow> (addr list \<times> kstate) option" where
  "insert_sync_waiter ws t deadline s = do {
     _ \<leftarrow> sync_entity_of t s;
     s \<leftarrow> upd_thread t (sync_entity_update (deadline_at_update (\<lambda>_. deadline))) s;
     ws \<leftarrow> ol_insert (sync_cmp s) ws t;
     Some (ws, s)
   }"

definition block_current_thread_on ::
  "SyncType \<Rightarrow> addr list \<Rightarrow> addr \<Rightarrow> kstate \<Rightarrow> ((WaitQueueError + u64) \<times> addr list \<times> kstate) option" where
  "block_current_thread_on ty ws t s = do {
     (r, s) \<leftarrow> block_current_thread t ty s;
     case r of
       Inl er \<Rightarrow> Some (Inl er, ws, s)
     | Inr deadline \<Rightarrow> do {
         (ws, s) \<leftarrow> insert_sync_waiter ws t deadline s;
         Some (Inr deadline, ws, request_context_switch s)
       }
   }"

definition pop_waiting_thread :: "addr list \<Rightarrow> kstate \<Rightarrow> (addr option \<times> addr list) option" where
  "pop_waiting_thread ws s = do {
     (ws, e) \<leftarrow> ol_pop ws;
     case e of
       None \<Rightarrow> Some (None, ws)
     | Some t \<Rightarrow> do {
         th \<leftarrow> get_thread s t;
         require (is_blocked (state th));
         Some (Some t, ws)
       }
   }"

definition wake_waiter :: "addr \<Rightarrow> kstate \<Rightarrow> ((WaitQueueError + unit) \<times> kstate) option" where
  "wake_waiter t s = do {
     th \<leftarrow> get_thread s t;
     if kind th = Cfs then do {
       s \<leftarrow> remove_wait_thread t s;
       s \<leftarrow> Some (record_wakeup t s);
       s \<leftarrow> enqueue_runq_from_waitq t s;
       s \<leftarrow> program_wait_ktimer s;
       Some (Inr (), s)
     } else if kind th = Rt then enqueue_ktimerq_from_waitq t s
     else Some (Inr (), s)
   }"

section \<open>Binary semaphore\<close>

datatype SemaphoreError = SemWouldBlock | SemFull | SemNoCurrentThread | SemWaitQueue WaitQueueError

record BinarySemaphore =
  available :: u32
  bin_waiters :: "addr list"

definition BinarySemaphore_new :: "bool \<Rightarrow> BinarySemaphore" where
  "BinarySemaphore_new a = \<lparr>available = (if a then 1 else 0), bin_waiters = []\<rparr>"

definition bin_is_available :: "BinarySemaphore \<Rightarrow> bool" where
  "bin_is_available b \<longleftrightarrow> load_word (available b) \<noteq> 0"

definition bin_try_take :: "BinarySemaphore \<Rightarrow> (SemaphoreError + unit) \<times> BinarySemaphore" where
  "bin_try_take b =
     (let (ok, w) = decrement_word_if_positive (available b) in
      (if ok then Inr () else Inl SemWouldBlock, b\<lparr>available := w\<rparr>))"

definition bin_take :: "BinarySemaphore \<Rightarrow> kstate \<Rightarrow> ((SemaphoreError + unit) \<times> BinarySemaphore \<times> kstate) option" where
  "bin_take b s =
     (case bin_try_take b of
        (Inr _, b) \<Rightarrow> Some (Inr (), b, s)
      | (Inl _, b) \<Rightarrow>
          (let (ok, w) = decrement_word_if_positive (available b) in
           if ok then Some (Inr (), b\<lparr>available := w\<rparr>, s)
           else case current_thread_handle s of
             None \<Rightarrow> Some (Inl SemNoCurrentThread, b, s)
           | Some t \<Rightarrow> do {
               (r, ws, s) \<leftarrow> block_current_thread_on SyncBinarySemaphore (bin_waiters b) t s;
               Some (case r of Inl er \<Rightarrow> Inl (SemWaitQueue er) | Inr _ \<Rightarrow> Inr (), b\<lparr>bin_waiters := ws\<rparr>, s)
             }))"

definition bin_give :: "BinarySemaphore \<Rightarrow> kstate \<Rightarrow> ((SemaphoreError + unit) \<times> BinarySemaphore \<times> kstate) option" where
  "bin_give b s = do {
     (w, ws) \<leftarrow> pop_waiting_thread (bin_waiters b) s;
     let b = b\<lparr>bin_waiters := ws\<rparr>;
     case w of
       Some t \<Rightarrow> do {
         (r, s) \<leftarrow> wake_waiter t s;
         case r of Inl er \<Rightarrow> Some (Inl (SemWaitQueue er), b, s)
         | Inr _ \<Rightarrow> Some (Inr (), b, request_context_switch s)
       }
     | None \<Rightarrow>
         (let (ok, v) = increment_word_if_below (available b) 1 in
          Some (if ok then Inr () else Inl SemFull, b\<lparr>available := v\<rparr>, s))
   }"

section \<open>Counting semaphore\<close>

record CountingSemaphore =
  sem_count :: u32
  sem_max_count :: u32
  cnt_waiters :: "addr list"

definition CountingSemaphore_new :: "u32 \<Rightarrow> u32 \<Rightarrow> CountingSemaphore option" where
  "CountingSemaphore_new max_count initial_count = do {
     require (max_count \<noteq> 0);
     require (initial_count \<le> max_count);
     Some \<lparr>sem_count = initial_count, sem_max_count = max_count, cnt_waiters = []\<rparr>
   }"

definition cnt_try_take :: "CountingSemaphore \<Rightarrow> (SemaphoreError + unit) \<times> CountingSemaphore" where
  "cnt_try_take b =
     (let (ok, w) = decrement_word_if_positive (sem_count b) in
      (if ok then Inr () else Inl SemWouldBlock, b\<lparr>sem_count := w\<rparr>))"

definition cnt_take :: "CountingSemaphore \<Rightarrow> kstate \<Rightarrow> ((SemaphoreError + unit) \<times> CountingSemaphore \<times> kstate) option" where
  "cnt_take b s =
     (case cnt_try_take b of
        (Inr _, b) \<Rightarrow> Some (Inr (), b, s)
      | (Inl _, b) \<Rightarrow>
          (let (ok, w) = decrement_word_if_positive (sem_count b) in
           if ok then Some (Inr (), b\<lparr>sem_count := w\<rparr>, s)
           else case current_thread_handle s of
             None \<Rightarrow> Some (Inl SemNoCurrentThread, b, s)
           | Some t \<Rightarrow> do {
               (r, ws, s) \<leftarrow> block_current_thread_on SyncCountingSemaphore (cnt_waiters b) t s;
               Some (case r of Inl er \<Rightarrow> Inl (SemWaitQueue er) | Inr _ \<Rightarrow> Inr (), b\<lparr>cnt_waiters := ws\<rparr>, s)
             }))"

definition cnt_give :: "CountingSemaphore \<Rightarrow> kstate \<Rightarrow> ((SemaphoreError + unit) \<times> CountingSemaphore \<times> kstate) option" where
  "cnt_give b s = do {
     (w, ws) \<leftarrow> pop_waiting_thread (cnt_waiters b) s;
     let b = b\<lparr>cnt_waiters := ws\<rparr>;
     case w of
       Some t \<Rightarrow> do {
         (r, s) \<leftarrow> wake_waiter t s;
         case r of Inl er \<Rightarrow> Some (Inl (SemWaitQueue er), b, s)
         | Inr _ \<Rightarrow> Some (Inr (), b, request_context_switch s)
       }
     | None \<Rightarrow>
         (let (ok, v) = increment_word_if_below (sem_count b) (load_word (sem_max_count b)) in
          Some (if ok then Inr () else Inl SemFull, b\<lparr>sem_count := v\<rparr>, s))
   }"

section \<open>Mutex\<close>

datatype MutexError = MtxWouldBlock | MtxWouldDeadlock | MtxNoCurrentThread | MtxWaitQueue WaitQueueError

record MutexState =
  owner :: addr
  mtx_waiters :: "addr list"
  owner_original_deadline_at :: u64
  owner_boosted :: bool

definition MutexState_new :: MutexState where
  "MutexState_new = \<lparr>owner = 0, mtx_waiters = [], owner_original_deadline_at = 0, owner_boosted = False\<rparr>"

record 'a Mutex =
  mtx_state :: MutexState
  mtx_data :: 'a

definition Mutex_new :: "'a \<Rightarrow> 'a Mutex" where
  "Mutex_new v = \<lparr>mtx_state = MutexState_new, mtx_data = v\<rparr>"

definition is_locked :: "MutexState \<Rightarrow> bool" where
  "is_locked m \<longleftrightarrow> owner m \<noteq> 0"

definition owner_token :: "addr \<Rightarrow> addr option" where
  "owner_token t = do { require (t \<noteq> 0); Some t }"

definition boost_owner_deadline :: "MutexState \<Rightarrow> addr \<Rightarrow> addr \<Rightarrow> u64 \<Rightarrow> kstate \<Rightarrow> (MutexState \<times> kstate) option" where
  "boost_owner_deadline m own waiter waiter_deadline s =
     (if own = 0 then Some (m, s)
      else do {
        o_th \<leftarrow> get_thread s own;
        w_th \<leftarrow> get_thread s waiter;
        if kind o_th = Cfs \<and> kind w_th = Cfs then Some (m, s)
        else do {
          q \<leftarrow> earliest_queued_scheduler_expire_at s;
          let boost = min waiter_deadline q;
          d \<leftarrow> thread_scheduler_expire_at own s;
          if d \<le> boost then Some (m, s)
          else do {
            let m = (if \<not> owner_boosted m then m\<lparr>owner_original_deadline_at := d, owner_boosted := True\<rparr> else m);
            s \<leftarrow> set_thread_scheduler_expire_at own boost s;
            Some (m, s)
          }
        }
      })"

definition restore_owner_deadline :: "MutexState \<Rightarrow> addr \<Rightarrow> kstate \<Rightarrow> (MutexState \<times> kstate) option" where
  "restore_owner_deadline m own s =
     (if \<not> owner_boosted m then Some (m, s)
      else do {
        s \<leftarrow> (if own = 0 then Some s else set_thread_scheduler_expire_at own (owner_original_deadline_at m) s);
        Some (m\<lparr>owner_original_deadline_at := 0, owner_boosted := False\<rparr>, s)
      })"

definition try_lock :: "MutexState \<Rightarrow> kstate \<Rightarrow> ((MutexError + unit) \<times> MutexState \<times> kstate) option" where
  "try_lock m s =
     (case current_thread_handle s of
        None \<Rightarrow> Some (Inl MtxNoCurrentThread, m, s)
      | Some t \<Rightarrow> do {
          tok \<leftarrow> owner_token t;
          case compare_exchange_word (owner m) 0 tok of
            (Inr _, w) \<Rightarrow> Some (Inr (), m\<lparr>owner := w\<rparr>, s)
          | (Inl own, w) \<Rightarrow> Some (Inl (if own = tok then MtxWouldDeadlock else MtxWouldBlock), m\<lparr>owner := w\<rparr>, s)
        })"

definition lock :: "MutexState \<Rightarrow> kstate \<Rightarrow> ((MutexError + unit) \<times> MutexState \<times> kstate) option" where
  "lock m s =
     (case current_thread_handle s of
        None \<Rightarrow> Some (Inl MtxNoCurrentThread, m, s)
      | Some t \<Rightarrow> do {
          tok \<leftarrow> owner_token t;
          case compare_exchange_word (owner m) 0 tok of
            (Inr _, w) \<Rightarrow> Some (Inr (), m\<lparr>owner := w\<rparr>, s)
          | (Inl own, w) \<Rightarrow>
              (if own = tok then Some (Inl MtxWouldDeadlock, m, s)
               else do {
                 (r, ws, s) \<leftarrow> block_current_thread_on SyncMutex (mtx_waiters m) t s;
                 let m = m\<lparr>mtx_waiters := ws\<rparr>;
                 case r of
                   Inl er \<Rightarrow> Some (Inl (MtxWaitQueue er), m, s)
                 | Inr deadline \<Rightarrow> do {
                     (m, s) \<leftarrow> boost_owner_deadline m own t deadline s;
                     Some (Inr (), m, s)
                   }
               })
        })"

definition unlock_guard :: "MutexState \<Rightarrow> kstate \<Rightarrow> ((MutexError + unit) \<times> MutexState \<times> kstate) option" where
  "unlock_guard m s = do {
     current \<leftarrow> (case current_thread_handle s of None \<Rightarrow> Some 0 | Some t \<Rightarrow> owner_token t);
     require (owner m = current);
     (m, s) \<leftarrow> restore_owner_deadline m current s;
     (w, ws) \<leftarrow> pop_waiting_thread (mtx_waiters m) s;
     let m = m\<lparr>mtx_waiters := ws\<rparr>;
     case w of
       Some t \<Rightarrow> do {
         tok \<leftarrow> owner_token t;
         let m = m\<lparr>owner := snd (compare_exchange_word (owner m) current tok)\<rparr>;
         (r, s) \<leftarrow> wake_waiter t s;
         case r of Inl er \<Rightarrow> Some (Inl (MtxWaitQueue er), m, s)
         | Inr _ \<Rightarrow> Some (Inr (), m, request_context_switch s)
       }
     | None \<Rightarrow> Some (Inr (), m\<lparr>owner := snd (compare_exchange_word (owner m) current 0)\<rparr>, s)
   }"

end
