(* ===== verification/SyncLaws.thy ===== *)
theory SyncLaws
  imports Sync
begin

text \<open>
  Blocking on and being woken from a synchronisation primitive: the current thread joins the waiters
  by its scheduler deadline and is suspended; a woken waiter leaves the wait queue and becomes ready.
  Both keep the scheduler invariant and complete.
\<close>

section \<open>The waiters of a primitive\<close>

text \<open>Waiters are in deadline order, and every one of them is suspended.\<close>

definition sync_ok :: "addr list \<Rightarrow> kstate \<Rightarrow> bool" where
  "sync_ok ws s \<longleftrightarrow> ordered (sync_cmp s) ws \<and> set ws \<subseteq> set (suspended s)"

lemma sync_ordered_cong:
  assumes "\<And>t. t \<in> set xs \<Longrightarrow> sync_entity (threads s' t) = sync_entity (threads s t)"
  shows "ordered (sync_cmp s') xs = ordered (sync_cmp s) xs"
  by (rule ordered_cong) (simp add: sync_cmp_def key_cmp_def assms)

lemma sync_ok_waiting: "sync_ok ws s \<Longrightarrow> set ws \<subseteq> waiting s"
  by (auto simp: sync_ok_def waiting_def)

lemma sync_ok_distinct: "sync_ok ws s \<Longrightarrow> distinct ws"
  using ycmp.ordered_distinct by (auto simp: sync_ok_def)

lemma sync_head_earliest:
  assumes "sync_ok (t # ws) s" "u \<in> set ws"
  shows "deadline_at (sync_entity (threads s t)) \<le> deadline_at (sync_entity (threads s u))"
  using assms by (auto simp: sync_ok_def ordered_def sync_cmp_def key_cmp_Less)

definition set_deadline :: "addr \<Rightarrow> u64 \<Rightarrow> kstate \<Rightarrow> kstate" where
  "set_deadline t d s = s\<lparr>threads := (threads s)(t := sync_entity_update (deadline_at_update (\<lambda>_. d)) (threads s t))\<rparr>"

lemma set_deadline_simps [simp]:
  "ktimers (set_deadline t d s) = ktimers s" "active_tree (set_deadline t d s) = active_tree s"
  "inactive_tree (set_deadline t d s) = inactive_tree s" "queued (set_deadline t d s) = queued s"
  "waiting (set_deadline t d s) = waiting s" "run_tree (set_deadline t d s) = run_tree s"
  "priority_sum (set_deadline t d s) = priority_sum s" "now_ticks (set_deadline t d s) = now_ticks s"
  "CFS_KTIMER (set_deadline t d s) = CFS_KTIMER s" "WAIT_KTIMER (set_deadline t d s) = WAIT_KTIMER s"
  "wait_tree (set_deadline t d s) = wait_tree s" "suspended (set_deadline t d s) = suspended s"
  "first_active_node (set_deadline t d s) = first_active_node s" "first_inactive_node (set_deadline t d s) = first_inactive_node s"
  "NEXT_KTIMER (set_deadline t d s) = NEXT_KTIMER s" "CURRENT_THREAD_CTX (set_deadline t d s) = CURRENT_THREAD_CTX s"
  "CURRENT_THREAD_IS_CFS (set_deadline t d s) = CURRENT_THREAD_IS_CFS s" "ktq_first_active (set_deadline t d s) = ktq_first_active s"
  "kind (threads (set_deadline t d s) u) = kind (threads s u)" "state (threads (set_deadline t d s) u) = state (threads s u)"
  "ktimer_entity (threads (set_deadline t d s) u) = ktimer_entity (threads s u)"
  "runtime (threads (set_deadline t d s) u) = runtime (threads s u)"
  "sched_entity (threads (set_deadline t d s) u) = sched_entity (threads s u)"
  "wait_entity (threads (set_deadline t d s) u) = wait_entity (threads s u)"
  "u \<noteq> t \<Longrightarrow> threads (set_deadline t d s) u = threads s u"
  "deadline_at (sync_entity (threads (set_deadline t d s) t)) = d" "IDLE_THREAD_CTX (set_deadline t d s) = IDLE_THREAD_CTX s"
  by (simp_all add: set_deadline_def queued_def waiting_def ktq_first_active_def)

lemma set_deadline_inv [simp]:
  "kinv (set_deadline t d s) = kinv s" "no_overdue (set_deadline t d s) = no_overdue s"
  "wait_armed (set_deadline t d s) = wait_armed s" "headroom (set_deadline t d s) = headroom s"
proof -
  let ?s = "set_deadline t d s"
  have cm: "wait_cmp ?s = wait_cmp s" "sched_cmp ?s = sched_cmp s" "ktimer_cmp ?s = ktimer_cmp s"
    by (simp_all add: wait_cmp_def sched_cmp_def ktimer_cmp_def)
  have "rt_linked ?s k = rt_linked s k" "waiter_ok ?s k = waiter_ok s k" for k
    by (simp_all add: rt_linked_def waiter_ok_def)
  then have "links ?s = links s" by (simp add: links_def timer_ok_def)
  then show "kinv ?s = kinv s" by (simp add: kinv_def kinv0_def wq_ok_def rq_ok_def ktq_ok_def cm)
  show "no_overdue ?s = no_overdue s" "wait_armed ?s = wait_armed s" "headroom ?s = headroom s"
    by (simp_all add: no_overdue_def missed_def wait_armed_def wait_deadline_def Let_def headroom_def all_prio_def blocked_cfs_def)
qed

section \<open>Blocking\<close>

definition forever :: "SyncType \<Rightarrow> WaitEntity" where
  "forever ty = \<lparr>wake_at = - 1, waitevt = Some ty\<rparr>"

text \<open>The current thread of \<open>s\<close> has blocked on a primitive of the given type.\<close>

definition sync_blocked :: "SyncType \<Rightarrow> kstate \<Rightarrow> kstate \<Rightarrow> bool" where
  "sync_blocked ty s s' \<longleftrightarrow>
     kinv s' \<and> no_overdue s' \<and> wait_armed s' \<and> suspended s' = suspended s @ [CURRENT_THREAD_CTX s]
     \<and> waiting s' = insert (CURRENT_THREAD_CTX s) (waiting s)
     \<and> wait_entity (threads s' (CURRENT_THREAD_CTX s)) = forever ty
     \<and> NEXT_KTIMER s' = ktq_first_active s' \<and> CURRENT_THREAD_CTX s' = CURRENT_THREAD_CTX s
     \<and> CURRENT_THREAD_IS_CFS s' = CURRENT_THREAD_IS_CFS s
     \<and> now_ticks s' = saturating_add (now_ticks s) (u64_of (elapsed_ticks_since_current_reload s))
     \<and> (\<forall>u. u \<noteq> CURRENT_THREAD_CTX s \<longrightarrow> state (threads s' u) = state (threads s u)
          \<and> sync_entity (threads s' u) = sync_entity (threads s u))
     \<and> (\<forall>u. kind (threads s' u) = kind (threads s u)) \<and> IDLE_THREAD_CTX s' = IDLE_THREAD_CTX s
     \<and> (\<forall>u. priority (sched_entity (threads s' u)) = priority (sched_entity (threads s u)))
     \<and> queued s' = (if CURRENT_THREAD_IS_CFS s then queued s else queued s - {own_timer s})"

lemma sync_blocked_suspended:
  assumes "sync_blocked ty s s'"
  shows "state (threads s' (CURRENT_THREAD_CTX s)) = Suspended"
  using assms kinvD(2) [of s'] by (auto simp: sync_blocked_def wq_ok_def)

lemma wait_forever_update:
  "wait_entity_update (\<lambda>w. w\<lparr>wake_at := - 1, waitevt := Some ty\<rparr>) th = th\<lparr>wait_entity := forever ty\<rparr>"
  by (cases th; cases "wait_entity th") (simp add: forever_def)

lemma block_current_thread_ok:
  assumes k: "kinv s" and c: "can_block s" and n: "no_overdue (ktq_advance_time (elapsed_ticks_since_current_reload s) s)"
  shows "wpo (block_current_thread (CURRENT_THREAD_CTX s) ty s)
    (\<lambda>(r, s'). r = Inr (expire_at (ktimers s (own_timer s))) \<and> sync_blocked ty s s')"
proof -
  let ?n = "elapsed_ticks_since_current_reload s" and ?t = "CURRENT_THREAD_CTX s"
  note b = can_block_yield [OF k c]
  from yield_ktimer_ok [OF k, of "own_timer s" ?n False] b(1) obtain s1 where
    s1: "yield_ktimer (own_timer s) ?n False s = Some (ktq_first_active s1, s1)" "yielded (own_timer s) ?n False s s1"
    by (auto simp: can_yield_def wpo_def)
  note yy = s1(2) [unfolded yielded_def]
  have step: "kt_step s s1" using yy by simp
  let ?s2 = "set_wait ?t (forever ty) s1"
  have up: "upd_thread ?t (wait_entity_update (\<lambda>w. w\<lparr>wake_at := - 1, waitevt := Some ty\<rparr>)) s1 = Some ?s2"
    using b(3) unfolding upd_thread_def set_wait_def wait_forever_update by simp
  from go_to_sleep [OF k c n s1(2) refl refl, of "forever ty"] obtain s3 where
    s3: "(if CURRENT_THREAD_IS_CFS s then dequeue_runq_to_waitq ?t ?s2 else dequeue_ktimerq_to_waitq ?t ?s2) = Some (Inr (), s3)"
      "blocked ?t ?s2 s3" "wait_armed s3" "queued s3 = (if CURRENT_THREAD_IS_CFS s then queued s else queued s - {own_timer s})"
    by (auto simp: wpo_def)
  have kd: "kind (threads s ?t) = (if CURRENT_THREAD_IS_CFS s then Cfs else Rt)"
    using c by (auto simp: can_block_def Let_def runnable_cfs_def runnable_rt_def split: if_splits)
  have e0: "own_timer s \<noteq> 0" using b(1) ktq_ok_nonzero [OF kinvD(4) [OF k]] by (auto simp: can_yield_def)
  have "block_current_thread ?t ty s = Some (Inr (expire_at (ktimers s (own_timer s))), s3)"
    using b(3) kd s1(1) up s3(1) e0 b(4)
    by (cases "CURRENT_THREAD_IS_CFS s") (simp_all add: block_current_thread_def Let_def get_thread_def require_def)
  moreover have "waits_forever ?s2 ?t" by (simp add: waits_forever_def forever_def)
  then have "sync_blocked ty s s3"
    using s3(2-4) yy by (simp add: sync_blocked_def blocked_def kt_step_waiting [OF step] kt_step_simps [OF step])
  ultimately show ?thesis by simp
qed

lemma same_core_request: "same_core s (request_context_switch s)"
  by simp

lemmas request_inv [simp] = same_core_inv [OF same_core_request]

lemma request_simps [simp]:
  "threads (request_context_switch s) = threads s" "suspended (request_context_switch s) = suspended s"
  "NEXT_KTIMER (request_context_switch s) = NEXT_KTIMER s" "CURRENT_THREAD_CTX (request_context_switch s) = CURRENT_THREAD_CTX s"
  "CURRENT_THREAD_IS_CFS (request_context_switch s) = CURRENT_THREAD_IS_CFS s" "now_ticks (request_context_switch s) = now_ticks s"
  "ktimers (request_context_switch s) = ktimers s" "active_tree (request_context_switch s) = active_tree s"
  "run_tree (request_context_switch s) = run_tree s" "pendsv (request_context_switch s)"
  "CFS_KTIMER (request_context_switch s) = CFS_KTIMER s" "WAIT_KTIMER (request_context_switch s) = WAIT_KTIMER s"
  "wait_tree (request_context_switch s) = wait_tree s" "IDLE_THREAD_CTX (request_context_switch s) = IDLE_THREAD_CTX s"
  by (simp_all add: request_context_switch_def)

lemma sync_cmp_request [simp]: "sync_cmp (request_context_switch s) = sync_cmp s"
  by (simp add: sync_cmp_def)

lemma block_on_ok:
  assumes k: "kinv s" and c: "can_block s" and n: "no_overdue (ktq_advance_time (elapsed_ticks_since_current_reload s) s)"
    and w: "sync_ok ws s"
  shows "wpo (block_current_thread_on ty ws (CURRENT_THREAD_CTX s) s)
    (\<lambda>(r, ws', s'). r = Inr (expire_at (ktimers s (own_timer s))) \<and> sync_blocked ty s s' \<and> pendsv s'
      \<and> sync_ok ws' s' \<and> set ws' = insert (CURRENT_THREAD_CTX s) (set ws) \<and> length ws' = Suc (length ws)
      \<and> deadline_at (sync_entity (threads s' (CURRENT_THREAD_CTX s))) = expire_at (ktimers s (own_timer s)))"
proof -
  let ?t = "CURRENT_THREAD_CTX s" and ?d = "expire_at (ktimers s (own_timer s))"
  from block_current_thread_ok [OF k c n, of ty] obtain s1 where
    s1: "block_current_thread ?t ty s = Some (Inr ?d, s1)" "sync_blocked ty s s1" by (auto simp: wpo_def)
  note bb = s1(2) [unfolded sync_blocked_def]
  let ?s2 = "set_deadline ?t ?d s1"
  let ?ws = "oinsert (sync_cmp ?s2) ?t ws"
  have nt: "?t \<notin> set ws" using sync_ok_waiting [OF w] can_block_yield(2) [OF k c] by auto
  have kd: "kind (threads s1 ?t) \<noteq> Idle" "?t \<noteq> 0"
    using can_block_yield [OF k c] bb by (auto simp: can_yield_def)
  have "ordered (sync_cmp ?s2) ws = ordered (sync_cmp s) ws"
    by (rule sync_ordered_cong) (use nt bb in \<open>auto simp: set_deadline_def\<close>)
  then have ok: "sync_ok ?ws ?s2" using w nt bb ycmp.ordered_oinsert [of ?s2 ws ?t] by (auto simp: sync_ok_def)
  have "block_current_thread_on ty ws ?t s = Some (Inr ?d, ?ws, request_context_switch ?s2)"
    using s1(1) kd nt by (simp add: block_current_thread_on_def insert_sync_waiter_def sync_entity_of_def store_defs
        ol_insert_def set_deadline_def)
  moreover have "sync_blocked ty s (request_context_switch ?s2)" using bb by (simp add: sync_blocked_def)
  moreover have "sync_ok ?ws (request_context_switch ?s2)" using ok by (simp add: sync_ok_def)
  ultimately show ?thesis by simp
qed

section \<open>Waking\<close>

lemma make_ready_wakeup: "record_wakeup t (make_ready t s) = make_ready t (record_wakeup t s)"
  by (simp add: record_wakeup_def trace_thread_def make_ready_def emit_def)

lemma enqueue_make_ready:
  "t \<noteq> 0 \<Longrightarrow> enqueue_runq_from_waitq t (make_ready t s) = enqueue_runq_from_waitq t s"
  by (simp add: enqueue_runq_from_waitq_def store_defs make_ready_def cfs_sched_entity_def set_state_def Let_def)

definition can_wake :: "kstate \<Rightarrow> addr \<Rightarrow> bool" where
  "can_wake s t \<longleftrightarrow>
     (kind (threads s t) = Cfs \<longrightarrow> headroom s)
     \<and> (kind (threads s t) = Rt \<longrightarrow> expire_at (ktimers s (ktimer_entity (threads s t))) \<le> now_ticks s \<longrightarrow>
          \<not> missed s (ktimer_entity (threads s t)))"

lemma wake_waiter_ok:
  assumes k: "kinv s" and n: "no_overdue s" and t: "t \<in> waiting s" and c: "can_wake s t"
  shows "wpo (wake_waiter t s) (\<lambda>(r, s'). r = Inr () \<and> unblocked t s s' \<and> wait_armed s' \<and> keeps_deadlines s s'
    \<and> (if kind (threads s t) = Cfs then set (run_tree s') = insert t (set (run_tree s)) \<and> queued s' = queued s
       else run_tree s' = run_tree s \<and> queued s' = insert (ktimer_entity (threads s t)) (queued s)))"
proof -
  have ok: "wq_ok s" "t \<noteq> 0" "kind (threads s t) \<noteq> Idle" using kinvD [OF k] wq_ok_blocked [OF _ t] by auto
  show ?thesis
  proof (cases "kind (threads s t)")
    case Rt
    have "wpo (enqueue_ktimerq_from_waitq t s) (\<lambda>(r, s'). r = Inr () \<and> unblocked t s s'
      \<and> queued s' = insert (ktimer_entity (threads s t)) (queued s)
      \<and> set (active_tree s') = insert (ktimer_entity (threads s t)) (set (active_tree s)) \<and> run_tree s' = run_tree s
      \<and> wait_armed s' \<and> keeps_deadlines s s')"
      by (rule enqueue_ktimerq_from_waitq_ok [OF k n t Rt]) (use c Rt in \<open>simp add: can_wake_def\<close>)
    then show ?thesis using Rt ok(2) by (auto simp: wake_waiter_def store_defs elim!: wpo_mono)
  next
    case Cfs
    have h: "headroom s" using c Cfs by (simp add: can_wake_def)
    from wake_cfs_ok [OF kinvD(1) [OF k] h t Cfs] obtain s1 where
      s1: "enqueue_runq_from_waitq t (woken t s) = Some s1" "joined t (woken t s) s1" "kinv0 s1" by (auto simp: wpo_def)
    note jj = s1(2) [unfolded joined_def]
    have st: "rq_step (woken t s) s1" using jj by simp
    have k1: "kinv s1" using s1(3) kinvD(6) [OF k] by (simp add: kinv_def rq_step_queues [OF st])
    have n1: "no_overdue s1"
      by (rule no_overdue_cong [OF n]) (simp_all add: rq_step_queues [OF st] rq_step_thread [OF st])
    from program_wait_ktimer_ok [OF k1 n1] obtain s2 where
      s2: "program_wait_ktimer s1 = Some s2" "kinv s2" "refreshed s1 s2" by (auto simp: wpo_def)
    note f = s2(3) [unfolded refreshed_def]
    have step: "kt_step s1 s2" using f by simp
    have "enqueue_runq_from_waitq t (record_wakeup t (unblock_thread t s)) = Some s1"
      using s1(1) enqueue_make_ready [OF ok(2), of "record_wakeup t (unblock_thread t s)"]
      by (simp add: woken_def make_ready_wakeup)
    then have "wake_waiter t s = Some (Inr (), s2)"
      using ok Cfs remove_wait_thread_eq [OF ok(1) t] s2(1) by (simp add: wake_waiter_def store_defs)
    moreover have q1: "queued s1 = queued s" by (simp add: queued_def rq_step_queues [OF st])
    have w1: "waiting s1 = waiting s - {t}"
      using waiting_woken [OF ok(1), of t] by (simp add: waiting_def rq_step_queues [OF st])
    have "unblocked t s s2"
      using f s2(2) jj w1
      by (simp add: unblocked_def kt_step_simps [OF step] kt_step_waiting [OF step] rq_step_queues [OF st] rq_step_thread [OF st])
    moreover have "keeps_deadlines s s2"
      using program_wait_keeps [OF k1 s2(1)] by (simp add: keeps_deadlines_def rq_step_queues [OF st])
    ultimately show ?thesis
      using Cfs f jj q1 program_wait_ktimer_armed [OF k1 n1 s2(1)] by (simp add: kt_step_simps [OF step])
  qed (use ok in simp)
qed

end
