(* ===== verification/Quiet.thy ===== *)
theory Quiet
  imports SyncLaws
begin

text \<open>
  Steps between two ticks: when no active timer has expired, selecting the next timer releases
  nothing, so the moves between the queues leave every deadline and every runtime as they are. This
  is what priority inheritance builds on: the deadlines it compares are those the threads had.
\<close>

section \<open>States with no expired timer\<close>

definition settled :: "kstate \<Rightarrow> bool" where
  "settled s \<longleftrightarrow> ktq_ok s \<and> (\<forall>k \<in> set (active_tree s). now_ticks s < expire_at (ktimers s k))"

lemma settled_no_overdue: "settled s \<Longrightarrow> no_overdue s"
  by (force simp: settled_def no_overdue_def)

lemma refresh_settled:
  assumes "settled s"
  shows "refresh_next_ktimer s = Some (update_next_ktimer (ktq_first_active s) s)"
proof -
  have "ktq_first_active s \<noteq> 0 \<Longrightarrow> now_ticks s < expire_at (ktimers s (ktq_first_active s))"
    using assms ktq_first_active_in [of s] by (auto simp: settled_def)
  then show ?thesis
    by (auto simp: refresh_next_ktimer_def Let_def ktimer_is_expired_at_def update_next_ktimer_def)
qed

definition quiet :: "kstate \<Rightarrow> kstate \<Rightarrow> bool" where
  "quiet s s' \<longleftrightarrow>
     (\<forall>k. k \<noteq> WAIT_KTIMER s \<longrightarrow> expire_at (ktimers s' k) = expire_at (ktimers s k))
     \<and> (\<forall>u. runtime (threads s' u) = runtime (threads s u))
     \<and> now_ticks s' = now_ticks s \<and> WAIT_KTIMER s' = WAIT_KTIMER s \<and> CFS_KTIMER s' = CFS_KTIMER s
     \<and> (\<forall>k. timing (ktimers s' k) = timing (ktimers s k) \<and> thread_ctx (ktimers s' k) = thread_ctx (ktimers s k))
     \<and> (\<forall>u. ktimer_entity (threads s' u) = ktimer_entity (threads s u))"

lemma quiet_refl [simp]: "quiet s s"
  by (simp add: quiet_def)

lemma quiet_trans: "quiet s s1 \<Longrightarrow> quiet s1 s2 \<Longrightarrow> quiet s s2"
  by (simp add: quiet_def)

lemma quietD:
  assumes "quiet s s'"
  shows "k \<noteq> WAIT_KTIMER s \<Longrightarrow> expire_at (ktimers s' k) = expire_at (ktimers s k)"
    "runtime (threads s' u) = runtime (threads s u)" "now_ticks s' = now_ticks s"
    "WAIT_KTIMER s' = WAIT_KTIMER s" "CFS_KTIMER s' = CFS_KTIMER s"
    "timing (ktimers s' k) = timing (ktimers s k)" "thread_ctx (ktimers s' k) = thread_ctx (ktimers s k)"
    "ktimer_entity (threads s' u) = ktimer_entity (threads s u)"
  using assms by (simp_all add: quiet_def)

lemma quiet_settled:
  assumes "settled s" "quiet s s'" "ktq_ok s'" "set (active_tree s') \<subseteq> set (active_tree s)" "WAIT_KTIMER s \<notin> set (active_tree s)"
  shows "settled s'"
proof -
  have "now_ticks s' < expire_at (ktimers s' k)" if "k \<in> set (active_tree s')" for k
  proof -
    have "k \<in> set (active_tree s)" "k \<noteq> WAIT_KTIMER s" using that assms(4,5) by auto
    then show ?thesis using assms(1) quietD(1) [OF assms(2)] quietD(3) [OF assms(2)] by (simp add: settled_def)
  qed
  then show ?thesis using assms(3) by (simp add: settled_def)
qed

lemma quiet_parts [simp]:
  "quiet s (ktq_take e s)" "quiet s (ktq_put e act s)" "quiet s (kt_set e (active_update f) s)"
  "quiet s (update_next_ktimer e s)" "quiet s (block_thread t s)" "quiet s (with_rq xs p s)"
  "quiet s (kt_set (WAIT_KTIMER s) (expire_at_update g) s)" "quiet s (request_context_switch s)"
  "quiet s (set_deadline t d s)" "quiet s (set_wait t w s)"
  by (simp_all add: quiet_def set_deadline_def set_wait_def)
     (simp_all add: ktq_put_def kt_set_def update_next_ktimer_def request_context_switch_def)

section \<open>Moves between the queues\<close>

lemma program_wait_quiet:
  assumes k: "kinv s" and st: "settled s" and p: "program_wait_ktimer s = Some s'"
  shows "quiet s s' \<and> settled s'"
proof -
  let ?w = "WAIT_KTIMER s"
  let ?s1 = "kt_set ?w (expire_at_update (\<lambda>_. wait_deadline s)) (ktq_take ?w s)"
  let ?s2 = "ktq_put ?w False ?s1"
  have w: "?w \<noteq> 0" "?w \<in> queued s" "?w \<notin> set (active_tree s)" "ktq_ok s" using kinvD [OF k] by auto
  have ok1: "ktq_ok ?s1" using ktq_take_ok [OF w(4)] queued_ktq_take [OF w(4)] by (simp add: kt_set_ktq_ok)
  have nq: "?w \<notin> queued ?s1" using queued_ktq_take [OF w(4)] by simp
  have q2: "quiet s ?s2"
  proof -
    have "quiet (ktq_take ?w s) ?s1" using quiet_parts(7) [of "ktq_take ?w s"] by simp
    then show ?thesis by (rule quiet_trans [OF quiet_trans [OF quiet_parts(1)] quiet_parts(2)])
  qed
  have s2: "settled ?s2"
    by (rule quiet_settled [OF st q2 ktq_put_ok [OF ok1 w(1) nq] _ w(3)])
      (use set_remove1_subset in \<open>fastforce simp: ktq_put_def ktq_take_def\<close>)
  have ins: "ktq_enqueue_inactive ?w ?s1 = Some ?s2"
    using ktq_insert_eq [OF ok1 w(1) nq] by (simp add: ktq_enqueue_inactive_def)
  have fin: "quiet s (update_next_ktimer e x) \<and> settled (update_next_ktimer e x)" if "quiet s x" "settled x" for e x
    using that quiet_trans [OF that(1) quiet_parts(4)] ktq_ok_frame [of x "update_next_ktimer e x"]
    by (simp add: settled_def update_next_ktimer_def)
  show ?thesis
  proof (cases "expire_at (ktimers s ?w) = wait_deadline s")
    case True
    then show ?thesis using p w(1) refresh_settled [OF st] fin [OF quiet_refl st]
      by (auto simp: program_wait_ktimer_def Let_def get_ktimer_def)
  next
    case False
    then show ?thesis
      using p w(1) ktq_remove_eq [OF w(4,2)] ins refresh_settled [OF s2] fin [OF q2 s2]
      by (auto simp: program_wait_ktimer_def Let_def get_ktimer_def upd_ktimer_eq)
  qed
qed

lemma settled_update_next: "settled s \<Longrightarrow> settled (update_next_ktimer e s)"
  using ktq_ok_frame [of s "update_next_ktimer e s"] by (simp add: settled_def update_next_ktimer_def)

lemma remove_ktimer_quiet:
  assumes st: "settled s" and e: "e \<in> queued s" and w: "WAIT_KTIMER s \<notin> set (active_tree s)"
    and r: "remove_ktimer e s = Some (x, s')"
  shows "quiet s s' \<and> settled s'"
proof -
  let ?s1 = "kt_set e (active_update (\<lambda>_. False)) (ktq_take e s)"
  have ok: "ktq_ok s" "e \<noteq> 0" using st e ktq_ok_nonzero by (auto simp: settled_def)
  have ok1: "ktq_ok ?s1" using ktq_take_ok [OF ok(1)] queued_ktq_take [OF ok(1)] by (simp add: kt_set_ktq_ok)
  have q1: "quiet s ?s1" by (rule quiet_trans [OF quiet_parts(1) quiet_parts(3)])
  have s1: "settled ?s1"
    by (rule quiet_settled [OF st q1 ok1 _ w]) (use set_remove1_subset in \<open>fastforce simp: ktq_take_def\<close>)
  show ?thesis
    using r ok ktq_remove_eq [OF ok(1) e] refresh_settled [OF s1] q1 s1
      quiet_trans [OF q1 quiet_parts(4)] settled_update_next [OF s1]
    by (auto simp: remove_ktimer_def ktq_dequeue_def upd_ktimer_eq split: if_splits)
qed

lemma settled_same:
  "settled s \<Longrightarrow> quiet s s' \<Longrightarrow> active_tree s' = active_tree s \<Longrightarrow> inactive_tree s' = inactive_tree s \<Longrightarrow>
   first_active_node s' = first_active_node s \<Longrightarrow> first_inactive_node s' = first_inactive_node s \<Longrightarrow>
   ktimers s' = ktimers s \<Longrightarrow> settled s'"
  using ktq_ok_frame [of s s'] by (simp add: settled_def quiet_def)

lemma dequeue_runq_quiet:
  assumes k: "kinv s" and st: "settled s" and t: "runnable_cfs s t" and d: "dequeue_runq_to_waitq t s = Some (r, s')"
  shows "quiet s s' \<and> settled s'"
proof -
  note o = cfs_off_ok [OF k t]
  have q: "quiet s (cfs_off t s)" by (simp add: quiet_def)
  have "settled (cfs_off t s)" by (rule settled_same [OF st q]) simp_all
  then show ?thesis
    using d o(2) program_wait_quiet [OF o(1)] quiet_trans [OF q] by (auto simp: bind_eq_Some_conv)
qed

lemma dequeue_ktimerq_quiet:
  assumes k: "kinv s" and st: "settled s" and t: "runnable_rt s t" and d: "dequeue_ktimerq_to_waitq t s = Some (r, s')"
  shows "quiet s s' \<and> settled s'"
proof -
  obtain s1 where s1: "remove_ktimer (ktimer_entity (threads s t)) s = Some (ktimer_entity (threads s t), s1)"
      "kinv (block_thread t s1)"
      "dequeue_ktimerq_to_waitq t s = program_wait_ktimer (block_thread t s1) \<bind> (\<lambda>s. Some (Inr (), s))"
    using dequeue_ktimerq_split [OF k settled_no_overdue [OF st] t] .
  have q1: "quiet s s1" "settled s1"
    using remove_ktimer_quiet [OF st _ kinvD(9) [OF k] s1(1)] t by (auto simp: runnable_rt_def)
  have q2: "quiet s (block_thread t s1)" by (rule quiet_trans [OF q1(1) quiet_parts(5)])
  have s2: "settled (block_thread t s1)" by (rule settled_same [OF q1(2) quiet_parts(5)]) simp_all
  show ?thesis
    using d s1(3) program_wait_quiet [OF s1(2) s2] quiet_trans [OF q2] by (auto simp: bind_eq_Some_conv)
qed

section \<open>Blocking between two ticks\<close>

lemma yielded_settled:
  assumes st: "settled (ktq_advance_time elapsed s)" and y: "yielded e elapsed reset s s1"
  shows "settled s1"
proof -
  note yy = y [unfolded yielded_def]
  have "now_ticks s1 < expire_at (ktimers s1 k)" if "k \<in> set (active_tree s1)" for k
    using that st yy by (auto simp: settled_def ktq_advance_time_def)
  then show ?thesis using yy kinvD(4) [of s1] by (simp add: settled_def)
qed

lemma block_on_quiet:
  assumes k: "kinv s" and c: "can_block s" and st: "settled (ktq_advance_time (elapsed_ticks_since_current_reload s) s)"
    and eq: "block_current_thread_on ty ws (CURRENT_THREAD_CTX s) s = Some (Inr d, ws', s')"
  shows "settled s' \<and> (\<exists>s1. yielded (own_timer s) (elapsed_ticks_since_current_reload s) False s s1 \<and> quiet s1 s')"
proof -
  let ?n = "elapsed_ticks_since_current_reload s" and ?t = "CURRENT_THREAD_CTX s"
  note b = can_block_yield [OF k c]
  from yield_ktimer_ok [OF k, of "own_timer s" ?n False] b(1) obtain s1 where
    s1: "yield_ktimer (own_timer s) ?n False s = Some (ktq_first_active s1, s1)" "yielded (own_timer s) ?n False s s1"
    by (auto simp: can_yield_def wpo_def)
  note yy = s1(2) [unfolded yielded_def]
  have step: "kt_step s s1" using yy by simp
  let ?s2 = "set_wait ?t (forever ty) s1"
  have up: "upd_thread ?t (wait_entity_update (\<lambda>w. w\<lparr>wake_at := - 1, waitevt := Some ty\<rparr>)) s1 = Some ?s2"
    using b(3) unfolding upd_thread_def set_wait_def wait_forever_update by simp
  have w: "?t \<notin> waiting s1" using b(2) by (simp add: kt_step_waiting [OF step])
  have k2: "kinv ?s2" using yy w by (simp add: set_wait_kinv)
  have st2: "settled ?s2" by (rule settled_same [OF yielded_settled [OF st s1(2)] quiet_parts(10)]) simp_all
  have kd: "kind (threads s ?t) = (if CURRENT_THREAD_IS_CFS s then Cfs else Rt)"
    using c by (auto simp: can_block_def Let_def runnable_cfs_def runnable_rt_def split: if_splits)
  have "\<exists>s3 r. (if kind (threads s ?t) = Cfs then dequeue_runq_to_waitq ?t ?s2 else dequeue_ktimerq_to_waitq ?t ?s2) = Some (r, s3)
      \<and> s' = request_context_switch (set_deadline ?t d s3)"
    using eq b(3) kd s1(1) up b(4)
    by (auto simp: block_current_thread_on_def block_current_thread_def insert_sync_waiter_def sync_entity_of_def store_defs
        Let_def require_def ol_insert_def bind_eq_Some_conv set_deadline_def split: if_splits sum.splits)
  then obtain s3 r where
    s3: "(if kind (threads s ?t) = Cfs then dequeue_runq_to_waitq ?t ?s2 else dequeue_ktimerq_to_waitq ?t ?s2) = Some (r, s3)"
    and s': "s' = request_context_switch (set_deadline ?t d s3)" by blast
  have q3: "quiet ?s2 s3 \<and> settled s3"
  proof (cases "CURRENT_THREAD_IS_CFS s")
    case True
    then have "runnable_cfs ?s2 ?t" using c by (simp add: can_block_def Let_def runnable_cfs_def kt_step_simps [OF step])
    then show ?thesis using dequeue_runq_quiet [OF k2 st2] s3 kd True by simp
  next
    case False
    then have "runnable_rt ?s2 ?t"
      using c yy by (simp add: can_block_def Let_def runnable_rt_def kt_step_simps [OF step] kt_step_rt_linked [OF step])
    then show ?thesis using dequeue_ktimerq_quiet [OF k2 st2] s3 kd False by simp
  qed
  have q: "quiet s3 s'" unfolding s' by (rule quiet_trans [OF quiet_parts(9) quiet_parts(8)])
  have "settled s'"
    by (rule settled_same [OF _ q]) (use q3 in \<open>simp_all add: s'\<close>, simp_all add: request_context_switch_def)
  moreover have "quiet s1 s'" using quiet_trans [OF quiet_trans [OF quiet_parts(10)] q] q3 by blast
  ultimately show ?thesis using s1(2) by blast
qed

end
