(* ===== verification/Semaphore.thy ===== *)
theory Semaphore
  imports SyncLaws
begin

text \<open>
  The contract of a semaphore, stated once as a locale and met by the binary and the counting
  semaphore of \<^verbatim>\<open>src/sync.rs\<close>. Tokens and waiters together are one integer, as in Dijkstra's
  semaphore: the number of tokens when it is positive, minus the number of waiters when it is
  negative. A take lowers it by one, a give raises it by one unless the semaphore is full, and a
  token given while threads wait goes to the waiter with the earliest deadline.
\<close>

section \<open>The contract\<close>

definition sem_inv :: "nat \<Rightarrow> nat \<Rightarrow> addr list \<Rightarrow> kstate \<Rightarrow> bool" where
  "sem_inv tok cap ws s \<longleftrightarrow> tok \<le> cap \<and> (ws \<noteq> [] \<longrightarrow> tok = 0) \<and> sync_ok ws s"

definition sem_value :: "nat \<Rightarrow> addr list \<Rightarrow> int" where
  "sem_value tok ws = int tok - int (length ws)"

lemma sem_value_split:
  "sem_inv tok cap ws s \<Longrightarrow> tok = nat (sem_value tok ws) \<and> length ws = nat (- sem_value tok ws)"
  by (auto simp: sem_inv_def sem_value_def)

lemma sync_ok_unblocked:
  assumes w: "sync_ok (t # ws) s" and u: "unblocked t s s'" and d: "distinct (suspended s)"
  shows "sync_ok ws s'"
proof -
  have "ordered (sync_cmp s') ws = ordered (sync_cmp s) ws"
    by (rule sync_ordered_cong) (use u in \<open>simp add: unblocked_def\<close>)
  then show ?thesis
    using w u d sync_ok_distinct [OF w] by (auto simp: sync_ok_def unblocked_def ordered_def)
qed

locale semaphore =
  fixes tokens :: "'o \<Rightarrow> nat" and capacity :: "'o \<Rightarrow> nat" and waiters :: "'o \<Rightarrow> addr list" and ty :: "'o \<Rightarrow> SyncType"
    and take_op give_op :: "'o \<Rightarrow> kstate \<Rightarrow> ((SemaphoreError + unit) \<times> 'o \<times> kstate) option"
  assumes take_token: "0 < tokens b \<Longrightarrow>
      \<exists>b'. take_op b s = Some (Inr (), b', s) \<and> tokens b' = tokens b - 1 \<and> waiters b' = waiters b \<and> capacity b' = capacity b"
    and take_no_thread: "tokens b = 0 \<Longrightarrow> CURRENT_THREAD_CTX s = 0 \<Longrightarrow> take_op b s = Some (Inl SemNoCurrentThread, b, s)"
    and take_block: "tokens b = 0 \<Longrightarrow> CURRENT_THREAD_CTX s \<noteq> 0 \<Longrightarrow>
      block_current_thread_on (ty b) (waiters b) (CURRENT_THREAD_CTX s) s = Some (Inr d, ws, s') \<Longrightarrow>
      \<exists>b'. take_op b s = Some (Inr (), b', s') \<and> tokens b' = 0 \<and> waiters b' = ws \<and> capacity b' = capacity b"
    and give_store: "waiters b = [] \<Longrightarrow> tokens b < capacity b \<Longrightarrow>
      \<exists>b'. give_op b s = Some (Inr (), b', s) \<and> tokens b' = Suc (tokens b) \<and> waiters b' = [] \<and> capacity b' = capacity b"
    and give_full: "waiters b = [] \<Longrightarrow> capacity b \<le> tokens b \<Longrightarrow> give_op b s = Some (Inl SemFull, b, s)"
    and give_wake: "waiters b = t # ws \<Longrightarrow> t \<noteq> 0 \<Longrightarrow> is_blocked (state (threads s t)) \<Longrightarrow> wake_waiter t s = Some (Inr (), s') \<Longrightarrow>
      \<exists>b'. give_op b s = Some (Inr (), b', request_context_switch s') \<and> tokens b' = tokens b \<and> waiters b' = ws
        \<and> capacity b' = capacity b"
begin

lemma take_ok:
  assumes i: "sem_inv (tokens b) (capacity b) (waiters b) s" and k: "kinv s" and c0: "tokens b = 0 \<Longrightarrow> can_block s"
    and n0: "tokens b = 0 \<Longrightarrow> no_overdue (ktq_advance_time (elapsed_ticks_since_current_reload s) s)"
  shows "wpo (take_op b s) (\<lambda>(r, b', s'). r = Inr () \<and> sem_inv (tokens b') (capacity b') (waiters b') s' \<and> kinv s'
    \<and> sem_value (tokens b') (waiters b') = sem_value (tokens b) (waiters b) - 1 \<and> capacity b' = capacity b
    \<and> (if 0 < tokens b then s' = s
       else sync_blocked (ty b) s s' \<and> pendsv s' \<and> set (waiters b') = insert (CURRENT_THREAD_CTX s) (set (waiters b))))"
proof (cases "0 < tokens b")
  case True
  then show ?thesis
    using take_token [OF True, of s] i k by (auto simp: sem_inv_def sem_value_def)
next
  case False
  have c: "can_block s" and n: "no_overdue (ktq_advance_time (elapsed_ticks_since_current_reload s) s)" using False c0 n0 by simp_all
  have w: "sync_ok (waiters b) s" using i by (simp add: sem_inv_def)
  from block_on_ok [OF k c n w, of "ty b"] obtain d ws s' where
    b: "block_current_thread_on (ty b) (waiters b) (CURRENT_THREAD_CTX s) s = Some (Inr d, ws, s')" "sync_blocked (ty b) s s'"
      "pendsv s'" "sync_ok ws s'" "set ws = insert (CURRENT_THREAD_CTX s) (set (waiters b))" "length ws = Suc (length (waiters b))"
    by (auto simp: wpo_def)
  from take_block [OF _ can_block_yield(3) [OF k c] b(1)] False obtain b' where
    b': "take_op b s = Some (Inr (), b', s')" "tokens b' = 0" "waiters b' = ws" "capacity b' = capacity b" by auto
  then show ?thesis
    using b False by (auto simp: sem_inv_def sem_value_def sync_blocked_def)
qed

lemma give_ok:
  assumes i: "sem_inv (tokens b) (capacity b) (waiters b) s" and k: "kinv s" and n: "no_overdue s"
    and c: "waiters b \<noteq> [] \<Longrightarrow> can_wake s (hd (waiters b))"
  shows "wpo (give_op b s) (\<lambda>(r, b', s'). kinv s' \<and> sem_inv (tokens b') (capacity b') (waiters b') s' \<and> capacity b' = capacity b
    \<and> (if sem_value (tokens b) (waiters b) = int (capacity b) then r = Inl SemFull \<and> b' = b \<and> s' = s
       else r = Inr () \<and> sem_value (tokens b') (waiters b') = sem_value (tokens b) (waiters b) + 1)
    \<and> (waiters b \<noteq> [] \<longrightarrow> r = Inr () \<and> unblocked (hd (waiters b)) s s' \<and> waiters b' = tl (waiters b) \<and> pendsv s'
         \<and> (\<forall>u \<in> set (tl (waiters b)).
              deadline_at (sync_entity (threads s (hd (waiters b)))) \<le> deadline_at (sync_entity (threads s u)))))"
proof (cases "waiters b")
  case Nil
  show ?thesis
  proof (cases "tokens b < capacity b")
    case True
    then show ?thesis using give_store [OF Nil True, of s] Nil i k by (auto simp: sem_inv_def sem_value_def)
  next
    case False
    then have "capacity b \<le> tokens b" by simp
    then show ?thesis using give_full [OF Nil, of s] Nil i k by (auto simp: sem_inv_def sem_value_def)
  qed
next
  case (Cons t ws)
  have w: "sync_ok (t # ws) s" "tokens b = 0" using i Cons by (auto simp: sem_inv_def)
  have t: "t \<in> waiting s" using sync_ok_waiting [OF w(1)] by simp
  have tb: "t \<noteq> 0" "is_blocked (state (threads s t))" using wq_ok_blocked [OF kinvD(2) [OF k] t] by auto
  from wake_waiter_ok [OF k n t] c Cons obtain s' where
    s': "wake_waiter t s = Some (Inr (), s')" "unblocked t s s'" by (auto simp: wpo_def)
  from give_wake [OF Cons tb s'(1)] obtain b' where
    b': "give_op b s = Some (Inr (), b', request_context_switch s')" "tokens b' = tokens b" "waiters b' = ws"
      "capacity b' = capacity b" by auto
  have "sync_ok ws s'"
    by (rule sync_ok_unblocked [OF w(1) s'(2)]) (use kinvD(2) [OF k] in \<open>simp add: wq_ok_def\<close>)
  then have ok: "sync_ok ws (request_context_switch s')" by (simp add: sync_ok_def)
  have "unblocked t s (request_context_switch s')" using s'(2) by (simp add: unblocked_def)
  then show ?thesis
    using b' Cons w ok sync_head_earliest [OF w(1)] by (auto simp: sem_inv_def sem_value_def unblocked_def)
qed

end

section \<open>The two semaphores meet it\<close>

lemma decrement_word_eq:
  "decrement_word_if_positive w = (if w = 0 then (False, w) else (True, w - 1))"
  by (auto simp: decrement_word_if_positive_def checked_sub_def word_le_nat_alt) (metis One_nat_def Suc_leI unat_gt_0)+

lemma unat_minus_one_pos: "w \<noteq> 0 \<Longrightarrow> unat (w - 1 :: u32) = unat w - 1"
  by (simp add: unat_minus_one)

lemma unat_plus_one_below: "w < m \<Longrightarrow> unat (w + 1 :: u32) = Suc (unat w)"
  using unat_bound [of m] by (simp add: word_less_nat_alt unat_word_ariths)

interpretation bin: semaphore "\<lambda>b. unat (available b)" "\<lambda>b. 1" bin_waiters "\<lambda>_. SyncBinarySemaphore" bin_take bin_give
proof (unfold_locales, goal_cases)
  case (4 b s)
  then have "available b < 1" by (simp add: word_less_nat_alt)
  then show ?case using 4 unat_plus_one_below [of "available b" 1]
    by (simp add: bin_give_def pop_waiting_thread_def ol_pop_def increment_word_if_below_def)
next
  case (5 b s)
  then have "\<not> available b < 1" by (simp add: word_less_nat_alt)
  then show ?case using 5
    by (cases b) (simp add: bin_give_def pop_waiting_thread_def ol_pop_def increment_word_if_below_def)
qed (auto simp: bin_take_def bin_try_take_def bin_give_def decrement_word_eq unat_minus_one_pos current_thread_handle_def
    pop_waiting_thread_def ol_pop_def store_defs require_def unsigned_eq_0_iff)

interpretation cnt: semaphore "\<lambda>b. unat (sem_count b)" "\<lambda>b. unat (sem_max_count b)" cnt_waiters "\<lambda>_. SyncCountingSemaphore" cnt_take cnt_give
proof (unfold_locales, goal_cases)
  case (4 b s)
  then have "sem_count b < sem_max_count b" by (simp add: word_less_nat_alt)
  then show ?case using 4 unat_plus_one_below [of "sem_count b" "sem_max_count b"]
    by (simp add: cnt_give_def pop_waiting_thread_def ol_pop_def increment_word_if_below_def load_word_def)
next
  case (5 b s)
  then have "\<not> sem_count b < sem_max_count b" by (simp add: word_less_nat_alt)
  then show ?case using 5
    by (cases b) (simp add: cnt_give_def pop_waiting_thread_def ol_pop_def increment_word_if_below_def load_word_def)
qed (auto simp: cnt_take_def cnt_try_take_def cnt_give_def decrement_word_eq unat_minus_one_pos current_thread_handle_def
    pop_waiting_thread_def ol_pop_def store_defs require_def unsigned_eq_0_iff)

section \<open>A semaphore of either class\<close>

datatype semaphore_object = Binary BinarySemaphore | Counting CountingSemaphore

primrec sem_tokens :: "semaphore_object \<Rightarrow> nat" where
  "sem_tokens (Binary b) = unat (available b)"
| "sem_tokens (Counting c) = unat (sem_count c)"

primrec sem_capacity :: "semaphore_object \<Rightarrow> nat" where
  "sem_capacity (Binary b) = 1"
| "sem_capacity (Counting c) = unat (sem_max_count c)"

primrec sem_waiters :: "semaphore_object \<Rightarrow> addr list" where
  "sem_waiters (Binary b) = bin_waiters b"
| "sem_waiters (Counting c) = cnt_waiters c"

primrec sem_type :: "semaphore_object \<Rightarrow> SyncType" where
  "sem_type (Binary b) = SyncBinarySemaphore"
| "sem_type (Counting c) = SyncCountingSemaphore"

primrec sem_take :: "semaphore_object \<Rightarrow> kstate \<Rightarrow> ((SemaphoreError + unit) \<times> semaphore_object \<times> kstate) option" where
  "sem_take (Binary b) s = do { (r, b, s) \<leftarrow> bin_take b s; Some (r, Binary b, s) }"
| "sem_take (Counting c) s = do { (r, c, s) \<leftarrow> cnt_take c s; Some (r, Counting c, s) }"

primrec sem_give :: "semaphore_object \<Rightarrow> kstate \<Rightarrow> ((SemaphoreError + unit) \<times> semaphore_object \<times> kstate) option" where
  "sem_give (Binary b) s = do { (r, b, s) \<leftarrow> bin_give b s; Some (r, Binary b, s) }"
| "sem_give (Counting c) s = do { (r, c, s) \<leftarrow> cnt_give c s; Some (r, Counting c, s) }"

lemma sem_ex: "(\<exists>b. P b) \<longleftrightarrow> (\<exists>x. P (Binary x)) \<or> (\<exists>x. P (Counting x))"
  by (metis semaphore_object.exhaust)

interpretation sem: semaphore sem_tokens sem_capacity sem_waiters sem_type sem_take sem_give
proof (unfold_locales, goal_cases)
  case (1 b s)
  then show ?case
  proof (cases b)
    case (Binary x)
    then show ?thesis using 1 bin.take_token [of x s] by (auto simp: sem_ex)
  next
    case (Counting x)
    then show ?thesis using 1 cnt.take_token [of x s] by (auto simp: sem_ex)
  qed
next
  case (2 b s)
  then show ?case using bin.take_no_thread [of _ s] cnt.take_no_thread [of _ s] by (cases b) simp_all
next
  case (3 b s d ws s')
  then show ?case
  proof (cases b)
    case (Binary x)
    then show ?thesis using 3 bin.take_block [of x s d ws s'] by (auto simp: sem_ex)
  next
    case (Counting x)
    then show ?thesis using 3 cnt.take_block [of x s d ws s'] by (auto simp: sem_ex)
  qed
next
  case (4 b s)
  then show ?case
  proof (cases b)
    case (Binary x)
    then show ?thesis using 4 bin.give_store [of x s] by (auto simp: sem_ex)
  next
    case (Counting x)
    then show ?thesis using 4 cnt.give_store [of x s] by (auto simp: sem_ex)
  qed
next
  case (5 b s)
  then show ?case using bin.give_full [of _ s] cnt.give_full [of _ s] by (cases b) simp_all
next
  case (6 b t ws s s')
  then show ?case
  proof (cases b)
    case (Binary x)
    then show ?thesis using 6 bin.give_wake [of x t ws s s'] by (auto simp: sem_ex)
  next
    case (Counting x)
    then show ?thesis using 6 cnt.give_wake [of x t ws s s'] by (auto simp: sem_ex)
  qed
qed

text \<open>The nonblocking take takes a token as the blocking one does, and is refused when there is none.\<close>

primrec sem_try_take :: "semaphore_object \<Rightarrow> kstate \<Rightarrow> ((SemaphoreError + unit) \<times> semaphore_object \<times> kstate) option" where
  "sem_try_take (Binary b) s = (let (r, b) = bin_try_take b in Some (r, Binary b, s))"
| "sem_try_take (Counting c) s = (let (r, c) = cnt_try_take c in Some (r, Counting c, s))"

lemma sem_try_take_law:
  "0 < sem_tokens b \<Longrightarrow> sem_try_take b s = sem_take b s"
  "sem_tokens b = 0 \<Longrightarrow> sem_try_take b s = Some (Inl SemWouldBlock, b, s)"
  by (cases b; auto simp: bin_take_def bin_try_take_def cnt_take_def cnt_try_take_def decrement_word_eq unsigned_eq_0_iff Let_def)+

lemma sem_try_take_kern: "sem_try_take b s = Some (r, b', s') \<Longrightarrow> s' = s"
  by (cases b) (auto simp: Let_def split: prod.splits)

end
