(* ===== verification/MutexLaws.thy ===== *)
theory MutexLaws
  imports Quiet Semaphore
begin

text \<open>
  The mutex of \<^verbatim>\<open>src/sync.rs\<close>: one owner at a time, direct hand-over to the waiter with the earliest
  deadline, and priority inheritance: while a thread with an earlier deadline waits, the owner runs
  under that deadline and gets its own back when it unlocks.
\<close>

section \<open>Deadlines of threads\<close>

definition timer_of :: "addr \<Rightarrow> kstate \<Rightarrow> addr" where
  "timer_of t s = (case kind (threads s t) of Cfs \<Rightarrow> CFS_KTIMER s | Rt \<Rightarrow> ktimer_entity (threads s t) | Idle \<Rightarrow> 0)"

definition deadline_of :: "addr \<Rightarrow> kstate \<Rightarrow> u64" where
  "deadline_of t s = (if timer_of t s = 0 then KTIMER_EXPIRE_NEVER else expire_at (ktimers s (timer_of t s)))"

definition has_timer :: "kstate \<Rightarrow> addr \<Rightarrow> bool" where
  "has_timer s t \<longleftrightarrow>
     t \<noteq> 0 \<and> kind (threads s t) \<noteq> Idle
     \<and> (kind (threads s t) = Rt \<longrightarrow> rt_linked s (ktimer_entity (threads s t))
          \<and> thread_ctx (ktimers s (ktimer_entity (threads s t))) = t)"

lemma thread_scheduler_ktimer_eq: "t \<noteq> 0 \<Longrightarrow> thread_scheduler_ktimer t s = Some (timer_of t s)"
  by (simp add: thread_scheduler_ktimer_def timer_of_def store_defs)

lemma thread_scheduler_expire_at_eq: "t \<noteq> 0 \<Longrightarrow> thread_scheduler_expire_at t s = Some (deadline_of t s)"
  by (simp add: thread_scheduler_expire_at_def thread_scheduler_ktimer_eq deadline_of_def)

lemma has_timerD:
  assumes "kinv s" "has_timer s t"
  shows "timer_of t s \<noteq> 0" "timer_of t s \<noteq> WAIT_KTIMER s" "deadline_of t s = expire_at (ktimers s (timer_of t s))"
proof -
  have "CFS_KTIMER s \<noteq> 0" "CFS_KTIMER s \<noteq> WAIT_KTIMER s" using kinvD(5) [OF assms(1)] by (auto simp: links_def)
  then show a: "timer_of t s \<noteq> 0" "timer_of t s \<noteq> WAIT_KTIMER s"
    using assms(2) rt_linkedD [of s "ktimer_entity (threads s t)"]
    by (auto simp: has_timer_def timer_of_def split: ThreadKind.splits)
  then show "deadline_of t s = expire_at (ktimers s (timer_of t s))" by (simp add: deadline_of_def)
qed

lemma kt_step_timer_of: "kt_step s s' \<Longrightarrow> timer_of t s' = timer_of t s"
  by (cases "kind (threads s t)") (simp_all add: timer_of_def kt_step_simps)

section \<open>Setting the deadline of a thread\<close>

text \<open>
  The timer queue and the deadlines may have changed, the threads and the set of queued timers have not; the
  selected timer is the first active one or the same as before.
\<close>

definition next_kept :: "kstate \<Rightarrow> kstate \<Rightarrow> bool" where
  "next_kept s s' \<longleftrightarrow> NEXT_KTIMER s' = ktq_first_active s' \<or> NEXT_KTIMER s' = NEXT_KTIMER s"

definition retouched :: "kstate \<Rightarrow> kstate \<Rightarrow> bool" where
  "retouched s s' \<longleftrightarrow> kinv s' \<and> kt_step s s' \<and> queued s' = queued s \<and> threads s' = threads s \<and> next_kept s s'"

lemma retouched_refl [simp]: "kinv s \<Longrightarrow> retouched s s"
  by (simp add: retouched_def next_kept_def)

text \<open>A thread's timer has a new deadline; nothing else has changed.\<close>

definition retimed :: "addr \<Rightarrow> u64 \<Rightarrow> kstate \<Rightarrow> kstate \<Rightarrow> bool" where
  "retimed t d s s' \<longleftrightarrow>
     kinv s' \<and> settled s' \<and> kt_step s s' \<and> queued s' = queued s \<and> now_ticks s' = now_ticks s \<and> threads s' = threads s
     \<and> (\<forall>k. k \<noteq> timer_of t s \<longrightarrow> ktimers s' k = ktimers s k) \<and> deadline_of t s' = d \<and> next_kept s s'"

lemma retimed_retouched: "retimed t d s s' \<Longrightarrow> retouched s s'"
  by (simp add: retimed_def retouched_def)

lemma update_next_inv:
  assumes "kinv s" "settled s"
  shows "kinv (update_next_ktimer e s)" "settled (update_next_ktimer e s)" "kt_step s (update_next_ktimer e s)"
    "queued (update_next_ktimer e s) = queued s"
  using assms same_core_inv [of s "update_next_ktimer e s"] settled_update_next [of s e]
  by (simp_all add: kt_step_def) (simp add: update_next_ktimer_def)

lemma update_next_simps [simp]:
  "threads (update_next_ktimer e s) = threads s" "ktimers (update_next_ktimer e s) = ktimers s"
  "now_ticks (update_next_ktimer e s) = now_ticks s" "active_tree (update_next_ktimer e s) = active_tree s"
  by (simp_all add: update_next_ktimer_def)

lemma retimed_next:
  "retimed t d s x \<Longrightarrow> e = ktq_first_active x \<Longrightarrow> retimed t d s (update_next_ktimer e x)"
  using update_next_inv [of x e] kt_step_trans [of s x "update_next_ktimer e x"] kt_step_timer_of [of x "update_next_ktimer e x" t]
  by (auto simp: retimed_def deadline_of_def next_kept_def) (simp_all add: update_next_ktimer_def ktq_first_active_def)

lemma set_expire_settled:
  assumes k: "kinv s" and st: "settled s" and t: "has_timer s t" and d: "now_ticks s < d"
  shows "wpo (set_thread_scheduler_expire_at t d s) (retimed t d s)"
proof -
  let ?e = "timer_of t s"
  note e = has_timerD [OF k t]
  have t0: "t \<noteq> 0" using t by (simp add: has_timer_def)
  have ok: "ktq_ok s" by (rule kinvD(4) [OF k])
  note sel = thread_scheduler_ktimer_eq [OF t0, of s]
  show ?thesis
  proof (cases "?e \<in> queued s")
    case True
    let ?s1 = "kt_set ?e (expire_at_update (\<lambda>_. d)) (ktq_take ?e s)" and ?a = "active (ktimers s ?e)"
    let ?s2 = "ktq_put ?e ?a ?s1"
    have q1: "queued ?s1 = queued s - {?e}" using queued_ktq_take [OF ok] by simp
    have ok1: "ktq_ok ?s1" using ktq_take_ok [OF ok] queued_ktq_take [OF ok] by (simp add: kt_set_ktq_ok)
    have tr: "active_tree ?s1 = remove1 ?e (active_tree s)" "inactive_tree ?s1 = remove1 ?e (inactive_tree s)"
      by (simp_all add: ktq_take_def)
    have st1: "kt_step (ktq_take ?e s) ?s1" by (simp add: kt_step_set)
    note r = retime_ok [OF kinvD(1) [OF k] True st1 ok1 q1 tr, of ?a]
    have act: "?a \<longleftrightarrow> ?e \<in> set (active_tree s)" by (rule ktq_ok_active [OF ok True])
    have sets: "set (active_tree ?s2) = set (active_tree s)" "WAIT_KTIMER s \<in> set (inactive_tree ?s2)"
      using r(5,6) e(2) act kinvD(6) [OF k] by (auto split: if_splits)
    have step: "kt_step s ?s2" using r(4) e(2) by simp
    have kt: "k \<noteq> ?e \<Longrightarrow> ktimers ?s2 k = ktimers s k" "expire_at (ktimers ?s2 ?e) = d" for k by simp_all
    have "WAIT_KTIMER ?s2 = WAIT_KTIMER s" by (simp only: kt_step_simps [OF step])
    then have k2: "kinv ?s2" using r(2) e(2) sets(2) by (simp only: kinv_def) simp
    have "now_ticks s < expire_at (ktimers ?s2 k)" if "k \<in> set (active_tree s)" for k
      using st that kt d by (cases "k = ?e") (auto simp: settled_def)
    then have s2: "settled ?s2" using kinvD(4) [OF k2] sets(1) by (simp add: settled_def)
    have "retimed t d s ?s2"
      using k2 s2 step r(3) e kt kt_step_timer_of [OF step, of t] by (simp add: retimed_def deadline_of_def next_kept_def)
    then have "retimed t d s (update_next_ktimer (ktq_first_active ?s2) ?s2)" by (rule retimed_next) simp
    moreover have "set_thread_scheduler_expire_at t d s = refresh_next_ktimer ?s2"
      using sel e True ktq_remove_eq [OF ok True] r(1)
      by (cases ?a) (simp_all add: set_thread_scheduler_expire_at_def Let_def ktq_contains_queued upd_ktimer_eq
          ktq_enqueue_active_def ktq_enqueue_inactive_def)
    ultimately show ?thesis using refresh_settled [OF s2] by simp
  next
    case False
    let ?s1 = "kt_set ?e (expire_at_update (\<lambda>_. d)) s"
    have step: "kt_step s ?s1" by (simp add: kt_step_set)
    have ok1: "ktq_ok ?s1" using False ok by (simp add: kt_set_ktq_ok)
    have "kinv0 ?s1"
      by (rule kt_step_kinv0 [OF step kinvD(1) [OF k] ok1]) (use kinvD(5,9) [OF k] in \<open>auto simp: links_def\<close>)
    then have k1: "kinv ?s1" using kinvD(6) [OF k] by (simp add: kinv_def)
    have "settled ?s1" using st ok1 False by (auto simp: settled_def queued_def kt_set_def)
    then have "retimed t d s ?s1"
      using k1 step e kt_step_timer_of [OF step, of t] by (simp add: retimed_def deadline_of_def next_kept_def)
    then show ?thesis
      using sel e(1) False refresh_settled [OF \<open>settled ?s1\<close>] retimed_next [of t d s ?s1]
      by (cases "NEXT_KTIMER s = ?e")
        (simp_all add: set_thread_scheduler_expire_at_def Let_def ktq_contains_queued upd_ktimer_eq)
  qed
qed

section \<open>The earliest queued deadline\<close>

lemma earliest_queued_ok:
  assumes k: "kinv s"
  shows "\<exists>q. earliest_queued_scheduler_expire_at s = Some q
    \<and> (\<forall>k \<in> queued s. k \<noteq> WAIT_KTIMER s \<longrightarrow> q \<le> expire_at (ktimers s k))
    \<and> (q = KTIMER_EXPIRE_NEVER \<or> (\<exists>k \<in> queued s. k \<noteq> WAIT_KTIMER s \<and> q = expire_at (ktimers s k)))"
proof -
  have ok: "ktq_ok s" and w: "WAIT_KTIMER s \<in> queued s" "WAIT_KTIMER s \<noteq> 0" using kinvD [OF k] by auto
  obtain x xs where c: "ktq_list s = x # xs" using w(1) ktq_list_ok(2) [OF ok] by (cases "ktq_list s") auto
  note l = ktq_list_ok [OF ok, unfolded c] and f = ktq_first_list [OF ok, unfolded c]
  have mem: "k \<in> queued s \<longleftrightarrow> k = x \<or> k \<in> set xs" for k unfolding l(2) [symmetric] by simp
  have x: "x \<noteq> 0" "x \<in> queued s" "ktq_first s = x" using l(3) f mem by simp_all
  have dist: "distinct (x # xs)" using kcmp.ordered_distinct [OF l(1)] .
  have least: "\<forall>k \<in> queued s. expire_at (ktimers s x) \<le> expire_at (ktimers s k)"
    using ktimer_ordered_le [OF l(1)] mem by simp
  have unf: "earliest_queued_from e s =
      (if e = 0 then Some KTIMER_EXPIRE_NEVER else if \<not> is_wait_ktimer e s then Some (expire_at (ktimers s e))
       else ktq_next e s \<bind> (\<lambda>n. earliest_queued_from n s))" for e
    by (rule earliest_queued_from.simps)
  show ?thesis
  proof (cases "x = WAIT_KTIMER s")
    case False
    then have "earliest_queued_scheduler_expire_at s = Some (expire_at (ktimers s x))"
      using x unf [of x] by (simp add: earliest_queued_scheduler_expire_at_def is_wait_ktimer_def)
    then show ?thesis using least x False by auto
  next
    case True
    have nx: "ktq_next x s = Some (head_or_null xs)" using ktq_next_list [OF ok x(2)] c by simp
    then have a: "earliest_queued_scheduler_expire_at s = earliest_queued_from (head_or_null xs) s"
      using x True unf [of x] by (simp add: earliest_queued_scheduler_expire_at_def is_wait_ktimer_def)
    show ?thesis
    proof (cases xs)
      case Nil
      then have "k \<in> queued s \<Longrightarrow> k = WAIT_KTIMER s" for k using mem True by simp
      then show ?thesis using a Nil unf [of 0] by auto
    next
      case (Cons y ys)
      have y: "y \<noteq> 0" "y \<noteq> WAIT_KTIMER s" "y \<in> queued s" using Cons l(3) dist True mem by auto
      have o: "ordered (ktimer_cmp s) (y # ys)" using l(1) Cons by (simp add: ordered_def)
      have "\<forall>k \<in> queued s. k \<noteq> WAIT_KTIMER s \<longrightarrow> expire_at (ktimers s y) \<le> expire_at (ktimers s k)"
        using ktimer_ordered_le [OF o] mem Cons True by auto
      then show ?thesis using a Cons unf [of y] y by (auto simp: is_wait_ktimer_def)
    qed
  qed
qed

section \<open>Priority inheritance\<close>

text \<open>No scheduler timer of the queue has expired.\<close>

definition unexpired :: "kstate \<Rightarrow> bool" where
  "unexpired s \<longleftrightarrow> (\<forall>k \<in> queued s. k \<noteq> WAIT_KTIMER s \<longrightarrow> now_ticks s < expire_at (ktimers s k))"

lemma unexpired_settled: "kinv s \<Longrightarrow> unexpired s \<Longrightarrow> settled s"
  unfolding settled_def unexpired_def queued_def by (metis UnI1 kinvD(4,9))

definition both_cfs :: "addr \<Rightarrow> addr \<Rightarrow> kstate \<Rightarrow> bool" where
  "both_cfs a b s \<longleftrightarrow> kind (threads s a) = Cfs \<and> kind (threads s b) = Cfs"

text \<open>
  After a boost the owner's deadline is at most the waiter's and at most that of any queued
  scheduler timer; the first boost remembers the deadline it replaces.
\<close>

definition boosted :: "addr \<Rightarrow> u64 \<Rightarrow> MutexState \<Rightarrow> kstate \<Rightarrow> MutexState \<Rightarrow> kstate \<Rightarrow> bool" where
  "boosted own d m s m' s' \<longleftrightarrow>
     deadline_of own s' \<le> d \<and> deadline_of own s' \<le> deadline_of own s
     \<and> (\<forall>k \<in> queued s. k \<noteq> WAIT_KTIMER s \<longrightarrow> deadline_of own s' \<le> expire_at (ktimers s k))
     \<and> (if deadline_of own s' = deadline_of own s then m' = m \<and> s' = s
        else owner_boosted m' \<and> retimed own (deadline_of own s') s s'
          \<and> owner_original_deadline_at m' = (if owner_boosted m then owner_original_deadline_at m else deadline_of own s))
     \<and> owner m' = owner m \<and> mtx_waiters m' = mtx_waiters m"

lemma boost_owner_ok:
  assumes k: "kinv s" and u: "unexpired s" and o: "has_timer s own" and w: "waiter \<noteq> 0" and d: "now_ticks s < d"
  shows "wpo (boost_owner_deadline m own waiter d s) (\<lambda>(m', s').
    if both_cfs own waiter s then m' = m \<and> s' = s else boosted own d m s m' s')"
proof -
  have st: "settled s" by (rule unexpired_settled [OF k u])
  have o0: "own \<noteq> 0" using o by (simp add: has_timer_def)
  obtain q where q: "earliest_queued_scheduler_expire_at s = Some q"
    "\<forall>k \<in> queued s. k \<noteq> WAIT_KTIMER s \<longrightarrow> q \<le> expire_at (ktimers s k)"
    "q = KTIMER_EXPIRE_NEVER \<or> (\<exists>k \<in> queued s. k \<noteq> WAIT_KTIMER s \<and> q = expire_at (ktimers s k))"
    using earliest_queued_ok [OF k] by blast
  let ?b = "min d q"
  have bb: "\<forall>k \<in> queued s. k \<noteq> WAIT_KTIMER s \<longrightarrow> ?b \<le> expire_at (ktimers s k)" using q(2) by (auto intro: min.coboundedI2)
  have nq: "now_ticks s < q" using q(3) u d by (auto simp: unexpired_def KTIMER_EXPIRE_NEVER_def intro: less_le_trans)
  then have nb: "now_ticks s < ?b" using d by simp
  have g: "get_thread s own = Some (threads s own)" "get_thread s waiter = Some (threads s waiter)"
    using o0 w by (simp_all add: get_thread_def)
  consider "both_cfs own waiter s" | "\<not> both_cfs own waiter s" "deadline_of own s \<le> ?b"
    | "\<not> both_cfs own waiter s" "?b < deadline_of own s" by (meson not_le)
  then show ?thesis
  proof cases
    case 1
    then show ?thesis using o0 g by (simp add: boost_owner_deadline_def both_cfs_def)
  next
    case 2
    then have "boosted own d m s m s" using 2(2) q(2) by (auto simp: boosted_def intro: order_trans)
    then show ?thesis
      using 2 o0 g q(1) thread_scheduler_expire_at_eq [OF o0, of s]
      by (simp add: boost_owner_deadline_def both_cfs_def Let_def)
  next
    case 3
    then have ng: "\<not> deadline_of own s \<le> ?b" by (meson leD)
    from set_expire_settled [OF k st o nb] obtain s' where
      s': "set_thread_scheduler_expire_at own ?b s = Some s'" "retimed own ?b s s'" by (auto simp: wpo_def)
    have dl: "deadline_of own s' = ?b" using s'(2) by (simp add: retimed_def)
    have "boosted own d m s (if \<not> owner_boosted m then m\<lparr>owner_original_deadline_at := deadline_of own s, owner_boosted := True\<rparr> else m) s'"
      unfolding boosted_def dl using 3(2) bb s'(2) by auto
    then show ?thesis
      using 3(1) ng o0 g q(1) thread_scheduler_expire_at_eq [OF o0, of s] s'(1)
      by (auto simp: boost_owner_deadline_def both_cfs_def Let_def)
  qed
qed

lemma restore_owner_ok:
  assumes k: "kinv s" and st: "settled s" and o: "has_timer s own"
    and d: "owner_boosted m \<Longrightarrow> now_ticks s < owner_original_deadline_at m"
  shows "wpo (restore_owner_deadline m own s) (\<lambda>(m', s'). \<not> owner_boosted m' \<and> owner m' = owner m
    \<and> mtx_waiters m' = mtx_waiters m
    \<and> (if owner_boosted m then retimed own (owner_original_deadline_at m) s s' else s' = s))"
proof (cases "owner_boosted m")
  case True
  have "own \<noteq> 0" using o by (simp add: has_timer_def)
  then show ?thesis
    using True set_expire_settled [OF k st o d [OF True]] by (auto simp: restore_owner_deadline_def wpo_def)
qed (simp add: restore_owner_deadline_def)

section \<open>Locking\<close>

definition mtx_ok :: "MutexState \<Rightarrow> kstate \<Rightarrow> bool" where
  "mtx_ok m s \<longleftrightarrow>
     sync_ok (mtx_waiters m) s \<and> owner m \<notin> set (mtx_waiters m)
     \<and> (owner m = 0 \<longrightarrow> mtx_waiters m = [] \<and> \<not> owner_boosted m)"

definition between_ticks :: "kstate \<Rightarrow> bool" where
  "between_ticks s \<longleftrightarrow>
     unexpired (ktq_advance_time (elapsed_ticks_since_current_reload s) s)
     \<and> elapsed_ticks_since_current_reload s < period_ticks (timing (ktimers s (CFS_KTIMER s)))"

lemma advance_simps [simp]:
  "ktimers (ktq_advance_time n s) = ktimers s" "queued (ktq_advance_time n s) = queued s" "threads (ktq_advance_time n s) = threads s"
  "active_tree (ktq_advance_time n s) = active_tree s" "WAIT_KTIMER (ktq_advance_time n s) = WAIT_KTIMER s"
  "now_ticks (ktq_advance_time n s) = saturating_add (now_ticks s) (u64_of n)"
  by (simp_all add: ktq_advance_time_def queued_def)

lemma between_ticks_settled:
  assumes k: "kinv s" and b: "between_ticks s"
  shows "settled (ktq_advance_time (elapsed_ticks_since_current_reload s) s)"
proof -
  have "ktq_ok (ktq_advance_time n s)" for n by (rule ktq_ok_frame [OF kinvD(4) [OF k]]) (simp_all add: ktq_advance_time_def)
  moreover have "x \<in> set (active_tree s) \<Longrightarrow> x \<in> queued s \<and> x \<noteq> WAIT_KTIMER s" for x
    using kinvD(9) [OF k] by (auto simp: queued_def)
  ultimately show ?thesis using b by (simp add: settled_def between_ticks_def unexpired_def)
qed

text \<open>The state once the contender has blocked: every deadline is still ahead.\<close>

lemma contended_unexpired:
  assumes k: "kinv s" and c: "can_block s" and b: "between_ticks s"
    and y: "yielded (own_timer s) (elapsed_ticks_since_current_reload s) False s s1" and q: "quiet s1 x"
    and qd: "queued x = (if CURRENT_THREAD_IS_CFS s then queued s else queued s - {own_timer s})"
  shows "unexpired x" "now_ticks x < expire_at (ktimers s (own_timer s))"
proof -
  let ?n = "elapsed_ticks_since_current_reload s" and ?e = "own_timer s"
  note yy = y [unfolded yielded_def] and o = can_block_yield [OF k c]
  have step: "kt_step s s1" using yy by simp
  have w: "WAIT_KTIMER s1 = WAIT_KTIMER s" by (simp add: kt_step_simps [OF step])
  have e: "?e \<in> queued s" "?e \<noteq> WAIT_KTIMER s" using o(1) by (auto simp: can_yield_def)
  have now: "now_ticks x = saturating_add (now_ticks s) (u64_of ?n)" "now_ticks x = now_ticks s1"
    using yy quietD(3) [OF q] by auto
  have fut: "now_ticks x < expire_at (ktimers s y)" if "y \<in> queued s" "y \<noteq> WAIT_KTIMER s" for y
    using b that now(1) by (simp add: between_ticks_def unexpired_def)
  show "now_ticks x < expire_at (ktimers s ?e)" by (rule fut [OF e])
  then have lt: "now_ticks x < - 1" using less_le_trans by (metis word_order.extremum)
  show "unexpired x"
    unfolding unexpired_def
  proof (intro ballI impI)
    fix y assume h: "y \<in> queued x" "y \<noteq> WAIT_KTIMER x"
    have yq: "y \<in> queued s" "y \<noteq> WAIT_KTIMER s" using h qd w quietD(4) [OF q] by (auto split: if_splits)
    have ex: "expire_at (ktimers x y) = expire_at (ktimers s1 y)" using quietD(1) [OF q] yq(2) w by simp
    show "now_ticks x < expire_at (ktimers x y)"
    proof (cases "y = ?e")
      case False
      then have "ktimers s1 y = ktimers s y" using yy by simp
      then show ?thesis using ex fut [OF yq] by simp
    next
      case True
      then have cfs: "CURRENT_THREAD_IS_CFS s" "?e = CFS_KTIMER s" using h(1) qd o(4) by (auto split: if_splits)
      then have "0 < yield_ticks ?e ?n s"
        using b by (simp add: between_ticks_def yield_ticks_def word_less_nat_alt unat_saturating_sub)
      then have "now_ticks s1 < saturating_add (now_ticks s1) (u64_of (yield_ticks ?e ?n s))"
        using lt now(2) by (simp add: saturating_add_gt)
      then show ?thesis using True ex yy now(2) by simp
    qed
  qed
qed

lemma has_timer_blocked:
  assumes y: "kt_step s s1" and q: "quiet s1 x" and kd: "\<forall>u. kind (threads x u) = kind (threads s u)"
  shows "has_timer x t = has_timer s t"
  using kd by (simp add: has_timer_def rt_linked_def quietD [OF q] kt_step_simps [OF y])

lemma kt_step_pendsv: "kt_step s s' \<Longrightarrow> pendsv s' = pendsv s"
  by (cases s; cases s') (simp add: kt_step_def)

lemma lock_contended_ok:
  assumes k: "kinv s" and c: "can_block s" and b: "between_ticks s" and m: "mtx_ok m s"
    and o: "has_timer s (owner m)" "owner m \<noteq> CURRENT_THREAD_CTX s"
  shows "wpo (lock m s) (\<lambda>(r, m', s'). r = Inr () \<and> kinv s' \<and> mtx_ok m' s' \<and> owner m' = owner m
    \<and> set (mtx_waiters m') = insert (CURRENT_THREAD_CTX s) (set (mtx_waiters m))
    \<and> state (threads s' (CURRENT_THREAD_CTX s)) = Suspended \<and> pendsv s'
    \<and> (both_cfs (owner m) (CURRENT_THREAD_CTX s) s
       \<or> deadline_of (owner m) s' \<le> expire_at (ktimers s (own_timer s)))
    \<and> (\<exists>x. sync_blocked SyncMutex s x \<and> retouched x s'))"
proof -
  let ?t = "CURRENT_THREAD_CTX s" and ?d = "expire_at (ktimers s (own_timer s))"
  note bt = between_ticks_settled [OF k b] and cb = can_block_yield [OF k c]
  have w: "sync_ok (mtx_waiters m) s" using m by (simp add: mtx_ok_def)
  from block_on_ok [OF k c settled_no_overdue [OF bt] w, of SyncMutex] obtain ws x where
    x: "block_current_thread_on SyncMutex (mtx_waiters m) ?t s = Some (Inr ?d, ws, x)" "sync_blocked SyncMutex s x"
      "pendsv x" "sync_ok ws x" "set ws = insert ?t (set (mtx_waiters m))" by (auto simp: wpo_def)
  note bb = x(2) [unfolded sync_blocked_def]
  from block_on_quiet [OF k c bt x(1)] obtain s1 where
    s1: "yielded (own_timer s) (elapsed_ticks_since_current_reload s) False s s1" "quiet s1 x" by blast
  have step: "kt_step s s1" using s1(1) by (simp add: yielded_def)
  have kx: "kinv x" and kd: "\<forall>u. kind (threads x u) = kind (threads s u)" using bb by auto
  have u: "unexpired x" "now_ticks x < ?d" using contended_unexpired [OF k c b s1] bb by auto
  have ht: "has_timer x (owner m)" using o(1) has_timer_blocked [OF step s1(2) kd] by simp
  have o0: "owner m \<noteq> 0" using o(1) by (simp add: has_timer_def)
  let ?m = "m\<lparr>mtx_waiters := ws\<rparr>"
  from boost_owner_ok [OF kx u(1) ht cb(3) u(2), of ?m] obtain m' s' where
    bo: "boost_owner_deadline ?m (owner m) ?t ?d x = Some (m', s')"
      "if both_cfs (owner m) ?t x then m' = ?m \<and> s' = x else boosted (owner m) ?d ?m x m' s'" by (auto simp: wpo_def)
  have eff: "kinv s' \<and> kt_step x s' \<and> threads s' = threads x \<and> owner m' = owner m \<and> mtx_waiters m' = ws"
    using bo(2) kx by (auto simp: boosted_def retimed_def split: if_splits)
  have rt: "retouched x s'" using bo(2) kx by (auto simp: boosted_def retimed_retouched split: if_splits)
  have dl: "both_cfs (owner m) ?t s \<or> deadline_of (owner m) s' \<le> ?d"
    using bo(2) kd by (cases "both_cfs (owner m) ?t s") (auto simp: boosted_def both_cfs_def)
  have "suspended s' = suspended x" "sync_cmp s' = sync_cmp x" using eff by (auto simp: kt_step_queues sync_cmp_def)
  then have ok: "mtx_ok m' s'" using eff x(4,5) m o o0 by (auto simp: mtx_ok_def sync_ok_def)
  have "lock m s = Some (Inr (), m', s')"
    using o o0 cb(3) x(1) bo(1)
    by (simp add: lock_def current_thread_handle_def owner_token_def compare_exchange_word_def Let_def require_def)
  moreover have "pendsv s'" using eff x(3) kt_step_pendsv by blast
  ultimately show ?thesis using ok dl eff x(2,5) rt sync_blocked_suspended [OF x(2)] by auto
qed

text \<open>Without contention, and the refusals.\<close>

lemmas lock_defs = current_thread_handle_def owner_token_def compare_exchange_word_def require_def

lemma lock_free:
  assumes "CURRENT_THREAD_CTX s \<noteq> 0" "owner m = 0"
  shows "lock m s = Some (Inr (), m\<lparr>owner := CURRENT_THREAD_CTX s\<rparr>, s)" "try_lock m s = lock m s"
  using assms by (simp_all add: try_lock_def lock_def lock_defs)

lemma lock_own:
  assumes "CURRENT_THREAD_CTX s \<noteq> 0" "owner m = CURRENT_THREAD_CTX s"
  shows "lock m s = Some (Inl MtxWouldDeadlock, m, s)" "try_lock m s = lock m s"
proof -
  have "m\<lparr>owner := owner m\<rparr> = m" by simp
  then show "lock m s = Some (Inl MtxWouldDeadlock, m, s)" "try_lock m s = lock m s"
    using assms by (simp_all add: try_lock_def lock_def lock_defs)
qed

lemma try_lock_taken:
  assumes "CURRENT_THREAD_CTX s \<noteq> 0" "owner m \<noteq> 0" "owner m \<noteq> CURRENT_THREAD_CTX s"
  shows "try_lock m s = Some (Inl MtxWouldBlock, m, s)"
proof -
  have "m\<lparr>owner := owner m\<rparr> = m" by simp
  then show ?thesis using assms by (simp add: try_lock_def lock_defs)
qed

section \<open>Unlocking\<close>

lemma retimed_can_wake:
  assumes r: "retimed own d s x" and o: "has_timer s own" and t: "t \<in> waiting s" "t \<noteq> own" and k: "kinv s" and c: "can_wake s t"
  shows "can_wake x t"
proof -
  note rr = r [unfolded retimed_def]
  have step: "kt_step s x" using rr by simp
  have "ktimers x (ktimer_entity (threads s t)) = ktimers s (ktimer_entity (threads s t))" if "kind (threads s t) = Rt"
  proof -
    note e = waiting_rt_timer [OF kinvD(1) [OF k] t(1) that]
    have "ktimer_entity (threads s t) \<noteq> timer_of own s"
      using e o t(2) by (auto simp: has_timer_def timer_of_def split: ThreadKind.splits)
    then show ?thesis using rr by simp
  qed
  then show ?thesis
    using c rr by (auto simp: can_wake_def missed_def kt_step_simps [OF step] kt_step_headroom [OF step])
qed

lemma unlock_ok:
  assumes k: "kinv s" and st: "settled s" and m: "mtx_ok m s" and own: "owner m = CURRENT_THREAD_CTX s" "has_timer s (owner m)"
    and d: "owner_boosted m \<Longrightarrow> now_ticks s < owner_original_deadline_at m"
    and c: "mtx_waiters m \<noteq> [] \<Longrightarrow> can_wake s (hd (mtx_waiters m))"
    and run: "owner m \<notin> waiting s"
  shows "wpo (unlock_guard m s) (\<lambda>(r, m', s'). r = Inr () \<and> kinv s' \<and> mtx_ok m' s' \<and> \<not> owner_boosted m'
    \<and> owner m' = head_or_null (mtx_waiters m) \<and> mtx_waiters m' = tl (mtx_waiters m)
    \<and> (mtx_waiters m \<noteq> [] \<longrightarrow> state (threads s' (owner m')) = Ready \<and> waiting s' = waiting s - {owner m'} \<and> pendsv s')
    \<and> (owner_boosted m \<longrightarrow> deadline_of (owner m) s' = owner_original_deadline_at m)
    \<and> (\<exists>x. retouched s x \<and> (if mtx_waiters m = [] then s' = x else unblocked (hd (mtx_waiters m)) x s')))"
proof -
  let ?o = "owner m"
  have o0: "?o \<noteq> 0" using own(2) by (simp add: has_timer_def)
  from restore_owner_ok [OF k st own(2) d] obtain m1 x where
    x: "restore_owner_deadline m ?o s = Some (m1, x)" "\<not> owner_boosted m1" "owner m1 = ?o" "mtx_waiters m1 = mtx_waiters m"
      "if owner_boosted m then retimed ?o (owner_original_deadline_at m) s x else x = s" by (auto simp: wpo_def)
  have eff: "kinv x" "settled x" "kt_step s x" "threads x = threads s" "now_ticks x = now_ticks s"
    using x(5) k st by (auto simp: retimed_def split: if_splits)
  have rt: "retouched s x" using x(5) k by (auto simp: retimed_retouched split: if_splits)
  have wx: "waiting x = waiting s" "suspended x = suspended s" by (simp_all add: kt_step_waiting [OF eff(3)] kt_step_queues [OF eff(3)])
  have dx: "owner_boosted m \<Longrightarrow> deadline_of ?o x = owner_original_deadline_at m" using x(5) by (simp add: retimed_def)
  have okx: "sync_ok (mtx_waiters m) x" using m eff(4) wx by (simp add: mtx_ok_def sync_ok_def sync_cmp_def)
  have htx: "has_timer x ?o" using own(2) eff(4) by (simp add: has_timer_def kt_step_rt_linked [OF eff(3)] kt_step_simps [OF eff(3)])
  show ?thesis
  proof (cases "mtx_waiters m")
    case Nil
    have "unlock_guard m s = Some (Inr (), m1\<lparr>owner := 0\<rparr>, x)"
      using own o0 x Nil by (cases m1) (simp add: unlock_guard_def current_thread_handle_def owner_token_def require_def
          pop_waiting_thread_def ol_pop_def Let_def compare_exchange_word_def)
    then show ?thesis using x eff Nil dx rt by (auto simp: mtx_ok_def sync_ok_def ordered_def)
  next
    case (Cons t ws)
    have t: "t \<in> waiting x" "t \<noteq> ?o" using okx sync_ok_waiting [OF okx] Cons run wx by auto
    have tb: "t \<noteq> 0" "is_blocked (state (threads x t))" using wq_ok_blocked [OF kinvD(2) [OF eff(1)] t(1)] by auto
    have cs: "can_wake s t" using c Cons by simp
    then have "can_wake x t"
      using x(5) retimed_can_wake [OF _ own(2) t(1) [unfolded wx] t(2) k cs] by (auto split: if_splits)
    from wake_waiter_ok [OF eff(1) settled_no_overdue [OF eff(2)] t(1) this] obtain y where
      y: "wake_waiter t x = Some (Inr (), y)" "unblocked t x y" "keeps_deadlines x y" by (auto simp: wpo_def)
    note u = y(2) [unfolded unblocked_def]
    let ?m = "m1\<lparr>mtx_waiters := ws, owner := t\<rparr>" and ?y = "request_context_switch y"
    have eq: "unlock_guard m s = Some (Inr (), ?m, ?y)"
      using own o0 x(1-4) Cons tb y(1) by (cases m1) (simp add: unlock_guard_def current_thread_handle_def owner_token_def require_def
          pop_waiting_thread_def ol_pop_def Let_def compare_exchange_word_def store_defs)
    have "sync_ok ws y"
      by (rule sync_ok_unblocked) (use okx Cons y(2) kinvD(2) [OF eff(1)] in \<open>auto simp: wq_ok_def\<close>)
    then have "mtx_ok ?m ?y" using tb sync_ok_distinct [OF okx] Cons by (simp add: mtx_ok_def sync_ok_def)
    moreover have "deadline_of ?o ?y = owner_original_deadline_at m" if b: "owner_boosted m"
    proof -
      note h = has_timerD [OF eff(1) htx]
      have "now_ticks x < deadline_of ?o x" using dx [OF b] d [OF b] eff(5) by simp
      then have "expire_at (ktimers y (timer_of ?o x)) = deadline_of ?o x" using y(3) h by (simp add: keeps_deadlines_def)
      moreover have "timer_of ?o ?y = timer_of ?o x" using u by (cases "kind (threads x ?o)") (simp_all add: timer_of_def)
      ultimately show ?thesis using h dx [OF b] by (simp add: deadline_of_def)
    qed
    moreover have "unblocked t x ?y" using y(2) same_core_inv [of y ?y] by (simp add: unblocked_def)
    ultimately show ?thesis using eq Cons u x(2) wx rt by auto
  qed
qed

end
