(* ===== verification/Message.thy ===== *)
theory Message
  imports MutexLaws
begin

text \<open>
  The bounded message queue (\<^verbatim>\<open>src/message.rs\<close>): a ring of slots with its head and length in machine
  words, and two trees of waiters, for senders and receivers. Arithmetic that would overflow, an
  index out of range and the read of an uninitialised slot are \<open>None\<close>. The ring implements a FIFO list,
  whatever its capacity: no index computation overflows.
\<close>

section \<open>The queue\<close>

datatype MessageQueueStatus = MqFull | MqEmpty | MqNoCurrentThread | MqInvalidContext | MqWaitQueue WaitQueueError

text \<open>\<open>capacity\<close> is the constant \<open>N\<close>; a slot is \<open>None\<close> until it is written.\<close>

record 'a QueueState =
  capacity :: u32
  slots :: "'a option list"
  q_head :: u32
  q_len :: u32
  senders :: "addr list"
  receivers :: "addr list"

definition MessageQueue_new :: "u32 \<Rightarrow> 'a QueueState option" where
  "MessageQueue_new n = do {
     require (n \<noteq> 0);
     Some \<lparr>capacity = n, slots = replicate (unat n) None, q_head = 0, q_len = 0, senders = [], receivers = []\<rparr>
   }"

definition mq_is_empty :: "'a QueueState \<Rightarrow> bool" where
  "mq_is_empty q \<longleftrightarrow> q_len q = 0"

definition mq_is_full :: "'a QueueState \<Rightarrow> bool" where
  "mq_is_full q \<longleftrightarrow> q_len q = capacity q"

definition mq_wake :: "addr option \<Rightarrow> kstate \<Rightarrow> kstate option" where
  "mq_wake waiter s =
     (case waiter of
        None \<Rightarrow> Some s
      | Some t \<Rightarrow> do {
          (r, s) \<leftarrow> wake_waiter t s;
          case r of Inl _ \<Rightarrow> None | Inr _ \<Rightarrow> Some (request_context_switch s)
        })"

definition try_send :: "'a \<Rightarrow> 'a QueueState \<Rightarrow> kstate \<Rightarrow> ((MessageQueueStatus + unit) \<times> 'a QueueState \<times> kstate) option" where
  "try_send message q s =
     (if q_len q = capacity q then Some (Inl MqFull, q, s)
      else do {
        until_end \<leftarrow> checked_sub (capacity q) (q_head q);
        tail \<leftarrow> (if q_len q < until_end then checked_add (q_head q) (q_len q) else checked_sub (q_len q) until_end);
        require (unat tail < length (slots q));
        let q = q\<lparr>slots := (slots q)[unat tail := Some message]\<rparr>;
        n \<leftarrow> checked_add (q_len q) 1;
        let q = q\<lparr>q_len := n\<rparr>;
        (waiter, ws) \<leftarrow> pop_waiting_thread (receivers q) s;
        let q = q\<lparr>receivers := ws\<rparr>;
        s \<leftarrow> mq_wake waiter s;
        Some (Inr (), q, s)
      })"

definition try_receive :: "'a QueueState \<Rightarrow> kstate \<Rightarrow> ((MessageQueueStatus + 'a) \<times> 'a QueueState \<times> kstate) option" where
  "try_receive q s =
     (if q_len q = 0 then Some (Inl MqEmpty, q, s)
      else do {
        require (unat (q_head q) < length (slots q));
        message \<leftarrow> slots q ! unat (q_head q);
        last \<leftarrow> checked_sub (capacity q) 1;
        head \<leftarrow> (if q_head q = last then Some 0 else checked_add (q_head q) 1);
        let q = q\<lparr>q_head := head\<rparr>;
        n \<leftarrow> checked_sub (q_len q) 1;
        let q = q\<lparr>q_len := n\<rparr>;
        (waiter, ws) \<leftarrow> pop_waiting_thread (senders q) s;
        let q = q\<lparr>senders := ws\<rparr>;
        s \<leftarrow> mq_wake waiter s;
        Some (Inr message, q, s)
      })"

definition mq_block :: "SyncType \<Rightarrow> bool \<Rightarrow> 'a QueueState \<Rightarrow> kstate \<Rightarrow> ((MessageQueueStatus + unit) \<times> 'a QueueState \<times> kstate) option" where
  "mq_block ty may_block q s =
     (case current_thread_handle s of
        None \<Rightarrow> Some (Inl MqNoCurrentThread, q, s)
      | Some t \<Rightarrow> do {
          th \<leftarrow> get_thread s t;
          if \<not> may_block \<or> state th \<noteq> Running \<or> kind th = Idle then Some (Inl MqInvalidContext, q, s)
          else do {
            (r, s) \<leftarrow> block_current_thread t ty s;
            case r of
              Inl er \<Rightarrow> Some (Inl (MqWaitQueue er), q, s)
            | Inr deadline \<Rightarrow>
                if ty = SyncMessageQueueSend then do {
                  (ws, s) \<leftarrow> insert_sync_waiter (senders q) t deadline s;
                  Some (Inr (), q\<lparr>senders := ws\<rparr>, request_context_switch s)
                } else do {
                  (ws, s) \<leftarrow> insert_sync_waiter (receivers q) t deadline s;
                  Some (Inr (), q\<lparr>receivers := ws\<rparr>, request_context_switch s)
                }
          }
        })"

text \<open>One critical section of the blocking calls: try, and if there is no space or no message, block.\<close>

definition send_round :: "'a \<Rightarrow> bool \<Rightarrow> 'a QueueState \<Rightarrow> kstate \<Rightarrow> ((MessageQueueStatus + bool) \<times> 'a QueueState \<times> kstate) option" where
  "send_round message may_block q s = do {
     (r, q, s) \<leftarrow> try_send message q s;
     case r of
       Inr _ \<Rightarrow> Some (Inr True, q, s)
     | Inl er \<Rightarrow>
         if er \<noteq> MqFull then Some (Inl er, q, s)
         else do {
           (b, q, s) \<leftarrow> mq_block SyncMessageQueueSend may_block q s;
           Some (case b of Inl er \<Rightarrow> Inl er | Inr _ \<Rightarrow> Inr False, q, s)
         }
   }"

definition receive_round :: "bool \<Rightarrow> 'a QueueState \<Rightarrow> kstate \<Rightarrow> ((MessageQueueStatus + 'a option) \<times> 'a QueueState \<times> kstate) option" where
  "receive_round may_block q s = do {
     (r, q, s) \<leftarrow> try_receive q s;
     case r of
       Inr message \<Rightarrow> Some (Inr (Some message), q, s)
     | Inl er \<Rightarrow>
         if er \<noteq> MqEmpty then Some (Inl er, q, s)
         else do {
           (b, q, s) \<leftarrow> mq_block SyncMessageQueueReceive may_block q s;
           Some (case b of Inl er \<Rightarrow> Inl er | Inr _ \<Rightarrow> Inr None, q, s)
         }
   }"

text \<open>
  The blocking calls. \<open>wait\<close> is the callback of the source: what the rest of the system does to the
  queue and the scheduler until this thread runs again. A call that is never resumed does not
  return.
\<close>

partial_function (option) send_with_wait ::
  "('a QueueState \<Rightarrow> kstate \<Rightarrow> ('a QueueState \<times> kstate) option) \<Rightarrow> 'a \<Rightarrow> bool \<Rightarrow> 'a QueueState \<Rightarrow> kstate
   \<Rightarrow> ((MessageQueueStatus + unit) \<times> 'a QueueState \<times> kstate) option" where
  [code]: "send_with_wait wait message may_block q s = do {
     (r, q, s) \<leftarrow> send_round message may_block q s;
     case r of
       Inl er \<Rightarrow> Some (Inl er, q, s)
     | Inr sent \<Rightarrow>
         if sent then Some (Inr (), q, s)
         else do {
           (q, s) \<leftarrow> wait q s;
           send_with_wait wait message may_block q s
         }
   }"

partial_function (option) receive_with_wait ::
  "('a QueueState \<Rightarrow> kstate \<Rightarrow> ('a QueueState \<times> kstate) option) \<Rightarrow> bool \<Rightarrow> 'a QueueState \<Rightarrow> kstate
   \<Rightarrow> ((MessageQueueStatus + 'a) \<times> 'a QueueState \<times> kstate) option" where
  [code]: "receive_with_wait wait may_block q s = do {
     (r, q, s) \<leftarrow> receive_round may_block q s;
     case r of
       Inl er \<Rightarrow> Some (Inl er, q, s)
     | Inr (Some message) \<Rightarrow> Some (Inr message, q, s)
     | Inr None \<Rightarrow> do {
         (q, s) \<leftarrow> wait q s;
         receive_with_wait wait may_block q s
       }
   }"

section \<open>The list a ring holds\<close>

definition ring_index :: "'a QueueState \<Rightarrow> nat \<Rightarrow> nat" where
  "ring_index q i = (unat (q_head q) + i) mod unat (capacity q)"

definition contents :: "'a QueueState \<Rightarrow> 'a list" where
  "contents q = map (\<lambda>i. the (slots q ! ring_index q i)) [0..<unat (q_len q)]"

definition ring_ok :: "'a QueueState \<Rightarrow> bool" where
  "ring_ok q \<longleftrightarrow>
     length (slots q) = unat (capacity q) \<and> q_head q < capacity q \<and> q_len q \<le> capacity q
     \<and> (\<forall>i < unat (q_len q). slots q ! ring_index q i \<noteq> None)"

lemma ring_nat:
  assumes "ring_ok q"
  shows "unat (q_head q) < unat (capacity q)" "unat (q_len q) \<le> unat (capacity q)" "length (slots q) = unat (capacity q)"
  using assms by (auto simp: ring_ok_def word_less_nat_alt word_le_nat_alt)

text \<open>The branch of \<open>try_send\<close> computes the slot after the last message, without overflow.\<close>

lemma tail_ok:
  assumes r: "ring_ok q" and n: "q_len q \<noteq> capacity q"
  shows "\<exists>u t. checked_sub (capacity q) (q_head q) = Some u
    \<and> (if q_len q < u then checked_add (q_head q) (q_len q) else checked_sub (q_len q) u) = Some t
    \<and> unat t = ring_index q (unat (q_len q)) \<and> unat t < length (slots q)"
proof -
  let ?h = "unat (q_head q)" and ?l = "unat (q_len q)" and ?c = "unat (capacity q)"
  note a = ring_nat [OF r]
  have l: "?l < ?c" using a(2) n by (metis le_neq_implies_less word_unat_eq_iff)
  have c: "?c < 2 ^ 32" using unat_bound [of "capacity q"] by simp
  have h: "q_head q \<le> capacity q" using a(1) by (simp add: word_le_nat_alt)
  define u where "u = capacity q - q_head q"
  have u: "unat u = ?c - ?h" unfolding u_def using unat_sub [OF h] .
  show ?thesis
  proof (cases "q_len q < u")
    case True
    then have s: "?h + ?l < ?c" using u by (simp add: word_less_nat_alt)
    then have "checked_add (q_head q) (q_len q) = Some (q_head q + q_len q) \<and> unat (q_head q + q_len q) = ?h + ?l"
      using c by (intro checked_add_ok) simp
    then show ?thesis using True s h a by (simp add: checked_sub_def u_def [symmetric] ring_index_def)
  next
    case False
    then have le: "u \<le> q_len q" "?c \<le> ?h + ?l" using u by (auto simp: word_less_nat_alt not_less word_le_nat_alt)
    have s: "unat (q_len q - u) = ?h + ?l - ?c" using unat_sub [OF le(1)] u a le(2) by simp
    moreover have "(?h + ?l) mod ?c = ?h + ?l - ?c" using le(2) a l by (simp add: mod_if le_mod_geq)
    ultimately show ?thesis using False le h a l by (simp add: checked_sub_def u_def [symmetric] ring_index_def)
  qed
qed

lemma ring_index_inj:
  assumes "ring_ok q" "i < unat (capacity q)" "j < unat (capacity q)" "ring_index q i = ring_index q j"
  shows "i = j"
proof -
  let ?h = "unat (q_head q)" and ?c = "unat (capacity q)"
  have a: "?h < ?c" using ring_nat [OF assms(1)] by simp
  have "(?h + i) mod ?c = (if ?h + i < ?c then ?h + i else ?h + i - ?c)"
    "(?h + j) mod ?c = (if ?h + j < ?c then ?h + j else ?h + j - ?c)"
    using a assms(2,3) by (auto simp: mod_if le_mod_geq)
  then show ?thesis using assms(2,3,4) a by (auto simp: ring_index_def split: if_splits)
qed

section \<open>Pushing and popping\<close>

definition pushed :: "'a \<Rightarrow> 'a QueueState \<Rightarrow> 'a QueueState" where
  "pushed m q = q\<lparr>slots := (slots q)[ring_index q (unat (q_len q)) := Some m], q_len := q_len q + 1\<rparr>"

definition popped :: "'a QueueState \<Rightarrow> 'a QueueState" where
  "popped q = q\<lparr>q_head := (if q_head q = capacity q - 1 then 0 else q_head q + 1), q_len := q_len q - 1\<rparr>"

lemma len_below: "ring_ok q \<Longrightarrow> q_len q \<noteq> capacity q \<Longrightarrow> unat (q_len q) < unat (capacity q)"
  using ring_nat(2) [of q] by (metis le_neq_implies_less word_unat_eq_iff)

lemma pushed_ok:
  assumes r: "ring_ok q" and n: "q_len q \<noteq> capacity q"
  shows "ring_ok (pushed m q)" "contents (pushed m q) = contents q @ [m]"
proof -
  let ?l = "unat (q_len q)" and ?q = "pushed m q"
  note a = ring_nat [OF r] and l = len_below [OF r n]
  have l1: "unat (q_len q + 1) = Suc ?l" using unat_plus_one_below [of "q_len q" "capacity q"] l by (simp add: word_less_nat_alt)
  have ix: "ring_index ?q = ring_index q" by (simp add: fun_eq_iff ring_index_def pushed_def)
  have lt: "ring_index q i < length (slots q)" for i using a by (simp add: ring_index_def)
  have sl: "slots ?q ! ring_index q i = (if i = ?l then Some m else slots q ! ring_index q i)" if "i \<le> ?l" for i
    using that l ring_index_inj [OF r, of i ?l] lt by (auto simp: pushed_def nth_list_update)
  show "ring_ok ?q"
    using r l l1 a sl unfolding ring_ok_def ix
    by (auto simp: pushed_def word_le_nat_alt less_Suc_eq_le)
  show "contents ?q = contents q @ [m]"
    using sl l1 unfolding contents_def ix by (simp add: pushed_def)
qed

lemma popped_ok:
  assumes r: "ring_ok q" and n: "q_len q \<noteq> 0"
  shows "ring_ok (popped q)" "contents q = the (slots q ! unat (q_head q)) # contents (popped q)"
    "slots q ! unat (q_head q) \<noteq> None"
proof -
  let ?h = "unat (q_head q)" and ?c = "unat (capacity q)" and ?q = "popped q"
  note a = ring_nat [OF r]
  have l: "unat (q_len q) = Suc (unat (q_len q - 1))" using n unat_minus_one_pos [OF n] by (simp add: unat_gt_0)
  have c0: "capacity q \<noteq> 0" using a(1) by auto
  have c: "unat (capacity q - 1) = ?c - 1" by (rule unat_minus_one_pos [OF c0])
  have hd: "unat (q_head ?q) = (if Suc ?h = ?c then 0 else Suc ?h)"
    using a(1) c unat_plus_one_below [of "q_head q" "capacity q"]
    by (auto simp: popped_def word_unat_eq_iff word_less_nat_alt)
  have cq: "capacity ?q = capacity q" by (simp add: popped_def)
  have ix: "ring_index ?q i = ring_index q (Suc i)" for i
  proof (cases "Suc ?h = ?c")
    case True
    then have "?h + Suc i = ?c + i" by simp
    then show ?thesis using True hd cq by (simp only: ring_index_def if_True mod_add_self1) simp
  next
    case False
    then show ?thesis using hd cq by (simp add: ring_index_def)
  qed
  have h0: "ring_index q 0 = ?h" using a by (simp add: ring_index_def)
  show "slots q ! ?h \<noteq> None" using r l h0 unfolding ring_ok_def by (metis zero_less_Suc)
  have "\<forall>i < unat (q_len q - 1). slots q ! ring_index q (Suc i) \<noteq> None" using r l unfolding ring_ok_def by (metis Suc_less_eq)
  then show "ring_ok ?q"
    using a l hd unfolding ring_ok_def ix by (auto simp: popped_def word_less_nat_alt word_le_nat_alt)
  have "[0..<unat (q_len q)] = 0 # map Suc [0..<unat (q_len q - 1)]" unfolding l by (simp add: upt_conv_Cons map_Suc_upt)
  then show "contents q = the (slots q ! ?h) # contents ?q"
    unfolding contents_def ix by (simp add: h0 popped_def comp_def)
qed

section \<open>Sending and receiving\<close>

definition mq_ok :: "'a QueueState \<Rightarrow> kstate \<Rightarrow> bool" where
  "mq_ok q s \<longleftrightarrow>
     ring_ok q \<and> sync_ok (senders q) s \<and> sync_ok (receivers q) s \<and> set (senders q) \<inter> set (receivers q) = {}"

lemma sync_ok_other:
  assumes w: "sync_ok ws s" and u: "unblocked t s s'" and t: "t \<notin> set ws" and d: "distinct (suspended s)"
  shows "sync_ok ws s'"
proof -
  have "ordered (sync_cmp s') ws = ordered (sync_cmp s) ws"
    by (rule sync_ordered_cong) (use u in \<open>simp add: unblocked_def\<close>)
  then show ?thesis using w u d t by (auto simp: sync_ok_def unblocked_def)
qed

text \<open>What waking the first of \<open>ws\<close> does, if there is one.\<close>

definition woke_first :: "addr list \<Rightarrow> kstate \<Rightarrow> kstate \<Rightarrow> bool" where
  "woke_first ws s s' \<longleftrightarrow>
     kinv s' \<and> no_overdue s' \<and> (if ws = [] then s' = s else unblocked (hd ws) s s' \<and> pendsv s')"

lemma pop_wake_ok:
  assumes k: "kinv s" and n: "no_overdue s" and w: "sync_ok ws s" and c: "ws \<noteq> [] \<Longrightarrow> can_wake s (hd ws)"
  shows "\<exists>t s'. pop_waiting_thread ws s = Some (t, tl ws) \<and> mq_wake t s = Some s' \<and> woke_first ws s s'
    \<and> sync_ok (tl ws) s' \<and> (\<forall>vs. sync_ok vs s \<longrightarrow> set vs \<inter> set ws = {} \<longrightarrow> sync_ok vs s')"
proof (cases ws)
  case Nil
  then show ?thesis using k n w by (simp add: pop_waiting_thread_def ol_pop_def mq_wake_def woke_first_def)
next
  case (Cons t ts)
  have t: "t \<in> waiting s" using sync_ok_waiting [OF w] Cons by simp
  have tb: "t \<noteq> 0" "is_blocked (state (threads s t))" using wq_ok_blocked [OF kinvD(2) [OF k] t] by auto
  from wake_waiter_ok [OF k n t] c Cons obtain x where
    x: "wake_waiter t s = Some (Inr (), x)" "unblocked t s x" by (auto simp: wpo_def)
  have d: "distinct (suspended s)" using kinvD(2) [OF k] by (simp add: wq_ok_def)
  let ?x = "request_context_switch x"
  have u: "unblocked t s ?x" using x(2) by (simp add: unblocked_def)
  have "sync_ok ts ?x" using sync_ok_unblocked [OF w [unfolded Cons] u d] .
  moreover have "\<forall>vs. sync_ok vs s \<longrightarrow> set vs \<inter> set ws = {} \<longrightarrow> sync_ok vs ?x"
    using sync_ok_other [OF _ u _ d] Cons by auto
  moreover have "woke_first ws s ?x" using u Cons by (simp add: woke_first_def unblocked_def)
  moreover have "pop_waiting_thread ws s = Some (Some t, tl ws)"
    using Cons tb by (simp add: pop_waiting_thread_def ol_pop_def store_defs require_def)
  moreover have "mq_wake (Some t) s = Some ?x" using x(1) by (simp add: mq_wake_def)
  ultimately show ?thesis using Cons by auto
qed

lemma try_send_ok:
  assumes q: "mq_ok q s" and k: "kinv s" and n: "no_overdue s" and c: "receivers q \<noteq> [] \<Longrightarrow> can_wake s (hd (receivers q))"
  shows "wpo (try_send m q s) (\<lambda>(r, q', s'). mq_ok q' s' \<and>
    (if length (contents q) = unat (capacity q) then r = Inl MqFull \<and> q' = q \<and> s' = s
     else r = Inr () \<and> contents q' = contents q @ [m] \<and> capacity q' = capacity q
       \<and> receivers q' = tl (receivers q) \<and> senders q' = senders q \<and> woke_first (receivers q) s s'))"
proof -
  have ln: "length (contents q) = unat (q_len q)" by (simp add: contents_def)
  have r: "ring_ok q" using q by (simp add: mq_ok_def)
  show ?thesis
  proof (cases "q_len q = capacity q")
    case True
    then show ?thesis using q ln by (simp add: try_send_def)
  next
    case False
    then have full: "length (contents q) \<noteq> unat (capacity q)" using ln by (simp add: word_unat_eq_iff)
    obtain u t where t: "checked_sub (capacity q) (q_head q) = Some u"
      "(if q_len q < u then checked_add (q_head q) (q_len q) else checked_sub (q_len q) u) = Some t"
      "unat t = ring_index q (unat (q_len q))" "unat t < length (slots q)" using tail_ok [OF r False] by blast
    have "unat (q_len q) + unat (1::u32) < 2 ^ LENGTH(32)"
      using len_below [OF r False] unat_bound [of "capacity q"] by simp
    from checked_add_ok [OF this] have add: "checked_add (q_len q) 1 = Some (q_len q + 1)" by simp
    obtain w s' where w: "pop_waiting_thread (receivers q) s = Some (w, tl (receivers q))" "mq_wake w s = Some s'"
      "woke_first (receivers q) s s'" "sync_ok (tl (receivers q)) s'"
      "\<forall>vs. sync_ok vs s \<longrightarrow> set vs \<inter> set (receivers q) = {} \<longrightarrow> sync_ok vs s'"
      using pop_wake_ok [OF k n, of "receivers q"] q c by (auto simp: mq_ok_def)
    let ?q = "(pushed m q)\<lparr>receivers := tl (receivers q)\<rparr>"
    have ex: "try_send m q s = Some (Inr (), ?q, s')"
      using False t add w(1,2) by (simp add: try_send_def Let_def pushed_def require_def)
    have ct: "contents ?q = contents (pushed m q)" "ring_ok ?q = ring_ok (pushed m q)"
      by (simp_all add: contents_def ring_ok_def ring_index_def)
    have "set (tl (receivers q)) \<subseteq> set (receivers q)" by (cases "receivers q") auto
    then have "mq_ok ?q s'" using q w(4,5) ct(2) pushed_ok(1) [OF r False, of m] by (auto simp: mq_ok_def pushed_def)
    then show ?thesis
      using ex full ct(1) pushed_ok(2) [OF r False, of m] w(3) by (simp add: pushed_def)
  qed
qed

lemma try_receive_ok:
  assumes q: "mq_ok q s" and k: "kinv s" and n: "no_overdue s" and c: "senders q \<noteq> [] \<Longrightarrow> can_wake s (hd (senders q))"
  shows "wpo (try_receive q s) (\<lambda>(r, q', s'). mq_ok q' s' \<and>
    (case contents q of [] \<Rightarrow> r = Inl MqEmpty \<and> q' = q \<and> s' = s
     | m # ms \<Rightarrow> r = Inr m \<and> contents q' = ms \<and> capacity q' = capacity q
       \<and> senders q' = tl (senders q) \<and> receivers q' = receivers q \<and> woke_first (senders q) s s'))"
proof -
  have ln: "length (contents q) = unat (q_len q)" by (simp add: contents_def)
  have r: "ring_ok q" using q by (simp add: mq_ok_def)
  show ?thesis
  proof (cases "q_len q = 0")
    case True
    then have "contents q = []" using ln by simp
    then show ?thesis using True q by (simp add: try_receive_def)
  next
    case False
    note a = ring_nat [OF r] and p = popped_ok [OF r False]
    obtain m where m: "slots q ! unat (q_head q) = Some m" using p(3) by auto
    have c0: "capacity q \<noteq> 0" using a(1) by auto
    have one: "checked_sub w 1 = Some (w - 1)" if "w \<noteq> 0" for w :: u32
      using that decrement_word_eq [of w] by (simp add: decrement_word_if_positive_def split: option.splits)
    have hd: "(if q_head q = capacity q - 1 then Some 0 else checked_add (q_head q) 1) = Some (q_head (popped q))"
    proof -
      have "unat (q_head q) + unat (1::u32) < 2 ^ LENGTH(32)" using a(1) unat_bound [of "capacity q"] by simp
      from checked_add_ok [OF this] show ?thesis by (simp add: popped_def)
    qed
    obtain w s' where w: "pop_waiting_thread (senders q) s = Some (w, tl (senders q))" "mq_wake w s = Some s'"
      "woke_first (senders q) s s'" "sync_ok (tl (senders q)) s'"
      "\<forall>vs. sync_ok vs s \<longrightarrow> set vs \<inter> set (senders q) = {} \<longrightarrow> sync_ok vs s'"
      using pop_wake_ok [OF k n, of "senders q"] q c by (auto simp: mq_ok_def)
    let ?q = "(popped q)\<lparr>senders := tl (senders q)\<rparr>"
    have ex: "try_receive q s = Some (Inr m, ?q, s')"
      using False m a one [OF c0] one [OF False] hd w(1,2) by (simp add: try_receive_def Let_def require_def popped_def)
    have ct: "contents ?q = contents (popped q)" "ring_ok ?q = ring_ok (popped q)"
      by (simp_all add: contents_def ring_ok_def ring_index_def)
    have "set (tl (senders q)) \<subseteq> set (senders q)" by (cases "senders q") auto
    then have "mq_ok ?q s'" using q w(4,5) ct(2) p(1) by (auto simp: mq_ok_def popped_def)
    then show ?thesis using ex ct(1) p(2) m w(3) by (simp add: popped_def)
  qed
qed

section \<open>Blocking calls\<close>

lemma mq_block_eq:
  assumes "CURRENT_THREAD_CTX s \<noteq> 0" "state (threads s (CURRENT_THREAD_CTX s)) = Running" "kind (threads s (CURRENT_THREAD_CTX s)) \<noteq> Idle"
  shows "mq_block ty True q s =
    block_current_thread_on ty (if ty = SyncMessageQueueSend then senders q else receivers q) (CURRENT_THREAD_CTX s) s \<bind>
      (\<lambda>(r, ws, s'). Some (case r of
         Inl er \<Rightarrow> (Inl (MqWaitQueue er), q, s')
       | Inr _ \<Rightarrow> (Inr (), if ty = SyncMessageQueueSend then q\<lparr>senders := ws\<rparr> else q\<lparr>receivers := ws\<rparr>, s')))"
  using assms
  by (cases "block_current_thread (CURRENT_THREAD_CTX s) ty s")
    (auto simp: mq_block_def block_current_thread_on_def current_thread_handle_def get_thread_def case_prod_beta' split: sum.splits)

lemma sync_blocked_others:
  assumes k: "kinv s" and c: "can_block s" and b: "sync_blocked ty s s'" and w: "sync_ok ws s"
  shows "sync_ok ws s'" "CURRENT_THREAD_CTX s \<notin> set ws"
proof -
  show n: "CURRENT_THREAD_CTX s \<notin> set ws" using sync_ok_waiting [OF w] can_block_yield(2) [OF k c] by auto
  have "u \<noteq> CURRENT_THREAD_CTX s \<Longrightarrow> sync_entity (threads s' u) = sync_entity (threads s u)" for u
    using b by (simp add: sync_blocked_def)
  then have "ordered (sync_cmp s') ws = ordered (sync_cmp s) ws" using n by (intro sync_ordered_cong) metis
  moreover have "suspended s' = suspended s @ [CURRENT_THREAD_CTX s]" using b by (simp add: sync_blocked_def)
  ultimately show "sync_ok ws s'" using w by (auto simp: sync_ok_def)
qed

lemma mq_block_ok:
  assumes q: "mq_ok q s" and k: "kinv s" and c: "can_block s" "state (threads s (CURRENT_THREAD_CTX s)) = Running"
    and n: "no_overdue (ktq_advance_time (elapsed_ticks_since_current_reload s) s)"
  shows "wpo (mq_block ty True q s) (\<lambda>(r, q', s'). r = Inr () \<and> sync_blocked ty s s' \<and> pendsv s' \<and> mq_ok q' s'
    \<and> contents q' = contents q
    \<and> set (if ty = SyncMessageQueueSend then senders q' else receivers q')
        = insert (CURRENT_THREAD_CTX s) (set (if ty = SyncMessageQueueSend then senders q else receivers q))
    \<and> (if ty = SyncMessageQueueSend then receivers q' = receivers q else senders q' = senders q)
    \<and> capacity q' = capacity q)"
proof -
  let ?t = "CURRENT_THREAD_CTX s" and ?ws = "if ty = SyncMessageQueueSend then senders q else receivers q"
  note cb = can_block_yield [OF k c(1)]
  have w: "sync_ok ?ws s" using q by (simp add: mq_ok_def)
  from block_on_ok [OF k c(1) n w, of ty] obtain d ws s' where
    b: "block_current_thread_on ty ?ws ?t s = Some (Inr d, ws, s')" "sync_blocked ty s s'" "pendsv s'"
      "sync_ok ws s'" "set ws = insert ?t (set ?ws)" by (auto simp: wpo_def)
  let ?q = "if ty = SyncMessageQueueSend then q\<lparr>senders := ws\<rparr> else q\<lparr>receivers := ws\<rparr>"
  have eq: "mq_block ty True q s = Some (Inr (), ?q, s')"
    using mq_block_eq [OF cb(3) c(2), of ty q] cb(1) b(1) by (simp add: can_yield_def)
  have "sync_ok (senders q) s'" "sync_ok (receivers q) s'" "?t \<notin> set (senders q)" "?t \<notin> set (receivers q)"
    using sync_blocked_others [OF k c(1) b(2)] q by (auto simp: mq_ok_def)
  then have "mq_ok ?q s'" using q b(4,5) by (auto simp: mq_ok_def ring_ok_def ring_index_def split: if_splits)
  moreover have "contents ?q = contents q" by (simp add: contents_def ring_index_def)
  ultimately show ?thesis using eq b by (simp split: if_splits)
qed

text \<open>A blocked receiver that is resumed with a message in the queue takes it; senders alike.\<close>

lemma receive_resumed:
  assumes q: "mq_ok q s" "contents q = []" and k: "kinv s" and c: "can_block s" "state (threads s (CURRENT_THREAD_CTX s)) = Running"
    and n: "no_overdue (ktq_advance_time (elapsed_ticks_since_current_reload s) s)"
    and w: "\<And>q1 s1. mq_block SyncMessageQueueReceive True q s = Some (Inr (), q1, s1) \<Longrightarrow> wait q1 s1 = Some (q2, s2)"
    and r: "mq_ok q2 s2" "contents q2 = m # ms" "kinv s2" "no_overdue s2" "senders q2 \<noteq> [] \<Longrightarrow> can_wake s2 (hd (senders q2))"
  shows "\<exists>q' s'. receive_with_wait wait True q s = Some (Inr m, q', s') \<and> contents q' = ms \<and> mq_ok q' s'"
proof -
  have "q_len q = 0" using q(2) by (simp add: contents_def unsigned_eq_0_iff)
  then have e: "try_receive q s = Some (Inl MqEmpty, q, s)" by (simp add: try_receive_def)
  from mq_block_ok [OF q(1) k c n, of SyncMessageQueueReceive] obtain q1 s1 where
    b: "mq_block SyncMessageQueueReceive True q s = Some (Inr (), q1, s1)" by (auto simp: wpo_def)
  from try_receive_ok [OF r(1,3,4,5)] r(2) obtain q' s' where
    t: "try_receive q2 s2 = Some (Inr m, q', s')" "contents q' = ms" "mq_ok q' s'" by (auto simp: wpo_def)
  have "receive_with_wait wait True q2 s2 = Some (Inr m, q', s')"
    using t(1) by (simp add: receive_round_def receive_with_wait.simps [of wait True q2 s2])
  then have "receive_with_wait wait True q s = Some (Inr m, q', s')"
    using e b w [OF b] by (simp add: receive_round_def receive_with_wait.simps [of wait True q s])
  then show ?thesis using t by blast
qed

lemma send_resumed:
  assumes q: "mq_ok q s" "length (contents q) = unat (capacity q)" and k: "kinv s"
    and c: "can_block s" "state (threads s (CURRENT_THREAD_CTX s)) = Running"
    and n: "no_overdue (ktq_advance_time (elapsed_ticks_since_current_reload s) s)"
    and w: "\<And>q1 s1. mq_block SyncMessageQueueSend True q s = Some (Inr (), q1, s1) \<Longrightarrow> wait q1 s1 = Some (q2, s2)"
    and r: "mq_ok q2 s2" "length (contents q2) < unat (capacity q2)" "kinv s2" "no_overdue s2"
      "receivers q2 \<noteq> [] \<Longrightarrow> can_wake s2 (hd (receivers q2))"
  shows "\<exists>q' s'. send_with_wait wait m True q s = Some (Inr (), q', s') \<and> contents q' = contents q2 @ [m] \<and> mq_ok q' s'"
proof -
  have "q_len q = capacity q" using q(2) by (simp add: contents_def word_unat_eq_iff)
  then have e: "try_send m q s = Some (Inl MqFull, q, s)" by (simp add: try_send_def)
  from mq_block_ok [OF q(1) k c n, of SyncMessageQueueSend] obtain q1 s1 where
    b: "mq_block SyncMessageQueueSend True q s = Some (Inr (), q1, s1)" by (auto simp: wpo_def)
  from try_send_ok [OF r(1,3,4,5), of m] r(2) obtain q' s' where
    t: "try_send m q2 s2 = Some (Inr (), q', s')" "contents q' = contents q2 @ [m]" "mq_ok q' s'" by (auto simp: wpo_def)
  have "send_with_wait wait m True q2 s2 = Some (Inr (), q', s')"
    using t(1) by (simp add: send_round_def send_with_wait.simps [of wait m True q2 s2])
  then have "send_with_wait wait m True q s = Some (Inr (), q', s')"
    using e b w [OF b] by (simp add: send_round_def send_with_wait.simps [of wait m True q s])
  then show ?thesis using t by blast
qed

end
