(* ===== verification/Thread.thy ===== *)
theory Thread
  imports Message
begin

text \<open>
  Thread creation (\<^verbatim>\<open>src/thread.rs\<close>), the initial stack frame of the two platforms
  (\<^verbatim>\<open>src/arch/cm/platform.rs\<close>, \<^verbatim>\<open>src/arch/host/platform.rs\<close>) and the start of the scheduler
  (\<^verbatim>\<open>src/arch/platform.rs\<close>, \<^verbatim>\<open>src/arch/cm/ctx_switch.rs\<close>). Stack memory maps word addresses to words. A
  failed validation is a panic with the message of its \<open>ThreadSpawnError\<close>.
\<close>

section \<open>Initial stack frames\<close>

type_synonym mem = "addr \<Rightarrow> u32"

record InitialThreadContext =
  init_sp :: u32
  init_exc_return :: u32

definition THREAD_STACK_ALIGNMENT :: nat where
  "THREAD_STACK_ALIGNMENT = 8"

definition THREAD_INITIAL_FRAME_WORDS :: nat where
  "THREAD_INITIAL_FRAME_WORDS = 16"

definition INITIAL_XPSR_THUMB_STATE :: u32 where
  "INITIAL_XPSR_THUMB_STATE = 0x01000000"

definition EXC_RETURN_THREAD_MODE_PSP :: u32 where
  "EXC_RETURN_THREAD_MODE_PSP = 0xFFFFFFFD"

text \<open>\<open>sp & !(THREAD_STACK_ALIGNMENT - 1)\<close>: the low three bits are cleared.\<close>

definition align_down :: "addr \<Rightarrow> addr" where
  "align_down a = push_bit 3 (drop_bit 3 a)"

text \<open>\<open>sp = sp.sub(1); *sp = v\<close>: a word is four bytes.\<close>

definition push_word :: "u32 \<Rightarrow> addr \<times> mem \<Rightarrow> addr \<times> mem" where
  "push_word v = (\<lambda>(a, m). (a - 4, m(a - 4 := v)))"

definition init_cortex_m_thread_stack :: "addr \<Rightarrow> addr \<Rightarrow> addr \<Rightarrow> mem \<Rightarrow> InitialThreadContext \<times> mem" where
  "init_cortex_m_thread_stack stk entry arg m =
     (let f = (align_down stk, m);
          f = push_word INITIAL_XPSR_THUMB_STATE f;
          f = push_word (of_nat entry) f;
          f = push_word EXC_RETURN_THREAD_MODE_PSP f;
          f = push_word 0 f;
          f = (push_word 0 ^^ 3) f;
          f = push_word (of_nat arg) f;
          f = (push_word 0 ^^ 8) f
      in (\<lparr>init_sp = of_nat (fst f), init_exc_return = EXC_RETURN_THREAD_MODE_PSP\<rparr>, snd f))"

text \<open>\<open>write_bytes(frame, 0, n)\<close>: the \<open>n\<close> words from \<open>frame\<close> are zero.\<close>

primrec write_zeros :: "nat \<Rightarrow> addr \<Rightarrow> mem \<Rightarrow> mem" where
  "write_zeros 0 a m = m"
| "write_zeros (Suc n) a m = (write_zeros n (a + 4) m)(a := 0)"

definition init_host_thread_stack :: "addr \<Rightarrow> addr \<Rightarrow> addr \<Rightarrow> mem \<Rightarrow> InitialThreadContext \<times> mem" where
  "init_host_thread_stack stk entry arg m =
     (let frame = align_down stk - 4 * THREAD_INITIAL_FRAME_WORDS;
          m = write_zeros THREAD_INITIAL_FRAME_WORDS frame m;
          m = m(frame + 4 * 8 := of_nat arg);
          m = m(frame + 4 * 13 := 0xFFFFFFFD);
          m = m(frame + 4 * 14 := of_nat entry);
          m = m(frame + 4 * 15 := 0x01000000)
      in (\<lparr>init_sp = of_nat frame, init_exc_return = 0xFFFFFFFD\<rparr>, m))"

section \<open>Validation\<close>

datatype ThreadSpawnError = NullThreadStorage | NullStack | StackTooSmall nat nat | UnalignedStackTop
  | ZeroPriority | NullRtTimer

primrec spawn_error_message :: "ThreadSpawnError \<Rightarrow> string" where
  "spawn_error_message NullThreadStorage = ''thread storage pointer must be non-null''"
| "spawn_error_message NullStack = ''thread stack pointer must be non-null''"
| "spawn_error_message (StackTooSmall required_words actual_words) =
     ''thread stack must reserve at least 16 words for the initial platform frame''"
| "spawn_error_message UnalignedStackTop = ''thread stack top must be 8-byte aligned''"
| "spawn_error_message ZeroPriority = ''CFS thread priority must be non-zero''"
| "spawn_error_message NullRtTimer = ''RT thread ktimer must be non-null''"

text \<open>\<open>InitArgs\<close> of the two implementations of \<open>ThreadControlBlock\<close>: a priority or a timer.\<close>

datatype InitArgs = CfsArgs u32 | RtArgs addr

primrec args_kind :: "InitArgs \<Rightarrow> ThreadKind" where
  "args_kind (CfsArgs p) = Cfs"
| "args_kind (RtArgs k) = Rt"

definition CfsThread_validate_init_args :: "u32 \<Rightarrow> ThreadSpawnError + unit" where
  "CfsThread_validate_init_args p = (if p = 0 then Inl ZeroPriority else Inr ())"

definition RtThread_validate_init_args :: "addr \<Rightarrow> ThreadSpawnError + unit" where
  "RtThread_validate_init_args k = (if k = 0 then Inl NullRtTimer else Inr ())"

primrec validate_init_args :: "InitArgs \<Rightarrow> ThreadSpawnError + unit" where
  "validate_init_args (CfsArgs p) = CfsThread_validate_init_args p"
| "validate_init_args (RtArgs k) = RtThread_validate_init_args k"

definition validate_thread_storage :: "addr \<Rightarrow> ThreadSpawnError + unit" where
  "validate_thread_storage t = (if t = 0 then Inl NullThreadStorage else Inr ())"

text \<open>A stack is the address of its storage and its size \<open>N\<close> in words.\<close>

definition validate_stack :: "addr \<Rightarrow> nat \<Rightarrow> ThreadSpawnError + unit" where
  "validate_stack stack n =
     (if stack = 0 then Inl NullStack
      else if n < THREAD_INITIAL_FRAME_WORDS then Inl (StackTooSmall THREAD_INITIAL_FRAME_WORDS n)
      else if take_bit 3 (stack + 4 * n) \<noteq> 0 then Inl UnalignedStackTop
      else Inr ())"

definition stack_top :: "addr \<Rightarrow> nat \<Rightarrow> addr option" where
  "stack_top stack n = do {
     require (stack \<noteq> 0);
     let stk = stack + 4 * n;
     require (stk mod THREAD_STACK_ALIGNMENT = 0);
     Some stk
   }"

definition unwrap_or_panic :: "ThreadSpawnError + unit \<Rightarrow> unit option" where
  "unwrap_or_panic r = (case r of Inl e \<Rightarrow> None | Inr _ \<Rightarrow> Some ())"

section \<open>Control blocks\<close>

record ThreadStart =
  start_name :: string
  start_entry :: addr
  start_arg :: addr

definition ThreadStart_new :: "string \<Rightarrow> addr \<Rightarrow> ThreadStart" where
  "ThreadStart_new nm entry = \<lparr>start_name = nm, start_entry = entry, start_arg = 0\<rparr>"

definition with_arg :: "addr \<Rightarrow> ThreadStart \<Rightarrow> ThreadStart" where
  "with_arg a st = st\<lparr>start_arg := a\<rparr>"

definition new_tcb :: "u32 \<Rightarrow> InitialThreadContext \<Rightarrow> string \<Rightarrow> ThreadKind \<Rightarrow> u32 \<Rightarrow> TCB" where
  "new_tcb i c nm kd p =
     \<lparr>sp = init_sp c, exc_return = init_exc_return c, thread_id = i, thread_name = nm, state = Ready, kind = kd,
      wait_entity = WaitEntity_new, sync_entity = SyncEntity_new, sched_entity = SchedEntity_new p,
      ktimer_entity = 0, runtime = 0\<rparr>"

definition init_rt_ktimer :: "addr \<Rightarrow> addr \<Rightarrow> kstate \<Rightarrow> kstate option" where
  "init_rt_ktimer k t s = do {
     s \<leftarrow> upd_ktimer k (thread_ctx_update (\<lambda>_. t)) s;
     if t \<noteq> 0 then upd_thread t (ktimer_entity_update (\<lambda>_. k)) s else Some s
   }"

text \<open>\<open>init\<close> of the two implementations writes the storage and enters the thread in its queue.\<close>

definition CfsThread_init :: "u32 \<Rightarrow> addr \<Rightarrow> u32 \<Rightarrow> InitialThreadContext \<Rightarrow> string \<Rightarrow> kstate \<Rightarrow> kstate option" where
  "CfsThread_init p t i c nm s = do {
     require (p \<noteq> 0);
     s \<leftarrow> upd_thread t (\<lambda>_. new_tcb i c nm Cfs p) s;
     enqueue_thread t s
   }"

definition RtThread_init :: "addr \<Rightarrow> addr \<Rightarrow> u32 \<Rightarrow> InitialThreadContext \<Rightarrow> string \<Rightarrow> kstate \<Rightarrow> kstate option" where
  "RtThread_init k t i c nm s = do {
     require (k \<noteq> 0);
     s \<leftarrow> upd_thread t (\<lambda>_. new_tcb i c nm Rt 0) s;
     s \<leftarrow> init_rt_ktimer k t s;
     enqueue_ktimer k s
   }"

primrec thread_init :: "InitArgs \<Rightarrow> addr \<Rightarrow> u32 \<Rightarrow> InitialThreadContext \<Rightarrow> string \<Rightarrow> kstate \<Rightarrow> kstate option" where
  "thread_init (CfsArgs p) t i c nm s = CfsThread_init p t i c nm s"
| "thread_init (RtArgs k) t i c nm s = RtThread_init k t i c nm s"

definition forkyi :: "addr \<Rightarrow> addr \<Rightarrow> ThreadStart \<Rightarrow> InitArgs \<Rightarrow> kstate \<times> mem \<Rightarrow> (addr \<times> kstate \<times> mem) option" where
  "forkyi t stk st args = (\<lambda>(s, m). do {
     require (t \<noteq> 0);
     require (stk \<noteq> 0);
     require (stk mod THREAD_STACK_ALIGNMENT = 0);
     let (c, m) = init_cortex_m_thread_stack stk (start_entry st) (start_arg st) m;
     let i = NEXT_THREAD_ID s;
     s \<leftarrow> Some (s\<lparr>NEXT_THREAD_ID := i + 1\<rparr>);
     s \<leftarrow> thread_init args t i c (start_name st) s;
     Some (t, s, m)
   })"

text \<open>
  A refused spawn panics with the message of the error; the panic is reported with the state it leaves behind.
\<close>

definition spawn_thread_or_panic ::
  "addr \<Rightarrow> addr \<Rightarrow> nat \<Rightarrow> ThreadStart \<Rightarrow> InitArgs \<Rightarrow> kstate \<times> mem \<Rightarrow> ((string \<times> kstate \<times> mem) + (addr \<times> kstate \<times> mem)) option" where
  "spawn_thread_or_panic t stack n st args = (\<lambda>(s, m).
     case validate_init_args args of Inl e \<Rightarrow> Some (Inl (spawn_error_message e, s, m)) | Inr _ \<Rightarrow>
     (case validate_thread_storage t of Inl e \<Rightarrow> Some (Inl (spawn_error_message e, s, m)) | Inr _ \<Rightarrow>
     (case validate_stack stack n of Inl e \<Rightarrow> Some (Inl (spawn_error_message e, s, m)) | Inr _ \<Rightarrow> do {
        stk \<leftarrow> stack_top stack n;
        r \<leftarrow> forkyi t stk st args (s, m);
        Some (Inr r)
      })))"

definition spawn_thread :: "addr \<Rightarrow> addr \<Rightarrow> nat \<Rightarrow> ThreadStart \<Rightarrow> InitArgs \<Rightarrow> kstate \<times> mem \<Rightarrow> (addr \<times> kstate \<times> mem) option" where
  "spawn_thread t stack n st args sm = do {
     r \<leftarrow> spawn_thread_or_panic t stack n st args sm;
     case r of Inl _ \<Rightarrow> None | Inr x \<Rightarrow> Some x
   }"

definition spawn_idle_thread :: "ThreadStart \<Rightarrow> addr \<Rightarrow> addr \<Rightarrow> nat \<Rightarrow> kstate \<times> mem \<Rightarrow> (addr \<times> kstate \<times> mem) option" where
  "spawn_idle_thread st t stack n = (\<lambda>(s, m). do {
     _ \<leftarrow> unwrap_or_panic (validate_thread_storage t);
     _ \<leftarrow> unwrap_or_panic (validate_stack stack n);
     stk \<leftarrow> stack_top stack n;
     let (c, m) = init_cortex_m_thread_stack stk (start_entry st) (start_arg st) m;
     let i = NEXT_THREAD_ID s;
     s \<leftarrow> Some (s\<lparr>NEXT_THREAD_ID := i + 1\<rparr>);
     s \<leftarrow> upd_thread t (\<lambda>_. new_tcb i c (start_name st) Idle 0) s;
     Some (t, s, m)
   })"

section \<open>Starting the scheduler\<close>

definition reset_scheduler_started :: "kstate \<Rightarrow> kstate" where
  "reset_scheduler_started s = s\<lparr>SCHEDULER_STARTED := False\<rparr>"

text \<open>The part of the \<open>SVCall\<close> handler that touches scheduler state.\<close>

definition SVCall :: "addr \<Rightarrow> kstate \<Rightarrow> kstate" where
  "SVCall start s = s\<lparr>CURRENT_THREAD_CTX := start, SCHEDULER_STARTED := True\<rparr>"

definition cm_spawn_main_thread :: "addr \<Rightarrow> kstate \<Rightarrow> kstate option" where
  "cm_spawn_main_thread t s = do {
     th \<leftarrow> get_thread s t;
     require (is_idle_thread t s \<and> kind th = Idle);
     s \<leftarrow> set_state t Running s;
     s \<leftarrow> Some (reset_scheduler_started s);
     s \<leftarrow> Some (s\<lparr>CURRENT_THREAD_IS_CFS := (kind th = Cfs)\<rparr>);
     Some (SVCall t s)
   }"

definition spawn_main_thread :: "string \<Rightarrow> addr \<Rightarrow> addr \<Rightarrow> addr \<Rightarrow> nat \<Rightarrow> kstate \<times> mem \<Rightarrow> (kstate \<times> mem) option" where
  "spawn_main_thread nm entry t stack n sm = do {
     (t, s, m) \<leftarrow> spawn_idle_thread (ThreadStart_new nm entry) t stack n sm;
     s \<leftarrow> register_idle_thread t s;
     s \<leftarrow> cm_spawn_main_thread t s;
     Some (s, m)
   }"

section \<open>Queries of the running thread\<close>

definition current_thread :: "kstate \<Rightarrow> addr option" where
  "current_thread s = (if CURRENT_THREAD_CTX s = 0 then None else Some (CURRENT_THREAD_CTX s))"

definition current_thread_id :: "kstate \<Rightarrow> u32 option" where
  "current_thread_id s =
     (if CURRENT_THREAD_CTX s = 0 then None else Some (thread_id (threads s (CURRENT_THREAD_CTX s))))"

definition set_rt_thread_start_time :: "u32 \<Rightarrow> kstate \<Rightarrow> (bool \<times> kstate) option" where
  "set_rt_thread_start_time start_time s =
     (let t = CURRENT_THREAD_CTX s in
      if t \<noteq> 0 \<and> kind (threads s t) = Rt
      then do { s \<leftarrow> upd_thread t (runtime_update (\<lambda>_. start_time)) s; Some (True, s) }
      else Some (False, s))"

definition current_rt_thread_runtime :: "kstate \<Rightarrow> u32 option" where
  "current_rt_thread_runtime s =
     (let t = CURRENT_THREAD_CTX s in
      if t = 0 \<or> kind (threads s t) \<noteq> Rt then None else Some (runtime (threads s t)))"

definition wait_info_from_entity :: "WaitEntity \<Rightarrow> kstate \<Rightarrow> u32 \<times> SyncType option" where
  "wait_info_from_entity w s = (wait_remaining_at w (now_ticks s), waitevt w)"

record CfsSchedInfo =
  info_priority :: u32
  info_sched_tick_cnt :: u64
  info_vruntime :: u64

definition sched_info :: "TCB \<Rightarrow> CfsSchedInfo" where
  "sched_info th =
     (let e = sched_entity th in
      \<lparr>info_priority = priority e, info_sched_tick_cnt = sched_tick_cnt e, info_vruntime = vruntime e\<rparr>)"

definition thread_ref_from_handle :: "addr \<Rightarrow> kstate \<Rightarrow> TCB option" where
  "thread_ref_from_handle t s = do {
     th \<leftarrow> get_thread s t;
     if kind th = Idle then None else Some th
   }"

section \<open>The two platforms build the same frame\<close>

text \<open>The sixteen words of a frame at \<open>b\<close>, from low to high: r4 to r11, r0, r1 to r3, r12, lr, pc, xPSR.\<close>

definition initial_frame :: "addr \<Rightarrow> addr \<Rightarrow> u32 list" where
  "initial_frame entry arg =
     replicate 8 0 @ [of_nat arg, 0, 0, 0, 0, EXC_RETURN_THREAD_MODE_PSP, of_nat entry, INITIAL_XPSR_THUMB_STATE]"

fun write_words :: "addr \<Rightarrow> u32 list \<Rightarrow> mem \<Rightarrow> mem" where
  "write_words a [] m = m"
| "write_words a (w # ws) m = (write_words (a + 4) ws m)(a := w)"

lemmas frame_defs = push_word_def initial_frame_def EXC_RETURN_THREAD_MODE_PSP_def INITIAL_XPSR_THUMB_STATE_def
  THREAD_INITIAL_FRAME_WORDS_def

lemma cortex_frame:
  assumes "align_down stk = b + 64"
  shows "init_cortex_m_thread_stack stk entry arg m =
    (\<lparr>init_sp = of_nat b, init_exc_return = EXC_RETURN_THREAD_MODE_PSP\<rparr>, write_words b (initial_frame entry arg) m)"
  using assms by (simp add: init_cortex_m_thread_stack_def Let_def frame_defs numeral_eq_Suc fun_upd_twist)

lemma host_frame:
  assumes "align_down stk = b + 64"
  shows "init_host_thread_stack stk entry arg m =
    (\<lparr>init_sp = of_nat b, init_exc_return = EXC_RETURN_THREAD_MODE_PSP\<rparr>, write_words b (initial_frame entry arg) m)"
  using assms by (simp add: init_host_thread_stack_def Let_def frame_defs numeral_eq_Suc fun_upd_twist)

end
