(* ===== verification/ThreadLaws.thy ===== *)
theory ThreadLaws
  imports Thread
begin

text \<open>
  Thread creation and start-up: what a spawn refuses, what it creates, and that setting the system up
  and starting it establishes the scheduler invariant.
\<close>

section \<open>What a spawn refuses\<close>

definition spawn_error :: "addr \<Rightarrow> addr \<Rightarrow> nat \<Rightarrow> InitArgs \<Rightarrow> ThreadSpawnError option" where
  "spawn_error t stack n args =
     (case validate_init_args args of
        Inl e \<Rightarrow> Some e
      | Inr _ \<Rightarrow>
          (case validate_thread_storage t of
             Inl e \<Rightarrow> Some e
           | Inr _ \<Rightarrow> (case validate_stack stack n of Inl e \<Rightarrow> Some e | Inr _ \<Rightarrow> None)))"

lemma spawn_error_None:
  "spawn_error t stack n args = None \<longleftrightarrow>
     t \<noteq> 0 \<and> stack \<noteq> 0 \<and> 16 \<le> n \<and> (stack + 4 * n) mod 8 = 0
     \<and> (case args of CfsArgs p \<Rightarrow> p \<noteq> 0 | RtArgs k \<Rightarrow> k \<noteq> 0)"
  by (cases args) (auto simp: spawn_error_def CfsThread_validate_init_args_def RtThread_validate_init_args_def validate_thread_storage_def validate_stack_def THREAD_INITIAL_FRAME_WORDS_def
      take_bit_eq_mod)

lemma align_aligned: "a mod 8 = 0 \<Longrightarrow> align_down a = a"
proof -
  assume "a mod 8 = 0"
  then have "a div 8 * 8 = a" by (metis add.right_neutral div_mult_mod_eq)
  then show ?thesis by (simp add: align_down_def push_bit_eq_mult drop_bit_eq_div)
qed

definition stack_frame :: "addr \<Rightarrow> nat \<Rightarrow> addr" where
  "stack_frame stack n = stack + 4 * n - 64"

definition spawn_context :: "addr \<Rightarrow> nat \<Rightarrow> InitialThreadContext" where
  "spawn_context stack n = \<lparr>init_sp = of_nat (stack_frame stack n), init_exc_return = EXC_RETURN_THREAD_MODE_PSP\<rparr>"

lemma spawn_frame:
  assumes "16 \<le> n" "(stack + 4 * n) mod 8 = 0"
  shows "init_cortex_m_thread_stack (stack + 4 * n) entry arg m =
    (spawn_context stack n, write_words (stack_frame stack n) (initial_frame entry arg) m)"
proof -
  have "align_down (stack + 4 * n) = stack_frame stack n + 64"
    using assms by (simp add: align_aligned stack_frame_def)
  from cortex_frame [OF this] show ?thesis by (simp add: spawn_context_def)
qed

lemma spawn_thread_refused:
  assumes "spawn_error t stack n args = Some e"
  shows "spawn_thread_or_panic t stack n st args (s, m) = Some (Inl (spawn_error_message e, s, m))"
    "spawn_thread t stack n st args (s, m) = None"
  using assms by (auto simp: spawn_error_def spawn_thread_or_panic_def spawn_thread_def split: sum.splits)

lemma spawn_thread_accepted:
  assumes "spawn_error t stack n args = None"
  shows "spawn_thread_or_panic t stack n st args (s, m) =
    thread_init args t (NEXT_THREAD_ID s) (spawn_context stack n) (start_name st) (s\<lparr>NEXT_THREAD_ID := NEXT_THREAD_ID s + 1\<rparr>)
      \<bind> (\<lambda>s'. Some (Inr (t, s', write_words (stack_frame stack n) (initial_frame (start_entry st) (start_arg st)) m)))"
proof -
  note v = assms [unfolded spawn_error_None]
  obtain u1 u2 u3 where "validate_init_args args = Inr u1" "validate_thread_storage t = Inr u2" "validate_stack stack n = Inr u3"
    using assms by (auto simp: spawn_error_def split: sum.splits)
  then show ?thesis
    using v spawn_frame [of n stack "start_entry st" "start_arg st" m]
    by (simp add: spawn_thread_or_panic_def stack_top_def forkyi_def THREAD_STACK_ALIGNMENT_def Let_def require_def)
qed

lemma spawn_thread_eq:
  "spawn_thread t stack n st args (s, m) =
    (if spawn_error t stack n args \<noteq> None then None
     else thread_init args t (NEXT_THREAD_ID s) (spawn_context stack n) (start_name st) (s\<lparr>NEXT_THREAD_ID := NEXT_THREAD_ID s + 1\<rparr>)
       \<bind> (\<lambda>s'. Some (t, s', write_words (stack_frame stack n) (initial_frame (start_entry st) (start_arg st)) m)))"
  using spawn_thread_refused(2) spawn_thread_accepted by (cases "spawn_error t stack n args") (simp_all add: spawn_thread_def)

section \<open>Writing a control block\<close>

text \<open>Storage that no queue refers to.\<close>

definition fresh :: "kstate \<Rightarrow> addr \<Rightarrow> bool" where
  "fresh s t \<longleftrightarrow>
     t \<noteq> 0 \<and> t \<notin> waiting s \<and> t \<notin> set (run_tree s)
     \<and> (\<forall>k \<in> queued s. k \<noteq> CFS_KTIMER s \<longrightarrow> k \<noteq> WAIT_KTIMER s \<longrightarrow> thread_ctx (ktimers s k) \<noteq> t)"

definition put_tcb :: "addr \<Rightarrow> TCB \<Rightarrow> kstate \<Rightarrow> kstate" where
  "put_tcb t th s = s\<lparr>threads := (threads s)(t := th)\<rparr>"

lemma put_tcb_simps [simp]:
  "ktimers (put_tcb t th s) = ktimers s" "queued (put_tcb t th s) = queued s" "waiting (put_tcb t th s) = waiting s"
  "run_tree (put_tcb t th s) = run_tree s" "active_tree (put_tcb t th s) = active_tree s"
  "inactive_tree (put_tcb t th s) = inactive_tree s" "first_active_node (put_tcb t th s) = first_active_node s"
  "first_inactive_node (put_tcb t th s) = first_inactive_node s" "wait_tree (put_tcb t th s) = wait_tree s"
  "suspended (put_tcb t th s) = suspended s" "now_ticks (put_tcb t th s) = now_ticks s"
  "CFS_KTIMER (put_tcb t th s) = CFS_KTIMER s" "WAIT_KTIMER (put_tcb t th s) = WAIT_KTIMER s"
  "priority_sum (put_tcb t th s) = priority_sum s" "threads (put_tcb t th s) u = (if u = t then th else threads s u)"
  "NEXT_THREAD_ID (put_tcb t th s) = NEXT_THREAD_ID s" "NEXT_KTIMER (put_tcb t th s) = NEXT_KTIMER s"
  by (simp_all add: put_tcb_def queued_def waiting_def)

lemma kinv_linked:
  assumes "kinv s" "k \<in> queued s" "k \<noteq> CFS_KTIMER s" "k \<noteq> WAIT_KTIMER s"
  shows "rt_linked s k" "thread_ctx (ktimers s k) \<notin> waiting s"
  using kinvD(5) [OF assms(1)] assms(2-4) by (auto simp: links_def timer_ok_def)

lemma put_tcb_kinv:
  assumes k: "kinv s" and f: "fresh s t"
  shows "kinv (put_tcb t th s)" "no_overdue s \<Longrightarrow> no_overdue (put_tcb t th s)"
proof -
  let ?s = "put_tcb t th s"
  note ff = f [unfolded fresh_def]
  have "wq_ok ?s" by (rule wq_ok_frame [OF kinvD(2) [OF k]]) (use ff in auto)
  moreover have "rq_ok ?s" by (rule rq_ok_frame [OF kinvD(3) [OF k]]) (use ff in auto)
  moreover have "ktq_ok ?s" by (rule ktq_ok_frame [OF kinvD(4) [OF k]]) simp_all
  moreover have "links ?s"
    unfolding links_def
  proof (intro conjI ballI)
    note l = kinvD(5) [OF k, unfolded links_def]
    show "CFS_KTIMER ?s \<noteq> 0" "WAIT_KTIMER ?s \<noteq> 0" "CFS_KTIMER ?s \<noteq> WAIT_KTIMER ?s" "WAIT_KTIMER ?s \<notin> set (active_tree ?s)"
      using l by auto
    show "timer_ok ?s x" if "x \<in> queued ?s" for x
      using kinv_linked [OF k, of x] that ff by (auto simp: timer_ok_def rt_linked_def)
    show "waiter_ok ?s u" if u: "u \<in> waiting ?s" for u
    proof -
      have ut: "u \<noteq> t" "waiter_ok s u" using u ff l by auto
      then show ?thesis by (auto simp: waiter_ok_def rt_linked_def)
    qed
  qed
  ultimately show "kinv ?s" using kinvD(6) [OF k] by (simp add: kinv_def kinv0_def)
  have "thread_ctx (ktimers s x) \<noteq> t" if "x \<in> set (active_tree s)" "x \<noteq> CFS_KTIMER s" for x
    using ff that kinvD(9) [OF k] by (auto simp: queued_def)
  then show "no_overdue s \<Longrightarrow> no_overdue ?s" by (auto simp: no_overdue_def missed_def)
qed

section \<open>Spawning\<close>

lemma kinv_next_id:
  "kinv (s\<lparr>NEXT_THREAD_ID := i\<rparr>) = kinv s" "no_overdue (s\<lparr>NEXT_THREAD_ID := i\<rparr>) = no_overdue s"
  "fresh (s\<lparr>NEXT_THREAD_ID := i\<rparr>) t = fresh s t" "waiting (s\<lparr>NEXT_THREAD_ID := i\<rparr>) = waiting s"
  "queued (s\<lparr>NEXT_THREAD_ID := i\<rparr>) = queued s"
proof -
  have c: "same_core s (s\<lparr>NEXT_THREAD_ID := i\<rparr>)" by (simp add: same_core_def)
  note r = same_core_inv [OF c]
  show "kinv (s\<lparr>NEXT_THREAD_ID := i\<rparr>) = kinv s" "no_overdue (s\<lparr>NEXT_THREAD_ID := i\<rparr>) = no_overdue s"
    "waiting (s\<lparr>NEXT_THREAD_ID := i\<rparr>) = waiting s" "queued (s\<lparr>NEXT_THREAD_ID := i\<rparr>) = queued s" using r by auto
  then show "fresh (s\<lparr>NEXT_THREAD_ID := i\<rparr>) t = fresh s t" by (simp add: fresh_def)
qed

text \<open>What the creation of a thread \<open>t\<close> with timer \<open>k\<close> (or none) leaves alone.\<close>

definition spawn_frame_ok :: "addr \<Rightarrow> addr \<Rightarrow> kstate \<Rightarrow> kstate \<Rightarrow> bool" where
  "spawn_frame_ok t k s s' \<longleftrightarrow>
     CFS_KTIMER s' = CFS_KTIMER s \<and> WAIT_KTIMER s' = WAIT_KTIMER s
     \<and> (\<forall>x. x \<noteq> k \<longrightarrow> thread_ctx (ktimers s' x) = thread_ctx (ktimers s x))
     \<and> (\<forall>u. u \<noteq> t \<longrightarrow> vruntime (sched_entity (threads s' u)) = vruntime (sched_entity (threads s u)))"

definition cfs_room :: "u32 \<Rightarrow> kstate \<Rightarrow> bool" where
  "cfs_room p s \<longleftrightarrow>
     unat (priority_sum s) + unat p < 2 ^ 32
     \<and> (run_tree s \<noteq> [] \<longrightarrow> ticks_fit (vruntime (sched_entity (threads s (hd (run_tree s))))) (priority_sum s))"

lemma cfs_init_ok:
  assumes k: "kinv s" and n: "no_overdue s" and f: "fresh s t" and p: "p \<noteq> 0" and r: "cfs_room p s"
  shows "wpo (thread_init (CfsArgs p) t i c nm s) (\<lambda>s'. kinv s' \<and> no_overdue s'
    \<and> set (run_tree s') = insert t (set (run_tree s)) \<and> waiting s' = waiting s \<and> queued s' = queued s
    \<and> state (threads s' t) = Ready \<and> kind (threads s' t) = Cfs \<and> thread_id (threads s' t) = i
    \<and> vruntime (sched_entity (threads s' t)) =
        (if run_tree s = [] then 0 else vruntime (sched_entity (threads s (hd (run_tree s)))))
    \<and> unat (priority_sum s') = unat (priority_sum s) + unat p
    \<and> (\<forall>u. u \<noteq> t \<longrightarrow> state (threads s' u) = state (threads s u)) \<and> NEXT_THREAD_ID s' = NEXT_THREAD_ID s
    \<and> NEXT_KTIMER s' = NEXT_KTIMER s \<and> WAIT_KTIMER s' = WAIT_KTIMER s
    \<and> wait_tree s' = wait_tree s \<and> suspended s' = suspended s \<and> spawn_frame_ok t 0 s s')"
proof -
  let ?th = "new_tcb i c nm Cfs p"
  let ?s1 = "put_tcb t ?th s"
  note ff = f [unfolded fresh_def] and k1 = put_tcb_kinv [OF k f, of ?th]
  have th: "kind ?th = Cfs" "sched_entity ?th = \<lparr>sched_tick_cnt = 0, vruntime = 0, priority = p\<rparr>" "thread_id ?th = i" "state ?th = Ready"
    by (simp_all add: new_tcb_def SchedEntity_new_def)
  have hd: "run_tree s \<noteq> [] \<Longrightarrow> hd (run_tree s) \<noteq> t" using ff by (cases "run_tree s") auto
  have z: "run_tree s \<noteq> [] \<Longrightarrow> hd (run_tree s) \<noteq> 0"
    using kinvD(3) [OF k] by (cases "run_tree s") (auto simp: rq_ok_def)
  have jv: "joined_vruntime t ?s1 = (if run_tree s = [] then 0 else vruntime (sched_entity (threads s (hd (run_tree s)))))"
    using hd z th by (cases "run_tree s") (auto simp: joined_vruntime_def)
  have cj: "can_join t ?s1 (priority_sum ?s1)"
    using ff th p r jv by (auto simp: can_join_def cfs_room_def ticks_fit_def)
  have sum: "unat (priority_sum ?s1) + unat (priority (sched_entity (threads ?s1 t))) < 2 ^ 32"
    using r th by (simp add: cfs_room_def)
  from enqueue_thread_joined [OF kinvD(3) [OF k1(1)] cj sum] obtain s' where
    s': "enqueue_thread t ?s1 = Some s'" "joined t ?s1 s'" "unat (priority_sum s') = unat (priority_sum s) + unat p"
    using th by (auto simp: wpo_def)
  note jj = s'(2) [unfolded joined_def]
  have st: "rq_step ?s1 s'" using jj by simp
  have id: "thread_id (threads s' t) = i"
  proof -
    have "threads s' t = (threads ?s1 t)\<lparr>sched_entity := sched_entity (threads s' t), state := state (threads s' t)\<rparr>"
      using st unfolding rq_step_def by blast
    then have "thread_id (threads s' t) = thread_id (threads ?s1 t)" by (metis ThreadCtx.select_convs(3) TCB.update_convs(3) ThreadCtx.update_convs(5) TCB.surjective)
    then show ?thesis using th by simp
  qed
  have nid: "NEXT_THREAD_ID s' = NEXT_THREAD_ID s" using st by (cases s; cases s') (simp add: rq_step_def put_tcb_def)
  have k': "kinv s'"
    using joined_kinv0 [OF kinvD(1) [OF k1(1)] s'(2)] ff kinvD(6) [OF k] by (simp add: kinv_def rq_step_queues [OF st])
  have n': "no_overdue s'"
    by (rule no_overdue_cong [OF k1(2) [OF n]]) (simp_all add: rq_step_queues [OF st] rq_step_thread [OF st])
  have q: "queued s' = queued s" "waiting s' = waiting s" by (simp_all add: queued_def waiting_def rq_step_queues [OF st])
  have "thread_init (CfsArgs p) t i c nm s = Some s'"
    using s'(1) p ff by (simp add: CfsThread_init_def upd_thread_def put_tcb_def [symmetric] require_def)
  moreover have "spawn_frame_ok t 0 s s'" using jj by (simp add: spawn_frame_ok_def rq_step_queues [OF st])
  ultimately show ?thesis
    using k' n' jj jv id nid q s'(3) th by (simp add: rq_step_thread [OF st] rq_step_queues [OF st])
qed

definition rt_fresh :: "addr \<Rightarrow> kstate \<Rightarrow> bool" where
  "rt_fresh k s \<longleftrightarrow>
     k \<noteq> 0 \<and> k \<notin> queued s \<and> k \<noteq> CFS_KTIMER s \<and> k \<noteq> WAIT_KTIMER s
     \<and> (\<forall>u \<in> waiting s. kind (threads s u) = Rt \<longrightarrow> ktimer_entity (threads s u) \<noteq> k)"

lemma set_thread_ctx_kinv:
  assumes k: "kinv s" and r: "rt_fresh x s"
  shows "kinv (kt_set x (thread_ctx_update (\<lambda>_. t)) s)" "no_overdue s \<Longrightarrow> no_overdue (kt_set x (thread_ctx_update (\<lambda>_. t)) s)"
proof -
  let ?s = "kt_set x (thread_ctx_update (\<lambda>_. t)) s"
  note rr = r [unfolded rt_fresh_def]
  have kt: "ktimers ?s y = (if y = x then thread_ctx_update (\<lambda>_. t) (ktimers s x) else ktimers s y)" for y
    by (simp add: kt_set_def)
  have "wq_ok ?s" by (rule wq_ok_frame [OF kinvD(2) [OF k]]) (simp_all add: kt_set_def)
  moreover have "rq_ok ?s" by (rule rq_ok_frame [OF kinvD(3) [OF k]]) (simp_all add: kt_set_def)
  moreover have "ktq_ok ?s" using kinvD(4) [OF k] rr by (simp add: kt_set_ktq_ok)
  moreover have "links ?s"
  proof -
    note l = kinvD(5) [OF k, unfolded links_def]
    have "rt_linked ?s y = rt_linked s y" if "y \<noteq> x" for y using that by (simp add: rt_linked_def kt)
    then have "timer_ok ?s y = timer_ok s y" if "y \<in> queued s" for y using that rr by (auto simp: timer_ok_def kt)
    moreover have "waiter_ok ?s u = waiter_ok s u" if "u \<in> waiting s" for u
      using that rr by (auto simp: waiter_ok_def rt_linked_def kt)
    ultimately show ?thesis using l by (simp add: links_def)
  qed
  ultimately show "kinv ?s" using kinvD(6) [OF k] by (simp add: kinv_def kinv0_def)
  have "y \<noteq> x" if "y \<in> set (active_tree s)" for y using that rr by (auto simp: queued_def)
  then show "no_overdue s \<Longrightarrow> no_overdue ?s" by (auto simp: no_overdue_def missed_def kt)
qed

lemma rt_init_ok:
  assumes k: "kinv s" and n: "no_overdue s" and f: "fresh s t" and r: "rt_fresh x s"
  shows "wpo (thread_init (RtArgs x) t i c nm s) (\<lambda>s'. kinv s' \<and> no_overdue s'
    \<and> set (active_tree s') = insert x (set (active_tree s)) \<and> queued s' = insert x (queued s) \<and> waiting s' = waiting s
    \<and> run_tree s' = run_tree s \<and> thread_ctx (ktimers s' x) = t \<and> ktimer_entity (threads s' t) = x
    \<and> state (threads s' t) = Ready \<and> kind (threads s' t) = Rt \<and> thread_id (threads s' t) = i
    \<and> NEXT_KTIMER s' = ktq_first_active s'
    \<and> (\<forall>u. u \<noteq> t \<longrightarrow> state (threads s' u) = state (threads s u))
    \<and> wait_tree s' = wait_tree s \<and> suspended s' = suspended s \<and> spawn_frame_ok t x s s' \<and> priority_sum s' = priority_sum s)"
proof -
  note ff = f [unfolded fresh_def] and rr = r [unfolded rt_fresh_def]
  let ?th = "(new_tcb i c nm Rt 0)\<lparr>ktimer_entity := x\<rparr>"
  let ?s1 = "kt_set x (thread_ctx_update (\<lambda>_. t)) s"
  let ?s2 = "put_tcb t ?th ?s1"
  note k1 = set_thread_ctx_kinv [OF k r, of t]
  have f1: "fresh ?s1 t"
    using ff rr unfolding fresh_def by (auto simp: kt_set_def queued_def waiting_def)
  note k2 = put_tcb_kinv [OF k1(1) f1, of ?th]
  have th: "kind ?th = Rt" "state ?th = Ready" "runtime ?th = 0" by (simp_all add: new_tcb_def)
  have run2: "run_tree ?s2 = run_tree s" "wait_tree ?s2 = wait_tree s" "suspended ?s2 = suspended s" by (simp_all add: kt_set_def)
  have lk: "rt_linked ?s2 x" using ff rr th by (simp add: rt_linked_def)
  then have tm: "timer_ok ?s2 x" using ff by (simp add: timer_ok_def)
  have nm: "\<not> missed ?s2 x" using th by (simp add: missed_def)
  have "wpo (enqueue_ktimer x ?s2) (entered x ?s2)"
    by (rule enqueue_ktimer_ok(1) [OF kinvD(1) [OF k2(1)] tm _ _ _ k2(2) [OF k1(2) [OF n]]]) (use rr nm in auto)
  then obtain s' where s': "enqueue_ktimer x ?s2 = Some s'" "entered x ?s2 s'" by (auto simp: wpo_def)
  note e = s'(2) [unfolded entered_def]
  have st: "kt_step ?s2 s'" using e by simp
  have k': "kinv s'" using e kinvD(6) [OF k] by (simp add: kinv_def kt_step_simps [OF st])
  have "s\<lparr>threads := (threads s)(t := new_tcb i c nm Rt 0)\<rparr>\<lparr>ktimers := (ktimers s)(x := thread_ctx_update (\<lambda>_. t) (ktimers s x)),
      threads := (threads s)(t := ?th)\<rparr> = ?s2"
    by (simp add: put_tcb_def kt_set_def)
  then have "thread_init (RtArgs x) t i c nm s = Some s'"
    using s'(1) rr ff by (simp add: RtThread_init_def init_rt_ktimer_def upd_thread_def upd_ktimer_def require_def)
  moreover have "thread_id (threads s' t) = i"
  proof -
    have "threads s' t = (threads ?s2 t)\<lparr>runtime := runtime (threads s' t)\<rparr>" using st unfolding kt_step_def by blast
    then have "thread_id (threads s' t) = thread_id ?th" by (cases "threads s' t") (simp add: new_tcb_def)
    then show ?thesis by (simp add: new_tcb_def)
  qed
  moreover have "spawn_frame_ok t x s s' \<and> priority_sum s' = priority_sum s"
    by (simp add: spawn_frame_ok_def kt_step_simps [OF st] kt_step_queues [OF st] kt_set_def)
  ultimately show ?thesis
    using k' e th run2 by (simp add: kt_step_simps [OF st] kt_step_waiting [OF st])
qed

end
