(* ===== verification/Boot.thy ===== *)
theory Boot
  imports ThreadLaws
begin

text \<open>
  Start-up: initialising the queues establishes an invariant, creating threads keeps it, and starting
  the idle thread gives the invariant of the running scheduler.
\<close>

section \<open>The invariant of start-up\<close>

text \<open>The selected timer, if any, is in the queue and is not the wait timer.\<close>

definition next_ok :: "kstate \<Rightarrow> bool" where
  "next_ok s \<longleftrightarrow> (NEXT_KTIMER s \<noteq> 0 \<longrightarrow> NEXT_KTIMER s \<in> queued s \<and> NEXT_KTIMER s \<noteq> WAIT_KTIMER s)"

lemma first_active_next:
  assumes "kinv s" "NEXT_KTIMER s = ktq_first_active s"
  shows "next_ok s"
  unfolding next_ok_def
proof
  assume "NEXT_KTIMER s \<noteq> 0"
  then have "NEXT_KTIMER s \<in> set (active_tree s)" using ktq_first_active_in [OF kinvD(4) [OF assms(1)]] assms(2) by simp
  then show "NEXT_KTIMER s \<in> queued s \<and> NEXT_KTIMER s \<noteq> WAIT_KTIMER s"
    using kinvD(5) [OF assms(1)] by (auto simp: queued_def links_def)
qed

text \<open>Before the scheduler starts every thread is ready and none waits.\<close>

definition boot_inv :: "kstate \<Rightarrow> bool" where
  "boot_inv s \<longleftrightarrow> kinv s \<and> no_overdue s \<and> waiting s = {} \<and> (\<forall>u. state (threads s u) = Ready) \<and> next_ok s"

text \<open>The statics as the program is loaded; storage that holds no thread yet counts as ready.\<close>

definition loaded :: "kstate \<Rightarrow> bool" where
  "loaded s \<longleftrightarrow>
     CFS_KTIMER s \<noteq> 0 \<and> WAIT_KTIMER s \<noteq> 0 \<and> CFS_KTIMER s \<noteq> WAIT_KTIMER s
     \<and> wait_tree s = [] \<and> suspended s = [] \<and> run_tree s = [] \<and> (\<forall>u. state (threads s u) = Ready)"

definition queue_reset :: "kstate \<Rightarrow> kstate" where
  "queue_reset s =
     s\<lparr>active_tree := [], inactive_tree := [], first_active_node := 0, first_inactive_node := 0,
       now_ticks := 0, NEXT_KTIMER := 0, ktimers := (ktimers s)(WAIT_KTIMER s := WaitKTimer_new)\<rparr>"

lemma init_ktimer_queue_eq:
  assumes "WAIT_KTIMER s \<noteq> 0"
  shows "init_ktimer_queue s = Some (ktq_put (WAIT_KTIMER s) False (queue_reset s))"
    "ktq_ok (ktq_put (WAIT_KTIMER s) False (queue_reset s))"
proof -
  have q: "ktq_ok (queue_reset s)" "WAIT_KTIMER s \<notin> queued (queue_reset s)"
    by (simp_all add: ktq_ok_def queue_reset_def queued_def ordered_def head_or_null_def)
  show "ktq_ok (ktq_put (WAIT_KTIMER s) False (queue_reset s))" by (rule ktq_put_ok [OF q(1) assms q(2)])
  show "init_ktimer_queue s = Some (ktq_put (WAIT_KTIMER s) False (queue_reset s))"
    using ktq_insert_eq [OF q(1) assms q(2), of False]
    by (simp add: init_ktimer_queue_def queue_reset_def [symmetric] ktq_enqueue_inactive_def)
qed

lemma init_ktimer_queue_ok:
  assumes l: "loaded s"
  shows "wpo (init_ktimer_queue s) (\<lambda>s'. loaded s' \<and> kinv s' \<and> queued s' = {WAIT_KTIMER s} \<and> active_tree s' = []
    \<and> now_ticks s' = 0 \<and> CFS_KTIMER s' = CFS_KTIMER s \<and> WAIT_KTIMER s' = WAIT_KTIMER s)"
proof -
  note ll = l [unfolded loaded_def]
  let ?s = "ktq_put (WAIT_KTIMER s) False (queue_reset s)"
  note i = init_ktimer_queue_eq [of s]
  have a: "active_tree ?s = []" "inactive_tree ?s = [WAIT_KTIMER s]"
    by (simp_all add: ktq_put_def queue_reset_def)
  have f: "wait_tree ?s = []" "suspended ?s = []" "run_tree ?s = []" "threads ?s = threads s" "now_ticks ?s = 0"
    "CFS_KTIMER ?s = CFS_KTIMER s" "WAIT_KTIMER ?s = WAIT_KTIMER s"
    using ll by (simp_all add: ktq_put_def queue_reset_def)
  have q: "queued ?s = {WAIT_KTIMER s}" "waiting ?s = {}" using a f by (simp_all add: queued_def waiting_def)
  have q0: "queued (queue_reset s) = {}" by (simp add: queued_def queue_reset_def)
  have "kinv ?s"
    using i(2) ll a f q q0
    by (simp add: kinv_def kinv0_def links_def timer_ok_def wq_ok_def rq_ok_def ordered_def)
  then show ?thesis using i(1) ll a f q by (simp add: loaded_def)
qed

lemma singleton_list:
  assumes "distinct xs" "set xs = {x}"
  shows "xs = [x]"
proof -
  have "length xs = 1" using distinct_card [OF assms(1)] assms(2) by simp
  then show ?thesis using assms(2) by (cases xs) auto
qed

lemma init_cfs_ok:
  assumes l: "loaded s" and k: "kinv s" and q: "queued s = {WAIT_KTIMER s}"
  shows "wpo (init_cfs p e s) (\<lambda>s'. boot_inv s' \<and> queued s' = {CFS_KTIMER s, WAIT_KTIMER s}
    \<and> active_tree s' = [CFS_KTIMER s] \<and> run_tree s' = [] \<and> priority_sum s' = 0 \<and> NEXT_KTIMER s' = CFS_KTIMER s
    \<and> IDLE_THREAD_CTX s' = 0 \<and> CFS_KTIMER s' = CFS_KTIMER s \<and> WAIT_KTIMER s' = WAIT_KTIMER s)"
proof -
  note ll = l [unfolded loaded_def]
  let ?c = "CFS_KTIMER s"
  let ?k = "(CfsKTimer_new p e ''cfs'')\<lparr>expire_at := u64_of e\<rparr>"
  let ?s1 = "s\<lparr>run_tree := [], priority_sum := 0, IDLE_THREAD_CTX := 0, ktimers := (ktimers s)(?c := ?k)\<rparr>"
  have e1: "init_cfs p e s = enqueue_ktimer ?c ?s1"
    using ll by (simp add: init_cfs_def init_cfs_rq_def upd_ktimer_def)
  have c: "?c \<notin> queued s" using q ll by simp
  have "x \<notin> set (active_tree s)" for x
  proof -
    have "set (active_tree s) \<subseteq> {WAIT_KTIMER s}" unfolding q [symmetric] by (simp add: queued_def)
    then show ?thesis using kinvD(5) [OF k] by (auto simp: links_def)
  qed
  then have a: "active_tree s = []" by (cases "active_tree s") auto
  have q1: "queued ?s1 = queued s" "waiting ?s1 = {}" using ll by (simp_all add: queued_def waiting_def)
  have ok: "ktq_ok ?s1" by (rule ktq_ok_frame [OF kinvD(4) [OF k]]) (use c in \<open>auto simp: queued_def\<close>)
  have k1: "kinv0 ?s1" "WAIT_KTIMER s \<in> set (inactive_tree ?s1)"
    using ok ll q1 q kinvD(6) [OF k] a
    by (simp_all add: kinv0_def links_def timer_ok_def wq_ok_def rq_ok_def ordered_def)
  have "wpo (enqueue_ktimer ?c ?s1) (entered ?c ?s1)"
    by (rule enqueue_ktimer_ok(1) [OF k1(1)]) (use ll c q1 a in \<open>simp_all add: timer_ok_def no_overdue_def\<close>)
  then show ?thesis
    unfolding e1
  proof (rule wpo_mono)
    fix s' assume en: "entered ?c ?s1 s'"
    note ee = en [unfolded entered_def]
    have st: "kt_step ?s1 s'" using ee by simp
    note S = kt_step_simps [OF st] kt_step_waiting [OF st]
    have act: "active_tree s' = [?c]"
    proof -
      have "set (active_tree s') = {?c}" using ee a by simp
      moreover have "distinct (active_tree s')" using ee ktq_ok_distinct [of s'] by (simp add: kinv0_def)
      ultimately show ?thesis by (rule singleton_list [rotated])
    qed
    have "NEXT_KTIMER s' = ?c"
      using ee act ll by (simp add: ktq_first_active_def kinv0_def ktq_ok_def head_or_null_def)
    moreover have "kinv s'" using ee k1(2) by (simp add: kinv_def S)
    ultimately show "boot_inv s' \<and> queued s' = {?c, WAIT_KTIMER s} \<and> active_tree s' = [?c] \<and> run_tree s' = []
        \<and> priority_sum s' = 0 \<and> NEXT_KTIMER s' = ?c \<and> IDLE_THREAD_CTX s' = 0
        \<and> CFS_KTIMER s' = ?c \<and> WAIT_KTIMER s' = WAIT_KTIMER s"
      using ee q q1 ll act by (simp add: boot_inv_def S next_ok_def)
  qed
qed

section \<open>Creating threads\<close>

text \<open>A spawn may proceed: the storage, the stack and the arguments are valid and unused.\<close>

definition spawnable :: "addr \<Rightarrow> addr \<Rightarrow> nat \<Rightarrow> InitArgs \<Rightarrow> kstate \<Rightarrow> bool" where
  "spawnable t stack n args s \<longleftrightarrow>
     spawn_error t stack n args = None \<and> fresh s t
     \<and> (case args of CfsArgs p \<Rightarrow> cfs_room p s | RtArgs k \<Rightarrow> rt_fresh k s)"

definition spawned :: "addr \<Rightarrow> InitArgs \<Rightarrow> kstate \<Rightarrow> kstate \<Rightarrow> bool" where
  "spawned t args s s' \<longleftrightarrow>
     boot_inv s' \<and> thread_id (threads s' t) = NEXT_THREAD_ID s \<and> kind (threads s' t) = args_kind args
     \<and> (case args of
          CfsArgs p \<Rightarrow> set (run_tree s') = insert t (set (run_tree s)) \<and> queued s' = queued s
            \<and> unat (priority_sum s') = unat (priority_sum s) + unat p \<and> spawn_frame_ok t 0 s s'
            \<and> vruntime (sched_entity (threads s' t)) = (if run_tree s = [] then 0 else vruntime (sched_entity (threads s (hd (run_tree s)))))
        | RtArgs k \<Rightarrow> queued s' = insert k (queued s) \<and> k \<in> set (active_tree s') \<and> run_tree s' = run_tree s
            \<and> thread_ctx (ktimers s' k) = t \<and> ktimer_entity (threads s' t) = k
            \<and> priority_sum s' = priority_sum s \<and> spawn_frame_ok t k s s')"

lemma spawn_thread_ok:
  assumes b: "boot_inv s" and v: "spawnable t stack n args s"
  shows "wpo (spawn_thread t stack n st args (s, m)) (\<lambda>(t', s', m'). t' = t \<and> spawned t args s s'
    \<and> m' = write_words (stack_frame stack n) (initial_frame (start_entry st) (start_arg st)) m)"
proof -
  let ?s = "s\<lparr>NEXT_THREAD_ID := NEXT_THREAD_ID s + 1\<rparr>"
  note bb = b [unfolded boot_inv_def] and vv = v [unfolded spawnable_def]
  have e: "spawn_error t stack n args = None" "fresh ?s t" "kinv ?s" "no_overdue ?s" "waiting ?s = {}"
    using bb vv by (simp_all add: kinv_next_id)
  have "wpo (thread_init args t (NEXT_THREAD_ID s) (spawn_context stack n) (start_name st) ?s) (spawned t args s)"
  proof (cases args)
    case (CfsArgs p)
    then have p: "p \<noteq> 0" "cfs_room p ?s"
      using vv e(1) by (simp_all add: spawn_error_None cfs_room_def)
    show ?thesis
      unfolding CfsArgs
      by (rule wpo_mono [OF cfs_init_ok [OF e(3,4,2) p]])
        (use bb in \<open>simp add: spawned_def boot_inv_def kinv_next_id next_ok_def spawn_frame_ok_def, metis\<close>)
  next
    case (RtArgs k)
    then have p: "rt_fresh k ?s" using vv by (simp add: rt_fresh_def kinv_next_id)
    show ?thesis
      unfolding RtArgs
      by (rule wpo_mono [OF rt_init_ok [OF e(3,4,2) p]])
        (use bb in \<open>simp add: spawned_def boot_inv_def kinv_next_id first_active_next spawn_frame_ok_def, metis\<close>)
  qed
  then show ?thesis using e(1) by (auto simp: spawn_thread_eq wpo_def)
qed

section \<open>Starting\<close>

lemma spawn_idle_thread_eq:
  assumes "t \<noteq> 0" "stack \<noteq> 0" "16 \<le> n" "(stack + 4 * n) mod 8 = 0"
  shows "spawn_idle_thread st t stack n (s, m) =
    Some (t, put_tcb t (new_tcb (NEXT_THREAD_ID s) (spawn_context stack n) (start_name st) Idle 0)
               (s\<lparr>NEXT_THREAD_ID := NEXT_THREAD_ID s + 1\<rparr>),
          write_words (stack_frame stack n) (initial_frame (start_entry st) (start_arg st)) m)"
  using assms spawn_frame [OF assms(3,4), of "start_entry st" "start_arg st" m]
  by (simp add: spawn_idle_thread_def validate_thread_storage_def validate_stack_def unwrap_or_panic_def stack_top_def
      THREAD_INITIAL_FRAME_WORDS_def THREAD_STACK_ALIGNMENT_def Let_def require_def upd_thread_def put_tcb_def
      take_bit_eq_mod)

lemma spawn_main_thread_ok:
  assumes b: "boot_inv s" and f: "fresh s t" and v: "stack \<noteq> 0" "16 \<le> n" "(stack + 4 * n) mod 8 = 0"
  shows "wpo (spawn_main_thread nm entry t stack n (s, m)) (\<lambda>(s', m'). sched_inv s' \<and> SCHEDULER_STARTED s'
    \<and> CURRENT_THREAD_CTX s' = t \<and> IDLE_THREAD_CTX s' = t \<and> state (threads s' t) = Running \<and> kind (threads s' t) = Idle
    \<and> runnable_set s' = set (run_tree s) \<and> queued s' = queued s \<and> next_ok s'
    \<and> sp (threads s' t) = of_nat (stack_frame stack n) \<and> exc_return (threads s' t) = EXC_RETURN_THREAD_MODE_PSP
    \<and> m' = write_words (stack_frame stack n) (initial_frame entry 0) m)"
proof -
  note bb = b [unfolded boot_inv_def]
  have t0: "t \<noteq> 0" using f by (simp add: fresh_def)
  let ?s0 = "s\<lparr>NEXT_THREAD_ID := NEXT_THREAD_ID s + 1\<rparr>"
  let ?i = "(new_tcb (NEXT_THREAD_ID s) (spawn_context stack n) nm Idle 0)\<lparr>state := Running\<rparr>"
  let ?s1 = "put_tcb t ?i ?s0"
  have k1: "kinv ?s1" by (rule put_tcb_kinv(1)) (use bb f in \<open>simp_all add: kinv_next_id\<close>)
  let ?s' = "?s1\<lparr>IDLE_THREAD_CTX := t, SCHEDULER_STARTED := True, CURRENT_THREAD_IS_CFS := False, CURRENT_THREAD_CTX := t\<rparr>"
  have core: "same_core ?s1 ?s'" by (simp add: same_core_def)
  note c = same_core_inv [OF core]
  have "sched_inv ?s'"
    unfolding sched_inv_def using k1 t0 bb c by (auto simp: new_tcb_def is_blocked_def split: if_splits)
  moreover have "spawn_main_thread nm entry t stack n (s, m) =
      Some (?s', write_words (stack_frame stack n) (initial_frame entry 0) m)"
    using t0 spawn_idle_thread_eq [OF t0 v, of "ThreadStart_new nm entry" s m]
    by (simp add: spawn_main_thread_def register_idle_thread_def cm_spawn_main_thread_def is_idle_thread_def set_state_def
        can_transition_to_def reset_scheduler_started_def SVCall_def store_defs require_def put_tcb_def new_tcb_def
        ThreadStart_new_def)
  ultimately show ?thesis
    using t0 c bb by (simp add: runnable_set_def new_tcb_def spawn_context_def kinv_next_id next_ok_def)
qed

section \<open>A whole start-up\<close>

text \<open>What a program asks for: storage, stack, stack size, start description and class arguments.\<close>

record spawn_request =
  req_thread :: addr
  req_stack :: addr
  req_words :: nat
  req_start :: ThreadStart
  req_args :: InitArgs

fun spawn_all :: "spawn_request list \<Rightarrow> kstate \<times> mem \<Rightarrow> (kstate \<times> mem) option" where
  "spawn_all [] sm = Some sm"
| "spawn_all (r # rs) sm = do {
     (_, s, m) \<leftarrow> spawn_thread (req_thread r) (req_stack r) (req_words r) (req_start r) (req_args r) sm;
     spawn_all rs (s, m)
   }"

text \<open>
  The state after some threads were created: \<open>T\<close> contains the addresses of the threads, \<open>K\<close> those of their
  timers, and \<open>n\<close> is the sum of the priorities.
\<close>

definition built :: "addr set \<Rightarrow> addr set \<Rightarrow> nat \<Rightarrow> kstate \<Rightarrow> bool" where
  "built T K n s \<longleftrightarrow>
     boot_inv s \<and> set (run_tree s) \<subseteq> T \<and> unat (priority_sum s) = n
     \<and> (\<forall>k \<in> queued s - {CFS_KTIMER s, WAIT_KTIMER s}. k \<in> K \<and> thread_ctx (ktimers s k) \<in> T)
     \<and> (\<forall>u \<in> set (run_tree s). vruntime (sched_entity (threads s u)) = 0)"

primrec args_timers :: "InitArgs \<Rightarrow> addr list" where
  "args_timers (CfsArgs p) = []"
| "args_timers (RtArgs k) = [k]"

primrec args_priority :: "InitArgs \<Rightarrow> nat" where
  "args_priority (CfsArgs p) = unat p"
| "args_priority (RtArgs k) = 0"

lemma built_spawnable:
  assumes b: "built T K n s" and e: "spawn_error t stack w args = None" and t: "t \<notin> T"
    and k: "set (args_timers args) \<inter> (K \<union> {CFS_KTIMER s, WAIT_KTIMER s}) = {}" and p: "n + args_priority args < 2 ^ 32"
  shows "spawnable t stack w args s"
proof -
  note bb = b [unfolded built_def boot_inv_def] and v = e [unfolded spawn_error_None]
  have "fresh s t" using bb v t unfolding fresh_def by blast
  moreover have "cfs_room q s" if "args = CfsArgs q" for q
    using bb p that by (cases "run_tree s") (auto simp: cfs_room_def ticks_fit_def)
  moreover have "rt_fresh x s" if "args = RtArgs x" for x
    using bb k v that by (auto simp: rt_fresh_def)
  ultimately show ?thesis using e by (cases args) (simp_all add: spawnable_def)
qed

lemma spawn_built:
  assumes b: "built T K n s" and e: "spawn_error t stack w args = None" and t: "t \<notin> T"
    and k: "set (args_timers args) \<inter> (K \<union> {CFS_KTIMER s, WAIT_KTIMER s}) = {}" and p: "n + args_priority args < 2 ^ 32"
  shows "wpo (spawn_thread t stack w st args (s, m)) (\<lambda>(t', s', m').
    built (insert t T) (set (args_timers args) \<union> K) (n + args_priority args) s'
    \<and> CFS_KTIMER s' = CFS_KTIMER s \<and> WAIT_KTIMER s' = WAIT_KTIMER s
    \<and> set (run_tree s') = (if args_kind args = Cfs then {t} else {}) \<union> set (run_tree s) \<and> queued s' = set (args_timers args) \<union> queued s)"
proof -
  have bi: "boot_inv s" using b by (simp add: built_def)
  have hd: "run_tree s \<noteq> [] \<Longrightarrow> vruntime (sched_entity (threads s (hd (run_tree s)))) = 0"
    using b by (cases "run_tree s") (simp_all add: built_def)
  have tr: "t \<notin> set (run_tree s)" using b t by (auto simp: built_def)
  have v0: "vruntime (sched_entity (threads s' u)) = 0"
    if "spawn_frame_ok t x s s'" "u \<in> set (run_tree s)" for u x s'
    using that b tr unfolding built_def spawn_frame_ok_def by metis
  show ?thesis
  proof (rule wpo_mono [OF spawn_thread_ok [OF bi built_spawnable [OF assms], of st m]], clarify)
    fix s' assume s': "spawned t args s s'"
    show "built (insert t T) (set (args_timers args) \<union> K) (n + args_priority args) s'
      \<and> CFS_KTIMER s' = CFS_KTIMER s \<and> WAIT_KTIMER s' = WAIT_KTIMER s
      \<and> set (run_tree s') = (if args_kind args = Cfs then {t} else {}) \<union> set (run_tree s) \<and> queued s' = set (args_timers args) \<union> queued s"
    proof (cases args)
      case (CfsArgs q)
      have z: "k \<noteq> 0" if "k \<in> queued s" for k using that bi kinvD(4) [of s] by (cases k) (auto simp: boot_inv_def ktq_ok_def queued_def)
      show ?thesis using CfsArgs s' b t hd z v0 [of 0 s'] by (auto simp: spawned_def built_def spawn_frame_ok_def)
    next
      case (RtArgs x)
      then show ?thesis using s' b t k v0 [of x s'] by (auto simp: spawned_def built_def spawn_frame_ok_def) (metis DiffI empty_iff insert_iff)
    qed
  qed
qed

text \<open>
  A list of requests a program may make: every one is valid, and storage, timers and priorities do not clash. This is
  a condition on the program text and the layout of its statics only.
\<close>

definition req_timers :: "spawn_request list \<Rightarrow> addr list" where
  "req_timers rs = concat (map (args_timers \<circ> req_args) rs)"

definition valid_requests :: "spawn_request list \<Rightarrow> kstate \<Rightarrow> bool" where
  "valid_requests rs s \<longleftrightarrow>
     (\<forall>r \<in> set rs. spawn_error (req_thread r) (req_stack r) (req_words r) (req_args r) = None)
     \<and> distinct (map req_thread rs) \<and> distinct (CFS_KTIMER s # WAIT_KTIMER s # req_timers rs)
     \<and> sum_list (map (args_priority \<circ> req_args) rs) < 2 ^ 32"

definition cfs_requests :: "spawn_request list \<Rightarrow> addr set" where
  "cfs_requests rs = set (map req_thread (filter (\<lambda>r. args_kind (req_args r) = Cfs) rs))"

lemma spawn_all_built:
  assumes "built T K n s"
    "\<forall>r \<in> set rs. spawn_error (req_thread r) (req_stack r) (req_words r) (req_args r) = None"
    "distinct (map req_thread rs)" "T \<inter> req_thread ` set rs = {}"
    "distinct (req_timers rs)" "set (req_timers rs) \<inter> (K \<union> {CFS_KTIMER s, WAIT_KTIMER s}) = {}"
    "n + sum_list (map (args_priority \<circ> req_args) rs) < 2 ^ 32"
  shows "wpo (spawn_all rs (s, m)) (\<lambda>(s', m'). boot_inv s' \<and> (\<forall>t. t \<notin> T \<union> req_thread ` set rs \<longrightarrow> t \<noteq> 0 \<longrightarrow> fresh s' t)
    \<and> set (run_tree s') = cfs_requests rs \<union> set (run_tree s) \<and> queued s' = set (req_timers rs) \<union> queued s)"
  using assms
proof (induction rs arbitrary: T K n s m)
  case Nil
  have "fresh s t" if "t \<notin> T" "t \<noteq> 0" for t using Nil.prems(1) that unfolding built_def boot_inv_def fresh_def by blast
  then show ?case using Nil.prems(1) by (simp add: built_def cfs_requests_def req_timers_def)
next
  case (Cons r rs)
  let ?T = "insert (req_thread r) T" and ?K = "set (args_timers (req_args r)) \<union> K"
  have "wpo (spawn_thread (req_thread r) (req_stack r) (req_words r) (req_start r) (req_args r) (s, m)) (\<lambda>(t', s', m').
    built ?T ?K (n + args_priority (req_args r)) s' \<and> CFS_KTIMER s' = CFS_KTIMER s \<and> WAIT_KTIMER s' = WAIT_KTIMER s
    \<and> set (run_tree s') = (if args_kind (req_args r) = Cfs then {req_thread r} else {}) \<union> set (run_tree s)
    \<and> queued s' = set (args_timers (req_args r)) \<union> queued s)"
    by (rule spawn_built [OF Cons.prems(1)]) (use Cons.prems(2-7) in \<open>auto simp: req_timers_def\<close>)
  then obtain t' s' m' where
    s': "spawn_thread (req_thread r) (req_stack r) (req_words r) (req_start r) (req_args r) (s, m) = Some (t', s', m')"
      "built ?T ?K (n + args_priority (req_args r)) s'" "CFS_KTIMER s' = CFS_KTIMER s" "WAIT_KTIMER s' = WAIT_KTIMER s"
      "set (run_tree s') = (if args_kind (req_args r) = Cfs then {req_thread r} else {}) \<union> set (run_tree s)"
      "queued s' = set (args_timers (req_args r)) \<union> queued s" by (auto simp: wpo_def)
  have "wpo (spawn_all rs (s', m')) (\<lambda>(s'', m''). boot_inv s'' \<and> (\<forall>t. t \<notin> ?T \<union> req_thread ` set rs \<longrightarrow> t \<noteq> 0 \<longrightarrow> fresh s'' t)
    \<and> set (run_tree s'') = cfs_requests rs \<union> set (run_tree s') \<and> queued s'' = set (req_timers rs) \<union> queued s')"
    by (rule Cons.IH [OF s'(2)]) (use Cons.prems(2-7) s'(3,4) in \<open>auto simp: req_timers_def\<close>)
  moreover have "cfs_requests (r # rs) = (if args_kind (req_args r) = Cfs then {req_thread r} else {}) \<union> cfs_requests rs"
    by (auto simp: cfs_requests_def)
  moreover have "set (req_timers (r # rs)) = set (args_timers (req_args r)) \<union> set (req_timers rs)" by (simp add: req_timers_def)
  ultimately show ?case using s'(1,5,6) by (auto simp: wpo_def)
qed

end
