(* ===== verification/Machine.thy ===== *)
theory Machine
  imports Boot
begin

text \<open>
  The scheduler as a state machine. An event is the timer interrupt, a yield or a sleep of the running
  thread; the pending context switch is taken after the event, as PendSV is on the processor. From a
  started system every admissible event completes, and every reachable state satisfies the scheduler
  invariant and has exactly one running thread.
\<close>

section \<open>Events\<close>

datatype event = Tick | YieldThread | Sleep u32

primrec deliver :: "event \<Rightarrow> kstate \<Rightarrow> kstate option" where
  "deliver Tick s = handle_sched_tick s"
| "deliver YieldThread s = yieldyi s"
| "deliver (Sleep msec) s = msleepyi msec s"

text \<open>The part of the \<open>PendSV\<close> handler that touches scheduler state; taking the exception clears the request.\<close>

definition PendSV :: "kstate \<Rightarrow> kstate option" where
  "PendSV s = (if pendsv s then schedule (s\<lparr>pendsv := False\<rparr>) else Some s)"

text \<open>
  When an event may occur: the timers of the system are sound (\<open>dispatch_pre\<close>), a thread that yields or
  sleeps has its timer in the queue, and the runtime counters of the running thread do not overflow.
\<close>

definition counters_fit :: "event \<Rightarrow> kstate \<Rightarrow> bool" where
  "counters_fit e s \<longleftrightarrow>
     (case deliver e s of None \<Rightarrow> True | Some s1 \<Rightarrow> charge_fits (elapsed_ticks_since_last_interrupt s1) s1)"

primrec admissible :: "event \<Rightarrow> kstate \<Rightarrow> bool" where
  "admissible Tick s \<longleftrightarrow> SCHEDULER_STARTED s \<and> counters_fit Tick s
     \<and> dispatch_pre (elapsed_ticks_since_last_interrupt s) (advance_ktimers (elapsed_ticks_since_last_interrupt s) s)"
| "admissible YieldThread s \<longleftrightarrow> can_yield s \<and> counters_fit YieldThread s"
| "admissible (Sleep msec) s \<longleftrightarrow> can_block s \<and> no_overdue (ktq_advance_time (elapsed_ticks_since_current_reload s) s)"

definition run_inv :: "kstate \<Rightarrow> bool" where
  "run_inv s \<longleftrightarrow>
     sched_inv s \<and> state (threads s (CURRENT_THREAD_CTX s)) = Running
     \<and> next_ok s"

section \<open>The counter\<close>

text \<open>
  Between two accesses of the program the SysTick counter counts down, from the reload value to zero and again from the reload value:
  it can be found at any value up to the reload value. The host has no counter.
\<close>

definition counter_at :: "u32 \<Rightarrow> kstate \<Rightarrow> kstate" where
  "counter_at c s = s\<lparr>timer_current := Some c\<rparr>"

definition counter_range :: "u32 \<Rightarrow> kstate \<Rightarrow> bool" where
  "counter_range c s \<longleftrightarrow> (case timer_reload s of None \<Rightarrow> False | Some r \<Rightarrow> c \<le> r)"

lemma counter_core: "same_core s (counter_at c s)"
  by (simp add: same_core_def counter_at_def)

lemma counter_run_inv: "run_inv (counter_at c s) = run_inv s"
  using same_core_inv [OF counter_core, of c s]
  by (simp add: run_inv_def sched_inv_def next_ok_def) (simp add: counter_at_def)

text \<open>What has passed of the current interval is what the counter has counted.\<close>

lemma counter_elapsed:
  assumes "timer_reload s = Some r" "c \<le> r"
  shows "elapsed_ticks_since_current_reload (counter_at c s) = r - c"
  using assms by (simp add: elapsed_ticks_since_current_reload_def counter_at_def saturating_sub_def)

section \<open>The state before the context switch\<close>

definition pending :: "kstate \<Rightarrow> bool" where
  "pending s \<longleftrightarrow> sched_inv s \<and> pendsv s \<and> NEXT_KTIMER s = ktq_first_active s"

text \<open>
  Suspended threads outside \<open>X\<close> stay suspended with their place among the waiters of a primitive. Ticks,
  yields, sleeps and context switches keep all of them.
\<close>

definition keeps_suspended :: "addr set \<Rightarrow> kstate \<Rightarrow> kstate \<Rightarrow> bool" where
  "keeps_suspended X s s' \<longleftrightarrow>
     (\<forall>u. u \<notin> X \<longrightarrow> state (threads s u) = Suspended \<longrightarrow>
        state (threads s' u) = Suspended \<and> sync_entity (threads s' u) = sync_entity (threads s u))"

lemma keeps_suspended_trans: "keeps_suspended X s s1 \<Longrightarrow> keeps_suspended {} s1 s2 \<Longrightarrow> keeps_suspended X s s2"
  by (simp add: keeps_suspended_def)

lemma keeps_suspended_refl [simp]: "keeps_suspended X s s"
  by (simp add: keeps_suspended_def)

lemma switched_keeps_suspended:
  assumes "switched n (after_charge e s) x"
  shows "keeps_suspended {} s (programmed x)"
proof -
  have fr: "sched_frame (after_charge e s) x" using assms by (simp add: switched_def)
  have "state (threads x u) = Suspended \<and> sync_entity (threads x u) = sync_entity (threads s u)"
    if "state (threads s u) = Suspended" for u
  proof -
    have a: "state (threads (after_charge e s) u) = Suspended"
      "sync_entity (threads (after_charge e s) u) = sync_entity (threads s u)"
      using that by (auto simp: after_charge_def paid_def)
    have "state (threads x u) = Suspended" using fr a(1) by (simp add: sched_frame_def is_blocked_def)
    then show ?thesis using a(2) by (simp add: sched_frame_simps [OF fr])
  qed
  then show ?thesis using programmed_frame(1) [of x] by (simp add: keeps_suspended_def same_core_def)
qed

lemma PendSV_switch:
  assumes i: "sched_inv s" and n: "next_ok s" and f: "charge_fits (elapsed_ticks_since_last_interrupt s) s"
    and run: "\<not> pendsv s \<Longrightarrow> state (threads s (CURRENT_THREAD_CTX s)) = Running"
  shows "wpo (PendSV s) (\<lambda>s'. run_inv s' \<and> runnable_set s' = runnable_set s \<and> keeps_suspended {} s s')"
proof (cases "pendsv s")
  case False
  then show ?thesis using i n run by (simp add: PendSV_def run_inv_def)
next
  case True
  let ?s = "s\<lparr>pendsv := False\<rparr>"
  have core: "same_core s ?s" by (simp add: same_core_def)
  note c = same_core_inv [OF core]
  have i': "sched_inv ?s" using i c by (simp add: sched_inv_def)
  have nr: "next_ktimer_reload ?s = next_ktimer_reload s"
    by (simp add: next_ktimer_reload_def scheduler_timer_reload_for_entity_def
        ktq_first_def ktq_first_active_def earlier_of_def ktimer_cmp_def is_cfs_ktimer_def Let_def)
  have el: "elapsed_ticks_since_last_interrupt ?s = elapsed_ticks_since_last_interrupt s"
    by (cases "timer_reload s") (simp_all add: elapsed_ticks_since_last_interrupt_def nr)
  have fit: "charge_fits (elapsed_ticks_since_last_interrupt ?s) ?s"
    using f unfolding el by (simp add: charge_fits_def pays_def charge_ticks_def)
  have nx: "NEXT_KTIMER ?s \<noteq> 0 \<Longrightarrow> NEXT_KTIMER ?s \<in> queued ?s \<and> NEXT_KTIMER ?s \<noteq> WAIT_KTIMER ?s"
    using n c by (simp add: next_ok_def)
  have rs: "runnable_set ?s = runnable_set s" by (simp add: runnable_set_def)
  have "wpo (schedule ?s) (\<lambda>s'. run_inv s' \<and> runnable_set s' = runnable_set s \<and> keeps_suspended {} s s')"
  proof (rule wpo_mono [OF schedule_ok [OF i' fit nx]])
    fix s' assume d: "decided ?s s'"
    let ?a = "after_charge (elapsed_ticks_since_last_interrupt ?s) ?s"
    obtain x where x: "switched (CURRENT_THREAD_CTX s') ?a x" "s' = programmed x" using d by (auto simp: decided_def)
    have fr: "sched_frame ?a x" using x(1) by (simp add: switched_def)
    have "NEXT_KTIMER s' = NEXT_KTIMER s" "queued s' = queued s" "WAIT_KTIMER s' = WAIT_KTIMER s"
      using same_core_inv(6) [OF programmed_frame(1), of x] programmed_frame(1) [of x]
      by (simp_all add: x(2) sched_frame_simps [OF fr] after_charge_def same_core_def c queued_def)
    moreover have "keeps_suspended {} s s'"
      using switched_keeps_suspended [OF x(1)] x(2) by (simp add: keeps_suspended_def)
    ultimately show "run_inv s' \<and> runnable_set s' = runnable_set s \<and> keeps_suspended {} s s'"
      using d nx rs c by (auto simp: run_inv_def decided_def next_ok_def)
  qed
  then show ?thesis using True by (simp add: PendSV_def)
qed

lemma PendSV_ok:
  assumes p: "pending s" and f: "charge_fits (elapsed_ticks_since_last_interrupt s) s"
  shows "wpo (PendSV s) (\<lambda>s'. run_inv s' \<and> runnable_set s' = runnable_set s \<and> keeps_suspended {} s s')"
  using PendSV_switch [OF _ first_active_next f] p sched_invD(1) [of s] by (simp add: pending_def)

section \<open>Events lead to a pending switch\<close>

lemma advance_kinv: "kinv s \<Longrightarrow> kinv (ktq_advance_time n s)"
proof -
  assume k: "kinv s"
  let ?s = "ktq_advance_time n s"
  have st: "kt_step s ?s" by (simp add: kt_step_def ktq_advance_time_def)
  have q: "ktq_ok ?s" by (rule ktq_ok_frame [OF kinvD(4) [OF k]]) (simp_all add: ktq_advance_time_def)
  have "kinv0 ?s" by (rule kt_step_kinv0 [OF st kinvD(1) [OF k] q]) (use kinvD(5) [OF k] in \<open>auto simp: links_def\<close>)
  then show ?thesis using kinvD(6) [OF k] by (simp add: kinv_def ktq_advance_time_def)
qed

lemma advance_queues [simp]:
  "waiting (ktq_advance_time n s) = waiting s" "run_tree (ktq_advance_time n s) = run_tree s"
  by (simp_all add: ktq_advance_time_def waiting_def)

lemma sched_invI:
  assumes i: "sched_inv s" and k: "kinv s'" and r: "same_run s s'"
    and run: "\<And>u. state (threads s' u) = Running \<Longrightarrow> state (threads s u) = Running"
    and blk: "\<And>u. is_blocked (state (threads s' u)) \<Longrightarrow> u \<in> waiting s'"
    and cur: "state (threads s' (CURRENT_THREAD_CTX s)) \<noteq> Ready"
  shows "sched_inv s'"
  using sched_invD [OF i] assms(2-) by (auto simp: sched_inv_def same_run_def)

lemma same_run_trans: "same_run s s1 \<Longrightarrow> same_run s1 s2 \<Longrightarrow> same_run s s2"
  by (simp add: same_run_def)

lemma tick_pending:
  assumes i: "run_inv s" and a: "admissible Tick s"
  shows "wpo (handle_sched_tick s) (\<lambda>s'. pending s' \<and> keeps_suspended {} s s')"
proof -
  let ?el = "elapsed_ticks_since_last_interrupt s"
  let ?s0 = "advance_ktimers ?el s"
  have si: "sched_inv s" and run: "state (threads s (CURRENT_THREAD_CTX s)) = Running" using i by (auto simp: run_inv_def)
  note I = sched_invD [OF si]
  have s0: "threads ?s0 = threads s" "waiting ?s0 = waiting s" "same_run s ?s0"
    by (simp_all add: advance_ktimers_def same_run_def) (simp_all add: ktq_advance_time_def)
  have W: "expired_waiters ?s0 \<subseteq> waiting s" using s0(2) by (auto simp: expired_waiters_def waiting_def)
  have cw: "CURRENT_THREAD_CTX s \<notin> waiting s" using wq_ok_blocked [OF I(11), of "CURRENT_THREAD_CTX s"] run by (auto simp: is_blocked_def)
  show ?thesis
  proof (rule wpo_mono [OF handle_sched_tick_ok])
    show "SCHEDULER_STARTED s" "dispatch_pre ?el ?s0" using a by simp_all
    fix s' assume h: "pendsv s' \<and> NEXT_KTIMER s' = ktq_first_active s' \<and> (\<exists>x. dispatched (expired_waiters ?s0) ?s0 x
        \<and> dispatch_pre ?el x \<and> same_core x s' \<and> same_run x s' \<and> (\<forall>k\<in>queued x. \<not> expired_at_now x k))"
    then obtain x where x: "dispatched (expired_waiters ?s0) ?s0 x" "dispatch_pre ?el x" "same_core x s'" "same_run x s'" by blast
    note D = dispatchedD [OF x(1)] and C = same_core_inv [OF x(3)]
    have th: "threads s' = threads x" using x(3) by (simp add: same_core_def)
    have "same_run ?s0 x" by (simp add: same_run_def same_idsD [OF D(1)])
    then have sr: "same_run s s'" using same_run_trans s0(3) x(4) by blast
    have st: "state (threads s' u) = (if u \<in> expired_waiters ?s0 then Ready else state (threads s u))" for u
      using D(6,7) [of u] by (simp add: th s0)
    have "sched_inv s'"
    proof (rule sched_invI [OF si _ sr])
      show "kinv s'" using x(2) C by (simp add: dispatch_pre_def)
      show "state (threads s u) = Running" if "state (threads s' u) = Running" for u using that st [of u] by (auto split: if_splits)
      show "u \<in> waiting s'" if "is_blocked (state (threads s' u))" for u
        using that st [of u] I(8) [of u] C D(3) s0(2) by (auto simp: is_blocked_def split: if_splits)
      show "state (threads s' (CURRENT_THREAD_CTX s)) \<noteq> Ready" using st [of "CURRENT_THREAD_CTX s"] cw W run by auto
    qed
    moreover have "keeps_suspended {} s s'"
    proof -
      have "u \<notin> expired_waiters ?s0" if "state (threads s u) = Suspended" for u
        using that I(11) s0 by (auto simp: expired_waiters_def wq_ok_def advance_ktimers_def ktq_advance_time_def)
      moreover have "sync_entity (threads s' u) = sync_entity (threads s u)" for u
        by (simp add: th same_idsD [OF D(1)] s0)
      ultimately show ?thesis using st by (simp add: keeps_suspended_def)
    qed
    ultimately show "pending s' \<and> keeps_suspended {} s s'" using h by (simp add: pending_def)
  qed
qed

lemma yield_pending:
  assumes i: "run_inv s" and a: "can_yield s"
  shows "wpo (yieldyi s) (\<lambda>s'. pending s' \<and> keeps_suspended {} s s')"
proof -
  have si: "sched_inv s" and run: "state (threads s (CURRENT_THREAD_CTX s)) = Running" using i by (auto simp: run_inv_def)
  note I = sched_invD [OF si]
  show ?thesis
  proof (rule wpo_mono [OF yieldyi_ok [OF I(1) a]])
    fix s' assume h: "kinv s' \<and> pendsv s' \<and> NEXT_KTIMER s' = ktq_first_active s' \<and> same_run s s'
      \<and> (\<exists>s1. yielded (own_timer s) (elapsed_ticks_since_current_reload s) True s s1 \<and> same_core s1 s')"
    then obtain s1 where s1: "kt_step s s1" "same_core s1 s'" by (auto simp: yielded_def)
    have th: "state (threads s' u) = state (threads s u)" for u
      using s1(2) by (simp add: same_core_def kt_step_simps [OF s1(1)])
    have w: "waiting s' = waiting s" using same_core_inv(5) [OF s1(2)] kt_step_waiting [OF s1(1)] by simp
    have "sched_inv s'" by (rule sched_invI [OF si]) (use h th w I(8) run in auto)
    moreover have "sync_entity (threads s' u) = sync_entity (threads s u)" for u
      using s1(2) by (simp add: same_core_def kt_step_simps [OF s1(1)])
    ultimately show "pending s' \<and> keeps_suspended {} s s'" using h th by (simp add: pending_def keeps_suspended_def)
  qed
qed

lemma sleep_pending:
  assumes i: "run_inv s" and a: "can_block s" "no_overdue (ktq_advance_time (elapsed_ticks_since_current_reload s) s)"
  shows "wpo (msleepyi msec s) (\<lambda>s'. pending s' \<and> \<not> pays s' \<and> keeps_suspended {} s s')"
proof -
  have si: "sched_inv s" using i by (simp add: run_inv_def)
  note I = sched_invD [OF si]
  let ?c = "CURRENT_THREAD_CTX s"
  show ?thesis
  proof (rule wpo_mono [OF msleepyi_ok [OF I(1) a]], elim conjE)
    fix s' assume h: "kinv s'" "pendsv s'" "NEXT_KTIMER s' = ktq_first_active s'" "same_run s s'"
      "waiting s' = insert ?c (waiting s)" "is_blocked (state (threads s' ?c))"
      and o: "\<forall>u. u \<noteq> ?c \<longrightarrow> state (threads s' u) = state (threads s u)"
      and sy: "\<forall>u. sync_entity (threads s' u) = sync_entity (threads s u)"
    have "sched_inv s'"
    proof (rule sched_invI [OF si h(1,4)])
      show "state (threads s u) = Running" if "state (threads s' u) = Running" for u
        using that o h(6) by (cases "u = ?c") (auto simp: is_blocked_def)
      show "u \<in> waiting s'" if "is_blocked (state (threads s' u))" for u
        using that o h(5) I(8) [of u] by (cases "u = ?c") auto
      show "state (threads s' ?c) \<noteq> Ready" using h(6) by (auto simp: is_blocked_def)
    qed
    moreover have "\<not> pays s'" using h(4,6) by (auto simp: pays_def same_run_def is_blocked_def)
    moreover have "keeps_suspended {} s s'"
      using i o sy by (auto simp: keeps_suspended_def run_inv_def) (metis ThreadState.distinct(9))
    ultimately show "pending s' \<and> \<not> pays s' \<and> keeps_suspended {} s s'" using h(2,3) by (simp add: pending_def)
  qed
qed

lemma deliver_pending:
  assumes "run_inv s" "admissible e s"
  shows "wpo (deliver e s) (\<lambda>s1. pending s1 \<and> charge_fits (elapsed_ticks_since_last_interrupt s1) s1 \<and> keeps_suspended {} s s1)"
proof (cases e)
  case Tick
  then show ?thesis
    using tick_pending [OF assms(1)] assms(2) by (auto simp: wpo_def counters_fit_def)
next
  case YieldThread
  then show ?thesis
    using yield_pending [OF assms(1)] assms(2) by (auto simp: wpo_def counters_fit_def)
next
  case (Sleep msec)
  then show ?thesis
    using sleep_pending [OF assms(1), of msec] assms(2) by (auto simp: wpo_def charge_fits_def)
qed

section \<open>The transition system\<close>

inductive kernel_step :: "kstate \<Rightarrow> event \<Rightarrow> kstate \<Rightarrow> bool" where
  kernel_step: "admissible e s \<Longrightarrow> deliver e s = Some s1 \<Longrightarrow> PendSV s1 = Some s' \<Longrightarrow> kernel_step s e s'"

inductive_cases kernel_stepE: "kernel_step s e s'"

inductive reachable :: "kstate \<Rightarrow> kstate \<Rightarrow> bool" for s0 where
  reach_init: "reachable s0 s0"
| reach_step: "reachable s0 s \<Longrightarrow> kernel_step s e s' \<Longrightarrow> reachable s0 s'"

lemma kernel_step_ok:
  assumes "run_inv s" "admissible e s"
  shows "\<exists>s'. kernel_step s e s' \<and> run_inv s'"
proof -
  from deliver_pending [OF assms] obtain s1 where
    s1: "deliver e s = Some s1" "pending s1" "charge_fits (elapsed_ticks_since_last_interrupt s1) s1" by (auto simp: wpo_def)
  from PendSV_ok [OF s1(2,3)] obtain s' where "PendSV s1 = Some s'" "run_inv s'" by (auto simp: wpo_def)
  then show ?thesis using kernel_step [OF assms(2) s1(1)] by blast
qed

lemma kernel_step_inv: "kernel_step s e s' \<Longrightarrow> run_inv s \<Longrightarrow> run_inv s'"
  by (erule kernel_stepE) (use deliver_pending PendSV_ok in \<open>fastforce simp: wpo_def\<close>)

lemma reachable_inv: "reachable s0 s \<Longrightarrow> run_inv s0 \<Longrightarrow> run_inv s"
  by (induction rule: reachable.induct) (auto intro: kernel_step_inv)

end
