(* ===== verification/Sample.thy ===== *)
theory Sample
  imports Machine
begin

text \<open>
  A concrete running system on which the properties are applied: an idle thread, four CFS and three
  real-time threads, one of each waiting for a timeout, one of each suspended on a primitive.
\<close>

definition sample_tcb :: "u32 \<Rightarrow> ThreadKind \<Rightarrow> ThreadState \<Rightarrow> WaitEntity \<Rightarrow> u64 \<Rightarrow> u32 \<Rightarrow> u64 \<Rightarrow> addr \<Rightarrow> u32 \<Rightarrow> TCB" where
  "sample_tcb i kd st w d p v k r =
     \<lparr>sp = 0, exc_return = 0xFFFFFFFD, thread_id = i, thread_name = '''', state = st, kind = kd, wait_entity = w,
      sync_entity = \<lparr>deadline_at = d\<rparr>, sched_entity = \<lparr>sched_tick_cnt = 0, vruntime = v, priority = p\<rparr>,
      ktimer_entity = k, runtime = r\<rparr>"

definition sample_timer :: "u64 \<Rightarrow> bool \<Rightarrow> u32 \<Rightarrow> addr \<Rightarrow> RtKTimer" where
  "sample_timer e a p t =
     \<lparr>expire_at = e, active = a, timing = RtTiming_from_period p, ktimer_label = '''', miss_cnt = 0, thread_ctx = t\<rparr>"

definition sample_threads :: "addr \<Rightarrow> TCB" where
  "sample_threads =
     (\<lambda>_. sample_tcb 0 Idle Ready WaitEntity_new 0 0 0 0 0)
     (2000 := sample_tcb 1 Cfs Running WaitEntity_new 0 3 40 0 0,
      2100 := sample_tcb 2 Cfs Ready WaitEntity_new 0 2 30 0 0,
      2200 := sample_tcb 3 Cfs Waiting \<lparr>wake_at = 50, waitevt = None\<rparr> 0 5 20 0 0,
      2300 := sample_tcb 4 Cfs Suspended (forever SyncBinarySemaphore) 70 1 20 0 0,
      3000 := sample_tcb 5 Rt Ready WaitEntity_new 0 0 0 300 4,
      3100 := sample_tcb 6 Rt Waiting \<lparr>wake_at = 60, waitevt = None\<rparr> 0 0 0 310 4,
      3200 := sample_tcb 7 Rt Suspended (forever SyncMutex) 120 0 0 320 4)"

definition sample_timers :: "addr \<Rightarrow> RtKTimer" where
  "sample_timers =
     (\<lambda>_. sample_timer 0 False 0 0)
     (100 := sample_timer 70 True 100 0, 104 := sample_timer 50 False 0 0, 300 := sample_timer 90 True 80 3000,
      310 := sample_timer 95 False 90 3100, 320 := sample_timer 120 False 200 3200)"

text \<open>A CFS thread runs; the timer was programmed for 45 ticks, 9 of which have passed.\<close>

definition sample :: kstate where
  "sample =
     \<lparr>threads = sample_threads, ktimers = sample_timers, CFS_KTIMER = 100, WAIT_KTIMER = 104, run_tree = [2100],
      priority_sum = 5, wait_tree = [2200, 3100], suspended = [2300, 3200], active_tree = [100, 300], inactive_tree = [104],
      first_active_node = 100, first_inactive_node = 104, now_ticks = 10, NEXT_KTIMER = 100, CURRENT_THREAD_CTX = 2000,
      CURRENT_THREAD_IS_CFS = True, IDLE_THREAD_CTX = 1000, SCHEDULER_STARTED = True, NEXT_THREAD_ID = 8,
      SYS_CLK_FREQ = 16000, timer_reload = Some 44, timer_current = Some 35, pendsv = False,
      counters = \<lparr>context_switches = 0, deadline_misses = 0, wakeups = 0, yields = 0\<rparr>, trace_fn = False, trace_log = []\<rparr>"

lemmas sample_defs = sample_def sample_threads_def sample_timers_def sample_tcb_def sample_timer_def RtTiming_from_period_def
  RtTiming_new_def WaitEntity_new_def forever_def

lemmas cmp_defs = ordered_def key_cmp_def then_cmp_def cmp_of_def

lemma sample_queues [simp]:
  "wait_tree sample = [2200, 3100]" "suspended sample = [2300, 3200]" "run_tree sample = [2100]"
  "active_tree sample = [100, 300]" "inactive_tree sample = [104]" "CFS_KTIMER sample = 100" "WAIT_KTIMER sample = 104"
  "now_ticks sample = 10" "CURRENT_THREAD_CTX sample = 2000" "IDLE_THREAD_CTX sample = 1000" "CURRENT_THREAD_IS_CFS sample"
  "NEXT_KTIMER sample = 100" "priority_sum sample = 5" "SCHEDULER_STARTED sample" "timer_reload sample = Some 44"
  "timer_current sample = Some 35" "waiting sample = {2200, 3100, 2300, 3200}" "queued sample = {100, 300, 104}"
  by (auto simp: sample_def waiting_def queued_def)

lemma sample_links:
  "rt_linked sample 300" "rt_linked sample 310" "rt_linked sample 320"
  by (simp_all add: rt_linked_def) (simp_all add: sample_defs)

lemma sample_kinv: "kinv sample"
proof -
  have "wq_ok sample" by (simp add: wq_ok_def wait_cmp_def cmp_defs sample_defs)
  moreover have "rq_ok sample" by (simp add: rq_ok_def sched_cmp_def cmp_defs sample_defs)
  moreover have "ktq_ok sample" by (simp add: ktq_ok_def ktimer_cmp_def cmp_defs sample_defs)
  moreover have "links sample"
    using sample_links by (simp add: links_def timer_ok_def waiter_ok_def) (simp add: sample_defs)
  ultimately show ?thesis by (simp add: kinv_def kinv0_def)
qed

lemma sample_sched_inv: "sched_inv sample"
  unfolding sched_inv_def
  by (intro conjI sample_kinv) (simp_all add: is_blocked_def, simp_all add: sample_defs split: if_splits)

section \<open>Facts the properties rely on\<close>

lemma sample_run_inv: "run_inv sample"
  by (simp add: run_inv_def sample_sched_inv next_ok_def) (simp add: sample_defs)

lemma sample_sync_ok: "sync_ok [2300] sample" "sync_ok [3200] sample" "sync_ok [2300, 3200] sample"
  by (simp_all add: sync_ok_def sync_cmp_def cmp_defs) (simp add: sample_defs)

lemma sample_elapsed [simp]:
  "elapsed_ticks_since_last_interrupt sample = 45" "elapsed_ticks_since_current_reload sample = 9"
  by (simp_all add: elapsed_ticks_since_last_interrupt_def elapsed_ticks_since_current_reload_def
      saturating_add_def saturating_sub_def)

lemma sample_blocked_cfs: "blocked_cfs sample = {2200, 2300}"
  by (auto simp: blocked_cfs_def) (simp_all add: sample_defs)

lemma sample_headroom: "headroom sample"
  by (simp add: headroom_def all_prio_def sample_blocked_cfs) (simp add: sample_defs)

lemma sample_can_block: "can_block sample"
  by (simp add: can_block_def runnable_cfs_def) (simp add: sample_defs)

lemma sample_no_overdue: "no_overdue (ktq_advance_time n sample)"
  by (simp add: no_overdue_def missed_def ktq_advance_time_def) (simp add: sample_defs)

lemma sample_no_overdue0: "no_overdue sample"
  by (simp add: no_overdue_def missed_def) (simp add: sample_defs)

lemma sample_tick_expired: "expired_waiters (ktq_advance_time 45 sample) = {2200}"
  by (auto simp: expired_waiters_def ktq_advance_time_def saturating_add_def u64_of_def)
    (simp_all add: sample_defs)

lemma sample_dispatch_pre: "dispatch_pre 45 (ktq_advance_time 45 sample)"
proof -
  let ?s = "ktq_advance_time 45 sample"
  have same: "threads ?s = threads sample" "ktimers ?s = ktimers sample" "WAIT_KTIMER ?s = 104" "CFS_KTIMER ?s = 100"
    "wait_tree ?s = wait_tree sample" "run_tree ?s = run_tree sample" "queued ?s = queued sample" "waiting ?s = waiting sample"
    "priority_sum ?s = 5"
    by (simp_all add: ktq_advance_time_def queued_def waiting_def)
  have "headroom ?s"
    using sample_headroom by (simp add: headroom_def all_prio_def blocked_cfs_def same)
  moreover have "wait_armed ?s" by (simp add: wait_armed_def wait_deadline_def same) (simp add: sample_defs)
  moreover have "now_ticks ?s = 55" by (simp add: ktq_advance_time_def saturating_add_def u64_of_def)
  moreover have "rt_timers (waiting sample) ?s \<subseteq> {310, 320}"
    by (auto simp: rt_timers_def same) (simp_all add: sample_defs)
  moreover have "\<forall>k \<in> {100, 300, 104, 310, 320}. positive ?s k"
    by (simp add: positive_def same) (simp add: sample_defs)
  moreover have "kind (threads sample 2200) = Cfs" by (simp add: sample_defs)
  ultimately show ?thesis
    using advance_kinv [OF sample_kinv] sample_no_overdue
    by (auto simp: dispatch_pre_def sample_tick_expired same)
qed

end
