(* ===== verification/SuspList.thy ===== *)
theory SuspList
  imports WaitQ
begin

text \<open>
  The list of suspended threads (\<^verbatim>\<open>SuspendedWaitList\<close> in \<^verbatim>\<open>src/waitq.rs\<close>) as the code stores it: a doubly linked
  list threaded through the wait entities, with head and tail pointers. The wait queue of the model
  keeps the list of its members instead; the two agree in every step, failed assertions included.
\<close>

section \<open>The linked list\<close>

record SuspendedLinks =
  suspended_prev :: addr
  suspended_next :: addr

record SuspendedWaitList =
  susp_head :: addr
  susp_tail :: addr
  links_of :: "addr \<Rightarrow> SuspendedLinks"

definition SuspendedWaitList_new :: "(addr \<Rightarrow> SuspendedLinks) \<Rightarrow> SuspendedWaitList" where
  "SuspendedWaitList_new h = \<lparr>susp_head = 0, susp_tail = 0, links_of = h\<rparr>"

definition set_prev :: "addr \<Rightarrow> addr \<Rightarrow> SuspendedWaitList \<Rightarrow> SuspendedWaitList" where
  "set_prev e p l = l\<lparr>links_of := (links_of l)(e := (links_of l e)\<lparr>suspended_prev := p\<rparr>)\<rparr>"

definition set_next :: "addr \<Rightarrow> addr \<Rightarrow> SuspendedWaitList \<Rightarrow> SuspendedWaitList" where
  "set_next e n l = l\<lparr>links_of := (links_of l)(e := (links_of l e)\<lparr>suspended_next := n\<rparr>)\<rparr>"

definition push_back :: "addr \<Rightarrow> SuspendedWaitList \<Rightarrow> SuspendedWaitList option" where
  "push_back e l = do {
     require (e \<noteq> 0);
     require (e \<noteq> susp_head l \<and> e \<noteq> susp_tail l);
     require (suspended_prev (links_of l e) = 0);
     require (suspended_next (links_of l e) = 0);
     let l = set_prev e (susp_tail l) l;
     let l = (if susp_tail l = 0 then l\<lparr>susp_head := e\<rparr> else set_next (susp_tail l) e l);
     Some (l\<lparr>susp_tail := e\<rparr>)
   }"

definition remove_susp :: "addr \<Rightarrow> SuspendedWaitList \<Rightarrow> SuspendedWaitList option" where
  "remove_susp e l = do {
     require (e \<noteq> 0);
     let p = suspended_prev (links_of l e);
     let n = suspended_next (links_of l e);
     l \<leftarrow> (if p = 0 then do { require (susp_head l = e); Some (l\<lparr>susp_head := n\<rparr>) } else Some (set_next p n l));
     l \<leftarrow> (if n = 0 then do { require (susp_tail l = e); Some (l\<lparr>susp_tail := p\<rparr>) } else Some (set_prev n p l));
     Some (set_next e 0 (set_prev e 0 l))
   }"

section \<open>The list it represents\<close>

definition first_or :: "addr \<Rightarrow> addr list \<Rightarrow> addr" where
  "first_or q xs = (case xs of [] \<Rightarrow> q | x # _ \<Rightarrow> x)"

definition last_or :: "addr \<Rightarrow> addr list \<Rightarrow> addr" where
  "last_or p xs = (if xs = [] then p else last xs)"

text \<open>The links of \<open>xs\<close>, which follows \<open>p\<close> and is followed by \<open>q\<close>.\<close>

primrec chain :: "(addr \<Rightarrow> SuspendedLinks) \<Rightarrow> addr \<Rightarrow> addr list \<Rightarrow> addr \<Rightarrow> bool" where
  "chain h p [] q \<longleftrightarrow> True"
| "chain h p (x # xs) q \<longleftrightarrow> h x = \<lparr>suspended_prev = p, suspended_next = first_or q xs\<rparr> \<and> chain h x xs q"

definition susp_abs :: "SuspendedWaitList \<Rightarrow> addr list \<Rightarrow> bool" where
  "susp_abs l xs \<longleftrightarrow>
     distinct xs \<and> 0 \<notin> set xs \<and> susp_head l = first_or 0 xs \<and> susp_tail l = last_or 0 xs
     \<and> chain (links_of l) 0 xs 0
     \<and> (\<forall>a. a \<notin> set xs \<longrightarrow> links_of l a = \<lparr>suspended_prev = 0, suspended_next = 0\<rparr>)"

lemma first_or_simps [simp]: "first_or q [] = q" "first_or q (x # xs) = x" "first_or q (xs @ ys) = first_or (first_or q ys) xs"
  by (simp_all add: first_or_def split: list.split)

lemma last_or_simps [simp]: "last_or p [] = p" "last_or p (x # xs) = last_or x xs" "last_or p (xs @ ys) = last_or (last_or p xs) ys"
  by (simp_all add: last_or_def)

lemma chain_append: "chain h p (xs @ ys) q \<longleftrightarrow> chain h p xs (first_or q ys) \<and> chain h (last_or p xs) ys q"
  by (induction xs arbitrary: p) auto

lemma chain_cong: "(\<And>x. x \<in> set xs \<Longrightarrow> h' x = h x) \<Longrightarrow> chain h' p xs q = chain h p xs q"
  by (induction xs arbitrary: p) auto

lemma first_or_in: "first_or q xs \<in> insert q (set xs)"
  by (cases xs) auto

lemma last_or_in: "last_or p xs \<in> insert p (set xs)"
  by (simp add: last_or_def)

text \<open>Only the last element of a chain records what follows it, only the first what precedes it.\<close>

lemma chain_relink_next:
  assumes "distinct (xs @ [x])" "chain h p (xs @ [x]) q"
  shows "chain (h(x := (h x)\<lparr>suspended_next := r\<rparr>)) p (xs @ [x]) r"
proof -
  have "chain (h(x := (h x)\<lparr>suspended_next := r\<rparr>)) p xs x = chain h p xs x"
    by (rule chain_cong) (use assms(1) in auto)
  then show ?thesis using assms by (simp add: chain_append)
qed

lemma chain_relink_prev:
  assumes "distinct (x # xs)" "chain h p (x # xs) q"
  shows "chain (h(x := (h x)\<lparr>suspended_prev := r\<rparr>)) r (x # xs) q"
proof -
  have "chain (h(x := (h x)\<lparr>suspended_prev := r\<rparr>)) x xs q = chain h x xs q"
    by (rule chain_cong) (use assms(1) in auto)
  then show ?thesis using assms by simp
qed

lemma new_abs: "susp_abs (SuspendedWaitList_new (\<lambda>_. \<lparr>suspended_prev = 0, suspended_next = 0\<rparr>)) []"
  by (simp add: susp_abs_def SuspendedWaitList_new_def)

section \<open>The operations refine those of the list\<close>

lemma push_back_abs:
  assumes a: "susp_abs l xs" and e: "e \<noteq> 0" "e \<notin> set xs"
  shows "wpo (push_back e l) (\<lambda>l'. susp_abs l' (xs @ [e]))"
proof -
  let ?h = "links_of l"
  let ?n = "\<lparr>suspended_prev = last_or 0 xs, suspended_next = 0\<rparr>"
  note A = a [unfolded susp_abs_def]
  have ht: "e \<noteq> susp_head l" "e \<noteq> susp_tail l" using A e first_or_in [of 0 xs] last_or_in [of 0 xs] by auto
  have d: "?h e = \<lparr>suspended_prev = 0, suspended_next = 0\<rparr>" using A e by simp
  show ?thesis
  proof (cases xs rule: rev_cases)
    case Nil
    then show ?thesis using A e d ht by (simp add: push_back_def susp_abs_def set_prev_def)
  next
    case (snoc ys t)
    have t: "t \<noteq> 0" "t \<noteq> e" "susp_tail l = t" "susp_head l = first_or 0 xs" using A e snoc by auto
    let ?h1 = "?h(e := ?n)"
    let ?h2 = "?h1(t := (?h1 t)\<lparr>suspended_next := e\<rparr>)"
    have "push_back e l = Some (l\<lparr>links_of := ?h2, susp_tail := e\<rparr>)"
      using e d ht t snoc by (simp add: push_back_def set_prev_def set_next_def require_def)
    moreover have "chain ?h1 0 xs 0 = chain ?h 0 xs 0" by (rule chain_cong) (use e in auto)
    then have "chain ?h1 0 xs 0" using A by simp
    then have "chain ?h2 0 xs e" using chain_relink_next [of ys t ?h1 0 0 e] A snoc by simp
    then have "susp_abs (l\<lparr>links_of := ?h2, susp_tail := e\<rparr>) (xs @ [e])"
      using A e t snoc by (auto simp: susp_abs_def chain_append)
    ultimately show ?thesis by simp
  qed
qed

text \<open>Bypassing an element on either side.\<close>

lemma bypass_next:
  assumes "distinct (xs @ [e])" "0 \<notin> set xs" "chain h 0 xs e" "p = last_or 0 xs"
  shows "chain (if p = 0 then h else h(p := (h p)\<lparr>suspended_next := n\<rparr>)) 0 xs n"
proof (cases xs rule: rev_cases)
  case (snoc ys x)
  then show ?thesis using assms chain_relink_next [of ys x h 0 e n] by auto
qed (use assms in simp)

lemma bypass_prev:
  assumes "distinct (e # xs)" "0 \<notin> set xs" "chain h e xs 0" "n = first_or 0 xs"
  shows "chain (if n = 0 then h else h(n := (h n)\<lparr>suspended_prev := p\<rparr>)) p xs 0"
proof (cases xs)
  case (Cons x ys)
  then show ?thesis using assms chain_relink_prev [of x ys h e 0 p] by auto
qed (use assms in simp)

lemma links_update: "(r :: SuspendedLinks)\<lparr>suspended_prev := a, suspended_next := b\<rparr> = \<lparr>suspended_prev = a, suspended_next = b\<rparr>"
  by (cases r) simp

lemma remove_susp_eq:
  assumes "e \<noteq> 0" "links_of l e = \<lparr>suspended_prev = p, suspended_next = n\<rparr>" "p \<noteq> e" "n \<noteq> e"
    "p = 0 \<Longrightarrow> susp_head l = e" "n = 0 \<Longrightarrow> susp_tail l = e"
  shows "remove_susp e l = Some \<lparr>susp_head = (if p = 0 then n else susp_head l), susp_tail = (if n = 0 then p else susp_tail l),
    links_of = (let h1 = (if p = 0 then links_of l else (links_of l)(p := (links_of l p)\<lparr>suspended_next := n\<rparr>));
      h2 = (if n = 0 then h1 else h1(n := (h1 n)\<lparr>suspended_prev := p\<rparr>))
      in h2(e := \<lparr>suspended_prev = 0, suspended_next = 0\<rparr>))\<rparr>"
  using assms by (cases l; cases "p = 0"; cases "n = 0") (simp_all add: remove_susp_def set_next_def set_prev_def require_def links_update Let_def)

lemma remove_susp_abs:
  assumes a: "susp_abs l xs" and e: "e \<in> set xs"
  shows "wpo (remove_susp e l) (\<lambda>l'. susp_abs l' (remove1 e xs))"
proof -
  obtain as bs where x: "xs = as @ e # bs" "e \<notin> set as" using split_list_first [OF e] by blast
  note A = a [unfolded susp_abs_def x(1)]
  let ?h = "links_of l" and ?p = "last_or 0 as" and ?n = "first_or 0 bs"
  have d: "e \<noteq> 0" "e \<notin> set bs" "distinct as" "distinct bs" "set as \<inter> set bs = {}" "0 \<notin> set as" "0 \<notin> set bs"
    using A x(2) by auto
  have c: "chain ?h 0 as e" "?h e = \<lparr>suspended_prev = ?p, suspended_next = ?n\<rparr>" "chain ?h e bs 0"
    using A by (simp_all add: chain_append)
  let ?h1 = "if ?p = 0 then ?h else ?h(?p := (?h ?p)\<lparr>suspended_next := ?n\<rparr>)"
  let ?h2 = "if ?n = 0 then ?h1 else ?h1(?n := (?h1 ?n)\<lparr>suspended_prev := ?p\<rparr>)"
  let ?h3 = "?h2(e := \<lparr>suspended_prev = 0, suspended_next = 0\<rparr>)"
  have p: "?p \<in> insert 0 (set as)" "?n \<in> insert 0 (set bs)" by (rule last_or_in, rule first_or_in)
  have pe: "?p \<noteq> e" "?n \<noteq> e" "?p = 0 \<longleftrightarrow> as = []" "?n = 0 \<longleftrightarrow> bs = []"
  proof -
    show "?p \<noteq> e" "?n \<noteq> e" using p d x(2) by auto
    show "?p = 0 \<longleftrightarrow> as = []" using d(6) last_in_set [of as] by (metis last_or_def)
    show "?n = 0 \<longleftrightarrow> bs = []" using d(7) by (cases bs) auto
  qed
  have "?h1 a = ?h a" if "a \<in> set bs" for a using p(1) d that by auto
  then have b1: "chain ?h1 e bs 0" using chain_cong [of bs ?h1 ?h] c(3) by simp
  have a2: "?h2 u = ?h1 u" if "u \<in> set as" for u using p(2) d that by auto
  have "chain ?h2 0 as ?n" "chain ?h2 ?p bs 0"
    using chain_cong [of as ?h2 ?h1, OF a2] bypass_next [OF _ d(6) c(1) refl, of ?n] bypass_prev [OF _ d(7) b1 refl, of ?p] d x(2)
    by simp_all
  moreover have "chain ?h3 0 as ?n = chain ?h2 0 as ?n" by (rule chain_cong) (use x(2) in auto)
  moreover have "chain ?h3 ?p bs 0 = chain ?h2 ?p bs 0" by (rule chain_cong) (use d in auto)
  ultimately have ch: "chain ?h3 0 (as @ bs) 0" by (simp add: chain_append)
  have det: "?h3 u = \<lparr>suspended_prev = 0, suspended_next = 0\<rparr>" if "u \<notin> set (as @ bs)" for u
    using that A p pe by (auto split: if_splits)
  let ?l = "\<lparr>susp_head = first_or 0 (as @ bs), susp_tail = last_or 0 (as @ bs), links_of = ?h3\<rparr>"
  have ht: "susp_head l = first_or e as" "susp_tail l = last_or e bs" using A by simp_all
  have "remove_susp e l = Some ?l"
  proof -
    have "first_or 0 (as @ bs) = (if ?p = 0 then ?n else susp_head l)" "last_or 0 (as @ bs) = (if ?n = 0 then ?p else susp_tail l)"
      unfolding pe ht by (auto simp: first_or_def last_or_def split: list.split)
    moreover have "?p = 0 \<Longrightarrow> susp_head l = e" "?n = 0 \<Longrightarrow> susp_tail l = e" unfolding pe ht by simp_all
    ultimately show ?thesis using remove_susp_eq [OF d(1) c(2) pe(1,2)] by (simp add: Let_def)
  qed
  moreover have "susp_abs ?l (as @ bs)" using ch det d by (simp add: susp_abs_def)
  moreover have "remove1 e xs = as @ bs" using x by (simp add: remove1_append)
  ultimately show ?thesis by simp
qed

text \<open>Outside the preconditions an assertion of the code fails.\<close>

lemma chain_prev:
  assumes "chain h p xs q" "e \<in> set xs" "e \<noteq> first_or q xs" "0 \<notin> set xs"
  shows "suspended_prev (h e) \<noteq> 0"
  using assms
proof (induction xs arbitrary: p)
  case (Cons x xs)
  show ?case
  proof (cases "e = first_or q xs \<and> xs \<noteq> []")
    case True
    then show ?thesis using Cons.prems by (cases xs) auto
  qed (use Cons in auto)
qed simp

lemma push_back_member:
  assumes a: "susp_abs l xs" and e: "e \<in> set xs"
  shows "push_back e l = None"
proof (cases "e = first_or 0 xs")
  case True
  then show ?thesis using a by (simp add: push_back_def susp_abs_def require_def)
next
  case False
  then have "suspended_prev (links_of l e) \<noteq> 0" using chain_prev [of "links_of l" 0 xs 0 e] a e by (auto simp: susp_abs_def)
  then show ?thesis by (simp add: push_back_def require_def)
qed

lemma remove_foreign:
  assumes a: "susp_abs l xs" and e: "e \<notin> set xs"
  shows "remove_susp e l = None"
proof (cases "e = 0")
  case False
  then have "susp_head l \<noteq> e" using a e first_or_in [of 0 xs] by (auto simp: susp_abs_def)
  then show ?thesis using a e by (simp add: remove_susp_def susp_abs_def require_def)
qed (simp add: remove_susp_def require_def)

lemma chain_next:
  "chain h p xs 0 \<Longrightarrow> distinct xs \<Longrightarrow> e \<in> set xs \<Longrightarrow> suspended_next (h e) = onext xs e"
  by (induction xs arbitrary: p) (auto simp: first_or_def head_or_null_def)

end
