(* ===== verification/KTimerApi.thy ===== *)
theory KTimerApi
  imports KTimer
begin

text \<open>
  The rest of the interface of \<^verbatim>\<open>KTimerQueue\<close> and \<^verbatim>\<open>KTimerEntity\<close> in \<^verbatim>\<open>src/ktimer.rs\<close>: construction, the latest
  timer, the next deadline and reload, and popping the earliest timer. All of them are what the list
  of queued timers in deadline order says.
\<close>

section \<open>Entities\<close>

definition KTimerEntity_new_with_timing :: "u32 \<Rightarrow> RtTiming \<Rightarrow> KTimerEntity" where
  "KTimerEntity_new_with_timing expire_ticks tm = \<lparr>expire_at = u64_of expire_ticks, active = True, timing = tm\<rparr>"

definition KTimerEntity_new :: "u32 \<Rightarrow> KTimerEntity" where
  "KTimerEntity_new expire_ticks = KTimerEntity_new_with_timing expire_ticks (RtTiming_from_period expire_ticks)"

definition expire :: "'a KTimerEntity_scheme \<Rightarrow> u32" where
  "expire k = ucast (min (expire_at k) (u64_of (- 1)))"

definition set_expire :: "u32 \<Rightarrow> 'a KTimerEntity_scheme \<Rightarrow> 'a KTimerEntity_scheme" where
  "set_expire e k = k\<lparr>expire_at := u64_of e\<rparr>"

definition set_expire_at :: "u64 \<Rightarrow> 'a KTimerEntity_scheme \<Rightarrow> 'a KTimerEntity_scheme" where
  "set_expire_at e k = k\<lparr>expire_at := e\<rparr>"

definition set_expire_never :: "'a KTimerEntity_scheme \<Rightarrow> 'a KTimerEntity_scheme" where
  "set_expire_never k = k\<lparr>expire_at := KTIMER_EXPIRE_NEVER\<rparr>"

definition execution_ticks :: "kstate \<Rightarrow> u32" where
  "execution_ticks s = relative_deadline_ticks (timing (ktimers s (CFS_KTIMER s)))"

lemma expire_set_expire [simp]: "expire (set_expire e k) = e"
proof -
  have "e \<le> - 1" by simp
  then have "u64_of e \<le> u64_of (- 1)" by (simp only: word_le_nat_alt unat_u64_of)
  moreover have "ucast (u64_of e) = e"
    by (rule word_unat_eq_iff [THEN iffD2]) (use unat_bound [of e] in \<open>simp add: unsigned_ucast_eq take_bit_nat_eq_self\<close>)
  ultimately show ?thesis by (simp add: expire_def set_expire_def min_def)
qed

lemma never_not_expired: "ktimer_is_expired_at (set_expire_never k) now \<longleftrightarrow> now = - 1"
  by (simp add: ktimer_is_expired_at_def set_expire_never_def KTIMER_EXPIRE_NEVER_def) (metis word_n1_ge order_antisym)

section \<open>Queue\<close>

definition KTimerQueue_new :: "kstate \<Rightarrow> kstate" where
  "KTimerQueue_new s =
     s\<lparr>active_tree := [], inactive_tree := [], first_active_node := 0, first_inactive_node := 0, now_ticks := 0\<rparr>"

definition ktq_is_empty :: "kstate \<Rightarrow> bool" where
  "ktq_is_empty s \<longleftrightarrow> active_tree s = [] \<and> inactive_tree s = []"

definition ktq_last :: "kstate \<Rightarrow> addr" where
  "ktq_last s =
     (let act = head_or_null (rev (active_tree s)); inact = head_or_null (rev (inactive_tree s)) in
      if act = 0 then inact
      else if inact = 0 \<or> ktimer_cmp s act inact = Greater then act
      else inact)"

definition ktq_next_deadline :: "kstate \<Rightarrow> u32 option" where
  "ktq_next_deadline s =
     (let e = ktq_first s in if e = 0 then None else Some (ktimer_remaining_at (ktimers s e) (now_ticks s)))"

definition ktq_next_reload :: "kstate \<Rightarrow> u32 option" where
  "ktq_next_reload s = scheduler_timer_reload_for_entity (ktq_first s) s"

definition ktq_pop_first :: "kstate \<Rightarrow> (addr option \<times> kstate) option" where
  "ktq_pop_first s =
     (let e = ktq_first s in
      if e = 0 then Some (None, s)
      else do {
        (_, s) \<leftarrow> ktq_remove e s;
        Some (Some e, s)
      })"

section \<open>Everything agrees with the list of timers\<close>

lemma ktq_new_ok: "ktq_ok (KTimerQueue_new s)" "ktq_list (KTimerQueue_new s) = []"
  by (simp_all add: ktq_ok_def KTimerQueue_new_def ktq_list_def ordered_def head_or_null_def)

lemma ktq_empty_list:
  assumes "ktq_ok s"
  shows "ktq_is_empty s \<longleftrightarrow> ktq_list s = []"
proof -
  have "ktq_list s = [] \<longleftrightarrow> queued s = {}" using ktq_list_ok(2) [OF assms] by (metis set_empty)
  then show ?thesis by (simp add: ktq_is_empty_def queued_def)
qed

lemma last_or_null: "head_or_null (rev xs) = (if xs = [] then 0 else last xs)"
  by (cases xs rule: rev_cases) (simp_all add: head_or_null_def)

lemma ordered_last_greatest: "ordered (ktimer_cmp s) xs \<Longrightarrow> x \<in> set xs \<Longrightarrow> x \<noteq> last xs \<Longrightarrow> ktimer_cmp s x (last xs) = Less"
  by (cases xs rule: rev_cases) (auto simp: ordered_def sorted_wrt_append)

lemma last_unique:
  assumes o: "ordered (ktimer_cmp s) xs" "x \<in> set xs" and g: "\<And>y. y \<in> set xs \<Longrightarrow> y \<noteq> x \<Longrightarrow> ktimer_cmp s y x = Less"
  shows "last xs = x"
proof (rule ccontr)
  assume n: "last xs \<noteq> x"
  have "last xs \<in> set xs" using o(2) by (cases xs) auto
  then have "ktimer_cmp s (last xs) x = Less" using g n by blast
  moreover have "ktimer_cmp s x (last xs) = Less" using ordered_last_greatest [OF o] n by simp
  ultimately show False using kcmp.cmp_asym by blast
qed

lemma last_merge:
  assumes o: "ordered (ktimer_cmp s) xs" "ordered (ktimer_cmp s) ys" "ordered (ktimer_cmp s) ms" and m: "set ms = set xs \<union> set ys"
    and n: "xs \<noteq> []" "ys = [] \<or> ktimer_cmp s (last ys) (last xs) = Less"
  shows "last ms = last xs"
proof (rule last_unique [OF o(3)])
  show "last xs \<in> set ms" using m n(1) by simp
  fix y
  assume y: "y \<in> set ms" "y \<noteq> last xs"
  show "ktimer_cmp s y (last xs) = Less"
  proof (cases "y \<in> set xs")
    case True
    then show ?thesis by (rule ordered_last_greatest [OF o(1) _ y(2)])
  next
    case False
    then have "y \<in> set ys" "ktimer_cmp s (last ys) (last xs) = Less" using y(1) m n(2) by auto
    then show ?thesis using ordered_last_greatest [OF o(2), of y] kcmp.cmp_trans [of s y "last ys" "last xs"] by metis
  qed
qed

lemma ktq_last_list:
  assumes k: "ktq_ok s"
  shows "ktq_last s = (if ktq_list s = [] then 0 else last (ktq_list s))"
proof -
  note l = ktq_list_ok [OF k]
  let ?a = "active_tree s" and ?i = "inactive_tree s"
  have o: "ordered (ktimer_cmp s) ?a" "ordered (ktimer_cmp s) ?i" and z: "0 \<notin> set ?a" "0 \<notin> set ?i" using k by (auto simp: ktq_ok_def)
  have e: "ktq_list s = [] \<longleftrightarrow> ?a = [] \<and> ?i = []" using ktq_empty_list [OF k] by (simp add: ktq_is_empty_def)
  have nz: "?a \<noteq> [] \<Longrightarrow> last ?a \<noteq> 0" "?i \<noteq> [] \<Longrightarrow> last ?i \<noteq> 0" using z last_in_set by metis+
  have ma: "set (ktq_list s) = set ?a \<union> set ?i" and mi: "set (ktq_list s) = set ?i \<union> set ?a"
    using l(2) by (auto simp: queued_def)
  note A = last_merge [OF o(1,2) l(1) ma] and I = last_merge [OF o(2,1) l(1) mi]
  have tot: "ktimer_cmp s (last ?i) (last ?a) = Less \<or> ktimer_cmp s (last ?a) (last ?i) = Less" if "?a \<noteq> []" "?i \<noteq> []"
  proof -
    have "last ?i \<noteq> last ?a" using that ktq_ok_distinct [OF k] last_in_set [of ?i] last_in_set [of ?a] by (metis disjoint_iff)
    then show ?thesis using kcmp.cmp_total by blast
  qed
  show ?thesis
    using A I tot nz e kcmp.cmp_asym [of s "last ?a" "last ?i"]
    by (cases "?a = []"; cases "?i = []") (auto simp: ktq_last_def last_or_null Let_def kcmp.cmp_Greater)
qed

lemma ktq_list_take:
  assumes k: "ktq_ok s"
  shows "ktq_list (ktq_take e s) = remove1 e (ktq_list s)"
proof (rule kcmp.ordered_unique)
  have c: "ktimer_cmp (ktq_take e s) = ktimer_cmp s" by (simp add: ktimer_cmp_def)
  note l = ktq_list_ok [OF k] and l' = ktq_list_ok [OF ktq_take_ok [OF k], of e]
  show "ordered (ktimer_cmp s) (ktq_list (ktq_take e s))" using l'(1) by (simp add: c)
  show "ordered (ktimer_cmp s) (remove1 e (ktq_list s))" by (rule kcmp.ordered_remove1 [OF l(1)])
  show "set (ktq_list (ktq_take e s)) = set (remove1 e (ktq_list s))"
    using l(2) l'(2) queued_ktq_take [OF k, of e] kcmp.ordered_distinct [OF l(1)] by simp
qed

lemma ktq_pop_first_list:
  assumes k: "ktq_ok s"
  shows "ktq_pop_first s = Some (case ktq_list s of [] \<Rightarrow> (None, s) | e # _ \<Rightarrow> (Some e, ktq_take e s))"
proof (cases "ktq_list s")
  case Nil
  then show ?thesis using ktq_first_list [OF k] by (simp add: ktq_pop_first_def head_or_null_def)
next
  case (Cons e es)
  note l = ktq_list_ok [OF k]
  have m: "e \<in> set (ktq_list s)" unfolding Cons by simp
  have "e \<in> queued s" using m unfolding l(2) .
  moreover have "e \<noteq> 0" using m l(3) by metis
  moreover have "ktq_first s = e" using Cons ktq_first_list [OF k] by (simp add: head_or_null_def)
  ultimately show ?thesis using ktq_remove_eq [OF k] Cons by (simp add: ktq_pop_first_def Let_def)
qed

text \<open>Popping a number of times.\<close>

primrec ktq_drain :: "nat \<Rightarrow> kstate \<Rightarrow> (addr list \<times> kstate) option" where
  "ktq_drain 0 s = Some ([], s)"
| "ktq_drain (Suc n) s = do {
     (r, s) \<leftarrow> ktq_pop_first s;
     (es, s) \<leftarrow> ktq_drain n s;
     Some ((case r of None \<Rightarrow> es | Some e \<Rightarrow> e # es), s)
   }"

lemma ktq_drain_list:
  "ktq_ok s \<Longrightarrow> wpo (ktq_drain n s) (\<lambda>(es, s'). es = take n (ktq_list s) \<and> ktq_ok s' \<and> ktq_list s' = drop n (ktq_list s))"
proof (induction n arbitrary: s)
  case (Suc n)
  note p = ktq_pop_first_list [OF Suc.prems]
  show ?case
  proof (cases "ktq_list s")
    case Nil
    then show ?thesis using p Suc.IH [OF Suc.prems] by (auto simp: wpo_def)
  next
    case (Cons e es)
    then have "ktq_list (ktq_take e s) = es" using ktq_list_take [OF Suc.prems] by simp
    then show ?thesis using p Cons Suc.IH [OF ktq_take_ok [OF Suc.prems], of e] by (auto simp: wpo_def)
  qed
qed simp

end
