(* ===== verification/QueueProps.thy ===== *)
theory QueueProps
  imports Sample SuspList KTimerApi
begin

text \<open>
  Properties of the wait queue, the run queue and the timer queue, each with a witness on the sample
  system.
\<close>

section \<open>Wait queue\<close>

text \<open>
  A thread's wait event tag identifies the synchronisation type: decoding succeeds on exactly the
  five tags and inverts the encoding.
\<close>

theorem wait_event_round_trip: "from_wait_event e = Some ty \<longleftrightarrow> e = wait_event ty"
  by (cases ty) (auto simp: from_wait_event_def split: if_splits)

text \<open>
  A runnable thread put into the wait queue is blocked, goes into the timed tree or the suspended
  list depending on its wake-up time, the queue stays well-formed, and taking it out again restores
  both containers.
\<close>

theorem wait_insert_remove:
  assumes "wq_ok s" "t \<noteq> 0" "kind (threads s t) \<noteq> Idle" "\<not> is_blocked (state (threads s t))"
  shows "wpo (insert_wait_thread t s) (\<lambda>s1. wq_ok s1 \<and> waiting s1 = insert t (waiting s)
    \<and> state (threads s1 t) = (if wake_at (wait_entity (threads s t)) = - 1 then Suspended else Waiting)
    \<and> wpo (remove_wait_thread t s1) (\<lambda>s2. wq_ok s2 \<and> wait_tree s2 = wait_tree s \<and> suspended s2 = suspended s))"
proof -
  have t: "t \<notin> waiting s" using wq_ok_blocked [OF assms(1)] assms(4) by blast
  let ?s1 = "block_thread t s"
  have w1: "wq_ok ?s1" using assms t by (simp add: block_thread_wq_ok)
  have "wait_tree (unblock_thread t ?s1) = wait_tree s" "suspended (unblock_thread t ?s1) = suspended s"
    using t by (auto simp: unblock_thread_def block_thread_def waiting_def remove1_append remove1_idem wcmp.remove1_oinsert)
  moreover have "state (threads ?s1 t) = (if wake_at (wait_entity (threads s t)) = - 1 then Suspended else Waiting)"
    by (simp add: block_thread_def waits_forever_def)
  ultimately show ?thesis
    using insert_wait_thread_eq [OF assms(2,3) t assms(4)] w1 remove_wait_thread_eq [OF w1, of t] unblock_thread_wq_ok [OF w1, of t]
    by simp
qed

text \<open>
  \<open>pop_expired_wait_thread\<close> takes out the thread with the earliest wake-up time if that time has
  come, and returns nothing only when no timed wait has expired.
\<close>

theorem pop_expired_earliest:
  assumes "wq_ok s"
  shows "wpo (pop_expired_wait_thread now s) (\<lambda>(r, s').
    case r of
      None \<Rightarrow> s' = s \<and> (\<forall>t \<in> set (wait_tree s). now < wake_at (wait_entity (threads s t)))
    | Some t \<Rightarrow> wq_ok s' \<and> t \<in> set (wait_tree s) \<and> wake_at (wait_entity (threads s t)) \<le> now
        \<and> (\<forall>u \<in> set (wait_tree s). wake_at (wait_entity (threads s t)) \<le> wake_at (wait_entity (threads s u)))
        \<and> waiting s' = waiting s - {t})"
proof (cases "wait_tree s")
  case Nil
  then show ?thesis using pop_expired_eq [OF assms] by simp
next
  case (Cons t ts)
  have least: "wake_at (wait_entity (threads s t)) \<le> wake_at (wait_entity (threads s u))" if "u \<in> set (wait_tree s)" for u
    using that wait_head_least [OF assms Cons, of u] Cons by auto
  have late: "now < wake_at (wait_entity (threads s u))" if "u \<in> set (wait_tree s)" "\<not> wake_at (wait_entity (threads s t)) \<le> now" for u
    using least [OF that(1)] that(2) by simp
  show ?thesis
    using pop_expired_eq [OF assms, of now] Cons least late unblock_thread_wq_ok [OF assms, of t] waiting_unblock_thread [OF assms, of t]
    by simp
qed

text \<open>
  The diagnostics cursor over the wait queue visits every blocked thread once: the timed waits in
  wake-up order, then the suspended threads in the order they were suspended.
\<close>

theorem wait_walk:
  assumes w: "wq_ok s" and xs: "xs = wait_tree s @ suspended s"
  shows "next_wait_entity None s = Some (head_or_null xs) \<and> distinct xs \<and> set xs = waiting s
    \<and> (\<forall>i < length xs. next_wait_entity (Some (xs ! i)) s = Some (if Suc i < length xs then xs ! Suc i else 0))"
proof -
  have "next_wait_entity (Some (xs ! i)) s = Some (if Suc i < length xs then xs ! Suc i else 0)" if i: "i < length xs" for i
  proof -
    have "wait_tree s @ suspended s = take i xs @ xs ! i # drop (Suc i) xs" using id_take_nth_drop [OF i] xs by simp
    from next_wait_entity_walk(2) [OF w this]
    show ?thesis by (auto simp: Cons_nth_drop_Suc [symmetric] simp del: drop_Suc)
  qed
  moreover have "distinct xs" using w wq_ok_disjoint [OF w] wq_ok_distinct [OF w] by (auto simp: wq_ok_def xs)
  ultimately show ?thesis using next_wait_entity_walk(1) [OF w] by (simp add: xs waiting_def)
qed

text \<open>
  C32: the doubly linked list of suspended threads implements the FIFO list the wait queue relies on:
  \<open>push_back\<close> and \<open>remove\<close> succeed in exactly the same cases, an assertion of the code failing in all
  others, and lead to the same list; the head and the \<open>suspended_next\<close> pointers enumerate it in order.
\<close>

theorem suspended_list_refines:
  assumes a: "susp_abs l (suspended s)" and t: "t \<noteq> 0"
  shows "rel_option (\<lambda>l' s'. susp_abs l' (suspended s')) (push_back t l) (suspended_push_back t s)
    \<and> rel_option (\<lambda>l' s'. susp_abs l' (suspended s')) (remove_susp t l) (suspended_remove t s)
    \<and> susp_head l = head_or_null (suspended s)
    \<and> (\<forall>u \<in> set (suspended s). suspended_next (links_of l u) = onext (suspended s) u)"
proof -
  have "susp_head l = head_or_null (suspended s)"
    "\<forall>u \<in> set (suspended s). suspended_next (links_of l u) = onext (suspended s) u"
    using a chain_next [of "links_of l" 0 "suspended s"] by (auto simp: susp_abs_def first_or_def head_or_null_def)
  moreover have "rel_option (\<lambda>l' s'. susp_abs l' (suspended s')) (push_back t l) (suspended_push_back t s)"
    using push_back_abs [OF a t] push_back_member [OF a, of t]
    by (cases "t \<in> set (suspended s)") (auto simp: suspended_push_back_def require_def wpo_def)
  moreover have "rel_option (\<lambda>l' s'. susp_abs l' (suspended s')) (remove_susp t l) (suspended_remove t s)"
    using remove_susp_abs [OF a, of t] remove_foreign [OF a, of t]
    by (cases "t \<in> set (suspended s)") (auto simp: suspended_remove_def require_def wpo_def)
  ultimately show ?thesis by blast
qed

theorem suspended_list_refines_witness:
  "\<exists>l l' s'. susp_abs l [2300, 3200] \<and> remove_susp 2300 l = Some l' \<and> suspended_remove 2300 sample = Some s'
    \<and> susp_abs l' (suspended s') \<and> suspended s' = [3200]"
proof -
  let ?l = "\<lparr>susp_head = 2300, susp_tail = 3200,
    links_of = (\<lambda>_. \<lparr>suspended_prev = 0, suspended_next = 0\<rparr>)
      (2300 := \<lparr>suspended_prev = 0, suspended_next = 3200\<rparr>, 3200 := \<lparr>suspended_prev = 2300, suspended_next = 0\<rparr>)\<rparr>"
  have l: "susp_abs ?l (suspended sample)" by (simp add: susp_abs_def)
  have s: "suspended_remove 2300 sample = Some (sample\<lparr>suspended := [3200]\<rparr>)"
    by (simp add: suspended_remove_def require_def)
  have "rel_option (\<lambda>l' s'. susp_abs l' (suspended s')) (remove_susp 2300 ?l) (suspended_remove 2300 sample)"
    by (rule conjunct1 [OF conjunct2 [OF suspended_list_refines [OF l]]]) simp
  then obtain l' where "remove_susp 2300 ?l = Some l'" "susp_abs l' [3200]" unfolding s by (auto simp: option_rel_Some2)
  then show ?thesis using l s by (intro exI [of _ ?l] exI [of _ l']) simp
qed

section \<open>Run queue\<close>

text \<open>
  C30: the charge of virtual runtime never overflows: \<open>elapsed\<close> ticks cost \<open>elapsed * priority / sum\<close>,
  computed exactly, and never more than the elapsed ticks while the thread's priority is part of the sum.
\<close>

theorem vruntime_charge_exact:
  assumes "prio \<noteq> 0"
  shows "\<exists>d. cfs_vruntime_delta (u64_of elapsed) prio prio_sum = Some d
    \<and> unat d = (if prio_sum = 0 then 0 else unat elapsed * unat prio div unat prio_sum)
    \<and> (prio \<le> prio_sum \<longrightarrow> d \<le> u64_of elapsed)"
proof -
  have e: "unat (u64_of elapsed) < 2 ^ 32" using unat_bound [of elapsed] by simp
  note eq = cfs_vruntime_delta_eq [OF assms e, of prio_sum]
  have "unat elapsed * unat prio div unat prio_sum \<le> unat elapsed" if "prio \<le> prio_sum" "prio_sum \<noteq> 0"
  proof -
    have "unat elapsed * unat prio \<le> unat elapsed * unat prio_sum" using that by (simp add: word_le_nat_alt)
    then show ?thesis
      using that by (metis div_le_mono nonzero_mult_div_cancel_right unat_eq_zero)
  qed
  then show ?thesis using eq by (cases "prio_sum = 0") (auto simp: word_le_nat_alt)
qed

theorem vruntime_charge_exact_witness:
  "\<exists>d. cfs_vruntime_delta (u64_of 45) 3 5 = Some d \<and> unat d = 27"
  using vruntime_charge_exact [of 3 45 5] by auto

text \<open>
  C31: a thread that enters the run queue, new or woken, is ready, takes the virtual runtime of the
  left-most queued thread, so it neither lags behind nor gets ahead, and its priority is added to the
  sum; the queue stays ordered and no other thread's state or virtual runtime changes.
\<close>

theorem run_queue_join:
  assumes "rq_ok s"
  shows "(can_join t s (priority_sum s) \<longrightarrow>
      unat (priority_sum s) + unat (priority (sched_entity (threads s t))) < 2 ^ 32 \<longrightarrow>
      wpo (enqueue_thread t s) (\<lambda>s'. joined t s s'
        \<and> unat (priority_sum s') = unat (priority_sum s) + unat (priority (sched_entity (threads s t)))))
    \<and> (can_join t s (sum_with t s) \<longrightarrow> rq_fits s (sum_with t s) \<longrightarrow>
      wpo (enqueue_runq_from_waitq t s) (\<lambda>s'. joined t s s' \<and> priority_sum s' = sum_with t s))"
  using enqueue_thread_joined [OF assms] enqueue_runq_from_waitq_joined [OF assms] by blast

theorem run_queue_join_witness:
  "wpo (enqueue_runq_from_waitq 2200 sample) (\<lambda>s'. vruntime (sched_entity (threads s' 2200)) = 30)"
proof -
  have s: "sum_with 2200 sample = 10" by (simp add: sum_with_def saturating_add_def sample_defs)
  have j: "joined_vruntime 2200 sample = 30" by (simp add: joined_vruntime_def) (simp add: sample_defs)
  have "can_join 2200 sample 10" by (simp add: can_join_def j ticks_fit_def) (simp add: sample_defs)
  moreover have "rq_fits sample 10" by (simp add: rq_fits_def ticks_fit_def) (simp add: sample_defs)
  ultimately have "wpo (enqueue_runq_from_waitq 2200 sample) (\<lambda>s'. joined 2200 sample s' \<and> priority_sum s' = sum_with 2200 sample)"
    using run_queue_join [OF kinvD(3) [OF sample_kinv], of 2200] s by simp
  then show ?thesis by (rule wpo_mono) (simp add: joined_def j)
qed

section \<open>Timer queue\<close>

text \<open>
  Putting a timer into the timer queue and taking it out again restores both trees and both cached
  first pointers, and both steps keep the queue well-formed: the cached pointers are the heads of the
  trees, and the tree a timer is in matches its active flag.
\<close>

theorem timer_queue_round_trip:
  assumes "ktq_ok s" "e \<noteq> 0" "e \<notin> queued s"
  shows "wpo (ktq_insert e act s) (\<lambda>s1. ktq_ok s1 \<and> queued s1 = insert e (queued s)
    \<and> active (ktimers s1 e) = act
    \<and> wpo (ktq_remove e s1) (\<lambda>(r, s2). r = e \<and> ktq_ok s2 \<and> active_tree s2 = active_tree s
        \<and> inactive_tree s2 = inactive_tree s \<and> first_active_node s2 = first_active_node s
        \<and> first_inactive_node s2 = first_inactive_node s))"
proof -
  note p = ktq_put_ok [OF assms, of act]
  have m: "e \<in> queued (ktq_put e act s)" by simp
  have r: "remove1 e (oinsert (ktimer_cmp s) e (active_tree s)) = active_tree s"
    "remove1 e (oinsert (ktimer_cmp s) e (inactive_tree s)) = inactive_tree s"
    "remove1 e (active_tree s) = active_tree s" "remove1 e (inactive_tree s) = inactive_tree s"
    using assms(3) by (simp_all add: queued_def kcmp.remove1_oinsert remove1_idem)
  have "active_tree (ktq_take e (ktq_put e act s)) = active_tree s \<and> inactive_tree (ktq_take e (ktq_put e act s)) = inactive_tree s
    \<and> first_active_node (ktq_take e (ktq_put e act s)) = first_active_node s
    \<and> first_inactive_node (ktq_take e (ktq_put e act s)) = first_inactive_node s"
    using r assms(1) by (simp add: ktq_take_def ktq_put_def ktq_ok_def)
  then show ?thesis
    using ktq_insert_eq [OF assms] p ktq_remove_eq [OF p m] ktq_take_ok [OF p, of e] by simp
qed

text \<open>
  The two trees of the timer queue behave as one list sorted by deadline: \<open>first\<close> is its head, \<open>last\<close>
  its last element, \<open>next\<close> the successor, whatever tree each timer is in; the next deadline is that of the
  head, and popping timers drains the list from the front.
\<close>

theorem timer_queue_walk:
  assumes k: "ktq_ok s"
  shows "ordered (ktimer_cmp s) (ktq_list s) \<and> set (ktq_list s) = queued s \<and> ktq_len s = length (ktq_list s)
    \<and> (ktq_is_empty s \<longleftrightarrow> ktq_list s = []) \<and> ktq_first s = head_or_null (ktq_list s)
    \<and> ktq_last s = (if ktq_list s = [] then 0 else last (ktq_list s))
    \<and> (\<forall>e \<in> queued s. ktq_next e s = Some (onext (ktq_list s) e))
    \<and> ktq_next_deadline s =
        (if ktq_list s = [] then None else Some (ktimer_remaining_at (ktimers s (hd (ktq_list s))) (now_ticks s)))
    \<and> wpo (ktq_drain n s) (\<lambda>(es, s'). es = take n (ktq_list s) \<and> ktq_ok s' \<and> ktq_list s' = drop n (ktq_list s))"
proof -
  note l = ktq_list_ok [OF k] and f = ktq_first_list [OF k]
  have "ktq_len s = card (queued s)"
    using ktq_ok_distinct [OF k] by (simp add: ktq_len_def queued_def card_Un_disjoint distinct_card)
  also have "\<dots> = length (ktq_list s)"
    using distinct_card [OF kcmp.ordered_distinct [OF l(1)]] l(2) by simp
  finally have n: "ktq_len s = length (ktq_list s)" .
  have "ktq_next_deadline s =
      (if ktq_list s = [] then None else Some (ktimer_remaining_at (ktimers s (hd (ktq_list s))) (now_ticks s)))"
    using f l(3) by (cases "ktq_list s") (auto simp: ktq_next_deadline_def Let_def head_or_null_def)
  then show ?thesis
    using l f n ktq_next_list [OF k] ktq_last_list [OF k] ktq_empty_list [OF k] ktq_drain_list [OF k, of n] by simp
qed

end
