(* ===== verification/TimerProps.thy ===== *)
theory TimerProps
  imports Sample
begin

text \<open>
  Properties of the kernel timers: waking, expiry dispatch, deadline misses, programming of the
  platform timer and the moves of real-time threads.
\<close>

text \<open>
  C20: the wake-up loop ends and makes ready exactly the threads whose wake-up time has come: woken CFS
  threads join the run queue, the timers of woken real-time threads are active again and due when what
  is left of their deadline has passed.
\<close>

theorem wake_exactly_expired:
  assumes "kinv s" "headroom s"
  shows "wpo (wake_wait_thread elapsed s) (\<lambda>s'. woke elapsed (expired_waiters s) s s' \<and> kinv s')"
proof -
  from wake_wait_thread_ok [OF kinvD(1) [OF assms(1)] assms(2), of elapsed] obtain s' where
    s': "wake_wait_thread elapsed s = Some s'" "woke elapsed (expired_waiters s) s s'" by (auto simp: wpo_def)
  have "kinv s'"
    using wokeD(1,7) [OF s'(2)] same_idsD(9) [OF wokeD(3) [OF s'(2)]] kinvD(6) [OF assms(1)] by (simp add: kinv_def)
  then show ?thesis using s' by simp
qed

theorem wake_exactly_expired_witness:
  "wpo (wake_wait_thread 45 (ktq_advance_time 45 sample)) (\<lambda>s'. state (threads s' 2200) = Ready \<and> 2200 \<in> set (run_tree s'))"
proof -
  have d: "kinv (ktq_advance_time 45 sample)" "headroom (ktq_advance_time 45 sample)"
    using sample_dispatch_pre by (auto simp: dispatch_pre_def)
  have "kind (threads sample 2200) = Cfs" by (simp add: sample_defs)
  then show ?thesis
    by (intro wpo_mono [OF wake_exactly_expired [OF d]])
      (auto simp: woke_def sample_tick_expired)
qed

text \<open>
  C16: the dispatch loop ends: no timer left in the queue has expired, exactly the expired waiters were
  woken, timers that had not expired keep their deadline and activity, and the selected timer is the
  earliest active one.
\<close>

theorem dispatch_ends:
  assumes "dispatch_pre elapsed s"
  shows "wpo (dispatch_expired elapsed s) (\<lambda>(e, s'). e = ktq_first_active s' \<and> kinv s' \<and> wait_armed s'
    \<and> dispatched (expired_waiters s) s s' \<and> (\<forall>k \<in> queued s'. now_ticks s' < expire_at (ktimers s' k)))"
  by (rule wpo_mono [OF dispatch_expired_ok [OF assms]])
    (auto simp: dispatch_pre_def expired_at_now_def not_le)

theorem dispatch_ends_witness:
  "wpo (dispatch_expired 45 (ktq_advance_time 45 sample)) (\<lambda>(e, s'). waiting s' = {3100, 2300, 3200})"
  by (rule wpo_mono [OF dispatch_ends [OF sample_dispatch_pre]])
    (simp add: dispatched_def sample_tick_expired insert_Diff_if case_prod_beta)

text \<open>
  C27: a real-time timer with a relative deadline of zero, which \<open>RtKTimer::new\<close> and the spawn
  validation accept, keeps the dispatch loop from ending once it is the only expired timer and its thread has
  no runtime charged: however many rounds the loop makes, none of them panics, none of them returns, and the
  same timer is the first of the queue and expired again. So the loop has no result.
\<close>

theorem dispatch_zero_deadline_hangs:
  assumes "kinv s" "e \<in> set (active_tree s)" "e \<noteq> CFS_KTIMER s" "relative_deadline_ticks (timing (ktimers s e)) = 0"
    "expire_at (ktimers s e) \<le> now_ticks s" "runtime (threads s (thread_ctx (ktimers s e))) = 0"
    "\<forall>k \<in> queued s. k \<noteq> e \<longrightarrow> now_ticks s < expire_at (ktimers s k)"
  shows "(\<forall>n. \<exists>s'. dispatch_rounds n elapsed s = Some (Inl s') \<and> ktq_first s' = e \<and> expire_at (ktimers s' e) \<le> now_ticks s')
    \<and> dispatch_expired elapsed s = None"
proof -
  have sp: "spinning e s" using assms by (auto simp: spinning_def expired_at_now_def missed_def not_le)
  have "\<exists>s'. dispatch_rounds n elapsed s = Some (Inl s') \<and> ktq_first s' = e \<and> expire_at (ktimers s' e) \<le> now_ticks s'" for n
    using spinning_rounds [OF sp, of n elapsed] spinning_first(1) by (fastforce simp: spinning_def expired_at_now_def)
  then show ?thesis using spinning_diverges [OF sp] by blast
qed

definition zero_deadline :: kstate where
  "zero_deadline =
     sample\<lparr>ktimers := sample_timers(300 := RtKTimer_new 0 3000 ''rt''),
       threads := sample_threads(3000 := sample_tcb 5 Rt Ready WaitEntity_new 0 0 0 300 0),
       active_tree := [300, 100], first_active_node := 300\<rparr>"

lemmas zero_defs = zero_deadline_def sample_defs RtKTimer_new_def RtKTimer_new_with_timing_def u64_of_def

lemma zero_deadline_kinv: "kinv zero_deadline"
proof -
  have "wq_ok zero_deadline" by (simp add: wq_ok_def wait_cmp_def cmp_defs zero_defs)
  moreover have "rq_ok zero_deadline" by (simp add: rq_ok_def sched_cmp_def cmp_defs zero_defs)
  moreover have "ktq_ok zero_deadline" by (simp add: ktq_ok_def ktimer_cmp_def cmp_defs zero_defs)
  moreover have "links zero_deadline"
    by (simp add: links_def timer_ok_def waiter_ok_def rt_linked_def waiting_def queued_def zero_defs)
  moreover have "WAIT_KTIMER zero_deadline \<in> set (inactive_tree zero_deadline)" by (simp add: zero_defs)
  ultimately show ?thesis by (simp add: kinv_def kinv0_def)
qed

theorem dispatch_zero_deadline_hangs_witness:
  "(\<exists>s'. dispatch_rounds 1000 45 zero_deadline = Some (Inl s') \<and> ktq_first s' = 300) \<and> dispatch_expired 45 zero_deadline = None"
proof -
  have "(\<forall>n. \<exists>s'. dispatch_rounds n 45 zero_deadline = Some (Inl s') \<and> ktq_first s' = 300 \<and> expire_at (ktimers s' 300) \<le> now_ticks s')
      \<and> dispatch_expired 45 zero_deadline = None"
    by (rule dispatch_zero_deadline_hangs [OF zero_deadline_kinv]) (simp_all add: zero_defs queued_def)
  then show ?thesis by blast
qed

text \<open>
  C26: a real deadline miss stops the system: when the earliest active timer belongs to a real-time
  thread, has expired, and the thread's runtime exceeds its relative deadline, both the dispatch loop
  and the selection of the next timer panic.
\<close>

theorem deadline_miss_panics:
  assumes k: "kinv s" and e: "ktq_first_active s = e" "e \<noteq> 0" "e \<noteq> CFS_KTIMER s"
    and x: "expire_at (ktimers s e) \<le> now_ticks s" and m: "missed s e"
  shows "refresh_next_ktimer s = None \<and> (ktq_first s = e \<longrightarrow> dispatch_expired elapsed s = None)"
proof -
  have ok: "ktq_ok s" using k kinvD by blast
  have a: "e \<in> set (active_tree s)" using ktq_first_active_in [OF ok] e by simp
  have q: "e \<in> queued s" "active (ktimers s e)" using a ok by (auto simp: queued_def ktq_ok_def)
  have l: "rt_linked s e" by (rule kinv0_active_linked [OF kinvD(1) [OF k] a e(3)])
  have l1: "rt_linked (ktq_take e s) e" using l by (simp add: kt_step_rt_linked [OF kt_step_take])
  have m1: "missed (ktq_take e s) e" using m by (simp add: missed_def)
  note r = ktq_remove_eq [OF ok q(1)] and rel = release_rt_miss [OF l1 TrueI m1]
  have nc: "\<not> is_cfs_ktimer e (ktq_take e s)" "\<not> is_wait_ktimer e (ktq_take e s)"
    using e rt_linkedD(5) [OF l] by (auto simp: is_cfs_ktimer_def is_wait_ktimer_def)
  have "refresh_next_ktimer s = None"
    using e x r rel nc by (simp add: refresh_next_ktimer_def Let_def ktimer_is_expired_at_def)
  moreover have "dispatch_expired elapsed s = None" if "ktq_first s = e"
    using that e(2) x r rel nc q
    by (simp add: dispatch_expired.simps [of elapsed s] dispatch_step_def Let_def ktimer_is_expired_at_def get_ktimer_def)
  ultimately show ?thesis by blast
qed

definition overdue :: kstate where
  "overdue = zero_deadline\<lparr>threads := sample_threads\<rparr>"

lemma overdue_kinv: "kinv overdue"
proof -
  have "wq_ok overdue" by (simp add: wq_ok_def wait_cmp_def cmp_defs overdue_def zero_defs)
  moreover have "rq_ok overdue" by (simp add: rq_ok_def sched_cmp_def cmp_defs overdue_def zero_defs)
  moreover have "ktq_ok overdue" by (simp add: ktq_ok_def ktimer_cmp_def cmp_defs overdue_def zero_defs)
  moreover have "links overdue"
    by (simp add: links_def timer_ok_def waiter_ok_def rt_linked_def waiting_def queued_def overdue_def zero_defs)
  moreover have "WAIT_KTIMER overdue \<in> set (inactive_tree overdue)" by (simp add: overdue_def zero_defs)
  ultimately show ?thesis by (simp add: kinv_def kinv0_def)
qed

theorem deadline_miss_panics_witness: "refresh_next_ktimer overdue = None"
proof -
  have "ktq_first_active overdue = 300" "CFS_KTIMER overdue = 100" "expire_at (ktimers overdue 300) \<le> now_ticks overdue"
    "missed overdue 300"
    by (simp_all add: overdue_def zero_defs ktq_first_active_def missed_def)
  then show ?thesis using deadline_miss_panics [OF overdue_kinv, of 300] by simp
qed

section \<open>The platform timer\<close>

lemma unat_writable_reload: "unat (writable_reload r) = max 1 (min (unat r) (2 ^ 24 - 1))"
  by (simp add: writable_reload_def SCHEDULER_TIMER_RELOAD_MIN_def SCHEDULER_TIMER_RELOAD_MAX_def
      max_def min_def word_le_nat_alt)

lemma unat_ucast_min: "unat (ucast (min d (u64_of SCHEDULER_TIMER_RELOAD_MAX)) :: u32) = min (unat d) (2 ^ 24 - 1)"
  for d :: u64
proof -
  have "unat (min d (u64_of SCHEDULER_TIMER_RELOAD_MAX)) = min (unat d) (2 ^ 24 - 1)"
    by (simp add: min_def word_le_nat_alt SCHEDULER_TIMER_RELOAD_MAX_def)
  then show ?thesis by (simp add: unsigned_ucast_eq take_bit_nat_eq_self)
qed

lemma unat_programmable: "unat (programmable_reload_from_ticks t) + 1 \<le> max 2 (unat t)"
proof (cases "t = 0")
  case True
  then show ?thesis
    by (simp add: programmable_reload_from_ticks_def reload_from_ticks_def checked_sub_def unat_writable_reload)
next
  case False
  then have t: "1 \<le> t" "unat (t - 1) = unat t - 1" by (simp_all add: word_le_nat_alt unat_minus_one_pos Suc_le_eq unat_gt_0)
  have p: "0 < unat t" using False by (simp add: unat_gt_0)
  show ?thesis
  proof (cases "t - 1 \<le> SCHEDULER_TIMER_RELOAD_MAX")
    case True
    then show ?thesis
      using t p by (simp add: programmable_reload_from_ticks_def reload_from_ticks_def checked_sub_def unat_writable_reload)
  next
    case big: False
    then have "2 ^ 24 - 1 < unat t - 1" using t(2) by (simp add: word_le_nat_alt SCHEDULER_TIMER_RELOAD_MAX_def)
    then show ?thesis
      using t False big
      by (simp add: programmable_reload_from_ticks_def reload_from_ticks_def checked_sub_def unat_writable_reload)
  qed
qed

lemma reload_before_deadline:
  assumes "scheduler_timer_reload_for_entity e s = Some v" "expire_at (ktimers s e) \<noteq> KTIMER_EXPIRE_NEVER"
  shows "unat v + 1 \<le> max 2 (unat (expire_at (ktimers s e)) - unat (now_ticks s))"
proof (cases "is_cfs_ktimer e s")
  case True
  let ?r = "min (ktimer_remaining_at (ktimers s e) (now_ticks s)) (relative_deadline_ticks (timing (ktimers s e)))"
  have "unat ?r \<le> unat (ktimer_remaining_at (ktimers s e) (now_ticks s))" by (simp add: min_def word_le_nat_alt)
  also have "\<dots> \<le> unat (expire_at (ktimers s e)) - unat (now_ticks s)"
    using assms(2) by (simp add: ktimer_remaining_at_def unat_ucast_min unat_saturating_sub)
  finally show ?thesis
    using assms(1) True unat_programmable [of ?r]
    by (auto simp: scheduler_timer_reload_for_entity_def Let_def split: if_splits)
next
  case False
  then show ?thesis
    using assms(1)
    by (auto simp: scheduler_timer_reload_for_entity_def Let_def unat_writable_reload unat_ucast_min unat_saturating_sub
        split: if_splits)
qed

text \<open>
  C28: programming the platform timer always completes; the reload value fits the 24-bit counter and is
  not zero, is the value written, and makes the timer fire no later than the earliest deadline, or after
  the shortest programmable interval of two ticks.
\<close>

theorem timer_reload_in_range:
  "wpo (program_next_scheduler_timer s) (\<lambda>(r, s').
    (r = None \<and> s' = s \<and> ktq_first s = 0)
    \<or> (\<exists>v. r = Some v \<and> 1 \<le> v \<and> unat v < 2 ^ 24
        \<and> timer_reload s' = (if timer_reload s = None then None else Some v)
        \<and> (expire_at (ktimers s (ktq_first s)) = KTIMER_EXPIRE_NEVER
           \<or> unat v + 1 \<le> max 2 (unat (expire_at (ktimers s (ktq_first s))) - unat (now_ticks s)))))"
proof (cases "scheduler_timer_reload_for_entity (ktq_first s) s")
  case None
  then have "ktq_first s = 0" by (auto simp: scheduler_timer_reload_for_entity_def Let_def split: if_splits)
  then show ?thesis using None by (simp add: program_next_scheduler_timer_def)
next
  case (Some v)
  note r = reload_for_entity_range [OF Some]
  have "unat v < 2 ^ 24" "1 \<le> v"
    using r by (simp_all add: SCHEDULER_TIMER_RELOAD_MIN_def SCHEDULER_TIMER_RELOAD_MAX_def word_le_nat_alt)
  then show ?thesis
    using r Some reload_before_deadline [OF Some]
    by (auto simp: program_next_scheduler_timer_def require_def program_scheduler_timer_reload_def split: option.splits)
qed

section \<open>Moves of real-time threads\<close>

text \<open>
  Moving a runnable real-time thread to the wait queue takes its timer out of the timer queue, blocks
  the thread, arms the wait timer with the earliest wake-up time and keeps every other thread's state;
  waking a blocked one puts its timer back among the active timers with its deadline unchanged.
\<close>

theorem rt_block_and_wake:
  assumes "kinv s" "no_overdue s"
  shows "(runnable_rt s t \<longrightarrow>
      wpo (dequeue_ktimerq_to_waitq t s) (\<lambda>(r, s'). r = Inr () \<and> blocked t s s' \<and> wait_armed s'
        \<and> queued s' = queued s - {ktimer_entity (threads s t)} \<and> run_tree s' = run_tree s))
    \<and> (t \<in> waiting s \<longrightarrow> kind (threads s t) = Rt \<longrightarrow>
        (expire_at (ktimers s (ktimer_entity (threads s t))) \<le> now_ticks s \<longrightarrow> \<not> missed s (ktimer_entity (threads s t))) \<longrightarrow>
      wpo (enqueue_ktimerq_from_waitq t s) (\<lambda>(r, s'). r = Inr () \<and> unblocked t s s' \<and> wait_armed s'
        \<and> set (active_tree s') = insert (ktimer_entity (threads s t)) (set (active_tree s)) \<and> keeps_deadlines s s'))"
proof (intro conjI impI)
  show "wpo (dequeue_ktimerq_to_waitq t s) (\<lambda>(r, s'). r = Inr () \<and> blocked t s s' \<and> wait_armed s'
        \<and> queued s' = queued s - {ktimer_entity (threads s t)} \<and> run_tree s' = run_tree s)" if "runnable_rt s t"
    by (rule dequeue_ktimerq_to_waitq_ok [OF assms that])
  show "wpo (enqueue_ktimerq_from_waitq t s) (\<lambda>(r, s'). r = Inr () \<and> unblocked t s s' \<and> wait_armed s'
        \<and> set (active_tree s') = insert (ktimer_entity (threads s t)) (set (active_tree s)) \<and> keeps_deadlines s s')"
    if "t \<in> waiting s" "kind (threads s t) = Rt"
      "expire_at (ktimers s (ktimer_entity (threads s t))) \<le> now_ticks s \<longrightarrow> \<not> missed s (ktimer_entity (threads s t))"
    by (rule wpo_mono [OF enqueue_ktimerq_from_waitq_ok [OF assms that]]) (simp add: case_prod_beta)
qed

end
