(* ===== verification/SchedProps.thy ===== *)
theory SchedProps
  imports Sample
begin

text \<open>
  Properties of the scheduler: the scheduling decision, the tick, yielding, sleeping, and the
  invariant of all reachable states.
\<close>

text \<open>
  C13: the context switch completes and decides correctly: with no runnable timer or an inactive or
  empty CFS queue the idle thread runs, with the CFS timer selected a runnable CFS thread with the least
  virtual runtime runs (the outgoing thread included), with a real-time timer selected its thread runs.
  The chosen thread is the only running one, no runnable CFS thread is lost, and the invariant holds.
\<close>

theorem schedule_decides:
  assumes "sched_inv s" "charge_fits (elapsed_ticks_since_last_interrupt s) s"
    "NEXT_KTIMER s \<noteq> 0 \<longrightarrow> NEXT_KTIMER s \<in> queued s \<and> NEXT_KTIMER s \<noteq> WAIT_KTIMER s"
  shows "wpo (schedule s) (\<lambda>s'. sched_inv s' \<and> runnable_set s' = runnable_set s
    \<and> selected s (after_charge (elapsed_ticks_since_last_interrupt s) s) (CURRENT_THREAD_CTX s')
    \<and> (\<forall>u. state (threads s' u) = Running \<longleftrightarrow> u = CURRENT_THREAD_CTX s'))"
proof (rule wpo_mono [OF schedule_ok])
  fix s' assume d: "decided s s'"
  note dd = d [unfolded decided_def]
  have "state (threads s' u) = Running \<longleftrightarrow> u = CURRENT_THREAD_CTX s'" for u
    using dd sched_invD(7) [of s' u] by auto
  then show "sched_inv s' \<and> runnable_set s' = runnable_set s
    \<and> selected s (after_charge (elapsed_ticks_since_last_interrupt s) s) (CURRENT_THREAD_CTX s')
    \<and> (\<forall>u. state (threads s' u) = Running \<longleftrightarrow> u = CURRENT_THREAD_CTX s')"
    using dd by blast
qed (use assms in auto)

lemma sample_charge: "charge_fits 45 sample"
  by (simp add: charge_fits_def charge_ticks_def) (simp add: sample_defs)

theorem schedule_decides_witness: "wpo (schedule sample) (\<lambda>s'. CURRENT_THREAD_CTX s' = 2100)"
proof -
  let ?a = "after_charge 45 sample"
  have p: "pays sample" by (simp add: pays_def) (simp add: sample_defs)
  have ct: "charge_ticks 45 sample = 27" by (simp add: charge_ticks_def) (simp add: sample_defs)
  have v: "vruntime (sched_entity (threads ?a 2000)) = 67" "vruntime (sched_entity (threads ?a 2100)) = 30"
    using p ct by (simp_all add: after_charge_def paid_def) (simp_all add: sample_defs)
  have r: "runnable_set sample = {2000, 2100}" by (auto simp: runnable_set_def is_blocked_def) (simp add: sample_defs)
  have "\<not> to_idle sample" by (simp add: to_idle_def) (simp add: sample_defs)
  then have sel: "n = 2100" if "selected sample ?a n" for n
    using that v by (auto simp: selected_def r)
  show ?thesis
    by (rule wpo_mono [OF schedule_decides [OF sample_sched_inv]]) (use sample_charge sel in auto)
qed

text \<open>
  C21: the timer interrupt completes: time advances by the programmed interval, expired waiters are made
  ready and no timer is left expired, the earliest active timer is selected, a context switch is
  requested, and the running thread has not changed yet.
\<close>

theorem tick_dispatches:
  assumes "SCHEDULER_STARTED s"
    "dispatch_pre (elapsed_ticks_since_last_interrupt s) (advance_ktimers (elapsed_ticks_since_last_interrupt s) s)"
  shows "wpo (handle_sched_tick s) (\<lambda>s'. kinv s' \<and> pendsv s' \<and> NEXT_KTIMER s' = ktq_first_active s'
    \<and> now_ticks s' = saturating_add (now_ticks s) (u64_of (elapsed_ticks_since_last_interrupt s))
    \<and> (\<forall>k \<in> queued s'. now_ticks s' < expire_at (ktimers s' k)) \<and> CURRENT_THREAD_CTX s' = CURRENT_THREAD_CTX s
    \<and> waiting s' = waiting s - expired_waiters (advance_ktimers (elapsed_ticks_since_last_interrupt s) s))"
proof (rule wpo_mono [OF handle_sched_tick_ok [OF assms]])
  let ?el = "elapsed_ticks_since_last_interrupt s"
  let ?s0 = "advance_ktimers ?el s"
  fix s' assume h: "pendsv s' \<and> NEXT_KTIMER s' = ktq_first_active s' \<and> (\<exists>x. dispatched (expired_waiters ?s0) ?s0 x
      \<and> dispatch_pre ?el x \<and> same_core x s' \<and> same_run x s' \<and> (\<forall>k\<in>queued x. \<not> expired_at_now x k))"
  then obtain x where x: "dispatched (expired_waiters ?s0) ?s0 x" "dispatch_pre ?el x" "same_core x s'" "same_run x s'"
    "\<forall>k\<in>queued x. \<not> expired_at_now x k" by blast
  note D = dispatchedD [OF x(1)] and C = same_core_inv [OF x(3)]
  have k: "ktimers s' = ktimers x" "now_ticks s' = now_ticks x" using x(3) by (simp_all add: same_core_def)
  have c: "CURRENT_THREAD_CTX s' = CURRENT_THREAD_CTX s"
    using x(4) same_idsD(10) [OF D(1)] by (simp add: same_run_def advance_ktimers_def) (simp add: ktq_advance_time_def)
  show "kinv s' \<and> pendsv s' \<and> NEXT_KTIMER s' = ktq_first_active s'
    \<and> now_ticks s' = saturating_add (now_ticks s) (u64_of ?el)
    \<and> (\<forall>k \<in> queued s'. now_ticks s' < expire_at (ktimers s' k)) \<and> CURRENT_THREAD_CTX s' = CURRENT_THREAD_CTX s
    \<and> waiting s' = waiting s - expired_waiters ?s0"
    using h x(2,5) C D(2,3) k c by (simp add: dispatch_pre_def expired_at_now_def not_le advance_ktimers_def)
qed

theorem tick_dispatches_witness:
  "wpo (handle_sched_tick sample) (\<lambda>s'. waiting s' = {3100, 2300, 3200} \<and> CURRENT_THREAD_CTX s' = 2000 \<and> pendsv s')"
proof -
  have "dispatch_pre (elapsed_ticks_since_last_interrupt sample) (advance_ktimers (elapsed_ticks_since_last_interrupt sample) sample)"
    using sample_dispatch_pre by (simp add: advance_ktimers_def)
  note t = tick_dispatches [OF sample_queues(14) this]
  have "waiting sample - expired_waiters (advance_ktimers 45 sample) = {3100, 2300, 3200}"
    by (simp add: advance_ktimers_def sample_tick_expired insert_Diff_if)
  then show ?thesis by (intro wpo_mono [OF t]) simp
qed

text \<open>
  C22: yielding takes the running thread's timer out of the active tree until its next period: the timer
  is due when the rest of the period has passed, a real-time thread starts a new job window with runtime
  zero, the other timers are untouched, and the earliest active timer is selected for the context switch.
\<close>

theorem yield_gives_up_period:
  assumes "kinv s" "can_yield s"
  shows "wpo (yieldyi s) (\<lambda>s'. kinv s' \<and> pendsv s' \<and> NEXT_KTIMER s' = ktq_first_active s'
    \<and> own_timer s \<notin> set (active_tree s') \<and> own_timer s \<in> set (inactive_tree s')
    \<and> expire_at (ktimers s' (own_timer s)) = saturating_add (now_ticks s')
        (u64_of (yield_ticks (own_timer s) (elapsed_ticks_since_current_reload s) s))
    \<and> (\<forall>k. k \<noteq> own_timer s \<longrightarrow> ktimers s' k = ktimers s k)
    \<and> (kind (threads s (CURRENT_THREAD_CTX s)) = Rt \<longrightarrow> own_timer s \<noteq> CFS_KTIMER s \<longrightarrow>
         runtime (threads s' (thread_ctx (ktimers s (own_timer s)))) = 0))"
proof (rule wpo_mono [OF yieldyi_ok [OF assms]])
  fix s' assume h: "kinv s' \<and> pendsv s' \<and> NEXT_KTIMER s' = ktq_first_active s' \<and> same_run s s'
      \<and> (\<exists>s1. yielded (own_timer s) (elapsed_ticks_since_current_reload s) True s s1 \<and> same_core s1 s')"
  then obtain s1 where s1: "yielded (own_timer s) (elapsed_ticks_since_current_reload s) True s s1" "same_core s1 s'" by blast
  then show "kinv s' \<and> pendsv s' \<and> NEXT_KTIMER s' = ktq_first_active s'
    \<and> own_timer s \<notin> set (active_tree s') \<and> own_timer s \<in> set (inactive_tree s')
    \<and> expire_at (ktimers s' (own_timer s)) = saturating_add (now_ticks s')
        (u64_of (yield_ticks (own_timer s) (elapsed_ticks_since_current_reload s) s))
    \<and> (\<forall>k. k \<noteq> own_timer s \<longrightarrow> ktimers s' k = ktimers s k)
    \<and> (kind (threads s (CURRENT_THREAD_CTX s)) = Rt \<longrightarrow> own_timer s \<noteq> CFS_KTIMER s \<longrightarrow>
         runtime (threads s' (thread_ctx (ktimers s (own_timer s)))) = 0)"
    using h by (simp add: yielded_def same_core_def)
qed

theorem yield_gives_up_period_witness:
  "wpo (yieldyi sample) (\<lambda>s'. 100 \<in> set (inactive_tree s') \<and> 100 \<notin> set (active_tree s') \<and> ktimers s' 300 = ktimers sample 300)"
proof -
  have "can_yield sample" by (rule can_block_yield(1) [OF sample_kinv sample_can_block])
  moreover have "own_timer sample = 100" by (simp add: own_timer_def) (simp add: sample_defs)
  ultimately show ?thesis by (intro wpo_mono [OF yield_gives_up_period [OF sample_kinv]]) auto
qed

text \<open>
  C23: a sleeping thread is blocked in the wait queue with the wake-up time \<open>msec\<close> milliseconds from now
  (saturating), its timer leaves the queue if it is a real-time thread, the wait timer is armed with the
  earliest wake-up time, no other thread changes state, and a context switch is requested.
\<close>

theorem sleep_blocks:
  assumes "kinv s" "can_block s" "no_overdue (ktq_advance_time (elapsed_ticks_since_current_reload s) s)"
  shows "wpo (msleepyi msec s) (\<lambda>s'. kinv s' \<and> wait_armed s' \<and> pendsv s'
    \<and> waiting s' = insert (CURRENT_THREAD_CTX s) (waiting s)
    \<and> is_blocked (state (threads s' (CURRENT_THREAD_CTX s)))
    \<and> wake_at (wait_entity (threads s' (CURRENT_THREAD_CTX s))) =
        saturating_add (now_ticks s') (u64_of (saturating_mul msec (ticks_per_ms s)))
    \<and> (\<forall>u. u \<noteq> CURRENT_THREAD_CTX s \<longrightarrow> state (threads s' u) = state (threads s u))
    \<and> queued s' = (if CURRENT_THREAD_IS_CFS s then queued s else queued s - {own_timer s}))"
  by (rule wpo_mono [OF msleepyi_ok [OF assms]]) simp

theorem sleep_blocks_witness:
  "wpo (msleepyi 5 sample) (\<lambda>s'. 2000 \<in> waiting s' \<and> wait_armed s' \<and> state (threads s' 2100) = Ready)"
proof -
  have "state (threads sample 2100) = Ready" by (simp add: sample_defs)
  then show ?thesis
    by (intro wpo_mono [OF sleep_blocks [OF sample_kinv sample_can_block]]) (simp_all add: sample_no_overdue)
qed

text \<open>
  In every state reachable from a started system by timer interrupts, yields and sleeps, the
  scheduler invariant holds and exactly one thread is running, the current one.
\<close>

theorem reachable_one_running:
  assumes "run_inv s0" "reachable s0 s"
  shows "sched_inv s \<and> (\<forall>u. state (threads s u) = Running \<longleftrightarrow> u = CURRENT_THREAD_CTX s)"
  using reachable_inv [OF assms(2,1)] sched_invD(7) [of s] by (auto simp: run_inv_def)

text \<open>
  The scheduler does not panic: from every reachable state every admissible event, followed by the
  context switch it requests, completes.
\<close>

theorem reachable_progress:
  assumes "run_inv s0" "reachable s0 s" "admissible e s"
  shows "\<exists>s1 s'. deliver e s = Some s1 \<and> PendSV s1 = Some s' \<and> reachable s0 s'"
proof -
  from kernel_step_ok [OF reachable_inv [OF assms(2,1)] assms(3)] obtain s' where s': "kernel_step s e s'" by blast
  then show ?thesis using reach_step [OF assms(2) s'] by (auto elim: kernel_stepE)
qed

end
