(* ===== verification/SyncProps.thy ===== *)
theory SyncProps
  imports Sample
begin

text \<open>Properties of the semaphores and of the mutex.\<close>

section \<open>Semaphores\<close>

text \<open>
  Taking a binary semaphore consumes the token, or blocks the current thread: it is suspended
  without a timeout, entered among the waiters by its scheduler deadline, and a context switch is
  requested. The value (the token less the waiters) goes down by one either way.
\<close>

theorem binary_take:
  assumes "sem_inv (unat (available b)) 1 (bin_waiters b) s" "kinv s"
    "available b = 0 \<longrightarrow> can_block s \<and> no_overdue (ktq_advance_time (elapsed_ticks_since_current_reload s) s)"
  shows "wpo (bin_take b s) (\<lambda>(r, b', s'). r = Inr () \<and> sem_inv (unat (available b')) 1 (bin_waiters b') s' \<and> kinv s'
    \<and> sem_value (unat (available b')) (bin_waiters b') = sem_value (unat (available b)) (bin_waiters b) - 1
    \<and> (if 0 < unat (available b) then s' = s
       else sync_blocked SyncBinarySemaphore s s' \<and> pendsv s'
         \<and> set (bin_waiters b') = insert (CURRENT_THREAD_CTX s) (set (bin_waiters b))))"
  by (rule wpo_mono [OF bin.take_ok [OF assms(1,2)]]) (use assms(3) in \<open>simp_all add: case_prod_beta unsigned_eq_0_iff\<close>)

text \<open>
  C29: giving a binary semaphore wakes the waiter with the earliest scheduler deadline, which gets the
  token directly, or stores the token; giving a token that is already there is refused as \<open>Full\<close> and
  changes nothing.
\<close>

theorem binary_give:
  assumes "sem_inv (unat (available b)) 1 (bin_waiters b) s" "kinv s" "no_overdue s"
    "bin_waiters b \<noteq> [] \<longrightarrow> can_wake s (hd (bin_waiters b))"
  shows "wpo (bin_give b s) (\<lambda>(r, b', s'). kinv s' \<and> sem_inv (unat (available b')) 1 (bin_waiters b') s'
    \<and> (if sem_value (unat (available b)) (bin_waiters b) = 1 then r = Inl SemFull \<and> b' = b \<and> s' = s
       else r = Inr () \<and> sem_value (unat (available b')) (bin_waiters b') = sem_value (unat (available b)) (bin_waiters b) + 1)
    \<and> (bin_waiters b \<noteq> [] \<longrightarrow> unblocked (hd (bin_waiters b)) s s' \<and> bin_waiters b' = tl (bin_waiters b) \<and> pendsv s'
         \<and> (\<forall>u \<in> set (tl (bin_waiters b)).
              deadline_at (sync_entity (threads s (hd (bin_waiters b)))) \<le> deadline_at (sync_entity (threads s u)))))"
  by (rule wpo_mono [OF bin.give_ok [OF assms(1-3)]]) (use assms(4) in \<open>simp_all add: case_prod_beta\<close>)

lemma sample_can_wake: "can_wake sample 2300" "can_wake sample 3200"
  by (simp_all add: can_wake_def sample_headroom) (simp_all add: sample_defs)

theorem binary_give_witness:
  "wpo (bin_give \<lparr>available = 0, bin_waiters = [2300, 3200]\<rparr> sample) (\<lambda>(r, b', s').
     bin_waiters b' = [3200] \<and> state (threads s' 2300) = Ready)"
  by (rule wpo_mono [OF binary_give])
    (use sample_sync_ok sample_kinv sample_no_overdue0 sample_can_wake in \<open>auto simp: sem_inv_def unblocked_def\<close>)

text \<open>
  A counting semaphore takes a token or blocks and gives to the earliest waiter or stores up to
  \<open>max_count\<close> tokens: its value moves by one on every successful operation and never exceeds the
  maximum.
\<close>

theorem counting_value:
  assumes i: "sem_inv (unat (sem_count b)) (unat (sem_max_count b)) (cnt_waiters b) s" and k: "kinv s"
  shows "(can_block s \<longrightarrow> no_overdue (ktq_advance_time (elapsed_ticks_since_current_reload s) s) \<longrightarrow>
      wpo (cnt_take b s) (\<lambda>(r, b', s'). r = Inr () \<and> kinv s'
        \<and> sem_inv (unat (sem_count b')) (unat (sem_max_count b')) (cnt_waiters b') s'
        \<and> sem_value (unat (sem_count b')) (cnt_waiters b') = sem_value (unat (sem_count b)) (cnt_waiters b) - 1))
    \<and> (no_overdue s \<longrightarrow> (cnt_waiters b \<noteq> [] \<longrightarrow> can_wake s (hd (cnt_waiters b))) \<longrightarrow>
      wpo (cnt_give b s) (\<lambda>(r, b', s'). kinv s'
        \<and> sem_inv (unat (sem_count b')) (unat (sem_max_count b')) (cnt_waiters b') s' \<and> sem_max_count b' = sem_max_count b
        \<and> (if sem_value (unat (sem_count b)) (cnt_waiters b) = int (unat (sem_max_count b)) then r = Inl SemFull \<and> b' = b \<and> s' = s
           else r = Inr () \<and> sem_value (unat (sem_count b')) (cnt_waiters b') = sem_value (unat (sem_count b)) (cnt_waiters b) + 1)))"
proof (intro conjI impI)
  assume c: "can_block s" "no_overdue (ktq_advance_time (elapsed_ticks_since_current_reload s) s)"
  show "wpo (cnt_take b s) (\<lambda>(r, b', s'). r = Inr () \<and> kinv s'
        \<and> sem_inv (unat (sem_count b')) (unat (sem_max_count b')) (cnt_waiters b') s'
        \<and> sem_value (unat (sem_count b')) (cnt_waiters b') = sem_value (unat (sem_count b)) (cnt_waiters b) - 1)"
    by (rule wpo_mono [OF cnt.take_ok [OF i k c]]) (auto simp: case_prod_beta)
next
  assume c: "no_overdue s" "cnt_waiters b \<noteq> [] \<longrightarrow> can_wake s (hd (cnt_waiters b))"
  show "wpo (cnt_give b s) (\<lambda>(r, b', s'). kinv s'
        \<and> sem_inv (unat (sem_count b')) (unat (sem_max_count b')) (cnt_waiters b') s' \<and> sem_max_count b' = sem_max_count b
        \<and> (if sem_value (unat (sem_count b)) (cnt_waiters b) = int (unat (sem_max_count b)) then r = Inl SemFull \<and> b' = b \<and> s' = s
           else r = Inr () \<and> sem_value (unat (sem_count b')) (cnt_waiters b') = sem_value (unat (sem_count b)) (cnt_waiters b) + 1))"
  proof (rule wpo_mono [OF cnt.give_ok [OF i k c(1)]])
    show "can_wake s (hd (cnt_waiters b))" if "cnt_waiters b \<noteq> []" using that c(2) by simp
  qed (auto simp: case_prod_beta word_unat_eq_iff)
qed

text \<open>
  Blocking operations outside a scheduler thread fail without an effect: with no current thread
  a take reports \<open>NoCurrentThread\<close>, and the idle thread cannot be blocked.
\<close>

theorem take_needs_thread:
  assumes "available b = 0"
  shows "(CURRENT_THREAD_CTX s = 0 \<longrightarrow> bin_take b s = Some (Inl SemNoCurrentThread, b, s))
    \<and> (CURRENT_THREAD_CTX s \<noteq> 0 \<longrightarrow> kind (threads s (CURRENT_THREAD_CTX s)) = Idle \<longrightarrow>
        bin_take b s = Some (Inl (SemWaitQueue NotFound), b, s))"
proof -
  have b: "b\<lparr>available := 0\<rparr> = b" "b\<lparr>bin_waiters := bin_waiters b\<rparr> = b" using assms by simp_all
  show ?thesis
    using assms b
    by (simp add: bin_take_def bin_try_take_def decrement_word_eq current_thread_handle_def block_current_thread_on_def
        block_current_thread_def get_thread_def require_def)
qed

theorem take_needs_thread_witness:
  "bin_take \<lparr>available = 0, bin_waiters = []\<rparr> (sample\<lparr>CURRENT_THREAD_CTX := 0\<rparr>)
     = Some (Inl SemNoCurrentThread, \<lparr>available = 0, bin_waiters = []\<rparr>, sample\<lparr>CURRENT_THREAD_CTX := 0\<rparr>)"
  using take_needs_thread [of "\<lparr>available = 0, bin_waiters = []\<rparr>" "sample\<lparr>CURRENT_THREAD_CTX := 0\<rparr>"] by simp

section \<open>Mutex\<close>

text \<open>
  C17: locking a contended mutex suspends the current thread among the waiters and inherits priority: the
  owner's deadline is afterwards no later than that of the thread that now waits for it, unless both are
  CFS threads, which share one timer.
\<close>

theorem mutex_lock_inherits:
  assumes "kinv s" "can_block s" "between_ticks s" "mtx_ok m s" "has_timer s (owner m)" "owner m \<noteq> CURRENT_THREAD_CTX s"
  shows "wpo (lock m s) (\<lambda>(r, m', s'). r = Inr () \<and> kinv s' \<and> mtx_ok m' s' \<and> owner m' = owner m
    \<and> set (mtx_waiters m') = insert (CURRENT_THREAD_CTX s) (set (mtx_waiters m))
    \<and> state (threads s' (CURRENT_THREAD_CTX s)) = Suspended \<and> pendsv s'
    \<and> (both_cfs (owner m) (CURRENT_THREAD_CTX s) s
       \<or> deadline_of (owner m) s' \<le> expire_at (ktimers s (own_timer s))))"
  by (rule wpo_mono [OF lock_contended_ok [OF assms]]) (simp add: case_prod_beta)

definition sample_mutex :: "addr \<Rightarrow> MutexState" where
  "sample_mutex t = \<lparr>owner = t, mtx_waiters = [3200], owner_original_deadline_at = 0, owner_boosted = False\<rparr>"

theorem mutex_lock_inherits_witness:
  "wpo (lock (sample_mutex 3000) sample) (\<lambda>(r, m', s'). set (mtx_waiters m') = {2000, 3200} \<and> deadline_of 3000 s' \<le> 70)"
proof -
  have o: "own_timer sample = 100" "expire_at (ktimers sample 100) = 70" by (simp_all add: own_timer_def) (simp_all add: sample_defs)
  have m: "mtx_ok (sample_mutex 3000) sample" using sample_sync_ok by (simp add: mtx_ok_def sample_mutex_def)
  have t: "has_timer sample 3000" using sample_links by (simp add: has_timer_def) (simp add: sample_defs)
  have b: "between_ticks sample"
    by (simp add: between_ticks_def unexpired_def saturating_add_def u64_of_def) (simp add: sample_defs)
  have c: "\<not> both_cfs 3000 2000 sample" by (simp add: both_cfs_def) (simp add: sample_defs)
  show ?thesis
    by (rule wpo_mono [OF mutex_lock_inherits [OF sample_kinv sample_can_block b m]])
      (use t c o in \<open>auto simp: sample_mutex_def\<close>)
qed

text \<open>
  C18: unlocking hands the mutex to the waiter with the earliest deadline, which becomes ready, or frees
  it; the owner's own deadline is restored if it had been boosted.
\<close>

theorem mutex_unlock_hands_over:
  assumes "kinv s" "settled s" "mtx_ok m s" "owner m = CURRENT_THREAD_CTX s" "has_timer s (owner m)"
    "owner_boosted m \<longrightarrow> now_ticks s < owner_original_deadline_at m"
    "mtx_waiters m \<noteq> [] \<longrightarrow> can_wake s (hd (mtx_waiters m))" "owner m \<notin> waiting s"
  shows "wpo (unlock_guard m s) (\<lambda>(r, m', s'). r = Inr () \<and> kinv s' \<and> mtx_ok m' s' \<and> \<not> owner_boosted m'
    \<and> owner m' = head_or_null (mtx_waiters m) \<and> mtx_waiters m' = tl (mtx_waiters m)
    \<and> (mtx_waiters m \<noteq> [] \<longrightarrow> state (threads s' (owner m')) = Ready \<and> waiting s' = waiting s - {owner m'} \<and> pendsv s')
    \<and> (owner_boosted m \<longrightarrow> deadline_of (owner m) s' = owner_original_deadline_at m))"
  by (rule wpo_mono [OF unlock_ok]) (use assms in auto)

theorem mutex_unlock_hands_over_witness:
  "wpo (unlock_guard (sample_mutex 2000) sample) (\<lambda>(r, m', s'). owner m' = 3200 \<and> state (threads s' 3200) = Ready)"
proof -
  have m: "mtx_ok (sample_mutex 2000) sample" using sample_sync_ok by (simp add: mtx_ok_def sample_mutex_def)
  have t: "has_timer sample 2000" by (simp add: has_timer_def) (simp add: sample_defs)
  have st: "settled sample" using kinvD(4) [OF sample_kinv] by (simp add: settled_def) (simp add: sample_defs)
  show ?thesis
    by (rule wpo_mono [OF mutex_unlock_hands_over [OF sample_kinv st m]])
      (use t sample_can_wake in \<open>simp_all add: sample_mutex_def case_prod_beta, elim conjE, simp\<close>)
qed

text \<open>
  Without contention locking and unlocking is a round trip, and the refusals change nothing: locking
  a mutex the thread already owns is \<open>WouldDeadlock\<close>, trying one that another thread owns is
  \<open>WouldBlock\<close>, and without a current thread every attempt is \<open>NoCurrentThread\<close>.
\<close>

theorem mutex_uncontended:
  "(CURRENT_THREAD_CTX s = 0 \<longrightarrow> try_lock m s = Some (Inl MtxNoCurrentThread, m, s) \<and> lock m s = Some (Inl MtxNoCurrentThread, m, s))
   \<and> (CURRENT_THREAD_CTX s \<noteq> 0 \<longrightarrow> owner m = 0 \<longrightarrow>
       lock m s = Some (Inr (), m\<lparr>owner := CURRENT_THREAD_CTX s\<rparr>, s) \<and> try_lock m s = lock m s
       \<and> (mtx_waiters m = [] \<longrightarrow> \<not> owner_boosted m \<longrightarrow>
            unlock_guard (m\<lparr>owner := CURRENT_THREAD_CTX s\<rparr>) s = Some (Inr (), m, s)))
   \<and> (CURRENT_THREAD_CTX s \<noteq> 0 \<longrightarrow> owner m = CURRENT_THREAD_CTX s \<longrightarrow>
       lock m s = Some (Inl MtxWouldDeadlock, m, s) \<and> try_lock m s = lock m s)
   \<and> (CURRENT_THREAD_CTX s \<noteq> 0 \<longrightarrow> owner m \<noteq> 0 \<longrightarrow> owner m \<noteq> CURRENT_THREAD_CTX s \<longrightarrow>
       try_lock m s = Some (Inl MtxWouldBlock, m, s))"
proof -
  let ?c = "CURRENT_THREAD_CTX s"
  have rst: "m\<lparr>owner := 0, mtx_waiters := []\<rparr> = m" if "owner m = 0" "mtx_waiters m = []"
    using that by (cases m) simp
  have no: "try_lock m s = Some (Inl MtxNoCurrentThread, m, s)" "lock m s = Some (Inl MtxNoCurrentThread, m, s)" if "?c = 0"
    using that by (simp_all add: try_lock_def lock_def current_thread_handle_def)
  have un: "unlock_guard (m\<lparr>owner := ?c\<rparr>) s = Some (Inr (), m, s)"
    if a: "?c \<noteq> 0" "owner m = 0" "mtx_waiters m = []" "\<not> owner_boosted m"
    using a rst [OF a(2,3)]
    by (simp add: unlock_guard_def lock_defs restore_owner_deadline_def pop_waiting_thread_def ol_pop_def)
  show ?thesis using no un lock_free lock_own try_lock_taken by (intro conjI impI) simp_all
qed

end
