(* ===== verification/MessageProps.thy ===== *)
theory MessageProps
  imports Sample
begin

text \<open>Properties of the message queue.\<close>

text \<open>
  A nonblocking send appends the message to the queue's contents and wakes the receiver with the
  earliest deadline, or reports \<open>Full\<close> and changes nothing; the ring buffer stays well-formed.
\<close>

theorem send_appends:
  assumes "mq_ok q s" "kinv s" "no_overdue s" "receivers q \<noteq> [] \<longrightarrow> can_wake s (hd (receivers q))"
  shows "wpo (try_send m q s) (\<lambda>(r, q', s'). mq_ok q' s' \<and>
    (if length (contents q) = unat (capacity q) then r = Inl MqFull \<and> q' = q \<and> s' = s
     else r = Inr () \<and> contents q' = contents q @ [m] \<and> capacity q' = capacity q
       \<and> receivers q' = tl (receivers q) \<and> senders q' = senders q \<and> woke_first (receivers q) s s'))"
  by (rule try_send_ok [OF assms(1-3)]) (use assms(4) in simp)

text \<open>A ring of two slots whose only message wraps around to slot 0 next.\<close>

definition sample_ring :: "nat QueueState" where
  "sample_ring = \<lparr>capacity = 2, slots = [None, Some 7], q_head = 1, q_len = 1, senders = [], receivers = [2300]\<rparr>"

lemma sample_ring_ok: "mq_ok sample_ring sample" "contents sample_ring = [7]"
proof -
  have "sync_ok [2300] sample" by (simp add: sync_ok_def ordered_def)
  moreover have "sync_ok [] sample" by (simp add: sync_ok_def ordered_def)
  ultimately show "mq_ok sample_ring sample"
    by (simp add: mq_ok_def ring_ok_def ring_index_def sample_ring_def)
  show "contents sample_ring = [7]" by (simp add: contents_def ring_index_def sample_ring_def)
qed

lemma sample_wakeable: "can_wake sample 2300"
  by (simp add: can_wake_def sample_headroom) (simp add: sample_defs)

text \<open>
  A nonblocking receive returns the oldest message, removes it and wakes the sender with the earliest
  deadline, or reports \<open>Empty\<close> and changes nothing; the ring buffer stays well-formed.
\<close>

theorem receive_takes_oldest:
  assumes "mq_ok q s" "kinv s" "no_overdue s" "senders q \<noteq> [] \<longrightarrow> can_wake s (hd (senders q))"
  shows "wpo (try_receive q s) (\<lambda>(r, q', s'). mq_ok q' s' \<and>
    (case contents q of [] \<Rightarrow> r = Inl MqEmpty \<and> q' = q \<and> s' = s
     | m # ms \<Rightarrow> r = Inr m \<and> contents q' = ms \<and> capacity q' = capacity q
       \<and> senders q' = tl (senders q) \<and> receivers q' = receivers q \<and> woke_first (senders q) s s'))"
  by (rule try_receive_ok [OF assms(1-3)]) (use assms(4) in simp)

section \<open>First in, first out\<close>

fun send_all :: "'a list \<Rightarrow> 'a QueueState \<Rightarrow> kstate \<Rightarrow> ('a QueueState \<times> kstate) option" where
  "send_all [] q s = Some (q, s)"
| "send_all (m # ms) q s = do {
     (r, q, s) \<leftarrow> try_send m q s;
     require (r = Inr ());
     send_all ms q s
   }"

fun receive_many :: "nat \<Rightarrow> 'a QueueState \<Rightarrow> kstate \<Rightarrow> ('a list \<times> 'a QueueState \<times> kstate) option" where
  "receive_many 0 q s = Some ([], q, s)"
| "receive_many (Suc n) q s = do {
     (r, q, s) \<leftarrow> try_receive q s;
     case r of
       Inl _ \<Rightarrow> None
     | Inr m \<Rightarrow> do { (ms, q, s) \<leftarrow> receive_many n q s; Some (m # ms, q, s) }
   }"

lemma send_all_ok:
  assumes "mq_ok q s" "kinv s" "no_overdue s" "receivers q = []" "senders q = []"
    "length (contents q) + length ms \<le> unat (capacity q)"
  shows "\<exists>q'. send_all ms q s = Some (q', s) \<and> mq_ok q' s \<and> contents q' = contents q @ ms
    \<and> receivers q' = [] \<and> senders q' = [] \<and> capacity q' = capacity q"
  using assms
proof (induction ms arbitrary: q)
  case (Cons m ms)
  from try_send_ok [OF Cons.prems(1-3), of m] obtain q1 where
    q1: "try_send m q s = Some (Inr (), q1, s)" "mq_ok q1 s" "contents q1 = contents q @ [m]"
      "capacity q1 = capacity q" "receivers q1 = []" "senders q1 = []"
    using Cons.prems(4-6) by (auto simp: wpo_def woke_first_def)
  from Cons.IH [OF q1(2) Cons.prems(2,3) q1(5,6)] q1 Cons.prems(6) show ?case by (auto simp: require_def)
qed simp

lemma receive_many_ok:
  assumes "mq_ok q s" "kinv s" "no_overdue s" "senders q = []" "n \<le> length (contents q)"
  shows "\<exists>q'. receive_many n q s = Some (take n (contents q), q', s) \<and> mq_ok q' s \<and> contents q' = drop n (contents q)"
  using assms
proof (induction n arbitrary: q)
  case (Suc n)
  then obtain m ms where c: "contents q = m # ms" by (cases "contents q") auto
  from try_receive_ok [OF Suc.prems(1-3)] Suc.prems(4) c obtain q1 where
    q1: "try_receive q s = Some (Inr m, q1, s)" "mq_ok q1 s" "contents q1 = ms" "senders q1 = []"
    by (auto simp: wpo_def woke_first_def)
  from Suc.IH [OF q1(2) Suc.prems(2,3) q1(4)] q1 c Suc.prems(5) show ?case by auto
qed simp

text \<open>
  The queue is first in, first out across the wrap-around: sending a batch that fits and then
  receiving as many messages as are buffered returns the earlier contents followed by the batch, and
  leaves the queue empty.
\<close>

theorem queue_fifo:
  assumes "mq_ok q s" "kinv s" "no_overdue s" "receivers q = []" "senders q = []"
    "length (contents q) + length ms \<le> unat (capacity q)"
  shows "\<exists>q1 q2. send_all ms q s = Some (q1, s)
    \<and> receive_many (length (contents q) + length ms) q1 s = Some (contents q @ ms, q2, s) \<and> contents q2 = [] \<and> mq_ok q2 s"
proof -
  from send_all_ok [OF assms] obtain q1 where
    q1: "send_all ms q s = Some (q1, s)" "mq_ok q1 s" "contents q1 = contents q @ ms" "senders q1 = []" by blast
  from receive_many_ok [OF q1(2) assms(2,3) q1(4), of "length (contents q) + length ms"] q1 show ?thesis by auto
qed

section \<open>Blocking operations\<close>

text \<open>
  A blocking receive on an empty queue suspends the running thread among the receivers and, once it
  is resumed with a message in the queue, returns the oldest one; a blocking send on a full queue
  likewise waits for a free slot and then appends. \<open>wait\<close> stands for what happens until the thread runs
  again.
\<close>

theorem blocking_resumes:
  assumes k: "kinv s" and c: "can_block s" "state (threads s (CURRENT_THREAD_CTX s)) = Running"
    and n: "no_overdue (ktq_advance_time (elapsed_ticks_since_current_reload s) s)"
    and q: "mq_ok q s" and q2: "mq_ok q2 s2" "kinv s2" "no_overdue s2" "senders q2 = []" "receivers q2 = []"
    and w: "wait = (\<lambda>_ _. Some (q2, s2))"
  shows "(contents q = [] \<longrightarrow> contents q2 = m # ms \<longrightarrow>
      (\<exists>q' s'. receive_with_wait wait True q s = Some (Inr m, q', s') \<and> contents q' = ms \<and> mq_ok q' s'))
    \<and> (length (contents q) = unat (capacity q) \<longrightarrow> length (contents q2) < unat (capacity q2) \<longrightarrow>
      (\<exists>q' s'. send_with_wait wait m True q s = Some (Inr (), q', s') \<and> contents q' = contents q2 @ [m] \<and> mq_ok q' s'))
    \<and> wpo (mq_block ty True q s) (\<lambda>(r, q', s'). r = Inr () \<and> sync_blocked ty s s' \<and> pendsv s' \<and> mq_ok q' s'
        \<and> contents q' = contents q
        \<and> CURRENT_THREAD_CTX s \<in> set (if ty = SyncMessageQueueSend then senders q' else receivers q'))"
proof (intro conjI impI)
  show "\<exists>q' s'. receive_with_wait wait True q s = Some (Inr m, q', s') \<and> contents q' = ms \<and> mq_ok q' s'"
    if "contents q = []" "contents q2 = m # ms"
    by (rule receive_resumed [OF q that(1) k c n _ q2(1) that(2) q2(2,3)]) (simp_all add: w q2)
  show "\<exists>q' s'. send_with_wait wait m True q s = Some (Inr (), q', s') \<and> contents q' = contents q2 @ [m] \<and> mq_ok q' s'"
    if "length (contents q) = unat (capacity q)" "length (contents q2) < unat (capacity q2)"
    by (rule send_resumed [OF q that(1) k c n _ q2(1) that(2) q2(2,3)]) (simp_all add: w q2)
  show "wpo (mq_block ty True q s) (\<lambda>(r, q', s'). r = Inr () \<and> sync_blocked ty s s' \<and> pendsv s' \<and> mq_ok q' s'
        \<and> contents q' = contents q
        \<and> CURRENT_THREAD_CTX s \<in> set (if ty = SyncMessageQueueSend then senders q' else receivers q'))"
    by (rule wpo_mono [OF mq_block_ok [OF q k c n, of ty]]) (auto simp: case_prod_beta split: if_splits)
qed

text \<open>
  An operation that would have to block reports an error and changes nothing when blocking is not
  possible: on the host or in an interrupt (\<open>InvalidContext\<close>), or before a thread runs
  (\<open>NoCurrentThread\<close>).
\<close>

theorem blocking_refused:
  assumes "CURRENT_THREAD_CTX s = 0 \<or> \<not> may_block"
  shows "(mq_is_full q \<longrightarrow> send_with_wait wait m may_block q s =
      Some (Inl (if CURRENT_THREAD_CTX s = 0 then MqNoCurrentThread else MqInvalidContext), q, s))
    \<and> (mq_is_empty q \<longrightarrow> receive_with_wait wait may_block q s =
      Some (Inl (if CURRENT_THREAD_CTX s = 0 then MqNoCurrentThread else MqInvalidContext), q, s))"
  using assms
  by (auto simp: send_with_wait.simps [of wait m may_block q s] receive_with_wait.simps [of wait may_block q s]
      send_round_def receive_round_def try_send_def try_receive_def mq_is_full_def mq_is_empty_def mq_block_def current_thread_handle_def get_thread_def)

end
