(* ===== verification/ThreadApi.thy ===== *)
theory ThreadApi
  imports Thread
begin

text \<open>
  The application interface of \<^verbatim>\<open>src/thread.rs\<close>: builders for CFS and real-time threads, aligned stacks and
  the read-only views of a thread handle. A builder only collects the arguments of \<open>spawn_thread\<close>; its
  options can be set in any order and the last one counts.
\<close>

section \<open>Stacks\<close>

definition AlignedStack_top :: "addr \<Rightarrow> nat \<Rightarrow> addr option" where
  "AlignedStack_top stack n = do {
     let stk = stack + 4 * n;
     require (stk mod THREAD_STACK_ALIGNMENT = 0);
     Some stk
   }"

section \<open>Builders\<close>

record CfsThreadBuilder =
  cfs_start :: ThreadStart
  cfs_priority :: u32

definition CfsThreadBuilder_new :: "string \<Rightarrow> addr \<Rightarrow> u32 \<Rightarrow> CfsThreadBuilder" where
  "CfsThreadBuilder_new nm entry p = \<lparr>cfs_start = ThreadStart_new nm entry, cfs_priority = p\<rparr>"

definition CfsThreadBuilder_with_arg :: "addr \<Rightarrow> CfsThreadBuilder \<Rightarrow> CfsThreadBuilder" where
  "CfsThreadBuilder_with_arg a b = b\<lparr>cfs_start := with_arg a (cfs_start b)\<rparr>"

definition CfsThreadBuilder_spawn ::
  "addr \<Rightarrow> addr \<Rightarrow> nat \<Rightarrow> CfsThreadBuilder \<Rightarrow> kstate \<times> mem \<Rightarrow> (addr \<times> kstate \<times> mem) option" where
  "CfsThreadBuilder_spawn t stack n b = spawn_thread t stack n (cfs_start b) (CfsArgs (cfs_priority b))"

record RtThreadBuilder =
  rt_start :: ThreadStart
  rt_builder_ktimer :: addr

definition RtThreadBuilder_new :: "string \<Rightarrow> addr \<Rightarrow> addr \<Rightarrow> RtThreadBuilder" where
  "RtThreadBuilder_new nm entry k = \<lparr>rt_start = ThreadStart_new nm entry, rt_builder_ktimer = k\<rparr>"

definition RtThreadBuilder_with_arg :: "addr \<Rightarrow> RtThreadBuilder \<Rightarrow> RtThreadBuilder" where
  "RtThreadBuilder_with_arg a b = b\<lparr>rt_start := with_arg a (rt_start b)\<rparr>"

definition RtThreadBuilder_spawn ::
  "addr \<Rightarrow> addr \<Rightarrow> nat \<Rightarrow> RtThreadBuilder \<Rightarrow> kstate \<times> mem \<Rightarrow> (addr \<times> kstate \<times> mem) option" where
  "RtThreadBuilder_spawn t stack n b = spawn_thread t stack n (rt_start b) (RtArgs (rt_builder_ktimer b))"

section \<open>Views\<close>

definition with_thread_ctx :: "addr \<Rightarrow> (TCB \<Rightarrow> 'a) \<Rightarrow> kstate \<Rightarrow> 'a" where
  "with_thread_ctx t f s = f (threads s t)"

definition handle_id :: "addr \<Rightarrow> kstate \<Rightarrow> u32" where
  "handle_id t s = with_thread_ctx t thread_id s"

definition handle_name :: "addr \<Rightarrow> kstate \<Rightarrow> string" where
  "handle_name t s = with_thread_ctx t thread_name s"

definition handle_state :: "addr \<Rightarrow> kstate \<Rightarrow> ThreadState" where
  "handle_state t s = with_thread_ctx t state s"

definition handle_is_cfs :: "addr \<Rightarrow> kstate \<Rightarrow> bool" where
  "handle_is_cfs t s = with_thread_ctx t (\<lambda>th. kind th = Cfs) s"

definition handle_is_rt :: "addr \<Rightarrow> kstate \<Rightarrow> bool" where
  "handle_is_rt t s = with_thread_ctx t (\<lambda>th. kind th = Rt) s"

definition handle_is_idle :: "addr \<Rightarrow> kstate \<Rightarrow> bool" where
  "handle_is_idle t s = with_thread_ctx t (\<lambda>th. kind th = Idle) s"

definition has_ktimer :: "addr \<Rightarrow> kstate \<Rightarrow> bool" where
  "has_ktimer t s \<longleftrightarrow> ktimer_entity (threads s t) \<noteq> 0"

definition wait_info :: "addr \<Rightarrow> kstate \<Rightarrow> u32 \<times> SyncType option" where
  "wait_info t s = wait_info_from_entity (wait_entity (threads s t)) s"

section \<open>Facts\<close>

lemma kind_views: "handle_is_cfs t s \<noteq> (handle_is_rt t s \<or> handle_is_idle t s)" "\<not> (handle_is_rt t s \<and> handle_is_idle t s)"
  by (cases "kind (threads s t)"; simp add: handle_is_cfs_def handle_is_rt_def handle_is_idle_def with_thread_ctx_def)+

lemma with_arg_last [simp]:
  "CfsThreadBuilder_with_arg a (CfsThreadBuilder_with_arg b c) = CfsThreadBuilder_with_arg a c"
  "RtThreadBuilder_with_arg a (RtThreadBuilder_with_arg b r) = RtThreadBuilder_with_arg a r"
  by (simp_all add: CfsThreadBuilder_with_arg_def RtThreadBuilder_with_arg_def with_arg_def)

lemma stack_top_top: "stack \<noteq> 0 \<Longrightarrow> stack_top stack n = AlignedStack_top stack n"
  by (simp add: stack_top_def AlignedStack_top_def require_def)

end
