(* ===== verification/StartProps.thy ===== *)
theory StartProps
  imports Sample ThreadApi
begin

text \<open>Properties of thread creation, of the initial stack frames and of start-up.\<close>

text \<open>
  C33: the Cortex-M port and the host port build the same initial frame: sixteen words below the aligned
  top of the stack with the argument in r0, the entry point as pc and the Thumb bit set, the same stack
  pointer and restore token; no word outside the frame is written.
\<close>

theorem initial_frames_agree:
  assumes "71 \<le> stk"
  shows "init_cortex_m_thread_stack stk entry arg m = init_host_thread_stack stk entry arg m
    \<and> init_sp (fst (init_cortex_m_thread_stack stk entry arg m)) = of_nat (align_down stk - 64)
    \<and> (\<forall>a. a < align_down stk - 64 \<or> align_down stk \<le> a \<longrightarrow> snd (init_cortex_m_thread_stack stk entry arg m) a = m a)
    \<and> snd (init_cortex_m_thread_stack stk entry arg m) (align_down stk - 32) = of_nat arg
    \<and> snd (init_cortex_m_thread_stack stk entry arg m) (align_down stk - 8) = of_nat entry"
proof -
  have "64 \<le> align_down stk"
    using assms div_le_mono [of 71 stk 8] by (simp add: align_down_def push_bit_eq_mult drop_bit_eq_div)
  then obtain b where b: "align_down stk = b + 64" by (metis le_add_diff_inverse2)
  have other: "write_words b ws m a = m a" if "a < b \<or> b + 4 * length ws \<le> a" for a ws and b m
    using that by (induction ws arbitrary: b) auto
  have "write_words b (initial_frame entry arg) m a = m a" if "a < b \<or> b + 64 \<le> a" for a
    using other [of a b "initial_frame entry arg" m] that by (simp add: initial_frame_def)
  moreover have "write_words b (initial_frame entry arg) m (32 + b) = of_nat arg"
    "write_words b (initial_frame entry arg) m (56 + b) = of_nat entry"
    by (simp_all add: initial_frame_def numeral_eq_Suc)
  ultimately show ?thesis using cortex_frame [OF b] host_frame [OF b] b by simp
qed

theorem initial_frames_agree_witness:
  "init_cortex_m_thread_stack 4096 8 5 (\<lambda>_. 1) = init_host_thread_stack 4096 8 5 (\<lambda>_. 1)"
  using initial_frames_agree [of 4096 8 5 "\<lambda>_. 1"] by simp

text \<open>
  C34: a spawn with invalid arguments panics before it writes anything, with the message of the first of these
  errors that applies: a zero priority or a null timer, null storage, a null stack, fewer than sixteen words, a top
  that is not 8-byte aligned; the kernel state and the memory are left as they were. With all other arguments the
  validation does not panic.
\<close>

theorem spawn_refuses:
  "let refused = (\<lambda>e. spawn_thread_or_panic t stack n st args (s, m) = Some (Inl (spawn_error_message e, s, m))
        \<and> spawn_thread t stack n st args (s, m) = None)
   in if args = CfsArgs 0 then refused ZeroPriority
      else if args = RtArgs 0 then refused NullRtTimer
      else if t = 0 then refused NullThreadStorage
      else if stack = 0 then refused NullStack
      else if n < 16 then refused (StackTooSmall 16 n)
      else if (stack + 4 * n) mod 8 \<noteq> 0 then refused UnalignedStackTop
      else \<forall>p. spawn_thread_or_panic t stack n st args (s, m) \<noteq> Some (Inl p)"
proof -
  have e: "spawn_error t stack n args =
     (if args = CfsArgs 0 then Some ZeroPriority
      else if args = RtArgs 0 then Some NullRtTimer
      else if t = 0 then Some NullThreadStorage
      else if stack = 0 then Some NullStack
      else if n < 16 then Some (StackTooSmall 16 n)
      else if (stack + 4 * n) mod 8 \<noteq> 0 then Some UnalignedStackTop else None)"
    by (cases args) (auto simp: spawn_error_def CfsThread_validate_init_args_def RtThread_validate_init_args_def
        validate_thread_storage_def validate_stack_def THREAD_INITIAL_FRAME_WORDS_def take_bit_eq_mod)
  have a: "spawn_thread_or_panic t stack n st args (s, m) \<noteq> Some (Inl p)" if "spawn_error t stack n args = None" for p
    unfolding spawn_thread_accepted [OF that] by (simp split: bind_splits)
  have "case spawn_error t stack n args of
      None \<Rightarrow> \<forall>p. spawn_thread_or_panic t stack n st args (s, m) \<noteq> Some (Inl p)
    | Some e \<Rightarrow> spawn_thread_or_panic t stack n st args (s, m) = Some (Inl (spawn_error_message e, s, m))
        \<and> spawn_thread t stack n st args (s, m) = None"
    using a spawn_thread_refused [of t stack n args _ st s m] by (simp split: option.split)
  then show ?thesis by (simp only: e Let_def if_distrib [where f = "case_option P Q" for P Q] option.case)
qed

theorem spawn_refuses_witness:
  "spawn_thread_or_panic 4000 8000 8 (ThreadStart_new ''a'' 64) (CfsArgs 3) (sample, \<lambda>_. 0)
     = Some (Inl (''thread stack must reserve at least 16 words for the initial platform frame'', sample, \<lambda>_. 0))
   \<and> spawn_thread_or_panic 0 0 8 (ThreadStart_new ''a'' 64) (CfsArgs 0) (sample, \<lambda>_. 0)
     = Some (Inl (''CFS thread priority must be non-zero'', sample, \<lambda>_. 0))"
  using spawn_refuses [where t = 4000 and stack = 8000 and n = 8 and args = "CfsArgs 3" and st = "ThreadStart_new ''a'' 64" and s = sample and m = "\<lambda>_. 0"]
    spawn_refuses [where t = 0 and stack = 0 and n = 8 and args = "CfsArgs 0" and st = "ThreadStart_new ''a'' 64" and s = sample and m = "\<lambda>_. 0"]
  by (simp add: Let_def)

text \<open>
  C35: a valid spawn through the builder of its class completes: the new thread is ready, carries the next thread id, a CFS thread is in the
  run queue with its priority in the sum, a real-time thread's timer is active and linked to it; the start
  frame with the builder's entry function and argument is on its stack, and the invariant of start-up holds.
\<close>

theorem spawn_creates:
  assumes "boot_inv s" "spawnable t stack n args s"
  shows "wpo (case args of
      CfsArgs p \<Rightarrow> CfsThreadBuilder_spawn t stack n (CfsThreadBuilder_with_arg a (CfsThreadBuilder_new nm entry p)) (s, m)
    | RtArgs k \<Rightarrow> RtThreadBuilder_spawn t stack n (RtThreadBuilder_with_arg a (RtThreadBuilder_new nm entry k)) (s, m))
    (\<lambda>(t', s', m'). t' = t \<and> spawned t args s s' \<and> m' = write_words (stack_frame stack n) (initial_frame entry a) m)"
  using spawn_thread_ok [OF assms, of "with_arg a (ThreadStart_new nm entry)" m]
  by (cases args)
    (simp_all add: CfsThreadBuilder_spawn_def CfsThreadBuilder_with_arg_def CfsThreadBuilder_new_def RtThreadBuilder_spawn_def
      RtThreadBuilder_with_arg_def RtThreadBuilder_new_def with_arg_def ThreadStart_new_def)

text \<open>The statics of a program that has just been loaded.\<close>

definition sample_loaded :: kstate where
  "sample_loaded =
     sample\<lparr>threads := (\<lambda>_. sample_tcb 0 Idle Ready WaitEntity_new 0 0 0 0 0), wait_tree := [], suspended := [], run_tree := [],
       priority_sum := 0, NEXT_THREAD_ID := 0\<rparr>"

lemma sample_loaded: "loaded sample_loaded"
  by (simp add: loaded_def sample_loaded_def) (simp add: sample_defs)

lemma sample_booted:
  obtains s where "init_ktimer_queue sample_loaded \<bind> init_cfs 100 50 = Some s" "boot_inv s" "queued s = {100, 104}"
    "run_tree s = []" "priority_sum s = 0" "CFS_KTIMER s = 100" "WAIT_KTIMER s = 104"
proof -
  have c: "CFS_KTIMER sample_loaded = 100" "WAIT_KTIMER sample_loaded = 104" by (simp_all add: sample_loaded_def)
  from init_ktimer_queue_ok [OF sample_loaded] obtain s1 where
    s1: "init_ktimer_queue sample_loaded = Some s1" "loaded s1" "kinv s1" "queued s1 = {WAIT_KTIMER s1}"
      "CFS_KTIMER s1 = 100" "WAIT_KTIMER s1 = 104" by (auto simp: wpo_def c)
  from init_cfs_ok [OF s1(2,3,4), of 100 50] obtain s2 where
    s2: "init_cfs 100 50 s1 = Some s2" "boot_inv s2" "queued s2 = {100, 104}" "run_tree s2 = []" "priority_sum s2 = 0"
      "CFS_KTIMER s2 = 100" "WAIT_KTIMER s2 = 104"
    using s1(5,6) by (auto simp: wpo_def)
  show thesis by (rule that [OF _ s2(2-7)]) (use s1(1) s2(1) in simp)
qed

lemma first_spawnable:
  assumes "boot_inv s" "queued s = {100, 104}" "run_tree s = []" "priority_sum s = 0" "CFS_KTIMER s = 100" "WAIT_KTIMER s = 104"
  shows "spawnable 4000 8000 32 (CfsArgs 3) s" "fresh s 1000"
  using assms
  by (simp_all add: spawnable_def spawn_error_None fresh_def cfs_room_def boot_inv_def)

theorem spawn_creates_witness:
  "\<exists>s s' m'. boot_inv s \<and> boot_inv s' \<and> run_tree s' = [4000]
    \<and> CfsThreadBuilder_spawn 4000 8000 32 (CfsThreadBuilder_with_arg 7 (CfsThreadBuilder_new ''a'' 64 3)) (s, \<lambda>_. 0) = Some (4000, s', m')"
proof -
  obtain s where s: "init_ktimer_queue sample_loaded \<bind> init_cfs 100 50 = Some s" "boot_inv s" "queued s = {100, 104}"
    "run_tree s = []" "priority_sum s = 0" "CFS_KTIMER s = 100" "WAIT_KTIMER s = 104" by (rule sample_booted)
  from spawn_creates [OF s(2) first_spawnable(1) [OF s(2-7)], of 7 "''a''" 64 "\<lambda>_. 0"] obtain s' m' where
    s': "CfsThreadBuilder_spawn 4000 8000 32 (CfsThreadBuilder_with_arg 7 (CfsThreadBuilder_new ''a'' 64 3)) (s, \<lambda>_. 0) = Some (4000, s', m')"
      "spawned 4000 (CfsArgs 3) s s'" by (auto simp: wpo_def)
  have r: "set (run_tree s') = {4000}" "boot_inv s'" using s'(2) s(4) by (simp_all add: spawned_def)
  have "distinct (run_tree s')" using r(2) rq_ok_distinct kinvD(3) by (auto simp: boot_inv_def)
  then have "run_tree s' = [4000]" using r(1) by (rule singleton_list)
  then show ?thesis using s(2) s'(1) r(2) by blast
qed

lemma boot_built:
  assumes l: "loaded s"
  shows "wpo (init_ktimer_queue s \<bind> init_cfs period exec) (\<lambda>s'. built {} {} 0 s' \<and> queued s' = {CFS_KTIMER s, WAIT_KTIMER s}
    \<and> run_tree s' = [] \<and> CFS_KTIMER s' = CFS_KTIMER s \<and> WAIT_KTIMER s' = WAIT_KTIMER s)"
proof -
  from init_ktimer_queue_ok [OF l] obtain s1 where
    s1: "init_ktimer_queue s = Some s1" "loaded s1" "kinv s1" "queued s1 = {WAIT_KTIMER s1}"
      "CFS_KTIMER s1 = CFS_KTIMER s" "WAIT_KTIMER s1 = WAIT_KTIMER s" by (auto simp: wpo_def)
  show ?thesis
    by (simp add: s1(1)) (rule wpo_mono [OF init_cfs_ok [OF s1(2,3,4), of period exec]], auto simp: built_def s1)
qed

text \<open>Initialising the scheduler and creating the threads.\<close>

lemma threads_created:
  assumes l: "loaded s" and v: "valid_requests rs s"
  shows "wpo (init_ktimer_queue s \<bind> init_cfs period exec \<bind> (\<lambda>s. spawn_all rs (s, m)))
    (\<lambda>(s', m'). boot_inv s' \<and> (\<forall>t. t \<notin> req_thread ` set rs \<longrightarrow> t \<noteq> 0 \<longrightarrow> fresh s' t)
      \<and> set (run_tree s') = cfs_requests rs \<and> queued s' = set (req_timers rs) \<union> {CFS_KTIMER s, WAIT_KTIMER s})"
proof -
  from boot_built [OF l, of period exec] obtain s1 where
    s1: "init_ktimer_queue s \<bind> init_cfs period exec = Some s1" "built {} {} 0 s1" "queued s1 = {CFS_KTIMER s, WAIT_KTIMER s}"
      "run_tree s1 = []" "CFS_KTIMER s1 = CFS_KTIMER s" "WAIT_KTIMER s1 = WAIT_KTIMER s" by (auto simp: wpo_def)
  have "wpo (spawn_all rs (s1, m)) (\<lambda>(s', m'). boot_inv s' \<and> (\<forall>t. t \<notin> {} \<union> req_thread ` set rs \<longrightarrow> t \<noteq> 0 \<longrightarrow> fresh s' t)
    \<and> set (run_tree s') = cfs_requests rs \<union> set (run_tree s1) \<and> queued s' = set (req_timers rs) \<union> queued s1)"
    by (rule spawn_all_built [OF s1(2)]) (use v s1(5,6) in \<open>auto simp: valid_requests_def\<close>)
  then show ?thesis by (simp add: s1)
qed

lemma start_up_ok:
  assumes l: "loaded s" and v: "valid_requests rs s"
    and t: "t \<noteq> 0" "t \<notin> req_thread ` set rs" and st: "stack \<noteq> 0" "16 \<le> n" "(stack + 4 * n) mod 8 = 0"
  shows "wpo (init_ktimer_queue s \<bind> init_cfs period exec \<bind> (\<lambda>s. spawn_all rs (s, m)) \<bind> spawn_main_thread nm entry t stack n)
    (\<lambda>(s', m'). run_inv s' \<and> SCHEDULER_STARTED s' \<and> CURRENT_THREAD_CTX s' = t \<and> IDLE_THREAD_CTX s' = t
      \<and> runnable_set s' = cfs_requests rs \<and> queued s' = set (req_timers rs) \<union> {CFS_KTIMER s, WAIT_KTIMER s})"
proof -
  from threads_created [OF l v, of period exec m] obtain s2 m2 where
    s2: "init_ktimer_queue s \<bind> init_cfs period exec \<bind> (\<lambda>s. spawn_all rs (s, m)) = Some (s2, m2)" "boot_inv s2" "fresh s2 t"
      "set (run_tree s2) = cfs_requests rs" "queued s2 = set (req_timers rs) \<union> {CFS_KTIMER s, WAIT_KTIMER s}"
    using t by (auto simp: wpo_def)
  show ?thesis
    unfolding s2(1) Option.bind.simps by (rule wpo_mono [OF spawn_main_thread_ok [OF s2(2,3) st]]) (auto simp: run_inv_def s2(4,5))
qed

end
