(* ===== verification/SyncApi.thy ===== *)
theory SyncApi
  imports Message
begin

text \<open>
  The rest of the interfaces of \<^verbatim>\<open>src/sync.rs\<close> and \<^verbatim>\<open>src/message.rs\<close>: the named constructors, the
  snapshots of counts and lengths, the guard of a mutex with its access to the protected value, and the
  blocking queue calls with the platform's answer whether the caller may block. The atomic words of the
  source are machine words of 32 bits, as wide as the \<open>u32\<close> values that are stored in them.
\<close>

section \<open>Semaphores\<close>

definition BinarySemaphore_available :: BinarySemaphore where
  "BinarySemaphore_available = BinarySemaphore_new True"

definition BinarySemaphore_empty :: BinarySemaphore where
  "BinarySemaphore_empty = BinarySemaphore_new False"

definition CountingSemaphore_empty :: "u32 \<Rightarrow> CountingSemaphore option" where
  "CountingSemaphore_empty max_count = CountingSemaphore_new max_count 0"

definition CountingSemaphore_full :: "u32 \<Rightarrow> CountingSemaphore option" where
  "CountingSemaphore_full max_count = CountingSemaphore_new max_count max_count"

definition CountingSemaphore_count :: "CountingSemaphore \<Rightarrow> u32" where
  "CountingSemaphore_count b = load_word (sem_count b)"

definition CountingSemaphore_max_count :: "CountingSemaphore \<Rightarrow> u32" where
  "CountingSemaphore_max_count b = load_word (sem_max_count b)"

section \<open>Mutex guards\<close>

definition thread_from_owner_token :: "addr \<Rightarrow> addr option" where
  "thread_from_owner_token token = (if token = 0 then None else Some token)"

definition Mutex_into_inner :: "'a Mutex \<Rightarrow> 'a" where
  "Mutex_into_inner m = mtx_data m"

definition Mutex_get_mut :: "('a \<Rightarrow> 'a) \<Rightarrow> 'a Mutex \<Rightarrow> 'a Mutex" where
  "Mutex_get_mut f m = m\<lparr>mtx_data := f (mtx_data m)\<rparr>"

text \<open>A guard is a reference to its mutex; what is done through the mutable reference is the function \<open>f\<close>.\<close>

definition MutexGuard_deref :: "'a Mutex \<Rightarrow> 'a" where
  "MutexGuard_deref m = mtx_data m"

definition MutexGuard_deref_mut :: "('a \<Rightarrow> 'a) \<Rightarrow> 'a Mutex \<Rightarrow> 'a Mutex" where
  "MutexGuard_deref_mut f m = m\<lparr>mtx_data := f (mtx_data m)\<rparr>"

text \<open>Dropping a guard ignores the result of the unlock.\<close>

definition MutexGuard_drop :: "'a Mutex \<Rightarrow> kstate \<Rightarrow> ('a Mutex \<times> kstate) option" where
  "MutexGuard_drop m s = do {
     (_, st, s) \<leftarrow> unlock_guard (mtx_state m) s;
     Some (m\<lparr>mtx_state := st\<rparr>, s)
   }"

section \<open>Message queues\<close>

definition mq_capacity :: "'a QueueState \<Rightarrow> u32" where
  "mq_capacity q = capacity q"

definition mq_length :: "'a QueueState \<Rightarrow> u32" where
  "mq_length q = q_len q"

text \<open>
  The blocking calls ask the platform whether the caller may block. After the barriers of
  \<open>resume_after_block\<close> the pending context switch has taken place: \<open>resume\<close> is what the rest of the system
  does until the thread runs again.
\<close>

definition mq_send ::
  "bool \<Rightarrow> ('a QueueState \<Rightarrow> kstate \<Rightarrow> ('a QueueState \<times> kstate) option) \<Rightarrow> 'a \<Rightarrow> 'a QueueState \<Rightarrow> kstate
   \<Rightarrow> ((MessageQueueStatus + unit) \<times> 'a QueueState \<times> kstate) option" where
  "mq_send blocking_context_available resume message q s = send_with_wait resume message blocking_context_available q s"

definition mq_receive ::
  "bool \<Rightarrow> ('a QueueState \<Rightarrow> kstate \<Rightarrow> ('a QueueState \<times> kstate) option) \<Rightarrow> 'a QueueState \<Rightarrow> kstate
   \<Rightarrow> ((MessageQueueStatus + 'a) \<times> 'a QueueState \<times> kstate) option" where
  "mq_receive blocking_context_available resume q s = receive_with_wait resume blocking_context_available q s"

section \<open>New objects\<close>

text \<open>What the constructors build satisfies the invariants of the primitives.\<close>

lemma sync_ok_Nil [simp]: "sync_ok [] s"
  by (simp add: sync_ok_def ordered_def)

lemma CountingSemaphore_new_inv:
  assumes "CountingSemaphore_new n c = Some b"
  shows "sem_inv (unat (sem_count b)) (unat (sem_max_count b)) (cnt_waiters b) s"
  using assms by (auto simp: CountingSemaphore_new_def sem_inv_def require_def word_le_nat_alt split: if_splits)

lemma MutexState_new_inv: "mtx_ok MutexState_new s"
  by (simp add: mtx_ok_def MutexState_new_def)

lemma MessageQueue_new_inv:
  assumes "MessageQueue_new n = Some q"
  shows "mq_ok q s" "contents q = []" "senders q = []" "receivers q = []" "capacity q = n"
  using assms
  by (auto simp: MessageQueue_new_def mq_ok_def ring_ok_def contents_def require_def word_gt_0 split: if_splits)

end
