(* ===== verification/System.thy ===== *)
theory System
  imports Machine SyncApi
begin

text \<open>
  Scheduler, semaphores, mutexes and message queues together. Threads take and give semaphores of both classes,
  lock and unlock mutexes and use the values they protect, send and receive messages while ticks, yields and sleeps interleave with them,
  the SysTick counter counts, and every requested context switch is performed. Whatever the interleaving, the invariants of the
  scheduler and of every primitive hold, no token is lost or invented, no two threads hold the same
  mutex, messages are neither lost nor duplicated nor reordered, and every admissible event completes.
\<close>

section \<open>The system and its events\<close>

text \<open>The type parameter is the type of the data the threads share, as messages and behind mutexes.\<close>

record 'm system =
  kern :: kstate
  sems :: "nat \<Rightarrow> semaphore_object"
  mtxs :: "nat \<Rightarrow> MutexState"
  cells :: "nat \<Rightarrow> 'm"
  mqs :: "nat \<Rightarrow> 'm QueueState"

datatype 'm sys_event =
  KernelEvent event | Counter u32 | Take nat | TryTake nat | Give nat | Lock nat | TryLock nat | Unlock nat
| SetStart u32 | Read nat | Write nat 'm | Send nat 'm | TrySend nat 'm | Receive nat | TryReceive nat

text \<open>
  The outcome of an event: it succeeds, with a message if it is a receive or a value if it is a read, it is refused, or the thread
  is suspended and will try again when it is resumed.
\<close>

datatype 'm outcome = Done | Got 'm | Val 'm | Retries | Refused

definition outcome_of :: "'e + unit \<Rightarrow> 'm outcome" where
  "outcome_of r = (case r of Inl _ \<Rightarrow> Refused | Inr _ \<Rightarrow> Done)"

lemma outcome_of_simps [simp]: "outcome_of (Inr u) = Done" "outcome_of (Inl er) = Refused"
  by (simp_all add: outcome_of_def)

text \<open>An operation on one primitive.\<close>

definition with_sem ::
  "(semaphore_object \<Rightarrow> kstate \<Rightarrow> ((SemaphoreError + unit) \<times> semaphore_object \<times> kstate) option) \<Rightarrow>
   nat \<Rightarrow> 'm system \<Rightarrow> ('m outcome \<times> 'm system) option" where
  "with_sem f i S = do {
     (r, b, s) \<leftarrow> f (sems S i) (kern S);
     Some (outcome_of r, S\<lparr>kern := s, sems := (sems S)(i := b)\<rparr>)
   }"

definition with_mtx ::
  "(MutexState \<Rightarrow> kstate \<Rightarrow> ((MutexError + unit) \<times> MutexState \<times> kstate) option) \<Rightarrow>
   nat \<Rightarrow> 'm system \<Rightarrow> ('m outcome \<times> 'm system) option" where
  "with_mtx f i S = do {
     (r, m, s) \<leftarrow> f (mtxs S i) (kern S);
     Some (outcome_of r, S\<lparr>kern := s, mtxs := (mtxs S)(i := m)\<rparr>)
   }"

definition with_mq ::
  "('r \<Rightarrow> 'm outcome) \<Rightarrow> ('m QueueState \<Rightarrow> kstate \<Rightarrow> ((MessageQueueStatus + 'r) \<times> 'm QueueState \<times> kstate) option) \<Rightarrow>
   nat \<Rightarrow> 'm system \<Rightarrow> ('m outcome \<times> 'm system) option" where
  "with_mq out f i S = do {
     (r, q, s) \<leftarrow> f (mqs S i) (kern S);
     Some (case r of Inl _ \<Rightarrow> Refused | Inr x \<Rightarrow> out x, S\<lparr>kern := s, mqs := (mqs S)(i := q)\<rparr>)
   }"

text \<open>The mutex with the value it protects.\<close>

definition mutex :: "'m system \<Rightarrow> nat \<Rightarrow> 'm Mutex" where
  "mutex S i = \<lparr>mtx_state = mtxs S i, mtx_data = cells S i\<rparr>"

primrec sys_deliver :: "'m sys_event \<Rightarrow> 'm system \<Rightarrow> ('m outcome \<times> 'm system) option" where
  "sys_deliver (KernelEvent e) S = do { s \<leftarrow> deliver e (kern S); Some (Done, S\<lparr>kern := s\<rparr>) }"
| "sys_deliver (Counter c) S = Some (Done, S\<lparr>kern := counter_at c (kern S)\<rparr>)"
| "sys_deliver (Take i) S = with_sem sem_take i S"
| "sys_deliver (TryTake i) S = with_sem sem_try_take i S"
| "sys_deliver (Give i) S = with_sem sem_give i S"
| "sys_deliver (Lock i) S = with_mtx lock i S"
| "sys_deliver (TryLock i) S = with_mtx try_lock i S"
| "sys_deliver (Unlock i) S = with_mtx unlock_guard i S"
| "sys_deliver (SetStart v) S = do { (_, s) \<leftarrow> set_rt_thread_start_time v (kern S); Some (Done, S\<lparr>kern := s\<rparr>) }"
| "sys_deliver (Read i) S = Some (Val (MutexGuard_deref (mutex S i)), S)"
| "sys_deliver (Write i v) S =
     Some (Done, S\<lparr>cells := (cells S)(i := mtx_data (MutexGuard_deref_mut (\<lambda>_. v) (mutex S i)))\<rparr>)"
| "sys_deliver (Send i v) S = with_mq (\<lambda>sent. if sent then Done else Retries) (send_round v True) i S"
| "sys_deliver (TrySend i v) S = with_mq (\<lambda>_. Done) (try_send v) i S"
| "sys_deliver (Receive i) S = with_mq (case_option Retries Got) (receive_round True) i S"
| "sys_deliver (TryReceive i) S = with_mq Got try_receive i S"

definition sys_switch :: "'m system \<Rightarrow> 'm system option" where
  "sys_switch S = do { s \<leftarrow> PendSV (kern S); Some (S\<lparr>kern := s\<rparr>) }"

abbreviation running :: "'m system \<Rightarrow> addr" where
  "running S \<equiv> CURRENT_THREAD_CTX (kern S)"

text \<open>
  When an event may occur. A thread that would block has its timer in the queue; a thread that would be
  woken fits into its queue; deadlines that are exchanged by priority inheritance lie ahead; and as for
  the kernel events, the runtime counters of the running thread do not overflow.
\<close>

definition sys_fits :: "'m sys_event \<Rightarrow> 'm system \<Rightarrow> bool" where
  "sys_fits e S \<longleftrightarrow>
     (case sys_deliver e S of
        None \<Rightarrow> True
      | Some (_, S1) \<Rightarrow> charge_fits (elapsed_ticks_since_last_interrupt (kern S1)) (kern S1))"

definition wakes :: "addr list \<Rightarrow> 'm system \<Rightarrow> bool" where
  "wakes ws S \<longleftrightarrow> no_overdue (kern S) \<and> (ws \<noteq> [] \<longrightarrow> can_wake (kern S) (hd ws))"

definition blocks :: "'m system \<Rightarrow> bool" where
  "blocks S \<longleftrightarrow>
     can_block (kern S) \<and> no_overdue (ktq_advance_time (elapsed_ticks_since_current_reload (kern S)) (kern S))"

primrec sys_admissible :: "'m sys_event \<Rightarrow> 'm system \<Rightarrow> bool" where
  "sys_admissible (KernelEvent e) S \<longleftrightarrow> admissible e (kern S)"
| "sys_admissible (Counter c) S \<longleftrightarrow> counter_range c (kern S) \<and> sys_fits (Counter c) S"
| "sys_admissible (Take i) S \<longleftrightarrow>
     (if 0 < sem_tokens (sems S i) then sys_fits (Take i) S else blocks S)"
| "sys_admissible (TryTake i) S \<longleftrightarrow> sys_fits (TryTake i) S"
| "sys_admissible (Give i) S \<longleftrightarrow>
     wakes (sem_waiters (sems S i)) S \<and> sys_fits (Give i) S"
| "sys_admissible (Lock i) S \<longleftrightarrow>
     (if owner (mtxs S i) \<in> {0, running S} then sys_fits (Lock i) S
      else can_block (kern S) \<and> between_ticks (kern S) \<and> has_timer (kern S) (owner (mtxs S i)))"
| "sys_admissible (TryLock i) S \<longleftrightarrow> sys_fits (TryLock i) S"
| "sys_admissible (Unlock i) S \<longleftrightarrow>
     settled (kern S) \<and> has_timer (kern S) (running S) \<and> sys_fits (Unlock i) S
     \<and> (owner_boosted (mtxs S i) \<longrightarrow> now_ticks (kern S) < owner_original_deadline_at (mtxs S i))
     \<and> (mtx_waiters (mtxs S i) \<noteq> [] \<longrightarrow> can_wake (kern S) (hd (mtx_waiters (mtxs S i))))"
| "sys_admissible (SetStart v) S \<longleftrightarrow> sys_fits (SetStart v) S"
| "sys_admissible (Read i) S \<longleftrightarrow> sys_fits (Read i) S"
| "sys_admissible (Write i v) S \<longleftrightarrow> sys_fits (Write i v) S"
| "sys_admissible (Send i v) S \<longleftrightarrow>
     (if length (contents (mqs S i)) = unat (capacity (mqs S i)) then blocks S
      else wakes (receivers (mqs S i)) S \<and> sys_fits (Send i v) S)"
| "sys_admissible (TrySend i v) S \<longleftrightarrow> sys_fits (TrySend i v) S
     \<and> (length (contents (mqs S i)) \<noteq> unat (capacity (mqs S i)) \<longrightarrow> wakes (receivers (mqs S i)) S)"
| "sys_admissible (Receive i) S \<longleftrightarrow>
     (if contents (mqs S i) = [] then blocks S else wakes (senders (mqs S i)) S \<and> sys_fits (Receive i) S)"
| "sys_admissible (TryReceive i) S \<longleftrightarrow> sys_fits (TryReceive i) S
     \<and> (contents (mqs S i) \<noteq> [] \<longrightarrow> wakes (senders (mqs S i)) S)"

abbreviation sem_ok :: "semaphore_object \<Rightarrow> kstate \<Rightarrow> bool" where
  "sem_ok b \<equiv> sem_inv (sem_tokens b) (sem_capacity b) (sem_waiters b)"

abbreviation sem_val :: "semaphore_object \<Rightarrow> int" where
  "sem_val b \<equiv> sem_value (sem_tokens b) (sem_waiters b)"

text \<open>Where a thread can wait: at a semaphore, at a mutex, for sending or for receiving at a message queue.\<close>

datatype wait_place = Sem nat | Mtx nat | Snd nat | Rcv nat

primrec waits :: "'m system \<Rightarrow> wait_place \<Rightarrow> addr list" where
  "waits S (Sem i) = sem_waiters (sems S i)"
| "waits S (Mtx i) = mtx_waiters (mtxs S i)"
| "waits S (Snd i) = senders (mqs S i)"
| "waits S (Rcv i) = receivers (mqs S i)"

primrec obj_ok :: "'m system \<Rightarrow> wait_place \<Rightarrow> bool" where
  "obj_ok S (Sem i) \<longleftrightarrow> sem_ok (sems S i) (kern S)"
| "obj_ok S (Mtx i) \<longleftrightarrow> mtx_ok (mtxs S i) (kern S)"
| "obj_ok S (Snd i) \<longleftrightarrow> ring_ok (mqs S i) \<and> sync_ok (senders (mqs S i)) (kern S)"
| "obj_ok S (Rcv i) \<longleftrightarrow> ring_ok (mqs S i) \<and> sync_ok (receivers (mqs S i)) (kern S)"

lemma obj_ok_sync: "obj_ok S x \<Longrightarrow> sync_ok (waits S x) (kern S)"
  by (cases x) (simp_all add: sem_inv_def mtx_ok_def)

definition objs_inv :: "'m system \<Rightarrow> bool" where
  "objs_inv S \<longleftrightarrow> (\<forall>x. obj_ok S x) \<and> (\<forall>x y. x \<noteq> y \<longrightarrow> set (waits S x) \<inter> set (waits S y) = {})"

definition sys_inv :: "'m system \<Rightarrow> bool" where
  "sys_inv S \<longleftrightarrow> run_inv (kern S) \<and> objs_inv S"

section \<open>Waiters of other primitives\<close>

text \<open>Under the scheduler invariant a suspended thread is in the suspended list.\<close>

lemma suspended_iff:
  assumes "sched_inv s"
  shows "u \<in> set (suspended s) \<longleftrightarrow> state (threads s u) = Suspended"
proof -
  note I = sched_invD [OF assms]
  have "u \<in> waiting s" if "state (threads s u) = Suspended" using I(8) [of u] that by (simp add: is_blocked_def)
  then show ?thesis using I(11) by (auto simp: wq_ok_def waiting_def)
qed

lemma sync_ok_kept:
  assumes w: "sync_ok ws s" and i: "sched_inv s" "sched_inv s'" and k: "keeps_suspended X s s'" and d: "set ws \<inter> X = {}"
  shows "sync_ok ws s'"
proof -
  have st: "state (threads s u) = Suspended" "u \<notin> X" if "u \<in> set ws" for u
    using that w d suspended_iff [OF i(1)] by (auto simp: sync_ok_def)
  have "ordered (sync_cmp s') ws = ordered (sync_cmp s) ws"
    by (rule sync_ordered_cong) (use k st in \<open>auto simp: keeps_suspended_def\<close>)
  moreover have "set ws \<subseteq> set (suspended s')" using k st suspended_iff [OF i(2)] by (auto simp: keeps_suspended_def)
  ultimately show ?thesis using w by (simp add: sync_ok_def)
qed

text \<open>A step that changes at most the waiters at \<open>x\<close>, releases only those and adds only threads that wait nowhere.\<close>

definition same_but :: "wait_place \<Rightarrow> 'm system \<Rightarrow> 'm system \<Rightarrow> bool" where
  "same_but x S S' \<longleftrightarrow>
     (\<forall>y. y \<noteq> x \<longrightarrow> waits S' y = waits S y
        \<and> (obj_ok S y \<longrightarrow> sync_ok (waits S y) (kern S') \<longrightarrow> obj_ok S' y))"

lemma objs_inv_upd:
  assumes S: "objs_inv S" and i: "sched_inv (kern S)" "sched_inv (kern S')" and k: "keeps_suspended X (kern S) (kern S')"
    and same: "same_but x S S'" and ok: "obj_ok S' x" and X: "X \<subseteq> set (waits S x)"
    and n: "set (waits S' x) \<subseteq> set (waits S x) \<union> N" "\<And>y. set (waits S y) \<inter> N = {}"
  shows "objs_inv S'"
proof -
  have w: "waits S' y = waits S y" if "y \<noteq> x" for y using that same by (simp add: same_but_def)
  have disj: "set (waits S y) \<inter> set (waits S z) = {}" if "y \<noteq> z" for y z using S that by (simp add: objs_inv_def)
  have "obj_ok S' y" if "y \<noteq> x" for y
  proof -
    have y: "obj_ok S y" using S by (simp add: objs_inv_def)
    have "set (waits S y) \<inter> X = {}" using disj [OF that] X by blast
    then have "sync_ok (waits S y) (kern S')" by (rule sync_ok_kept [OF obj_ok_sync [OF y] i k])
    then show ?thesis using y that same by (simp add: same_but_def)
  qed
  then have "\<forall>y. obj_ok S' y" using ok by metis
  moreover have "set (waits S' x) \<inter> set (waits S y) = {}" if "y \<noteq> x" for y
    using n(1) n(2) [of y] disj [OF that] by blast
  then have "set (waits S' y) \<inter> set (waits S' z) = {}" if "y \<noteq> z" for y z
    using that w disj by (cases "y = x"; cases "z = x") auto
  ultimately show ?thesis by (simp add: objs_inv_def)
qed

lemma same_but_upd:
  "same_but (Sem i) S (S\<lparr>kern := s, sems := (sems S)(i := b)\<rparr>)"
  "same_but (Mtx i) S (S\<lparr>kern := s, mtxs := (mtxs S)(i := m)\<rparr>)"
  "receivers q = receivers (mqs S i) \<Longrightarrow> ring_ok q \<Longrightarrow> same_but (Snd i) S (S\<lparr>kern := s, mqs := (mqs S)(i := q)\<rparr>)"
  "senders q = senders (mqs S i) \<Longrightarrow> ring_ok q \<Longrightarrow> same_but (Rcv i) S (S\<lparr>kern := s, mqs := (mqs S)(i := q)\<rparr>)"
  unfolding same_but_def by (intro allI impI conjI; rename_tac y; case_tac y; auto simp: sem_inv_def mtx_ok_def)+

lemma objs_inv_kept:
  assumes S: "objs_inv S" and i: "sched_inv (kern S)" "sched_inv s'" and k: "keeps_suspended {} (kern S) s'"
  shows "objs_inv (S\<lparr>kern := s'\<rparr>)"
proof -
  have "obj_ok S (Sem 0)" using S by (simp add: objs_inv_def del: obj_ok.simps)
  then have c: "sem_ok (sems S 0) (kern S)" by simp
  then have "sync_ok (sem_waiters (sems S 0)) s'" by (intro sync_ok_kept [OF _ i k]) (simp_all add: sem_inv_def)
  then have "obj_ok (S\<lparr>kern := s'\<rparr>) (Sem 0)" using c by (simp add: sem_inv_def)
  moreover have "same_but (Sem 0) S (S\<lparr>kern := s'\<rparr>)" using same_but_upd(1) [where i = 0 and S = S and s = s' and b = "sems S 0"] by simp
  ultimately show ?thesis by (intro objs_inv_upd [OF S i(1), where X = "{}" and x = "Sem 0" and N = "{}"]) (use i k in auto)
qed

lemma running_waits_nowhere:
  assumes "sys_inv S"
  shows "running S \<notin> set (waits S x)"
proof -
  have "sync_ok (waits S x) (kern S)" using assms obj_ok_sync [of S x] by (simp add: sys_inv_def objs_inv_def)
  then show ?thesis
    using assms suspended_iff [of "kern S" "running S"] by (auto simp: sys_inv_def run_inv_def sync_ok_def)
qed

section \<open>Blocking and waking\<close>

lemma blocked_switch:
  assumes i: "run_inv s" and b: "sync_blocked ty s s'"
  shows "sched_inv s'" "next_ok s'" "\<not> pays s'" "keeps_suspended {} s s'"
proof -
  have si: "sched_inv s" and run: "state (threads s (CURRENT_THREAD_CTX s)) = Running" using i by (auto simp: run_inv_def)
  note I = sched_invD [OF si] and bb = b [unfolded sync_blocked_def]
  let ?c = "CURRENT_THREAD_CTX s"
  have c: "state (threads s' ?c) = Suspended" by (rule sync_blocked_suspended [OF b])
  show "sched_inv s'"
  proof (rule sched_invI [OF si])
    show "kinv s'" "same_run s s'" using bb by (simp_all add: same_run_def)
    show "state (threads s u) = Running" if "state (threads s' u) = Running" for u
      using that bb c by (cases "u = ?c") auto
    show "u \<in> waiting s'" if "is_blocked (state (threads s' u))" for u
      using that bb I(8) [of u] by (cases "u = ?c") auto
    show "state (threads s' ?c) \<noteq> Ready" using c by simp
  qed
  show "next_ok s'" using first_active_next [of s'] bb by simp
  show "\<not> pays s'" using bb c by (auto simp: pays_def)
  have "u \<noteq> ?c" if "state (threads s u) = Suspended" for u using that run by auto
  then show "keeps_suspended {} s s'" using bb by (simp add: keeps_suspended_def)
qed

lemma woken_switch:
  assumes i: "run_inv s" and u: "unblocked t s s'" and t: "t \<in> waiting s"
  shows "sched_inv s'" "next_ok s'" "keeps_suspended {t} s s'" "state (threads s' (CURRENT_THREAD_CTX s')) = Running"
proof -
  have si: "sched_inv s" and run: "state (threads s (CURRENT_THREAD_CTX s)) = Running" using i by (auto simp: run_inv_def)
  note I = sched_invD [OF si] and uu = u [unfolded unblocked_def]
  have ct: "CURRENT_THREAD_CTX s \<noteq> t" using wq_ok_blocked [OF I(11) t] run by (auto simp: is_blocked_def)
  show "sched_inv s'"
  proof (rule sched_invI [OF si])
    show "kinv s'" "same_run s s'" using uu by (simp_all add: same_run_def)
    show "state (threads s v) = Running" if "state (threads s' v) = Running" for v
      using that uu by (cases "v = t") auto
    show "v \<in> waiting s'" if "is_blocked (state (threads s' v))" for v
      using that uu I(8) [of v] by (cases "v = t") (auto simp: is_blocked_def)
    show "state (threads s' (CURRENT_THREAD_CTX s)) \<noteq> Ready" using uu ct run by simp
  qed
  show "next_ok s'" using first_active_next [of s'] uu by simp
  show "keeps_suspended {t} s s'" using uu by (simp add: keeps_suspended_def)
  show "state (threads s' (CURRENT_THREAD_CTX s')) = Running" using uu ct run by simp
qed

text \<open>The state after the event is ready for the context switch.\<close>

definition switchable :: "kstate \<Rightarrow> bool" where
  "switchable s \<longleftrightarrow> sched_inv s \<and> next_ok s \<and> (\<not> pendsv s \<longrightarrow> state (threads s (CURRENT_THREAD_CTX s)) = Running)"

lemma run_inv_switchable: "run_inv s \<Longrightarrow> switchable s"
  by (simp add: run_inv_def switchable_def)

lemma retouched_switch:
  assumes i: "sched_inv s" "next_ok s" and r: "retouched s s'"
  shows "sched_inv s'" "next_ok s'" "keeps_suspended {} s s'" "CURRENT_THREAD_CTX s' = CURRENT_THREAD_CTX s"
    "CURRENT_THREAD_IS_CFS s' = CURRENT_THREAD_IS_CFS s" "waiting s' = waiting s" "pendsv s' = pendsv s"
proof -
  have k: "kinv s'" "kt_step s s'" "queued s' = queued s" "threads s' = threads s" "next_kept s s'"
    using r by (simp_all add: retouched_def)
  show c: "CURRENT_THREAD_CTX s' = CURRENT_THREAD_CTX s" "CURRENT_THREAD_IS_CFS s' = CURRENT_THREAD_IS_CFS s"
    "waiting s' = waiting s" "pendsv s' = pendsv s"
    by (simp_all add: kt_step_queues [OF k(2)] kt_step_waiting [OF k(2)] kt_step_pendsv [OF k(2)])
  show "sched_inv s'"
    using i(1) k(1,4) by (simp add: sched_inv_def kt_step_queues [OF k(2)] kt_step_waiting [OF k(2)])
  show "next_ok s'"
    using i(2) k(3,5) first_active_next [OF k(1)] kt_step_queues(2) [OF k(2)] unfolding next_kept_def next_ok_def by metis
  show "keeps_suspended {} s s'" using k(4) by (simp add: keeps_suspended_def)
qed

section \<open>How an event moves tokens and guards\<close>

definition moves :: "'m sys_event \<Rightarrow> 'm outcome \<Rightarrow> nat \<Rightarrow> int" where
  "moves e ok i = (if ok \<noteq> Done then 0 else if e = Give i then 1 else if e = Take i \<or> e = TryTake i then - 1 else 0)"

text \<open>A thread holds a guard of a mutex as its owner; while it waits in \<open>lock\<close> it is going to get one.\<close>

definition held :: "'m system \<Rightarrow> nat \<Rightarrow> addr \<Rightarrow> int" where
  "held S i u = (if owner (mtxs S i) = u then 1 else 0) + (if u \<in> set (mtx_waiters (mtxs S i)) then 1 else 0)"

definition guard_moves :: "'m sys_event \<Rightarrow> 'm outcome \<Rightarrow> addr \<Rightarrow> nat \<Rightarrow> addr \<Rightarrow> int" where
  "guard_moves e ok c i u =
     (if ok \<noteq> Done \<or> u \<noteq> c then 0 else if e = Lock i \<or> e = TryLock i then 1 else if e = Unlock i then - 1 else 0)"

text \<open>The message an event puts into queue \<open>i\<close> and the one it takes out.\<close>

definition put_in :: "'m sys_event \<Rightarrow> 'm outcome \<Rightarrow> nat \<Rightarrow> 'm list" where
  "put_in e ok i = (if ok \<noteq> Done then [] else case e of
     Send j v \<Rightarrow> if j = i then [v] else [] | TrySend j v \<Rightarrow> if j = i then [v] else [] | _ \<Rightarrow> [])"

definition taken_out :: "'m sys_event \<Rightarrow> 'm outcome \<Rightarrow> nat \<Rightarrow> 'm list" where
  "taken_out e ok i = (if e = Receive i \<or> e = TryReceive i then (case ok of Got m \<Rightarrow> [m] | _ \<Rightarrow> []) else [])"

text \<open>The protected values after an event.\<close>

definition written :: "'m sys_event \<Rightarrow> (nat \<Rightarrow> 'm) \<Rightarrow> nat \<Rightarrow> 'm" where
  "written e c = (case e of Write i v \<Rightarrow> c(i := v) | _ \<Rightarrow> c)"

text \<open>What an event reports.\<close>

primrec expected :: "'m sys_event \<Rightarrow> 'm system \<Rightarrow> 'm outcome" where
  "expected (KernelEvent e) S = Done"
| "expected (Counter c) S = Done"
| "expected (Take i) S = Done"
| "expected (TryTake i) S = (if 0 < sem_tokens (sems S i) then Done else Refused)"
| "expected (Give i) S = (if sem_val (sems S i) = int (sem_capacity (sems S i)) then Refused else Done)"
| "expected (Lock i) S = (if owner (mtxs S i) = running S then Refused else Done)"
| "expected (TryLock i) S = (if owner (mtxs S i) = 0 then Done else Refused)"
| "expected (Unlock i) S = Done"
| "expected (SetStart v) S = Done"
| "expected (Read i) S = Val (cells S i)"
| "expected (Write i v) S = Done"
| "expected (Send i v) S = (if length (contents (mqs S i)) = unat (capacity (mqs S i)) then Retries else Done)"
| "expected (TrySend i v) S = (if length (contents (mqs S i)) = unat (capacity (mqs S i)) then Refused else Done)"
| "expected (Receive i) S = (case contents (mqs S i) of [] \<Rightarrow> Retries | m # _ \<Rightarrow> Got m)"
| "expected (TryReceive i) S = (case contents (mqs S i) of [] \<Rightarrow> Refused | m # _ \<Rightarrow> Got m)"

text \<open>
  The waiters of a message queue and of a semaphore: a message that is put in wakes the first receiver, one that is taken out
  the first sender, and a call that cannot proceed adds its thread; only a take adds its thread to the waiters of a semaphore.
\<close>

definition waiter_moves :: "'m sys_event \<Rightarrow> 'm outcome \<Rightarrow> 'm system \<Rightarrow> 'm system \<Rightarrow> bool" where
  "waiter_moves e ok S S' \<longleftrightarrow> (\<forall>i.
     (if put_in e ok i \<noteq> [] then receivers (mqs S' i) = tl (receivers (mqs S i))
      else if e = Receive i \<and> ok = Retries then set (receivers (mqs S' i)) = insert (running S) (set (receivers (mqs S i)))
      else receivers (mqs S' i) = receivers (mqs S i))
     \<and> (if taken_out e ok i \<noteq> [] then senders (mqs S' i) = tl (senders (mqs S i))
      else if (\<exists>v. e = Send i v) \<and> ok = Retries then set (senders (mqs S' i)) = insert (running S) (set (senders (mqs S i)))
      else senders (mqs S' i) = senders (mqs S i))
     \<and> set (sem_waiters (sems S' i)) \<subseteq> (if e = Take i then {running S} else {}) \<union> set (sem_waiters (sems S i)))"

definition sys_moves :: "'m sys_event \<Rightarrow> 'm outcome \<Rightarrow> 'm system \<Rightarrow> 'm system \<Rightarrow> bool" where
  "sys_moves e ok S S' \<longleftrightarrow>
     (\<forall>i. sem_val (sems S' i) = sem_val (sems S i) + moves e ok i \<and> sem_capacity (sems S' i) = sem_capacity (sems S i))
     \<and> (\<forall>i u. u \<noteq> 0 \<longrightarrow> held S' i u = held S i u + guard_moves e ok (running S) i u)
     \<and> (\<forall>i. contents (mqs S i) @ put_in e ok i = taken_out e ok i @ contents (mqs S' i) \<and> capacity (mqs S' i) = capacity (mqs S i))
     \<and> (\<forall>i. owner (mtxs S' i) \<noteq> owner (mtxs S i) \<longrightarrow> owner (mtxs S i) = 0 \<or> e = Unlock i \<and> ok = Done)
     \<and> cells S' = written e (cells S) \<and> ok = expected e S \<and> waiter_moves e ok S S'"

definition delivered :: "'m sys_event \<Rightarrow> 'm system \<Rightarrow> 'm outcome \<times> 'm system \<Rightarrow> bool" where
  "delivered e S = (\<lambda>(ok, S'). switchable (kern S') \<and> objs_inv S' \<and> sys_moves e ok S S'
     \<and> charge_fits (elapsed_ticks_since_last_interrupt (kern S')) (kern S'))"

lemma sys_invD:
  assumes "sys_inv S"
  shows "run_inv (kern S)" "sched_inv (kern S)" "kinv (kern S)" "next_ok (kern S)" "objs_inv S" "sem_ok (sems S i) (kern S)"
    "mtx_ok (mtxs S i) (kern S)" "running S \<noteq> 0" "state (threads (kern S) (running S)) = Running" "mq_ok (mqs S i) (kern S)"
proof -
  show r: "run_inv (kern S)" "sched_inv (kern S)" "objs_inv S" "next_ok (kern S)" "state (threads (kern S) (running S)) = Running"
    using assms by (simp_all add: sys_inv_def run_inv_def)
  show "kinv (kern S)" "running S \<noteq> 0" using sched_invD [OF r(2)] by blast+
  have o: "obj_ok S (Sem i)" "obj_ok S (Mtx i)" "obj_ok S (Snd i)" "obj_ok S (Rcv i)"
    using r(3) by (simp_all add: objs_inv_def del: obj_ok.simps)
  have "set (waits S (Snd i)) \<inter> set (waits S (Rcv i)) = {}" using r(3) by (simp add: objs_inv_def del: waits.simps)
  then show "sem_ok (sems S i) (kern S)" "mtx_ok (mtxs S i) (kern S)" "mq_ok (mqs S i) (kern S)"
    using o by (simp_all add: mq_ok_def)
qed

section \<open>Semaphores\<close>

lemma sem_moves:
  assumes "e = Take i \<or> e = TryTake i \<or> e = Give i" "sem_val b = sem_val (sems S i) + moves e ok i" "sem_capacity b = sem_capacity (sems S i)"
    "ok = expected e S" "set (sem_waiters b) \<subseteq> (if e = Take i then {running S} else {}) \<union> set (sem_waiters (sems S i))"
  shows "sys_moves e ok S (S\<lparr>kern := s, sems := (sems S)(i := b)\<rparr>)"
  using assms by (auto simp: sys_moves_def moves_def held_def guard_moves_def put_in_def taken_out_def written_def waiter_moves_def)

lemma take_step:
  assumes S: "sys_inv S" and a: "sys_admissible (Take i) S"
  shows "wpo (sys_deliver (Take i) S) (delivered (Take i) S)"
proof -
  let ?s = "kern S" and ?b = "sems S i"
  note I = sys_invD [OF S]
  from sem.take_ok [OF I(6,3), of i] a obtain b' s' where
    t: "sem_take ?b ?s = Some (Inr (), b', s')" "sem_ok b' s'" "sem_val b' = sem_val ?b - 1"
      "sem_capacity b' = sem_capacity ?b"
      "if 0 < sem_tokens ?b then s' = ?s
       else sync_blocked (sem_type ?b) ?s s' \<and> pendsv s' \<and> set (sem_waiters b') = insert (running S) (set (sem_waiters ?b))"
    by (auto simp: wpo_def blocks_def split: if_splits)
  let ?S = "S\<lparr>kern := s', sems := (sems S)(i := b')\<rparr>"
  have d: "sys_deliver (Take i) S = Some (Done, ?S)" using t(1) by (simp add: with_sem_def)
  have sw: "set (sem_waiters b') \<subseteq> insert (running S) (set (sem_waiters ?b))"
    using t(1,5) sem.take_token [of ?b ?s] by (cases "0 < sem_tokens ?b") auto
  have v: "sys_moves (Take i) Done S ?S"
    by (rule sem_moves) (use t(3,4) sw in \<open>simp_all add: moves_def\<close>)
  show ?thesis
  proof (cases "0 < sem_tokens ?b")
    case True
    then have s': "s' = ?s" using t(5) by simp
    have w: "sem_waiters b' = sem_waiters ?b" using sem.take_token [OF True, of ?s] t(1) by auto
    have "objs_inv ?S"
      by (rule objs_inv_upd [OF I(5,2) _ _ same_but_upd(1), where X = "{}" and N = "{}"]) (use I(2) s' t(2) w in auto)
    moreover have "charge_fits (elapsed_ticks_since_last_interrupt s') s'" using a True d by (simp add: sys_fits_def)
    ultimately show ?thesis using d v s' run_inv_switchable [OF I(1)] by (simp add: delivered_def)
  next
    case False
    then have b: "sync_blocked (sem_type ?b) ?s s'" "pendsv s'"
      "set (sem_waiters b') = insert (running S) (set (sem_waiters ?b))" using t(5) by simp_all
    note w = blocked_switch [OF I(1) b(1)]
    have "objs_inv ?S"
      by (rule objs_inv_upd [OF I(5,2) _ _ same_but_upd(1), where X = "{}" and N = "{running S}"])
        (use w t(2) b(3) running_waits_nowhere [OF S] in auto)
    then show ?thesis using d v w b(2) by (simp add: delivered_def switchable_def charge_fits_def)
  qed
qed

lemma try_take_step:
  assumes S: "sys_inv S" and a: "sys_admissible (TryTake i) S"
  shows "wpo (sys_deliver (TryTake i) S) (delivered (TryTake i) S)"
proof -
  let ?s = "kern S" and ?b = "sems S i"
  note I = sys_invD [OF S]
  let ?ok = "expected (TryTake i) S"
  obtain b' where t: "sys_deliver (TryTake i) S = Some (?ok, S\<lparr>kern := ?s, sems := (sems S)(i := b')\<rparr>)"
    "sem_tokens b' = sem_tokens ?b - 1" "sem_waiters b' = sem_waiters ?b" "sem_capacity b' = sem_capacity ?b"
  proof (cases "0 < sem_tokens ?b")
    case True
    then show ?thesis using that sem.take_token [OF True, of ?s] sem_try_take_law(1) [OF True, of ?s] by (auto simp: with_sem_def)
  next
    case False
    then show ?thesis using that [of ?b] sem_try_take_law(2) [of ?b ?s] by (simp add: with_sem_def)
  qed
  let ?S = "S\<lparr>kern := ?s, sems := (sems S)(i := b')\<rparr>"
  have ok: "sem_ok b' ?s" using I(6) [of i] t(2-4) by (auto simp: sem_inv_def)
  have "sys_moves (TryTake i) ?ok S ?S"
    by (rule sem_moves) (use t(2-4) in \<open>auto simp: moves_def sem_value_def\<close>)
  moreover have "objs_inv ?S"
    by (rule objs_inv_upd [OF I(5,2) _ _ same_but_upd(1), where X = "{}" and N = "{}"]) (use I(2) ok t(3) in auto)
  moreover have "charge_fits (elapsed_ticks_since_last_interrupt ?s) ?s" using a t(1) by (simp add: sys_fits_def)
  ultimately show ?thesis using t(1) run_inv_switchable [OF I(1)] by (simp add: delivered_def)
qed

lemma give_step:
  assumes S: "sys_inv S" and a: "sys_admissible (Give i) S"
  shows "wpo (sys_deliver (Give i) S) (delivered (Give i) S)"
proof -
  let ?s = "kern S" and ?b = "sems S i"
  note I = sys_invD [OF S]
  from sem.give_ok [OF I(6,3), of i] a obtain r b' s' where
    g: "sem_give ?b ?s = Some (r, b', s')" "sem_ok b' s'" "sem_capacity b' = sem_capacity ?b"
      "if sem_val ?b = int (sem_capacity ?b) then r = Inl SemFull \<and> b' = ?b \<and> s' = ?s
       else r = Inr () \<and> sem_val b' = sem_val ?b + 1"
      "sem_waiters ?b \<noteq> [] \<longrightarrow> unblocked (hd (sem_waiters ?b)) ?s s' \<and> sem_waiters b' = tl (sem_waiters ?b) \<and> pendsv s'"
    by (auto simp: wpo_def wakes_def)
  let ?S = "S\<lparr>kern := s', sems := (sems S)(i := b')\<rparr>"
  have d: "sys_deliver (Give i) S = Some (outcome_of r, ?S)" using g(1) by (simp add: with_sem_def)
  then have f: "charge_fits (elapsed_ticks_since_last_interrupt s') s'" using a by (simp add: sys_fits_def)
  have nil: "s' = ?s" "sem_waiters b' = []" if "sem_waiters ?b = []"
    using sem.give_store [OF that, of ?s] sem.give_full [OF that, of ?s] g(1) that
    by (cases "sem_tokens ?b < sem_capacity ?b"; auto)+
  have sw: "set (sem_waiters b') \<subseteq> set (sem_waiters ?b)" using nil g(5) by (cases "sem_waiters ?b") auto
  have v: "sys_moves (Give i) (outcome_of r) S ?S"
    by (rule sem_moves) (use g(3,4) sw in \<open>auto simp: moves_def split: if_splits\<close>)
  show ?thesis
  proof (cases "sem_waiters ?b")
    case Nil
    note s' = nil [OF Nil]
    have "objs_inv ?S"
      by (rule objs_inv_upd [OF I(5,2) _ _ same_but_upd(1), where X = "{}" and N = "{}"]) (use I(2) s' g(2) in auto)
    then show ?thesis using d v f s' run_inv_switchable [OF I(1)] by (simp add: delivered_def)
  next
    case (Cons t ws)
    have u: "unblocked t ?s s'" "sem_waiters b' = ws" using g(5) Cons by simp_all
    have t: "t \<in> waiting ?s" using sync_ok_waiting [of "sem_waiters ?b" ?s] I(6) [of i] Cons by (auto simp: sem_inv_def)
    note w = woken_switch [OF I(1) u(1) t]
    have "objs_inv ?S"
      by (rule objs_inv_upd [OF I(5,2) _ _ same_but_upd(1), where X = "{t}" and N = "{}"]) (use w g(2) u(2) Cons in auto)
    then show ?thesis using d v f w by (simp add: delivered_def switchable_def)
  qed
qed

section \<open>Mutexes\<close>

lemma mtx_moves:
  assumes "\<And>u. u \<noteq> 0 \<Longrightarrow> (if owner m = u then 1 else 0) + (if u \<in> set (mtx_waiters m) then 1 else 0)
      = held S i u + guard_moves e ok (running S) i u"
    and "e = Lock i \<or> e = TryLock i \<or> e = Unlock i"
    and "owner m \<noteq> owner (mtxs S i) \<Longrightarrow> owner (mtxs S i) = 0 \<or> e = Unlock i \<and> ok = Done" "ok = expected e S"
  shows "sys_moves e ok S (S\<lparr>kern := s, mtxs := (mtxs S)(i := m)\<rparr>)"
  using assms by (auto simp: sys_moves_def moves_def held_def guard_moves_def put_in_def taken_out_def written_def waiter_moves_def)

text \<open>\<open>lock\<close> and \<open>try_lock\<close> of a free mutex, and their refusals, involve the mutex only.\<close>

lemma lock_simple_step:
  assumes S: "sys_inv S" and e: "e = Lock i \<and> owner (mtxs S i) \<in> {0, running S} \<or> e = TryLock i" and a: "sys_fits e S"
  shows "wpo (sys_deliver e S) (delivered e S)"
proof -
  let ?s = "kern S" and ?m = "mtxs S i" and ?c = "running S"
  note I = sys_invD [OF S]
  let ?f = "owner ?m = 0" and ?r = "if owner ?m = 0 then Done else Refused"
  let ?m' = "if ?f then ?m\<lparr>owner := ?c\<rparr> else ?m"
  let ?S = "S\<lparr>kern := ?s, mtxs := (mtxs S)(i := ?m')\<rparr>"
  have d: "sys_deliver e S = Some (?r, ?S)"
    using e lock_free [OF I(8)] lock_own [OF I(8)] try_lock_taken [OF I(8)]
    by (cases ?f; cases "owner ?m = ?c") (auto simp: with_mtx_def)
  have c: "?c \<notin> set (mtx_waiters ?m)" using running_waits_nowhere [OF S, of "Mtx i"] by simp
  have free: "?f \<Longrightarrow> mtx_waiters ?m = []" using I(7) [of i] by (simp add: mtx_ok_def)
  have ok: "mtx_ok ?m' ?s" using I(7) [of i] I(8) free by (auto simp: mtx_ok_def)
  have "sys_moves e ?r S ?S"
    by (rule mtx_moves) (use e c free I(8) in \<open>auto simp: held_def guard_moves_def split: if_splits\<close>)
  moreover have "objs_inv ?S"
    by (rule objs_inv_upd [OF I(5,2) _ _ same_but_upd(2), where X = "{}" and N = "{}"]) (use I(2) ok in \<open>auto simp: fun_eq_iff\<close>)
  moreover have "charge_fits (elapsed_ticks_since_last_interrupt ?s) ?s" using a d by (simp add: sys_fits_def)
  ultimately show ?thesis using d run_inv_switchable [OF I(1)] by (simp add: delivered_def)
qed

lemma lock_contended_step:
  assumes S: "sys_inv S" and o: "owner (mtxs S i) \<notin> {0, running S}" and a: "sys_admissible (Lock i) S"
  shows "wpo (sys_deliver (Lock i) S) (delivered (Lock i) S)"
proof -
  let ?s = "kern S" and ?m = "mtxs S i" and ?c = "running S"
  note I = sys_invD [OF S]
  have a': "can_block ?s" "between_ticks ?s" "has_timer ?s (owner ?m)" "owner ?m \<noteq> ?c" using a o by auto
  from lock_contended_ok [OF I(3) a'(1,2) I(7) [of i] a'(3,4)] obtain m' s' x where
    l: "lock ?m ?s = Some (Inr (), m', s')" "mtx_ok m' s'" "owner m' = owner ?m"
      "set (mtx_waiters m') = insert ?c (set (mtx_waiters ?m))" "pendsv s'" "sync_blocked SyncMutex ?s x" "retouched x s'"
    by (auto simp: wpo_def)
  let ?S = "S\<lparr>kern := s', mtxs := (mtxs S)(i := m')\<rparr>"
  have d: "sys_deliver (Lock i) S = Some (Done, ?S)" using l(1) by (simp add: with_mtx_def)
  note w = blocked_switch [OF I(1) l(6)]
  note r = retouched_switch [OF w(1,2) l(7)]
  have c: "?c \<notin> set (mtx_waiters ?m)" using running_waits_nowhere [OF S, of "Mtx i"] by simp
  have "sys_moves (Lock i) Done S ?S"
    by (rule mtx_moves) (use c l(3,4) a'(4) in \<open>auto simp: held_def guard_moves_def\<close>)
  moreover have "objs_inv ?S"
    by (rule objs_inv_upd [OF I(5,2) _ _ same_but_upd(2), where X = "{}" and N = "{?c}"])
      (use r l(2,4) running_waits_nowhere [OF S] keeps_suspended_trans [OF w(4) r(3)] in auto)
  moreover have "\<not> pays s'"
    using w(3) l(7) kt_step_queues [of x s'] by (auto simp: pays_def retouched_def)
  ultimately show ?thesis using d r l(5) by (simp add: delivered_def switchable_def charge_fits_def)
qed

lemma unlock_step:
  assumes S: "sys_inv S" and o: "owner (mtxs S i) = running S" and a: "sys_admissible (Unlock i) S"
  shows "wpo (sys_deliver (Unlock i) S) (delivered (Unlock i) S)"
proof -
  let ?s = "kern S" and ?m = "mtxs S i" and ?c = "running S"
  note I = sys_invD [OF S]
  have nw: "?c \<notin> waiting ?s" using wq_ok_blocked [OF sched_invD(11) [OF I(2)], of ?c] I(9) by (auto simp: is_blocked_def)
  from unlock_ok [OF I(3) _ I(7) [of i]] a o nw obtain m' s' x where
    u: "unlock_guard ?m ?s = Some (Inr (), m', s')" "mtx_ok m' s'" "owner m' = head_or_null (mtx_waiters ?m)"
      "mtx_waiters m' = tl (mtx_waiters ?m)" "mtx_waiters ?m \<noteq> [] \<longrightarrow> pendsv s'" "retouched ?s x"
      "if mtx_waiters ?m = [] then s' = x else unblocked (hd (mtx_waiters ?m)) x s'"
    by (auto simp: wpo_def)
  let ?S = "S\<lparr>kern := s', mtxs := (mtxs S)(i := m')\<rparr>"
  have d: "sys_deliver (Unlock i) S = Some (Done, ?S)" using u(1) by (simp add: with_mtx_def)
  then have f: "charge_fits (elapsed_ticks_since_last_interrupt s') s'" using a by (simp add: sys_fits_def)
  note r = retouched_switch [OF I(2,4) u(6)]
  have rx: "run_inv x" using r I(9) u(6) by (simp add: run_inv_def retouched_def)
  have di: "distinct (mtx_waiters ?m)" using I(7) [of i] sync_ok_distinct by (auto simp: mtx_ok_def)
  have "sys_moves (Unlock i) Done S ?S"
    by (rule mtx_moves; cases "mtx_waiters ?m")
      (use u(3,4) o di running_waits_nowhere [OF S, of "Mtx i"] in \<open>auto simp: held_def guard_moves_def head_or_null_def\<close>)
  moreover have "objs_inv ?S \<and> switchable s'"
  proof (cases "mtx_waiters ?m")
    case Nil
    then have "s' = x" using u(7) by simp
    then show ?thesis
      using run_inv_switchable [OF rx] Nil u(4)
      by (intro conjI objs_inv_upd [OF I(5,2) _ _ same_but_upd(2), where X = "{}" and N = "{}"]) (use r u(2) in auto)
  next
    case (Cons t ws)
    then have ub: "unblocked t x s'" using u(7) by simp
    have "t \<in> waiting x" using sync_ok_waiting [of "mtx_waiters ?m" ?s] I(7) [of i] Cons r(6) by (auto simp: mtx_ok_def)
    note w = woken_switch [OF rx ub this]
    have ks: "keeps_suspended {t} ?s s'" using r(3) w(3) by (simp add: keeps_suspended_def)
    show ?thesis
      using w Cons u(4)
      by (intro conjI objs_inv_upd [OF I(5,2) _ _ same_but_upd(2), where X = "{t}" and N = "{}"])
        (use w u(2) ks in \<open>auto simp: switchable_def\<close>)
  qed
  ultimately show ?thesis using d f by (simp add: delivered_def)
qed

section \<open>Message queues\<close>

lemma mq_moves:
  assumes "contents (mqs S i) @ put_in e ok i = taken_out e ok i @ contents q"
    and "e = Send i v \<or> e = TrySend i v \<or> e = Receive i \<or> e = TryReceive i" "capacity q = capacity (mqs S i)"
    and "ok = expected e S" "waiter_moves e ok S (S\<lparr>kern := s, mqs := (mqs S)(i := q)\<rparr>)"
  shows "sys_moves e ok S (S\<lparr>kern := s, mqs := (mqs S)(i := q)\<rparr>)"
  using assms by (auto simp: sys_moves_def moves_def held_def guard_moves_def put_in_def taken_out_def written_def)

text \<open>A step that wakes the first of the threads waiting at \<open>x\<close>, if there is one.\<close>

lemma woke_step:
  assumes S: "sys_inv S" and w: "woke_first (waits S x) (kern S) s" and f: "charge_fits (elapsed_ticks_since_last_interrupt s) s"
    and S': "kern S' = s" "same_but x S S'" "obj_ok S' x" "waits S' x = tl (waits S x)" and m: "sys_moves e ok S S'"
  shows "delivered e S (ok, S')"
proof (cases "waits S x")
  case Nil
  then have s: "s = kern S" using w by (simp add: woke_first_def)
  note I = sys_invD [OF S]
  have "objs_inv S'"
    by (rule objs_inv_upd [OF I(5,2), where X = "{}" and x = x and N = "{}"]) (use I(2) S' s Nil in auto)
  then show ?thesis using run_inv_switchable [OF I(1)] m f s S'(1) by (simp add: delivered_def)
next
  case (Cons t ws)
  note I = sys_invD [OF S]
  have u: "unblocked t (kern S) s" using w Cons by (simp add: woke_first_def)
  have "sync_ok (waits S x) (kern S)" using obj_ok_sync [of S x] I(5) by (simp add: objs_inv_def)
  then have "t \<in> waiting (kern S)" using sync_ok_waiting Cons by fastforce
  note ws = woken_switch [OF I(1) u this]
  have "objs_inv S'"
    by (rule objs_inv_upd [OF I(5,2), where X = "{t}" and x = x and N = "{}"]) (use ws S' Cons in auto)
  then show ?thesis using ws m f S'(1) by (simp add: delivered_def switchable_def)
qed

text \<open>A step that suspends the running thread at \<open>x\<close>.\<close>

lemma block_step:
  assumes S: "sys_inv S" and b: "sync_blocked ty (kern S) s" "pendsv s"
    and S': "kern S' = s" "same_but x S S'" "obj_ok S' x" "set (waits S' x) = insert (running S) (set (waits S x))"
    and m: "sys_moves e ok S S'"
  shows "delivered e S (ok, S')"
proof -
  note I = sys_invD [OF S] and w = blocked_switch [OF sys_invD(1) [OF S] b(1)]
  have "objs_inv S'"
    by (rule objs_inv_upd [OF I(5,2), where X = "{}" and x = x and N = "{running S}"])
      (use w S' running_waits_nowhere [OF S] in auto)
  then show ?thesis using m w b(2) S'(1) by (simp add: delivered_def switchable_def charge_fits_def)
qed

lemma mq_same_step:
  assumes S: "sys_inv S" and f: "charge_fits (elapsed_ticks_since_last_interrupt (kern S)) (kern S)" and m: "sys_moves e ok S S"
  shows "delivered e S (ok, S)"
  using sys_invD [OF S] run_inv_switchable m f by (simp add: delivered_def)

lemma try_send_step:
  assumes S: "sys_inv S" and a: "wakes (receivers (mqs S i)) S" and e: "e = Send i v \<or> e = TrySend i v"
    and n: "length (contents (mqs S i)) \<noteq> unat (capacity (mqs S i))"
  obtains q s where "try_send v (mqs S i) (kern S) = Some (Inr (), q, s)"
    "charge_fits (elapsed_ticks_since_last_interrupt s) s \<Longrightarrow> delivered e S (Done, S\<lparr>kern := s, mqs := (mqs S)(i := q)\<rparr>)"
proof -
  let ?q = "mqs S i"
  note I = sys_invD [OF S]
  from try_send_ok [OF I(10) [of i] I(3), of v] a n obtain q s where
    t: "try_send v ?q (kern S) = Some (Inr (), q, s)" "mq_ok q s" "contents q = contents ?q @ [v]"
      "receivers q = tl (receivers ?q)" "senders q = senders ?q" "woke_first (receivers ?q) (kern S) s" "capacity q = capacity ?q"
    by (auto simp: wpo_def wakes_def)
  let ?S = "S\<lparr>kern := s, mqs := (mqs S)(i := q)\<rparr>"
  have r: "ring_ok q" "sync_ok (receivers q) s" using t(2) by (simp_all add: mq_ok_def)
  have m: "sys_moves e Done S ?S" by (rule mq_moves [of _ _ _ _ _ v]) (use e t(3-5,7) n in \<open>auto simp: put_in_def taken_out_def waiter_moves_def\<close>)
  have "delivered e S (Done, ?S)" if "charge_fits (elapsed_ticks_since_last_interrupt s) s"
    by (rule woke_step [OF S _ that _ same_but_upd(4) [OF t(5) r(1)]]) (use t r m in simp_all)
  then show thesis using that t(1) by blast
qed

lemma try_receive_step:
  assumes S: "sys_inv S" and a: "wakes (senders (mqs S i)) S" and e: "e = Receive i \<or> e = TryReceive i"
    and n: "contents (mqs S i) = v # vs"
  obtains q s where "try_receive (mqs S i) (kern S) = Some (Inr v, q, s)"
    "charge_fits (elapsed_ticks_since_last_interrupt s) s \<Longrightarrow> delivered e S (Got v, S\<lparr>kern := s, mqs := (mqs S)(i := q)\<rparr>)"
proof -
  let ?q = "mqs S i"
  note I = sys_invD [OF S]
  from try_receive_ok [OF I(10) [of i] I(3)] a n obtain q s where
    t: "try_receive ?q (kern S) = Some (Inr v, q, s)" "mq_ok q s" "contents q = vs"
      "senders q = tl (senders ?q)" "receivers q = receivers ?q" "woke_first (senders ?q) (kern S) s" "capacity q = capacity ?q"
    by (auto simp: wpo_def wakes_def)
  let ?S = "S\<lparr>kern := s, mqs := (mqs S)(i := q)\<rparr>"
  have r: "ring_ok q" "sync_ok (senders q) s" using t(2) by (simp_all add: mq_ok_def)
  have m: "sys_moves e (Got v) S ?S" by (rule mq_moves) (use e t(3-5,7) n in \<open>auto simp: put_in_def taken_out_def waiter_moves_def\<close>)
  have "delivered e S (Got v, ?S)" if "charge_fits (elapsed_ticks_since_last_interrupt s) s"
    by (rule woke_step [OF S _ that _ same_but_upd(3) [OF t(5) r(1)]]) (use t r m in simp_all)
  then show thesis using that t(1) by blast
qed

lemma mq_block_step:
  assumes S: "sys_inv S" and a: "blocks S" and e: "e = Send i v \<and> ty = SyncMessageQueueSend \<or> e = Receive i \<and> ty = SyncMessageQueueReceive"
    and n: "expected e S = Retries"
  obtains q s where "mq_block ty True (mqs S i) (kern S) = Some (Inr (), q, s)"
    "delivered e S (Retries, S\<lparr>kern := s, mqs := (mqs S)(i := q)\<rparr>)"
proof -
  let ?q = "mqs S i"
  note I = sys_invD [OF S]
  have b: "can_block (kern S)" "no_overdue (ktq_advance_time (elapsed_ticks_since_current_reload (kern S)) (kern S))"
    using a by (simp_all add: blocks_def)
  from mq_block_ok [OF I(10) [of i] I(3) b(1) I(9) b(2), of ty] obtain q s where
    t: "mq_block ty True ?q (kern S) = Some (Inr (), q, s)" "sync_blocked ty (kern S) s" "pendsv s" "mq_ok q s"
      "contents q = contents ?q" "(if ty = SyncMessageQueueSend then receivers q = receivers ?q else senders q = senders ?q)"
      "set (if ty = SyncMessageQueueSend then senders q else receivers q)
        = insert (running S) (set (if ty = SyncMessageQueueSend then senders ?q else receivers ?q))"
      "capacity q = capacity ?q"
    by (auto simp: wpo_def)
  let ?S = "S\<lparr>kern := s, mqs := (mqs S)(i := q)\<rparr>"
  have r: "ring_ok q" "sync_ok (receivers q) s" "sync_ok (senders q) s" using t(4) by (simp_all add: mq_ok_def)
  have m: "sys_moves e Retries S ?S" by (rule mq_moves [of _ _ _ _ _ v]) (use e t(5-8) n in \<open>auto simp: put_in_def taken_out_def waiter_moves_def split: if_splits\<close>)
  have "delivered e S (Retries, ?S)"
  proof (cases "ty = SyncMessageQueueSend")
    case True
    then have w: "receivers q = receivers ?q" using t(6) by simp
    show ?thesis by (rule block_step [OF S t(2,3) _ same_but_upd(3) [OF w r(1)] _ _ m]) (use True t(7) r in simp_all)
  next
    case False
    then have w: "senders q = senders ?q" using t(6) by simp
    show ?thesis by (rule block_step [OF S t(2,3) _ same_but_upd(4) [OF w r(1)] _ _ m]) (use False t(7) r in simp_all)
  qed
  then show thesis using that t(1) by blast
qed

text \<open>The rounds of the blocking calls.\<close>

lemma try_send_full: "length (contents q) = unat (capacity q) \<Longrightarrow> try_send v q s = Some (Inl MqFull, q, s)"
  by (simp add: try_send_def contents_def word_unat_eq_iff)

lemma try_receive_empty: "contents q = [] \<Longrightarrow> try_receive q s = Some (Inl MqEmpty, q, s)"
  by (simp add: try_receive_def contents_def unsigned_eq_0_iff)

lemma no_moves: "sys_moves e ok S S" if "ok = Refused" "ok = expected e S" "\<And>i v. e \<noteq> Write i v"
  using that by (auto split: sys_event.splits simp: sys_moves_def moves_def guard_moves_def put_in_def taken_out_def written_def waiter_moves_def)

lemma send_step:
  assumes S: "sys_inv S" and a: "sys_admissible (Send i v) S"
  shows "wpo (sys_deliver (Send i v) S) (delivered (Send i v) S)"
proof (cases "length (contents (mqs S i)) = unat (capacity (mqs S i))")
  case True
  with a have "blocks S" "expected (Send i v) S = Retries" by simp_all
  then obtain q s where "mq_block SyncMessageQueueSend True (mqs S i) (kern S) = Some (Inr (), q, s)"
    "delivered (Send i v) S (Retries, S\<lparr>kern := s, mqs := (mqs S)(i := q)\<rparr>)"
    using mq_block_step [OF S, of "Send i v" i v SyncMessageQueueSend] by blast
  then show ?thesis using try_send_full [OF True] by (simp add: with_mq_def send_round_def)
next
  case False
  obtain q s where t: "try_send v (mqs S i) (kern S) = Some (Inr (), q, s)"
    "charge_fits (elapsed_ticks_since_last_interrupt s) s \<Longrightarrow> delivered (Send i v) S (Done, S\<lparr>kern := s, mqs := (mqs S)(i := q)\<rparr>)"
    by (rule try_send_step [OF S _ _ False, of "Send i v" v]) (use a False in auto)
  then show ?thesis using a False by (simp add: with_mq_def send_round_def sys_fits_def)
qed

lemma try_send_event_step:
  assumes S: "sys_inv S" and a: "sys_admissible (TrySend i v) S"
  shows "wpo (sys_deliver (TrySend i v) S) (delivered (TrySend i v) S)"
proof (cases "length (contents (mqs S i)) = unat (capacity (mqs S i))")
  case True
  then show ?thesis using a try_send_full [OF True] mq_same_step [OF S _ no_moves, of Refused]
    by (simp add: with_mq_def sys_fits_def)
next
  case False
  obtain q s where t: "try_send v (mqs S i) (kern S) = Some (Inr (), q, s)"
    "charge_fits (elapsed_ticks_since_last_interrupt s) s \<Longrightarrow> delivered (TrySend i v) S (Done, S\<lparr>kern := s, mqs := (mqs S)(i := q)\<rparr>)"
    by (rule try_send_step [OF S _ _ False, of "TrySend i v" v]) (use a False in auto)
  then show ?thesis using a by (simp add: with_mq_def sys_fits_def)
qed

lemma receive_step:
  assumes S: "sys_inv S" and a: "sys_admissible (Receive i) S"
  shows "wpo (sys_deliver (Receive i) S) (delivered (Receive i) S)"
proof (cases "contents (mqs S i)")
  case Nil
  with a have "blocks S" "expected (Receive i) S = Retries" by simp_all
  then obtain q s where "mq_block SyncMessageQueueReceive True (mqs S i) (kern S) = Some (Inr (), q, s)"
    "delivered (Receive i) S (Retries, S\<lparr>kern := s, mqs := (mqs S)(i := q)\<rparr>)"
    using mq_block_step [OF S, of "Receive i" i _ SyncMessageQueueReceive] by blast
  then show ?thesis using try_receive_empty [OF Nil] by (simp add: with_mq_def receive_round_def)
next
  case (Cons v vs)
  obtain q s where t: "try_receive (mqs S i) (kern S) = Some (Inr v, q, s)"
    "charge_fits (elapsed_ticks_since_last_interrupt s) s \<Longrightarrow> delivered (Receive i) S (Got v, S\<lparr>kern := s, mqs := (mqs S)(i := q)\<rparr>)"
    by (rule try_receive_step [OF S _ _ Cons, of "Receive i"]) (use a Cons in auto)
  then show ?thesis using a Cons by (simp add: with_mq_def receive_round_def sys_fits_def)
qed

lemma try_receive_event_step:
  assumes S: "sys_inv S" and a: "sys_admissible (TryReceive i) S"
  shows "wpo (sys_deliver (TryReceive i) S) (delivered (TryReceive i) S)"
proof (cases "contents (mqs S i)")
  case Nil
  then show ?thesis using a try_receive_empty [OF Nil] mq_same_step [OF S _ no_moves, of Refused]
    by (simp add: with_mq_def sys_fits_def)
next
  case (Cons v vs)
  obtain q s where t: "try_receive (mqs S i) (kern S) = Some (Inr v, q, s)"
    "charge_fits (elapsed_ticks_since_last_interrupt s) s \<Longrightarrow> delivered (TryReceive i) S (Got v, S\<lparr>kern := s, mqs := (mqs S)(i := q)\<rparr>)"
    by (rule try_receive_step [OF S _ _ Cons, of "TryReceive i"]) (use a Cons in auto)
  then show ?thesis using a by (simp add: with_mq_def sys_fits_def)
qed

section \<open>Protected values\<close>

lemma cells_step:
  fixes S :: "'m system"
  assumes S: "sys_inv S" and a: "sys_admissible e S" and e: "e = Read i \<or> e = Write i v"
  shows "wpo (sys_deliver e S) (delivered e S)"
proof -
  define ok :: "'m outcome" where "ok = (if e = Read i then Val (cells S i) else Done)"
  let ?S = "S\<lparr>cells := written e (cells S)\<rparr>"
  note I = sys_invD [OF S]
  have d: "sys_deliver e S = Some (ok, ?S)"
    using e by (auto simp: ok_def mutex_def MutexGuard_deref_def MutexGuard_deref_mut_def written_def)
  have "obj_ok ?S x = obj_ok S x" "waits ?S x = waits S x" for x by (cases x; simp)+
  then have "objs_inv ?S" using I(5) by (simp add: objs_inv_def)
  moreover have "sys_moves e ok S ?S"
    using e by (auto simp: sys_moves_def moves_def held_def guard_moves_def put_in_def taken_out_def waiter_moves_def ok_def)
  moreover have "charge_fits (elapsed_ticks_since_last_interrupt (kern S)) (kern S)" using a d e by (auto simp: sys_fits_def)
  ultimately show ?thesis using d run_inv_switchable [OF I(1)] by (simp add: delivered_def)
qed

section \<open>Kernel events\<close>

text \<open>A real-time thread that restarts the count of its runtime.\<close>

lemma set_start_ok:
  assumes "run_inv s"
  obtains b s' where "set_rt_thread_start_time v s = Some (b, s')" "run_inv s'" "keeps_suspended {} s s'"
proof (cases "kind (threads s (CURRENT_THREAD_CTX s)) = Rt")
  case True
  let ?t = "CURRENT_THREAD_CTX s"
  let ?s = "set_runtime ?t v s"
  have i: "sched_inv s" and r: "next_ok s" "state (threads s ?t) = Running" using assms by (simp_all add: run_inv_def)
  note I = sched_invD [OF i]
  have st: "kt_step s ?s" by (rule kt_step_runtime)
  have q: "queued ?s = queued s" "waiting ?s = waiting s" by (simp_all add: set_runtime_def queued_def waiting_def)
  have "ktq_ok ?s" by (rule ktq_ok_frame [OF kinvD(4) [OF I(1)]]) (simp_all add: set_runtime_def)
  then have "kinv0 ?s"
    by (rule kt_step_kinv0 [OF st kinvD(1) [OF I(1)]]) (use kinvD(5) [OF I(1)] q in \<open>auto simp: links_def set_runtime_def\<close>)
  then have k: "kinv ?s" using kinvD(6) [OF I(1)] by (simp add: kinv_def set_runtime_def)
  have "sched_inv ?s"
    by (rule sched_invI [OF i k]) (use I(8) r(2) q in \<open>auto simp: same_run_def set_runtime_def is_blocked_def split: if_splits\<close>)
  then have "run_inv ?s" using r by (simp add: run_inv_def next_ok_def q) (simp add: set_runtime_def)
  moreover have "set_rt_thread_start_time v s = Some (True, ?s)"
    using True I(2) by (simp add: set_rt_thread_start_time_def upd_thread_def set_runtime_def require_def Let_def)
  moreover have "keeps_suspended {} s ?s" using r(2) by (auto simp: keeps_suspended_def set_runtime_def)
  ultimately show ?thesis using that by blast
next
  case False
  then have "set_rt_thread_start_time v s = Some (False, s)" by (simp add: set_rt_thread_start_time_def Let_def)
  moreover have "keeps_suspended {} s s" by (simp add: keeps_suspended_def)
  ultimately show ?thesis using that assms by blast
qed

text \<open>An event that changes only the kernel and needs no context switch.\<close>

lemma kernel_only_step:
  assumes S: "sys_inv S" and s: "run_inv s" "keeps_suspended {} (kern S) s" and d: "sys_deliver e S = Some (Done, S\<lparr>kern := s\<rparr>)"
    and f: "sys_fits e S" and e: "(\<exists>v. e = SetStart v) \<or> (\<exists>c. e = Counter c)"
  shows "wpo (sys_deliver e S) (delivered e S)"
proof -
  note I = sys_invD [OF S]
  have "sched_inv s" using s(1) by (simp add: run_inv_def)
  then have "objs_inv (S\<lparr>kern := s\<rparr>)" by (rule objs_inv_kept [OF I(5,2) _ s(2)])
  moreover have "charge_fits (elapsed_ticks_since_last_interrupt s) s" using f d by (simp add: sys_fits_def)
  ultimately show ?thesis using d e run_inv_switchable [OF s(1)]
    by (auto simp: delivered_def sys_moves_def moves_def held_def guard_moves_def put_in_def taken_out_def written_def waiter_moves_def)
qed

lemma counter_step:
  assumes S: "sys_inv S" and a: "sys_admissible (Counter c) S"
  shows "wpo (sys_deliver (Counter c) S) (delivered (Counter c) S)"
proof (rule kernel_only_step [OF S])
  show "run_inv (counter_at c (kern S))" using sys_invD(1) [OF S] by (simp add: counter_run_inv)
  show "keeps_suspended {} (kern S) (counter_at c (kern S))" by (simp add: keeps_suspended_def counter_at_def)
qed (use a in simp_all)

lemma set_start_step:
  assumes S: "sys_inv S" and a: "sys_admissible (SetStart v) S"
  shows "wpo (sys_deliver (SetStart v) S) (delivered (SetStart v) S)"
proof -
  obtain b s where s: "set_rt_thread_start_time v (kern S) = Some (b, s)" "run_inv s" "keeps_suspended {} (kern S) s"
    by (rule set_start_ok [OF sys_invD(1) [OF S]])
  show ?thesis by (rule kernel_only_step [OF S s(2,3)]) (use s(1) a in simp_all)
qed

lemma kernel_event_step:
  assumes S: "sys_inv S" and a: "sys_admissible (KernelEvent e) S"
  shows "wpo (sys_deliver (KernelEvent e) S) (delivered (KernelEvent e) S)"
proof -
  note I = sys_invD [OF S]
  from deliver_pending [OF I(1)] a obtain s where
    s: "deliver e (kern S) = Some s" "pending s" "charge_fits (elapsed_ticks_since_last_interrupt s) s"
      "keeps_suspended {} (kern S) s" by (auto simp: wpo_def)
  have p: "sched_inv s" "pendsv s" "next_ok s"
    using s(2) first_active_next [of s] sched_invD(1) [of s] by (auto simp: pending_def)
  show ?thesis using s p objs_inv_kept [OF I(5,2) p(1) s(4)]
    by (simp add: delivered_def switchable_def sys_moves_def moves_def held_def guard_moves_def put_in_def taken_out_def written_def waiter_moves_def)
qed

section \<open>Steps\<close>

inductive sys_step :: "'m system \<Rightarrow> 'm sys_event \<Rightarrow> 'm outcome \<Rightarrow> 'm system \<Rightarrow> bool" where
  sys_step: "sys_admissible e S \<Longrightarrow> sys_deliver e S = Some (ok, S1) \<Longrightarrow> sys_switch S1 = Some S' \<Longrightarrow> sys_step S e ok S'"

inductive_cases sys_stepE: "sys_step S e ok S'"

text \<open>Reading and writing the protected value, and the unlock, go through a guard.\<close>

definition uses_guard :: "'m sys_event \<Rightarrow> nat \<Rightarrow> bool" where
  "uses_guard e i \<longleftrightarrow> e = Unlock i \<or> e = Read i \<or> (\<exists>v. e = Write i v)"

definition owns :: "'m sys_event \<Rightarrow> 'm system \<Rightarrow> bool" where
  "owns e S \<longleftrightarrow> (\<forall>i. uses_guard e i \<longrightarrow> owner (mtxs S i) = running S)"

lemma deliver_ok:
  assumes "sys_inv S" "sys_admissible e S" "owns e S"
  shows "wpo (sys_deliver e S) (delivered e S)"
proof (cases e)
  case (Lock i)
  then show ?thesis
    using lock_simple_step [OF assms(1), of e i] lock_contended_step [OF assms(1), of i] assms(2)
    by (cases "owner (mtxs S i) \<in> {0, running S}") auto
next
  case (TryLock i)
  then show ?thesis using lock_simple_step [OF assms(1), of e i] assms(2) by simp
next
  case (Unlock i)
  then show ?thesis using unlock_step [OF assms(1), of i] assms(2,3) by (simp add: owns_def uses_guard_def)
next
  case (Read i)
  then show ?thesis using cells_step [OF assms(1,2)] by blast
next
  case (Write i v)
  then show ?thesis using cells_step [OF assms(1,2)] by blast
qed (use assms(2) take_step [OF assms(1)] give_step [OF assms(1)] kernel_event_step [OF assms(1)] set_start_step [OF assms(1)] counter_step [OF assms(1)]
  try_take_step [OF assms(1)] send_step [OF assms(1)]
  try_send_event_step [OF assms(1)] receive_step [OF assms(1)] try_receive_event_step [OF assms(1)] in simp_all)

lemma sys_movesD:
  assumes "sys_moves e ok S S'"
  shows "contents (mqs S i) @ put_in e ok i = taken_out e ok i @ contents (mqs S' i)" "capacity (mqs S' i) = capacity (mqs S i)"
    "cells S' = written e (cells S)" "ok = expected e S" "waiter_moves e ok S S'"
    "owner (mtxs S' i) \<noteq> owner (mtxs S i) \<longrightarrow> owner (mtxs S i) = 0 \<or> e = Unlock i"
  using assms unfolding sys_moves_def by blast+

lemma contents_bound: "ring_ok q \<Longrightarrow> length (contents q) \<le> unat (capacity q)"
  by (simp add: contents_def ring_ok_def word_le_nat_alt)

lemma sys_moves_kern [simp]: "sys_moves e ok S0 (S\<lparr>kern := s\<rparr>) = sys_moves e ok S0 S"
  by (simp add: sys_moves_def held_def waiter_moves_def)

lemma switch_ok:
  assumes "delivered e S0 (ok, S)"
  shows "wpo (sys_switch S) (\<lambda>S'. sys_inv S' \<and> sys_moves e ok S0 S')"
proof -
  have a: "switchable (kern S)" "objs_inv S" "charge_fits (elapsed_ticks_since_last_interrupt (kern S)) (kern S)"
    and m: "sys_moves e ok S0 S" using assms by (simp_all add: delivered_def)
  have i: "sched_inv (kern S)" using a(1) by (simp add: switchable_def)
  from PendSV_switch [OF i _ a(3)] a(1) obtain s' where
    s': "PendSV (kern S) = Some s'" "run_inv s'" "keeps_suspended {} (kern S) s'" by (auto simp: wpo_def switchable_def)
  then show ?thesis
    using objs_inv_kept [OF a(2) i _ s'(3)] m by (simp add: sys_switch_def sys_inv_def run_inv_def)
qed

lemma sys_step_ok:
  assumes "sys_inv S" "sys_admissible e S" "owns e S"
  shows "\<exists>ok S'. sys_step S e ok S'"
proof -
  from deliver_ok [OF assms] obtain ok S1 where d: "sys_deliver e S = Some (ok, S1)" "delivered e S (ok, S1)"
    by (auto simp: wpo_def)
  from switch_ok [OF d(2)] obtain S' where "sys_switch S1 = Some S'" by (auto simp: wpo_def)
  then show ?thesis using sys_step [OF assms(2) d(1)] by blast
qed

lemma sys_step_inv:
  assumes "sys_step S e ok S'" "sys_inv S" "owns e S"
  shows "sys_inv S' \<and> sys_moves e ok S S'"
proof -
  obtain S1 where s: "sys_admissible e S" "sys_deliver e S = Some (ok, S1)" "sys_switch S1 = Some S'"
    using assms(1) by (rule sys_stepE)
  have "delivered e S (ok, S1)" using deliver_ok [OF assms(2) s(1) assms(3)] s(2) by (simp add: wpo_def)
  from switch_ok [OF this] show ?thesis using s(3) by (simp add: wpo_def)
qed

section \<open>Runs\<close>

text \<open>The events that the hardware causes, whatever the running thread does.\<close>

definition by_hardware :: "'m sys_event \<Rightarrow> bool" where
  "by_hardware e \<longleftrightarrow> e = KernelEvent Tick \<or> (\<exists>c. e = Counter c)"

lemma by_hardware_simps [simp]:
  "by_hardware (KernelEvent d) \<longleftrightarrow> d = Tick" "by_hardware (Counter c)" "\<not> by_hardware (SetStart v)"
  "\<not> by_hardware (Take i)" "\<not> by_hardware (TryTake i)" "\<not> by_hardware (Give i)" "\<not> by_hardware (Lock i)" "\<not> by_hardware (TryLock i)"
  "\<not> by_hardware (Unlock i)" "\<not> by_hardware (Read i)" "\<not> by_hardware (Write i m)" "\<not> by_hardware (Send i m)" "\<not> by_hardware (TrySend i m)"
  "\<not> by_hardware (Receive i)" "\<not> by_hardware (TryReceive i)"
  by (simp_all add: by_hardware_def)

lemma by_hardware_idle:
  assumes "by_hardware e"
  shows "\<not> uses_guard e i" "put_in e ok i = []" "taken_out e ok i = []" "moves e ok i = 0" "guard_moves e ok c i u = 0"
    "written e f = f" "e \<noteq> Take i"
  using assms by (auto simp: by_hardware_def uses_guard_def put_in_def taken_out_def moves_def guard_moves_def written_def)

text \<open>The history of a run: which thread did what, and whether it succeeded.\<close>

type_synonym 'm history = "(addr \<times> 'm sys_event \<times> 'm outcome) list"

definition count_ok :: "'m sys_event \<Rightarrow> 'm history \<Rightarrow> nat" where
  "count_ok e tr = length (filter (\<lambda>(_, x). x = (e, Done)) tr)"

definition count_by :: "addr \<Rightarrow> 'm sys_event \<Rightarrow> 'm history \<Rightarrow> nat" where
  "count_by u e tr = length (filter (\<lambda>x. x = (u, e, Done)) tr)"

text \<open>The guards of a mutex that a thread has got, or waits for, less those it has dropped.\<close>

definition guards :: "'m system \<Rightarrow> 'm history \<Rightarrow> nat \<Rightarrow> addr \<Rightarrow> int" where
  "guards S0 tr i u =
     held S0 i u + int (count_by u (Lock i) tr) + int (count_by u (TryLock i) tr) - int (count_by u (Unlock i) tr)"

text \<open>The messages put into a queue and those taken out of it, in order.\<close>

definition sent :: "nat \<Rightarrow> 'm history \<Rightarrow> 'm list" where
  "sent i tr = concat (map (\<lambda>(_, e, ok). put_in e ok i) tr)"

definition received :: "nat \<Rightarrow> 'm history \<Rightarrow> 'm list" where
  "received i tr = concat (map (\<lambda>(_, e, ok). taken_out e ok i) tr)"

text \<open>Only a thread with a guard can use it.\<close>

definition has_guard :: "'m system \<Rightarrow> 'm history \<Rightarrow> 'm sys_event \<Rightarrow> addr \<Rightarrow> bool" where
  "has_guard S0 tr e u \<longleftrightarrow> (\<forall>i. uses_guard e i \<longrightarrow> 0 < guards S0 tr i u)"

inductive sys_run :: "'m system \<Rightarrow> 'm history \<Rightarrow> 'm system \<Rightarrow> bool" for S0 where
  run_init: "sys_run S0 [] S0"
| run_step: "sys_run S0 tr S \<Longrightarrow> has_guard S0 tr e (running S) \<Longrightarrow> sys_step S e ok S' \<Longrightarrow>
    sys_run S0 (tr @ [(running S, e, ok)]) S'"

lemma count_snoc:
  "count_ok e (tr @ [(c, e', ok)]) = count_ok e tr + (if e' = e \<and> ok = Done then 1 else 0)"
  "count_by u e (tr @ [(c, e', ok)]) = count_by u e tr + (if c = u \<and> e' = e \<and> ok = Done then 1 else 0)"
  by (auto simp: count_ok_def count_by_def)

lemma sent_snoc:
  "sent i (tr @ [(c, e, ok)]) = sent i tr @ put_in e ok i"
  "received i (tr @ [(c, e, ok)]) = received i tr @ taken_out e ok i"
  by (simp_all add: sent_def received_def)

lemma guards_snoc: "guards S0 (tr @ [(c, e, ok)]) i u = guards S0 tr i u + guard_moves e ok c i u"
  by (auto simp: guards_def count_snoc guard_moves_def)

text \<open>The running thread is not waiting for a mutex, so if it has a guard it is the owner.\<close>

lemma guard_owns:
  assumes S: "sys_inv S" and h: "\<And>i u. u \<noteq> 0 \<Longrightarrow> held S i u = guards S0 tr i u" and g: "has_guard S0 tr e (running S)"
  shows "owns e S"
  unfolding owns_def
proof (intro allI impI)
  fix i assume "uses_guard e i"
  then have "0 < held S i (running S)" using g h [OF sys_invD(8) [OF S]] by (simp add: has_guard_def)
  then show "owner (mtxs S i) = running S"
    using running_waits_nowhere [OF S, of "Mtx i"] by (simp add: held_def split: if_splits)
qed

lemma sys_run_inv:
  assumes "sys_run S0 tr S" "sys_inv S0"
  shows "sys_inv S
    \<and> (\<forall>i. sem_val (sems S i) = sem_val (sems S0 i) + int (count_ok (Give i) tr) - int (count_ok (Take i) tr + count_ok (TryTake i) tr)
          \<and> sem_capacity (sems S i) = sem_capacity (sems S0 i))
    \<and> (\<forall>i u. u \<noteq> 0 \<longrightarrow> held S i u = guards S0 tr i u)
    \<and> (\<forall>i. contents (mqs S0 i) @ sent i tr = received i tr @ contents (mqs S i) \<and> capacity (mqs S i) = capacity (mqs S0 i))"
  using assms
proof (induction rule: sys_run.induct)
  case run_init
  then show ?case by (simp add: count_ok_def guards_def count_by_def sent_def received_def)
next
  case (run_step tr S e ok S')
  have "owns e S" by (rule guard_owns [of S S0 tr]) (use run_step in auto)
  then have "sys_inv S' \<and> sys_moves e ok S S'" using sys_step_inv run_step by blast
  then have m: "sys_inv S'" "sys_moves e ok S S'" by blast+
  have "contents (mqs S0 i) @ sent i tr @ put_in e ok i = received i tr @ taken_out e ok i @ contents (mqs S' i)" for i
    using run_step m(2) by (metis append.assoc sys_moves_def)
  then show ?case using run_step m by (auto simp: sys_moves_def moves_def count_snoc guards_snoc sent_snoc)
qed

section \<open>A new system\<close>

text \<open>The primitives of a program that has just started are as their constructors made them.\<close>

primrec new_semaphore :: "semaphore_object \<Rightarrow> bool" where
  "new_semaphore (Binary b) \<longleftrightarrow> b \<in> {BinarySemaphore_available, BinarySemaphore_empty}"
| "new_semaphore (Counting c) \<longleftrightarrow> CountingSemaphore_new (sem_max_count c) (sem_count c) = Some c"

definition new_objects :: "'m system \<Rightarrow> bool" where
  "new_objects S \<longleftrightarrow>
     (\<forall>i. new_semaphore (sems S i) \<and> mutex S i = Mutex_new (cells S i) \<and> MessageQueue_new (capacity (mqs S i)) = Some (mqs S i))"

lemma new_semaphore_ok:
  assumes "new_semaphore b"
  shows "sem_waiters b = []" "sem_ok b s"
proof (atomize (full), cases b)
  case (Binary x)
  then show "sem_waiters b = [] \<and> sem_ok b s"
    using assms by (auto simp: BinarySemaphore_available_def BinarySemaphore_empty_def BinarySemaphore_new_def sem_inv_def sync_ok_def ordered_def)
next
  case (Counting c)
  then have c: "CountingSemaphore_new (sem_max_count c) (sem_count c) = Some c" using assms by simp
  then have "cnt_waiters c = []"
    unfolding CountingSemaphore_new_def by (auto simp: require_def split: if_splits) (metis CountingSemaphore.select_convs(3))
  then show "sem_waiters b = [] \<and> sem_ok b s" using Counting CountingSemaphore_new_inv [OF c] by simp
qed

lemma new_objects_waits: "new_objects S \<Longrightarrow> waits S x = []"
  by (cases x) (auto simp: new_objects_def mutex_def Mutex_new_def MutexState_new_def new_semaphore_ok dest: MessageQueue_new_inv)

lemma new_objects_inv:
  assumes r: "run_inv (kern S)" and n: "new_objects S"
  shows "sys_inv S" "contents (mqs S i) = []"
proof -
  have o: "new_semaphore (sems S i)" "mtxs S i = MutexState_new"
    "MessageQueue_new (capacity (mqs S i)) = Some (mqs S i)" for i
    using n by (simp_all add: new_objects_def mutex_def Mutex_new_def)
  have "obj_ok S x" for x
    using new_semaphore_ok(2) [OF o(1)] o(2) MutexState_new_inv MessageQueue_new_inv [OF o(3)]
    by (cases x) (simp_all add: mq_ok_def)
  then show "sys_inv S" using r new_objects_waits [OF n] by (simp add: sys_inv_def objs_inv_def)
  show "contents (mqs S i) = []" by (rule MessageQueue_new_inv(2) [OF o(3)])
qed

end
