(* ===== verification/SystemProps.thy ===== *)
theory SystemProps
  imports Sample System
begin

text \<open>Properties of the scheduler, the semaphores, the mutexes and the message queues together, over all interleavings of their operations.\<close>

text \<open>
  C1: tokens are conserved: whatever the interleaving of takes, nonblocking takes, gives, locks, unlocks, sends, receives, ticks,
  yields and sleeps, and whatever the SysTick counter shows, with the context switches they cause, the tokens a binary or counting semaphore holds and those of completed takes
  add up to its initial value and the tokens given; a semaphore never holds more than its maximum, and
  none while threads wait for it.
\<close>

theorem tokens_conserved:
  assumes "sys_inv S0" "sys_run S0 tr S"
  shows "int (sem_tokens (sems S i)) + (int (count_ok (Take i) tr + count_ok (TryTake i) tr) - int (length (sem_waiters (sems S i))))
      = sem_val (sems S0 i) + int (count_ok (Give i) tr)
    \<and> sem_tokens (sems S i) \<le> sem_capacity (sems S0 i)
    \<and> (sem_waiters (sems S i) \<noteq> [] \<longrightarrow> sem_tokens (sems S i) = 0)"
proof -
  note r = sys_run_inv [OF assms(2,1)]
  have "sem_ok (sems S i) (kern S)" using r sys_invD(6) by blast
  moreover have "sem_capacity (sems S i) = sem_capacity (sems S0 i)"
    "sem_val (sems S i) = sem_val (sems S0 i) + int (count_ok (Give i) tr) - int (count_ok (Take i) tr + count_ok (TryTake i) tr)"
    using r by blast+
  ultimately show ?thesis
    by (auto simp: sem_inv_def) (simp_all add: sem_value_def)
qed

text \<open>
  Semaphore 0 has one waiter, the others hold a token; mutex 0 is owned by a real-time thread and has
  one waiter, mutex 1 is owned by the running thread, the others are free; every message queue holds one message in a ring of two slots, at the
  end of the ring.
\<close>

definition sample_system :: "nat system" where
  "sample_system =
     \<lparr>kern = sample,
      sems = (\<lambda>_. Counting \<lparr>sem_count = 1, sem_max_count = 3, cnt_waiters = []\<rparr>)
        (0 := Counting \<lparr>sem_count = 0, sem_max_count = 3, cnt_waiters = [2300]\<rparr>),
      mtxs = (\<lambda>_. MutexState_new)
        (1 := MutexState_new\<lparr>owner := 2000\<rparr>, 0 := \<lparr>owner = 3000, mtx_waiters = [3200], owner_original_deadline_at = 0, owner_boosted = False\<rparr>),
      cells = (\<lambda>_. 5),
      mqs = (\<lambda>_. \<lparr>capacity = 2, slots = [None, Some 7], q_head = 1, q_len = 1, senders = [], receivers = []\<rparr>)\<rparr>"

lemma sample_system_simps [simp]:
  "kern sample_system = sample" "sem_waiters (sems sample_system i) = (if i = 0 then [2300] else [])"
  "sem_tokens (sems sample_system i) = (if i = 0 then 0 else 1)" "sem_capacity (sems sample_system i) = 3"
  "mtx_waiters (mtxs sample_system i) = (if i = 0 then [3200] else [])"
  "owner (mtxs sample_system i) = (if i = 0 then 3000 else if i = 1 then 2000 else 0)" "\<not> owner_boosted (mtxs sample_system i)"
  "capacity (mqs sample_system i) = 2" "contents (mqs sample_system i) = [7]" "ring_ok (mqs sample_system i)"
  "senders (mqs sample_system i) = []" "receivers (mqs sample_system i) = []"
  by (simp_all add: sample_system_def MutexState_new_def contents_def ring_ok_def ring_index_def)

lemma sample_system_inv: "sys_inv sample_system"
proof -
  have e: "sync_ok [] sample" by (simp add: sync_ok_def ordered_def)
  have "obj_ok sample_system x" for x
    using sample_sync_ok e by (cases x) (auto simp: sem_inv_def mtx_ok_def)
  moreover have "set (waits sample_system x) \<inter> set (waits sample_system y) = {}" if "x \<noteq> y" for x y
    using that by (cases x; cases y) auto
  ultimately show ?thesis using sample_run_inv by (simp add: sys_inv_def objs_inv_def)
qed

lemma sample_take: "sys_admissible (Take 0) sample_system"
  using sample_can_block sample_no_overdue by (simp add: blocks_def)

lemma sample_first: "\<exists>ok S. sys_run sample_system [(2000, e, ok)] S"
  if "sys_admissible e sample_system" "\<And>i. \<not> uses_guard e i"
proof -
  have "owns e sample_system" "has_guard sample_system [] e 2000" using that by (simp_all add: owns_def has_guard_def)
  then show ?thesis
    using sys_step_ok [OF sample_system_inv that(1)] run_step [OF run_init, of sample_system e] by fastforce
qed

theorem tokens_conserved_witness:
  "\<exists>ok S. sys_run sample_system [(2000, Take 0, ok)] S
    \<and> int (sem_tokens (sems S 0)) + (int (count_ok (Take 0) [(2000, Take 0, ok)]) - int (length (sem_waiters (sems S 0)))) = - 1"
proof -
  obtain ok S where run: "sys_run sample_system [(2000, Take 0, ok)] S" using sample_first [OF sample_take] by (auto simp: uses_guard_def)
  have "sem_val (sems sample_system 0) = - 1" "count_ok (Give 0) [(2000, Take 0, ok)] = 0" "count_ok (TryTake 0) [(2000, Take 0, ok)] = 0"
    by (simp_all add: sem_value_def count_ok_def)
  then show ?thesis using conjunct1 [OF tokens_conserved [OF sample_system_inv run, of 0]] run by (intro exI conjI) simp_all
qed

text \<open>
  C2: mutual exclusion: whatever the interleaving, at most one thread holds a guard of a mutex. The threads
  that have locked it more often than they have unlocked it are its owner and the threads that are
  suspended in \<open>lock\<close>; a running thread that has a guard is the owner, so that dropping it never fails the
  ownership assertion; and a mutex somebody waits for has an owner.
\<close>

theorem mutual_exclusion:
  assumes "sys_inv S0" "sys_run S0 tr S"
  shows "{u. u \<noteq> 0 \<and> 0 < guards S0 tr i u \<and> u \<notin> set (mtx_waiters (mtxs S i))} = {owner (mtxs S i)} - {0}
    \<and> (\<forall>u. u \<noteq> 0 \<longrightarrow> guards S0 tr i u = 0 \<or> guards S0 tr i u = 1)
    \<and> (\<forall>u \<in> set (mtx_waiters (mtxs S i)). state (threads (kern S) u) = Suspended)
    \<and> (0 < guards S0 tr i (running S) \<longrightarrow> owner (mtxs S i) = running S)
    \<and> (mtx_waiters (mtxs S i) \<noteq> [] \<longrightarrow> owner (mtxs S i) \<noteq> 0)"
proof -
  have S: "sys_inv S" and h: "u \<noteq> 0 \<Longrightarrow> guards S0 tr i u = held S i u" for u using sys_run_inv [OF assms(2,1)] by simp_all
  note I = sys_invD [OF S]
  have m: "sync_ok (mtx_waiters (mtxs S i)) (kern S)" "owner (mtxs S i) \<notin> set (mtx_waiters (mtxs S i))"
    "owner (mtxs S i) = 0 \<longrightarrow> mtx_waiters (mtxs S i) = []" using I(7) [of i] by (auto simp: mtx_ok_def)
  have "{u. u \<noteq> 0 \<and> 0 < guards S0 tr i u \<and> u \<notin> set (mtx_waiters (mtxs S i))} = {owner (mtxs S i)} - {0}"
    using h m(2) by (auto simp: held_def split: if_splits)
  moreover have "\<forall>u. u \<noteq> 0 \<longrightarrow> guards S0 tr i u = 0 \<or> guards S0 tr i u = 1" using h m(2) by (simp add: held_def)
  moreover have "\<forall>u \<in> set (mtx_waiters (mtxs S i)). state (threads (kern S) u) = Suspended"
    using m(1) suspended_iff [OF I(2)] by (auto simp: sync_ok_def)
  moreover have "0 < guards S0 tr i (running S) \<longrightarrow> owner (mtxs S i) = running S"
    using h [OF I(8)] running_waits_nowhere [OF S, of "Mtx i"] by (simp add: held_def)
  ultimately show ?thesis using m(3) by blast
qed

lemma sample_lock: "sys_admissible (Lock 0) sample_system"
proof -
  have "has_timer sample 3000" using sample_links by (simp add: has_timer_def) (simp add: sample_defs)
  moreover have "between_ticks sample"
    by (simp add: between_ticks_def unexpired_def saturating_add_def u64_of_def) (simp add: sample_defs)
  ultimately show ?thesis using sample_can_block by simp
qed

theorem mutual_exclusion_witness:
  "\<exists>ok S. sys_run sample_system [(2000, Lock 0, ok)] S
    \<and> {u. u \<noteq> 0 \<and> 0 < guards sample_system [(2000, Lock 0, ok)] 0 u \<and> u \<notin> set (mtx_waiters (mtxs S 0))} = {owner (mtxs S 0)} - {0}"
proof -
  obtain ok S where "sys_run sample_system [(2000, Lock 0, ok)] S" using sample_first [OF sample_lock] by (auto simp: uses_guard_def)
  then show ?thesis using conjunct1 [OF mutual_exclusion [OF sample_system_inv, of _ S 0]] by blast
qed

text \<open>
  C3: critical sections are isolated: after every run, a thread that reads or writes the value a mutex
  protects, or drops a guard, is the owner of the mutex; a read returns the current value; the value
  changes only when the owner writes it; and the ownership of a locked mutex ends only when its owner
  unlocks it. So nobody else reads or changes the value between a lock and the unlock.
\<close>

theorem critical_sections_isolated:
  assumes "sys_inv S0" "sys_run S0 tr S" "has_guard S0 tr e (running S)" "sys_step S e ok S'"
  shows "(uses_guard e i \<longrightarrow> owner (mtxs S i) = running S)
    \<and> (e = Read i \<longrightarrow> ok = Val (cells S i))
    \<and> (cells S' i \<noteq> cells S i \<longrightarrow> owner (mtxs S i) = running S \<and> e = Write i (cells S' i))
    \<and> (owner (mtxs S' i) \<noteq> owner (mtxs S i) \<longrightarrow> owner (mtxs S i) = 0 \<or> owner (mtxs S i) = running S \<and> e = Unlock i)"
proof -
  have S: "sys_inv S" and h: "u \<noteq> 0 \<Longrightarrow> held S i u = guards S0 tr i u" for i u using sys_run_inv [OF assms(2,1)] by simp_all
  have o: "owns e S" by (rule guard_owns [OF S h assms(3)])
  have m: "sys_moves e ok S S'" using sys_step_inv [OF assms(4) S o] by blast
  have "ok = Val (cells S i)" if "e = Read i"
    using assms(4) that by (auto elim!: sys_stepE simp: mutex_def MutexGuard_deref_def)
  moreover have "e = Write i (cells S' i)" if "cells S' i \<noteq> cells S i"
    using m that by (auto simp: sys_moves_def written_def split: sys_event.splits if_splits)
  moreover have "uses_guard e i \<longrightarrow> owner (mtxs S i) = running S" using o by (simp add: owns_def)
  moreover have "owner (mtxs S' i) \<noteq> owner (mtxs S i) \<longrightarrow> owner (mtxs S i) = 0 \<or> e = Unlock i" using m unfolding sys_moves_def by blast
  ultimately show ?thesis unfolding uses_guard_def by blast
qed

lemma sample_fits: "charge_fits (elapsed_ticks_since_last_interrupt sample) sample"
  by (simp add: charge_fits_def charge_ticks_def pays_def) (simp add: sample_defs)

theorem critical_sections_isolated_witness:
  "\<exists>ok S'. sys_step sample_system (Write 1 9) ok S' \<and> owner (mtxs S' 1) = 2000 \<and> cells S' 0 = 5"
proof -
  have g: "owns (Write 1 9) sample_system" "has_guard sample_system [] (Write 1 9) 2000"
    by (simp_all add: owns_def has_guard_def uses_guard_def guards_def held_def count_by_def)
  have "sys_admissible (Write 1 9) sample_system" using sample_fits by (simp add: sys_fits_def)
  then obtain ok S' where s: "sys_step sample_system (Write 1 9) ok S'" using sys_step_ok [OF sample_system_inv _ g(1)] by blast
  have "cells sample_system i = 5" for i by (simp add: sample_system_def)
  then show ?thesis
    using critical_sections_isolated [OF sample_system_inv run_init _ s, of 0]
      critical_sections_isolated [OF sample_system_inv run_init _ s, of 1] s g(2) by auto
qed

text \<open>
  C4: messages are conserved: whatever the interleaving, the messages received from a queue, in the order
  of the receives, followed by those still buffered are the initial contents followed by the messages
  sent, in the order of the sends: no message is lost, duplicated or overtaken, refused and suspended
  calls included. The queue never holds more than its capacity, and a thread that waits at it is
  suspended and waits nowhere else.
\<close>

theorem messages_conserved:
  assumes "sys_inv S0" "sys_run S0 tr S"
  shows "received i tr @ contents (mqs S i) = contents (mqs S0 i) @ sent i tr
    \<and> length (contents (mqs S i)) \<le> unat (capacity (mqs S0 i))
    \<and> (\<forall>x y. u \<in> set (waits S x) \<and> u \<in> set (waits S y) \<longrightarrow> x = y \<and> state (threads (kern S) u) = Suspended)"
proof -
  note r = sys_run_inv [OF assms(2,1)]
  then have S: "sys_inv S" by blast
  note I = sys_invD [OF S]
  have "ring_ok (mqs S i)" using I(10) [of i] by (simp add: mq_ok_def)
  then have "length (contents (mqs S i)) \<le> unat (capacity (mqs S i))"
    by (simp add: contents_def ring_ok_def word_le_nat_alt)
  moreover have "x = y \<and> state (threads (kern S) u) = Suspended" if "u \<in> set (waits S x)" "u \<in> set (waits S y)" for x y
  proof -
    have "sync_ok (waits S x) (kern S)" using I(5) obj_ok_sync [of S x] by (simp add: objs_inv_def)
    then have "state (threads (kern S) u) = Suspended" using that suspended_iff [OF I(2), of u] by (auto simp: sync_ok_def)
    moreover have "x = y" using that I(5) unfolding objs_inv_def by blast
    ultimately show ?thesis by blast
  qed
  ultimately show ?thesis using r by metis
qed

lemma sample_receive: "sys_admissible (Receive 0) sample_system"
proof -
  have "wakes [] sample_system" using sample_no_overdue0 by (simp add: wakes_def)
  moreover have "sys_fits (Receive 0) sample_system"
  proof -
    have "sys_deliver (Receive 0) sample_system = Some (Got 7, S)" if "S = sample_system\<lparr>mqs := (mqs sample_system)(0 := q)\<rparr>"
      and "q = (mqs sample_system 0)\<lparr>q_head := 0, q_len := 0\<rparr>" for S q
      using that by (simp add: with_mq_def receive_round_def sample_system_def try_receive_def require_def checked_sub_def
          pop_waiting_thread_def ol_pop_def mq_wake_def)
    then show ?thesis using sample_fits by (simp add: sys_fits_def)
  qed
  ultimately show ?thesis by simp
qed

theorem messages_conserved_witness:
  "\<exists>ok S. sys_run sample_system [(2000, Receive 0, ok)] S
    \<and> received 0 [(2000, Receive 0, ok)] @ contents (mqs S 0) = [7]"
proof -
  obtain ok S where run: "sys_run sample_system [(2000, Receive 0, ok)] S" using sample_first [OF sample_receive] by (auto simp: uses_guard_def)
  have "sent 0 [(2000, Receive 0, ok)] = []" by (simp add: sent_def put_in_def)
  then show ?thesis using conjunct1 [OF messages_conserved [OF sample_system_inv run, of 0]] run by (intro exI conjI) simp_all
qed

text \<open>
  C6: the system does not get stuck in a panic: after every run every admissible event, an operation of the
  running thread on a semaphore, a mutex or a message queue included, completes together with the context switch it
  requests, and the invariants of the scheduler and of every primitive hold again.
\<close>

theorem system_progress:
  assumes "sys_inv S0" "sys_run S0 tr S" "sys_admissible e S" "has_guard S0 tr e (running S)"
  shows "\<exists>ok S'. sys_step S e ok S' \<and> sys_run S0 (tr @ [(running S, e, ok)]) S' \<and> sys_inv S'
    \<and> (\<forall>u. state (threads (kern S') u) = Running \<longleftrightarrow> u = running S')"
proof -
  have S: "sys_inv S" and h: "u \<noteq> 0 \<Longrightarrow> held S i u = guards S0 tr i u" for i u using sys_run_inv [OF assms(2,1)] by simp_all
  have o: "owns e S" by (rule guard_owns [OF S h assms(4)])
  from sys_step_ok [OF S assms(3) o] obtain ok S' where s: "sys_step S e ok S'" by blast
  have S': "sys_inv S'" using sys_step_inv [OF s S o] by blast
  have "state (threads (kern S') u) = Running \<longleftrightarrow> u = running S'" for u
    using sys_invD [OF S'] sched_invD(7) [of "kern S'" u] by blast
  then show ?thesis using s run_step [OF assms(2,4) s] S' by blast
qed

theorem system_progress_witness:
  "\<exists>ok S'. sys_run sample_system [(2000, Lock 0, ok)] S' \<and> sys_inv S'"
  using system_progress [OF sample_system_inv run_init sample_lock] by (auto simp: has_guard_def uses_guard_def)

end
