(* ===== verification/CtxSwitch.thy ===== *)
theory CtxSwitch
  imports Machine
begin

text \<open>
  The context switch at register level: the assembly of \<open>SVCall\<close> and \<open>PendSV\<close> in
  \<^verbatim>\<open>src/arch/cm/ctx_switch.rs\<close>, which saves the callee-saved registers on the stack of the interrupted thread
  and restores those of the next one. The registers that the hardware stacks on exception entry are
  part of the thread's stack memory. Seen from the threads the switch is transparent: every thread has
  a context of its own, and a switch changes none of them.
\<close>

unbundle bit_operations_syntax

section \<open>Processor state\<close>

text \<open>
  \<open>core r\<close> and \<open>fp r\<close> are the registers \<open>r4\<close>--\<open>r11\<close> and \<open>s16\<close>--\<open>s31\<close>; \<open>lr\<close> holds the \<open>EXC_RETURN\<close> value while an
  exception is handled. \<open>ram\<close> is the memory of the thread stacks.
\<close>

record cpu =
  core :: "nat \<Rightarrow> u32"
  fp :: "nat \<Rightarrow> u32"
  msp :: u32
  psp :: u32
  lr :: u32
  ram :: mem

text \<open>Block transfers: registers in ascending order at ascending addresses.\<close>

definition stmdb :: "u32 list \<Rightarrow> u32 \<times> mem \<Rightarrow> u32 \<times> mem" where
  "stmdb ws = (\<lambda>(r, m). let r = r - of_nat (4 * length ws) in (r, write_words (unat r) ws m))"

fun read_words :: "nat \<Rightarrow> addr \<Rightarrow> mem \<Rightarrow> u32 list" where
  "read_words 0 a m = []"
| "read_words (Suc n) a m = m a # read_words n (a + 4) m"

definition ldmia :: "nat \<Rightarrow> u32 \<Rightarrow> mem \<Rightarrow> u32 list \<times> u32" where
  "ldmia n r m = (read_words n (unat r) m, r + of_nat (4 * n))"

definition regs_in :: "nat \<Rightarrow> nat \<Rightarrow> (nat \<Rightarrow> u32) \<Rightarrow> u32 list" where
  "regs_in lo n f = map f [lo..<lo + n]"

definition put_regs :: "nat \<Rightarrow> u32 list \<Rightarrow> (nat \<Rightarrow> u32) \<Rightarrow> nat \<Rightarrow> u32" where
  "put_regs lo ws f = (\<lambda>r. if lo \<le> r \<and> r < lo + length ws then ws ! (r - lo) else f r)"

text \<open>\<open>tst lr, #4\<close> selects the stack pointer, \<open>tst lr, #0x10\<close> the floating-point part.\<close>

definition uses_psp :: "u32 \<Rightarrow> bool" where
  "uses_psp l \<longleftrightarrow> l AND 4 \<noteq> 0"

definition fp_active :: "u32 \<Rightarrow> bool" where
  "fp_active l \<longleftrightarrow> l AND 0x10 = 0"

definition stack_pointer :: "cpu \<Rightarrow> u32" where
  "stack_pointer c = (if uses_psp (lr c) then psp c else msp c)"

definition set_stack_pointer :: "u32 \<Rightarrow> cpu \<Rightarrow> cpu" where
  "set_stack_pointer r c = (if uses_psp (lr c) then c\<lparr>psp := r\<rparr> else c\<lparr>msp := r\<rparr>)"

section \<open>Handlers\<close>

definition store_ctx :: "addr \<Rightarrow> u32 \<Rightarrow> u32 \<Rightarrow> kstate \<Rightarrow> kstate" where
  "store_ctx t r l s = s\<lparr>threads := (threads s)(t := (threads s t)\<lparr>sp := r, exc_return := l\<rparr>)\<rparr>"

definition save_context :: "cpu \<Rightarrow> kstate \<Rightarrow> cpu \<times> kstate" where
  "save_context c s =
     (let f = (stack_pointer c, ram c);
          f = (if fp_active (lr c) then stmdb (regs_in 16 16 (fp c)) f else f);
          f = stmdb (regs_in 4 8 (core c)) f
      in (c\<lparr>ram := snd f\<rparr>, store_ctx (CURRENT_THREAD_CTX s) (fst f) (lr c) s))"

definition restore_context :: "cpu \<Rightarrow> kstate \<Rightarrow> cpu" where
  "restore_context c s =
     (let th = threads s (CURRENT_THREAD_CTX s);
          c = c\<lparr>lr := exc_return th\<rparr>;
          (ws, r) = ldmia 8 (sp th) (ram c);
          c = c\<lparr>core := put_regs 4 ws (core c)\<rparr>;
          (c, r) = (if fp_active (lr c) then (let (ws, r) = ldmia 16 r (ram c) in (c\<lparr>fp := put_regs 16 ws (fp c)\<rparr>, r)) else (c, r))
      in set_stack_pointer r c)"

definition PendSV_handler :: "cpu \<Rightarrow> kstate \<Rightarrow> (cpu \<times> kstate) option" where
  "PendSV_handler c s = (let (c, s) = save_context c s in do {
     s \<leftarrow> schedule (s\<lparr>pendsv := False\<rparr>);
     Some (restore_context c s, s)
   })"

text \<open>\<open>SVCall\<close> restores the frame of the first thread, which has no floating-point part.\<close>

definition SVCall_handler :: "addr \<Rightarrow> cpu \<Rightarrow> kstate \<Rightarrow> cpu \<times> kstate" where
  "SVCall_handler start c s =
     (let s = SVCall start s;
          th = threads s (CURRENT_THREAD_CTX s);
          (ws, r) = ldmia 8 (sp th) (ram c);
          c = c\<lparr>lr := exc_return th, core := put_regs 4 ws (core c)\<rparr>
      in (set_stack_pointer r c, s))"

section \<open>Contexts of threads\<close>

record thread_context =
  ctx_core :: "u32 list"
  ctx_fp :: "u32 list option"
  ctx_return :: u32
  ctx_sp :: u32

definition context_of :: "cpu \<Rightarrow> thread_context" where
  "context_of c =
     \<lparr>ctx_core = regs_in 4 8 (core c), ctx_fp = (if fp_active (lr c) then Some (regs_in 16 16 (fp c)) else None),
      ctx_return = lr c, ctx_sp = stack_pointer c\<rparr>"

definition frame_size :: "u32 \<Rightarrow> nat" where
  "frame_size l = (if fp_active l then 96 else 32)"

text \<open>The context that is saved in memory, given the saved stack pointer and \<open>EXC_RETURN\<close> value.\<close>

definition saved_context :: "mem \<Rightarrow> u32 \<Rightarrow> u32 \<Rightarrow> thread_context" where
  "saved_context m r l =
     \<lparr>ctx_core = read_words 8 (unat r) m, ctx_fp = (if fp_active l then Some (read_words 16 (unat r + 32) m) else None),
      ctx_return = l, ctx_sp = r + of_nat (frame_size l)\<rparr>"

lemma length_read_words [simp]: "length (read_words n a m) = n"
  by (induction n arbitrary: a) auto

lemma write_words_other: "a < b \<or> b + 4 * length ws \<le> a \<Longrightarrow> write_words b ws m a = m a"
  by (induction ws arbitrary: b) auto

lemma read_words_cong: "(\<And>b. a \<le> b \<Longrightarrow> b < a + 4 * n \<Longrightarrow> m' b = m b) \<Longrightarrow> read_words n a m' = read_words n a m"
  by (induction n arbitrary: a) auto

lemma read_write_words: "read_words (length ws) a (write_words a ws m) = ws"
proof (induction ws arbitrary: a)
  case (Cons w ws)
  have "read_words (length ws) (a + 4) ((write_words (a + 4) ws m)(a := w)) = read_words (length ws) (a + 4) (write_words (a + 4) ws m)"
    by (rule read_words_cong) auto
  then show ?case using Cons by (simp add: fun_upd_def)
qed simp

lemma read_write_eq: "n = length ws \<Longrightarrow> read_words n a (write_words a ws m) = ws"
  by (simp add: read_write_words)

lemma length_regs_in [simp]: "length (regs_in lo n f) = n"
  by (simp add: regs_in_def)

lemma regs_in_put [simp]: "n = length ws \<Longrightarrow> regs_in lo n (put_regs lo ws f) = ws"
  by (auto simp: regs_in_def put_regs_def intro: nth_equalityI)

lemma unat_sub_below: "n \<le> unat (r :: u32) \<Longrightarrow> unat (r - of_nat n) = unat r - n"
  using unat_bound [of r] by (simp add: unat_sub_if' unat_of_nat word_le_nat_alt take_bit_nat_eq_self)

lemma saved_context_cong:
  assumes "\<And>a. unat r \<le> a \<Longrightarrow> a < unat r + frame_size l \<Longrightarrow> m' a = m a"
  shows "saved_context m' r l = saved_context m r l"
proof -
  have "read_words 8 (unat r) m' = read_words 8 (unat r) m"
    by (rule read_words_cong) (use assms in \<open>auto simp: frame_size_def split: if_splits\<close>)
  moreover have "read_words 16 (unat r + 32) m' = read_words 16 (unat r + 32) m" if "fp_active l"
    by (rule read_words_cong) (use assms that in \<open>auto simp: frame_size_def\<close>)
  ultimately show ?thesis by (simp add: saved_context_def)
qed

lemma save_context_ok:
  assumes r: "frame_size (lr c) \<le> unat (stack_pointer c)"
  shows "\<exists>m. save_context c s = (c\<lparr>ram := m\<rparr>, store_ctx (CURRENT_THREAD_CTX s) (stack_pointer c - of_nat (frame_size (lr c))) (lr c) s)
    \<and> saved_context m (stack_pointer c - of_nat (frame_size (lr c))) (lr c) = context_of c
    \<and> (\<forall>a. a < unat (stack_pointer c) - frame_size (lr c) \<or> unat (stack_pointer c) \<le> a \<longrightarrow> m a = ram c a)"
proof -
  let ?r = "stack_pointer c" and ?cs = "regs_in 4 8 (core c)" and ?fs = "regs_in 16 16 (fp c)"
  have l: "length ?cs = 8" "length ?fs = 16" by simp_all
  show ?thesis
  proof (cases "fp_active (lr c)")
    case True
    let ?a = "unat ?r - 96"
    let ?m = "write_words ?a ?cs (write_words (?a + 32) ?fs (ram c))"
    have z: "96 \<le> unat ?r" using r True by (simp add: frame_size_def)
    have u: "unat (?r - 64) = ?a + 32" "unat (?r - 64 - 32) = ?a" "unat (?r - 96) = ?a"
      using unat_sub_below [of 64 ?r] unat_sub_below [of 96 ?r] unat_sub_below [of 32 "?r - 64"] z by simp_all
    have "read_words 16 (?a + 32) ?m = read_words 16 (?a + 32) (write_words (?a + 32) ?fs (ram c))"
      by (rule read_words_cong) (simp add: write_words_other)
    then have "read_words 8 ?a ?m = ?cs" "read_words 16 (?a + 32) ?m = ?fs" by (simp_all add: read_write_eq)
    moreover have "?m a = ram c a" if "a < ?a \<or> unat ?r \<le> a" for a
      using that z write_words_other [of a ?a ?cs] write_words_other [of a "?a + 32" ?fs] by force
    moreover have "save_context c s = (c\<lparr>ram := ?m\<rparr>, store_ctx (CURRENT_THREAD_CTX s) (?r - 96) (lr c) s)"
      using True u by (simp add: save_context_def stmdb_def Let_def)
    ultimately show ?thesis
      using True u(3) by (intro exI [of _ ?m]) (simp add: saved_context_def context_of_def frame_size_def)
  next
    case False
    let ?a = "unat ?r - 32"
    let ?m = "write_words ?a ?cs (ram c)"
    have z: "32 \<le> unat ?r" using r False by (simp add: frame_size_def)
    have u: "unat (?r - 32) = ?a" using unat_sub_below [of 32 ?r] z by simp
    have "read_words 8 ?a ?m = ?cs" by (simp add: read_write_eq)
    moreover have "?m a = ram c a" if "a < ?a \<or> unat ?r \<le> a" for a
      using that z write_words_other [of a ?a ?cs] by force
    moreover have "save_context c s = (c\<lparr>ram := ?m\<rparr>, store_ctx (CURRENT_THREAD_CTX s) (?r - 32) (lr c) s)"
      using False u by (simp add: save_context_def stmdb_def Let_def)
    ultimately show ?thesis
      using False u by (intro exI [of _ ?m]) (simp add: saved_context_def context_of_def frame_size_def)
  qed
qed

lemma restore_context_ok:
  assumes th: "th = threads s (CURRENT_THREAD_CTX s)" and f: "unat (sp th) + frame_size (exc_return th) \<le> 2 ^ 32"
  shows "context_of (restore_context c s) = saved_context (ram c) (sp th) (exc_return th)"
    "ram (restore_context c s) = ram c" "lr (restore_context c s) = exc_return th"
proof -
  show "ram (restore_context c s) = ram c" "lr (restore_context c s) = exc_return th"
    by (simp_all add: restore_context_def ldmia_def Let_def set_stack_pointer_def th)
  have "unat (sp th + 32) = unat (sp th) + 32" if "fp_active (exc_return th)"
    using f that by (subst unat_add_lem [THEN iffD1]) (simp_all add: frame_size_def)
  then show "context_of (restore_context c s) = saved_context (ram c) (sp th) (exc_return th)"
    by (simp add: restore_context_def context_of_def saved_context_def ldmia_def Let_def set_stack_pointer_def
        stack_pointer_def frame_size_def th [symmetric])
qed

section \<open>The scheduler does not look at saved contexts\<close>

lemma store_ctx_simps [simp]:
  "ktimers (store_ctx t r l s) = ktimers s" "queued (store_ctx t r l s) = queued s" "waiting (store_ctx t r l s) = waiting s"
  "run_tree (store_ctx t r l s) = run_tree s" "NEXT_KTIMER (store_ctx t r l s) = NEXT_KTIMER s"
  "CFS_KTIMER (store_ctx t r l s) = CFS_KTIMER s" "WAIT_KTIMER (store_ctx t r l s) = WAIT_KTIMER s"
  "CURRENT_THREAD_CTX (store_ctx t r l s) = CURRENT_THREAD_CTX s" "IDLE_THREAD_CTX (store_ctx t r l s) = IDLE_THREAD_CTX s"
  "CURRENT_THREAD_IS_CFS (store_ctx t r l s) = CURRENT_THREAD_IS_CFS s" "priority_sum (store_ctx t r l s) = priority_sum s"
  "timer_reload (store_ctx t r l s) = timer_reload s" "wait_tree (store_ctx t r l s) = wait_tree s"
  "suspended (store_ctx t r l s) = suspended s" "active_tree (store_ctx t r l s) = active_tree s"
  "inactive_tree (store_ctx t r l s) = inactive_tree s" "first_active_node (store_ctx t r l s) = first_active_node s"
  "first_inactive_node (store_ctx t r l s) = first_inactive_node s" "now_ticks (store_ctx t r l s) = now_ticks s"
  "kind (threads (store_ctx t r l s) u) = kind (threads s u)" "state (threads (store_ctx t r l s) u) = state (threads s u)"
  "sched_entity (threads (store_ctx t r l s) u) = sched_entity (threads s u)"
  "ktimer_entity (threads (store_ctx t r l s) u) = ktimer_entity (threads s u)"
  "runtime (threads (store_ctx t r l s) u) = runtime (threads s u)"
  "wait_entity (threads (store_ctx t r l s) u) = wait_entity (threads s u)"
  "sp (threads (store_ctx t r l s) u) = (if u = t then r else sp (threads s u))"
  "exc_return (threads (store_ctx t r l s) u) = (if u = t then l else exc_return (threads s u))"
  by (simp_all add: store_ctx_def queued_def waiting_def)

text \<open>What \<open>schedule\<close> runs on: the contexts stored, the request cleared.\<close>

abbreviation handed_over :: "addr \<Rightarrow> u32 \<Rightarrow> u32 \<Rightarrow> kstate \<Rightarrow> kstate" where
  "handed_over t r l s \<equiv> (store_ctx t r l s)\<lparr>pendsv := False\<rparr>"

lemma handed_over_inv:
  shows "sched_inv (handed_over t r l s) = sched_inv s" "runnable_set (handed_over t r l s) = runnable_set s"
    "elapsed_ticks_since_last_interrupt (handed_over t r l s) = elapsed_ticks_since_last_interrupt s"
    "charge_fits n (handed_over t r l s) = charge_fits n s" "queued (handed_over t r l s) = queued s"
proof -
  let ?s = "handed_over t r l s"
  have cm: "wait_cmp ?s = wait_cmp s" "sched_cmp ?s = sched_cmp s" "ktimer_cmp ?s = ktimer_cmp s"
    by (simp_all add: wait_cmp_def sched_cmp_def ktimer_cmp_def)
  have q: "waiting ?s = waiting s" and q': "queued ?s = queued s" by (simp_all add: waiting_def queued_def)
  then show "queued ?s = queued s" by simp
  have "rt_linked ?s k = rt_linked s k" "waiter_ok ?s k = waiter_ok s k" for k
    by (simp_all add: rt_linked_def waiter_ok_def)
  then have "links ?s = links s" by (simp add: links_def timer_ok_def q q')
  then have "kinv ?s = kinv s" by (simp add: kinv_def kinv0_def wq_ok_def rq_ok_def ktq_ok_def cm)
  then show "sched_inv ?s = sched_inv s" by (simp add: sched_inv_def q)
  show "runnable_set ?s = runnable_set s" by (simp add: runnable_set_def)
  show "charge_fits n ?s = charge_fits n s" by (simp add: charge_fits_def pays_def charge_ticks_def)
  have "next_ktimer_reload ?s = next_ktimer_reload s"
    by (simp add: next_ktimer_reload_def scheduler_timer_reload_for_entity_def
        ktq_first_def ktq_first_active_def earlier_of_def cm is_cfs_ktimer_def Let_def)
  then show "elapsed_ticks_since_last_interrupt ?s = elapsed_ticks_since_last_interrupt s"
    by (cases "timer_reload s") (simp_all add: elapsed_ticks_since_last_interrupt_def)
qed

lemma decided_contexts:
  assumes "decided s s'"
  shows "sp (threads s' u) = sp (threads s u)" "exc_return (threads s' u) = exc_return (threads s u)"
proof -
  let ?a = "after_charge (elapsed_ticks_since_last_interrupt s) s"
  obtain x where x: "sched_frame ?a x" "s' = programmed x" using assms by (auto simp: decided_def switched_def)
  have p: "threads s' u = threads x u" using programmed_frame(1) [of x] x(2) by (simp add: same_core_def)
  have t: "threads x u = (threads ?a u)\<lparr>state := state (threads x u)\<rparr>" using x(1) unfolding sched_frame_def by blast
  have "sp (threads x u) = sp (threads ?a u)" by (subst t) simp
  moreover have "exc_return (threads x u) = exc_return (threads ?a u)" by (subst t) simp
  ultimately show "sp (threads s' u) = sp (threads s u)" "exc_return (threads s' u) = exc_return (threads s u)"
    by (auto simp: p after_charge_def paid_def)
qed

section \<open>The switch is transparent\<close>

text \<open>
  Every live thread \<open>u\<close> has the stack \<open>lo u\<close> to \<open>hi u\<close>, apart from all others, and a context \<open>ctxs u\<close>. That of the
  current thread is in the registers, with room on its stack to save it; the others are saved on their
  stacks.
\<close>

definition stacks_apart :: "addr set \<Rightarrow> (addr \<Rightarrow> nat) \<Rightarrow> (addr \<Rightarrow> nat) \<Rightarrow> bool" where
  "stacks_apart live lo hi \<longleftrightarrow>
     (\<forall>u \<in> live. hi u < 2 ^ 32) \<and> (\<forall>u \<in> live. \<forall>v \<in> live. u \<noteq> v \<longrightarrow> hi u \<le> lo v \<or> hi v \<le> lo u)"

definition saved_on_stack :: "(addr \<Rightarrow> nat) \<Rightarrow> (addr \<Rightarrow> nat) \<Rightarrow> mem \<Rightarrow> kstate \<Rightarrow> addr \<Rightarrow> thread_context \<Rightarrow> bool" where
  "saved_on_stack lo hi m s u k \<longleftrightarrow>
     (let th = threads s u in
      lo u \<le> unat (sp th) \<and> unat (sp th) + frame_size (exc_return th) \<le> hi u \<and> saved_context m (sp th) (exc_return th) = k)"

definition contexts_ok ::
  "addr set \<Rightarrow> (addr \<Rightarrow> nat) \<Rightarrow> (addr \<Rightarrow> nat) \<Rightarrow> (addr \<Rightarrow> thread_context) \<Rightarrow> cpu \<Rightarrow> kstate \<Rightarrow> bool" where
  "contexts_ok live lo hi ctxs c s \<longleftrightarrow>
     (let t = CURRENT_THREAD_CTX s in
      t \<in> live \<and> context_of c = ctxs t
      \<and> lo t + frame_size (lr c) \<le> unat (stack_pointer c) \<and> unat (stack_pointer c) \<le> hi t
      \<and> (\<forall>u \<in> live. u \<noteq> t \<longrightarrow> saved_on_stack lo hi (ram c) s u (ctxs u)))"

definition may_run :: "kstate \<Rightarrow> addr set" where
  "may_run s =
     insert (IDLE_THREAD_CTX s) (runnable_set s \<union> (\<lambda>k. thread_ctx (ktimers s k)) ` (queued s - {CFS_KTIMER s, WAIT_KTIMER s}))"

lemma save_all:
  assumes a: "stacks_apart live lo hi" and k: "contexts_ok live lo hi ctxs c s"
  shows "\<exists>m r l. save_context c s = (c\<lparr>ram := m\<rparr>, store_ctx (CURRENT_THREAD_CTX s) r l s)
    \<and> (\<forall>u \<in> live. saved_on_stack lo hi m (store_ctx (CURRENT_THREAD_CTX s) r l s) u (ctxs u))"
proof -
  let ?t = "CURRENT_THREAD_CTX s" and ?f = "frame_size (lr c)"
  let ?r = "stack_pointer c - of_nat ?f"
  note K = k [unfolded contexts_ok_def Let_def]
  have f: "?f \<le> unat (stack_pointer c)" using K by simp
  from save_context_ok [OF f, of s] obtain m where
    m: "save_context c s = (c\<lparr>ram := m\<rparr>, store_ctx ?t ?r (lr c) s)" "saved_context m ?r (lr c) = context_of c"
      "\<And>a. a < unat (stack_pointer c) - ?f \<or> unat (stack_pointer c) \<le> a \<Longrightarrow> m a = ram c a" by blast
  let ?s = "store_ctx ?t ?r (lr c) s"
  have own: "saved_on_stack lo hi m ?s ?t (ctxs ?t)"
    unfolding saved_on_stack_def using K m(2) f by (simp add: unat_sub_below) linarith
  have "saved_on_stack lo hi m ?s u (ctxs u)" if u: "u \<in> live" "u \<noteq> ?t" for u
  proof -
    have so: "saved_on_stack lo hi (ram c) s u (ctxs u)" using K u by blast
    have "hi u \<le> lo ?t \<or> hi ?t \<le> lo u" using a u K by (auto simp: stacks_apart_def)
    then have "saved_context m (sp (threads s u)) (exc_return (threads s u)) =
      saved_context (ram c) (sp (threads s u)) (exc_return (threads s u))"
      using so K by (intro saved_context_cong m(3)) (auto simp: saved_on_stack_def Let_def)
    then show ?thesis using so u(2) by (simp add: saved_on_stack_def Let_def)
  qed
  then show ?thesis using m(1) own by blast
qed

lemma restore_current:
  assumes a: "stacks_apart live lo hi" and t: "CURRENT_THREAD_CTX s \<in> live"
    and all: "\<forall>u \<in> live. saved_on_stack lo hi (ram c) s u (ctxs u)"
  shows "contexts_ok live lo hi ctxs (restore_context c s) s"
proof -
  let ?t = "CURRENT_THREAD_CTX s" and ?c = "restore_context c s"
  let ?th = "threads s ?t"
  have so: "saved_on_stack lo hi (ram c) s ?t (ctxs ?t)" and h: "hi ?t < 2 ^ 32" using all a t by (auto simp: stacks_apart_def)
  note r = restore_context_ok [OF refl, of s c] and S = so [unfolded saved_on_stack_def Let_def]
  have f: "unat (sp ?th) + frame_size (exc_return ?th) < 2 ^ 32" using S h by simp
  have "context_of ?c = ctxs ?t" "ram ?c = ram c" "lr ?c = exc_return ?th" using r f S by simp_all
  moreover have "stack_pointer ?c = ctx_sp (context_of ?c)" by (simp add: context_of_def)
  then have "stack_pointer ?c = sp ?th + of_nat (frame_size (exc_return ?th))"
    using r(1) f by (simp add: saved_context_def)
  then have "unat (stack_pointer ?c) = unat (sp ?th) + frame_size (exc_return ?th)"
    using f by (simp add: unat_word_ariths unat_of_nat take_bit_nat_eq_self)
  ultimately show ?thesis using t S all by (simp add: contexts_ok_def)
qed

lemma PendSV_handler_ok:
  assumes a: "stacks_apart live lo hi" and k: "contexts_ok live lo hi ctxs c s" and i: "sched_inv s" "next_ok s"
    and f: "charge_fits (elapsed_ticks_since_last_interrupt s) s" and l: "may_run s \<subseteq> live"
  shows "wpo (PendSV_handler c s) (\<lambda>(c', s'). contexts_ok live lo hi ctxs c' s' \<and> sched_inv s'
    \<and> selected s (after_charge (elapsed_ticks_since_last_interrupt s) s) (CURRENT_THREAD_CTX s'))"
proof -
  let ?el = "elapsed_ticks_since_last_interrupt s"
  from save_all [OF a k] obtain m r l' where
    m: "save_context c s = (c\<lparr>ram := m\<rparr>, store_ctx (CURRENT_THREAD_CTX s) r l' s)"
      "\<forall>u \<in> live. saved_on_stack lo hi m (store_ctx (CURRENT_THREAD_CTX s) r l' s) u (ctxs u)" by blast
  let ?s = "handed_over (CURRENT_THREAD_CTX s) r l' s"
  note H = handed_over_inv [where t = "CURRENT_THREAD_CTX s" and r = r and l = l' and s = s]
  have nx: "NEXT_KTIMER ?s \<noteq> 0 \<Longrightarrow> NEXT_KTIMER ?s \<in> queued ?s \<and> NEXT_KTIMER ?s \<noteq> WAIT_KTIMER ?s"
    using i(2) H(5) by (simp add: next_ok_def)
  have "wpo (schedule ?s) (\<lambda>s'. contexts_ok live lo hi ctxs (restore_context (c\<lparr>ram := m\<rparr>) s') s' \<and> sched_inv s'
    \<and> selected s (after_charge ?el s) (CURRENT_THREAD_CTX s'))"
  proof (rule wpo_mono [OF schedule_ok [OF _ _ nx]])
    show "sched_inv ?s" "charge_fits (elapsed_ticks_since_last_interrupt ?s) ?s" using i(1) f H by simp_all
    fix s' assume d: "decided ?s s'"
    have sel: "selected s (after_charge ?el s) (CURRENT_THREAD_CTX s')"
    proof -
      have "selected ?s (after_charge ?el ?s) (CURRENT_THREAD_CTX s')" using d H(3) by (simp add: decided_def)
      then show ?thesis
        by (auto simp: selected_def H to_idle_def after_charge_def paid_def pays_def charge_ticks_def split: if_splits)
    qed
    have "CURRENT_THREAD_CTX s' \<in> may_run s"
      using sel i(2) by (auto simp: selected_def may_run_def next_ok_def to_idle_def split: if_splits)
    then have t: "CURRENT_THREAD_CTX s' \<in> live" using l by blast
    have "\<forall>u \<in> live. saved_on_stack lo hi m s' u (ctxs u)"
      using m(2) decided_contexts [OF d] by (simp add: saved_on_stack_def)
    then show "contexts_ok live lo hi ctxs (restore_context (c\<lparr>ram := m\<rparr>) s') s' \<and> sched_inv s'
      \<and> selected s (after_charge ?el s) (CURRENT_THREAD_CTX s')"
      using restore_current [OF a t, of "c\<lparr>ram := m\<rparr>"] d sel by (simp add: decided_def)
  qed
  then show ?thesis using m(1) by (auto simp: PendSV_handler_def wpo_def)
qed

section \<open>The first run of a thread\<close>

lemma read_words_add: "read_words (m + n) a x = read_words m a x @ read_words n (a + 4 * m) x"
  by (induction m arbitrary: a) (simp_all add: add.assoc)

lemma no_fp_initially: "\<not> fp_active EXC_RETURN_THREAD_MODE_PSP" "uses_psp EXC_RETURN_THREAD_MODE_PSP"
  by (simp_all add: fp_active_def uses_psp_def EXC_RETURN_THREAD_MODE_PSP_def)

lemma saved_initial:
  assumes b: "b + 64 < 2 ^ 32" and m: "m = write_words b (initial_frame entry arg) m0"
  shows "saved_context m (of_nat b) EXC_RETURN_THREAD_MODE_PSP =
      \<lparr>ctx_core = replicate 8 0, ctx_fp = None, ctx_return = EXC_RETURN_THREAD_MODE_PSP, ctx_sp = of_nat (b + 32)\<rparr>"
    "read_words 8 (b + 32) m = drop 8 (initial_frame entry arg)"
proof -
  have "read_words (8 + 8) b m = initial_frame entry arg"
    unfolding m by (rule read_write_eq) (simp add: initial_frame_def)
  then have w: "read_words 8 b m @ read_words 8 (b + 32) m = initial_frame entry arg" unfolding read_words_add by simp
  then have "take 8 (initial_frame entry arg) = read_words 8 b m" "drop 8 (initial_frame entry arg) = read_words 8 (b + 32) m"
    by (metis append_eq_conv_conj length_read_words)+
  then show "saved_context m (of_nat b) EXC_RETURN_THREAD_MODE_PSP =
      \<lparr>ctx_core = replicate 8 0, ctx_fp = None, ctx_return = EXC_RETURN_THREAD_MODE_PSP, ctx_sp = of_nat (b + 32)\<rparr>"
    "read_words 8 (b + 32) m = drop 8 (initial_frame entry arg)"
    using b by (simp_all add: saved_context_def frame_size_def no_fp_initially unat_of_nat take_bit_nat_eq_self initial_frame_def)
qed

lemma SVCall_restores:
  assumes "CURRENT_THREAD_CTX s = t" "SCHEDULER_STARTED s" "\<not> fp_active (exc_return (threads s t))"
  shows "SVCall_handler t c s = (restore_context c s, s)"
  using assms by (simp add: SVCall_handler_def SVCall_def restore_context_def Let_def ldmia_def set_stack_pointer_def)

text \<open>The first thread, with its start frame at \<open>b\<close>.\<close>

lemma SVCall_starts:
  assumes s: "CURRENT_THREAD_CTX s = t" "SCHEDULER_STARTED s" "sp (threads s t) = of_nat b"
      "exc_return (threads s t) = EXC_RETURN_THREAD_MODE_PSP"
    and m: "ram c = write_words b (initial_frame entry arg) m0" and b: "b + 64 < 2 ^ 32"
  shows "\<exists>c'. SVCall_handler t c s = (c', s) \<and> ram c' = ram c
    \<and> context_of c' = \<lparr>ctx_core = replicate 8 0, ctx_fp = None, ctx_return = EXC_RETURN_THREAD_MODE_PSP, ctx_sp = of_nat (b + 32)\<rparr>
    \<and> psp c' = of_nat (b + 32) \<and> read_words 8 (b + 32) (ram c) = drop 8 (initial_frame entry arg)"
proof -
  let ?c = "restore_context c s"
  note i = saved_initial [OF b m]
  have "unat (of_nat b :: u32) + frame_size EXC_RETURN_THREAD_MODE_PSP \<le> 2 ^ 32"
    using b by (simp add: frame_size_def no_fp_initially unat_of_nat take_bit_nat_eq_self)
  then have rc: "context_of ?c = saved_context (ram c) (of_nat b) EXC_RETURN_THREAD_MODE_PSP" "ram ?c = ram c"
    "lr ?c = EXC_RETURN_THREAD_MODE_PSP"
    using restore_context_ok [OF refl, of s c] s by simp_all
  have "psp ?c = ctx_sp (context_of ?c)" by (simp add: context_of_def stack_pointer_def rc(3) no_fp_initially)
  moreover have "SVCall_handler t c s = (?c, s)" using SVCall_restores [OF s(1,2)] s(4) by (simp add: no_fp_initially)
  ultimately show ?thesis using rc i by (intro exI [of _ ?c]) simp
qed

end
