(* ===== verification/SwitchProps.thy ===== *)
theory SwitchProps
  imports StartProps CtxSwitch
begin

text \<open>Properties of the context switch at register level.\<close>

text \<open>
  C12: the context switch is transparent: every live thread keeps its callee-saved core registers, its
  floating-point registers where it uses them, its return value and its stack pointer, whether they are
  in the processor or saved on its stack; only which thread is current changes, to the one the scheduler
  selects, and no other thread's stack is touched.
\<close>

theorem context_switch_transparent:
  assumes "stacks_apart live lo hi" "contexts_ok live lo hi ctxs c s" "may_run s \<subseteq> live"
    "sched_inv s" "next_ok s" "charge_fits (elapsed_ticks_since_last_interrupt s) s"
  shows "wpo (PendSV_handler c s) (\<lambda>(c', s'). contexts_ok live lo hi ctxs c' s'
    \<and> context_of c' = ctxs (CURRENT_THREAD_CTX s')
    \<and> selected s (after_charge (elapsed_ticks_since_last_interrupt s) s) (CURRENT_THREAD_CTX s') \<and> sched_inv s')"
  by (rule wpo_mono [OF PendSV_handler_ok [OF assms(1,2,4,5,6,3)]]) (auto simp: contexts_ok_def Let_def)

text \<open>The sample system with a saved context for each thread that may run, and the registers of the running one.\<close>

definition sample_saved :: kstate where
  "sample_saved =
     handed_over 1000 256064 0xFFFFFFFD (handed_over 2100 537664 0xFFFFFFFD (handed_over 3000 768064 0xFFFFFFFD sample))"

definition sample_cpu :: cpu where
  "sample_cpu = \<lparr>core = of_nat, fp = (\<lambda>_. 0), msp = 0, psp = 512128, lr = 0xFFFFFFFD, ram = (\<lambda>_. 0)\<rparr>"

definition sample_contexts :: "addr \<Rightarrow> thread_context" where
  "sample_contexts u =
     (if u = 2000 then context_of sample_cpu
      else saved_context (\<lambda>_. 0) (sp (threads sample_saved u)) 0xFFFFFFFD)"

theorem context_switch_transparent_witness:
  "wpo (PendSV_handler sample_cpu sample_saved) (\<lambda>(c', s'). context_of c' = sample_contexts (CURRENT_THREAD_CTX s'))"
proof -
  let ?live = "{1000, 2000, 2100, 3000}" and ?lo = "\<lambda>u. 256 * u" and ?hi = "\<lambda>u. 256 * u + 256 :: nat"
  have q: "CURRENT_THREAD_CTX sample_saved = 2000" "IDLE_THREAD_CTX sample_saved = 1000" "CFS_KTIMER sample_saved = 100"
    "WAIT_KTIMER sample_saved = 104" "ktimers sample_saved = ktimers sample" "NEXT_KTIMER sample_saved = 100"
    by (simp_all add: sample_saved_def)
  have h: "sched_inv sample_saved" "runnable_set sample_saved = runnable_set sample" "queued sample_saved = queued sample"
    "charge_fits n sample_saved = charge_fits n sample"
    "elapsed_ticks_since_last_interrupt sample_saved = elapsed_ticks_since_last_interrupt sample" for n
    using sample_sched_inv by (simp_all only: sample_saved_def handed_over_inv)
  have r: "runnable_set sample = {2100, 2000}" by (simp add: runnable_set_def is_blocked_def) (simp add: sample_defs)
  have k: "thread_ctx (ktimers sample 300) = 3000" by (simp add: sample_defs)
  have "may_run sample_saved = {1000, 2000, 2100, 3000}"
    unfolding may_run_def q h r using k by auto
  moreover have "charge_fits (elapsed_ticks_since_last_interrupt sample_saved) sample_saved"
    unfolding h by (simp add: charge_fits_def pays_def charge_ticks_def) (simp add: sample_defs)
  moreover have "next_ok sample_saved" by (simp add: next_ok_def q h)
  moreover have "stacks_apart ?live ?lo ?hi" by (auto simp: stacks_apart_def)
  moreover have "contexts_ok ?live ?lo ?hi sample_contexts sample_cpu sample_saved"
  proof -
    have s: "sp (threads sample_saved 1000) = 256064" "sp (threads sample_saved 2100) = 537664" "sp (threads sample_saved 3000) = 768064"
      "exc_return (threads sample_saved 1000) = 0xFFFFFFFD" "exc_return (threads sample_saved 2100) = 0xFFFFFFFD"
      "exc_return (threads sample_saved 3000) = 0xFFFFFFFD"
      by (simp_all add: sample_saved_def)
    show ?thesis
      by (simp add: contexts_ok_def q saved_on_stack_def s sample_contexts_def frame_size_def fp_active_def)
         (simp add: sample_cpu_def stack_pointer_def uses_psp_def)
  qed
  ultimately show ?thesis
    using context_switch_transparent [of ?live ?lo ?hi sample_contexts sample_cpu sample_saved] h(1) by (auto elim!: wpo_mono)
qed

text \<open>
  The first thread starts as its frame says: after the start of the main thread \<open>SVCall\<close> leaves
  zeroed registers and the process stack pointer at the hardware frame, from which the exception return
  enters the thread's entry function in Thumb state with a null argument.
\<close>

theorem first_thread_starts:
  assumes "boot_inv s" "fresh s t" "stack \<noteq> 0" "16 \<le> n" "(stack + 4 * n) mod 8 = 0" "stack + 4 * n < 2 ^ 32"
  shows "wpo (spawn_main_thread nm entry t stack n (s, m)) (\<lambda>(s', m'). \<forall>c. ram c = m' \<longrightarrow>
    (\<exists>c'. SVCall_handler t c s' = (c', s') \<and> ram c' = m'
      \<and> context_of c' = \<lparr>ctx_core = replicate 8 0, ctx_fp = None, ctx_return = EXC_RETURN_THREAD_MODE_PSP,
          ctx_sp = of_nat (stack + 4 * n - 32)\<rparr>
      \<and> psp c' = of_nat (stack + 4 * n - 32)
      \<and> read_words 8 (stack + 4 * n - 32) m' = [0, 0, 0, 0, 0, EXC_RETURN_THREAD_MODE_PSP, of_nat entry, INITIAL_XPSR_THUMB_STATE]))"
proof -
  let ?b = "stack_frame stack n"
  have b: "?b + 64 = stack + 4 * n" using assms(4) by (simp add: stack_frame_def)
  then have b': "?b + 64 < 2 ^ 32" "stack + 4 * n - 32 = ?b + 32" using assms(6) by simp_all
  have f: "drop 8 (initial_frame entry 0) = [0, 0, 0, 0, 0, EXC_RETURN_THREAD_MODE_PSP, of_nat entry, INITIAL_XPSR_THUMB_STATE]"
    by (simp add: initial_frame_def)
  show ?thesis
    unfolding b'(2)
    by (rule wpo_mono [OF spawn_main_thread_ok [OF assms(1-5)]])
      (use SVCall_starts [OF _ _ _ _ _ b'(1), of _ t _ entry 0 m] f in \<open>fastforce simp: case_prod_beta\<close>)
qed

end
