(* ===== verification/Traverse.thy ===== *)
theory Traverse
  imports Sched Thread
begin

text \<open>
  The traversals of the diagnostics modules (\<^verbatim>\<open>src/diagnostics/waitq.rs\<close>, \<^verbatim>\<open>src/diagnostics/runq.rs\<close>,
  \<^verbatim>\<open>src/diagnostics/ktimer.rs\<close>, \<^verbatim>\<open>src/diagnostics/sched.rs\<close>): a cursor that is moved to the next entry until there
  is none, with a callback on each. The callback is a parameter; what it captures is the state it
  updates.
\<close>

section \<open>Cursors\<close>

definition nonnull :: "addr \<Rightarrow> addr option" where
  "nonnull a = (if a = 0 then None else Some a)"

definition traverse_wait_queue :: "kstate \<Rightarrow> addr option \<Rightarrow> addr option option" where
  "traverse_wait_queue s cursor = do {
     entity \<leftarrow> next_wait_entity cursor s;
     Some (nonnull entity)
   }"

definition traverse_run_queue :: "kstate \<Rightarrow> addr option \<Rightarrow> addr option option" where
  "traverse_run_queue s cursor =
     (let first = nonnull (head_or_null (run_tree s)) in
      case cursor of
        None \<Rightarrow>
          if CURRENT_THREAD_IS_CFS s \<and> CURRENT_THREAD_CTX s \<noteq> 0 then Some (Some (CURRENT_THREAD_CTX s)) else Some first
      | Some t \<Rightarrow>
          if t = CURRENT_THREAD_CTX s then Some first
          else do {
            _ \<leftarrow> cfs_sched_entity t s;
            Some (nonnull (onext (run_tree s) t))
          })"

definition ktimer_cursor :: "kstate \<Rightarrow> addr option \<Rightarrow> addr option option" where
  "ktimer_cursor s cursor =
     (case cursor of
        None \<Rightarrow> Some (nonnull (ktq_first s))
      | Some e \<Rightarrow> do { n \<leftarrow> ktq_next e s; Some (nonnull n) })"

section \<open>Loops\<close>

text \<open>The loop of all traversals: call back, advance, until the cursor is empty.\<close>

partial_function (option) traverse_loop ::
  "(addr option \<Rightarrow> addr option option) \<Rightarrow> (addr \<Rightarrow> 'a \<Rightarrow> 'a option) \<Rightarrow> addr option \<Rightarrow> 'a \<Rightarrow> 'a option" where
  [code]: "traverse_loop nxt f cursor a =
     (case cursor of
        None \<Rightarrow> Some a
      | Some t \<Rightarrow> do {
          a \<leftarrow> f t a;
          cursor \<leftarrow> nxt (Some t);
          traverse_loop nxt f cursor a
        })"

definition traverse :: "(addr option \<Rightarrow> addr option option) \<Rightarrow> (addr \<Rightarrow> 'a \<Rightarrow> 'a option) \<Rightarrow> 'a \<Rightarrow> 'a option" where
  "traverse nxt f a = do { cursor \<leftarrow> nxt None; traverse_loop nxt f cursor a }"

definition traverse_wait_queue_fn :: "(TCB \<Rightarrow> 'a \<Rightarrow> 'a) \<Rightarrow> kstate \<Rightarrow> 'a \<Rightarrow> 'a option" where
  "traverse_wait_queue_fn f s =
     traverse (traverse_wait_queue s) (\<lambda>t a. do { th \<leftarrow> thread_ref_from_handle t s; Some (f th a) })"

definition traverse_run_queue_fn :: "(TCB \<Rightarrow> 'a \<Rightarrow> 'a) \<Rightarrow> kstate \<Rightarrow> 'a \<Rightarrow> 'a option" where
  "traverse_run_queue_fn f s =
     traverse (traverse_run_queue s) (\<lambda>t a. do { th \<leftarrow> get_thread s t; Some (f th a) })"

definition traverse_ktimer_queue_fn :: "(string \<Rightarrow> u32 \<Rightarrow> 'a \<Rightarrow> 'a) \<Rightarrow> kstate \<Rightarrow> 'a \<Rightarrow> 'a option" where
  "traverse_ktimer_queue_fn f s =
     traverse (ktimer_cursor s) (\<lambda>e a. do {
       nm \<leftarrow> ktimer_name e s;
       k \<leftarrow> get_ktimer s e;
       Some (f nm (ktimer_remaining_at k (now_ticks s)) a)
     })"

definition traverse_idle_thread_fn :: "(TCB \<Rightarrow> 'a \<Rightarrow> 'a) \<Rightarrow> kstate \<Rightarrow> 'a \<Rightarrow> 'a" where
  "traverse_idle_thread_fn f s a = (if IDLE_THREAD_CTX s \<noteq> 0 then f (threads s (IDLE_THREAD_CTX s)) a else a)"

section \<open>A cursor that enumerates a list\<close>

text \<open>
  The contract of a cursor: it starts at the first element of a list without repetition and moves from
  each element to its successor. A traversal then ends and calls back on every element once, in order.
\<close>

locale cursor =
  fixes ok :: "kstate \<Rightarrow> bool" and entries :: "kstate \<Rightarrow> addr list" and nxt :: "kstate \<Rightarrow> addr option \<Rightarrow> addr option option"
  assumes start: "ok s \<Longrightarrow> nxt s None = Some (nonnull (head_or_null (entries s)))"
    and advance: "ok s \<Longrightarrow> entries s = xs @ t # ys \<Longrightarrow> nxt s (Some t) = Some (nonnull (head_or_null ys))"
    and nonzero: "ok s \<Longrightarrow> 0 \<notin> set (entries s)"
begin

lemma loop_fold:
  assumes "ok s" "entries s = xs @ ys" "\<And>t a. t \<in> set ys \<Longrightarrow> f t a = Some (g t a)"
  shows "traverse_loop (nxt s) f (nonnull (head_or_null ys)) a = Some (fold g ys a)"
  using assms(2,3)
proof (induction ys arbitrary: xs a)
  case Nil
  then show ?case by (simp add: traverse_loop.simps nonnull_def)
next
  case (Cons t ys)
  have "t \<noteq> 0" using nonzero [OF assms(1)] Cons.prems(1) by auto
  then have "traverse_loop (nxt s) f (nonnull (head_or_null (t # ys))) a =
      traverse_loop (nxt s) f (nonnull (head_or_null ys)) (g t a)"
    using Cons.prems(2) [of t a] advance [OF assms(1) Cons.prems(1)]
    by (simp add: traverse_loop.simps [of _ _ "Some t"] nonnull_def)
  also have "\<dots> = Some (fold g ys (g t a))"
    by (rule Cons.IH [of "xs @ [t]"]) (use Cons.prems in auto)
  finally show ?case by simp
qed

lemma traverse_fold:
  assumes "ok s" "\<And>t a. t \<in> set (entries s) \<Longrightarrow> f t a = Some (g t a)"
  shows "traverse (nxt s) f a = Some (fold g (entries s) a)"
  using loop_fold [OF assms(1), of "[]" "entries s" f g a] assms by (simp add: traverse_def start)

end

text \<open>Threads the CFS traversal shows: the running one first, then the run queue.\<close>

definition cfs_entries :: "kstate \<Rightarrow> addr list" where
  "cfs_entries s =
     (if CURRENT_THREAD_IS_CFS s \<and> CURRENT_THREAD_CTX s \<noteq> 0 then [CURRENT_THREAD_CTX s] else []) @ run_tree s"

definition rq_visible :: "kstate \<Rightarrow> bool" where
  "rq_visible s \<longleftrightarrow> rq_ok s \<and> CURRENT_THREAD_CTX s \<notin> set (run_tree s)"

interpretation wait_cursor: cursor wq_ok "\<lambda>s. wait_tree s @ suspended s" traverse_wait_queue
  using next_wait_entity_walk by unfold_locales (auto simp: traverse_wait_queue_def wq_ok_def)

interpretation cfs_cursor: cursor rq_visible cfs_entries traverse_run_queue
proof unfold_locales
  fix s xs t ys
  assume ok: "rq_visible s" and e: "cfs_entries s = xs @ t # ys"
  have r: "0 \<notin> set (run_tree s)" "distinct (run_tree s)" "\<forall>u \<in> set (run_tree s). kind (threads s u) = Cfs"
    using ok rq_ok_distinct by (auto simp: rq_visible_def rq_ok_def)
  show "traverse_run_queue s (Some t) = Some (nonnull (head_or_null ys))"
  proof (cases "t = CURRENT_THREAD_CTX s")
    case True
    then have "t \<notin> set (run_tree s)" using ok by (simp add: rq_visible_def)
    then have "xs = [] \<and> ys = run_tree s" using e by (auto simp: cfs_entries_def Cons_eq_append_conv split: if_splits)
    then show ?thesis using True by (simp add: traverse_run_queue_def)
  next
    case False
    then obtain zs where z: "run_tree s = zs @ t # ys"
      using e by (auto simp: cfs_entries_def Cons_eq_append_conv split: if_splits)
    then have "t \<noteq> 0" "t \<notin> set zs" "kind (threads s t) = Cfs" using r by auto
    then show ?thesis
      using False z onext_append [of t zs ys]
      by (simp add: traverse_run_queue_def cfs_sched_entity_def store_defs require_def Let_def)
  qed
qed (auto simp: traverse_run_queue_def cfs_entries_def rq_visible_def rq_ok_def nonnull_def Let_def)

interpretation ktimer_walk: cursor ktq_ok ktq_list ktimer_cursor
proof unfold_locales
  fix s xs t ys
  assume k: "ktq_ok s" and e: "ktq_list s = xs @ t # ys"
  note l = ktq_list_ok [OF k]
  have "t \<notin> set xs" using kcmp.ordered_distinct [OF l(1)] e by auto
  then have "onext (ktq_list s) t = head_or_null ys" using onext_append [of t xs ys] e by simp
  moreover have "t \<in> queued s" using l(2) e by auto
  ultimately show "ktimer_cursor s (Some t) = Some (nonnull (head_or_null ys))"
    using ktq_next_list [OF k] by (simp add: ktimer_cursor_def)
qed (use ktq_first_list ktq_list_ok in \<open>auto simp: ktimer_cursor_def\<close>)

section \<open>What the traversals compute\<close>

lemma wait_fn_fold:
  assumes w: "wq_ok s"
  shows "traverse_wait_queue_fn f s a = Some (fold (\<lambda>u. f (threads s u)) (wait_tree s @ suspended s) a)"
proof -
  have "t \<noteq> 0 \<and> kind (threads s t) \<noteq> Idle" if "t \<in> set (wait_tree s @ suspended s)" for t
    using wq_ok_blocked [OF w, of t] that by (simp add: waiting_def)
  then show ?thesis
    unfolding traverse_wait_queue_fn_def
    by (intro wait_cursor.traverse_fold [OF w]) (simp add: thread_ref_from_handle_def get_thread_def)
qed

lemma cfs_fn_fold:
  assumes r: "rq_visible s"
  shows "traverse_run_queue_fn f s a = Some (fold (\<lambda>u. f (threads s u)) (cfs_entries s) a)"
proof -
  have "t \<noteq> 0" if "t \<in> set (cfs_entries s)" for t using that cfs_cursor.nonzero [OF r] by metis
  then show ?thesis
    unfolding traverse_run_queue_fn_def by (intro cfs_cursor.traverse_fold [OF r]) (simp add: get_thread_def)
qed

lemma ktimer_name_known: "e \<noteq> 0 \<Longrightarrow> \<exists>nm. ktimer_name e s = Some nm"
  by (auto simp: ktimer_name_def container_of_def get_ktimer_def require_def)

lemma ktimer_fn_fold:
  assumes k: "ktq_ok s"
  shows "traverse_ktimer_queue_fn f s a =
    Some (fold (\<lambda>e. f (the (ktimer_name e s)) (ktimer_remaining_at (ktimers s e) (now_ticks s))) (ktq_list s) a)"
proof -
  have z: "e \<noteq> 0" if "e \<in> set (ktq_list s)" for e using that ktq_list_ok(3) [OF k] by metis
  then have "ktimer_name e s = Some (the (ktimer_name e s))" if "e \<in> set (ktq_list s)" for e
    using that ktimer_name_known [of e s] by auto
  then show ?thesis
    unfolding traverse_ktimer_queue_fn_def
    by (intro ktimer_walk.traverse_fold [OF k]) (use z in \<open>metis (no_types, lifting) bind.bind_lunit get_ktimer_def\<close>)
qed

section \<open>A cursor that never ends\<close>

lemma traverse_loop_diverges:
  assumes c: "\<And>t c. t \<in> C \<Longrightarrow> nxt (Some t) = Some c \<Longrightarrow> c \<in> Some ` C" and t: "t \<in> C"
  shows "traverse_loop nxt f (Some t) a = None"
proof -
  have "cursor \<notin> Some ` C" if "traverse_loop nxt f cursor a = Some r" for cursor a r
  proof (rule traverse_loop.raw_induct [OF _ that, where P = "\<lambda>n _ cursor _ _. n = nxt \<longrightarrow> cursor \<notin> Some ` C", simplified])
    fix loop n g cursor and a r :: 'a
    assume IH: "\<And>n g cursor a r. loop n g cursor a = Some r \<Longrightarrow> n = nxt \<longrightarrow> cursor \<notin> Some ` C"
      and body: "(case cursor of None \<Rightarrow> Some a
        | Some t \<Rightarrow> g t a \<bind> (\<lambda>a. n (Some t) \<bind> (\<lambda>cursor. loop n g cursor a))) = Some r"
    show "n = nxt \<longrightarrow> cursor \<notin> Some ` C"
    proof (intro impI notI)
      assume n: "n = nxt" and "cursor \<in> Some ` C"
      then obtain u where u: "cursor = Some u" "u \<in> C" by blast
      then obtain b d where "nxt (Some u) = Some d" "loop n g d b = Some r"
        using body n by (auto simp: bind_eq_Some_conv)
      then show False using IH [of n g d b r] c [OF u(2)] n by blast
    qed
  qed
  then show ?thesis using t by (cases "traverse_loop nxt f (Some t) a") blast+
qed

end
