(* ===== verification/Diagnostics.thy ===== *)
theory Diagnostics
  imports Traverse
begin

text \<open>
  The text output of \<^verbatim>\<open>src/diagnostics/ktimer.rs\<close>: the timer queue dump and the report that is printed when a
  real-time thread misses its deadline. \<open>rtsched_println\<close> writes one line; a printing function returns
  its lines.
\<close>

section \<open>Formatting\<close>

fun show_nat :: "nat \<Rightarrow> string" where
  "show_nat n = (if n < 10 then [char_of (48 + n)] else show_nat (n div 10) @ [char_of (48 + n mod 10)])"

declare show_nat.simps [simp del]

definition dec :: "'a::len word \<Rightarrow> string" where
  "dec w = show_nat (unat w)"

definition quoted :: "string \<Rightarrow> string" where
  "quoted x = [CHR 0x27] @ x @ [CHR 0x27]"

definition yes_no :: "bool \<Rightarrow> string" where
  "yes_no b = (if b then ''yes'' else ''no'')"

definition show_bool :: "bool \<Rightarrow> string" where
  "show_bool b = (if b then ''true'' else ''false'')"

primrec thread_state_name :: "ThreadState \<Rightarrow> string" where
  "thread_state_name Ready = ''Ready''"
| "thread_state_name Running = ''Running''"
| "thread_state_name Waiting = ''Waiting''"
| "thread_state_name Suspended = ''Suspended''"

definition sync_type_name :: "SyncType option \<Rightarrow> string" where
  "sync_type_name e =
     (case e of
        Some SyncBinarySemaphore \<Rightarrow> ''binary-semaphore''
      | Some SyncCountingSemaphore \<Rightarrow> ''counting-semaphore''
      | Some SyncMutex \<Rightarrow> ''mutex''
      | Some SyncMessageQueueSend \<Rightarrow> ''message-queue-send''
      | Some SyncMessageQueueReceive \<Rightarrow> ''message-queue-receive''
      | None \<Rightarrow> ''none'')"

definition ktimer_kind_name :: "addr \<Rightarrow> kstate \<Rightarrow> string" where
  "ktimer_kind_name e s = (if is_cfs_ktimer e s then ''cfs'' else if is_wait_ktimer e s then ''wait'' else ''rt'')"

definition ktimer_name_or_none :: "addr \<Rightarrow> kstate \<Rightarrow> string option" where
  "ktimer_name_or_none e s = (if e = 0 then Some ''<none>'' else ktimer_name e s)"

section \<open>Budget overruns\<close>

text \<open>What \<open>record_rt_budget_overrun\<close> prints before it counts the miss; the kernel state does not depend on it.\<close>

definition budget_overrun_lines :: "addr \<Rightarrow> addr \<Rightarrow> kstate \<Rightarrow> string list option" where
  "budget_overrun_lines e t s = do {
     th \<leftarrow> rt_thread t s;
     k \<leftarrow> get_ktimer s e;
     Some (if runtime th > budget_ticks (timing k)
       then [''Budget overrun in thread '' @ quoted (thread_name th) @ '': runtime '' @ dec (runtime th)
         @ '' ticks exceeded budget '' @ dec (budget_ticks (timing k)) @ '' ticks'']
       else [])
   }"

text \<open>A line is printed exactly when a miss is counted.\<close>

lemma budget_overrun_printed:
  assumes "record_rt_budget_overrun e t s = Some s'" "budget_overrun_lines e t s = Some out"
  shows "miss_cnt (ktimers s' e) = (if out = [] then miss_cnt (ktimers s e) else saturating_add (miss_cnt (ktimers s e)) 1)"
  using assms
  by (auto simp: record_rt_budget_overrun_def budget_overrun_lines_def rt_thread_def get_ktimer_def container_of_def upd_ktimer_def
      require_def split: bind_splits if_splits)

section \<open>The timer queue\<close>

definition traverse_ktimer_queue :: "kstate \<Rightarrow> string list option" where
  "traverse_ktimer_queue s =
     traverse (ktimer_cursor s) (\<lambda>e out. do {
       nm \<leftarrow> ktimer_name e s;
       k \<leftarrow> get_ktimer s e;
       Some (out @ [nm @ '' ktimer'' @ [CHR 0x27] @ ''s remaining='' @ dec (ktimer_remaining_at k (now_ticks s))
         @ '', active='' @ show_bool (active k)])
     }) [''ktimer queue:'']"

definition print_ktimer_statistics :: "addr \<Rightarrow> string \<Rightarrow> bool \<Rightarrow> kstate \<Rightarrow> string list option" where
  "print_ktimer_statistics e marker is_queued s = do {
     k \<leftarrow> get_ktimer s e;
     nm \<leftarrow> ktimer_name e s;
     let line = ''  '' @ marker @ '' name='' @ quoted nm @ '' kind='' @ ktimer_kind_name e s @ '' queued='' @ yes_no is_queued
       @ '' expire_at='' @ dec (expire_at k) @ '' remaining='' @ dec (ktimer_remaining_at k (now_ticks s))
       @ '' active='' @ yes_no (active k);
     if \<not> is_cfs_ktimer e s \<and> \<not> is_wait_ktimer e s then do {
       k \<leftarrow> container_of e s;
       let line = line @ '' misses='' @ dec (miss_cnt k);
       let rt = ''    rt timing: period='' @ dec (period_ticks (timing k))
         @ '' relative_deadline='' @ dec (relative_deadline_ticks (timing k)) @ '' budget='' @ dec (budget_ticks (timing k));
       if thread_ctx k = 0 then Some [line, rt @ '' thread=<none>'']
       else do {
         th \<leftarrow> rt_thread (thread_ctx k) s;
         Some [line, rt @ '' thread_id='' @ dec (thread_id th) @ '' thread_state='' @ thread_state_name (state th)
           @ '' runtime='' @ dec (runtime th)]
       }
     } else Some [line]
   }"

definition print_ktimer_queue_statistics :: "addr \<Rightarrow> kstate \<Rightarrow> string list option" where
  "print_ktimer_queue_statistics missed_entity s = do {
     nm \<leftarrow> ktimer_name_or_none (ktq_first_active s) s;
     let out = [''ktimer queue statistics: now='' @ dec (now_ticks s) @ '' len='' @ show_nat (ktq_len s) @ '' first_active='' @ quoted nm];
     (out, printed_missed) \<leftarrow> traverse (ktimer_cursor s) (\<lambda>e (out, printed_missed). do {
       lines \<leftarrow> print_ktimer_statistics e (if e = missed_entity then ''*'' else '' '') True s;
       Some (out @ lines, printed_missed \<or> e = missed_entity)
     }) (out, False);
     if missed_entity \<noteq> 0 \<and> \<not> printed_missed then do {
       lines \<leftarrow> print_ktimer_statistics missed_entity ''*'' False s;
       Some (out @ [''  * expired timer was already removed from the queue''] @ lines)
     } else Some out
   }"

section \<open>Threads\<close>

definition print_basic_thread_statistics :: "string \<Rightarrow> string \<Rightarrow> TCB \<Rightarrow> string \<Rightarrow> string" where
  "print_basic_thread_statistics indent label th cls =
     indent @ label @ '': id='' @ dec (thread_id th) @ '' name='' @ quoted (thread_name th) @ '' class='' @ cls
     @ '' state='' @ thread_state_name (state th)"

definition print_cfs_thread_statistics :: "string \<Rightarrow> string \<Rightarrow> TCB \<Rightarrow> string" where
  "print_cfs_thread_statistics indent label th =
     (let i = sched_info th in
      indent @ label @ '': id='' @ dec (thread_id th) @ '' name='' @ quoted (thread_name th) @ '' class=cfs state=''
      @ thread_state_name (state th) @ '' priority='' @ dec (info_priority i) @ '' sched_ticks='' @ dec (info_sched_tick_cnt i)
      @ '' vruntime='' @ dec (info_vruntime i))"

definition print_rt_thread_statistics :: "string \<Rightarrow> string \<Rightarrow> TCB \<Rightarrow> addr \<Rightarrow> kstate \<Rightarrow> string option" where
  "print_rt_thread_statistics indent label th e s =
     (let line = indent @ label @ '': id='' @ dec (thread_id th) @ '' name='' @ quoted (thread_name th) @ '' class=rt state=''
        @ thread_state_name (state th) @ '' runtime='' @ dec (runtime th) in
      if e = 0 then Some (line @ '' ktimer=<none>'')
      else do {
        k \<leftarrow> container_of e s;
        nm \<leftarrow> ktimer_name e s;
        Some (line @ '' ktimer='' @ quoted nm @ '' expire_at='' @ dec (expire_at k)
          @ '' remaining='' @ dec (ktimer_remaining_at k (now_ticks s)) @ '' active='' @ yes_no (active k)
          @ '' misses='' @ dec (miss_cnt k))
      })"

definition print_wait_thread_statistics ::
  "string \<Rightarrow> string \<Rightarrow> TCB \<Rightarrow> string \<Rightarrow> u32 \<Rightarrow> SyncType option \<Rightarrow> u32 option \<Rightarrow> string" where
  "print_wait_thread_statistics indent label th cls wait_ticks evt rt =
     indent @ label @ '': id='' @ dec (thread_id th) @ '' name='' @ quoted (thread_name th) @ '' class='' @ cls
     @ '' state='' @ thread_state_name (state th) @ (case rt of Some r \<Rightarrow> '' runtime='' @ dec r | None \<Rightarrow> [])
     @ '' wait_ticks='' @ dec wait_ticks @ '' waitevt='' @ sync_type_name evt"

definition print_current_thread_statistics :: "kstate \<Rightarrow> string option" where
  "print_current_thread_statistics s =
     (let c = CURRENT_THREAD_CTX s in
      if c = 0 then Some ''  current: <none>''
      else if is_idle_thread c s then Some (print_basic_thread_statistics ''  '' ''current'' (threads s c) ''idle'')
      else if CURRENT_THREAD_IS_CFS s then Some (print_cfs_thread_statistics ''  '' ''current'' (threads s c))
      else print_rt_thread_statistics ''  '' ''current'' (threads s c) (ktimer_entity (threads s c)) s)"

definition print_idle_thread_statistics :: "kstate \<Rightarrow> string" where
  "print_idle_thread_statistics s =
     (if IDLE_THREAD_CTX s = 0 then ''  idle: <none>''
      else print_basic_thread_statistics ''  '' ''idle'' (threads s (IDLE_THREAD_CTX s)) ''idle'')"

definition print_cfs_thread_statistics_list :: "kstate \<Rightarrow> string list option" where
  "print_cfs_thread_statistics_list s = do {
     (out, saw_thread) \<leftarrow> traverse_run_queue_fn
       (\<lambda>th (out, saw). (out @ [print_cfs_thread_statistics ''    '' ''cfs'' th], True)) s ([''  cfs threads:''], False);
     Some (if saw_thread then out else out @ [''    <empty>''])
   }"

definition wait_line :: "kstate \<Rightarrow> TCB \<Rightarrow> string" where
  "wait_line s th =
     (let (wait_ticks, evt) = wait_info_from_entity (wait_entity th) s in
      if kind th = Cfs then print_wait_thread_statistics ''    '' ''wait'' th ''cfs'' wait_ticks evt None
      else print_wait_thread_statistics ''    '' ''wait'' th ''rt'' wait_ticks evt (Some (runtime th)))"

definition print_wait_thread_statistics_list :: "kstate \<Rightarrow> string list option" where
  "print_wait_thread_statistics_list s = do {
     (out, saw_thread) \<leftarrow> traverse_wait_queue_fn (\<lambda>th (out, saw). (out @ [wait_line s th], True)) s ([''  wait queue:''], False);
     Some (if saw_thread then out else out @ [''    <empty>''])
   }"

definition print_thread_statistics :: "addr \<Rightarrow> addr \<Rightarrow> kstate \<Rightarrow> string list option" where
  "print_thread_statistics missed_entity missed_thread s = do {
     miss \<leftarrow> print_rt_thread_statistics ''  '' ''missed'' (threads s missed_thread) missed_entity s;
     current \<leftarrow> print_current_thread_statistics s;
     cfs \<leftarrow> print_cfs_thread_statistics_list s;
     waits \<leftarrow> print_wait_thread_statistics_list s;
     Some ([''thread statistics:'', miss, current, print_idle_thread_statistics s] @ cfs @ waits)
   }"

definition print_rt_deadline_miss_diagnostics :: "addr \<Rightarrow> addr \<Rightarrow> kstate \<Rightarrow> string list option" where
  "print_rt_deadline_miss_diagnostics missed_entity missed_thread s = do {
     q \<leftarrow> print_ktimer_queue_statistics missed_entity s;
     t \<leftarrow> print_thread_statistics missed_entity missed_thread s;
     Some ([''rt deadline miss diagnostics:''] @ q @ t)
   }"

text \<open>
  What \<open>record_rt_deadline_miss\<close> prints before it panics: the queues with the miss already counted, in the
  trace counters and in the timer.
\<close>

definition deadline_miss_report :: "addr \<Rightarrow> addr \<Rightarrow> kstate \<Rightarrow> string list option" where
  "deadline_miss_report e t s = do {
     th \<leftarrow> rt_thread t s;
     k \<leftarrow> container_of e s;
     s \<leftarrow> Some (record_deadline_miss t (runtime th) (relative_deadline_ticks (timing k)) s);
     s \<leftarrow> upd_ktimer e (miss_cnt_update (\<lambda>c. saturating_add c 1)) s;
     out \<leftarrow> print_rt_deadline_miss_diagnostics e t s;
     Some ([''Deadline miss in thread '' @ quoted (thread_name th) @ '': timer expired at relative deadline ''
       @ dec (relative_deadline_ticks (timing k)) @ '' ticks (runtime '' @ dec (runtime th) @ '' ticks)''] @ out)
   }"

section \<open>Numbers can be read back\<close>

definition read_digits :: "string \<Rightarrow> nat" where
  "read_digits = foldl (\<lambda>n c. 10 * n + (of_char c - 48)) 0"

lemma read_digits_snoc: "read_digits (xs @ [c]) = 10 * read_digits xs + (of_char c - 48)"
  by (simp add: read_digits_def)

lemma digit_value: "d < 10 \<Longrightarrow> of_char (char_of (48 + d) :: char) - 48 = (d :: nat)"
  by (simp add: of_char_of take_bit_eq_mod)

lemma read_show_nat: "read_digits (show_nat n) = n"
proof (induction n rule: show_nat.induct)
  case (1 n)
  show ?case
  proof (cases "n < 10")
    case True
    then show ?thesis using digit_value [of n] by (simp add: show_nat.simps [of n] read_digits_def)
  next
    case False
    have d: "of_char (char_of (48 + n mod 10) :: char) - 48 = n mod 10" by (rule digit_value) simp
    have "show_nat n = show_nat (n div 10) @ [char_of (48 + n mod 10)]" by (subst show_nat.simps) (simp only: False if_False)
    then have "read_digits (show_nat n) = 10 * read_digits (show_nat (n div 10)) + n mod 10"
      by (simp only: read_digits_snoc d)
    then show ?thesis unfolding 1 [OF False] by presburger
  qed
qed

lemma dec_inj:
  assumes "dec v = dec w"
  shows "v = w"
proof -
  have "read_digits (show_nat (unat v)) = read_digits (show_nat (unat w))" using assms unfolding dec_def by (rule arg_cong)
  then show ?thesis unfolding read_show_nat by (rule word_unat_eq_iff [THEN iffD2])
qed

section \<open>The output is complete\<close>

lemma fold_lines: "fold (\<lambda>t out. out @ f t) xs out = out @ concat (map f xs)"
  by (induction xs arbitrary: out) auto

lemma fold_lines_flag:
  "fold (\<lambda>t (out, b). (out @ f t, b \<or> p t)) xs (out, b) = (out @ concat (map f xs), b \<or> (\<exists>t \<in> set xs. p t))"
  by (induction xs arbitrary: out b) auto

lemma fold_threads_flag:
  "fold (\<lambda>t (out, saw). (out @ [f t], True)) xs (out, b) = (out @ map f xs, b \<or> xs \<noteq> [])"
  by (induction xs arbitrary: out b) auto

text \<open>The lines of one timer, when its real-time thread is known.\<close>

definition timer_lines :: "kstate \<Rightarrow> string \<Rightarrow> bool \<Rightarrow> addr \<Rightarrow> string list" where
  "timer_lines s marker is_queued e = the (print_ktimer_statistics e marker is_queued s)"

lemma print_timer_total:
  assumes "e \<noteq> 0" "e = CFS_KTIMER s \<or> e = WAIT_KTIMER s \<or> rt_linked s e"
  shows "print_ktimer_statistics e m q s = Some (timer_lines s m q e)"
proof -
  obtain nm where nm: "ktimer_name e s = Some nm" using ktimer_name_known [OF assms(1)] by blast
  have "\<exists>ls. print_ktimer_statistics e m q s = Some ls"
  proof (cases "is_cfs_ktimer e s \<or> is_wait_ktimer e s")
    case True
    then show ?thesis using assms(1) nm by (auto simp: print_ktimer_statistics_def get_ktimer_def Let_def)
  next
    case False
    then have "rt_linked s e" using assms unfolding is_cfs_ktimer_def is_wait_ktimer_def by blast
    then have "rt_thread (thread_ctx (ktimers s e)) s = Some (threads s (thread_ctx (ktimers s e)))"
      using rt_linkedD by blast
    then show ?thesis
      using False assms(1) nm
      by (auto simp: print_ktimer_statistics_def get_ktimer_def container_of_def require_def Let_def)
  qed
  then show ?thesis by (auto simp: timer_lines_def)
qed

lemma print_queue_total:
  assumes k: "kinv s" and e: "rt_linked s e"
  shows "\<exists>stats. print_ktimer_queue_statistics e s = Some (stats
    # concat (map (\<lambda>u. timer_lines s (if u = e then ''*'' else '' '') True u) (ktq_list s))
    @ (if e \<in> queued s then [] else ''  * expired timer was already removed from the queue'' # timer_lines s ''*'' False e))"
proof -
  note l = ktq_list_ok [OF kinvD(4) [OF k]]
  have e0: "e \<noteq> 0" using rt_linkedD [OF e] by simp
  have known: "u \<noteq> 0" "u = CFS_KTIMER s \<or> u = WAIT_KTIMER s \<or> rt_linked s u" if "u \<in> queued s" for u
    using that kinvD(5) [OF k] ktq_ok_nonzero [OF kinvD(4) [OF k]] by (auto simp: links_def timer_ok_def)
  obtain nm where nm: "ktimer_name_or_none (ktq_first_active s) s = Some nm"
    using ktimer_name_known [of "ktq_first_active s" s] unfolding ktimer_name_or_none_def by metis
  let ?g = "\<lambda>u (out, b). (out @ timer_lines s (if u = e then ''*'' else '' '') True u, b \<or> u = e)"
  have "traverse (ktimer_cursor s) (\<lambda>u (out, b). do {
       lines \<leftarrow> print_ktimer_statistics u (if u = e then ''*'' else '' '') True s;
       Some (out @ lines, b \<or> u = e) }) a = Some (fold ?g (ktq_list s) a)" for a
    by (rule ktimer_walk.traverse_fold [OF kinvD(4) [OF k]])
      (use known l(2) print_timer_total in \<open>auto simp: case_prod_beta\<close>)
  moreover have "print_ktimer_statistics e ''*'' False s = Some (timer_lines s ''*'' False e)"
    by (rule print_timer_total) (use e e0 in auto)
  moreover have "(\<exists>u \<in> set (ktq_list s). u = e) \<longleftrightarrow> e \<in> queued s" using l(2) by blast
  ultimately show ?thesis
    using nm e0 by (simp add: print_ktimer_queue_statistics_def fold_lines_flag)
qed

lemma print_cfs_total:
  assumes "rq_visible s"
  shows "print_cfs_thread_statistics_list s = Some (''  cfs threads:'' #
    (if cfs_entries s = [] then [''    <empty>''] else map (\<lambda>u. print_cfs_thread_statistics ''    '' ''cfs'' (threads s u)) (cfs_entries s)))"
  using fold_threads_flag [of "\<lambda>u. print_cfs_thread_statistics ''    '' ''cfs'' (threads s u)" "cfs_entries s"]
  by (simp add: print_cfs_thread_statistics_list_def cfs_fn_fold [OF assms])

lemma print_wait_total:
  assumes w: "wq_ok s" and xs: "xs = wait_tree s @ suspended s"
  shows "print_wait_thread_statistics_list s = Some (''  wait queue:'' #
    (if xs = [] then [''    <empty>''] else map (\<lambda>u. wait_line s (threads s u)) xs))"
  using fold_threads_flag [of "\<lambda>u. wait_line s (threads s u)" xs]
  by (simp add: print_wait_thread_statistics_list_def wait_fn_fold [OF w] xs)

section \<open>The counted miss\<close>

definition counted_miss :: "addr \<Rightarrow> addr \<Rightarrow> kstate \<Rightarrow> kstate" where
  "counted_miss e t s =
     (let s' = record_deadline_miss t (runtime (threads s t)) (relative_deadline_ticks (timing (ktimers s e))) s
      in s'\<lparr>ktimers := (ktimers s')(e := miss_cnt_update (\<lambda>c. saturating_add c 1) (ktimers s' e))\<rparr>)"

lemma counted_miss_same [simp]:
  "threads (counted_miss e t s) = threads s" "run_tree (counted_miss e t s) = run_tree s"
  "wait_tree (counted_miss e t s) = wait_tree s" "suspended (counted_miss e t s) = suspended s"
  "active_tree (counted_miss e t s) = active_tree s" "inactive_tree (counted_miss e t s) = inactive_tree s"
  "first_active_node (counted_miss e t s) = first_active_node s" "first_inactive_node (counted_miss e t s) = first_inactive_node s"
  "CFS_KTIMER (counted_miss e t s) = CFS_KTIMER s" "WAIT_KTIMER (counted_miss e t s) = WAIT_KTIMER s"
  "CURRENT_THREAD_CTX (counted_miss e t s) = CURRENT_THREAD_CTX s" "IDLE_THREAD_CTX (counted_miss e t s) = IDLE_THREAD_CTX s"
  "CURRENT_THREAD_IS_CFS (counted_miss e t s) = CURRENT_THREAD_IS_CFS s" "now_ticks (counted_miss e t s) = now_ticks s"
  by (simp_all add: counted_miss_def Let_def)

lemma counted_miss_timer [simp]:
  "expire_at (ktimers (counted_miss e t s) k) = expire_at (ktimers s k)" "active (ktimers (counted_miss e t s) k) = active (ktimers s k)"
  "thread_ctx (ktimers (counted_miss e t s) k) = thread_ctx (ktimers s k)" "timing (ktimers (counted_miss e t s) k) = timing (ktimers s k)"
  by (simp_all add: counted_miss_def Let_def)

lemma counted_miss_queued [simp]: "queued (counted_miss e t s) = queued s" "waiting (counted_miss e t s) = waiting s"
  by (simp_all add: queued_def waiting_def)

lemma counted_miss_rt_linked [simp]: "rt_linked (counted_miss e t s) = rt_linked s"
  by (simp add: rt_linked_def fun_eq_iff)

lemma counted_miss_kinv:
  assumes "kinv s"
  shows "kinv (counted_miss e t s)"
proof -
  let ?s = "counted_miss e t s"
  have "wait_cmp ?s = wait_cmp s" "sched_cmp ?s = sched_cmp s" "ktimer_cmp ?s = ktimer_cmp s"
    by (simp_all add: wait_cmp_def sched_cmp_def ktimer_cmp_def)
  then show ?thesis
    using assms by (simp add: kinv_def kinv0_def wq_ok_def rq_ok_def ktq_ok_def links_def timer_ok_def waiter_ok_def)
qed

end
