(* ===== verification/PrintSink.thy ===== *)
theory PrintSink
  imports Diagnostics
begin

text \<open>
  The output of the library (\<^verbatim>\<open>src/print.rs\<close>): text goes to the function the application registers, in the
  pieces in which the formatter hands it over, and is dropped when there is none. The registered function
  is a parameter, a transformation of the state \<open>out\<close> of the outside world.
\<close>

record 'o print_port =
  PRINT_FN :: "(string \<Rightarrow> 'o \<Rightarrow> 'o) option"
  out :: 'o

definition set_print_fn :: "(string \<Rightarrow> 'o \<Rightarrow> 'o) \<Rightarrow> 'o print_port \<Rightarrow> 'o print_port" where
  "set_print_fn f p = p\<lparr>PRINT_FN := Some f\<rparr>"

definition clear_print_fn_for_test :: "'o print_port \<Rightarrow> 'o print_port" where
  "clear_print_fn_for_test p = p\<lparr>PRINT_FN := None\<rparr>"

definition write_str :: "string \<Rightarrow> 'o print_port \<Rightarrow> 'o print_port" where
  "write_str x p = (case PRINT_FN p of None \<Rightarrow> p | Some f \<Rightarrow> p\<lparr>out := f x (out p)\<rparr>)"

text \<open>The formatted arguments are the list of pieces that are written one after the other.\<close>

definition print_args :: "string list \<Rightarrow> 'o print_port \<Rightarrow> 'o print_port" where
  "print_args args p = fold write_str args p"

definition rtsched_println :: "string list \<Rightarrow> 'o print_port \<Rightarrow> 'o print_port" where
  "rtsched_println args p =
     (if args = [] then print_args [[CHR 0x0D, CHR 0x0A]] p
      else print_args [[CHR 0x0D, CHR 0x0A]] (print_args args p))"

text \<open>
  A diagnostic report that is printed line by line to a console that collects what it gets, whatever
  pieces the lines are made of; nothing is written when no function is registered.
\<close>

lemma print_args_append:
  assumes "PRINT_FN p = Some (\<lambda>x o'. o' @ x)"
  shows "print_args args p = p\<lparr>out := out p @ concat args\<rparr>"
  using assms by (induction args arbitrary: p) (simp_all add: print_args_def write_str_def)

lemma print_lines:
  assumes "PRINT_FN p = Some (\<lambda>x o'. o' @ x)" "map concat pieces = lines"
  shows "out (fold rtsched_println pieces p) = out p @ concat (map (\<lambda>l. l @ [CHR 0x0D, CHR 0x0A]) lines)"
  using assms
proof (induction pieces arbitrary: p lines)
  case (Cons args pieces)
  let ?p = "rtsched_println args p"
  have p: "?p = p\<lparr>out := out p @ concat args @ [CHR 0x0D, CHR 0x0A]\<rparr>"
    using Cons.prems(1) by (simp add: rtsched_println_def print_args_append)
  then show ?case using Cons.IH [of ?p "map concat pieces"] Cons.prems by auto
qed simp

lemma print_dropped: "PRINT_FN p = None \<Longrightarrow> fold rtsched_println pieces p = p"
proof -
  assume "PRINT_FN p = None"
  then have "print_args args p = p" for args by (induction args) (simp_all add: print_args_def write_str_def)
  then show ?thesis by (induction pieces) (simp_all add: rtsched_println_def)
qed

end
