(* ===== verification/Timing.thy ===== *)
theory Timing
  imports CtxSwitch
begin

text \<open>
  Measuring the scheduler: the trace hook registration and the interrupt timing of
  \<^verbatim>\<open>src/diagnostics/trace.rs\<close> (feature \<open>sched-isr-timing\<close>) with the measuring code at the end of \<open>PendSV\<close>
  (\<^verbatim>\<open>src/arch/cm/ctx_switch.rs\<close>), and the cycle counter services of \<^verbatim>\<open>src/arch/cm/platform.rs\<close>. The values of the
  cycle counter register are arguments of the operations that read it; the peripheral itself belongs to
  the \<^verbatim>\<open>cortex_m\<close> crate and is a parameter.
\<close>

section \<open>Trace hook and counters\<close>

definition set_trace_fn :: "kstate \<Rightarrow> kstate" where
  "set_trace_fn s = s\<lparr>trace_fn := True\<rparr>"

definition clear_trace_fn :: "kstate \<Rightarrow> kstate" where
  "clear_trace_fn s = s\<lparr>trace_fn := False\<rparr>"

definition trace_counters :: "kstate \<Rightarrow> TraceCounters" where
  "trace_counters s = counters s"

definition reset_trace_counters :: "kstate \<Rightarrow> kstate" where
  "reset_trace_counters s = s\<lparr>counters := \<lparr>context_switches = 0, deadline_misses = 0, wakeups = 0, yields = 0\<rparr>\<rparr>"

section \<open>Interrupt timing\<close>

record SchedIsrTiming =
  samples :: u32
  last_ticks :: u32
  min_ticks :: u32
  max_ticks :: u32
  advance_ktimers_last_ticks :: u32
  advance_ktimers_max_ticks :: u32
  dispatch_expired_ktimer_last_ticks :: u32
  dispatch_expired_ktimer_max_ticks :: u32

text \<open>The statics: the published values and the bookkeeping of the sample in progress.\<close>

record isr_statics = SchedIsrTiming +
  enabled :: u32
  armed :: u32
  start_cycle :: u32

definition mark_sched_tick_to_pendsv_start :: "u32 \<Rightarrow> isr_statics \<Rightarrow> isr_statics" where
  "mark_sched_tick_to_pendsv_start cycles tm = tm\<lparr>enabled := 1, start_cycle := cycles\<rparr>"

definition arm_sched_tick_to_pendsv_sample :: "isr_statics \<Rightarrow> isr_statics" where
  "arm_sched_tick_to_pendsv_sample tm = (if enabled tm \<noteq> 0 then tm\<lparr>armed := 1\<rparr> else tm)"

definition record_last_and_max :: "u32 \<Rightarrow> u32 \<Rightarrow> u32 \<times> u32" where
  "record_last_and_max mx ticks = (ticks, if mx < ticks then ticks else mx)"

definition record_sched_tick_ktimer_timing :: "u32 \<Rightarrow> u32 \<Rightarrow> isr_statics \<Rightarrow> isr_statics" where
  "record_sched_tick_ktimer_timing advance dispatch tm =
     (let (l, m) = record_last_and_max (advance_ktimers_max_ticks tm) advance;
          tm = tm\<lparr>advance_ktimers_last_ticks := l, advance_ktimers_max_ticks := m\<rparr>;
          (l, m) = record_last_and_max (dispatch_expired_ktimer_max_ticks tm) dispatch
      in tm\<lparr>dispatch_expired_ktimer_last_ticks := l, dispatch_expired_ktimer_max_ticks := m\<rparr>)"

definition sched_tick_to_pendsv_timing :: "isr_statics \<Rightarrow> SchedIsrTiming" where
  "sched_tick_to_pendsv_timing tm =
     \<lparr>samples = samples tm, last_ticks = last_ticks tm, min_ticks = min_ticks tm, max_ticks = max_ticks tm,
      advance_ktimers_last_ticks = advance_ktimers_last_ticks tm, advance_ktimers_max_ticks = advance_ktimers_max_ticks tm,
      dispatch_expired_ktimer_last_ticks = dispatch_expired_ktimer_last_ticks tm,
      dispatch_expired_ktimer_max_ticks = dispatch_expired_ktimer_max_ticks tm\<rparr>"

definition reset_sched_tick_to_pendsv_timing :: "isr_statics \<Rightarrow> isr_statics" where
  "reset_sched_tick_to_pendsv_timing tm =
     tm\<lparr>armed := 0, start_cycle := 0, last_ticks := 0, min_ticks := 0, max_ticks := 0, samples := 0,
       advance_ktimers_last_ticks := 0, advance_ktimers_max_ticks := 0,
       dispatch_expired_ktimer_last_ticks := 0, dispatch_expired_ktimer_max_ticks := 0\<rparr>"

definition reset_sched_tick_to_pendsv_min_ticks :: "isr_statics \<Rightarrow> isr_statics" where
  "reset_sched_tick_to_pendsv_min_ticks tm = tm\<lparr>min_ticks := 0\<rparr>"

definition reset_sched_tick_to_pendsv_max_ticks :: "isr_statics \<Rightarrow> isr_statics" where
  "reset_sched_tick_to_pendsv_max_ticks tm = tm\<lparr>max_ticks := 0\<rparr>"

definition reset_sched_tick_to_pendsv_min_max_ticks :: "isr_statics \<Rightarrow> isr_statics" where
  "reset_sched_tick_to_pendsv_min_max_ticks tm = tm\<lparr>min_ticks := 0, max_ticks := 0\<rparr>"

text \<open>The instructions that end \<open>PendSV\<close>; all arithmetic on 32-bit registers.\<close>

definition PendSV_timing :: "u32 \<Rightarrow> isr_statics \<Rightarrow> isr_statics" where
  "PendSV_timing cyccnt tm =
     (if armed tm = 0 then tm
      else let tm = tm\<lparr>armed := 0\<rparr>;
               ticks = cyccnt - start_cycle tm;
               tm = tm\<lparr>last_ticks := ticks, samples := samples tm + 1\<rparr>;
               tm = (if max_ticks tm < ticks then tm\<lparr>max_ticks := ticks\<rparr> else tm)
           in if min_ticks tm = 0 then tm\<lparr>min_ticks := ticks\<rparr>
              else if ticks < min_ticks tm then tm\<lparr>min_ticks := ticks\<rparr>
              else tm)"

text \<open>The tick and the context switch with the feature enabled; \<open>c0\<close>, \<open>c1\<close>, \<open>c2\<close> are the counter values read.\<close>

definition handle_sched_tick_timed :: "u32 \<Rightarrow> u32 \<Rightarrow> u32 \<Rightarrow> kstate \<times> isr_statics \<Rightarrow> (kstate \<times> isr_statics) option" where
  "handle_sched_tick_timed c0 c1 c2 = (\<lambda>(s, tm).
     if \<not> SCHEDULER_STARTED s then Some (s, tm)
     else do {
       let elapsed = elapsed_ticks_since_last_interrupt s;
       s \<leftarrow> Some (advance_ktimers elapsed s);
       (n, s) \<leftarrow> dispatch_expired elapsed s;
       tm \<leftarrow> Some (record_sched_tick_ktimer_timing (c1 - c0) (c2 - c1) tm);
       s \<leftarrow> Some (update_next_ktimer n s);
       tm \<leftarrow> Some (arm_sched_tick_to_pendsv_sample tm);
       Some (request_context_switch s, tm)
     })"

definition PendSV_handler_timed :: "u32 \<Rightarrow> cpu \<Rightarrow> kstate \<times> isr_statics \<Rightarrow> (cpu \<times> kstate \<times> isr_statics) option" where
  "PendSV_handler_timed cyccnt c = (\<lambda>(s, tm). do {
     (c, s) \<leftarrow> PendSV_handler c s;
     Some (c, s, PendSV_timing cyccnt tm)
   })"

section \<open>The cycle counter\<close>

record 'h dwt_port =
  has_cycle_counter :: "'h \<Rightarrow> bool"
  enable_trace :: "'h \<Rightarrow> 'h"
  set_cycle_count :: "u32 \<Rightarrow> 'h \<Rightarrow> 'h"
  enable_cycle_counter :: "'h \<Rightarrow> 'h"
  cycle_counter_enabled :: "'h \<Rightarrow> bool"
  cycle_count :: "'h \<Rightarrow> u32"

text \<open>The state is the peripheral and \<open>DWT_ELAPSE_START_CYCLE\<close>.\<close>

definition init_dwt_cycle_counter :: "'h dwt_port \<Rightarrow> 'h \<times> u32 \<Rightarrow> bool \<times> 'h \<times> u32" where
  "init_dwt_cycle_counter p = (\<lambda>(h, start).
     if \<not> has_cycle_counter p h then (False, h, start)
     else let h = enable_cycle_counter p (set_cycle_count p 0 (enable_trace p h))
          in if \<not> cycle_counter_enabled p h then (False, h, start) else (True, h, cycle_count p h))"

definition reset_elapse_counter :: "'h dwt_port \<Rightarrow> 'h \<times> u32 \<Rightarrow> 'h \<times> u32" where
  "reset_elapse_counter p = (\<lambda>(h, start). (h, cycle_count p h))"

definition elapse_cycles :: "'h dwt_port \<Rightarrow> 'h \<times> u32 \<Rightarrow> u32" where
  "elapse_cycles p = (\<lambda>(h, start). cycle_count p h - start)"

definition msec_from_cycles :: "u32 \<Rightarrow> kstate \<Rightarrow> u32" where
  "msec_from_cycles cycles s = (let ticks = ticks_per_ms s in if ticks = 0 then 0 else cycles div ticks)"

definition elapse_msec :: "'h dwt_port \<Rightarrow> 'h \<times> u32 \<Rightarrow> kstate \<Rightarrow> u32" where
  "elapse_msec p d s = msec_from_cycles (elapse_cycles p d) s"

definition elapse_msec_since :: "'h dwt_port \<Rightarrow> u32 \<Rightarrow> 'h \<times> u32 \<Rightarrow> kstate \<Rightarrow> u32" where
  "elapse_msec_since p start = (\<lambda>(h, _) s. msec_from_cycles (cycle_count p h - start) s)"

text \<open>
  Whether a thread may block: thread mode, interrupts enabled, no priority mask. The arguments are the
  values of the \<^verbatim>\<open>cortex_m\<close> register accessors; ``active'' means that the mask bit is clear.
\<close>

definition cm_blocking_context_available :: "bool \<Rightarrow> bool \<Rightarrow> 8 word \<Rightarrow> bool \<Rightarrow> bool" where
  "cm_blocking_context_available thread_mode primask_active basepri faultmask_active \<longleftrightarrow>
     thread_mode \<and> primask_active \<and> basepri = 0 \<and> faultmask_active"

section \<open>The measurement does not interfere\<close>

lemma timed_tick_kernel: "map_option fst (handle_sched_tick_timed c0 c1 c2 (s, tm)) = handle_sched_tick s"
  by (simp add: handle_sched_tick_timed_def handle_sched_tick_def Let_def bind_map_option map_option_bind comp_def
      case_prod_beta split: bind_split)

lemma timed_switch_kernel:
  "map_option (\<lambda>(c, s, _). (c, s)) (PendSV_handler_timed cyc c (s, tm)) = PendSV_handler c s"
  by (simp add: PendSV_handler_timed_def case_prod_beta split: bind_split)

section \<open>Wrap-around\<close>

lemma cycles_between: "n < 2 ^ 32 \<Longrightarrow> unat ((start + of_nat n) - start :: u32) = n"
  by (simp add: unat_of_nat take_bit_nat_eq_self)

lemma elapse_after_reset:
  assumes "cycle_count p h' = cycle_count p h + of_nat n" "n < 2 ^ 32"
  shows "unat (elapse_cycles p (h', snd (reset_elapse_counter p (h, start)))) = n"
  using assms cycles_between [OF assms(2)] by (simp add: elapse_cycles_def reset_elapse_counter_def)

lemma elapse_msec_after_reset:
  assumes "cycle_count p h' = cycle_count p h + of_nat n" "n < 2 ^ 32"
  shows "unat (elapse_msec p (h', snd (reset_elapse_counter p (h, start))) s) = n div unat (ticks_per_ms s)"
  using elapse_after_reset [OF assms, of start]
  by (simp add: elapse_msec_def msec_from_cycles_def Let_def unat_div)

section \<open>What the statistics mean\<close>

text \<open>
  A run of interrupts: \<open>Tick\<close> is a timer interrupt that is marked at a counter value, measures its two
  phases and is followed by \<open>PendSV\<close> \<open>n\<close> cycles after the mark; \<open>Switch\<close> is a context switch a thread
  requested, which is not measured.
\<close>

datatype isr_event = Tick u32 u32 u32 nat | Switch u32

fun isr_step :: "isr_event \<Rightarrow> isr_statics \<Rightarrow> isr_statics" where
  "isr_step (Tick start a d n) tm =
     PendSV_timing (start + of_nat n) (arm_sched_tick_to_pendsv_sample
       (record_sched_tick_ktimer_timing a d (mark_sched_tick_to_pendsv_start start tm)))"
| "isr_step (Switch cyccnt) tm = PendSV_timing cyccnt tm"

fun latencies :: "isr_event list \<Rightarrow> nat list" where
  "latencies [] = []"
| "latencies (Tick _ _ _ n # es) = n # latencies es"
| "latencies (Switch _ # es) = latencies es"

fun phases :: "isr_event list \<Rightarrow> (u32 \<times> u32) list" where
  "phases [] = []"
| "phases (Tick _ a d _ # es) = (a, d) # phases es"
| "phases (Switch _ # es) = phases es"

definition no_sample :: "isr_statics \<Rightarrow> bool" where
  "no_sample tm \<longleftrightarrow> armed tm = 0"

text \<open>The statistics after the latencies \<open>ns\<close>; a minimum of 0 stands for no sample.\<close>

definition summarises :: "nat list \<Rightarrow> isr_statics \<Rightarrow> bool" where
  "summarises ns tm \<longleftrightarrow>
     samples tm = of_nat (length ns) \<and> unat (last_ticks tm) = (if ns = [] then 0 else last ns)
     \<and> unat (min_ticks tm) = (if ns = [] then 0 else Min (set ns)) \<and> unat (max_ticks tm) = (if ns = [] then 0 else Max (set ns))"

definition phase_maxima :: "(u32 \<times> u32) list \<Rightarrow> isr_statics \<Rightarrow> bool" where
  "phase_maxima ps tm \<longleftrightarrow>
     advance_ktimers_max_ticks tm = (if ps = [] then 0 else Max (fst ` set ps))
     \<and> dispatch_expired_ktimer_max_ticks tm = (if ps = [] then 0 else Max (snd ` set ps))"

lemma if_less_max: "(if m < x then x else m) = max m (x :: 'a::linorder)" and if_less_min: "(if x < m then x else m) = min m x"
  by (auto simp: max_def min_def)

lemma PendSV_timing_fields:
  assumes "armed tm \<noteq> 0"
  shows "samples (PendSV_timing c tm) = samples tm + 1" "last_ticks (PendSV_timing c tm) = c - start_cycle tm"
    "max_ticks (PendSV_timing c tm) = max (max_ticks tm) (c - start_cycle tm)"
    "min_ticks (PendSV_timing c tm) =
      (if min_ticks tm = 0 then c - start_cycle tm else min (min_ticks tm) (c - start_cycle tm))"
    "advance_ktimers_max_ticks (PendSV_timing c tm) = advance_ktimers_max_ticks tm"
    "dispatch_expired_ktimer_max_ticks (PendSV_timing c tm) = dispatch_expired_ktimer_max_ticks tm"
  using assms by (simp_all add: PendSV_timing_def Let_def if_less_max [symmetric] if_less_min [symmetric])

lemma tick_fields:
  "samples (isr_step (Tick start a d n) tm) = samples tm + 1"
  "last_ticks (isr_step (Tick start a d n) tm) = of_nat n"
  "max_ticks (isr_step (Tick start a d n) tm) = max (max_ticks tm) (of_nat n)"
  "min_ticks (isr_step (Tick start a d n) tm) = (if min_ticks tm = 0 then of_nat n else min (min_ticks tm) (of_nat n))"
  "advance_ktimers_max_ticks (isr_step (Tick start a d n) tm) = max (advance_ktimers_max_ticks tm) a"
  "dispatch_expired_ktimer_max_ticks (isr_step (Tick start a d n) tm) = max (dispatch_expired_ktimer_max_ticks tm) d"
  by (simp_all add: PendSV_timing_fields arm_sched_tick_to_pendsv_sample_def mark_sched_tick_to_pendsv_start_def
      record_sched_tick_ktimer_timing_def record_last_and_max_def Let_def if_less_max)

lemma unat_max: "unat (max v w) = max (unat v) (unat w)" and unat_min: "unat (min v w) = min (unat v) (unat w)"
  by (simp_all add: max_def min_def word_le_nat_alt)

lemma tick_summarises:
  assumes s: "summarises ns tm" and pos: "0 \<notin> set ns" and n: "0 < n" "n < 2 ^ 32"
  shows "summarises (ns @ [n]) (isr_step (Tick start a d n) tm)"
proof -
  have u: "unat (of_nat n :: u32) = n" using cycles_between [OF n(2), of 0] by simp
  show ?thesis
  proof (cases "ns = []")
    case True
    then show ?thesis using s u by (simp add: summarises_def tick_fields unat_max unat_eq_0 del: isr_step.simps)
  next
    case False
    then have "Min (set ns) \<in> set ns" by simp
    then have "min_ticks tm \<noteq> 0" using s pos False unfolding summarises_def by (metis unat_0)
    then show ?thesis
      using False s u by (simp add: summarises_def tick_fields unat_max unat_min max.commute min.commute del: isr_step.simps)
  qed
qed

lemma tick_phases: "phase_maxima ps tm \<Longrightarrow> phase_maxima (ps @ [(a, d)]) (isr_step (Tick start a d n) tm)"
  by (cases "ps = []") (simp_all add: phase_maxima_def tick_fields max.commute del: isr_step.simps)

lemma step_no_sample [simp]: "no_sample tm \<Longrightarrow> no_sample (isr_step e tm)"
  by (cases e) (auto simp: no_sample_def PendSV_timing_def Let_def)

lemma switch_not_measured [simp]: "no_sample tm \<Longrightarrow> isr_step (Switch c) tm = tm"
  by (simp add: no_sample_def PendSV_timing_def)

lemma run_summarises:
  assumes "no_sample tm" "summarises ns tm" "phase_maxima ps tm" "0 \<notin> set ns" "\<forall>n \<in> set (latencies es). 0 < n \<and> n < 2 ^ 32"
  shows "summarises (ns @ latencies es) (fold isr_step es tm) \<and> phase_maxima (ps @ phases es) (fold isr_step es tm)"
  using assms
proof (induction es arbitrary: ns ps tm rule: latencies.induct)
  case (2 start a d n es)
  have "summarises (ns @ [n]) (isr_step (Tick start a d n) tm)" by (rule tick_summarises) (use 2 in auto)
  moreover have "phase_maxima (ps @ [(a, d)]) (isr_step (Tick start a d n) tm)" by (rule tick_phases) (use 2 in auto)
  ultimately show ?case
    using 2(1) [of "isr_step (Tick start a d n) tm" "ns @ [n]" "ps @ [(a, d)]"] 2(2-) by (simp del: isr_step.simps)
next
  case (3 c es)
  then show ?case by (simp del: isr_step.simps)
qed simp

lemma reset_summarises:
  "summarises [] (reset_sched_tick_to_pendsv_timing tm)" "phase_maxima [] (reset_sched_tick_to_pendsv_timing tm)"
  "no_sample (reset_sched_tick_to_pendsv_timing tm)"
  by (simp_all add: summarises_def phase_maxima_def no_sample_def reset_sched_tick_to_pendsv_timing_def)

end
