(* ===== verification/DiagProps.thy ===== *)
theory DiagProps
  imports Sample PrintSink Timing
begin

text \<open>Properties of the diagnostics: traversals, the deadline miss report and the interrupt timing.\<close>

lemma distinct_cfs_entries: "rq_visible s \<Longrightarrow> distinct (cfs_entries s)"
  using rq_ok_distinct by (auto simp: cfs_entries_def rq_visible_def)

text \<open>
  C36: the diagnostic traversals end and call back on every entry exactly once: on the blocked threads,
  timed waits in wake-up order first, on the CFS threads, the running one first, and on the timers in
  the order of their deadlines. The queues must be well formed and the running thread not in the run
  queue itself, as between any two scheduler operations.
\<close>

theorem traversals_visit_all:
  assumes k: "kinv s" and c: "CURRENT_THREAD_CTX s \<notin> set (run_tree s)" and xs: "xs = wait_tree s @ suspended s"
  shows "traverse_wait_queue_fn f s a = Some (fold (\<lambda>u. f (threads s u)) xs a) \<and> distinct xs \<and> set xs = waiting s
    \<and> traverse_run_queue_fn g s b = Some (fold (\<lambda>u. g (threads s u)) (cfs_entries s) b) \<and> distinct (cfs_entries s)
    \<and> traverse_ktimer_queue_fn h s d =
        Some (fold (\<lambda>e. h (the (ktimer_name e s)) (ktimer_remaining_at (ktimers s e) (now_ticks s))) (ktq_list s) d)
    \<and> ordered (ktimer_cmp s) (ktq_list s) \<and> set (ktq_list s) = queued s"
proof -
  note w = kinvD(2) [OF k] and q = kinvD(4) [OF k]
  have v: "rq_visible s" using kinvD(3) [OF k] c by (simp add: rq_visible_def)
  have "distinct xs" using w wq_ok_disjoint [OF w] wq_ok_distinct [OF w] by (auto simp: xs wq_ok_def)
  moreover have "set xs = waiting s" by (simp add: xs waiting_def)
  ultimately show ?thesis
    using wait_fn_fold [OF w, of f a] cfs_fn_fold [OF v, of g b] ktimer_fn_fold [OF q, of h d] distinct_cfs_entries [OF v]
      ktq_list_ok [OF q]
    by (simp add: xs)
qed

theorem traversals_visit_all_witness:
  "traverse_wait_queue_fn (\<lambda>th out. out @ [thread_id th]) sample [] = Some [3, 6, 4, 7]
    \<and> traverse_run_queue_fn (\<lambda>th out. out @ [thread_id th]) sample [] = Some [1, 2]"
  using traversals_visit_all [OF sample_kinv _ refl, where f = "\<lambda>th out. out @ [thread_id th]" and a = "[]"
      and g = "\<lambda>th out. out @ [thread_id th]" and b = "[]" and h = "\<lambda>_ _ _. ()" and d = "()"]
  by (simp add: cfs_entries_def) (simp add: sample_defs)

text \<open>
  The running thread must not be in the run queue itself, as it is between a wake-up of the blocking
  thread and the context switch: then the CFS traversal never ends.
\<close>

theorem cfs_traversal_hangs:
  assumes r: "rq_ok s" and c: "CURRENT_THREAD_CTX s \<in> set (run_tree s)"
  shows "traverse_run_queue_fn f s a = None"
proof -
  let ?c = "CURRENT_THREAD_CTX s"
  obtain xs ys where e: "run_tree s = xs @ ?c # ys" "?c \<notin> set xs" using split_list_first [OF c] by blast
  have z: "0 \<notin> set (run_tree s)" "distinct (run_tree s)" using r rq_ok_distinct by (auto simp: rq_ok_def)
  let ?C = "set xs \<union> {?c}"
  have head: "head_or_null (run_tree s) \<in> ?C" "head_or_null (run_tree s) \<noteq> 0" using e z by (cases xs; auto)+
  have step: "d \<in> Some ` ?C" if "t \<in> ?C" "traverse_run_queue s (Some t) = Some d" for t d
  proof (cases "t = ?c")
    case True
    then show ?thesis using that head by (auto simp: traverse_run_queue_def nonnull_def Let_def)
  next
    case False
    then have "t \<in> set xs" using that(1) by blast
    then obtain us vs where u: "xs = us @ t # vs" "t \<notin> set us" using split_list_first by fast
    have n: "onext (run_tree s) t = head_or_null (vs @ ?c # ys)" using onext_append [OF u(2), of "vs @ ?c # ys"] e u by simp
    have "onext (run_tree s) t \<in> ?C \<and> onext (run_tree s) t \<noteq> 0" unfolding n using z e u by (cases vs) auto
    then show ?thesis
      using that(2) False by (auto simp: traverse_run_queue_def nonnull_def Let_def bind_eq_Some_conv)
  qed
  obtain t where t: "traverse_run_queue s None = Some (Some t)" "t \<in> ?C"
    using head that by (cases "CURRENT_THREAD_IS_CFS s \<and> ?c \<noteq> 0") (auto simp: traverse_run_queue_def nonnull_def Let_def)
  have "traverse_loop (traverse_run_queue s) g (Some t) a = None" for g
    by (rule traverse_loop_diverges [OF step t(2)])
  then show ?thesis using t(1) by (simp add: traverse_run_queue_fn_def traverse_def)
qed

text \<open>
  C37: the report of a deadline miss is complete: it is printed without a failure, with the miss counted,
  and lists every queued timer once, in deadline order, with the missed one marked (or reported as
  removed), the missed, current and idle threads, every CFS thread and every blocked thread.
\<close>

theorem miss_report_complete:
  assumes k: "kinv s" and cur: "CURRENT_THREAD_CTX s \<notin> set (run_tree s)"
    and e: "rt_linked s e" "t = thread_ctx (ktimers s e)"
    and c: "ktimer_entity (threads s (CURRENT_THREAD_CTX s)) \<notin> {CFS_KTIMER s, WAIT_KTIMER s}"
    and s': "s' = counted_miss e t s" and xs: "xs = wait_tree s @ suspended s"
  shows "\<exists>headline stats miss current. deadline_miss_report e t s = Some (
    [headline, ''rt deadline miss diagnostics:'', stats]
    @ concat (map (\<lambda>u. timer_lines s' (if u = e then ''*'' else '' '') True u) (ktq_list s'))
    @ (if e \<in> queued s then [] else ''  * expired timer was already removed from the queue'' # timer_lines s' ''*'' False e)
    @ [''thread statistics:'', miss, current, print_idle_thread_statistics s', ''  cfs threads:'']
    @ (if cfs_entries s' = [] then [''    <empty>'']
       else map (\<lambda>u. print_cfs_thread_statistics ''    '' ''cfs'' (threads s u)) (cfs_entries s'))
    @ [''  wait queue:'']
    @ (if xs = [] then [''    <empty>''] else map (\<lambda>u. wait_line s' (threads s u)) xs))"
proof -
  have k': "kinv s'" unfolding s' by (rule counted_miss_kinv [OF k])
  have v: "rq_visible s'" using kinvD(3) [OF k'] cur by (simp add: rq_visible_def s')
  note L = rt_linkedD [OF e(1)]
  have e': "rt_linked s' e" using e(1) by (simp add: s')
  have same: "threads s' = threads s" "queued s' = queued s" "CFS_KTIMER s' = CFS_KTIMER s" "WAIT_KTIMER s' = WAIT_KTIMER s"
    "CURRENT_THREAD_CTX s' = CURRENT_THREAD_CTX s" by (simp_all add: s')
  have cont: "container_of u r = Some (ktimers r u)" if "u \<noteq> 0" "u \<notin> {CFS_KTIMER r, WAIT_KTIMER r}" for u r
    using that by (simp add: container_of_def get_ktimer_def is_cfs_ktimer_def is_wait_ktimer_def require_def)
  have e0: "e \<noteq> 0" "e \<notin> {CFS_KTIMER s, WAIT_KTIMER s}" using L by auto
  have rt: "\<exists>l. print_rt_thread_statistics x y z u s' = Some l" if "u = 0 \<or> u \<notin> {CFS_KTIMER s, WAIT_KTIMER s}" for x y z u
    using that cont [of u s'] ktimer_name_known [of u s'] same
    by (cases "u = 0") (auto simp: print_rt_thread_statistics_def Let_def)
  obtain miss where m: "print_rt_thread_statistics ''  '' ''missed'' (threads s t) e s' = Some miss" using rt e0 by blast
  obtain current where u: "print_current_thread_statistics s' = Some current"
    using rt [of "ktimer_entity (threads s (CURRENT_THREAD_CTX s))"] c
    unfolding print_current_thread_statistics_def Let_def same by metis
  obtain stats where q: "print_ktimer_queue_statistics e s' = Some (stats
    # concat (map (\<lambda>u. timer_lines s' (if u = e then ''*'' else '' '') True u) (ktq_list s'))
    @ (if e \<in> queued s then [] else ''  * expired timer was already removed from the queue'' # timer_lines s' ''*'' False e))"
    using print_queue_total [OF k' e'] unfolding same by blast
  have th: "rt_thread t s = Some (threads s t)" using L e(2) by simp
  have up: "upd_ktimer e (miss_cnt_update (\<lambda>c. saturating_add c 1))
      (record_deadline_miss t (runtime (threads s t)) (relative_deadline_ticks (timing (ktimers s e))) s) = Some s'"
    using e0 by (simp add: s' counted_miss_def upd_ktimer_def get_ktimer_def Let_def)
  have "xs = wait_tree s' @ suspended s'" by (simp add: xs s')
  then show ?thesis
    using th cont [OF e0] m u q up print_cfs_total [OF v] print_wait_total [OF kinvD(2) [OF k']]
    by (simp add: deadline_miss_report_def print_rt_deadline_miss_diagnostics_def print_thread_statistics_def same)
qed

theorem miss_report_complete_witness:
  "\<exists>headline stats miss current. deadline_miss_report 300 3000 sample = Some (
    [headline, ''rt deadline miss diagnostics:'', stats]
    @ concat (map (\<lambda>u. timer_lines (counted_miss 300 3000 sample) (if u = 300 then ''*'' else '' '') True u)
        (ktq_list (counted_miss 300 3000 sample)))
    @ [''thread statistics:'', miss, current, print_idle_thread_statistics (counted_miss 300 3000 sample), ''  cfs threads:'']
    @ map (\<lambda>u. print_cfs_thread_statistics ''    '' ''cfs'' (threads sample u)) [2000, 2100]
    @ [''  wait queue:''] @ map (\<lambda>u. wait_line (counted_miss 300 3000 sample) (threads sample u)) [2200, 3100, 2300, 3200])"
proof -
  have "(3000 :: addr) = thread_ctx (ktimers sample 300)" "ktimer_entity (threads sample 2000) = 0"
    by (simp_all add: sample_defs)
  then show ?thesis
    using miss_report_complete [OF sample_kinv _ sample_links(1), of 3000 _ "wait_tree sample @ suspended sample"]
    by (simp add: cfs_entries_def)
qed

section \<open>Interrupt timing\<close>

text \<open>
  After a reset the published interrupt timing is exact, also when the cycle counter wraps around
  during a sample: the number of measured ticks, the last, least and greatest latency from the timer
  interrupt to the end of the context switch, and the greatest duration of the two phases of the tick.
  Switches that threads requested themselves are not measured.
\<close>

theorem isr_timing_exact:
  assumes es: "latencies es \<noteq> []" "\<forall>n \<in> set (latencies es). 0 < n \<and> n < 2 ^ 32"
    and t: "t = sched_tick_to_pendsv_timing (fold isr_step es (reset_sched_tick_to_pendsv_timing tm))"
  shows "samples t = of_nat (length (latencies es)) \<and> unat (last_ticks t) = last (latencies es)
    \<and> unat (min_ticks t) = Min (set (latencies es)) \<and> unat (max_ticks t) = Max (set (latencies es))
    \<and> advance_ktimers_max_ticks t = Max (fst ` set (phases es)) \<and> dispatch_expired_ktimer_max_ticks t = Max (snd ` set (phases es))"
proof -
  have "phases es \<noteq> []" using es(1) by (induction es rule: latencies.induct) auto
  then show ?thesis
    using run_summarises [OF reset_summarises(3,1,2), of es tm] es
    by (simp add: t sched_tick_to_pendsv_timing_def summarises_def phase_maxima_def)
qed

definition sample_statics :: isr_statics where
  "sample_statics = \<lparr>samples = 9, last_ticks = 9, min_ticks = 1, max_ticks = 99, advance_ktimers_last_ticks = 0,
     advance_ktimers_max_ticks = 0, dispatch_expired_ktimer_last_ticks = 0, dispatch_expired_ktimer_max_ticks = 0,
     enabled = 1, armed = 1, start_cycle = 5\<rparr>"

end
