(* ===== verification/Layout.thy ===== *)
theory Layout
  imports RbApi Thread
begin

text \<open>
  Intrusive storage. Queues link nodes that are embedded in entities, and entities that are embedded in
  thread control blocks; the accessors of \<^verbatim>\<open>src/thread.rs\<close> go from a thread to its entities and back with
  \<open>offset_of!\<close> arithmetic, and so do the \<open>RBTreeNode\<close> implementations of the entity types. The other
  components name entities by the thread they belong to; here the pointer arithmetic is shown to be a
  round trip, so that this identification is right, and the pointer-level trees over embedded nodes to
  implement the queues of threads.
\<close>

section \<open>Structure layout\<close>

text \<open>
  A \<open>repr(C)\<close> structure is a list of fields with size and alignment; the numbers are those of the
  32-bit target. \<open>WaitEntity\<close> has no fixed representation, so its size, its alignment and the offset of its
  node are parameters.
\<close>

record wait_layout =
  wl_size :: nat
  wl_align :: nat
  wl_node :: nat

definition align_up :: "nat \<Rightarrow> nat \<Rightarrow> nat" where
  "align_up n a = (n + a - 1) div a * a"

fun c_offsets :: "nat \<Rightarrow> (nat \<times> nat) list \<Rightarrow> nat list" where
  "c_offsets cur [] = []"
| "c_offsets cur ((sz, al) # fs) = (let here = align_up cur al in here # c_offsets (here + sz) fs)"

fun c_end :: "nat \<Rightarrow> (nat \<times> nat) list \<Rightarrow> nat" where
  "c_end cur [] = cur"
| "c_end cur ((sz, al) # fs) = c_end (align_up cur al + sz) fs"

definition c_struct :: "(nat \<times> nat) list \<Rightarrow> nat \<times> nat" where
  "c_struct fs = (let al = foldr (\<lambda>f. max (snd f)) fs 1 in (align_up (c_end 0 fs) al, al))"

definition offset_of :: "(nat \<times> nat) list \<Rightarrow> nat \<Rightarrow> nat" where
  "offset_of fs i = c_offsets 0 fs ! i"

abbreviation u8_field :: "nat \<times> nat" where "u8_field \<equiv> (1, 1)"
abbreviation u32_field :: "nat \<times> nat" where "u32_field \<equiv> (4, 4)"
abbreviation u64_field :: "nat \<times> nat" where "u64_field \<equiv> (8, 8)"
abbreviation ptr_field :: "nat \<times> nat" where "ptr_field \<equiv> (4, 4)"
abbreviation str_field :: "nat \<times> nat" where "str_field \<equiv> (8, 4)"

text \<open>A \<open>repr(C)\<close> enumeration without fields takes one byte on the target (\<^verbatim>\<open>thumbv8m.main-none-eabihf\<close> has short enumerations).\<close>

abbreviation enum_field :: "nat \<times> nat" where "enum_field \<equiv> (1, 1)"

definition RbNode_fields :: "(nat \<times> nat) list" where
  "RbNode_fields = [ptr_field, ptr_field, ptr_field, u8_field]"

definition ThreadCtx_fields :: "(nat \<times> nat) list" where
  "ThreadCtx_fields = [u32_field, u32_field, u32_field, str_field, enum_field, u8_field]"

definition SyncEntity_fields :: "(nat \<times> nat) list" where
  "SyncEntity_fields = [u64_field, c_struct RbNode_fields]"

definition SchedEntity_fields :: "(nat \<times> nat) list" where
  "SchedEntity_fields = [u64_field, u64_field, u32_field, c_struct RbNode_fields]"

definition KTimerEntity_fields :: "(nat \<times> nat) list" where
  "KTimerEntity_fields = [u64_field, c_struct RbNode_fields, u8_field, (12, 4)]"

definition RtKTimer_fields :: "(nat \<times> nat) list" where
  "RtKTimer_fields = [c_struct KTimerEntity_fields, str_field, u32_field, ptr_field]"

definition CfsThread_fields :: "wait_layout \<Rightarrow> (nat \<times> nat) list" where
  "CfsThread_fields W =
     [c_struct ThreadCtx_fields, (wl_size W, wl_align W), c_struct SyncEntity_fields, c_struct SchedEntity_fields]"

definition RtThread_fields :: "wait_layout \<Rightarrow> (nat \<times> nat) list" where
  "RtThread_fields W =
     [c_struct ThreadCtx_fields, (wl_size W, wl_align W), c_struct SyncEntity_fields, ptr_field, u32_field]"

section \<open>Accessors\<close>

text \<open>\<open>wrapping_sub\<close> on 32-bit addresses; \<open>addr_of_mut!\<close> of a field adds its offset.\<close>

definition wrapping_sub_ptr :: "addr \<Rightarrow> nat \<Rightarrow> addr" where
  "wrapping_sub_ptr a off = (a + 2 ^ 32 - off) mod 2 ^ 32"

definition cfs_thread_from_handle :: "wait_layout \<Rightarrow> addr \<Rightarrow> addr" where
  "cfs_thread_from_handle W t = wrapping_sub_ptr t (offset_of (CfsThread_fields W) 0)"

definition rt_thread_from_handle :: "wait_layout \<Rightarrow> addr \<Rightarrow> addr" where
  "rt_thread_from_handle W t = wrapping_sub_ptr t (offset_of (RtThread_fields W) 0)"

definition cfs_sched_entity_ptr :: "wait_layout \<Rightarrow> addr \<Rightarrow> addr" where
  "cfs_sched_entity_ptr W t = cfs_thread_from_handle W t + offset_of (CfsThread_fields W) 3"

definition from_thread_ctx :: "addr \<Rightarrow> addr option" where
  "from_thread_ctx t = do { require (t \<noteq> 0); Some t }"

definition thread_handle_from_cfs_sched_entity :: "wait_layout \<Rightarrow> addr \<Rightarrow> addr option" where
  "thread_handle_from_cfs_sched_entity W e = do {
     require (e \<noteq> 0);
     let cfs_thread = wrapping_sub_ptr e (offset_of (CfsThread_fields W) 3);
     from_thread_ctx (cfs_thread + offset_of (CfsThread_fields W) 0)
   }"

definition cfs_wait_entity :: "wait_layout \<Rightarrow> addr \<Rightarrow> addr" where
  "cfs_wait_entity W t = wrapping_sub_ptr t (offset_of (CfsThread_fields W) 0) + offset_of (CfsThread_fields W) 1"

definition rt_wait_entity :: "wait_layout \<Rightarrow> addr \<Rightarrow> addr" where
  "rt_wait_entity W t = wrapping_sub_ptr t (offset_of (RtThread_fields W) 0) + offset_of (RtThread_fields W) 1"

definition cfs_sync_entity :: "wait_layout \<Rightarrow> addr \<Rightarrow> addr" where
  "cfs_sync_entity W t = wrapping_sub_ptr t (offset_of (CfsThread_fields W) 0) + offset_of (CfsThread_fields W) 2"

definition rt_sync_entity :: "wait_layout \<Rightarrow> addr \<Rightarrow> addr" where
  "rt_sync_entity W t = wrapping_sub_ptr t (offset_of (RtThread_fields W) 0) + offset_of (RtThread_fields W) 2"

definition wait_entity_ptr :: "wait_layout \<Rightarrow> addr \<Rightarrow> kstate \<Rightarrow> addr option" where
  "wait_entity_ptr W t s =
     (case kind (threads s t) of Cfs \<Rightarrow> Some (cfs_wait_entity W t) | Rt \<Rightarrow> Some (rt_wait_entity W t) | Idle \<Rightarrow> None)"

definition sync_entity_ptr :: "wait_layout \<Rightarrow> addr \<Rightarrow> kstate \<Rightarrow> addr option" where
  "sync_entity_ptr W t s =
     (case kind (threads s t) of Cfs \<Rightarrow> Some (cfs_sync_entity W t) | Rt \<Rightarrow> Some (rt_sync_entity W t) | Idle \<Rightarrow> None)"

definition thread_handle_from_wait_entity :: "wait_layout \<Rightarrow> addr \<Rightarrow> addr option" where
  "thread_handle_from_wait_entity W e = do {
     require (e \<noteq> 0);
     require (offset_of (CfsThread_fields W) 1 = offset_of (RtThread_fields W) 1);
     let thread = wrapping_sub_ptr e (offset_of (CfsThread_fields W) 1);
     from_thread_ctx (thread + offset_of (CfsThread_fields W) 0)
   }"

definition thread_handle_from_sync_entity :: "wait_layout \<Rightarrow> addr \<Rightarrow> addr option" where
  "thread_handle_from_sync_entity W e = do {
     require (e \<noteq> 0);
     require (offset_of (CfsThread_fields W) 2 = offset_of (RtThread_fields W) 2);
     let thread = wrapping_sub_ptr e (offset_of (CfsThread_fields W) 2);
     from_thread_ctx (thread + offset_of (CfsThread_fields W) 0)
   }"

definition KTimerEntity_container_of :: "addr \<Rightarrow> kstate \<Rightarrow> addr option" where
  "KTimerEntity_container_of e s = do {
     require (e \<noteq> 0);
     require (\<not> is_cfs_ktimer e s);
     require (\<not> is_wait_ktimer e s);
     Some (wrapping_sub_ptr e (offset_of RtKTimer_fields 0))
   }"

definition entity_mut :: "addr \<Rightarrow> addr" where
  "entity_mut k = k + offset_of RtKTimer_fields 0"

section \<open>The entity types as tree nodes\<close>

text \<open>
  The comparison reads the key of the entity at an address, which is that of the thread whose control
  block contains it.
\<close>

definition WaitEntity_node :: "wait_layout \<Rightarrow> kstate \<Rightarrow> RBTreeNode" where
  "WaitEntity_node W s = offset_entity (wl_node W)
     (key_cmp (\<lambda>e. let w = wait_entity (threads s (e - offset_of (CfsThread_fields W) 1)) in (wake_at w, waitevt w)))"

definition SyncEntity_node :: "wait_layout \<Rightarrow> kstate \<Rightarrow> RBTreeNode" where
  "SyncEntity_node W s = offset_entity (offset_of SyncEntity_fields 1)
     (key_cmp (\<lambda>e. deadline_at (sync_entity (threads s (e - offset_of (CfsThread_fields W) 2)))))"

definition SchedEntity_node :: "wait_layout \<Rightarrow> kstate \<Rightarrow> RBTreeNode" where
  "SchedEntity_node W s = offset_entity (offset_of SchedEntity_fields 3)
     (key_cmp (\<lambda>e. vruntime (sched_entity (threads s (e - offset_of (CfsThread_fields W) 3)))))"

definition KTimerEntity_node :: "kstate \<Rightarrow> RBTreeNode" where
  "KTimerEntity_node s = offset_entity (offset_of KTimerEntity_fields 1) (key_cmp (\<lambda>e. expire_at (ktimers s e)))"

section \<open>Offsets\<close>

lemma align_up_ge: "0 < a \<Longrightarrow> n \<le> align_up n a"
proof -
  assume a: "0 < a"
  have "n + a - 1 < (n + a - 1) div a * a + a" using a by (metis add.commute dividend_less_times_div mult.commute)
  then show ?thesis using a by (simp add: align_up_def)
qed

lemma align_up_0 [simp]: "0 < a \<Longrightarrow> align_up 0 a = 0"
  by (simp add: align_up_def)

lemma align_up_dvd [simp]: "a dvd align_up n a"
  by (simp add: align_up_def)

lemma align_up_1 [simp]: "align_up n (Suc 0) = n"
  by (simp add: align_up_def)

text \<open>Sizes on the target.\<close>

lemma c_structs [simp]:
  "c_struct RbNode_fields = (16, 4)" "c_struct ThreadCtx_fields = (24, 4)" "c_struct SyncEntity_fields = (24, 8)"
  "c_struct SchedEntity_fields = (40, 8)" "c_struct KTimerEntity_fields = (40, 8)"
proof -
  show rb: "c_struct RbNode_fields = (16, 4)" by (simp add: c_struct_def RbNode_fields_def align_up_def)
  show "c_struct ThreadCtx_fields = (24, 4)" by (simp add: c_struct_def ThreadCtx_fields_def align_up_def)
  show "c_struct SyncEntity_fields = (24, 8)" unfolding SyncEntity_fields_def rb by (simp add: c_struct_def align_up_def)
  show "c_struct SchedEntity_fields = (40, 8)" unfolding SchedEntity_fields_def rb by (simp add: c_struct_def align_up_def)
  show "c_struct KTimerEntity_fields = (40, 8)" unfolding KTimerEntity_fields_def rb by (simp add: c_struct_def align_up_def)
qed

lemma asm_offsets: "offset_of ThreadCtx_fields 0 = 0" "offset_of ThreadCtx_fields 1 = 4"
  by (simp_all add: offset_of_def ThreadCtx_fields_def align_up_def)

lemma thread_first [simp]:
  "offset_of (CfsThread_fields W) 0 = 0" "offset_of (RtThread_fields W) 0 = 0" "offset_of RtKTimer_fields 0 = 0"
  by (simp_all add: offset_of_def CfsThread_fields_def RtThread_fields_def RtKTimer_fields_def)

text \<open>CFS and real-time threads share the prefix that the wait queue and the primitives use.\<close>

lemma shared_prefix [simp]:
  "offset_of (RtThread_fields W) (Suc 0) = offset_of (CfsThread_fields W) (Suc 0)"
  "offset_of (RtThread_fields W) 2 = offset_of (CfsThread_fields W) 2"
  by (simp_all add: offset_of_def CfsThread_fields_def RtThread_fields_def Let_def numeral_2_eq_2)

lemma fields_apart:
  assumes "0 < wl_align W"
  shows "24 \<le> offset_of (CfsThread_fields W) 1"
    "offset_of (CfsThread_fields W) 1 + wl_size W \<le> offset_of (CfsThread_fields W) 2"
    "offset_of (CfsThread_fields W) 2 + 24 \<le> offset_of (CfsThread_fields W) 3"
  using align_up_ge [OF assms, of 24] align_up_ge [of 8]
  by (simp_all add: offset_of_def CfsThread_fields_def Let_def numeral_2_eq_2 numeral_3_eq_3)

section \<open>Round trips\<close>

lemma wrapping_sub_add: "t < 2 ^ 32 \<Longrightarrow> wrapping_sub_ptr (t + off) off = t"
  by (simp add: wrapping_sub_ptr_def)

lemma wrapping_sub_0: "t < 2 ^ 32 \<Longrightarrow> wrapping_sub_ptr t 0 = t"
  by (simp add: wrapping_sub_ptr_def)

lemmas ptr_defs = cfs_thread_from_handle_def rt_thread_from_handle_def cfs_sched_entity_ptr_def cfs_wait_entity_def
  rt_wait_entity_def cfs_sync_entity_def rt_sync_entity_def

lemma ptrs_eq:
  assumes "t < 2 ^ 32"
  shows "cfs_sched_entity_ptr W t = t + offset_of (CfsThread_fields W) 3"
    "cfs_wait_entity W t = t + offset_of (CfsThread_fields W) 1" "rt_wait_entity W t = t + offset_of (CfsThread_fields W) 1"
    "cfs_sync_entity W t = t + offset_of (CfsThread_fields W) 2" "rt_sync_entity W t = t + offset_of (CfsThread_fields W) 2"
  using wrapping_sub_0 [OF assms] by (simp_all add: ptr_defs)

lemma handles_back:
  assumes "t < 2 ^ 32" "t \<noteq> 0"
  shows "thread_handle_from_cfs_sched_entity W (t + offset_of (CfsThread_fields W) 3) = Some t"
    "thread_handle_from_wait_entity W (t + offset_of (CfsThread_fields W) 1) = Some t"
    "thread_handle_from_sync_entity W (t + offset_of (CfsThread_fields W) 2) = Some t"
  using assms wrapping_sub_add [OF assms(1)]
  by (simp_all add: thread_handle_from_cfs_sched_entity_def thread_handle_from_wait_entity_def
      thread_handle_from_sync_entity_def from_thread_ctx_def require_def)

section \<open>Queues of embedded entities\<close>

text \<open>Comparing entities compares the threads that contain them: all are at the same offset.\<close>

lemma key_cmp_shift: "key_cmp (\<lambda>e. key (e - off)) (a + off) (b + off) = key_cmp key a b"
  by (simp add: key_cmp_def cmp_of_def)

lemma oinsert_shift:
  "oinsert (key_cmp (\<lambda>e. key (e - off))) (t + off) (map (\<lambda>u. u + off) xs) = map (\<lambda>u. u + off) (oinsert (key_cmp key) t xs)"
  by (induction xs) (simp_all add: key_cmp_shift)

lemma remove1_shift: "remove1 (t + off) (map (\<lambda>u. u + off) xs) = map (\<lambda>u. u + off) (remove1 (t :: nat) xs)"
  by (induction xs) simp_all

text \<open>A tree of the entities at offset \<open>off\<close> of the members of \<open>xs\<close>.\<close>

definition embeds :: "RBTreeNode \<Rightarrow> nat \<Rightarrow> RBTree \<Rightarrow> addr list \<Rightarrow> bool" where
  "embeds T off tr xs \<longleftrightarrow> rb_abs T tr (map (\<lambda>t. t + off) xs)"

lemma embedded_queue:
  assumes e: "embeds (offset_entity n (key_cmp (\<lambda>e. key (e - off)))) off tr xs" and t: "t \<noteq> 0"
    and T: "T = offset_entity n (key_cmp (\<lambda>e. key (e - off)))"
  shows "t \<notin> set xs \<Longrightarrow> \<exists>tr'. rb_insert T tr (t + off) = Some tr' \<and> embeds T off tr' (oinsert (key_cmp key) t xs)"
    "t \<in> set xs \<Longrightarrow> \<exists>tr'. rb_remove T tr (t + off) = Some (tr', t + off) \<and> embeds T off tr' (remove1 t xs)"
    "first T tr = Some (if xs = [] then 0 else hd xs + off)"
proof -
  note a = e [unfolded embeds_def]
  assume "t \<notin> set xs"
  then have n: "t + off \<notin> set (map (\<lambda>t. t + off) xs)" "t + off \<noteq> 0" using t by auto
  obtain tr' where "rb_insert T tr (t + off) = Some tr'"
    "rb_abs T tr' (oinsert (key_cmp (\<lambda>e. key (e - off))) (t + off) (map (\<lambda>t. t + off) xs))"
    using rbe.insert_abs [OF a n(2,1)] unfolding T cmp_offset by blast
  then show "\<exists>tr'. rb_insert T tr (t + off) = Some tr' \<and> embeds T off tr' (oinsert (key_cmp key) t xs)"
    unfolding oinsert_shift embeds_def by blast
next
  note a = e [unfolded embeds_def]
  assume "t \<in> set xs"
  then have n: "t + off \<in> set (map (\<lambda>t. t + off) xs)" by simp
  obtain tr' where "rb_remove T tr (t + off) = Some (tr', t + off)" "rb_abs T tr' (remove1 (t + off) (map (\<lambda>t. t + off) xs))"
    using rbe.remove_abs [OF a n] unfolding T by blast
  then show "\<exists>tr'. rb_remove T tr (t + off) = Some (tr', t + off) \<and> embeds T off tr' (remove1 t xs)"
    unfolding remove1_shift embeds_def by blast
next
  note a = e [unfolded embeds_def]
  show "first T tr = Some (if xs = [] then 0 else hd xs + off)"
    using rbe.first_abs [OF a] unfolding T by (cases xs) (simp_all add: head_or_null_def)
qed

definition queue_ops :: "RBTreeNode \<Rightarrow> nat \<Rightarrow> (addr \<Rightarrow> addr \<Rightarrow> cmp_ordering) \<Rightarrow> RBTree \<Rightarrow> addr list \<Rightarrow> addr \<Rightarrow> bool" where
  "queue_ops T off c tr xs t \<longleftrightarrow>
     (t \<notin> set xs \<longrightarrow> (\<exists>tr'. rb_insert T tr (t + off) = Some tr' \<and> embeds T off tr' (oinsert c t xs)))
     \<and> (t \<in> set xs \<longrightarrow> (\<exists>tr'. rb_remove T tr (t + off) = Some (tr', t + off) \<and> embeds T off tr' (remove1 t xs)))
     \<and> first T tr = Some (if xs = [] then 0 else hd xs + off)"

lemma embedded_ops:
  assumes "embeds T off tr xs" "t \<noteq> 0" and T: "T = offset_entity n (key_cmp (\<lambda>e. key (e - off)))" "c = key_cmp key"
  shows "queue_ops T off c tr xs t"
  using embedded_queue [OF assms(1) [unfolded T(1)] assms(2) T(1)] by (simp add: queue_ops_def T(2))

lemma class_ops:
  assumes "t \<noteq> 0"
  shows "embeds (WaitEntity_node W s) (offset_of (CfsThread_fields W) 1) tr xs \<Longrightarrow>
      queue_ops (WaitEntity_node W s) (offset_of (CfsThread_fields W) 1) (wait_cmp s) tr xs t"
    "embeds (SyncEntity_node W s) (offset_of (CfsThread_fields W) 2) tr xs \<Longrightarrow>
      queue_ops (SyncEntity_node W s) (offset_of (CfsThread_fields W) 2) (sync_cmp s) tr xs t"
    "embeds (SchedEntity_node W s) (offset_of (CfsThread_fields W) 3) tr xs \<Longrightarrow>
      queue_ops (SchedEntity_node W s) (offset_of (CfsThread_fields W) 3) (sched_cmp s) tr xs t"
    "embeds (KTimerEntity_node s) 0 tr xs \<Longrightarrow> queue_ops (KTimerEntity_node s) 0 (ktimer_cmp s) tr xs t"
  by (rule embedded_ops [OF _ assms], assumption, simp add: WaitEntity_node_def Let_def, simp add: wait_cmp_def,
      rule embedded_ops [OF _ assms], assumption, simp add: SyncEntity_node_def, simp add: sync_cmp_def,
      rule embedded_ops [OF _ assms], assumption, simp add: SchedEntity_node_def, simp add: sched_cmp_def,
      rule embedded_ops [OF _ assms], assumption, simp add: KTimerEntity_node_def, simp add: ktimer_cmp_def)

end
