(* ===== verification/LayoutProps.thy ===== *)
theory LayoutProps
  imports Sample Layout
begin

text \<open>Properties of the intrusive storage.\<close>

text \<open>
  C40: the pointer arithmetic between threads and their embedded entities is a round trip: from a thread to
  its wait, sync or scheduling entity and back to the same thread, for CFS and real-time threads alike,
  and from an entity to its tree node and back. The parts of a control block do not overlap, and the two
  words that the context switch stores are at the offsets it uses.
\<close>

theorem intrusive_round_trip:
  assumes W: "0 < wl_align W" and t: "t \<noteq> 0" "t < 2 ^ 32" and k: "kind (threads s t) \<noteq> Idle"
  shows "(\<exists>e. wait_entity_ptr W t s = Some e \<and> thread_handle_from_wait_entity W e = Some t
      \<and> t + fst (c_struct ThreadCtx_fields) \<le> e \<and> entity_of (WaitEntity_node W s) (node (WaitEntity_node W s) e) = e)
    \<and> (\<exists>e. sync_entity_ptr W t s = Some e \<and> thread_handle_from_sync_entity W e = Some t
      \<and> the (wait_entity_ptr W t s) + wl_size W \<le> e \<and> entity_of (SyncEntity_node W s) (node (SyncEntity_node W s) e) = e)
    \<and> thread_handle_from_cfs_sched_entity W (cfs_sched_entity_ptr W t) = Some t
    \<and> the (sync_entity_ptr W t s) + fst (c_struct SyncEntity_fields) \<le> cfs_sched_entity_ptr W t
    \<and> entity_of (SchedEntity_node W s) (node (SchedEntity_node W s) (cfs_sched_entity_ptr W t)) = cfs_sched_entity_ptr W t
    \<and> offset_of ThreadCtx_fields 0 = 0 \<and> offset_of ThreadCtx_fields 1 = 4"
proof -
  have w: "wait_entity_ptr W t s = Some (t + offset_of (CfsThread_fields W) 1)"
    using k ptrs_eq [OF t(2), of W] by (cases "kind (threads s t)") (simp_all add: wait_entity_ptr_def)
  have y: "sync_entity_ptr W t s = Some (t + offset_of (CfsThread_fields W) 2)"
    using k ptrs_eq [OF t(2), of W] by (cases "kind (threads s t)") (simp_all add: sync_entity_ptr_def)
  have n: "entity_of (offset_entity off c) (node (offset_entity off c) e) = e" for off c e by (simp add: offset_entity_def)
  show ?thesis
    using fields_apart [OF W] handles_back [OF t(2,1), of W] asm_offsets
    by (simp add: w y ptrs_eq(1) [OF t(2)] WaitEntity_node_def SyncEntity_node_def SchedEntity_node_def n)
qed

theorem intrusive_round_trip_witness:
  "thread_handle_from_cfs_sched_entity \<lparr>wl_size = 40, wl_align = 8, wl_node = 16\<rparr>
     (cfs_sched_entity_ptr \<lparr>wl_size = 40, wl_align = 8, wl_node = 16\<rparr> 2000) = Some 2000"
proof -
  have "kind (threads sample 2000) \<noteq> Idle" by (simp add: sample_defs)
  then show ?thesis
    using intrusive_round_trip [of "\<lparr>wl_size = 40, wl_align = 8, wl_node = 16\<rparr>" 2000 sample] by simp
qed

text \<open>
  C39: the pointer-level red-black trees over embedded nodes implement the queues of threads and timers:
  inserting or removing the entity embedded in a thread inserts or removes the thread in the queue
  ordered by its key, ties by thread address, and the first entity of the tree is that of the head of the
  queue. This holds for the wait queue, the waiters of a primitive, the run queue and the timer trees.
\<close>

theorem embedded_trees_refine:
  assumes q: "(T, off, c) \<in> {(WaitEntity_node W s, offset_of (CfsThread_fields W) 1, wait_cmp s),
      (SyncEntity_node W s, offset_of (CfsThread_fields W) 2, sync_cmp s),
      (SchedEntity_node W s, offset_of (CfsThread_fields W) 3, sched_cmp s), (KTimerEntity_node s, 0, ktimer_cmp s)}"
    and e: "embeds T off tr xs" and t: "t \<noteq> 0"
  shows "(t \<notin> set xs \<longrightarrow> (\<exists>tr'. rb_insert T tr (t + off) = Some tr' \<and> embeds T off tr' (oinsert c t xs)))
    \<and> (t \<in> set xs \<longrightarrow> (\<exists>tr'. rb_remove T tr (t + off) = Some (tr', t + off) \<and> embeds T off tr' (remove1 t xs)))
    \<and> first T tr = Some (if xs = [] then 0 else hd xs + off)"
proof -
  have "queue_ops T off c tr xs t"
    using q e
    by (elim insertE emptyE Pair_inject) (simp_all only: class_ops [OF t])
  then show ?thesis unfolding queue_ops_def .
qed

theorem embedded_trees_refine_witness:
  "\<exists>tr'. rb_insert (SchedEntity_node \<lparr>wl_size = 40, wl_align = 8, wl_node = 16\<rparr> sample) (RBTree_new (\<lambda>_. RbNode_new)) (2100 + 88) = Some tr'
     \<and> embeds (SchedEntity_node \<lparr>wl_size = 40, wl_align = 8, wl_node = 16\<rparr> sample) 88 tr' [2100]"
proof -
  let ?W = "\<lparr>wl_size = 40, wl_align = 8, wl_node = 16\<rparr>"
  have e: "embeds (SchedEntity_node ?W sample) 88 (RBTree_new (\<lambda>_. RbNode_new)) []" by (simp add: embeds_def empty_abs)
  have off: "offset_of (CfsThread_fields ?W) 3 = 88"
    by (simp add: offset_of_def CfsThread_fields_def align_up_def)
  have "(SchedEntity_node ?W sample, 88, sched_cmp sample) \<in>
      {(WaitEntity_node ?W sample, offset_of (CfsThread_fields ?W) 1, wait_cmp sample),
       (SyncEntity_node ?W sample, offset_of (CfsThread_fields ?W) 2, sync_cmp sample),
       (SchedEntity_node ?W sample, offset_of (CfsThread_fields ?W) 3, sched_cmp sample),
       (KTimerEntity_node sample, 0, ktimer_cmp sample)}"
    unfolding off by blast
  from embedded_trees_refine [OF this e, of 2100] show ?thesis by simp
qed

end
