(* ===== verification/CritSec.thy ===== *)
theory CritSec
  imports Prelude
begin

text \<open>
  The critical sections of the host builds (\<^verbatim>\<open>src/arch/host/platform.rs\<close> in unit tests,
  \<^verbatim>\<open>src/test_support.rs\<close> otherwise). Operating-system threads enter a section through a process-wide lock
  and may enter again while they are inside; a thread-local depth tells the outermost entry from a nested
  one. Each call is cut at the points where another thread can run: it is entered, gets the lock, gives
  the depth and the lock back, and returns. Both versions implement a reentrant lock, so that the code in
  a section runs alone, and no nested entry waits for the lock its own thread holds.
\<close>

section \<open>Calls in progress\<close>

text \<open>
  A call that is under way: whether it is a nested one, and whether it waits for the lock, runs its
  closure, or has run it and still has a guard to drop.
\<close>

datatype phase = AtLock | Inside | Leaving

type_synonym frame = "bool \<times> phase"

record cs_state =
  cs_depth :: "nat \<Rightarrow> u64"
  cs_lock :: "nat option"
  cs_frames :: "nat \<Rightarrow> frame list"

definition cs_init :: cs_state where
  "cs_init = \<lparr>cs_depth = (\<lambda>_. 0), cs_lock = None, cs_frames = (\<lambda>_. [])\<rparr>"

definition set_depth :: "nat \<Rightarrow> u64 \<Rightarrow> cs_state \<Rightarrow> cs_state" where
  "set_depth t d S = S\<lparr>cs_depth := (cs_depth S)(t := d)\<rparr>"

definition set_frames :: "nat \<Rightarrow> frame list \<Rightarrow> cs_state \<Rightarrow> cs_state" where
  "set_frames t fs S = S\<lparr>cs_frames := (cs_frames S)(t := fs)\<rparr>"

lemma cs_simps [simp]:
  "cs_depth (set_depth t d S) = (cs_depth S)(t := d)" "cs_lock (set_depth t d S) = cs_lock S"
  "cs_frames (set_depth t d S) = cs_frames S" "cs_frames (set_frames t fs S) = (cs_frames S)(t := fs)"
  "cs_lock (set_frames t fs S) = cs_lock S" "cs_depth (set_frames t fs S) = cs_depth S"
  by (simp_all add: set_depth_def set_frames_def)

text \<open>The steps of a call. A thread calls a section when it is in none or runs the closure of one.\<close>

datatype cs_action = Enter | Acquire | Release | Leave

definition cs_enabled :: "nat \<Rightarrow> cs_action \<Rightarrow> cs_state \<Rightarrow> bool" where
  "cs_enabled t a S \<longleftrightarrow>
     (case cs_frames S t of
        [] \<Rightarrow> a = Enter
      | (nested, p) # fs \<Rightarrow>
          (case a of
             Enter \<Rightarrow> p = Inside \<and> Suc (length fs) < 2 ^ 64 - 1
           | Acquire \<Rightarrow> p = AtLock \<and> cs_lock S = None
           | Release \<Rightarrow> p = Inside \<and> \<not> nested
           | Leave \<Rightarrow> (if nested then p = Inside else p = Leaving)))"

section \<open>The two versions\<close>

text \<open>
  The host platform counts the entry first and then takes the lock; it releases the lock first (the guard
  of the inner block) and then counts down.
\<close>

definition host_enter :: "nat \<Rightarrow> cs_state \<Rightarrow> cs_state option" where
  "host_enter t S = do {
     let nested = 0 < cs_depth S t;
     d \<leftarrow> checked_add (cs_depth S t) 1;
     Some (set_frames t ((nested, if nested then Inside else AtLock) # cs_frames S t) (set_depth t d S))
   }"

definition host_acquire :: "nat \<Rightarrow> cs_state \<Rightarrow> cs_state option" where
  "host_acquire t S = do {
     require (cs_lock S = None);
     Some (set_frames t ((False, Inside) # tl (cs_frames S t)) (S\<lparr>cs_lock := Some t\<rparr>))
   }"

definition host_release :: "nat \<Rightarrow> cs_state \<Rightarrow> cs_state option" where
  "host_release t S = Some (set_frames t ((False, Leaving) # tl (cs_frames S t)) (S\<lparr>cs_lock := None\<rparr>))"

definition HostCriticalSectionDepth_drop :: "nat \<Rightarrow> cs_state \<Rightarrow> cs_state option" where
  "HostCriticalSectionDepth_drop t S =
     Some (set_frames t (tl (cs_frames S t)) (set_depth t (saturating_sub (cs_depth S t) 1) S))"

definition host_critical_section :: "nat \<Rightarrow> cs_action \<Rightarrow> cs_state \<Rightarrow> cs_state option" where
  "host_critical_section t a S =
     (case a of
        Enter \<Rightarrow> host_enter t S
      | Acquire \<Rightarrow> host_acquire t S
      | Release \<Rightarrow> host_release t S
      | Leave \<Rightarrow> HostCriticalSectionDepth_drop t S)"

text \<open>
  The other version takes the lock first and then sets the depth; the guard of the depth is dropped before
  that of the lock.
\<close>

definition test_enter :: "nat \<Rightarrow> cs_state \<Rightarrow> cs_state option" where
  "test_enter t S =
     (if 0 < cs_depth S t then do {
        d \<leftarrow> checked_add (cs_depth S t) 1;
        Some (set_frames t ((True, Inside) # cs_frames S t) (set_depth t d S))
      } else Some (set_frames t ((False, AtLock) # cs_frames S t) S))"

definition test_acquire :: "nat \<Rightarrow> cs_state \<Rightarrow> cs_state option" where
  "test_acquire t S = do {
     require (cs_lock S = None);
     Some (set_frames t ((False, Inside) # tl (cs_frames S t)) (set_depth t 1 (S\<lparr>cs_lock := Some t\<rparr>)))
   }"

definition DepthGuard_drop :: "nat \<Rightarrow> cs_state \<Rightarrow> cs_state option" where
  "DepthGuard_drop t S = do {
     d \<leftarrow> checked_sub (cs_depth S t) 1;
     Some (set_depth t d S)
   }"

definition test_critical_section :: "nat \<Rightarrow> cs_action \<Rightarrow> cs_state \<Rightarrow> cs_state option" where
  "test_critical_section t a S =
     (case a of
        Enter \<Rightarrow> test_enter t S
      | Acquire \<Rightarrow> test_acquire t S
      | Release \<Rightarrow> do {
          S \<leftarrow> DepthGuard_drop t S;
          Some (set_frames t ((False, Leaving) # tl (cs_frames S t)) S)
        }
      | Leave \<Rightarrow>
          if fst (hd (cs_frames S t)) then do {
            S \<leftarrow> DepthGuard_drop t S;
            Some (set_frames t (tl (cs_frames S t)) S)
          } else Some (set_frames t (tl (cs_frames S t)) (S\<lparr>cs_lock := None\<rparr>)))"

section \<open>The contract\<close>

text \<open>The abstract reentrant lock: who holds it, and how often it has entered.\<close>

definition cs_held :: "cs_state \<Rightarrow> (nat \<times> nat) option" where
  "cs_held S = map_option (\<lambda>t. (t, length (cs_frames S t))) (cs_lock S)"

inductive lock_step :: "nat \<Rightarrow> (nat \<times> nat) option \<Rightarrow> (nat \<times> nat) option \<Rightarrow> bool" for t where
  stutter: "lock_step t a a"
| lock_acquire: "lock_step t None (Some (t, 1))"
| lock_again: "0 < n \<Longrightarrow> lock_step t (Some (t, n)) (Some (t, Suc n))"
| unlock_nested: "0 < n \<Longrightarrow> lock_step t (Some (t, Suc n)) (Some (t, n))"
| lock_release: "lock_step t (Some (t, 1)) None"

definition inside :: "cs_state \<Rightarrow> nat \<Rightarrow> bool" where
  "inside S t \<longleftrightarrow> cs_frames S t \<noteq> [] \<and> snd (hd (cs_frames S t)) = Inside"

inductive cs_run :: "(nat \<Rightarrow> cs_action \<Rightarrow> cs_state \<Rightarrow> cs_state option) \<Rightarrow> cs_state \<Rightarrow> bool" for step where
  cs_start: "cs_run step cs_init"
| cs_step: "cs_run step S \<Longrightarrow> cs_enabled t a S \<Longrightarrow> step t a S = Some S' \<Longrightarrow> cs_run step S'"

locale reentrant_section =
  fixes step :: "nat \<Rightarrow> cs_action \<Rightarrow> cs_state \<Rightarrow> cs_state option" and ok :: "cs_state \<Rightarrow> bool"
  assumes ok_init: "ok cs_init"
    and step_ok: "ok S \<Longrightarrow> cs_enabled t a S \<Longrightarrow>
      \<exists>S'. step t a S = Some S' \<and> ok S' \<and> lock_step t (cs_held S) (cs_held S')
        \<and> (a = Enter \<and> inside S t \<longrightarrow> inside S' t)"
    and ok_inside: "ok S \<Longrightarrow> inside S t \<Longrightarrow> cs_lock S = Some t"
begin

lemma run_ok: "cs_run step S \<Longrightarrow> ok S"
  by (induction rule: cs_run.induct) (use ok_init step_ok in fastforce)+

lemma exclusive: "cs_run step S \<Longrightarrow> inside S t \<Longrightarrow> inside S u \<Longrightarrow> t = u"
  by (drule run_ok) (use ok_inside [of S t] ok_inside [of S u] in simp)

lemma section_step:
  "cs_run step S \<Longrightarrow> cs_enabled t a S \<Longrightarrow>
    \<exists>S'. step t a S = Some S' \<and> cs_run step S' \<and> lock_step t (cs_held S) (cs_held S')
      \<and> (a = Enter \<and> inside S t \<longrightarrow> inside S' t)"
  using step_ok [OF run_ok] cs_step by metis

end

section \<open>Both versions meet the contract\<close>

text \<open>All calls of a thread but the outermost are nested, and they run inside it.\<close>

fun well_nested :: "frame list \<Rightarrow> bool" where
  "well_nested [] \<longleftrightarrow> True"
| "well_nested [(nested, p)] \<longleftrightarrow> \<not> nested"
| "well_nested ((nested, p) # f # fs) \<longleftrightarrow> nested \<and> p = Inside \<and> snd f = Inside \<and> well_nested (f # fs)"

definition host_ok :: "cs_state \<Rightarrow> bool" where
  "host_ok S \<longleftrightarrow>
     (\<forall>t. well_nested (cs_frames S t) \<and> unat (cs_depth S t) = length (cs_frames S t)
        \<and> (cs_lock S = Some t \<longleftrightarrow> inside S t))"

definition test_ok :: "cs_state \<Rightarrow> bool" where
  "test_ok S \<longleftrightarrow>
     (\<forall>t. well_nested (cs_frames S t)
        \<and> unat (cs_depth S t) = (if inside S t then length (cs_frames S t) else 0)
        \<and> (cs_lock S = Some t \<longleftrightarrow> cs_frames S t \<noteq> [] \<and> snd (hd (cs_frames S t)) \<noteq> AtLock))"

lemma depth_up: "unat (d :: u64) = n \<Longrightarrow> n < 2 ^ 64 - 1 \<Longrightarrow> checked_add d 1 = Some (d + 1) \<and> unat (d + 1) = Suc n"
  using checked_add_ok [of d 1] by simp

lemma depth_down:
  assumes "unat (d :: u64) = Suc n"
  shows "checked_sub d 1 = Some (d - 1)" "saturating_sub d 1 = d - 1" "unat (d - 1) = n"
proof -
  have le: "1 \<le> d" using assms by (simp add: word_le_nat_alt)
  then show "checked_sub d 1 = Some (d - 1)" "saturating_sub d 1 = d - 1"
    by (simp_all add: checked_sub_def saturating_sub_def)
  show "unat (d - 1) = n" using assms le by (simp add: unat_sub)
qed

lemma outermost_single: "well_nested ((False, p) # fs) \<Longrightarrow> fs = []"
  by (cases fs) auto

lemma well_nested_push: "well_nested fs \<Longrightarrow> fs \<noteq> [] \<Longrightarrow> snd (hd fs) = Inside \<Longrightarrow> well_nested ((True, Inside) # fs)"
  by (cases fs) auto

lemma well_nested_pop:
  "well_nested ((True, p) # fs) \<Longrightarrow> well_nested fs \<and> fs \<noteq> [] \<and> snd (hd fs) = Inside"
  by (cases fs) auto

lemma held_Some: "cs_lock S = Some t \<Longrightarrow> cs_held S = Some (t, length (cs_frames S t))"
  by (simp add: cs_held_def)

lemma held_None: "cs_lock S = None \<Longrightarrow> cs_held S = None"
  by (simp add: cs_held_def)

lemma held_other: "cs_lock S \<noteq> Some t \<Longrightarrow> cs_held (set_frames t fs S) = cs_held S"
  by (cases "cs_lock S") (auto simp: cs_held_def)

lemma held_set_depth [simp]: "cs_held (set_depth t d S) = cs_held S"
  by (simp add: cs_held_def)

lemma inside_simps [simp]:
  "inside (set_depth t d S) u = inside S u" "inside (S\<lparr>cs_lock := l\<rparr>) u = inside S u"
  "inside (set_frames t fs S) u = (if u = t then fs \<noteq> [] \<and> snd (hd fs) = Inside else inside S u)"
  by (simp_all add: inside_def)

text \<open>The six ways a call goes on.\<close>

lemma enabled_cases:
  assumes e: "cs_enabled t a S" and w: "well_nested (cs_frames S t)"
  obtains (first) "a = Enter" "cs_frames S t = []"
  | (again) "a = Enter" "cs_frames S t \<noteq> []" "inside S t" "length (cs_frames S t) < 2 ^ 64 - 1"
      "well_nested ((True, Inside) # cs_frames S t)"
  | (acquire) "a = Acquire" "cs_frames S t = [(False, AtLock)]" "cs_lock S = None"
  | (release) "a = Release" "cs_frames S t = [(False, Inside)]"
  | (back_out) fs where "a = Leave" "cs_frames S t = (True, Inside) # fs" "fs \<noteq> []" "snd (hd fs) = Inside" "well_nested fs"
  | (leave) "a = Leave" "cs_frames S t = [(False, Leaving)]"
proof (cases "cs_frames S t")
  case Nil
  then show thesis using e first by (simp add: cs_enabled_def)
next
  case (Cons f fs)
  obtain nested p where f: "f = (nested, p)" by (cases f)
  have "\<not> nested \<Longrightarrow> fs = []" "nested \<Longrightarrow> fs \<noteq> [] \<and> snd (hd fs) = Inside \<and> well_nested fs \<and> p = Inside"
    using w Cons f by (cases fs; auto)+
  then show thesis using e that Cons f w by (cases a; cases nested) (auto simp: cs_enabled_def inside_def split: if_splits)
qed

text \<open>A step of \<open>t\<close> leaves the other threads as they are.\<close>

lemma host_ok_upd:
  assumes "host_ok S" "well_nested fs" "unat d = length fs" "l = Some t \<longleftrightarrow> fs \<noteq> [] \<and> snd (hd fs) = Inside"
    "\<And>u. u \<noteq> t \<Longrightarrow> l = Some u \<longleftrightarrow> cs_lock S = Some u"
  shows "host_ok (set_frames t fs (set_depth t d (S\<lparr>cs_lock := l\<rparr>)))"
  using assms by (auto simp: host_ok_def)

lemma test_ok_upd:
  assumes "test_ok S" "well_nested fs" "unat d = (if fs \<noteq> [] \<and> snd (hd fs) = Inside then length fs else 0)"
    "l = Some t \<longleftrightarrow> fs \<noteq> [] \<and> snd (hd fs) \<noteq> AtLock" "\<And>u. u \<noteq> t \<Longrightarrow> l = Some u \<longleftrightarrow> cs_lock S = Some u"
  shows "test_ok (set_frames t fs (set_depth t d (S\<lparr>cs_lock := l\<rparr>)))"
  using assms by (auto simp: test_ok_def)

lemma ok_keep:
  "host_ok S \<Longrightarrow> well_nested fs \<Longrightarrow> unat d = length fs \<Longrightarrow> cs_lock S = Some t \<longleftrightarrow> fs \<noteq> [] \<and> snd (hd fs) = Inside \<Longrightarrow>
    host_ok (set_frames t fs (set_depth t d S))"
  "test_ok S \<Longrightarrow> well_nested fs \<Longrightarrow> unat d = (if fs \<noteq> [] \<and> snd (hd fs) = Inside then length fs else 0) \<Longrightarrow>
    cs_lock S = Some t \<longleftrightarrow> fs \<noteq> [] \<and> snd (hd fs) \<noteq> AtLock \<Longrightarrow> test_ok (set_frames t fs (set_depth t d S))"
  using host_ok_upd [of S fs d "cs_lock S" t] test_ok_upd [of S fs d "cs_lock S" t] by simp_all

lemmas cs_defs = host_critical_section_def host_enter_def host_acquire_def host_release_def HostCriticalSectionDepth_drop_def
  test_critical_section_def test_enter_def test_acquire_def DepthGuard_drop_def require_def

lemma set_same [simp]: "cs_depth S' = cs_depth S \<Longrightarrow> set_depth t (cs_depth S t) S' = S'"
  by (simp add: set_depth_def)

lemma host_step_ok:
  assumes S: "host_ok S" and e: "cs_enabled t a S"
  shows "\<exists>S'. host_critical_section t a S = Some S' \<and> host_ok S' \<and> lock_step t (cs_held S) (cs_held S')
    \<and> (a = Enter \<and> inside S t \<longrightarrow> inside S' t)"
proof -
  have w: "well_nested (cs_frames S t)" and d: "unat (cs_depth S t) = length (cs_frames S t)" and l: "cs_lock S = Some t \<longleftrightarrow> inside S t"
    using S by (simp_all add: host_ok_def)
  note U = host_ok_upd [OF S, where t = t] and K = ok_keep(1) [OF S, where t = t]
  from e w show ?thesis
  proof (cases rule: enabled_cases)
    case first
    then have "cs_depth S t = 0" "cs_lock S \<noteq> Some t" using d l by (simp_all add: unsigned_eq_0_iff inside_def)
    then show ?thesis
      using K [of "[(False, AtLock)]" 1] first by (simp add: cs_defs checked_add_def held_other stutter inside_def)
  next
    case again
    then have "cs_lock S = Some t" "0 < cs_depth S t" using d l by (auto simp: word_gt_0)
    then show ?thesis
      using K [of "(True, Inside) # cs_frames S t" "cs_depth S t + 1"] again depth_up [OF d]
        lock_again [of "length (cs_frames S t)" t]
      by (simp add: cs_defs held_Some)
  next
    case acquire
    then show ?thesis
      using U [of "[(False, Inside)]" "cs_depth S t" "Some t"] d lock_acquire [of t] by (simp add: cs_defs held_Some held_None)
  next
    case release
    then have "cs_lock S = Some t" using l by (simp add: inside_def)
    then show ?thesis
      using U [of "[(False, Leaving)]" "cs_depth S t" None] release d lock_release [of t] by (simp add: cs_defs held_Some held_None)
  next
    case (back_out fs)
    then have "cs_lock S = Some t" using l by (simp add: inside_def)
    then show ?thesis
      using K [of fs "cs_depth S t - 1"] back_out depth_down [of "cs_depth S t" "length fs"] d
        unlock_nested [of "length fs" t]
      by (simp add: cs_defs held_Some)
  next
    case leave
    then have "cs_lock S \<noteq> Some t" using l by (simp add: inside_def)
    then show ?thesis
      using K [of "[]" "cs_depth S t - 1"] leave depth_down [of "cs_depth S t" 0] d
      by (simp add: cs_defs held_other stutter)
  qed
qed

lemma test_step_ok:
  assumes S: "test_ok S" and e: "cs_enabled t a S"
  shows "\<exists>S'. test_critical_section t a S = Some S' \<and> test_ok S' \<and> lock_step t (cs_held S) (cs_held S')
    \<and> (a = Enter \<and> inside S t \<longrightarrow> inside S' t)"
proof -
  have w: "well_nested (cs_frames S t)" and d: "unat (cs_depth S t) = (if inside S t then length (cs_frames S t) else 0)"
    and l: "cs_lock S = Some t \<longleftrightarrow> cs_frames S t \<noteq> [] \<and> snd (hd (cs_frames S t)) \<noteq> AtLock"
    using S by (simp_all add: test_ok_def)
  note U = test_ok_upd [OF S, where t = t] and K = ok_keep(2) [OF S, where t = t]
  from e w show ?thesis
  proof (cases rule: enabled_cases)
    case first
    then have z: "cs_depth S t = 0" "cs_lock S \<noteq> Some t" using d l by (simp_all add: unsigned_eq_0_iff inside_def)
    then have "set_depth t 0 S = S" using set_same [of S S t] by simp
    with z show ?thesis
      using K [of "[(False, AtLock)]" "cs_depth S t"] first by (simp add: cs_defs held_other stutter inside_def)
  next
    case again
    then have "cs_lock S = Some t" "0 < cs_depth S t" using d l by (auto simp: word_gt_0 inside_def)
    then show ?thesis
      using K [of "(True, Inside) # cs_frames S t" "cs_depth S t + 1"] again depth_up [of "cs_depth S t"] d
        lock_again [of "length (cs_frames S t)" t]
      by (simp add: cs_defs held_Some)
  next
    case acquire
    then show ?thesis
      using U [of "[(False, Inside)]" 1 "Some t"] lock_acquire [of t] by (simp add: cs_defs held_Some held_None)
  next
    case release
    then have "cs_lock S = Some t" "inside S t" using l by (simp_all add: inside_def)
    then show ?thesis
      using K [of "[(False, Leaving)]" "cs_depth S t - 1"] release d depth_down [of "cs_depth S t" 0] stutter [of t "Some (t, 1)"]
      by (simp add: cs_defs held_Some)
  next
    case (back_out fs)
    then have "cs_lock S = Some t" "inside S t" using l by (simp_all add: inside_def)
    then show ?thesis
      using K [of fs "cs_depth S t - 1"] back_out depth_down [of "cs_depth S t" "length fs"] d
        unlock_nested [of "length fs" t]
      by (auto simp: cs_defs held_Some)
  next
    case leave
    then have "cs_lock S = Some t" "\<not> inside S t" using l by (simp_all add: inside_def)
    then show ?thesis
      using U [of "[]" "cs_depth S t" None] leave d lock_release [of t] by (simp add: cs_defs held_Some held_None)
  qed
qed

interpretation host_section: reentrant_section host_critical_section host_ok
  by unfold_locales (rule host_step_ok; assumption | simp add: host_ok_def cs_init_def inside_def)+

interpretation test_section: reentrant_section test_critical_section test_ok
  by unfold_locales (rule test_step_ok; assumption | simp add: test_ok_def cs_init_def inside_def)+

end
