(* ===== verification/HostPort.thy ===== *)
theory HostPort
  imports CritSec SyncApi Timing
begin

text \<open>
  The rest of the host platform (\<^verbatim>\<open>src/arch/host/platform.rs\<close>): it has no scheduler timer, no cycle counter
  and no context switch, and no context in which a thread may block. Its functions give the values the
  model of the scheduler has for a missing timer. The properties of the host's critical sections are
  here too.
\<close>

section \<open>The ports\<close>

definition host_RELOAD_MIN :: u32 where
  "host_RELOAD_MIN = 1"

definition host_RELOAD_MAX :: u32 where
  "host_RELOAD_MAX = push_bit 24 1 - 1"

definition host_reload :: "u32 option" where
  "host_reload = None"

definition host_current :: "u32 option" where
  "host_current = None"

definition host_program_reload :: "u32 \<Rightarrow> kstate \<Rightarrow> bool \<times> kstate" where
  "host_program_reload reload s = (False, s)"

definition host_request_context_switch :: "kstate \<Rightarrow> kstate" where
  "host_request_context_switch s = s"

definition host_spawn_main_thread :: "addr \<Rightarrow> kstate \<Rightarrow> kstate option" where
  "host_spawn_main_thread thread s = None"

definition host_init_dwt_cycle_counter :: bool where
  "host_init_dwt_cycle_counter = False"

definition host_cycle_count :: u32 where
  "host_cycle_count = 0"

definition host_elapse_cycles :: u32 where
  "host_elapse_cycles = 0"

definition host_elapse_msec :: u32 where
  "host_elapse_msec = 0"

definition host_elapse_msec_since :: "u32 \<Rightarrow> u32" where
  "host_elapse_msec_since start = 0"

definition host_blocking_context_available :: bool where
  "host_blocking_context_available = False"

text \<open>The model of the scheduler on the host, and on the Cortex-M timer: both ports have the same range of reloads.\<close>

lemma host_timer:
  assumes "timer_reload s = host_reload" "timer_current s = host_current"
  shows "elapsed_ticks_since_current_reload s = 0" "program_scheduler_timer_reload r s = snd (host_program_reload r s)"
    "elapsed_ticks_since_last_interrupt s = (case next_ktimer_reload s of Some r \<Rightarrow> saturating_add r 1 | None \<Rightarrow> 0)"
  using assms
  by (simp_all add: elapsed_ticks_since_current_reload_def program_scheduler_timer_reload_def host_program_reload_def
      elapsed_ticks_since_last_interrupt_def host_reload_def host_current_def)

lemma same_reload_range: "host_RELOAD_MIN = SCHEDULER_TIMER_RELOAD_MIN" "host_RELOAD_MAX = SCHEDULER_TIMER_RELOAD_MAX"
  by (simp_all add: host_RELOAD_MIN_def host_RELOAD_MAX_def SCHEDULER_TIMER_RELOAD_MIN_def SCHEDULER_TIMER_RELOAD_MAX_def push_bit_eq_mult)

text \<open>
  Blocking calls never block on the host: \<open>send\<close> and \<open>receive\<close> do what the nonblocking calls do, and
  where those report a full or an empty queue they report that the thread cannot block, and change
  nothing, whatever \<open>resume\<close> would do.
\<close>

theorem host_calls_return:
  "mq_send host_blocking_context_available resume m q s =
     (if mq_is_full q then Some (Inl (if CURRENT_THREAD_CTX s = 0 then MqNoCurrentThread else MqInvalidContext), q, s)
      else try_send m q s)
   \<and> mq_receive host_blocking_context_available resume q s =
     (if mq_is_empty q then Some (Inl (if CURRENT_THREAD_CTX s = 0 then MqNoCurrentThread else MqInvalidContext), q, s)
      else try_receive q s)"
proof -
  have send: "r = Inr ()" if "try_send m q s = Some (r, q', s')" "\<not> mq_is_full q" for r q' s'
    using that by (auto simp: try_send_def mq_is_full_def Let_def split: bind_splits if_splits)
  have receive: "\<exists>v. r = Inr v" if "try_receive q s = Some (r, q', s')" "\<not> mq_is_empty q" for r q' s'
    using that by (auto simp: try_receive_def mq_is_empty_def Let_def split: bind_splits if_splits)
  have "mq_send False resume m q s = try_send m q s" if "\<not> mq_is_full q"
    using send [OF _ that] by (cases "try_send m q s") (auto simp: mq_send_def send_with_wait.simps [of resume m False q s] send_round_def)
  moreover have "mq_receive False resume q s = try_receive q s" if "\<not> mq_is_empty q"
    using receive [OF _ that]
    by (cases "try_receive q s") (fastforce simp: mq_receive_def receive_with_wait.simps [of resume False q s] receive_round_def)+
  ultimately show ?thesis
    by (auto simp: host_blocking_context_available_def mq_send_def mq_receive_def send_with_wait.simps [of resume m False q s]
        receive_with_wait.simps [of resume False q s] send_round_def receive_round_def try_send_def try_receive_def mq_is_full_def
        mq_is_empty_def mq_block_def current_thread_handle_def get_thread_def)
qed

section \<open>Critical sections\<close>

text \<open>
  C38: the critical sections of the host builds exclude each other and can be nested: in every state the
  threads of the process can reach, at most one thread runs the closure of a section; every step of a call
  completes, without overflow or underflow of the depth, and is a step of a reentrant lock; and a thread
  inside a section that enters another one is inside at once, it does not wait for the lock it holds.
\<close>

theorem critical_sections_exclusive:
  assumes "step = host_critical_section \<or> step = test_critical_section" "cs_run step S"
  shows "(inside S t \<and> inside S u \<longrightarrow> t = u)
    \<and> (cs_enabled t a S \<longrightarrow> (\<exists>S'. step t a S = Some S' \<and> cs_run step S' \<and> lock_step t (cs_held S) (cs_held S')
        \<and> (a = Enter \<and> inside S t \<longrightarrow> inside S' t)))"
  using assms host_section.exclusive host_section.section_step test_section.exclusive test_section.section_step by metis

theorem critical_sections_exclusive_witness:
  "\<exists>S S'. cs_run host_critical_section S \<and> inside S 1 \<and> \<not> inside S 2 \<and> host_critical_section 1 Enter S = Some S' \<and> inside S' 1"
proof -
  let ?S1 = "set_frames 1 [(False, AtLock)] (set_depth 1 1 cs_init)"
  let ?S2 = "set_frames 1 [(False, Inside)] (?S1\<lparr>cs_lock := Some 1\<rparr>)"
  have "cs_run host_critical_section ?S1"
    by (rule cs_step [OF cs_start, where t = 1 and a = Enter]) (simp_all add: cs_enabled_def cs_init_def cs_defs checked_add_def)
  then have run: "cs_run host_critical_section ?S2"
    by (rule cs_step [where t = 1 and a = Acquire]) (simp_all add: cs_enabled_def cs_init_def cs_defs)
  have "inside ?S2 1" "cs_enabled 1 Enter ?S2" by (simp_all add: cs_enabled_def)
  then show ?thesis
    using critical_sections_exclusive [OF disjI1 [OF refl] run, of 1 2 Enter] run by (auto 4 3)
qed

end
