(* ===== verification/Ports.thy ===== *)
theory Ports
  imports HostPort
begin

text \<open>
  The platform interface (\<^verbatim>\<open>src/arch/platform.rs\<close>): the traits a port implements, as records of their
  constants and functions, the two ports of the repository, and the functions through which the scheduler
  reaches the selected port. The model of the scheduler has one definition per service for both ports
  (a missing timer register is the host's \<open>None\<close>); here it is tied to the ports.
\<close>

section \<open>The traits\<close>

record ThreadStackPort =
  STACK_ALIGNMENT :: nat
  INITIAL_FRAME_WORDS :: nat
  port_init_thread_stack :: "addr \<Rightarrow> addr \<Rightarrow> addr \<Rightarrow> mem \<Rightarrow> InitialThreadContext \<times> mem"

record SchedulerTimerPort =
  RELOAD_BITS :: nat
  RELOAD_MIN :: u32
  RELOAD_MAX :: u32
  port_reload :: "kstate \<Rightarrow> u32 option"
  port_current :: "kstate \<Rightarrow> u32 option"
  port_program_reload :: "u32 \<Rightarrow> kstate \<Rightarrow> bool \<times> kstate"

text \<open>The registers of the Cortex-M timer always have a value; the host has none.\<close>

definition cm_reload :: "kstate \<Rightarrow> u32 option" where
  "cm_reload s = Some (case timer_reload s of Some r \<Rightarrow> r | None \<Rightarrow> 0)"

definition cm_current :: "kstate \<Rightarrow> u32 option" where
  "cm_current s = Some (case timer_current s of Some c \<Rightarrow> c | None \<Rightarrow> 0)"

definition cm_program_reload :: "u32 \<Rightarrow> kstate \<Rightarrow> bool \<times> kstate" where
  "cm_program_reload reload s = (True, s\<lparr>timer_reload := Some reload, timer_current := Some 0\<rparr>)"

section \<open>The two ports\<close>

definition CortexM_stack :: ThreadStackPort where
  "CortexM_stack =
     \<lparr>STACK_ALIGNMENT = THREAD_STACK_ALIGNMENT, INITIAL_FRAME_WORDS = THREAD_INITIAL_FRAME_WORDS,
      port_init_thread_stack = init_cortex_m_thread_stack\<rparr>"

definition Host_stack :: ThreadStackPort where
  "Host_stack = \<lparr>STACK_ALIGNMENT = 8, INITIAL_FRAME_WORDS = 16, port_init_thread_stack = init_host_thread_stack\<rparr>"

definition CortexM_timer :: SchedulerTimerPort where
  "CortexM_timer =
     \<lparr>RELOAD_BITS = 24, RELOAD_MIN = SCHEDULER_TIMER_RELOAD_MIN, RELOAD_MAX = SCHEDULER_TIMER_RELOAD_MAX,
      port_reload = cm_reload, port_current = cm_current, port_program_reload = cm_program_reload\<rparr>"

definition Host_timer :: SchedulerTimerPort where
  "Host_timer =
     \<lparr>RELOAD_BITS = 24, RELOAD_MIN = host_RELOAD_MIN, RELOAD_MAX = host_RELOAD_MAX,
      port_reload = (\<lambda>_. host_reload), port_current = (\<lambda>_. host_current), port_program_reload = host_program_reload\<rparr>"

section \<open>Dispatch to the selected port\<close>

definition init_thread_stack :: "ThreadStackPort \<Rightarrow> addr \<Rightarrow> addr \<Rightarrow> addr \<Rightarrow> mem \<Rightarrow> InitialThreadContext \<times> mem" where
  "init_thread_stack p stk entry arg m = port_init_thread_stack p stk entry arg m"

definition scheduler_timer_reload :: "SchedulerTimerPort \<Rightarrow> kstate \<Rightarrow> u32 option" where
  "scheduler_timer_reload p s = port_reload p s"

definition scheduler_timer_current :: "SchedulerTimerPort \<Rightarrow> kstate \<Rightarrow> u32 option" where
  "scheduler_timer_current p s = port_current p s"

definition program_scheduler_timer :: "SchedulerTimerPort \<Rightarrow> u32 \<Rightarrow> kstate \<Rightarrow> bool \<times> kstate" where
  "program_scheduler_timer p reload s = port_program_reload p reload s"

section \<open>What the scheduler relies on\<close>

text \<open>The state of the model belongs to a port when its timer registers are those of the port.\<close>

definition runs_on :: "SchedulerTimerPort \<Rightarrow> kstate \<Rightarrow> bool" where
  "runs_on p s \<longleftrightarrow> timer_reload s = scheduler_timer_reload p s \<and> timer_current s = scheduler_timer_current p s"

locale timer_port =
  fixes p :: SchedulerTimerPort
  assumes program: "runs_on p s \<Longrightarrow> snd (program_scheduler_timer p r s) = program_scheduler_timer_reload r s"
    and runs_on_program: "runs_on p s \<Longrightarrow> runs_on p (program_scheduler_timer_reload r s)"
    and reload_range: "RELOAD_MIN p = SCHEDULER_TIMER_RELOAD_MIN" "RELOAD_MAX p = SCHEDULER_TIMER_RELOAD_MAX"
    and reload_width: "RELOAD_MAX p = 2 ^ RELOAD_BITS p - 1"
begin

lemma current_reload_eq:
  "runs_on p s \<Longrightarrow> elapsed_ticks_since_current_reload s =
    (case (scheduler_timer_reload p s, scheduler_timer_current p s) of (Some r, Some c) \<Rightarrow> saturating_sub r c | _ \<Rightarrow> 0)"
  by (simp add: elapsed_ticks_since_current_reload_def runs_on_def split: option.splits)

lemma port_program_next:
  assumes "runs_on p s"
  shows "program_next_scheduler_timer s =
    (case next_ktimer_reload s of
       None \<Rightarrow> Some (None, s)
     | Some r \<Rightarrow> do { require (RELOAD_MIN p \<le> r \<and> r \<le> RELOAD_MAX p); Some (Some r, snd (program_scheduler_timer p r s)) })"
  using program [OF assms] by (simp add: program_next_scheduler_timer_def next_ktimer_reload_def reload_range split: option.splits)

lemma port_stays: "runs_on p s \<Longrightarrow> program_next_scheduler_timer s = Some (r, s') \<Longrightarrow> runs_on p s'"
  by (auto simp: program_next_scheduler_timer_def runs_on_program split: option.splits bind_splits)

end

lemma runs_on_simps:
  "runs_on CortexM_timer s \<longleftrightarrow> timer_reload s \<noteq> None \<and> timer_current s \<noteq> None"
  "runs_on Host_timer s \<longleftrightarrow> timer_reload s = None \<and> timer_current s = None"
  by (auto simp: runs_on_def scheduler_timer_reload_def scheduler_timer_current_def CortexM_timer_def Host_timer_def
      cm_reload_def cm_current_def host_reload_def host_current_def split: option.splits)

lemma port_program_simps:
  "port_program_reload CortexM_timer = cm_program_reload" "port_program_reload Host_timer = host_program_reload"
  by (simp_all add: CortexM_timer_def Host_timer_def)

lemmas program_defs = port_program_simps program_scheduler_timer_def program_scheduler_timer_reload_def cm_program_reload_def host_program_reload_def

interpretation cm_port: timer_port CortexM_timer
  by (unfold_locales; (simp add: CortexM_timer_def SCHEDULER_TIMER_RELOAD_MAX_def; fail)?)
    (auto simp: runs_on_simps program_defs)

interpretation host_port: timer_port Host_timer
  by (unfold_locales; (simp add: Host_timer_def same_reload_range SCHEDULER_TIMER_RELOAD_MAX_def; fail)?)
    (auto simp: runs_on_simps program_defs)

text \<open>
  On either port the scheduler programs the timer and reads the elapsed time through the port only, within
  the range of reload values of the port: the model's timer operations are those of the port.
\<close>

theorem timer_services:
  assumes "p = CortexM_timer \<or> p = Host_timer" "runs_on p s"
  shows "elapsed_ticks_since_current_reload s =
      (case (scheduler_timer_reload p s, scheduler_timer_current p s) of (Some r, Some c) \<Rightarrow> saturating_sub r c | _ \<Rightarrow> 0)
    \<and> program_next_scheduler_timer s =
      (case next_ktimer_reload s of
         None \<Rightarrow> Some (None, s)
       | Some r \<Rightarrow> do { require (RELOAD_MIN p \<le> r \<and> r \<le> RELOAD_MAX p); Some (Some r, snd (program_scheduler_timer p r s)) })
    \<and> (\<forall>r s'. program_next_scheduler_timer s = Some (r, s') \<longrightarrow> runs_on p s')"
  using assms(1)
proof
  assume p: "p = CortexM_timer"
  show ?thesis
    using assms(2) cm_port.current_reload_eq cm_port.port_program_next cm_port.port_stays unfolding p by blast
next
  assume p: "p = Host_timer"
  show ?thesis
    using assms(2) host_port.current_reload_eq host_port.port_program_next host_port.port_stays unfolding p by blast
qed

end
