(* ===== verification/Wakeups.thy ===== *)
theory Wakeups
  imports SystemProps
begin

text \<open>
  No wake-up is lost. A blocking \<open>send\<close> or \<open>receive\<close> (\<^verbatim>\<open>src/message.rs\<close>) that found the queue full or empty
  suspends its thread and tries again when the thread runs; a message that arrives, or a slot that becomes
  free, wakes one waiter and is not reserved for it. While somebody waits, at least as many woken threads are
  on their way to try again as there are messages to receive, or free slots to fill.
\<close>

section \<open>Calls that have to be repeated\<close>

text \<open>The call a thread is in the middle of: its last one, if that was suspended. Interrupts do not end it.\<close>

definition owed_step :: "addr \<Rightarrow> addr \<times> 'm sys_event \<times> 'm outcome \<Rightarrow> 'm sys_event option \<Rightarrow> 'm sys_event option" where
  "owed_step u = (\<lambda>(v, e, ok) d. if v \<noteq> u \<or> by_hardware e then d else if ok = Retries then Some e else None)"

definition owed :: "'m history \<Rightarrow> addr \<Rightarrow> 'm sys_event option" where
  "owed tr u = fold (owed_step u) tr None"

text \<open>A thread in the middle of a call repeats it.\<close>

definition repeats :: "'m history \<Rightarrow> 'm sys_event \<Rightarrow> addr \<Rightarrow> bool" where
  "repeats tr e u \<longleftrightarrow> (case owed tr u of None \<Rightarrow> True | Some e0 \<Rightarrow> e = e0 \<or> by_hardware e)"

inductive call_run :: "'m system \<Rightarrow> 'm history \<Rightarrow> 'm system \<Rightarrow> bool" for S0 where
  call_init: "call_run S0 [] S0"
| call_step: "call_run S0 tr S \<Longrightarrow> has_guard S0 tr e (running S) \<Longrightarrow> repeats tr e (running S) \<Longrightarrow> sys_step S e ok S' \<Longrightarrow>
    call_run S0 (tr @ [(running S, e, ok)]) S'"

lemma call_run_sys_run: "call_run S0 tr S \<Longrightarrow> sys_run S0 tr S"
  by (induction rule: call_run.induct) (auto intro: sys_run.intros)

definition receiving :: "'m history \<Rightarrow> nat \<Rightarrow> addr set" where
  "receiving tr i = {u. owed tr u = Some (Receive i)}"

definition sending :: "'m history \<Rightarrow> nat \<Rightarrow> addr set" where
  "sending tr i = {u. \<exists>v. owed tr u = Some (Send i v)}"

lemma owed_snoc:
  "owed (tr @ [(c, e, ok)]) u =
    (if c \<noteq> u \<or> by_hardware e then owed tr u else if ok = Retries then Some e else None)"
  by (simp add: owed_def owed_step_def)

lemma callers_finite: "finite {u. owed tr u \<noteq> None}"
proof (induction tr rule: rev_induct)
  case Nil
  then show ?case by (simp add: owed_def)
next
  case (snoc x tr)
  obtain c e ok where x: "x = (c, e, ok)" by (cases x)
  have "{u. owed (tr @ [x]) u \<noteq> None} \<subseteq> insert c {u. owed tr u \<noteq> None}" by (auto simp: x owed_snoc split: if_splits)
  then show ?case using snoc by (simp add: finite_subset)
qed

lemma receiving_snoc:
  assumes "repeats tr e c"
  shows "receiving (tr @ [(c, e, ok)]) i =
    (if e = Receive i then (if ok = Retries then insert c (receiving tr i) else receiving tr i - {c}) else receiving tr i)"
  using assms by (auto simp: receiving_def owed_snoc repeats_def split: option.splits if_splits)

lemma sending_snoc:
  assumes "repeats tr e c"
  shows "sending (tr @ [(c, e, ok)]) i =
    (if \<exists>v. e = Send i v then (if ok = Retries then insert c (sending tr i) else sending tr i - {c}) else sending tr i)"
  using assms by (auto simp: sending_def owed_snoc repeats_def split: option.splits if_splits)

section \<open>Counting\<close>

text \<open>
  \<open>R\<close> are the callers, \<open>ws\<close> those of them that wait, and \<open>n\<close> what there is for them: if somebody waits,
  at least \<open>n\<close> others have been woken.
\<close>

definition covered :: "addr set \<Rightarrow> addr list \<Rightarrow> nat \<Rightarrow> bool" where
  "covered R ws n \<longleftrightarrow> finite R \<and> set ws \<subseteq> R \<and> distinct ws \<and> (ws \<noteq> [] \<longrightarrow> n \<le> card (R - set ws))"

lemma covered_wake: "covered R ws n \<Longrightarrow> covered R (tl ws) (Suc n)"
proof (cases ws)
  case (Cons w vs)
  moreover assume "covered R ws n"
  ultimately have c: "finite R" "w \<in> R" "set vs \<subseteq> R" "w \<notin> set vs" "distinct vs" "n \<le> card (R - set ws)"
    by (auto simp: covered_def)
  have "R - set vs = insert w (R - set ws)" "w \<notin> R - set ws" using c(2,4) Cons by auto
  then have "card (R - set vs) = Suc (card (R - set ws))" using card_insert_disjoint [of "R - set ws" w] c(1) by simp
  then show ?thesis using c Cons by (simp add: covered_def)
qed (simp add: covered_def)

lemma covered_take: "covered R ws (Suc n) \<Longrightarrow> c \<notin> set ws \<Longrightarrow> covered (R - {c}) ws n"
proof -
  assume a: "covered R ws (Suc n)" "c \<notin> set ws"
  have "R - {c} - set ws = R - set ws - {c}" by auto
  moreover have "card (R - set ws) \<le> Suc (card (R - set ws - {c}))"
    using diff_card_le_card_Diff [of "{c}" "R - set ws"] by simp
  ultimately show ?thesis using a by (auto simp: covered_def)
qed

lemma covered_block:
  "covered R ws n \<Longrightarrow> distinct vs \<Longrightarrow> set vs = insert c (set ws) \<Longrightarrow> covered (insert c R) vs 0"
  by (auto simp: covered_def)

lemma covered_mono: "covered R ws n \<Longrightarrow> m \<le> n \<Longrightarrow> covered R ws m"
  by (auto simp: covered_def)

abbreviation free_slots :: "'a QueueState \<Rightarrow> nat" where
  "free_slots q \<equiv> unat (capacity q) - length (contents q)"

lemma call_step_covered:
  assumes S: "sys_inv S" and S': "sys_inv S'" and m: "sys_moves e ok S S'" and p: "repeats tr e (running S)"
    and r: "covered (receiving tr i) (receivers (mqs S i)) (length (contents (mqs S i)))"
    and w: "covered (sending tr i) (senders (mqs S i)) (free_slots (mqs S i))"
  shows "covered (receiving (tr @ [(running S, e, ok)]) i) (receivers (mqs S' i)) (length (contents (mqs S' i)))"
    "covered (sending (tr @ [(running S, e, ok)]) i) (senders (mqs S' i)) (free_slots (mqs S' i))"
proof -
  have d: "distinct (receivers (mqs S' i))" "distinct (senders (mqs S' i))"
    using sys_invD(10) [OF S', of i] sync_ok_distinct by (auto simp: mq_ok_def)
  have n: "running S \<notin> set (receivers (mqs S i))" "running S \<notin> set (senders (mqs S i))"
    using running_waits_nowhere [OF S, of "Rcv i"] running_waits_nowhere [OF S, of "Snd i"] by simp_all
  have c: "contents (mqs S i) @ put_in e ok i = taken_out e ok i @ contents (mqs S' i)" "capacity (mqs S' i) = capacity (mqs S i)"
    and x: "ok = expected e S" and v: "waiter_moves e ok S S'" using sys_movesD [OF m] by blast+
  show "covered (receiving (tr @ [(running S, e, ok)]) i) (receivers (mqs S' i)) (length (contents (mqs S' i)))"
  proof (cases "e = Receive i")
    case True
    have put: "put_in e ok i = []" using True by (simp add: put_in_def)
    show ?thesis
    proof (cases "contents (mqs S i)")
      case Nil
      then have "ok = Retries" "contents (mqs S' i) = []" using True x c(1) put by simp_all
      then show ?thesis
        using covered_block [OF r d(1)] v put True receiving_snoc [OF p, of ok i] by (auto simp: waiter_moves_def)
    next
      case (Cons a xs)
      then have "ok = Got a" "contents (mqs S' i) = xs" using True x c(1) put by (simp_all add: taken_out_def)
      then show ?thesis
        using covered_take [of _ _ "length xs"] r n(1) v put True Cons receiving_snoc [OF p, of ok i] by (auto simp: waiter_moves_def)
    qed
  next
    case False
    then have R: "receiving (tr @ [(running S, e, ok)]) i = receiving tr i" using receiving_snoc [OF p] by simp
    show ?thesis
    proof (cases "put_in e ok i")
      case Nil
      then have "receivers (mqs S' i) = receivers (mqs S i)" using v False by (simp add: waiter_moves_def)
      moreover have "length (contents (mqs S' i)) \<le> length (contents (mqs S i))" using c(1) Nil by simp
      ultimately show ?thesis using R covered_mono [OF r] by simp
    next
      case (Cons a as)
      then have "receivers (mqs S' i) = tl (receivers (mqs S i))" "taken_out e ok i = []" "as = []"
        using v by (auto simp: waiter_moves_def put_in_def taken_out_def split: if_splits sys_event.splits)
      then show ?thesis using R covered_wake [OF r] c(1) Cons by (metis length_append_singleton append_Nil)
    qed
  qed
  show "covered (sending (tr @ [(running S, e, ok)]) i) (senders (mqs S' i)) (free_slots (mqs S' i))"
  proof (cases "\<exists>v. e = Send i v")
    case True
    then obtain a where e: "e = Send i a" by blast
    have out: "taken_out e ok i = []" using e by (simp add: taken_out_def)
    show ?thesis
    proof (cases "length (contents (mqs S i)) = unat (capacity (mqs S i))")
      case True
      then have "ok = Retries" "contents (mqs S' i) = contents (mqs S i)" using e x c(1) out by (simp_all add: put_in_def)
      then show ?thesis
        using covered_block [OF w d(2)] v out e True c(2) sending_snoc [OF p, of ok i] by (auto simp: waiter_moves_def)
    next
      case False
      then have ok: "ok = Done" "contents (mqs S' i) = contents (mqs S i) @ [a]" using e x c(1) out by (simp_all add: put_in_def)
      have "length (contents (mqs S i)) < unat (capacity (mqs S i))"
        using False sys_invD(10) [OF S, of i] contents_bound [of "mqs S i"] by (simp add: mq_ok_def)
      then have "free_slots (mqs S i) = Suc (free_slots (mqs S' i))" using ok c(2) by simp
      then show ?thesis
        using covered_take [of _ _ "free_slots (mqs S' i)"] w n(2) v out e ok(1) sending_snoc [OF p, of ok i] by (auto simp: waiter_moves_def)
    qed
  next
    case False
    then have R: "sending (tr @ [(running S, e, ok)]) i = sending tr i" using sending_snoc [OF p] by simp
    show ?thesis
    proof (cases "taken_out e ok i")
      case Nil
      then have "senders (mqs S' i) = senders (mqs S i)" using v False by (simp add: waiter_moves_def)
      moreover have "length (contents (mqs S i)) \<le> length (contents (mqs S' i))" using arg_cong [OF c(1), of length] Nil by simp
      ultimately show ?thesis using R c(2) covered_mono [OF w] by simp
    next
      case (Cons a as)
      then have o: "senders (mqs S' i) = tl (senders (mqs S i))" "put_in e ok i = []" "as = []"
        using v by (auto simp: waiter_moves_def put_in_def taken_out_def split: if_splits outcome.splits)
      then have "free_slots (mqs S' i) \<le> Suc (free_slots (mqs S i))" using arg_cong [OF c(1), of length] Cons c(2) by simp
      then show ?thesis using R covered_mono [OF covered_wake [OF w]] o by simp
    qed
  qed
qed

section \<open>Every run\<close>

lemma call_run_covered:
  assumes "call_run S0 tr S" "sys_inv S0" "\<And>i. receivers (mqs S0 i) = [] \<and> senders (mqs S0 i) = []"
  shows "covered (receiving tr i) (receivers (mqs S i)) (length (contents (mqs S i)))
    \<and> covered (sending tr i) (senders (mqs S i)) (free_slots (mqs S i))"
  using assms
proof (induction arbitrary: i rule: call_run.induct)
  case call_init
  then show ?case by (simp add: covered_def receiving_def sending_def owed_def)
next
  case (call_step tr S e ok S')
  note r = sys_run_inv [OF call_run_sys_run [OF call_step.hyps(1)] call_step.prems(1)]
  then have S: "sys_inv S" by blast
  have "owns e S" by (rule guard_owns [OF S _ call_step.hyps(2)]) (use r in blast)
  note m = sys_step_inv [OF call_step.hyps(4) S this]
  show ?case using call_step_covered [OF S conjunct1 [OF m] conjunct2 [OF m] call_step.hyps(3), of i] call_step.IH [of i] call_step.prems
    by blast
qed

text \<open>
  C5: no wake-up is lost: a thread whose \<open>send\<close> or \<open>receive\<close> was suspended repeats the call when it runs
  again, and whatever else the threads and the interrupts do, every message buffered while a thread waits
  to receive, and every free slot while a thread waits to send, is matched by a different thread that has
  been woken and still has to repeat its call. So no thread sleeps beside a message, or a free slot, that
  nobody is on the way to take.
\<close>

theorem no_lost_wakeups:
  assumes "sys_inv S0" "\<And>i. receivers (mqs S0 i) = [] \<and> senders (mqs S0 i) = []" "call_run S0 tr S"
  shows "(receivers (mqs S i) \<noteq> [] \<longrightarrow>
      length (contents (mqs S i)) \<le> card {u. owed tr u = Some (Receive i) \<and> u \<notin> set (receivers (mqs S i))})
    \<and> (senders (mqs S i) \<noteq> [] \<longrightarrow>
      unat (capacity (mqs S0 i)) - length (contents (mqs S i)) \<le> card {u. (\<exists>v. owed tr u = Some (Send i v)) \<and> u \<notin> set (senders (mqs S i))})"
proof -
  have "capacity (mqs S i) = capacity (mqs S0 i)" using sys_run_inv [OF call_run_sys_run [OF assms(3)] assms(1)] by blast
  moreover have "{u. owed tr u = Some (Receive i) \<and> u \<notin> set (receivers (mqs S i))} = receiving tr i - set (receivers (mqs S i))"
    "{u. (\<exists>v. owed tr u = Some (Send i v)) \<and> u \<notin> set (senders (mqs S i))} = sending tr i - set (senders (mqs S i))"
    by (auto simp: receiving_def sending_def)
  ultimately show ?thesis using call_run_covered [OF assms(3,1,2), of i] by (simp add: covered_def)
qed

text \<open>The sample scheduler with primitives as their constructors make them: a receiver waits.\<close>

definition new_system :: "'m \<Rightarrow> 'm system" where
  "new_system v =
     \<lparr>kern = sample, sems = (\<lambda>_. Counting \<lparr>sem_count = 0, sem_max_count = 3, cnt_waiters = []\<rparr>), mtxs = (\<lambda>_. MutexState_new), cells = (\<lambda>_. v),
      mqs = (\<lambda>_. \<lparr>capacity = 4, slots = replicate 4 None, q_head = 0, q_len = 0, senders = [], receivers = []\<rparr>)\<rparr>"

lemma new_system_simps [simp]:
  "kern (new_system v) = sample" "contents (mqs (new_system v) i) = []" "capacity (mqs (new_system v) i) = 4"
  "senders (mqs (new_system v) i) = []" "receivers (mqs (new_system v) i) = []" "cells (new_system v) i = v"
  "mtxs (new_system v) i = MutexState_new" "sems (new_system v) i = Counting \<lparr>sem_count = 0, sem_max_count = 3, cnt_waiters = []\<rparr>"
  by (simp_all add: new_system_def contents_def)

lemma new_system_objects: "new_objects (new_system v)"
  by (simp add: new_objects_def new_system_def mutex_def Mutex_new_def CountingSemaphore_new_def MessageQueue_new_def require_def)

lemmas new_system_inv = new_objects_inv(1) [OF _ new_system_objects, simplified new_system_simps, OF sample_run_inv]

lemma new_system_receives:
  obtains S where "sys_step (new_system v) (Receive i) Retries S" "receivers (mqs S i) \<noteq> []"
proof -
  have o: "owns (Receive i) (new_system v)" by (simp add: owns_def uses_guard_def)
  have "sys_admissible (Receive i) (new_system v)" using sample_can_block sample_no_overdue by (simp add: blocks_def)
  then obtain ok S where s: "sys_step (new_system v) (Receive i) ok S" using sys_step_ok [OF new_system_inv _ o] by blast
  note m = sys_movesD [OF conjunct2 [OF sys_step_inv [OF s new_system_inv o]]]
  have ok: "ok = Retries" using m(4) by simp
  then have "receivers (mqs S i) \<noteq> []" using spec [OF m(5) [unfolded waiter_moves_def], of i] by (auto simp: put_in_def)
  then show ?thesis using that s ok by blast
qed

theorem no_lost_wakeups_witness:
  "\<exists>S. call_run (new_system 0) [(2000, Receive 0, Retries :: nat outcome)] S \<and> receivers (mqs S 0) \<noteq> []
    \<and> length (contents (mqs S 0)) \<le> card {u. owed [(2000, Receive 0, Retries :: nat outcome)] u = Some (Receive 0) \<and> u \<notin> set (receivers (mqs S 0))}"
proof -
  obtain S where s: "sys_step (new_system (0 :: nat)) (Receive 0) Retries S" "receivers (mqs S 0) \<noteq> []" by (rule new_system_receives)
  have run: "call_run (new_system 0) [(2000, Receive 0, Retries :: nat outcome)] S"
    using call_step [OF call_init _ _ s(1)] by (simp add: repeats_def owed_def has_guard_def uses_guard_def)
  have "receivers (mqs (new_system (0 :: nat)) i) = [] \<and> senders (mqs (new_system (0 :: nat)) i) = []" for i by simp
  from no_lost_wakeups [OF new_system_inv this run, of 0] show ?thesis using run s(2) by blast
qed

end
