(* ===== verification/App.thy ===== *)
theory App
  imports Wakeups
begin

text \<open>
  Application programs on top of the library: thread functions as control locations and the statement at each of
  them, run under the scheduler with interrupts between any two statements. The runs of a program whose threads
  use only guards they hold are runs of the system, so that its theorems apply to them.
\<close>

section \<open>Thread functions\<close>

text \<open>
  A statement calls the library and goes on with the result, changes the statics in one atomic access, or
  reads the cycle counter. The waiting of the idle thread and of a thread after a panic changes nothing.
\<close>

datatype ('l, 'g, 'm) stmt =
  Call "'m sys_event" "'m outcome \<Rightarrow> 'l"
| Do "'g \<Rightarrow> 'g" 'l
| Cycles "u32 \<Rightarrow> 'l"

record ('l, 'g, 'm) app =
  sys :: "'m system"
  pc :: "addr \<Rightarrow> 'l"
  statics :: 'g

text \<open>
  The thread that runs executes its next statement, or the counter counts, or the timer interrupt occurs. A call that was suspended
  leaves the thread where it is: the loop in \<open>send\<close> and \<open>receive\<close> tries again.
\<close>

inductive app_run :: "('l \<Rightarrow> ('l, 'g, 'm) stmt) \<Rightarrow> ('l, 'g, 'm) app \<Rightarrow> 'm history \<Rightarrow> ('l, 'g, 'm) app \<Rightarrow> bool" for prog A0 where
  app_init: "app_run prog A0 [] A0"
| app_hw: "app_run prog A0 tr A \<Longrightarrow> by_hardware e \<Longrightarrow> sys_step (sys A) e ok S' \<Longrightarrow>
    app_run prog A0 (tr @ [(running (sys A), e, ok)]) (A\<lparr>sys := S'\<rparr>)"
| app_call: "app_run prog A0 tr A \<Longrightarrow> u = running (sys A) \<Longrightarrow> prog (pc A u) = Call e k \<Longrightarrow> sys_step (sys A) e ok S' \<Longrightarrow>
    app_run prog A0 (tr @ [(u, e, ok)]) (A\<lparr>sys := S', pc := (pc A)(u := if ok = Retries then pc A u else k ok)\<rparr>)"
| app_do: "app_run prog A0 tr A \<Longrightarrow> u = running (sys A) \<Longrightarrow> prog (pc A u) = Do f l \<Longrightarrow>
    app_run prog A0 tr (A\<lparr>pc := (pc A)(u := l), statics := f (statics A)\<rparr>)"
| app_cycles: "app_run prog A0 tr A \<Longrightarrow> u = running (sys A) \<Longrightarrow> prog (pc A u) = Cycles k \<Longrightarrow>
    app_run prog A0 tr (A\<lparr>pc := (pc A)(u := k c)\<rparr>)"

definition has :: "nat set \<Rightarrow> nat \<Rightarrow> int" where
  "has H i = (if i \<in> H then 1 else 0)"

text \<open>
  A program in which the guards a thread holds are known at every location, as the borrow checker knows them, and
  which uses only those.
\<close>

locale guarded =
  fixes prog :: "'l \<Rightarrow> ('l, 'g, 'm) stmt" and holds :: "'l \<Rightarrow> nat set"
  assumes no_hw: "prog l = Call e k \<Longrightarrow> \<not> by_hardware e"
    and uses_held: "prog l = Call e k \<Longrightarrow> uses_guard e i \<Longrightarrow> i \<in> holds l"
    and call_holds: "prog l = Call e k \<Longrightarrow> ok = expected e S \<Longrightarrow> ok \<noteq> Retries \<Longrightarrow> has (holds (k ok)) i = has (holds l) i + guard_moves e ok u i u"
    and do_holds: "prog l = Do f l' \<Longrightarrow> holds l' = holds l"
    and cycles_holds: "prog l = Cycles k' \<Longrightarrow> holds (k' c) = holds l"
begin

text \<open>Nobody holds a guard, or waits, when the program starts.\<close>

definition starts :: "('l, 'g, 'm) app \<Rightarrow> bool" where
  "starts A \<longleftrightarrow> run_inv (kern (sys A)) \<and> new_objects (sys A) \<and> (\<forall>u. holds (pc A u) = {})"

definition agrees :: "('l, 'g, 'm) app \<Rightarrow> 'm history \<Rightarrow> ('l, 'g, 'm) app \<Rightarrow> bool" where
  "agrees A0 tr A \<longleftrightarrow> call_run (sys A0) tr (sys A)
     \<and> (\<forall>i u. u \<noteq> 0 \<longrightarrow> guards (sys A0) tr i u = has (holds (pc A u)) i)
     \<and> (\<forall>u e. owed tr u = Some e \<longrightarrow> (\<exists>k. prog (pc A u) = Call e k))"

lemma starts_inv: "starts A \<Longrightarrow> sys_inv (sys A)"
  using new_objects_inv(1) unfolding starts_def by blast

lemma starts_guards:
  assumes "starts A" "u \<noteq> 0"
  shows "guards (sys A) [] i u = 0"
proof -
  have n: "new_objects (sys A)" using assms(1) by (simp add: starts_def)
  have "mtxs (sys A) i = MutexState_new" using n by (simp add: new_objects_def mutex_def Mutex_new_def)
  then show ?thesis using assms(2) by (simp add: guards_def held_def count_by_def MutexState_new_def)
qed

lemma agrees_guard:
  assumes "agrees A0 tr A" "starts A0" "prog (pc A (running (sys A))) = Call e k"
  shows "has_guard (sys A0) tr e (running (sys A))"
proof -
  have "sys_run (sys A0) tr (sys A)" using assms(1) call_run_sys_run unfolding agrees_def by blast
  then have "sys_inv (sys A)" using sys_run_inv starts_inv [OF assms(2)] by blast
  then have "running (sys A) \<noteq> 0" by (rule sys_invD(8))
  then show ?thesis using assms(1) uses_held [OF assms(3)] by (simp add: has_guard_def agrees_def has_def)
qed

text \<open>A call is a step of the system, with all that is known about it.\<close>

lemma agrees_moves:
  assumes "agrees A0 tr A" "starts A0" "prog (pc A (running (sys A))) = Call e k" "sys_step (sys A) e ok S'"
  shows "sys_moves e ok (sys A) S'" "running (sys A) \<noteq> 0"
    "uses_guard e i \<Longrightarrow> owner (mtxs (sys A) i) = running (sys A)"
proof -
  have "sys_run (sys A0) tr (sys A)" using assms(1) call_run_sys_run unfolding agrees_def by blast
  note r = sys_run_inv [OF this starts_inv [OF assms(2)]]
  then have S: "sys_inv (sys A)" by blast
  have o: "owns e (sys A)" by (rule guard_owns [OF S _ agrees_guard [OF assms(1-3)]]) (use r in blast)
  show "sys_moves e ok (sys A) S'" using sys_step_inv [OF assms(4) S o] by blast
  show "running (sys A) \<noteq> 0" by (rule sys_invD(8) [OF S])
  show "uses_guard e i \<Longrightarrow> owner (mtxs (sys A) i) = running (sys A)" using o by (simp add: owns_def)
qed

text \<open>A local statement is not in the middle of a call.\<close>

lemma agrees_local:
  assumes "agrees A0 tr A" "\<And>e k. prog (pc A u) \<noteq> Call e k" "holds l = holds (pc A u)"
  shows "agrees A0 tr (A\<lparr>pc := (pc A)(u := l)\<rparr>)" "agrees A0 tr (A\<lparr>pc := (pc A)(u := l), statics := g\<rparr>)"
proof -
  have "owed tr u = None" using assms(1,2) unfolding agrees_def by (metis not_None_eq)
  then show "agrees A0 tr (A\<lparr>pc := (pc A)(u := l)\<rparr>)" "agrees A0 tr (A\<lparr>pc := (pc A)(u := l), statics := g\<rparr>)"
    using assms(1,3) by (auto simp: agrees_def)
qed

lemma app_run_agrees:
  assumes "app_run prog A0 tr A" "starts A0"
  shows "agrees A0 tr A"
  using assms
proof (induction rule: app_run.induct)
  case app_init
  then show ?case using starts_guards by (simp add: agrees_def call_run.call_init owed_def has_def starts_def)
next
  case (app_hw tr A e ok S')
  have g: "has_guard (sys A0) tr e (running (sys A))" using by_hardware_idle(1) [OF app_hw.hyps(2)] by (simp add: has_guard_def)
  have "repeats tr e (running (sys A))" using app_hw.hyps(2) by (simp add: repeats_def split: option.splits)
  then show ?case using app_hw call_step [OF _ g _ app_hw.hyps(3)] by_hardware_idle(5) [OF app_hw.hyps(2)]
    by (simp add: agrees_def guards_snoc owed_snoc)
next
  case (app_call tr A u e k ok S')
  then have a: "agrees A0 tr A" by blast
  have g: "has_guard (sys A0) tr e u" using agrees_guard [OF a app_call.prems] app_call.hyps(2,3) by simp
  have "e0 = e" if "owed tr u = Some e0" for e0 using a that app_call.hyps(3) unfolding agrees_def by fastforce
  then have "repeats tr e u" by (auto simp: repeats_def split: option.splits)
  then have r: "call_run (sys A0) (tr @ [(u, e, ok)]) S'"
    using call_step [of "sys A0" tr "sys A"] g app_call.hyps a by (simp add: agrees_def)
  have x: "ok = expected e (sys A)" using agrees_moves(1) [OF a app_call.prems] app_call.hyps(2-4) sys_movesD(4) by blast
  have m: "guard_moves e Retries c i v = 0" for c i v by (simp add: guard_moves_def)
  have o: "guard_moves e ok u i v = 0" if "v \<noteq> u" for i v using that by (simp add: guard_moves_def)
  have "guards (sys A0) (tr @ [(u, e, ok)]) i v = has (holds (if v = u then if ok = Retries then pc A u else k ok else pc A v)) i"
    if "v \<noteq> 0" for i v
    using a that call_holds [OF app_call.hyps(3) x, of i u] m o by (auto simp: agrees_def guards_snoc)
  moreover have "\<not> by_hardware e" using no_hw app_call.hyps(3) by blast
  ultimately show ?case using a r app_call.hyps(3) by (auto simp: agrees_def owed_snoc split: if_splits)
next
  case (app_do tr A u f l)
  then show ?case using agrees_local(2) [of A0 tr A u] do_holds [OF app_do.hyps(3)] by simp
next
  case (app_cycles tr A u k c)
  then show ?case using agrees_local(1) [of A0 tr A u] cycles_holds [OF app_cycles.hyps(3)] by simp
qed

lemma app_run_sys:
  assumes "app_run prog A0 tr A" "starts A0"
  shows "sys_run (sys A0) tr (sys A)" "call_run (sys A0) tr (sys A)" "sys_inv (sys A)"
    "u \<noteq> 0 \<Longrightarrow> guards (sys A0) tr i u = has (holds (pc A u)) i"
    "received i tr @ contents (mqs (sys A) i) = sent i tr"
    "owed tr u = Some e \<Longrightarrow> \<exists>k. prog (pc A u) = Call e k"
proof -
  have a: "agrees A0 tr A" by (rule app_run_agrees [OF assms])
  show c: "call_run (sys A0) tr (sys A)" using a by (simp add: agrees_def)
  show r: "sys_run (sys A0) tr (sys A)" by (rule call_run_sys_run [OF c])
  note i = sys_run_inv [OF r starts_inv [OF assms(2)]]
  show "sys_inv (sys A)" using i by blast
  show "u \<noteq> 0 \<Longrightarrow> guards (sys A0) tr i u = has (holds (pc A u)) i" using a by (simp add: agrees_def)
  show "owed tr u = Some e \<Longrightarrow> \<exists>k. prog (pc A u) = Call e k" using a by (simp add: agrees_def)
  have "contents (mqs (sys A0) i) = []" using assms(2) new_objects_inv(2) unfolding starts_def by blast
  then show "received i tr @ contents (mqs (sys A) i) = sent i tr" using i by (metis append_Nil)
qed

lemmas app_call_moves = agrees_moves [OF app_run_agrees]

lemma app_hw_moves:
  assumes "app_run prog A0 tr A" "starts A0" "by_hardware e" "sys_step (sys A) e ok S'"
  shows "sys_moves e ok (sys A) S'"
  using sys_step_inv [OF assms(4) app_run_sys(3) [OF assms(1,2)]] by_hardware_idle(1) [OF assms(3)] by (simp add: owns_def)

text \<open>A thread that waits at a semaphore is where its take goes on.\<close>

lemma app_sem_waiter:
  assumes "app_run prog A0 tr A" "starts A0" "u \<in> set (sem_waiters (sems (sys A) i))"
  shows "\<exists>l k. prog l = Call (Take i) k \<and> pc A u = k Done"
  using assms
proof (induction rule: app_run.induct)
  case app_init
  then show ?case using new_objects_waits [of "sys A0" "Sem i"] by (simp add: starts_def)
next
  case (app_hw tr A e ok S')
  have "waiter_moves e ok (sys A) S'" by (rule sys_movesD(5) [OF app_hw_moves [OF app_hw.hyps(1) app_hw.prems(1) app_hw.hyps(2,3)]])
  from spec [OF this [unfolded waiter_moves_def], of i] have "u \<in> set (sem_waiters (sems (sys A) i))"
    using app_hw.prems(2) by_hardware_idle(7) [OF app_hw.hyps(2), of i] by auto
  then show ?case using app_hw by simp
next
  case (app_call tr A v e k ok S')
  note m = app_call_moves(1) [OF app_call.hyps(1) app_call.prems(1,1)]
  have m: "sys_moves e ok (sys A) S'" using m app_call.hyps(2-4) by blast
  have w: "u \<in> (if e = Take i then {v} else {}) \<union> set (sem_waiters (sems (sys A) i))"
    using spec [OF sys_movesD(5) [OF m, unfolded waiter_moves_def], of i] app_call.prems(2) app_call.hyps(2) by auto
  have r: "v \<notin> set (sem_waiters (sems (sys A) i))"
    using running_waits_nowhere [OF app_run_sys(3) [OF app_call.hyps(1) app_call.prems(1)], of "Sem i"] app_call.hyps(2) by simp
  show ?case
  proof (cases "u = v")
    case True
    then have "e = Take i" using w r by (auto split: if_splits)
    moreover from this have "ok = Done" using sys_movesD(4) [OF m] by simp
    ultimately show ?thesis using True app_call.hyps(3) by auto
  next
    case False
    then show ?thesis using w app_call.IH app_call.prems(1) by (auto split: if_splits)
  qed
next
  case (app_do tr A v f l)
  then have "u \<noteq> v" using running_waits_nowhere [OF app_run_sys(3) [OF app_do.hyps(1) app_do.prems(1)], of "Sem i"] by auto
  then show ?case using app_do by simp
next
  case (app_cycles tr A v k c)
  then have "u \<noteq> v" using running_waits_nowhere [OF app_run_sys(3) [OF app_cycles.hyps(1) app_cycles.prems(1)], of "Sem i"] by auto
  then show ?case using app_cycles by simp
qed

text \<open>A thread at a location without a guard does not own the mutex.\<close>

lemma app_not_owner:
  assumes "app_run prog A0 tr A" "starts A0" "i \<notin> holds (pc A u)" "u \<noteq> 0"
  shows "owner (mtxs (sys A) i) \<noteq> u"
proof -
  note r = app_run_sys [OF assms(1,2)]
  have "held (sys A) i u = 0"
    using sys_run_inv [OF r(1) starts_inv [OF assms(2)]] r(4) [OF assms(4), of i] assms(3,4) by (simp add: has_def)
  then show ?thesis by (auto simp: held_def split: if_splits)
qed

end

end
