(* ===== verification/ExCommon.thy ===== *)
theory ExCommon
  imports StartProps Ports App
begin

text \<open>
  What the example programs share (\<^verbatim>\<open>examples/common/mod.rs\<close>): the clock, the parameters of the CFS class, the
  initialisation of the scheduler and of the timer. A main function that initialises the scheduler, creates
  threads with valid arguments in storage of their own, configures the timer and starts the idle thread completes.
\<close>

section \<open>The common module\<close>

definition STACK_WORDS :: nat where
  "STACK_WORDS = 512"

definition SYS_CLK_HZ :: u32 where
  "SYS_CLK_HZ = 12000000"

definition TICKS_PER_MS :: u32 where
  "TICKS_PER_MS = SYS_CLK_HZ div 1000"

definition CFS_PERIOD_TICKS :: u32 where
  "CFS_PERIOD_TICKS = 30 * TICKS_PER_MS"

definition CFS_EXEC_TICKS :: u32 where
  "CFS_EXEC_TICKS = 10 * TICKS_PER_MS"

definition init_scheduler :: "bool \<Rightarrow> kstate \<Rightarrow> kstate option" where
  "init_scheduler cfs_enabled s = do {
     s \<leftarrow> Some (update_sys_clk_freq SYS_CLK_HZ s);
     s \<leftarrow> init_ktimer_queue s;
     if cfs_enabled then init_cfs CFS_PERIOD_TICKS CFS_EXEC_TICKS s else Some s
   }"

text \<open>Without a timer to wait for, the program idles for ever. Of the peripheral, reload and current value are modelled.\<close>

definition configure_systick :: "kstate \<Rightarrow> kstate option" where
  "configure_systick s = do {
     reload \<leftarrow> next_ktimer_reload s;
     Some (snd (cm_program_reload reload s))
   }"

text \<open>The idle thread, and a thread after a panic: the panic handler is \<open>idle_forever\<close>.\<close>

definition idle_forever :: "'l \<Rightarrow> ('l, 'g, 'm) stmt" where
  "idle_forever l = Do id l"

text \<open>Busy waiting: \<open>n\<close> more iterations.\<close>

definition spin :: "nat \<Rightarrow> (nat \<Rightarrow> 'l) \<Rightarrow> 'l \<Rightarrow> ('l, 'g, 'm) stmt" where
  "spin n again after = Do id (case n of 0 \<Rightarrow> after | Suc i \<Rightarrow> again i)"

text \<open>Where the statics of the idle thread are.\<close>

record idle_layout =
  IDLE_STACK :: addr
  IDLE_THREAD :: addr
  cpu_idle_fn :: addr

definition start_idle :: "'a idle_layout_scheme \<Rightarrow> kstate \<times> mem \<Rightarrow> (kstate \<times> mem) option" where
  "start_idle L = spawn_main_thread ''cpu_idle'' (cpu_idle_fn L) (IDLE_THREAD L) (IDLE_STACK L) STACK_WORDS"

declare idle_forever_def [simp] spin_def [simp]

section \<open>Starting\<close>

definition stack_ok :: "addr \<Rightarrow> bool" where
  "stack_ok a \<longleftrightarrow> a \<noteq> 0 \<and> a mod 8 = 0"

lemma stack_ok_valid: "stack_ok a \<Longrightarrow> a \<noteq> 0 \<and> 16 \<le> STACK_WORDS \<and> (a + 4 * STACK_WORDS) mod 8 = 0"
  by (simp add: stack_ok_def STACK_WORDS_def mod_eq_0_iff_dvd)

lemma stack_ok_spawn:
  assumes "stack_ok a" "t \<noteq> 0"
  shows "p \<noteq> 0 \<Longrightarrow> spawn_error t a STACK_WORDS (CfsArgs p) = None" "k \<noteq> 0 \<Longrightarrow> spawn_error t a STACK_WORDS (RtArgs k) = None"
  using assms stack_ok_valid [OF assms(1)] by (simp_all add: spawn_error_None)

lemma boot_inv_core:
  assumes "same_core s s'" "NEXT_KTIMER s' = NEXT_KTIMER s"
  shows "boot_inv s' = boot_inv s" "fresh s' t = fresh s t"
  using assms same_core_inv [OF assms(1)] by (simp_all add: boot_inv_def fresh_def next_ok_def same_core_def)

lemma configure_systick_ok:
  assumes "boot_inv s" "queued s \<noteq> {}"
  obtains s' where "configure_systick s = Some s'" "same_core s s'" "NEXT_KTIMER s' = NEXT_KTIMER s"
    "timer_reload s' \<noteq> None" "timer_current s' = Some 0"
proof -
  have "ktq_first s \<noteq> 0" using assms ktq_first_zero [OF kinvD(4)] by (simp add: boot_inv_def)
  then obtain r where "next_ktimer_reload s = Some r" by (auto simp: next_ktimer_reload_def scheduler_timer_reload_for_entity_def Let_def)
  then show ?thesis using that by (simp add: configure_systick_def cm_program_reload_def same_core_def)
qed

text \<open>Without the CFS class only the wait timer is queued.\<close>

lemma init_scheduler_built:
  assumes l: "loaded s"
  shows "wpo (init_scheduler b s) (\<lambda>s'. \<exists>n. built {} {} n s' \<and> (b \<longrightarrow> n = 0) \<and> n < 2 ^ 32 \<and> run_tree s' = []
    \<and> queued s' = (if b then {CFS_KTIMER s} else {}) \<union> {WAIT_KTIMER s} \<and> CFS_KTIMER s' = CFS_KTIMER s \<and> WAIT_KTIMER s' = WAIT_KTIMER s)"
proof -
  let ?s = "update_sys_clk_freq SYS_CLK_HZ s"
  have l': "loaded ?s" and q: "CFS_KTIMER ?s = CFS_KTIMER s" "WAIT_KTIMER ?s = WAIT_KTIMER s"
    using l by (simp_all add: loaded_def update_sys_clk_freq_def)
  show ?thesis
  proof (cases b)
    case True
    have "wpo (init_ktimer_queue ?s \<bind> init_cfs CFS_PERIOD_TICKS CFS_EXEC_TICKS) (\<lambda>s'. built {} {} 0 s' \<and> run_tree s' = []
        \<and> queued s' = {CFS_KTIMER s, WAIT_KTIMER s} \<and> CFS_KTIMER s' = CFS_KTIMER s \<and> WAIT_KTIMER s' = WAIT_KTIMER s)"
      by (rule wpo_mono [OF boot_built [OF l']]) (simp add: q)
    then show ?thesis using True by (auto simp: init_scheduler_def wpo_def split: bind_splits)
  next
    case False
    from init_ktimer_queue_ok [OF l'] obtain s' where
      s': "init_ktimer_queue ?s = Some s'" "loaded s'" "kinv s'" "queued s' = {WAIT_KTIMER s}" "active_tree s' = []"
        "CFS_KTIMER s' = CFS_KTIMER s" "WAIT_KTIMER s' = WAIT_KTIMER s" by (auto simp: wpo_def q)
    have "NEXT_KTIMER s' = 0"
      using s'(1) init_ktimer_queue_eq(1) [of ?s] l' by (auto simp: loaded_def ktq_put_def queue_reset_def)
    then have "built {} {} (unat (priority_sum s')) s'"
      using s' by (simp add: built_def boot_inv_def loaded_def no_overdue_def waiting_def next_ok_def)
    then show ?thesis using False s' unat_bound [of "priority_sum s'"] by (auto simp: init_scheduler_def loaded_def)
  qed
qed

lemma example_runs:
  fixes L :: "'a idle_layout_scheme"
  assumes l: "loaded s" and v: "valid_requests rs s" and b: "b \<or> cfs_requests rs = {}"
    and t: "IDLE_THREAD L \<noteq> 0" "IDLE_THREAD L \<notin> req_thread ` set rs" and st: "stack_ok (IDLE_STACK L)"
  obtains s1 s2 m2 s3 s' m' where "init_scheduler b s = Some s1" "spawn_all rs (s1, m) = Some (s2, m2)" "configure_systick s2 = Some s3"
    "start_idle L (s3, m2) = Some (s', m')" "run_inv s'" "SCHEDULER_STARTED s'" "CURRENT_THREAD_CTX s' = IDLE_THREAD L"
    "runnable_set s' = cfs_requests rs" "queued s' = set (req_timers rs) \<union> (if b then {CFS_KTIMER s} else {}) \<union> {WAIT_KTIMER s}"
proof -
  from init_scheduler_built [OF l, of b] obtain s1 n where
    s1: "init_scheduler b s = Some s1" "built {} {} n s1" "b \<longrightarrow> n = 0" "n < 2 ^ 32" "run_tree s1 = []"
      "queued s1 = (if b then {CFS_KTIMER s} else {}) \<union> {WAIT_KTIMER s}" "CFS_KTIMER s1 = CFS_KTIMER s" "WAIT_KTIMER s1 = WAIT_KTIMER s"
    by (auto simp: wpo_def)
  have z: "sum_list (map (args_priority \<circ> req_args) rs) = 0" if "cfs_requests rs = {}"
  proof -
    have "args_priority (req_args r) = 0" if "r \<in> set rs" for r
      using \<open>cfs_requests rs = {}\<close> that by (cases "req_args r") (auto simp: cfs_requests_def filter_empty_conv)
    then show ?thesis by simp
  qed
  have p: "n + sum_list (map (args_priority \<circ> req_args) rs) < 2 ^ 32"
  proof (cases b)
    case True
    then show ?thesis using s1(3) v by (simp add: valid_requests_def)
  next
    case False
    then have "sum_list (map (args_priority \<circ> req_args) rs) = 0" using b z by blast
    then show ?thesis using s1(4) by (metis add.right_neutral)
  qed
  have "wpo (spawn_all rs (s1, m)) (\<lambda>(s', m'). boot_inv s' \<and> (\<forall>t. t \<notin> {} \<union> req_thread ` set rs \<longrightarrow> t \<noteq> 0 \<longrightarrow> fresh s' t)
    \<and> set (run_tree s') = cfs_requests rs \<union> set (run_tree s1) \<and> queued s' = set (req_timers rs) \<union> queued s1)"
    by (rule spawn_all_built [OF s1(2)]) (use v p s1(7,8) in \<open>auto simp: valid_requests_def\<close>)
  then obtain s2 m2 where s2: "spawn_all rs (s1, m) = Some (s2, m2)" "boot_inv s2" "fresh s2 (IDLE_THREAD L)"
    "set (run_tree s2) = cfs_requests rs" "queued s2 = set (req_timers rs) \<union> (if b then {CFS_KTIMER s} else {}) \<union> {WAIT_KTIMER s}"
    using t s1(5,6) by (auto simp: wpo_def)
  obtain s3 where s3: "configure_systick s2 = Some s3" "same_core s2 s3" "NEXT_KTIMER s3 = NEXT_KTIMER s2"
    using configure_systick_ok [OF s2(2)] s2(5) by auto
  note c = boot_inv_core [OF s3(2,3)]
  have "wpo (start_idle L (s3, m2)) (\<lambda>(s', m'). run_inv s' \<and> SCHEDULER_STARTED s' \<and> CURRENT_THREAD_CTX s' = IDLE_THREAD L
      \<and> runnable_set s' = cfs_requests rs \<and> queued s' = queued s2)"
    unfolding start_idle_def
    by (rule wpo_mono [OF spawn_main_thread_ok [of s3 "IDLE_THREAD L" "IDLE_STACK L" STACK_WORDS]])
      (use s2(2-4) c stack_ok_valid [OF st] same_core_inv(6) [OF s3(2)] s3(2) in \<open>auto simp: run_inv_def same_core_def\<close>)
  then show ?thesis using that [OF s1(1) s2(1) s3(1)] s2(5) by (auto simp: wpo_def)
qed

lemmas spawn_defs = CfsThreadBuilder_spawn_def CfsThreadBuilder_new_def RtThreadBuilder_spawn_def RtThreadBuilder_new_def

text \<open>How a step of the system changes a semaphore.\<close>

lemma moves_val:
  assumes "sys_moves e ok S S'"
  shows "sem_val (sems S' i) = sem_val (sems S i) + moves e ok i" "sem_capacity (sems S' i) = sem_capacity (sems S i)"
  using assms by (simp_all add: sys_moves_def)

end
