(* ===== verification/MsgExample.thy ===== *)
theory MsgExample
  imports ExCommon
begin

text \<open>
  The example program \<^verbatim>\<open>examples/message_queue.rs\<close>: a CFS thread produces numbered samples, a real-time thread
  consumes them and counts what arrives out of order. The program never counts an error.
\<close>

section \<open>The program\<close>

record Sample =
  sequence :: u32
  produced_at_cycle :: u32

record mq_statics =
  PRODUCED :: u32
  CONSUMED :: u32
  SEQUENCE_ERRORS :: u32
  MESSAGE_ERRORS :: u32
  LAST_DELIVERY_CYCLES :: u32

definition mq_statics_init :: mq_statics where
  "mq_statics_init = \<lparr>PRODUCED = 0, CONSUMED = 0, SEQUENCE_ERRORS = 0, MESSAGE_ERRORS = 0, LAST_DELIVERY_CYCLES = 0\<rparr>"

text \<open>The queue \<open>SAMPLES\<close>.\<close>

abbreviation (input) SAMPLES :: nat where
  "SAMPLES \<equiv> 0"

text \<open>The locations of \<open>produce\<close> and \<open>consume\<close>, with the local variables that are live there.\<close>

datatype produce_at = PTop u32 | PSend u32 Sample | PSent u32 | PFailed u32 | PSleep u32

datatype consume_at = CReceive u32 | CWrong Sample | CStamp Sample | CStore Sample u32 | CCount Sample | CFailed u32 | CYield u32

primrec produce :: "produce_at \<Rightarrow> (produce_at, mq_statics, Sample) stmt" where
  "produce (PTop n) = Cycles (\<lambda>c. PSend n \<lparr>sequence = n, produced_at_cycle = c\<rparr>)"
| "produce (PSend n smp) = Call (Send SAMPLES smp) (\<lambda>r. if r = Done then PSent n else PFailed n)"
| "produce (PSent n) = Do (PRODUCED_update (\<lambda>x. x + 1)) (PSleep (n + 1))"
| "produce (PFailed n) = Do (MESSAGE_ERRORS_update (\<lambda>x. x + 1)) (PSleep n)"
| "produce (PSleep n) = Call (KernelEvent (Sleep 10)) (\<lambda>_. PTop n)"

primrec consume :: "consume_at \<Rightarrow> (consume_at, mq_statics, Sample) stmt" where
  "consume (CReceive x) = Call (Receive SAMPLES) (\<lambda>r. case r of
     Got smp \<Rightarrow> if sequence smp \<noteq> x then CWrong smp else CStamp smp
   | _ \<Rightarrow> CFailed x)"
| "consume (CWrong smp) = Do (SEQUENCE_ERRORS_update (\<lambda>x. x + 1)) (CStamp smp)"
| "consume (CStamp smp) = Cycles (\<lambda>c. CStore smp (c - produced_at_cycle smp))"
| "consume (CStore smp d) = Do (LAST_DELIVERY_CYCLES_update (\<lambda>_. d)) (CCount smp)"
| "consume (CCount smp) = Do (CONSUMED_update (\<lambda>x. x + 1)) (CYield (sequence smp + 1))"
| "consume (CFailed x) = Do (MESSAGE_ERRORS_update (\<lambda>x. x + 1)) (CYield x)"
| "consume (CYield x) = Call (KernelEvent YieldThread) (\<lambda>_. CReceive x)"

text \<open>
  The measurement of the queue before the threads start. The loop runs with interrupts disabled; the four values are
  what the cycle counter returns in a round.
\<close>

record mq_profile =
  PROFILE_QUEUE :: "u32 QueueState"
  PROFILE_DWT_AVAILABLE :: u32
  PROFILE_PAIR_MIN_CYCLES :: u32
  PROFILE_PAIR_MAX_CYCLES :: u32
  PROFILE_READ_MIN_CYCLES :: u32

definition mq_profile_init :: mq_profile where
  "mq_profile_init =
     \<lparr>PROFILE_QUEUE = \<lparr>capacity = 1, slots = [None], q_head = 0, q_len = 0, senders = [], receivers = []\<rparr>, PROFILE_DWT_AVAILABLE = 0,
      PROFILE_PAIR_MIN_CYCLES = - 1, PROFILE_PAIR_MAX_CYCLES = 0, PROFILE_READ_MIN_CYCLES = - 1\<rparr>"

lemma profile_queue_new: "MessageQueue_new 1 = Some (PROFILE_QUEUE mq_profile_init)"
  by (simp add: MessageQueue_new_def require_def mq_profile_init_def)

definition profile_round :: "u32 \<times> u32 \<times> u32 \<times> u32 \<Rightarrow> u32 \<Rightarrow> mq_profile \<times> kstate \<Rightarrow> (mq_profile \<times> kstate) option" where
  "profile_round = (\<lambda>(c1, c2, c3, c4) n (f, s). do {
     let read_cycles = c2 - c1;
     let f = PROFILE_READ_MIN_CYCLES_update (\<lambda>x. min x read_cycles) f;
     (r, q, s) \<leftarrow> try_send n (PROFILE_QUEUE f) s;
     require (\<not> isl r);
     (r, q, s) \<leftarrow> try_receive q s;
     require (\<not> isl r);
     let cycles = c4 - c3;
     let f = f\<lparr>PROFILE_QUEUE := q\<rparr>;
     let f = PROFILE_PAIR_MIN_CYCLES_update (\<lambda>x. min x cycles) f;
     Some (PROFILE_PAIR_MAX_CYCLES_update (\<lambda>x. max x cycles) f, s)
   })"

primrec profile_rounds :: "(nat \<Rightarrow> u32 \<times> u32 \<times> u32 \<times> u32) \<Rightarrow> nat list \<Rightarrow> mq_profile \<times> kstate \<Rightarrow> (mq_profile \<times> kstate) option" where
  "profile_rounds c [] fs = Some fs"
| "profile_rounds c (n # ns) fs = do { fs \<leftarrow> profile_round (c n) (of_nat n) fs; profile_rounds c ns fs }"

text \<open>Where the statics are, and the static timer of the consumer.\<close>

record mq_layout = idle_layout +
  PRODUCER_STACK :: addr
  PRODUCER_THREAD :: addr
  CONSUMER_STACK :: addr
  CONSUMER_THREAD :: addr
  CONSUMER_TIMER :: addr
  produce_fn :: addr
  consume_fn :: addr

definition consumer_timer_init :: RtKTimer where
  "consumer_timer_init =
     RtKTimer_new_with_timing (RtTiming_new (100 * TICKS_PER_MS) (100 * TICKS_PER_MS) (40 * TICKS_PER_MS)) 0 ''consumer''"

text \<open>
  \<open>main\<close>; \<open>taken\<close> says whether the peripherals could be taken, \<open>dwt\<close> the result of \<open>init_dwt_cycle_counter\<close>.
\<close>

definition mq_main ::
  "bool \<Rightarrow> bool \<Rightarrow> (nat \<Rightarrow> u32 \<times> u32 \<times> u32 \<times> u32) \<Rightarrow> mq_layout \<Rightarrow> kstate \<times> mem \<Rightarrow> (mq_profile \<times> kstate \<times> mem) option" where
  "mq_main taken dwt c L = (\<lambda>(s, m). do {
     require taken;
     s \<leftarrow> init_scheduler True s;
     let f = mq_profile_init;
     (f, s) \<leftarrow> (if dwt then profile_rounds c [0..<256] (f\<lparr>PROFILE_DWT_AVAILABLE := 1\<rparr>, s) else Some (f, s));
     (_, s, m) \<leftarrow> CfsThreadBuilder_spawn (PRODUCER_THREAD L) (PRODUCER_STACK L) STACK_WORDS
        (CfsThreadBuilder_new ''producer'' (produce_fn L) 1) (s, m);
     (_, s, m) \<leftarrow> RtThreadBuilder_spawn (CONSUMER_THREAD L) (CONSUMER_STACK L) STACK_WORDS
        (RtThreadBuilder_new ''consumer'' (consume_fn L) (CONSUMER_TIMER L)) (s, m);
     s \<leftarrow> configure_systick s;
     (s, m) \<leftarrow> start_idle L (s, m);
     Some (f, s, m)
   })"

text \<open>All threads; the idle thread waits for interrupts.\<close>

datatype mq_at = Produce produce_at | Consume consume_at | CpuIdle

primrec mq_program :: "mq_at \<Rightarrow> (mq_at, mq_statics, Sample) stmt" where
  "mq_program (Produce l) = map_stmt Produce (produce l)"
| "mq_program (Consume l) = map_stmt Consume (consume l)"
| "mq_program CpuIdle = idle_forever CpuIdle"

definition mq_start :: "addr \<Rightarrow> addr \<Rightarrow> Sample system \<Rightarrow> (mq_at, mq_statics, Sample) app" where
  "mq_start p c S =
     \<lparr>sys = S, pc = (\<lambda>_. CpuIdle)(p := Produce (PTop 0), c := Consume (CReceive 0)), statics = mq_statics_init\<rparr>"

lemma mq_program_calls:
  assumes "mq_program l = Call e k"
  shows "(\<exists>v. e = Send SAMPLES v) \<or> e = Receive SAMPLES \<or> e = KernelEvent (Sleep 10) \<or> e = KernelEvent YieldThread"
proof (cases l)
  case (Produce x)
  then show ?thesis using assms by (cases x) auto
next
  case (Consume x)
  then show ?thesis using assms by (cases x) auto
qed (use assms in simp)

interpretation mqx: guarded mq_program "\<lambda>_. {}"
proof
  show "mq_program l = Call e k \<Longrightarrow> \<not> by_hardware e" for l e k using mq_program_calls [of l e k] by auto
  show "mq_program l = Call e k \<Longrightarrow> uses_guard e i \<Longrightarrow> i \<in> {}" for l e k i
    using mq_program_calls [of l e k] by (auto simp: uses_guard_def)
  show "mq_program l = Call e k \<Longrightarrow> has {} i = has {} i + guard_moves e ok u i u" for l e k ok i u
    using mq_program_calls [of l e k] by (auto simp: guard_moves_def)
qed simp_all

section \<open>Its invariant\<close>

text \<open>
  The samples are numbered from 0 in the order they are sent; \<open>n\<close> is the number of samples sent, and what the
  producer knows of it at each location.
\<close>

primrec produce_ok :: "produce_at \<Rightarrow> u32 \<Rightarrow> u32 \<Rightarrow> bool" where
  "produce_ok (PTop x) n produced \<longleftrightarrow> x = n \<and> produced = n"
| "produce_ok (PSend x smp) n produced \<longleftrightarrow> x = n \<and> sequence smp = n \<and> produced = n"
| "produce_ok (PSent x) n produced \<longleftrightarrow> x + 1 = n \<and> produced + 1 = n"
| "produce_ok (PFailed x) n produced \<longleftrightarrow> False"
| "produce_ok (PSleep x) n produced \<longleftrightarrow> x = n \<and> produced = n"

text \<open>The same for the consumer, who has received \<open>n\<close> samples.\<close>

primrec consume_ok :: "consume_at \<Rightarrow> u32 \<Rightarrow> u32 \<Rightarrow> bool" where
  "consume_ok (CReceive x) n consumed \<longleftrightarrow> x = n \<and> consumed = n"
| "consume_ok (CWrong smp) n consumed \<longleftrightarrow> False"
| "consume_ok (CStamp smp) n consumed \<longleftrightarrow> sequence smp + 1 = n \<and> consumed + 1 = n"
| "consume_ok (CStore smp d) n consumed \<longleftrightarrow> sequence smp + 1 = n \<and> consumed + 1 = n"
| "consume_ok (CCount smp) n consumed \<longleftrightarrow> sequence smp + 1 = n \<and> consumed + 1 = n"
| "consume_ok (CFailed x) n consumed \<longleftrightarrow> False"
| "consume_ok (CYield x) n consumed \<longleftrightarrow> x = n \<and> consumed = n"

definition numbered :: "Sample list \<Rightarrow> bool" where
  "numbered xs \<longleftrightarrow> map sequence xs = map of_nat [0..<length xs]"

lemma numbered_snoc: "numbered (xs @ [v]) \<longleftrightarrow> numbered xs \<and> sequence v = of_nat (length xs)"
  by (simp add: numbered_def)

lemma numbered_append: "numbered (xs @ ys) \<Longrightarrow> numbered xs"
  by (induction ys rule: rev_induct) (simp_all add: append_assoc [symmetric] numbered_snoc del: append_assoc)

definition mq_good :: "addr \<Rightarrow> addr \<Rightarrow> Sample history \<Rightarrow> (mq_at, mq_statics, Sample) app \<Rightarrow> bool" where
  "mq_good p c tr A \<longleftrightarrow>
     (\<exists>l. pc A p = Produce l \<and> produce_ok l (of_nat (length (sent SAMPLES tr))) (PRODUCED (statics A)))
     \<and> (\<exists>l. pc A c = Consume l \<and> consume_ok l (of_nat (length (received SAMPLES tr))) (CONSUMED (statics A)))
     \<and> (\<forall>u. u \<notin> {p, c} \<longrightarrow> pc A u = CpuIdle)
     \<and> numbered (sent SAMPLES tr) \<and> SEQUENCE_ERRORS (statics A) = 0 \<and> MESSAGE_ERRORS (statics A) = 0"

lemma mq_good_cases:
  assumes "mq_good p c tr A"
  obtains l where "u = p" "pc A u = Produce l" | l where "u = c" "pc A u = Consume l" | "u \<notin> {p, c}" "pc A u = CpuIdle"
  using assms unfolding mq_good_def by (cases "u = p"; cases "u = c") auto

lemma mq_starts:
  assumes "run_inv (kern S)" "new_objects S"
  shows "mqx.starts (mq_start p c S)"
  using assms by (simp add: mqx.starts_def mq_start_def)

lemma mq_run_good:
  assumes "app_run mq_program (mq_start p c S) tr A" "run_inv (kern S)" "new_objects S" "p \<noteq> c"
  shows "mq_good p c tr A"
  using assms(1)
proof (induction rule: app_run.induct)
  case app_init
  then show ?case using assms(4) by (simp add: mq_good_def mq_start_def sent_def received_def mq_statics_init_def numbered_def)
next
  case (app_hw tr A e ok S')
  then show ?case by (simp add: mq_good_def sent_snoc by_hardware_idle [OF app_hw.hyps(2)])
next
  case (app_call tr A u e k ok S')
  let ?tr = "tr @ [(u, e, ok)]"
  note st = mq_starts [OF assms(2,3), of p c]
  have m: "sys_moves e ok (sys A) S'" using mqx.app_call_moves(1) [OF app_call.hyps(1) st st] app_call.hyps(2-4) by blast
  then have ok: "ok = expected e (sys A)" by (rule sys_movesD(4))
  have q: "numbered (received SAMPLES ?tr)" if "numbered (sent SAMPLES ?tr)"
    using mqx.app_run_sys(5) [OF app_run.app_call [OF app_call.hyps] st, of SAMPLES] that numbered_append by metis
  from app_call.IH show ?case
  proof (rule mq_good_cases [where u = u])
    fix x assume "u = p" "pc A u = Produce x"
    then show ?case using app_call.hyps(3) app_call.IH ok assms(4)
      by (cases x) (auto simp: mq_good_def sent_snoc put_in_def taken_out_def numbered_snoc split: if_splits)
  next
    fix x assume u: "u = c" "pc A u = Consume x"
    show ?case
    proof (cases x)
      case (CReceive y)
      then have e: "e = Receive SAMPLES" using u app_call.hyps(3) by simp
      then have s: "sent SAMPLES ?tr = sent SAMPLES tr" by (simp add: sent_snoc put_in_def)
      show ?thesis
      proof (cases "contents (mqs (sys A) SAMPLES)")
        case Nil
        then show ?thesis using s e ok u app_call.IH assms(4) by (auto simp: mq_good_def sent_snoc taken_out_def)
      next
        case (Cons v vs)
        then have "ok = Got v" "received SAMPLES ?tr = received SAMPLES tr @ [v]" using ok e by (simp_all add: sent_snoc taken_out_def)
        then show ?thesis using s e u app_call.IH app_call.hyps(3) assms(4) q CReceive by (auto simp: mq_good_def numbered_snoc)
      qed
    qed (use u app_call.hyps(3) app_call.IH ok assms(4) in \<open>auto simp: mq_good_def sent_snoc put_in_def taken_out_def\<close>)
  next
    assume "u \<notin> {p, c}" "pc A u = CpuIdle"
    then show ?case using app_call.hyps(3) by simp
  qed
next
  case (app_do tr A u f l)
  from app_do.IH show ?case
  proof (rule mq_good_cases [where u = u])
    fix x assume "u = p" "pc A u = Produce x"
    then show ?case using app_do assms(4) by (cases x) (auto simp: mq_good_def)
  next
    fix x assume "u = c" "pc A u = Consume x"
    then show ?case using app_do assms(4) by (cases x) (auto simp: mq_good_def)
  next
    assume "u \<notin> {p, c}" "pc A u = CpuIdle"
    then show ?case using app_do by (auto simp: mq_good_def)
  qed
next
  case (app_cycles tr A u k x)
  from app_cycles.IH show ?case
  proof (rule mq_good_cases [where u = u])
    fix x assume "u = p" "pc A u = Produce x"
    then show ?case using app_cycles assms(4) by (cases x) (auto simp: mq_good_def)
  next
    fix x assume "u = c" "pc A u = Consume x"
    then show ?case using app_cycles assms(4) by (cases x) (auto simp: mq_good_def)
  next
    assume "u \<notin> {p, c}" "pc A u = CpuIdle"
    then show ?case using app_cycles by (auto simp: mq_good_def)
  qed
qed

section \<open>Its main function\<close>

text \<open>The measured queue has one slot, is empty between the rounds, and nobody waits at it.\<close>

definition profile_ok :: "mq_profile \<Rightarrow> bool" where
  "profile_ok f \<longleftrightarrow> (\<exists>x. PROFILE_QUEUE f = \<lparr>capacity = 1, slots = [x], q_head = 0, q_len = 0, senders = [], receivers = []\<rparr>)"

lemma profile_round_ok:
  assumes "profile_ok f"
  shows "\<exists>f'. profile_round c n (f, s) = Some (f', s) \<and> profile_ok f'
    \<and> PROFILE_DWT_AVAILABLE f' = PROFILE_DWT_AVAILABLE f \<and> PROFILE_PAIR_MIN_CYCLES f' \<le> PROFILE_PAIR_MAX_CYCLES f'"
  using assms
  by (cases c) (auto simp: profile_ok_def profile_round_def try_send_def try_receive_def checked_add_def checked_sub_def require_def
      pop_waiting_thread_def ol_pop_def mq_wake_def Let_def min_le_iff_disj le_max_iff_disj)

lemma profile_rounds_ok:
  assumes "profile_ok f"
  shows "\<exists>f'. profile_rounds c ns (f, s) = Some (f', s) \<and> profile_ok f' \<and> PROFILE_DWT_AVAILABLE f' = PROFILE_DWT_AVAILABLE f
    \<and> (ns \<noteq> [] \<longrightarrow> PROFILE_PAIR_MIN_CYCLES f' \<le> PROFILE_PAIR_MAX_CYCLES f')"
  using assms
proof (induction ns arbitrary: f)
  case (Cons n ns)
  from profile_round_ok [OF Cons.prems] obtain f1 where
    f1: "profile_round (c n) (of_nat n) (f, s) = Some (f1, s)" "profile_ok f1" "PROFILE_DWT_AVAILABLE f1 = PROFILE_DWT_AVAILABLE f"
      "PROFILE_PAIR_MIN_CYCLES f1 \<le> PROFILE_PAIR_MAX_CYCLES f1" by blast
  from Cons.IH [OF f1(2)] show ?case using f1 by (cases ns) auto
qed simp

definition mq_requests :: "mq_layout \<Rightarrow> spawn_request list" where
  "mq_requests L =
     [\<lparr>req_thread = PRODUCER_THREAD L, req_stack = PRODUCER_STACK L, req_words = STACK_WORDS,
       req_start = ThreadStart_new ''producer'' (produce_fn L), req_args = CfsArgs 1\<rparr>,
      \<lparr>req_thread = CONSUMER_THREAD L, req_stack = CONSUMER_STACK L, req_words = STACK_WORDS,
       req_start = ThreadStart_new ''consumer'' (consume_fn L), req_args = RtArgs (CONSUMER_TIMER L)\<rparr>]"

text \<open>The statics as the program is loaded: storage of its own for every thread, and the timer of the consumer.\<close>

definition mq_loaded :: "mq_layout \<Rightarrow> kstate \<Rightarrow> bool" where
  "mq_loaded L s \<longleftrightarrow>
     loaded s \<and> distinct [0, PRODUCER_THREAD L, CONSUMER_THREAD L, IDLE_THREAD L]
     \<and> stack_ok (PRODUCER_STACK L) \<and> stack_ok (CONSUMER_STACK L) \<and> stack_ok (IDLE_STACK L)
     \<and> distinct [0, CFS_KTIMER s, WAIT_KTIMER s, CONSUMER_TIMER L] \<and> ktimers s (CONSUMER_TIMER L) = consumer_timer_init"

lemma mq_main_ok:
  assumes "mq_loaded L s"
  obtains s' f' m' where "mq_main True dwt c L (s, m) = Some (f', s', m')" "run_inv s'" "CURRENT_THREAD_CTX s' = IDLE_THREAD L"
    "runnable_set s' = {PRODUCER_THREAD L}" "CONSUMER_TIMER L \<in> queued s'" "dwt \<longrightarrow> PROFILE_PAIR_MIN_CYCLES f' \<le> PROFILE_PAIR_MAX_CYCLES f'"
proof -
  note l = assms [unfolded mq_loaded_def]
  let ?rs = "mq_requests L"
  have v: "valid_requests ?rs s"
    using l stack_ok_spawn by (simp add: valid_requests_def mq_requests_def req_timers_def)
  have r: "cfs_requests ?rs = {PRODUCER_THREAD L}" "set (req_timers ?rs) = {CONSUMER_TIMER L}" "IDLE_THREAD L \<notin> req_thread ` set ?rs"
    using l by (auto simp: mq_requests_def cfs_requests_def req_timers_def)
  obtain s1 s2 m2 s3 s' m' where
    s: "init_scheduler True s = Some s1" "spawn_all ?rs (s1, m) = Some (s2, m2)" "configure_systick s2 = Some s3"
      "start_idle L (s3, m2) = Some (s', m')" "run_inv s'" "CURRENT_THREAD_CTX s' = IDLE_THREAD L"
      "runnable_set s' = cfs_requests ?rs" "queued s' = set (req_timers ?rs) \<union> {CFS_KTIMER s} \<union> {WAIT_KTIMER s}"
    by (rule example_runs [of s ?rs True L m]) (use l v r in auto)
  let ?f = "mq_profile_init\<lparr>PROFILE_DWT_AVAILABLE := 1\<rparr>"
  have f: "profile_ok ?f" by (simp add: profile_ok_def mq_profile_init_def)
  obtain f' where f': "(if dwt then profile_rounds c [0..<256] (?f, s1) else Some (mq_profile_init, s1)) = Some (f', s1)"
    "dwt \<longrightarrow> PROFILE_PAIR_MIN_CYCLES f' \<le> PROFILE_PAIR_MAX_CYCLES f'"
    using profile_rounds_ok [OF f, of c "[0..<256]" s1] by (cases dwt) auto
  have "mq_main True dwt c L (s, m) = Some (f', s', m')"
    using s(1-4) f'(1)
    by (auto simp: mq_main_def require_def mq_requests_def spawn_defs split: bind_splits)
  then show ?thesis using that s(5-8) r(1,2) f'(2) by simp
qed

section \<open>The whole program\<close>

text \<open>Only the consumer receives and only the producer sends, so whoever waits has nothing to take.\<close>

lemma covered_single:
  assumes "covered R ws n" "R \<subseteq> {u}" "ws \<noteq> []"
  shows "n = 0"
proof -
  have "R - set ws = {}" using assms by (cases ws) (auto simp: covered_def)
  then have "card (R - set ws) = 0" by (metis card.empty)
  then show ?thesis using assms(1,3) by (simp add: covered_def)
qed

lemma mq_callers:
  assumes "mq_good p c tr A" "mq_program (pc A u) = Call e k"
  shows "e = Receive SAMPLES \<Longrightarrow> u = c" "e = Send SAMPLES v \<Longrightarrow> u = p"
proof -
  from assms(1) have "(e = Receive SAMPLES \<longrightarrow> u = c) \<and> (e = Send SAMPLES v \<longrightarrow> u = p)"
  proof (rule mq_good_cases [where u = u])
    fix l assume "u = p" "pc A u = Produce l"
    then show ?thesis using assms(2) by (cases l) auto
  next
    fix l assume "u = c" "pc A u = Consume l"
    then show ?thesis using assms(2) by (cases l) auto
  qed (use assms(2) in simp)
  then show "e = Receive SAMPLES \<Longrightarrow> u = c" "e = Send SAMPLES v \<Longrightarrow> u = p" by blast+
qed

lemma mq_waits:
  assumes r: "app_run mq_program (mq_start p c S) tr A" and S: "run_inv (kern S)" "new_objects S" and d: "p \<noteq> c"
  shows "receivers (mqs (sys A) SAMPLES) \<noteq> [] \<Longrightarrow> contents (mqs (sys A) SAMPLES) = []"
    "senders (mqs (sys A) SAMPLES) \<noteq> [] \<Longrightarrow> length (contents (mqs (sys A) SAMPLES)) = unat (capacity (mqs S SAMPLES))"
proof -
  note st = mq_starts [OF S, of p c] and g = mq_run_good [OF r S d]
  note a = mqx.app_run_sys [OF r st]
  have s0: "sys (mq_start p c S) = S" by (simp add: mq_start_def)
  have w: "receivers (mqs S i) = [] \<and> senders (mqs S i) = []" for i
    using new_objects_waits [OF S(2), of "Rcv i"] new_objects_waits [OF S(2), of "Snd i"] by simp
  note c = call_run_covered [OF a(2) [unfolded s0] mqx.starts_inv [OF st, unfolded s0] w, of SAMPLES]
  have "u = c" if "owed tr u = Some (Receive SAMPLES)" for u
    using mq_callers(1) [OF g] a(6) [OF that] by blast
  then have R: "receiving tr SAMPLES \<subseteq> {c}" by (auto simp: receiving_def)
  have "u = p" if "owed tr u = Some (Send SAMPLES v)" for u v
    using mq_callers(2) [OF g] a(6) [OF that] by blast
  then have T: "sending tr SAMPLES \<subseteq> {p}" by (auto simp: sending_def)
  show "contents (mqs (sys A) SAMPLES) = []" if "receivers (mqs (sys A) SAMPLES) \<noteq> []"
    using covered_single [OF conjunct1 [OF c] R that] by simp
  have "ring_ok (mqs (sys A) SAMPLES)" using sys_invD(10) [OF a(3), of SAMPLES] by (simp add: mq_ok_def)
  then show "length (contents (mqs (sys A) SAMPLES)) = unat (capacity (mqs S SAMPLES))" if "senders (mqs (sys A) SAMPLES) \<noteq> []"
    using covered_single [OF conjunct2 [OF c] T that] contents_bound [of "mqs (sys A) SAMPLES"]
      sys_run_inv [OF a(1) [unfolded s0] mqx.starts_inv [OF st, unfolded s0]] by simp
qed

text \<open>
  C7: the example program \<^verbatim>\<open>message_queue.rs\<close> from reset on: its main function completes for every layout of its
  statics and every value of the cycle counter, and in every execution that follows, under any preemption, the
  samples arrive complete and in order: neither error counter ever leaves zero, the received sequence numbers
  are 0, 1, 2 and so on, the producer is at most four samples ahead, both counters of successes are exact up to the
  current call, the consumer only sleeps when the queue is empty and the producer only when it is full.
\<close>

theorem samples_arrive_in_order:
  assumes "mq_loaded L s"
  shows "\<exists>f' s' m'. mq_main True dwt cyc L (s, m) = Some (f', s', m') \<and> CURRENT_THREAD_CTX s' = IDLE_THREAD L
    \<and> runnable_set s' = {PRODUCER_THREAD L} \<and> CONSUMER_TIMER L \<in> queued s'
    \<and> (\<forall>S tr A. kern S = s' \<and> new_objects S \<and> capacity (mqs S SAMPLES) = 4
        \<and> app_run mq_program (mq_start (PRODUCER_THREAD L) (CONSUMER_THREAD L) S) tr A \<longrightarrow>
        SEQUENCE_ERRORS (statics A) = 0 \<and> MESSAGE_ERRORS (statics A) = 0
        \<and> map sequence (received SAMPLES tr) = map of_nat [0..<length (received SAMPLES tr)]
        \<and> length (received SAMPLES tr) \<le> length (sent SAMPLES tr) \<and> length (sent SAMPLES tr) \<le> length (received SAMPLES tr) + 4
        \<and> of_nat (length (sent SAMPLES tr)) \<in> {PRODUCED (statics A), PRODUCED (statics A) + 1}
        \<and> of_nat (length (received SAMPLES tr)) \<in> {CONSUMED (statics A), CONSUMED (statics A) + 1}
        \<and> (receivers (mqs (sys A) SAMPLES) \<noteq> [] \<longrightarrow> contents (mqs (sys A) SAMPLES) = [])
        \<and> (senders (mqs (sys A) SAMPLES) \<noteq> [] \<longrightarrow> length (contents (mqs (sys A) SAMPLES)) = 4))"
proof -
  obtain s' f' m' where s': "mq_main True dwt cyc L (s, m) = Some (f', s', m')" "run_inv s'" "CURRENT_THREAD_CTX s' = IDLE_THREAD L"
    "runnable_set s' = {PRODUCER_THREAD L}" "CONSUMER_TIMER L \<in> queued s'" by (rule mq_main_ok [OF assms])
  let ?p = "PRODUCER_THREAD L" and ?c = "CONSUMER_THREAD L"
  have d: "?p \<noteq> ?c" using assms by (simp add: mq_loaded_def)
  have "SEQUENCE_ERRORS (statics A) = 0 \<and> MESSAGE_ERRORS (statics A) = 0
      \<and> map sequence (received SAMPLES tr) = map of_nat [0..<length (received SAMPLES tr)]
      \<and> length (received SAMPLES tr) \<le> length (sent SAMPLES tr) \<and> length (sent SAMPLES tr) \<le> length (received SAMPLES tr) + 4
      \<and> of_nat (length (sent SAMPLES tr)) \<in> {PRODUCED (statics A), PRODUCED (statics A) + 1}
      \<and> of_nat (length (received SAMPLES tr)) \<in> {CONSUMED (statics A), CONSUMED (statics A) + 1}
      \<and> (receivers (mqs (sys A) SAMPLES) \<noteq> [] \<longrightarrow> contents (mqs (sys A) SAMPLES) = [])
      \<and> (senders (mqs (sys A) SAMPLES) \<noteq> [] \<longrightarrow> length (contents (mqs (sys A) SAMPLES)) = 4)"
    if k: "kern S = s'" "new_objects S" "capacity (mqs S SAMPLES) = 4" and r: "app_run mq_program (mq_start ?p ?c S) tr A" for S tr A
  proof -
    have i: "run_inv (kern S)" using s'(2) k(1) by simp
    note a = mqx.app_run_sys [OF r mq_starts [OF i k(2)]] and g = mq_run_good [OF r i k(2) d, unfolded mq_good_def]
    have "capacity (mqs (sys A) SAMPLES) = 4"
      using sys_run_inv [OF a(1) mqx.starts_inv [OF mq_starts [OF i k(2)]]] k(3) by (simp add: mq_start_def)
    then have "length (contents (mqs (sys A) SAMPLES)) \<le> 4"
      using sys_invD(10) [OF a(3), of SAMPLES] contents_bound [of "mqs (sys A) SAMPLES"] by (simp add: mq_ok_def)
    moreover have n: "numbered (received SAMPLES tr)" using g a(5) [of SAMPLES] numbered_append by metis
    moreover have "length (sent SAMPLES tr) = length (received SAMPLES tr) + length (contents (mqs (sys A) SAMPLES))"
      using arg_cong [OF a(5) [of SAMPLES], of length] by simp
    moreover obtain l where "produce_ok l (of_nat (length (sent SAMPLES tr))) (PRODUCED (statics A))" using g by blast
    then have "of_nat (length (sent SAMPLES tr)) \<in> {PRODUCED (statics A), PRODUCED (statics A) + 1}" by (cases l) auto
    moreover obtain l where "consume_ok l (of_nat (length (received SAMPLES tr))) (CONSUMED (statics A))" using g by blast
    then have "of_nat (length (received SAMPLES tr)) \<in> {CONSUMED (statics A), CONSUMED (statics A) + 1}" by (cases l) auto
    ultimately show ?thesis using g mq_waits [OF r i k(2) d] k(3) unfolding numbered_def by simp
  qed
  then show ?thesis using s' by blast
qed

text \<open>A layout of the statics.\<close>

definition mq_sample_layout :: mq_layout where
  "mq_sample_layout =
     \<lparr>IDLE_STACK = 8000, IDLE_THREAD = 1000, cpu_idle_fn = 64, PRODUCER_STACK = 12000, PRODUCER_THREAD = 2000,
      CONSUMER_STACK = 16000, CONSUMER_THREAD = 3000, CONSUMER_TIMER = 500, produce_fn = 68, consume_fn = 72\<rparr>"

definition mq_sample_loaded :: kstate where
  "mq_sample_loaded = sample_loaded\<lparr>ktimers := (ktimers sample_loaded)(500 := consumer_timer_init)\<rparr>"

lemma mq_sample_loaded: "mq_loaded mq_sample_layout mq_sample_loaded"
proof -
  have c: "CFS_KTIMER sample_loaded = 100" "WAIT_KTIMER sample_loaded = 104" by (simp_all add: sample_loaded_def)
  have "loaded mq_sample_loaded" using sample_loaded by (simp add: loaded_def mq_sample_loaded_def)
  then show ?thesis
    by (simp add: mq_loaded_def mq_sample_layout_def stack_ok_def)
      (simp add: mq_sample_loaded_def c)
qed

theorem samples_arrive_in_order_witness:
  "\<exists>f' s' m' S. mq_main True True (\<lambda>n. (of_nat n, of_nat n + 2, 7, 31)) mq_sample_layout (mq_sample_loaded, \<lambda>_. 0) = Some (f', s', m')
    \<and> kern S = s' \<and> new_objects S \<and> app_run mq_program (mq_start 2000 3000 S) [] (mq_start 2000 3000 S)
    \<and> SEQUENCE_ERRORS (statics (mq_start 2000 3000 S)) = 0"
proof -
  have L: "PRODUCER_THREAD mq_sample_layout = 2000" "CONSUMER_THREAD mq_sample_layout = 3000" by (simp_all add: mq_sample_layout_def)
  from samples_arrive_in_order [OF mq_sample_loaded, of True "\<lambda>n. (of_nat n, of_nat n + 2, 7, 31)" "\<lambda>_. 0", unfolded L]
  obtain f' s' m' where
    m: "mq_main True True (\<lambda>n. (of_nat n, of_nat n + 2, 7, 31)) mq_sample_layout (mq_sample_loaded, \<lambda>_. 0) = Some (f', s', m')"
    and e: "\<And>S tr A. kern S = s' \<Longrightarrow> new_objects S \<Longrightarrow> capacity (mqs S SAMPLES) = 4 \<Longrightarrow> app_run mq_program (mq_start 2000 3000 S) tr A \<Longrightarrow>
      SEQUENCE_ERRORS (statics A) = 0" by blast
  define S where "S = (new_system \<lparr>sequence = 0, produced_at_cycle = 0\<rparr>)\<lparr>kern := s'\<rparr>"
  have S: "kern S = s'" "new_objects S" "capacity (mqs S SAMPLES) = 4"
    using new_system_objects [of "\<lparr>sequence = 0, produced_at_cycle = 0\<rparr>"] by (simp_all add: S_def new_objects_def mutex_def)
  then show ?thesis using m e [OF S app_init] app_init by blast
qed

end
