(* ===== verification/MtxExample.thy ===== *)
theory MtxExample
  imports ExCommon
begin

text \<open>
  The example program \<^verbatim>\<open>examples/sync_mutex.rs\<close>: two CFS threads increment a counter behind a mutex. No update
  is lost, although the increment is a read and a write between which the thread may be preempted.
\<close>

section \<open>The program\<close>

record mtx_statics =
  OWNER_UPDATES :: u32
  CONTENDER_UPDATES :: u32
  LOCK_ERRORS :: u32

definition mtx_statics_init :: mtx_statics where
  "mtx_statics_init = \<lparr>OWNER_UPDATES = 0, CONTENDER_UPDATES = 0, LOCK_ERRORS = 0\<rparr>"

text \<open>The mutex \<open>SHARED_COUNTER\<close>.\<close>

abbreviation (input) SHARED_COUNTER :: nat where
  "SHARED_COUNTER \<equiv> 0"

datatype owner_at = OLock | ORead | OWrite u32 | OCount | ODrop | OSleep | OError | OYieldError | OYield | OPanic

datatype contender_at = CLock | CRead | CWrite u32 | CCount | CDrop | CSpin nat | CError | CYield | CPanic

text \<open>
  The statement \<open>*counter += 1\<close> reads the value and writes the incremented one; on overflow it panics. The
  panic handler never returns, and the guard is not dropped.
\<close>

primrec mutex_owner :: "owner_at \<Rightarrow> (owner_at, mtx_statics, u32) stmt" where
  "mutex_owner OLock = Call (Lock SHARED_COUNTER) (\<lambda>r. if r = Done then ORead else OError)"
| "mutex_owner ORead = Call (Read SHARED_COUNTER) (\<lambda>r. case r of Val v \<Rightarrow> case_option OPanic OWrite (checked_add v 1) | _ \<Rightarrow> OPanic)"
| "mutex_owner (OWrite v) = Call (Write SHARED_COUNTER v) (\<lambda>_. OCount)"
| "mutex_owner OCount = Do (OWNER_UPDATES_update (\<lambda>x. x + 1)) ODrop"
| "mutex_owner ODrop = Call (Unlock SHARED_COUNTER) (\<lambda>_. OSleep)"
| "mutex_owner OSleep = Call (KernelEvent (Sleep 25)) (\<lambda>_. OYield)"
| "mutex_owner OError = Do (LOCK_ERRORS_update (\<lambda>x. x + 1)) OYieldError"
| "mutex_owner OYieldError = Call (KernelEvent YieldThread) (\<lambda>_. OYield)"
| "mutex_owner OYield = Call (KernelEvent YieldThread) (\<lambda>_. OLock)"
| "mutex_owner OPanic = idle_forever OPanic"

primrec mutex_contender :: "contender_at \<Rightarrow> (contender_at, mtx_statics, u32) stmt" where
  "mutex_contender CLock = Call (Lock SHARED_COUNTER) (\<lambda>r. if r = Done then CRead else CError)"
| "mutex_contender CRead = Call (Read SHARED_COUNTER) (\<lambda>r. case r of Val v \<Rightarrow> case_option CPanic CWrite (checked_add v 1) | _ \<Rightarrow> CPanic)"
| "mutex_contender (CWrite v) = Call (Write SHARED_COUNTER v) (\<lambda>_. CCount)"
| "mutex_contender CCount = Do (CONTENDER_UPDATES_update (\<lambda>x. x + 1)) CDrop"
| "mutex_contender CDrop = Call (Unlock SHARED_COUNTER) (\<lambda>_. CSpin 2000)"
| "mutex_contender (CSpin n) = spin n CSpin CYield"
| "mutex_contender CError = Do (LOCK_ERRORS_update (\<lambda>x. x + 1)) CYield"
| "mutex_contender CYield = Call (KernelEvent YieldThread) (\<lambda>_. CLock)"
| "mutex_contender CPanic = idle_forever CPanic"

record mtx_layout = idle_layout +
  OWNER_STACK :: addr
  OWNER_THREAD :: addr
  CONTENDER_STACK :: addr
  CONTENDER_THREAD :: addr
  mutex_owner_fn :: addr
  mutex_contender_fn :: addr

text \<open>\<open>main\<close>; \<open>taken\<close> says whether the peripherals could be taken.\<close>

definition mtx_main :: "bool \<Rightarrow> mtx_layout \<Rightarrow> kstate \<times> mem \<Rightarrow> (kstate \<times> mem) option" where
  "mtx_main taken L = (\<lambda>(s, m). do {
     s \<leftarrow> init_scheduler True s;
     (_, s, m) \<leftarrow> CfsThreadBuilder_spawn (OWNER_THREAD L) (OWNER_STACK L) STACK_WORDS
        (CfsThreadBuilder_new ''mutex_owner'' (mutex_owner_fn L) 1) (s, m);
     (_, s, m) \<leftarrow> CfsThreadBuilder_spawn (CONTENDER_THREAD L) (CONTENDER_STACK L) STACK_WORDS
        (CfsThreadBuilder_new ''mutex_contender'' (mutex_contender_fn L) 1) (s, m);
     require taken;
     s \<leftarrow> configure_systick s;
     start_idle L (s, m)
   })"

datatype mtx_at = Owner owner_at | Contender contender_at | CpuIdle

primrec mtx_program :: "mtx_at \<Rightarrow> (mtx_at, mtx_statics, u32) stmt" where
  "mtx_program (Owner l) = map_stmt Owner (mutex_owner l)"
| "mtx_program (Contender l) = map_stmt Contender (mutex_contender l)"
| "mtx_program CpuIdle = idle_forever CpuIdle"

definition mtx_start :: "addr \<Rightarrow> addr \<Rightarrow> u32 system \<Rightarrow> (mtx_at, mtx_statics, u32) app" where
  "mtx_start w c S =
     \<lparr>sys = S, pc = (\<lambda>_. CpuIdle)(w := Owner OLock, c := Contender CLock), statics = mtx_statics_init\<rparr>"

section \<open>Guards\<close>

text \<open>
  What a location says about the critical section: outside it, between a lock that succeeded (perhaps by a hand-over
  that is still to come) and the read, about to write, about to count the update, about to leave, after a failed
  lock, and halted inside by a panic.
\<close>

datatype phase = Outside | Entered | Writing u32 | Counting | Leaving | Failed | Halted

primrec owner_phase :: "owner_at \<Rightarrow> phase" where
  "owner_phase OLock = Outside" | "owner_phase ORead = Entered" | "owner_phase (OWrite v) = Writing v" | "owner_phase OCount = Counting"
| "owner_phase ODrop = Leaving" | "owner_phase OSleep = Outside" | "owner_phase OError = Failed" | "owner_phase OYieldError = Failed"
| "owner_phase OYield = Outside" | "owner_phase OPanic = Halted"

primrec contender_phase :: "contender_at \<Rightarrow> phase" where
  "contender_phase CLock = Outside" | "contender_phase CRead = Entered" | "contender_phase (CWrite v) = Writing v"
| "contender_phase CCount = Counting" | "contender_phase CDrop = Leaving" | "contender_phase (CSpin n) = Outside"
| "contender_phase CError = Failed" | "contender_phase CYield = Outside" | "contender_phase CPanic = Halted"

primrec mtx_phase :: "mtx_at \<Rightarrow> phase" where
  "mtx_phase (Owner l) = owner_phase l" | "mtx_phase (Contender l) = contender_phase l" | "mtx_phase CpuIdle = Outside"

definition mtx_holds :: "mtx_at \<Rightarrow> nat set" where
  "mtx_holds l = (if mtx_phase l \<in> {Outside, Failed} then {} else {SHARED_COUNTER})"

text \<open>The statements as moves between the phases.\<close>

definition phase_call :: "phase \<Rightarrow> u32 sys_event \<Rightarrow> u32 outcome \<Rightarrow> phase \<Rightarrow> bool" where
  "phase_call ph e ok ph' \<longleftrightarrow>
     ph = Outside \<and> e = Lock SHARED_COUNTER \<and> ph' = (if ok = Done then Entered else Failed)
     \<or> ph = Entered \<and> e = Read SHARED_COUNTER \<and> (\<forall>v. ok = Val v \<longrightarrow> ph' = case_option Halted Writing (checked_add v 1))
        \<and> ph' \<notin> {Outside, Failed}
     \<or> (\<exists>w. ph = Writing w \<and> e = Write SHARED_COUNTER w \<and> ph' = Counting)
     \<or> ph = Leaving \<and> e = Unlock SHARED_COUNTER \<and> ph' = Outside
     \<or> ph \<in> {Outside, Failed} \<and> (\<exists>d. e = KernelEvent d \<and> d \<noteq> event.Tick) \<and> ph' = Outside"

lemma mtx_calls:
  assumes "mtx_program l = Call e k"
  shows "phase_call (mtx_phase l) e ok (mtx_phase (k ok))"
proof (cases l)
  case (Owner x)
  then show ?thesis using assms by (cases x) (auto simp: phase_call_def split: outcome.splits option.splits)
next
  case (Contender x)
  then show ?thesis using assms by (cases x) (auto simp: phase_call_def split: outcome.splits option.splits)
qed (use assms in simp)

lemma mtx_locals:
  assumes "mtx_program l = Do f l'"
  shows "(\<exists>x x'. l = Owner x \<and> l' = Owner x' \<and> owner_phase x = Counting \<and> f = OWNER_UPDATES_update (\<lambda>x. x + 1) \<and> owner_phase x' = Leaving)
    \<or> (\<exists>x x'. l = Contender x \<and> l' = Contender x' \<and> contender_phase x = Counting \<and> f = CONTENDER_UPDATES_update (\<lambda>x. x + 1) \<and> contender_phase x' = Leaving)
    \<or> f = id \<and> mtx_phase l' = mtx_phase l \<or> mtx_phase l = Failed \<and> mtx_phase l' \<in> {Outside, Failed}"
proof (cases l)
  case (Owner x)
  then show ?thesis using assms by (cases x) auto
next
  case (Contender x)
  then show ?thesis using assms by (cases x) (auto split: nat.splits)
qed (use assms in simp)

lemma mtx_no_cycles: "mtx_program l \<noteq> Cycles k"
proof (cases l)
  case (Owner x)
  then show ?thesis by (cases x) auto
next
  case (Contender x)
  then show ?thesis by (cases x) auto
qed simp

interpretation mtxx: guarded mtx_program mtx_holds
proof
  show "mtx_program l = Call e k \<Longrightarrow> \<not> by_hardware e" for l e k using mtx_calls [of l e k Done] by (auto simp: phase_call_def)
  show "mtx_program l = Call e k \<Longrightarrow> uses_guard e i \<Longrightarrow> i \<in> mtx_holds l" for l e k i
    using mtx_calls [of l e k Done] by (auto simp: phase_call_def uses_guard_def mtx_holds_def)
  show "has (mtx_holds (k ok)) i = has (mtx_holds l) i + guard_moves e ok u i u"
    if "mtx_program l = Call e k" "ok = expected e S" "ok \<noteq> Retries" for l e k ok S i u
    using mtx_calls [OF that(1), of ok] that(2,3) by (auto simp: phase_call_def has_def mtx_holds_def guard_moves_def split: if_splits)
  show "mtx_program l = Do f l' \<Longrightarrow> mtx_holds l' = mtx_holds l" for l f l' using mtx_locals [of l f l'] by (auto simp: mtx_holds_def)
  show "mtx_program l = Cycles k' \<Longrightarrow> mtx_holds (k' c) = mtx_holds l" for l k' c using mtx_no_cycles by blast
qed

section \<open>The invariant\<close>

abbreviation (input) counter :: "u32 system \<Rightarrow> nat" where
  "counter S \<equiv> unat (cells S SHARED_COUNTER)"

primrec phase_ok :: "addr \<Rightarrow> u32 system \<Rightarrow> phase \<Rightarrow> bool" where
  "phase_ok u S Outside \<longleftrightarrow> True"
| "phase_ok u S Entered \<longleftrightarrow> True"
| "phase_ok u S (Writing w) \<longleftrightarrow> owner (mtxs S SHARED_COUNTER) = u \<and> unat w = Suc (counter S)"
| "phase_ok u S Counting \<longleftrightarrow> owner (mtxs S SHARED_COUNTER) = u"
| "phase_ok u S Leaving \<longleftrightarrow> owner (mtxs S SHARED_COUNTER) = u"
| "phase_ok u S Failed \<longleftrightarrow> False"
| "phase_ok u S Halted \<longleftrightarrow> True"

text \<open>Updates that are done and not counted.\<close>

definition uncounted :: "phase \<Rightarrow> nat" where
  "uncounted ph = (if ph = Counting then 1 else 0)"

lemma count_up: "unat x < 2 ^ 32 - 1 \<Longrightarrow> unat (x + 1 :: u32) = Suc (unat x)"
  by (simp add: unat_word_ariths)

lemma incremented:
  fixes v w :: u32
  assumes "checked_add v 1 = Some w"
  shows "unat w = Suc (unat v)"
proof -
  have a: "v \<le> - 1 - 1" "w = v + 1" using assms by (auto simp: checked_add_def split: if_splits)
  have "unat (- 1 - 1 :: u32) = 2 ^ 32 - 1 - 1" by (simp only: unat_sub_if') (simp add: unat_max_word)
  then have "unat v < 2 ^ 32 - 1" using a(1) unfolding word_le_nat_alt by simp
  then show ?thesis using a(2) count_up by simp
qed

lemma phase_step:
  assumes c: "phase_call ph e ok ph'" and m: "sys_moves e ok S S'" and u: "u = running S" "u \<noteq> 0"
    and g: "uses_guard e SHARED_COUNTER \<Longrightarrow> owner (mtxs S SHARED_COUNTER) = u"
    and n: "ph = Outside \<Longrightarrow> owner (mtxs S SHARED_COUNTER) \<noteq> u" and p: "phase_ok u S ph"
  shows "phase_ok u S' ph'" "counter S' + uncounted ph = counter S + uncounted ph'" "ok \<noteq> Retries"
proof -
  note d = sys_movesD [OF m]
  have ow: "owner (mtxs S' SHARED_COUNTER) = owner (mtxs S SHARED_COUNTER)" if "owner (mtxs S SHARED_COUNTER) \<noteq> 0" "e \<noteq> Unlock SHARED_COUNTER"
    using d(6) [of SHARED_COUNTER] that by blast
  have ch: "unat w = Suc (unat v)" if "checked_add v 1 = Some w" for v w :: u32 using incremented [OF that] .
  have x: "ok = expected e S" by (rule d(4))
  show "phase_ok u S' ph'"
    using c unfolding phase_call_def
  proof (elim disjE conjE exE)
    assume e: "ph = Entered" "e = Read SHARED_COUNTER" "\<forall>v. ok = Val v \<longrightarrow> ph' = case_option Halted Writing (checked_add v 1)"
    have "owner (mtxs S SHARED_COUNTER) = u" using g e(2) by (simp add: uses_guard_def)
    moreover have "cells S' = cells S" using d(3) e(2) by (simp add: written_def)
    ultimately show ?thesis using e x ow u(2) ch by (auto split: option.splits)
  qed (use x n p ow u g in \<open>auto simp: uses_guard_def\<close>)
  show "counter S' + uncounted ph = counter S + uncounted ph'"
    using c d(3) p x unfolding phase_call_def
    by (elim disjE conjE exE) (auto simp: written_def uncounted_def split: option.splits)
  show "ok \<noteq> Retries" using c x unfolding phase_call_def by (elim disjE conjE exE) auto
qed

lemma phase_other:
  assumes m: "sys_moves e ok S S'" and u: "u \<noteq> 0" and g: "uses_guard e SHARED_COUNTER \<Longrightarrow> owner (mtxs S SHARED_COUNTER) \<noteq> u"
    and p: "phase_ok u S ph"
  shows "phase_ok u S' ph"
proof -
  note d = sys_movesD [OF m]
  have "owner (mtxs S' SHARED_COUNTER) = u \<and> cells S' SHARED_COUNTER = cells S SHARED_COUNTER" if "owner (mtxs S SHARED_COUNTER) = u"
  proof -
    have "\<not> uses_guard e SHARED_COUNTER" using g that by auto
    then have "e \<noteq> Unlock SHARED_COUNTER" "\<And>v. e \<noteq> Write SHARED_COUNTER v" by (simp_all add: uses_guard_def)
    then show ?thesis using d(3) d(6) [of SHARED_COUNTER] that u by (auto simp: written_def split: sys_event.splits)
  qed
  then show ?thesis using p by (cases ph) auto
qed

definition mtx_good :: "addr \<Rightarrow> addr \<Rightarrow> (mtx_at, mtx_statics, u32) app \<Rightarrow> bool" where
  "mtx_good w c A \<longleftrightarrow>
     (\<exists>x. pc A w = Owner x) \<and> (\<exists>y. pc A c = Contender y) \<and> (\<forall>u. u \<notin> {w, c} \<longrightarrow> pc A u = CpuIdle)
     \<and> phase_ok w (sys A) (mtx_phase (pc A w)) \<and> phase_ok c (sys A) (mtx_phase (pc A c))
     \<and> counter (sys A) = unat (OWNER_UPDATES (statics A)) + unat (CONTENDER_UPDATES (statics A))
         + uncounted (mtx_phase (pc A w)) + uncounted (mtx_phase (pc A c))
     \<and> LOCK_ERRORS (statics A) = 0"

lemma mtx_stays:
  "mtx_program (Owner x) = Call e k \<Longrightarrow> \<exists>x'. k ok = Owner x'" "mtx_program (Contender y) = Call e k \<Longrightarrow> \<exists>y'. k ok = Contender y'"
  "mtx_program (Owner x) = Do f l \<Longrightarrow> \<exists>x'. l = Owner x'" "mtx_program (Contender y) = Do f l \<Longrightarrow> \<exists>y'. l = Contender y'"
  by (cases "mutex_owner x"; auto) (cases "mutex_contender y"; auto; fail | cases "mutex_owner x"; auto)+

lemma mtx_starts:
  assumes "run_inv (kern S)" "new_objects S"
  shows "mtxx.starts (mtx_start w c S)"
  using assms by (simp add: mtxx.starts_def mtx_start_def mtx_holds_def)

lemma counter_bound: "counter S < 2 ^ 32"
  using unat_bound [of "cells S SHARED_COUNTER"] by simp

lemma mtx_run_good:
  assumes r: "app_run mtx_program (mtx_start w c S) tr A" and S: "run_inv (kern S)" "new_objects S"
    and d: "distinct [0, w, c]" and z: "cells S SHARED_COUNTER = 0"
  shows "mtx_good w c A"
  using r
proof (induction rule: app_run.induct)
  case app_init
  then show ?case using d z by (simp add: mtx_good_def mtx_start_def mtx_statics_init_def uncounted_def)
next
  case (app_hw tr A e ok S')
  note st = mtx_starts [OF S, of w c] and h = by_hardware_idle [OF app_hw.hyps(2)]
  note m = mtxx.app_hw_moves [OF app_hw.hyps(1) st app_hw.hyps(2,3)]
  have "phase_ok u S' ph" if "u \<noteq> 0" "phase_ok u (sys A) ph" for u ph
    by (rule phase_other [OF m that(1) _ that(2)]) (simp add: h)
  then show ?case using app_hw.IH d sys_movesD(3) [OF m] by (simp add: mtx_good_def h)
next
  case (app_call tr A u e k ok S')
  note st = mtx_starts [OF S, of w c] and g = app_call.IH [unfolded mtx_good_def]
  have mv: "sys_moves e ok (sys A) S'" "u \<noteq> 0" "\<And>i. uses_guard e i \<Longrightarrow> owner (mtxs (sys A) i) = u"
    using mtxx.app_call_moves [OF app_call.hyps(1) st st] app_call.hyps(2-4) by blast+
  have u: "u = w \<or> u = c" using g app_call.hyps(3) by (cases "u \<in> {w, c}") auto
  have p: "phase_ok u (sys A) (mtx_phase (pc A u))" using u g by blast
  have n: "owner (mtxs (sys A) SHARED_COUNTER) \<noteq> u" if "mtx_phase (pc A u) = Outside"
    using mtxx.app_not_owner [OF app_call.hyps(1) st _ mv(2)] that by (simp add: mtx_holds_def)
  note ph = phase_step [OF mtx_calls [OF app_call.hyps(3), of ok] mv(1) app_call.hyps(2) mv(2) mv(3) n p]
  have o: "phase_ok v S' (mtx_phase (pc A v))" if "v = w \<or> v = c" "v \<noteq> u" for v
    by (rule phase_other [OF mv(1)]) (use that d mv(3) g app_call.hyps(2) in auto)
  from u show ?case
  proof
    assume uw: "u = w"
    then obtain x' where "k ok = Owner x'" using g app_call.hyps(3) mtx_stays(1) by metis
    then show ?thesis using uw g ph o [of c] d by (simp add: mtx_good_def)
  next
    assume uc: "u = c"
    then obtain y' where "k ok = Contender y'" using g app_call.hyps(3) mtx_stays(2) by metis
    then show ?thesis using uc g ph o [of w] d by (simp add: mtx_good_def)
  qed
next
  case (app_do tr A u f l)
  note g = app_do.IH [unfolded mtx_good_def]
  have b: "counter (sys A) < 2 ^ 32" by (rule counter_bound)
  consider "u = w" | "u = c" | "u \<notin> {w, c}" by blast
  then show ?case
  proof cases
    case 1
    then obtain x x' where x: "pc A u = Owner x" "l = Owner x'" using g app_do.hyps(3) mtx_stays(3) by metis
    show ?thesis using mtx_locals [OF app_do.hyps(3)] g 1 x d b by (auto simp: mtx_good_def uncounted_def count_up)
  next
    case 2
    then obtain x x' where x: "pc A u = Contender x" "l = Contender x'" using g app_do.hyps(3) mtx_stays(4) by metis
    show ?thesis using mtx_locals [OF app_do.hyps(3)] g 2 x d b by (auto simp: mtx_good_def uncounted_def count_up)
  next
    case 3
    then show ?thesis using g app_do.hyps(3) by (auto simp: mtx_good_def)
  qed
next
  case (app_cycles tr A u k c)
  then show ?case using mtx_no_cycles by blast
qed

section \<open>The whole program\<close>

definition mtx_requests :: "mtx_layout \<Rightarrow> spawn_request list" where
  "mtx_requests L =
     [\<lparr>req_thread = OWNER_THREAD L, req_stack = OWNER_STACK L, req_words = STACK_WORDS,
       req_start = ThreadStart_new ''mutex_owner'' (mutex_owner_fn L), req_args = CfsArgs 1\<rparr>,
      \<lparr>req_thread = CONTENDER_THREAD L, req_stack = CONTENDER_STACK L, req_words = STACK_WORDS,
       req_start = ThreadStart_new ''mutex_contender'' (mutex_contender_fn L), req_args = CfsArgs 1\<rparr>]"

definition mtx_loaded :: "mtx_layout \<Rightarrow> kstate \<Rightarrow> bool" where
  "mtx_loaded L s \<longleftrightarrow>
     loaded s \<and> distinct [0, OWNER_THREAD L, CONTENDER_THREAD L, IDLE_THREAD L]
     \<and> stack_ok (OWNER_STACK L) \<and> stack_ok (CONTENDER_STACK L) \<and> stack_ok (IDLE_STACK L)"

lemma mtx_main_ok:
  assumes "mtx_loaded L s"
  obtains s' m' where "mtx_main True L (s, m) = Some (s', m')" "run_inv s'" "CURRENT_THREAD_CTX s' = IDLE_THREAD L"
    "runnable_set s' = {OWNER_THREAD L, CONTENDER_THREAD L}"
proof -
  note l = assms [unfolded mtx_loaded_def]
  let ?rs = "mtx_requests L"
  have "CFS_KTIMER s \<noteq> WAIT_KTIMER s" using l by (simp add: loaded_def)
  then have v: "valid_requests ?rs s"
    using l stack_ok_spawn by (simp add: valid_requests_def mtx_requests_def req_timers_def)
  have r: "cfs_requests ?rs = {OWNER_THREAD L, CONTENDER_THREAD L}" "IDLE_THREAD L \<notin> req_thread ` set ?rs"
    using l by (auto simp: mtx_requests_def cfs_requests_def)
  obtain s1 s2 m2 s3 s' m' where
    s: "init_scheduler True s = Some s1" "spawn_all ?rs (s1, m) = Some (s2, m2)" "configure_systick s2 = Some s3"
      "start_idle L (s3, m2) = Some (s', m')" "run_inv s'" "CURRENT_THREAD_CTX s' = IDLE_THREAD L" "runnable_set s' = cfs_requests ?rs"
    by (rule example_runs [of s ?rs True L m]) (use l v r in auto)
  from s(1-4) have "mtx_main True L (s, m) = Some (s', m')"
    by (auto simp: mtx_main_def require_def mtx_requests_def spawn_defs split: bind_splits)
  then show ?thesis using that s(5-7) r(1) by simp
qed

text \<open>
  C8: the example program \<^verbatim>\<open>sync_mutex.rs\<close> from reset on: its main function completes for every layout of its statics,
  and in every execution that follows, with the threads preempted anywhere, also inside \<open>*counter += 1\<close>, no lock fails
  and no update is lost: the shared counter is the number of updates the threads have counted, plus one while an
  update is not counted yet, and exactly their number whenever the mutex is free.
\<close>

theorem no_lost_updates:
  assumes "mtx_loaded L s"
  shows "\<exists>s' m'. mtx_main True L (s, m) = Some (s', m') \<and> CURRENT_THREAD_CTX s' = IDLE_THREAD L
    \<and> runnable_set s' = {OWNER_THREAD L, CONTENDER_THREAD L}
    \<and> (\<forall>S tr A. kern S = s' \<and> new_objects S \<and> cells S SHARED_COUNTER = 0
        \<and> app_run mtx_program (mtx_start (OWNER_THREAD L) (CONTENDER_THREAD L) S) tr A \<longrightarrow>
        LOCK_ERRORS (statics A) = 0
        \<and> unat (cells (sys A) SHARED_COUNTER) - (unat (OWNER_UPDATES (statics A)) + unat (CONTENDER_UPDATES (statics A))) \<in> {0, 1}
        \<and> unat (OWNER_UPDATES (statics A)) + unat (CONTENDER_UPDATES (statics A)) \<le> unat (cells (sys A) SHARED_COUNTER)
        \<and> (owner (mtxs (sys A) SHARED_COUNTER) = 0 \<longrightarrow>
            unat (cells (sys A) SHARED_COUNTER) = unat (OWNER_UPDATES (statics A)) + unat (CONTENDER_UPDATES (statics A))))"
proof -
  obtain s' m' where s': "mtx_main True L (s, m) = Some (s', m')" "run_inv s'" "CURRENT_THREAD_CTX s' = IDLE_THREAD L"
    "runnable_set s' = {OWNER_THREAD L, CONTENDER_THREAD L}" by (rule mtx_main_ok [OF assms])
  let ?w = "OWNER_THREAD L" and ?c = "CONTENDER_THREAD L"
  have d: "distinct [0, ?w, ?c]" using assms by (simp add: mtx_loaded_def)
  have one: "uncounted (mtx_phase (pc A ?w)) + uncounted (mtx_phase (pc A ?c)) \<in> {0, 1}
      \<and> (owner (mtxs (sys A) SHARED_COUNTER) = 0 \<longrightarrow> uncounted (mtx_phase (pc A ?w)) + uncounted (mtx_phase (pc A ?c)) = 0)"
    if "mtx_good ?w ?c A" for A
    using that d by (auto simp: mtx_good_def uncounted_def)
  have "mtx_good ?w ?c A" if "kern S = s'" "new_objects S" "cells S SHARED_COUNTER = 0" "app_run mtx_program (mtx_start ?w ?c S) tr A" for S tr A
    using mtx_run_good [OF that(4) _ that(2) d that(3)] s'(2) that(1) by simp
  then show ?thesis using s'(1,3,4) one by (fastforce simp: mtx_good_def)
qed

text \<open>A layout of the statics.\<close>

definition mtx_sample_layout :: mtx_layout where
  "mtx_sample_layout =
     \<lparr>IDLE_STACK = 8000, IDLE_THREAD = 1000, cpu_idle_fn = 64, OWNER_STACK = 12000, OWNER_THREAD = 2000,
      CONTENDER_STACK = 16000, CONTENDER_THREAD = 3000, mutex_owner_fn = 68, mutex_contender_fn = 72\<rparr>"

lemma mtx_sample_loaded: "mtx_loaded mtx_sample_layout sample_loaded"
  using sample_loaded by (simp add: mtx_loaded_def mtx_sample_layout_def stack_ok_def)

theorem no_lost_updates_witness:
  "\<exists>s' m' S. mtx_main True mtx_sample_layout (sample_loaded, \<lambda>_. 0) = Some (s', m') \<and> runnable_set s' = {2000, 3000}
    \<and> kern S = s' \<and> new_objects S \<and> app_run mtx_program (mtx_start 2000 3000 S) [] (mtx_start 2000 3000 S)
    \<and> LOCK_ERRORS (statics (mtx_start 2000 3000 S)) = 0"
proof -
  have L: "OWNER_THREAD mtx_sample_layout = 2000" "CONTENDER_THREAD mtx_sample_layout = 3000" by (simp_all add: mtx_sample_layout_def)
  from no_lost_updates [OF mtx_sample_loaded, of "\<lambda>_. 0", unfolded L] obtain s' m' where
    m: "mtx_main True mtx_sample_layout (sample_loaded, \<lambda>_. 0) = Some (s', m')" "runnable_set s' = {2000, 3000}"
    and e: "\<And>S tr A. kern S = s' \<Longrightarrow> new_objects S \<Longrightarrow> cells S SHARED_COUNTER = 0 \<Longrightarrow> app_run mtx_program (mtx_start 2000 3000 S) tr A \<Longrightarrow>
      LOCK_ERRORS (statics A) = 0" by blast
  define S where "S = (new_system (0 :: u32))\<lparr>kern := s'\<rparr>"
  have S: "kern S = s'" "new_objects S" "cells S SHARED_COUNTER = 0"
    using new_system_objects [of "0 :: u32"] by (simp_all add: S_def new_objects_def mutex_def)
  then show ?thesis using m e [OF S app_init] app_init by blast
qed

end
