(* ===== verification/CntExample.thy ===== *)
theory CntExample
  imports ExCommon
begin

text \<open>
  The example program \<^verbatim>\<open>examples/sync_counting_semaphore.rs\<close>: a thread gives three tokens at a time, two others
  take them. No take fails, and no token is counted twice or lost.
\<close>

section \<open>The program\<close>

record cnt_statics =
  PRODUCED_TOKENS :: u32
  FAST_TOKENS :: u32
  SLOW_TOKENS :: u32
  TOKEN_OVERFLOWS :: u32
  TAKE_ERRORS :: u32

definition cnt_statics_init :: cnt_statics where
  "cnt_statics_init = \<lparr>PRODUCED_TOKENS = 0, FAST_TOKENS = 0, SLOW_TOKENS = 0, TOKEN_OVERFLOWS = 0, TAKE_ERRORS = 0\<rparr>"

text \<open>The semaphore \<open>TOKENS\<close>.\<close>

abbreviation (input) TOKENS :: nat where
  "TOKENS \<equiv> 0"

text \<open>The locations; the producer's loop counter is its argument.\<close>

datatype token_producer_at = TGive nat | TCount nat | TOverflow nat | TSleep

datatype fast_consumer_at = FTake | FCount | FSpin nat | FYield | FError

datatype slow_consumer_at = STake | SCount | SSleep | SError

definition next_token :: "nat \<Rightarrow> token_producer_at" where
  "next_token i = (if i + 1 < 3 then TGive (i + 1) else TSleep)"

primrec token_producer :: "token_producer_at \<Rightarrow> (token_producer_at, cnt_statics, unit) stmt" where
  "token_producer (TGive i) = Call (Give TOKENS) (\<lambda>r. if r = Done then TCount i else TOverflow i)"
| "token_producer (TCount i) = Do (PRODUCED_TOKENS_update (\<lambda>x. x + 1)) (next_token i)"
| "token_producer (TOverflow i) = Do (TOKEN_OVERFLOWS_update (\<lambda>x. x + 1)) (next_token i)"
| "token_producer TSleep = Call (KernelEvent (Sleep 120)) (\<lambda>_. TGive 0)"

primrec fast_consumer :: "fast_consumer_at \<Rightarrow> (fast_consumer_at, cnt_statics, unit) stmt" where
  "fast_consumer FTake = Call (Take TOKENS) (\<lambda>r. if r = Done then FCount else FError)"
| "fast_consumer FCount = Do (FAST_TOKENS_update (\<lambda>x. x + 1)) (FSpin 1000)"
| "fast_consumer (FSpin n) = spin n FSpin FYield"
| "fast_consumer FYield = Call (KernelEvent YieldThread) (\<lambda>_. FTake)"
| "fast_consumer FError = Do (TAKE_ERRORS_update (\<lambda>x. x + 1)) FTake"

primrec slow_consumer :: "slow_consumer_at \<Rightarrow> (slow_consumer_at, cnt_statics, unit) stmt" where
  "slow_consumer STake = Call (Take TOKENS) (\<lambda>r. if r = Done then SCount else SError)"
| "slow_consumer SCount = Do (SLOW_TOKENS_update (\<lambda>x. x + 1)) SSleep"
| "slow_consumer SSleep = Call (KernelEvent (Sleep 40)) (\<lambda>_. STake)"
| "slow_consumer SError = Do (TAKE_ERRORS_update (\<lambda>x. x + 1)) STake"

record cnt_layout = idle_layout +
  PRODUCER_STACK :: addr
  PRODUCER_THREAD :: addr
  FAST_CONSUMER_STACK :: addr
  FAST_CONSUMER_THREAD :: addr
  SLOW_CONSUMER_STACK :: addr
  SLOW_CONSUMER_THREAD :: addr
  token_producer_fn :: addr
  fast_consumer_fn :: addr
  slow_consumer_fn :: addr

text \<open>\<open>main\<close>; \<open>taken\<close> says whether the peripherals could be taken.\<close>

definition cnt_main :: "bool \<Rightarrow> cnt_layout \<Rightarrow> kstate \<times> mem \<Rightarrow> (kstate \<times> mem) option" where
  "cnt_main taken L = (\<lambda>(s, m). do {
     s \<leftarrow> init_scheduler True s;
     (_, s, m) \<leftarrow> CfsThreadBuilder_spawn (PRODUCER_THREAD L) (PRODUCER_STACK L) STACK_WORDS
        (CfsThreadBuilder_new ''token_producer'' (token_producer_fn L) 2) (s, m);
     (_, s, m) \<leftarrow> CfsThreadBuilder_spawn (FAST_CONSUMER_THREAD L) (FAST_CONSUMER_STACK L) STACK_WORDS
        (CfsThreadBuilder_new ''fast_consumer'' (fast_consumer_fn L) 1) (s, m);
     (_, s, m) \<leftarrow> CfsThreadBuilder_spawn (SLOW_CONSUMER_THREAD L) (SLOW_CONSUMER_STACK L) STACK_WORDS
        (CfsThreadBuilder_new ''slow_consumer'' (slow_consumer_fn L) 1) (s, m);
     require taken;
     s \<leftarrow> configure_systick s;
     start_idle L (s, m)
   })"

datatype cnt_at = Producer token_producer_at | Fast fast_consumer_at | Slow slow_consumer_at | CpuIdle

primrec cnt_program :: "cnt_at \<Rightarrow> (cnt_at, cnt_statics, unit) stmt" where
  "cnt_program (Producer l) = map_stmt Producer (token_producer l)"
| "cnt_program (Fast l) = map_stmt Fast (fast_consumer l)"
| "cnt_program (Slow l) = map_stmt Slow (slow_consumer l)"
| "cnt_program CpuIdle = idle_forever CpuIdle"

definition cnt_start :: "addr \<Rightarrow> addr \<Rightarrow> addr \<Rightarrow> unit system \<Rightarrow> (cnt_at, cnt_statics, unit) app" where
  "cnt_start p f w S =
     \<lparr>sys = S, pc = (\<lambda>_. CpuIdle)(p := Producer (TGive 0), f := Fast FTake, w := Slow STake), statics = cnt_statics_init\<rparr>"

section \<open>Its invariant\<close>

text \<open>Tokens given, or taken, and not counted yet.\<close>

definition uncounted :: "cnt_at \<Rightarrow> nat" where
  "uncounted l = (if l \<in> {Fast FCount, Slow SCount} \<union> range (Producer \<circ> TCount) then 1 else 0)"

lemma uncounted_le: "uncounted l \<le> 1"
  by (simp add: uncounted_def)

lemma uncounted_simps [simp]:
  "uncounted (Producer x) = (if \<exists>i. x = TCount i then 1 else 0)" "uncounted (Fast y) = (if y = FCount then 1 else 0)"
  "uncounted (Slow z) = (if z = SCount then 1 else 0)" "uncounted CpuIdle = 0"
  by (auto simp: uncounted_def)

lemma next_token_simps [simp]: "next_token i \<noteq> TCount j" "next_token i \<noteq> TOverflow j"
  by (simp_all add: next_token_def)

lemma cnt_calls:
  assumes "cnt_program l = Call e k"
  shows "(\<exists>i. l = Producer (TGive i) \<and> e = Give TOKENS \<and> k = (\<lambda>r. Producer (if r = Done then TCount i else TOverflow i)))
    \<or> l = Fast FTake \<and> e = Take TOKENS \<and> k = (\<lambda>r. Fast (if r = Done then FCount else FError))
    \<or> l = Slow STake \<and> e = Take TOKENS \<and> k = (\<lambda>r. Slow (if r = Done then SCount else SError))
    \<or> (\<exists>d. e = KernelEvent d \<and> d \<noteq> event.Tick \<and> uncounted l = 0
        \<and> (l = Producer TSleep \<and> k = (\<lambda>_. Producer (TGive 0)) \<or> l = Fast FYield \<and> k = (\<lambda>_. Fast FTake) \<or> l = Slow SSleep \<and> k = (\<lambda>_. Slow STake)))"
proof (cases l)
  case (Producer x)
  then show ?thesis using assms by (cases x) (auto simp: comp_def)
next
  case (Fast x)
  then show ?thesis using assms by (cases x) (auto simp: comp_def)
next
  case (Slow x)
  then show ?thesis using assms by (cases x) (auto simp: comp_def)
qed (use assms in simp)

interpretation cntx: guarded cnt_program "\<lambda>_. {}"
proof
  show "cnt_program l = Call e k \<Longrightarrow> \<not> by_hardware e" for l e k using cnt_calls [of l e k] by auto
  show "cnt_program l = Call e k \<Longrightarrow> uses_guard e i \<Longrightarrow> i \<in> {}" for l e k i
    using cnt_calls [of l e k] by (auto simp: uses_guard_def)
  show "cnt_program l = Call e k \<Longrightarrow> has {} i = has {} i + guard_moves e ok u i u" for l e k ok i u
    using cnt_calls [of l e k] by (auto simp: guard_moves_def)
qed simp_all

definition cnt_good :: "addr \<Rightarrow> addr \<Rightarrow> addr \<Rightarrow> (cnt_at, cnt_statics, unit) app \<Rightarrow> bool" where
  "cnt_good p f w A \<longleftrightarrow>
     (\<exists>x. pc A p = Producer x) \<and> (\<exists>y. pc A f = Fast y \<and> y \<noteq> FError) \<and> (\<exists>z. pc A w = Slow z \<and> z \<noteq> SError)
     \<and> (\<forall>u. u \<notin> {p, f, w} \<longrightarrow> pc A u = CpuIdle) \<and> TAKE_ERRORS (statics A) = 0
     \<and> PRODUCED_TOKENS (statics A) + of_nat (uncounted (pc A p)) =
         FAST_TOKENS (statics A) + SLOW_TOKENS (statics A) + of_nat (uncounted (pc A f)) + of_nat (uncounted (pc A w))
           + of_int (sem_val (sems (sys A) TOKENS))"

lemma cnt_starts:
  assumes "run_inv (kern S)" "new_objects S"
  shows "cntx.starts (cnt_start p f w S)"
  using assms by (simp add: cntx.starts_def cnt_start_def)

lemma cnt_run_good:
  assumes r: "app_run cnt_program (cnt_start p f w S) tr A" and S: "run_inv (kern S)" "new_objects S"
    and d: "distinct [p, f, w]" and z: "sem_tokens (sems S TOKENS) = 0"
  shows "cnt_good p f w A"
  using r
proof (induction rule: app_run.induct)
  case app_init
  have "sem_waiters (sems S TOKENS) = []" using new_objects_waits [OF S(2), of "Sem TOKENS"] by simp
  then show ?case using d z by (simp add: cnt_good_def cnt_start_def cnt_statics_init_def sem_value_def)
next
  case (app_hw tr A e ok S')
  note m = cntx.app_hw_moves [OF app_hw.hyps(1) cnt_starts [OF S] app_hw.hyps(2,3)]
  show ?case using app_hw.IH moves_val(1) [OF m, of TOKENS] by (simp add: cnt_good_def by_hardware_idle [OF app_hw.hyps(2)])
next
  case (app_call tr A u e k ok S')
  note st = cnt_starts [OF S, of p f w] and g = app_call.IH [unfolded cnt_good_def]
  have m: "sys_moves e ok (sys A) S'" using cntx.app_call_moves(1) [OF app_call.hyps(1) st st] app_call.hyps(2-4) by blast
  have x: "ok = expected e (sys A)" by (rule sys_movesD(4) [OF m])
  have v: "sem_val (sems S' TOKENS) = sem_val (sems (sys A) TOKENS) + moves e ok TOKENS" by (rule moves_val(1) [OF m])
  have u: "u = p \<or> u = f \<or> u = w" using g app_call.hyps(3) by (cases "u \<in> {p, f, w}") auto
  then have "(\<forall>y. pc A u = Producer y \<longrightarrow> u = p) \<and> (\<forall>y. pc A u = Fast y \<longrightarrow> u = f) \<and> (\<forall>y. pc A u = Slow y \<longrightarrow> u = w)"
    using g by (elim disjE) auto
  then have at: "pc A u = Producer y \<Longrightarrow> u = p" "pc A u = Fast y' \<Longrightarrow> u = f" "pc A u = Slow y'' \<Longrightarrow> u = w" for y y' y'' by blast+
  from cnt_calls [OF app_call.hyps(3)] show ?case
  proof (elim disjE exE conjE)
    fix i assume c: "pc A u = Producer (TGive i)" "e = Give TOKENS" "k = (\<lambda>r. Producer (if r = Done then TCount i else TOverflow i))"
    then show ?thesis using g d x v at(1) [OF c(1)] by (simp add: cnt_good_def moves_def)
  next
    assume c: "pc A u = Fast FTake" "e = Take TOKENS" "k = (\<lambda>r. Fast (if r = Done then FCount else FError))"
    then show ?thesis using g d x v at(2) [OF c(1)] by (simp add: cnt_good_def moves_def)
  next
    assume c: "pc A u = Slow STake" "e = Take TOKENS" "k = (\<lambda>r. Slow (if r = Done then SCount else SError))"
    then show ?thesis using g d x v at(3) [OF c(1)] by (simp add: cnt_good_def moves_def)
  next
    fix b assume c: "pc A u = Producer TSleep" "e = KernelEvent b" "k = (\<lambda>_. Producer (TGive 0))"
    then show ?thesis using g d x v at(1) [OF c(1)] by (simp add: cnt_good_def moves_def)
  next
    fix b assume c: "pc A u = Fast FYield" "e = KernelEvent b" "k = (\<lambda>_. Fast FTake)"
    then show ?thesis using g d x v at(2) [OF c(1)] by (simp add: cnt_good_def moves_def)
  next
    fix b assume c: "pc A u = Slow SSleep" "e = KernelEvent b" "k = (\<lambda>_. Slow STake)"
    then show ?thesis using g d x v at(3) [OF c(1)] by (simp add: cnt_good_def moves_def)
  qed
next
  case (app_do tr A u h l)
  note g = app_do.IH [unfolded cnt_good_def]
  consider "u = p" | "u = f" | "u = w" | "u \<notin> {p, f, w}" by blast
  then show ?case
  proof cases
    case 1
    then obtain x where x: "pc A u = Producer x" using g by blast
    then show ?thesis using app_do.hyps(3) g 1 d by (cases x) (auto simp: cnt_good_def)
  next
    case 2
    then obtain x where x: "pc A u = Fast x" "x \<noteq> FError" using g by blast
    then show ?thesis using app_do.hyps(3) g 2 d by (cases x) (auto simp: cnt_good_def split: nat.splits)
  next
    case 3
    then obtain x where x: "pc A u = Slow x" "x \<noteq> SError" using g by blast
    then show ?thesis using app_do.hyps(3) g 3 d by (cases x) (auto simp: cnt_good_def)
  next
    case 4
    then show ?thesis using g app_do.hyps(3) by (auto simp: cnt_good_def)
  qed
next
  case (app_cycles tr A u k c)
  note g = app_cycles.IH [unfolded cnt_good_def]
  have "cnt_program l \<noteq> Cycles k" for l k
  proof (cases l)
    case (Producer x)
    then show ?thesis by (cases x) auto
  next
    case (Fast x)
    then show ?thesis by (cases x) auto
  next
    case (Slow x)
    then show ?thesis by (cases x) auto
  qed simp
  then show ?case using app_cycles.hyps(3) by blast
qed

section \<open>The whole program\<close>

definition cnt_requests :: "cnt_layout \<Rightarrow> spawn_request list" where
  "cnt_requests L =
     [\<lparr>req_thread = PRODUCER_THREAD L, req_stack = PRODUCER_STACK L, req_words = STACK_WORDS,
       req_start = ThreadStart_new ''token_producer'' (token_producer_fn L), req_args = CfsArgs 2\<rparr>,
      \<lparr>req_thread = FAST_CONSUMER_THREAD L, req_stack = FAST_CONSUMER_STACK L, req_words = STACK_WORDS,
       req_start = ThreadStart_new ''fast_consumer'' (fast_consumer_fn L), req_args = CfsArgs 1\<rparr>,
      \<lparr>req_thread = SLOW_CONSUMER_THREAD L, req_stack = SLOW_CONSUMER_STACK L, req_words = STACK_WORDS,
       req_start = ThreadStart_new ''slow_consumer'' (slow_consumer_fn L), req_args = CfsArgs 1\<rparr>]"

definition cnt_loaded :: "cnt_layout \<Rightarrow> kstate \<Rightarrow> bool" where
  "cnt_loaded L s \<longleftrightarrow>
     loaded s \<and> distinct [0, PRODUCER_THREAD L, FAST_CONSUMER_THREAD L, SLOW_CONSUMER_THREAD L, IDLE_THREAD L]
     \<and> stack_ok (PRODUCER_STACK L) \<and> stack_ok (FAST_CONSUMER_STACK L) \<and> stack_ok (SLOW_CONSUMER_STACK L) \<and> stack_ok (IDLE_STACK L)"

lemma cnt_main_ok:
  assumes "cnt_loaded L s"
  obtains s' m' where "cnt_main True L (s, m) = Some (s', m')" "run_inv s'" "CURRENT_THREAD_CTX s' = IDLE_THREAD L"
    "runnable_set s' = {PRODUCER_THREAD L, FAST_CONSUMER_THREAD L, SLOW_CONSUMER_THREAD L}"
proof -
  note l = assms [unfolded cnt_loaded_def]
  let ?rs = "cnt_requests L"
  have "CFS_KTIMER s \<noteq> WAIT_KTIMER s" using l by (simp add: loaded_def)
  then have v: "valid_requests ?rs s"
    using l stack_ok_spawn by (simp add: valid_requests_def cnt_requests_def req_timers_def)
  have r: "cfs_requests ?rs = {PRODUCER_THREAD L, FAST_CONSUMER_THREAD L, SLOW_CONSUMER_THREAD L}" "IDLE_THREAD L \<notin> req_thread ` set ?rs"
    using l by (auto simp: cnt_requests_def cfs_requests_def)
  obtain s1 s2 m2 s3 s' m' where
    s: "init_scheduler True s = Some s1" "spawn_all ?rs (s1, m) = Some (s2, m2)" "configure_systick s2 = Some s3"
      "start_idle L (s3, m2) = Some (s', m')" "run_inv s'" "CURRENT_THREAD_CTX s' = IDLE_THREAD L" "runnable_set s' = cfs_requests ?rs"
    by (rule example_runs [of s ?rs True L m]) (use l v r in auto)
  from s(1-4) have "cnt_main True L (s, m) = Some (s', m')"
    by (auto simp: cnt_main_def require_def cnt_requests_def spawn_defs split: bind_splits)
  then show ?thesis using that s(5-7) r(1) by simp
qed

text \<open>A consumer that waits has not counted its token.\<close>

lemma cnt_waiters_bound:
  assumes r: "app_run cnt_program (cnt_start p f w S) tr A" and S: "run_inv (kern S)" "new_objects S" and d: "distinct [p, f, w]"
    and g: "cnt_good p f w A"
  shows "length (sem_waiters (sems (sys A) TOKENS)) \<le> uncounted (pc A f) + uncounted (pc A w)"
proof -
  let ?ws = "sem_waiters (sems (sys A) TOKENS)" and ?U = "{u \<in> {f, w}. uncounted (pc A u) = 1}"
  note st = cnt_starts [OF S, of p f w]
  have "u \<in> ?U" if u: "u \<in> set ?ws" for u
  proof -
    from cntx.app_sem_waiter [OF r st u] obtain l k where "cnt_program l = Call (Take TOKENS) k" "pc A u = k Done" by blast
    then have "pc A u = Fast FCount \<or> pc A u = Slow SCount" using cnt_calls [of l "Take TOKENS" k] by auto
    then show ?thesis using g by (cases "u \<in> {p, f, w}") (auto simp: cnt_good_def)
  qed
  then have "set ?ws \<subseteq> ?U" by blast
  then have "card (set ?ws) \<le> card ?U" by (intro card_mono) auto
  moreover have "distinct ?ws"
    using sys_invD(6) [OF cntx.app_run_sys(3) [OF r st], of TOKENS] sync_ok_distinct by (auto simp: sem_inv_def)
  moreover have "card ?U \<le> uncounted (pc A f) + uncounted (pc A w)"
  proof -
    let ?F = "if uncounted (pc A f) = 1 then {f} else {}" and ?W = "if uncounted (pc A w) = 1 then {w} else {}"
    have "?U = ?F \<union> ?W" by auto
    then have "card ?U \<le> card ?F + card ?W" by (simp only: card_Un_le)
    moreover have "card ?F \<le> uncounted (pc A f)" "card ?W \<le> uncounted (pc A w)" by simp_all
    ultimately show ?thesis by linarith
  qed
  ultimately show ?thesis using distinct_card [of ?ws] by linarith
qed

text \<open>
  C10: the example program \<^verbatim>\<open>sync_counting_semaphore.rs\<close> from reset on: its main function completes for every layout of
  its statics, and in every execution that follows no take fails, and the tokens the two consumers have counted are those
  the producer has given, up to at most three that are stored in the semaphore and two that a consumer is about to
  count.
\<close>

theorem tokens_accounted:
  assumes "cnt_loaded L s"
  shows "\<exists>s' m'. cnt_main True L (s, m) = Some (s', m') \<and> CURRENT_THREAD_CTX s' = IDLE_THREAD L
    \<and> runnable_set s' = {PRODUCER_THREAD L, FAST_CONSUMER_THREAD L, SLOW_CONSUMER_THREAD L}
    \<and> (\<forall>S tr A. kern S = s' \<and> new_objects S \<and> CountingSemaphore_empty 3 = Some c \<and> sems S TOKENS = Counting c
        \<and> app_run cnt_program (cnt_start (PRODUCER_THREAD L) (FAST_CONSUMER_THREAD L) (SLOW_CONSUMER_THREAD L) S) tr A \<longrightarrow>
        TAKE_ERRORS (statics A) = 0
        \<and> (\<exists>n. n \<le> 5 \<and> PRODUCED_TOKENS (statics A) + of_nat (uncounted (pc A (PRODUCER_THREAD L)))
              = FAST_TOKENS (statics A) + SLOW_TOKENS (statics A) + of_nat n))"
proof -
  obtain s' m' where s': "cnt_main True L (s, m) = Some (s', m')" "run_inv s'" "CURRENT_THREAD_CTX s' = IDLE_THREAD L"
    "runnable_set s' = {PRODUCER_THREAD L, FAST_CONSUMER_THREAD L, SLOW_CONSUMER_THREAD L}" by (rule cnt_main_ok [OF assms])
  let ?p = "PRODUCER_THREAD L" and ?f = "FAST_CONSUMER_THREAD L" and ?w = "SLOW_CONSUMER_THREAD L"
  have d: "distinct [?p, ?f, ?w]" using assms by (simp add: cnt_loaded_def)
  have "TAKE_ERRORS (statics A) = 0
      \<and> (\<exists>n. n \<le> 5 \<and> PRODUCED_TOKENS (statics A) + of_nat (uncounted (pc A ?p)) = FAST_TOKENS (statics A) + SLOW_TOKENS (statics A) + of_nat n)"
    if k: "kern S = s'" "new_objects S" "CountingSemaphore_empty 3 = Some c" "sems S TOKENS = Counting c"
      and r: "app_run cnt_program (cnt_start ?p ?f ?w S) tr A" for S tr A
  proof -
    have i: "run_inv (kern S)" using s'(2) k(1) by simp
    have c: "sem_tokens (sems S TOKENS) = 0" "sem_capacity (sems S TOKENS) = 3"
      using k(3,4) by (auto simp: CountingSemaphore_empty_def CountingSemaphore_new_def require_def split: if_splits)
    note g = cnt_run_good [OF r i k(2) d c(1)] and st = cnt_starts [OF i k(2), of ?p ?f ?w]
    note a = cntx.app_run_sys [OF r st] and w = cnt_waiters_bound [OF r i k(2) d g]
    let ?b = "sems (sys A) TOKENS"
    have "sem_capacity ?b = 3" using sys_run_inv [OF a(1) cntx.starts_inv [OF st]] c(2) by (simp add: cnt_start_def)
    then have t: "sem_tokens ?b \<le> 3" using sys_invD(6) [OF a(3), of TOKENS] by (simp add: sem_inv_def)
    define n where "n = sem_tokens ?b + (uncounted (pc A ?f) + uncounted (pc A ?w) - length (sem_waiters ?b))"
    have "of_nat n = (of_nat (uncounted (pc A ?f)) + of_nat (uncounted (pc A ?w)) + of_int (sem_val ?b) :: u32)"
      using w by (simp add: n_def sem_value_def of_nat_diff)
    moreover have "n \<le> 5" using t uncounted_le [of "pc A ?f"] uncounted_le [of "pc A ?w"] unfolding n_def by linarith
    ultimately show ?thesis using g by (auto simp: cnt_good_def add.assoc intro!: exI [of _ n])
  qed
  then show ?thesis using s'(1,3,4) by blast
qed

text \<open>A layout of the statics.\<close>

definition cnt_sample_layout :: cnt_layout where
  "cnt_sample_layout =
     \<lparr>IDLE_STACK = 8000, IDLE_THREAD = 1000, cpu_idle_fn = 64, PRODUCER_STACK = 12000, PRODUCER_THREAD = 2000,
      FAST_CONSUMER_STACK = 16000, FAST_CONSUMER_THREAD = 3000, SLOW_CONSUMER_STACK = 20000, SLOW_CONSUMER_THREAD = 4000,
      token_producer_fn = 68, fast_consumer_fn = 72, slow_consumer_fn = 76\<rparr>"

lemma cnt_sample_loaded: "cnt_loaded cnt_sample_layout sample_loaded"
  using sample_loaded by (simp add: cnt_loaded_def cnt_sample_layout_def stack_ok_def)

theorem tokens_accounted_witness:
  "\<exists>s' m' S. cnt_main True cnt_sample_layout (sample_loaded, \<lambda>_. 0) = Some (s', m') \<and> kern S = s' \<and> new_objects S
    \<and> app_run cnt_program (cnt_start 2000 3000 4000 S) [] (cnt_start 2000 3000 4000 S)
    \<and> TAKE_ERRORS (statics (cnt_start 2000 3000 4000 S)) = 0"
proof -
  let ?c = "\<lparr>sem_count = 0, sem_max_count = 3, cnt_waiters = []\<rparr>"
  have L: "PRODUCER_THREAD cnt_sample_layout = 2000" "FAST_CONSUMER_THREAD cnt_sample_layout = 3000" "SLOW_CONSUMER_THREAD cnt_sample_layout = 4000"
    by (simp_all add: cnt_sample_layout_def)
  have c: "CountingSemaphore_empty 3 = Some ?c" by (simp add: CountingSemaphore_empty_def CountingSemaphore_new_def require_def)
  from tokens_accounted [OF cnt_sample_loaded, of "\<lambda>_. 0" ?c, unfolded L] obtain s' m' where
    m: "cnt_main True cnt_sample_layout (sample_loaded, \<lambda>_. 0) = Some (s', m')"
    and e: "\<And>S tr A. kern S = s' \<Longrightarrow> new_objects S \<Longrightarrow> sems S TOKENS = Counting ?c \<Longrightarrow>
      app_run cnt_program (cnt_start 2000 3000 4000 S) tr A \<Longrightarrow> TAKE_ERRORS (statics A) = 0" using c by blast
  define S where "S = (new_system ())\<lparr>kern := s'\<rparr>"
  have S: "kern S = s'" "new_objects S" "sems S TOKENS = Counting ?c"
    using new_system_objects [of "()"] by (simp_all add: S_def new_objects_def mutex_def)
  then show ?thesis using m e [OF S app_init] app_init by blast
qed

end
