(* ===== verification/BinExample.thy ===== *)
theory BinExample
  imports ExCommon
begin

text \<open>
  The example program \<^verbatim>\<open>examples/sync_binary_semaphore.rs\<close>: two CFS threads and a real-time thread work one at a time
  between a take and a give of a binary semaphore. A give that found the semaphore full would panic; none does.
\<close>

section \<open>The program\<close>

text \<open>The semaphore \<open>SIGNAL\<close>. The program has no other statics that its threads use.\<close>

abbreviation (input) SIGNAL :: nat where
  "SIGNAL \<equiv> 0"

datatype contender_at = ASleep | ATake | ASpin nat | AGive | APanic

datatype runner_at = RStart | RTake | RError | RSpin nat nat | RGive | RYield | RPanic

primrec contender_a :: "contender_at \<Rightarrow> (contender_at, unit, unit) stmt" where
  "contender_a ASleep = Call (KernelEvent (Sleep 75)) (\<lambda>_. ATake)"
| "contender_a ATake = Call (Take SIGNAL) (\<lambda>r. if r = Done then ASpin 10000 else ASleep)"
| "contender_a (ASpin n) = spin n ASpin AGive"
| "contender_a AGive = Call (Give SIGNAL) (\<lambda>r. if r = Done then ASleep else APanic)"
| "contender_a APanic = idle_forever APanic"

primrec contender_b :: "contender_at \<Rightarrow> (contender_at, unit, unit) stmt" where
  "contender_b ASleep = Call (KernelEvent (Sleep 100)) (\<lambda>_. ATake)"
| "contender_b ATake = Call (Take SIGNAL) (\<lambda>r. if r = Done then ASpin 10000 else ASleep)"
| "contender_b (ASpin n) = spin n ASpin AGive"
| "contender_b AGive = Call (Give SIGNAL) (\<lambda>r. if r = Done then ASleep else APanic)"
| "contender_b APanic = idle_forever APanic"

text \<open>The real-time thread spins in five rounds; the first argument of \<open>RSpin\<close> counts them.\<close>

primrec rt_thread1_runner :: "runner_at \<Rightarrow> (runner_at, unit, unit) stmt" where
  "rt_thread1_runner RStart = Call (SetStart 0) (\<lambda>_. RTake)"
| "rt_thread1_runner RTake = Call (Take SIGNAL) (\<lambda>r. if r = Done then RSpin 0 10000 else RError)"
| "rt_thread1_runner RError = Call (KernelEvent YieldThread) (\<lambda>_. RStart)"
| "rt_thread1_runner (RSpin i n) = spin n (RSpin i) (if i + 1 < 5 then RSpin (i + 1) 10000 else RGive)"
| "rt_thread1_runner RGive = Call (Give SIGNAL) (\<lambda>r. if r = Done then RYield else RPanic)"
| "rt_thread1_runner RYield = Call (KernelEvent YieldThread) (\<lambda>_. RStart)"
| "rt_thread1_runner RPanic = idle_forever RPanic"

record bin_layout = idle_layout +
  CONTENDER_A_STACK :: addr
  CONTENDER_A_THREAD :: addr
  CONTENDER_B_STACK :: addr
  CONTENDER_B_THREAD :: addr
  RT_THREAD1_STACK :: addr
  RT_THREAD1 :: addr
  RT_THREAD1_TIMER_ENTITY :: addr
  contender_a_fn :: addr
  contender_b_fn :: addr
  rt_thread1_runner_fn :: addr

definition RT_THREAD1_PERIOD_TICKS :: u32 where
  "RT_THREAD1_PERIOD_TICKS = 100 * TICKS_PER_MS"

definition rt_thread1_timer_init :: RtKTimer where
  "rt_thread1_timer_init = RtKTimer_new RT_THREAD1_PERIOD_TICKS 0 ''rt_thread1''"

text \<open>\<open>main\<close>; \<open>taken\<close> says whether the peripherals could be taken.\<close>

definition bin_main :: "bool \<Rightarrow> bin_layout \<Rightarrow> kstate \<times> mem \<Rightarrow> (kstate \<times> mem) option" where
  "bin_main taken L = (\<lambda>(s, m). do {
     s \<leftarrow> init_scheduler True s;
     (_, s, m) \<leftarrow> CfsThreadBuilder_spawn (CONTENDER_A_THREAD L) (CONTENDER_A_STACK L) STACK_WORDS
        (CfsThreadBuilder_new ''contender_a'' (contender_a_fn L) 2) (s, m);
     (_, s, m) \<leftarrow> CfsThreadBuilder_spawn (CONTENDER_B_THREAD L) (CONTENDER_B_STACK L) STACK_WORDS
        (CfsThreadBuilder_new ''contender_b'' (contender_b_fn L) 1) (s, m);
     (_, s, m) \<leftarrow> RtThreadBuilder_spawn (RT_THREAD1 L) (RT_THREAD1_STACK L) STACK_WORDS
        (RtThreadBuilder_new ''rt_thread1'' (rt_thread1_runner_fn L) (RT_THREAD1_TIMER_ENTITY L)) (s, m);
     require taken;
     s \<leftarrow> configure_systick s;
     start_idle L (s, m)
   })"

datatype bin_at = ContenderA contender_at | ContenderB contender_at | Runner runner_at | CpuIdle

primrec bin_program :: "bin_at \<Rightarrow> (bin_at, unit, unit) stmt" where
  "bin_program (ContenderA l) = map_stmt ContenderA (contender_a l)"
| "bin_program (ContenderB l) = map_stmt ContenderB (contender_b l)"
| "bin_program (Runner l) = map_stmt Runner (rt_thread1_runner l)"
| "bin_program CpuIdle = idle_forever CpuIdle"

definition bin_start :: "addr \<Rightarrow> addr \<Rightarrow> addr \<Rightarrow> unit system \<Rightarrow> (bin_at, unit, unit) app" where
  "bin_start a b r S =
     \<lparr>sys = S, pc = (\<lambda>_. CpuIdle)(a := ContenderA ASleep, b := ContenderB ASleep, r := Runner RStart), statics = ()\<rparr>"

section \<open>Its invariant\<close>

text \<open>Locations between a take that succeeded and the give.\<close>

primrec contender_inside :: "contender_at \<Rightarrow> bool" where
  "contender_inside ASleep = False" | "contender_inside ATake = False" | "contender_inside (ASpin n) = True"
| "contender_inside AGive = True" | "contender_inside APanic = False"

primrec runner_inside :: "runner_at \<Rightarrow> bool" where
  "runner_inside RStart = False" | "runner_inside RTake = False" | "runner_inside RError = False" | "runner_inside (RSpin i n) = True"
| "runner_inside RGive = True" | "runner_inside RYield = False" | "runner_inside RPanic = False"

primrec inside :: "bin_at \<Rightarrow> bool" where
  "inside (ContenderA l) = contender_inside l" | "inside (ContenderB l) = contender_inside l"
| "inside (Runner l) = runner_inside l" | "inside CpuIdle = False"

definition panicked :: "bin_at \<Rightarrow> bool" where
  "panicked l \<longleftrightarrow> l \<in> {ContenderA APanic, ContenderB APanic, Runner RPanic}"

primrec same_thread :: "bin_at \<Rightarrow> bin_at \<Rightarrow> bool" where
  "same_thread (ContenderA x) l \<longleftrightarrow> (\<exists>y. l = ContenderA y)" | "same_thread (ContenderB x) l \<longleftrightarrow> (\<exists>y. l = ContenderB y)"
| "same_thread (Runner x) l \<longleftrightarrow> (\<exists>y. l = Runner y)" | "same_thread CpuIdle l \<longleftrightarrow> l = CpuIdle"

text \<open>What the calls and the local statements do, whatever the thread.\<close>

lemma bin_calls:
  assumes "bin_program l = Call e k"
  shows "same_thread l (k ok) \<and> \<not> panicked l
    \<and> (e = Take SIGNAL \<and> \<not> inside l \<and> (ok = Done \<longrightarrow> inside (k ok) \<and> \<not> panicked (k ok))
     \<or> e = Give SIGNAL \<and> inside l \<and> (ok = Done \<longrightarrow> \<not> inside (k ok) \<and> \<not> panicked (k ok))
     \<or> e \<in> {SetStart 0, KernelEvent (Sleep 75), KernelEvent (Sleep 100), KernelEvent YieldThread}
        \<and> \<not> inside l \<and> \<not> inside (k ok) \<and> \<not> panicked (k ok))"
proof (cases l)
  case (ContenderA x)
  then show ?thesis using assms by (cases x) (auto simp: panicked_def)
next
  case (ContenderB x)
  then show ?thesis using assms by (cases x) (auto simp: panicked_def)
next
  case (Runner x)
  then show ?thesis using assms by (cases x) (auto simp: panicked_def)
qed (use assms in simp)

lemma bin_locals:
  "bin_program l = Do h l' \<Longrightarrow> same_thread l l' \<and> inside l' = inside l \<and> (\<not> panicked l \<longrightarrow> \<not> panicked l')" "bin_program l \<noteq> Cycles k"
proof (atomize (full), cases l)
  case (ContenderA x)
  then show "(bin_program l = Do h l' \<longrightarrow> same_thread l l' \<and> inside l' = inside l \<and> (\<not> panicked l \<longrightarrow> \<not> panicked l')) \<and> bin_program l \<noteq> Cycles k"
    by (cases x) (auto simp: panicked_def split: nat.splits)
next
  case (ContenderB x)
  then show "(bin_program l = Do h l' \<longrightarrow> same_thread l l' \<and> inside l' = inside l \<and> (\<not> panicked l \<longrightarrow> \<not> panicked l')) \<and> bin_program l \<noteq> Cycles k"
    by (cases x) (auto simp: panicked_def split: nat.splits)
next
  case (Runner x)
  then show "(bin_program l = Do h l' \<longrightarrow> same_thread l l' \<and> inside l' = inside l \<and> (\<not> panicked l \<longrightarrow> \<not> panicked l')) \<and> bin_program l \<noteq> Cycles k"
    by (cases x) (auto simp: panicked_def split: nat.splits if_splits)
qed auto

interpretation binx: guarded bin_program "\<lambda>_. {}"
proof
  show "bin_program l = Call e k \<Longrightarrow> \<not> by_hardware e" for l e k using bin_calls [of l e k Done] by auto
  show "bin_program l = Call e k \<Longrightarrow> uses_guard e i \<Longrightarrow> i \<in> {}" for l e k i
    using bin_calls [of l e k] by (auto simp: uses_guard_def)
  show "bin_program l = Call e k \<Longrightarrow> has {} i = has {} i + guard_moves e ok u i u" for l e k ok i u
    using bin_calls [of l e k] by (auto simp: guard_moves_def)
qed simp_all

definition users :: "addr \<Rightarrow> addr \<Rightarrow> addr \<Rightarrow> (bin_at, unit, unit) app \<Rightarrow> addr set" where
  "users a b r A = {u \<in> {a, b, r}. inside (pc A u)}"

definition bin_good :: "addr \<Rightarrow> addr \<Rightarrow> addr \<Rightarrow> (bin_at, unit, unit) app \<Rightarrow> bool" where
  "bin_good a b r A \<longleftrightarrow>
     (\<forall>u. u \<notin> {a, b, r} \<longrightarrow> pc A u = CpuIdle) \<and> (\<forall>u. \<not> panicked (pc A u))
     \<and> sem_val (sems (sys A) SIGNAL) + int (card (users a b r A)) = 1 \<and> sem_capacity (sems (sys A) SIGNAL) = 1"

lemma bin_starts:
  assumes "run_inv (kern S)" "new_objects S"
  shows "binx.starts (bin_start a b r S)"
  using assms by (simp add: binx.starts_def bin_start_def)

lemma users_upd:
  assumes "u \<in> {a, b, r}"
  shows "users a b r (A\<lparr>sys := S, pc := (pc A)(u := l)\<rparr>) = (if inside l then insert u (users a b r A) else users a b r A - {u})"
  using assms by (auto simp: users_def)

lemma users_finite [simp]: "finite (users a b r A)"
  by (simp add: users_def)

lemma bin_run_good:
  assumes r: "app_run bin_program (bin_start a b r S) tr A" and S: "run_inv (kern S)" "new_objects S"
    and z: "sems S SIGNAL = Binary BinarySemaphore_available"
  shows "bin_good a b r A"
  using r
proof (induction rule: app_run.induct)
  case app_init
  have "users a b r (bin_start a b r S) = {}" by (auto simp: users_def bin_start_def)
  then show ?case
    using z by (auto simp: bin_good_def bin_start_def panicked_def sem_value_def BinarySemaphore_available_def BinarySemaphore_new_def)
next
  case (app_hw tr A e ok S')
  note m = moves_val [OF binx.app_hw_moves [OF app_hw.hyps(1) bin_starts [OF S] app_hw.hyps(2,3)], of SIGNAL]
  have "users a b r (A\<lparr>sys := S'\<rparr>) = users a b r A" by (simp add: users_def)
  then show ?case using app_hw.IH m by (simp add: bin_good_def by_hardware_idle [OF app_hw.hyps(2)])
next
  case (app_call tr A u e k ok S')
  note st = bin_starts [OF S, of a b r] and g = app_call.IH [unfolded bin_good_def]
  have mv: "sys_moves e ok (sys A) S'" using binx.app_call_moves(1) [OF app_call.hyps(1) st st] app_call.hyps(2-4) by blast
  have x: "ok = expected e (sys A)" by (rule sys_movesD(4) [OF mv])
  note m = moves_val [OF mv, of SIGNAL] and c = bin_calls [OF app_call.hyps(3), of ok]
  have u: "u \<in> {a, b, r}" using g app_call.hyps(3) by (cases "u \<in> {a, b, r}") auto
  have iu: "u \<in> users a b r A \<longleftrightarrow> inside (pc A u)" using u by (simp add: users_def)
  let ?A = "A\<lparr>sys := S', pc := (pc A)(u := k ok)\<rparr>"
  note up = users_upd [OF u, where A = A and S = S' and l = "k ok"]
  have good: "bin_good a b r ?A" if "\<not> panicked (k ok)" "int (card (users a b r ?A)) = int (card (users a b r A)) - moves e ok SIGNAL"
    using that g m u unfolding bin_good_def by simp blast
  have pos: "0 < card (users a b r A)" if "inside (pc A u)"
    unfolding card_gt_0_iff using that iu users_finite by blast
  from c consider (take) "e = Take SIGNAL" | (give) "e = Give SIGNAL"
    | (other) "e \<in> {SetStart 0, KernelEvent (Sleep 75), KernelEvent (Sleep 100), KernelEvent YieldThread}" by blast
  then have "bin_good a b r ?A \<and> ok \<noteq> Retries"
  proof cases
    case take
    then have ok: "ok = Done" using x by simp
    then have k: "inside (k ok)" "\<not> panicked (k ok)" "\<not> inside (pc A u)" using c take by auto
    then have "card (users a b r ?A) = Suc (card (users a b r A))" unfolding up using iu by simp
    then show ?thesis using good k(2) ok take by (simp add: moves_def)
  next
    case give
    then have i: "inside (pc A u)" using c by auto
    have ok: "ok = Done" using x g give pos [OF i] by simp
    then have k: "\<not> inside (k ok)" "\<not> panicked (k ok)" using c give by auto
    then have "card (users a b r ?A) = card (users a b r A) - 1" unfolding up using iu i by simp
    then show ?thesis using good k(2) ok give pos [OF i] by (simp add: moves_def)
  next
    case other
    then have ok: "ok \<noteq> Retries" "moves e ok SIGNAL = 0" using x by (auto simp: moves_def)
    have k: "\<not> inside (pc A u)" "\<not> inside (k ok)" "\<not> panicked (k ok)" using c other by auto
    then have "users a b r ?A = users a b r A" unfolding up using iu by simp
    then show ?thesis using good k(3) ok by simp
  qed
  then show ?case by simp
next
  case (app_do tr A u h l)
  note g = app_do.IH [unfolded bin_good_def] and c = bin_locals(1) [OF app_do.hyps(3)]
  have "users a b r (A\<lparr>pc := (pc A)(u := l), statics := h (statics A)\<rparr>) = users a b r A" using c by (auto simp: users_def)
  moreover have "l = CpuIdle" if "u \<notin> {a, b, r}" using c g that by (metis same_thread.simps(4))
  ultimately show ?case using g c by (auto simp: bin_good_def)
next
  case (app_cycles tr A u k c)
  then show ?case using bin_locals(2) by blast
qed

section \<open>The whole program\<close>

definition bin_requests :: "bin_layout \<Rightarrow> spawn_request list" where
  "bin_requests L =
     [\<lparr>req_thread = CONTENDER_A_THREAD L, req_stack = CONTENDER_A_STACK L, req_words = STACK_WORDS,
       req_start = ThreadStart_new ''contender_a'' (contender_a_fn L), req_args = CfsArgs 2\<rparr>,
      \<lparr>req_thread = CONTENDER_B_THREAD L, req_stack = CONTENDER_B_STACK L, req_words = STACK_WORDS,
       req_start = ThreadStart_new ''contender_b'' (contender_b_fn L), req_args = CfsArgs 1\<rparr>,
      \<lparr>req_thread = RT_THREAD1 L, req_stack = RT_THREAD1_STACK L, req_words = STACK_WORDS,
       req_start = ThreadStart_new ''rt_thread1'' (rt_thread1_runner_fn L), req_args = RtArgs (RT_THREAD1_TIMER_ENTITY L)\<rparr>]"

definition bin_loaded :: "bin_layout \<Rightarrow> kstate \<Rightarrow> bool" where
  "bin_loaded L s \<longleftrightarrow>
     loaded s \<and> distinct [0, CONTENDER_A_THREAD L, CONTENDER_B_THREAD L, RT_THREAD1 L, IDLE_THREAD L]
     \<and> stack_ok (CONTENDER_A_STACK L) \<and> stack_ok (CONTENDER_B_STACK L) \<and> stack_ok (RT_THREAD1_STACK L) \<and> stack_ok (IDLE_STACK L)
     \<and> distinct [0, CFS_KTIMER s, WAIT_KTIMER s, RT_THREAD1_TIMER_ENTITY L] \<and> ktimers s (RT_THREAD1_TIMER_ENTITY L) = rt_thread1_timer_init"

lemma bin_main_ok:
  assumes "bin_loaded L s"
  obtains s' m' where "bin_main True L (s, m) = Some (s', m')" "run_inv s'" "CURRENT_THREAD_CTX s' = IDLE_THREAD L"
    "runnable_set s' = {CONTENDER_A_THREAD L, CONTENDER_B_THREAD L}" "RT_THREAD1_TIMER_ENTITY L \<in> queued s'"
proof -
  note l = assms [unfolded bin_loaded_def]
  let ?rs = "bin_requests L"
  have v: "valid_requests ?rs s"
    using l stack_ok_spawn by (simp add: valid_requests_def bin_requests_def req_timers_def)
  have r: "cfs_requests ?rs = {CONTENDER_A_THREAD L, CONTENDER_B_THREAD L}" "set (req_timers ?rs) = {RT_THREAD1_TIMER_ENTITY L}"
    "IDLE_THREAD L \<notin> req_thread ` set ?rs"
    using l by (auto simp: bin_requests_def cfs_requests_def req_timers_def)
  obtain s1 s2 m2 s3 s' m' where
    s: "init_scheduler True s = Some s1" "spawn_all ?rs (s1, m) = Some (s2, m2)" "configure_systick s2 = Some s3"
      "start_idle L (s3, m2) = Some (s', m')" "run_inv s'" "CURRENT_THREAD_CTX s' = IDLE_THREAD L" "runnable_set s' = cfs_requests ?rs"
      "queued s' = set (req_timers ?rs) \<union> {CFS_KTIMER s} \<union> {WAIT_KTIMER s}"
    by (rule example_runs [of s ?rs True L m]) (use l v r in auto)
  from s(1-4) have "bin_main True L (s, m) = Some (s', m')"
    by (auto simp: bin_main_def require_def bin_requests_def spawn_defs split: bind_splits)
  then show ?thesis using that s(5-8) r(1,2) by simp
qed

text \<open>Of the threads between take and give all but those that wait for the token have it.\<close>

lemma bin_exclusive:
  assumes r: "app_run bin_program (bin_start a b r S) tr A" and S: "run_inv (kern S)" "new_objects S"
    and z: "sems S SIGNAL = Binary BinarySemaphore_available"
  shows "card (users a b r A - set (sem_waiters (sems (sys A) SIGNAL))) \<le> 1"
proof -
  let ?b = "sems (sys A) SIGNAL"
  note st = bin_starts [OF S, of a b r] and g = bin_run_good [OF r S z, unfolded bin_good_def]
  have w: "u \<in> users a b r A" if u: "u \<in> set (sem_waiters ?b)" for u
  proof -
    from binx.app_sem_waiter [OF r st u] obtain l k where k: "bin_program l = Call (Take SIGNAL) k" "pc A u = k Done" by blast
    then have i: "inside (pc A u)" using bin_calls [OF k(1), of Done] by auto
    then have "u \<in> {a, b, r}" using g by (metis inside.simps(4))
    then show ?thesis using i by (simp add: users_def)
  qed
  have "distinct (sem_waiters ?b)"
    using sys_invD(6) [OF binx.app_run_sys(3) [OF r st], of SIGNAL] sync_ok_distinct by (auto simp: sem_inv_def)
  then have "card (users a b r A - set (sem_waiters ?b)) = card (users a b r A) - length (sem_waiters ?b)"
    using w by (simp add: card_Diff_subset subsetI distinct_card)
  moreover have "int (card (users a b r A)) \<le> 1 + int (length (sem_waiters ?b))" using g by (simp add: sem_value_def)
  ultimately show ?thesis by linarith
qed

text \<open>
  C9: the example program \<^verbatim>\<open>sync_binary_semaphore.rs\<close> from reset on: its main function completes for every layout of its
  statics, and in every execution that follows no thread panics, so that every \<open>give().unwrap()\<close> succeeds, and of the
  threads between their take and their give at most one has the token; the others are suspended and wait for it.
\<close>

theorem signal_exclusive:
  assumes "bin_loaded L s"
  shows "\<exists>s' m'. bin_main True L (s, m) = Some (s', m') \<and> CURRENT_THREAD_CTX s' = IDLE_THREAD L
    \<and> runnable_set s' = {CONTENDER_A_THREAD L, CONTENDER_B_THREAD L} \<and> RT_THREAD1_TIMER_ENTITY L \<in> queued s'
    \<and> (\<forall>S tr A. kern S = s' \<and> new_objects S \<and> sems S SIGNAL = Binary BinarySemaphore_available
        \<and> app_run bin_program (bin_start (CONTENDER_A_THREAD L) (CONTENDER_B_THREAD L) (RT_THREAD1 L) S) tr A \<longrightarrow>
        (\<forall>u. pc A u \<notin> {ContenderA APanic, ContenderB APanic, Runner RPanic})
        \<and> card {u \<in> {CONTENDER_A_THREAD L, CONTENDER_B_THREAD L, RT_THREAD1 L}.
            inside (pc A u) \<and> u \<notin> set (sem_waiters (sems (sys A) SIGNAL))} \<le> 1)"
proof -
  obtain s' m' where s': "bin_main True L (s, m) = Some (s', m')" "run_inv s'" "CURRENT_THREAD_CTX s' = IDLE_THREAD L"
    "runnable_set s' = {CONTENDER_A_THREAD L, CONTENDER_B_THREAD L}" "RT_THREAD1_TIMER_ENTITY L \<in> queued s'" by (rule bin_main_ok [OF assms])
  let ?a = "CONTENDER_A_THREAD L" and ?b = "CONTENDER_B_THREAD L" and ?r = "RT_THREAD1 L"
  have "(\<forall>u. pc A u \<notin> {ContenderA APanic, ContenderB APanic, Runner RPanic})
      \<and> card {u \<in> {?a, ?b, ?r}. inside (pc A u) \<and> u \<notin> set (sem_waiters (sems (sys A) SIGNAL))} \<le> 1"
    if k: "kern S = s'" "new_objects S" "sems S SIGNAL = Binary BinarySemaphore_available"
      and r: "app_run bin_program (bin_start ?a ?b ?r S) tr A" for S tr A
  proof -
    have i: "run_inv (kern S)" using s'(2) k(1) by simp
    have "{u \<in> {?a, ?b, ?r}. inside (pc A u) \<and> u \<notin> set (sem_waiters (sems (sys A) SIGNAL))}
      = users ?a ?b ?r A - set (sem_waiters (sems (sys A) SIGNAL))" by (auto simp: users_def)
    then show ?thesis
      using bin_exclusive [OF r i k(2,3)] bin_run_good [OF r i k(2,3)] by (simp add: bin_good_def panicked_def)
  qed
  then show ?thesis using s'(1,3-5) by blast
qed

text \<open>A layout of the statics.\<close>

definition bin_sample_layout :: bin_layout where
  "bin_sample_layout =
     \<lparr>IDLE_STACK = 8000, IDLE_THREAD = 1000, cpu_idle_fn = 64, CONTENDER_A_STACK = 12000, CONTENDER_A_THREAD = 2000,
      CONTENDER_B_STACK = 16000, CONTENDER_B_THREAD = 3000, RT_THREAD1_STACK = 20000, RT_THREAD1 = 4000, RT_THREAD1_TIMER_ENTITY = 500,
      contender_a_fn = 68, contender_b_fn = 72, rt_thread1_runner_fn = 76\<rparr>"

definition bin_sample_loaded :: kstate where
  "bin_sample_loaded = sample_loaded\<lparr>ktimers := (ktimers sample_loaded)(500 := rt_thread1_timer_init)\<rparr>"

lemma bin_sample_loaded: "bin_loaded bin_sample_layout bin_sample_loaded"
proof -
  have c: "CFS_KTIMER sample_loaded = 100" "WAIT_KTIMER sample_loaded = 104" by (simp_all add: sample_loaded_def)
  have "loaded bin_sample_loaded" using sample_loaded by (simp add: loaded_def bin_sample_loaded_def)
  then show ?thesis by (simp add: bin_loaded_def bin_sample_layout_def stack_ok_def) (simp add: bin_sample_loaded_def c)
qed

theorem signal_exclusive_witness:
  "\<exists>s' m' S. bin_main True bin_sample_layout (bin_sample_loaded, \<lambda>_. 0) = Some (s', m') \<and> kern S = s' \<and> new_objects S
    \<and> app_run bin_program (bin_start 2000 3000 4000 S) [] (bin_start 2000 3000 4000 S)
    \<and> pc (bin_start 2000 3000 4000 S) 2000 \<noteq> ContenderA APanic"
proof -
  have L: "CONTENDER_A_THREAD bin_sample_layout = 2000" "CONTENDER_B_THREAD bin_sample_layout = 3000" "RT_THREAD1 bin_sample_layout = 4000"
    by (simp_all add: bin_sample_layout_def)
  from signal_exclusive [OF bin_sample_loaded, of "\<lambda>_. 0", unfolded L] obtain s' m' where
    m: "bin_main True bin_sample_layout (bin_sample_loaded, \<lambda>_. 0) = Some (s', m')"
    and e: "\<And>S tr A. kern S = s' \<Longrightarrow> new_objects S \<Longrightarrow> sems S SIGNAL = Binary BinarySemaphore_available \<Longrightarrow>
      app_run bin_program (bin_start 2000 3000 4000 S) tr A \<Longrightarrow> pc A 2000 \<noteq> ContenderA APanic" by blast
  define S where "S = (new_system ())\<lparr>kern := s', sems := \<lambda>_. Binary BinarySemaphore_available\<rparr>"
  have S: "kern S = s'" "new_objects S" "sems S SIGNAL = Binary BinarySemaphore_available"
    using new_system_objects [of "()"] by (simp_all add: S_def new_objects_def mutex_def)
  then show ?thesis using m e [OF S app_init] app_init by blast
qed

end
