(* ===== verification/CountLoops.thy ===== *)
theory CountLoops
  imports ExCommon
begin

text \<open>
  Threads that count their rounds. The thread functions of the small example programs are all of the form
  \<^verbatim>\<open>loop { set_rt_thread_start_time(0); COUNTER.fetch_add(1, Relaxed); common::spin(n); call }\<close>, where the first statement
  and the spinning may be missing and the call is \<open>yieldyi\<close> or \<open>msleepyi\<close>. Whatever the preemption, the counter is
  the number of rounds.
\<close>

section \<open>Loops and their programs\<close>

record 'g rounds =
  restarts :: bool
  bump :: "'g \<Rightarrow> 'g"
  spins :: "nat option"
  ends_with :: event

datatype loop_at = LStart | LCount | LSpin nat | LCall

definition loop_top :: "'g rounds \<Rightarrow> loop_at" where
  "loop_top p = (if restarts p then LStart else LCount)"

primrec loop_stmt :: "'g rounds \<Rightarrow> loop_at \<Rightarrow> (loop_at, 'g, unit) stmt" where
  "loop_stmt p LStart = Call (SetStart 0) (\<lambda>_. LCount)"
| "loop_stmt p LCount = Do (bump p) (case spins p of None \<Rightarrow> LCall | Some n \<Rightarrow> LSpin n)"
| "loop_stmt p (LSpin n) = spin n LSpin LCall"
| "loop_stmt p LCall = Call (KernelEvent (ends_with p)) (\<lambda>_. loop_top p)"

text \<open>A program of several such threads and the idle thread.\<close>

datatype loops_at = Loop nat loop_at | CpuIdle

primrec loops_program :: "'g rounds list \<Rightarrow> loops_at \<Rightarrow> (loops_at, 'g, unit) stmt" where
  "loops_program ps (Loop i l) = (if i < length ps then map_stmt (Loop i) (loop_stmt (ps ! i) l) else idle_forever (Loop i l))"
| "loops_program ps CpuIdle = idle_forever CpuIdle"

definition loops_start :: "'g rounds list \<Rightarrow> addr list \<Rightarrow> 'g \<Rightarrow> unit system \<Rightarrow> (loops_at, 'g, unit) app" where
  "loops_start ps us g S =
     \<lparr>sys = S, pc = (\<lambda>u. case find (\<lambda>i. us ! i = u) [0..<length ps] of None \<Rightarrow> CpuIdle | Some i \<Rightarrow> Loop i (loop_top (ps ! i))),
      statics = g\<rparr>"

section \<open>The contract\<close>

text \<open>Every loop has a counter of its own.\<close>

locale counting_loops =
  fixes ps :: "'g rounds list" and counter :: "nat \<Rightarrow> 'g \<Rightarrow> u32"
  assumes calls: "i < length ps \<Longrightarrow> ends_with (ps ! i) \<noteq> event.Tick"
    and bump_own: "i < length ps \<Longrightarrow> counter i (bump (ps ! i) g) = counter i g + 1"
    and bump_other: "i < length ps \<Longrightarrow> j < length ps \<Longrightarrow> i \<noteq> j \<Longrightarrow> counter i (bump (ps ! j) g) = counter i g"

text \<open>Locations after the count and before the end of the round.\<close>

primrec loop_counted :: "loop_at \<Rightarrow> bool" where
  "loop_counted LStart = False" | "loop_counted LCount = False" | "loop_counted (LSpin n) = True" | "loop_counted LCall = True"

lemma loop_top_counted [simp]: "\<not> loop_counted (loop_top p)"
  by (simp add: loop_top_def)

lemma loops_calls:
  assumes "loops_program ps l = Call e k"
  shows "\<exists>i x. l = Loop i x \<and> i < length ps \<and> (x = LStart \<and> e = SetStart 0 \<and> k = (\<lambda>_. Loop i LCount)
    \<or> x = LCall \<and> e = KernelEvent (ends_with (ps ! i)) \<and> k = (\<lambda>_. Loop i (loop_top (ps ! i))))"
proof (cases l)
  case (Loop i x)
  then show ?thesis using assms by (cases x) (auto simp: comp_def split: if_splits)
qed (use assms in simp)

lemma loops_locals:
  assumes "loops_program ps l = Do f l'"
  shows "(\<exists>i. l = Loop i LCount \<and> i < length ps \<and> f = bump (ps ! i) \<and> (\<exists>x. l' = Loop i x \<and> loop_counted x))
    \<or> (\<exists>i x x'. l = Loop i x \<and> l' = Loop i x' \<and> f = id \<and> loop_counted x' = loop_counted x) \<or> l = CpuIdle \<and> l' = CpuIdle \<and> f = id"
proof (cases l)
  case (Loop i x)
  then show ?thesis using assms by (cases x) (auto split: if_splits option.splits nat.splits)
qed (use assms in simp)

lemma loops_no_cycles: "loops_program ps l \<noteq> Cycles k"
proof (cases l)
  case (Loop i x)
  then show ?thesis by (cases x) auto
qed simp

text \<open>Thread \<open>us ! i\<close> is in its loop, with its rounds counted.\<close>

definition loops_good :: "'g rounds list \<Rightarrow> addr list \<Rightarrow> (nat \<Rightarrow> 'g \<Rightarrow> u32) \<Rightarrow> unit history \<Rightarrow> (loops_at, 'g, unit) app \<Rightarrow> bool" where
  "loops_good ps us counter tr A \<longleftrightarrow>
     (\<forall>i < length ps. \<exists>x. pc A (us ! i) = Loop i x
        \<and> counter i (statics A) = of_nat (count_by (us ! i) (KernelEvent (ends_with (ps ! i))) tr) + of_bool (loop_counted x))
     \<and> (\<forall>u i x. pc A u = Loop i x \<longrightarrow> i < length ps \<and> u = us ! i)"

lemma loops_goodD:
  assumes "loops_good ps us counter tr A" "pc A u = Loop i x"
  shows "i < length ps" "u = us ! i"
    "counter i (statics A) = of_nat (count_by u (KernelEvent (ends_with (ps ! i))) tr) + of_bool (loop_counted x)"
  using assms unfolding loops_good_def by force+

lemma loops_good_upd:
  assumes g: "loops_good ps us counter tr A" and d: "distinct us" "length us = length ps" and l: "pc A u = Loop i x"
    and p: "pc A' = (pc A)(u := Loop i x')"
    and own: "counter i (statics A') = of_nat (count_by u (KernelEvent (ends_with (ps ! i))) tr') + of_bool (loop_counted x')"
    and other: "\<And>j. j < length ps \<Longrightarrow> j \<noteq> i \<Longrightarrow> us ! j \<noteq> u \<Longrightarrow> counter j (statics A') = counter j (statics A)
      \<and> count_by (us ! j) (KernelEvent (ends_with (ps ! j))) tr' = count_by (us ! j) (KernelEvent (ends_with (ps ! j))) tr"
  shows "loops_good ps us counter tr' A'"
proof -
  note u = loops_goodD [OF g l]
  have n: "us ! j \<noteq> u" if "j < length ps" "j \<noteq> i" for j using u(1,2) that d by (simp add: nth_eq_iff_index_eq)
  have "\<exists>y. pc A' (us ! j) = Loop j y
      \<and> counter j (statics A') = of_nat (count_by (us ! j) (KernelEvent (ends_with (ps ! j))) tr') + of_bool (loop_counted y)"
    if j: "j < length ps" for j
  proof (cases "j = i")
    case True
    then show ?thesis using p own u(2) by simp
  next
    case False
    obtain y where "pc A (us ! j) = Loop j y" using g j unfolding loops_good_def by blast
    then show ?thesis using loops_goodD(3) [OF g] other [OF j False n [OF j False]] n [OF j False] p by simp
  qed
  moreover have "j < length ps \<and> v = us ! j" if "pc A' v = Loop j y" for v j y
    using loops_goodD(1,2) [OF g, of v j y] u(1,2) that p by (cases "v = u") simp_all
  ultimately show ?thesis unfolding loops_good_def by blast
qed

context counting_loops
begin

lemma loops_guarded: "guarded (loops_program ps) (\<lambda>_. {})"
proof
  show "loops_program ps l = Call e k \<Longrightarrow> \<not> by_hardware e" for l e k using loops_calls [of ps l e k] calls by auto
  show "loops_program ps l = Call e k \<Longrightarrow> uses_guard e i \<Longrightarrow> i \<in> {}" for l e k i
    using loops_calls [of ps l e k] by (auto simp: uses_guard_def)
  show "loops_program ps l = Call e k \<Longrightarrow> has {} i = has {} i + guard_moves e ok u i u" for l e k ok i u
    using loops_calls [of ps l e k] by (auto simp: guard_moves_def)
qed simp_all

end

sublocale counting_loops \<subseteq> guarded "loops_program ps" "\<lambda>_. {}"
  by (rule loops_guarded)

context counting_loops
begin

lemma loops_starts:
  assumes "run_inv (kern S)" "new_objects S"
  shows "starts (loops_start ps us g S)"
  using assms by (simp add: starts_def loops_start_def)

lemma loops_start_good:
  assumes "distinct us" "length us = length ps" "\<And>i. i < length ps \<Longrightarrow> counter i g = 0"
  shows "loops_good ps us counter [] (loops_start ps us g S)"
proof -
  have f: "find (\<lambda>j. us ! j = us ! i) [0..<length ps] = Some i" if "i < length ps" for i
    unfolding find_Some_iff using that assms(1,2) by (intro exI [of _ i]) (auto simp: nth_eq_iff_index_eq)
  have "i < length ps \<and> u = us ! i" if "pc (loops_start ps us g S) u = Loop i x" for u i x
  proof -
    have "find (\<lambda>j. us ! j = u) [0..<length ps] = Some i" using that by (simp add: loops_start_def split: option.splits)
    then show ?thesis by (auto simp: find_Some_iff)
  qed
  moreover have "pc (loops_start ps us g S) (us ! i) = Loop i (loop_top (ps ! i))" if "i < length ps" for i
    using f [OF that] by (simp add: loops_start_def)
  moreover have "statics (loops_start ps us g S) = g" by (simp add: loops_start_def)
  ultimately show ?thesis using assms(3) by (simp add: loops_good_def count_by_def)
qed

lemma loops_run_good:
  assumes r: "app_run (loops_program ps) (loops_start ps us g S) tr A" and S: "run_inv (kern S)" "new_objects S"
    and d: "distinct us" "length us = length ps" "\<And>i. i < length ps \<Longrightarrow> counter i g = 0"
  shows "loops_good ps us counter tr A"
  using r
proof (induction rule: app_run.induct)
  case app_init
  then show ?case by (rule loops_start_good [OF d])
next
  case (app_hw tr A e ok S')
  have "count_by v (KernelEvent (ends_with (ps ! i))) (tr @ [(running (sys A), e, ok)])
      = count_by v (KernelEvent (ends_with (ps ! i))) tr" if "i < length ps" for v i
    using calls [OF that] app_hw.hyps(2) by (auto simp: count_snoc)
  then show ?case using app_hw.IH by (simp add: loops_good_def)
next
  case (app_call tr A u e k ok S')
  note st = loops_starts [OF S, of us g] and g = app_call.IH
  have x: "ok = expected e (sys A)"
    using app_call_moves(1) [OF app_call.hyps(1) st st] app_call.hyps(2-4) sys_movesD(4) by blast
  obtain i l where l: "pc A u = Loop i l" "l = LStart \<and> e = SetStart 0 \<and> k = (\<lambda>_. Loop i LCount)
    \<or> l = LCall \<and> e = KernelEvent (ends_with (ps ! i)) \<and> k = (\<lambda>_. Loop i (loop_top (ps ! i)))"
    using loops_calls [OF app_call.hyps(3)] by blast
  note u = loops_goodD [OF g l(1)]
  have ok: "ok = Done" using l(2) x by auto
  from l(2) show ?case
  proof (elim disjE conjE)
    assume e: "l = LStart" "e = SetStart 0" "k = (\<lambda>_. Loop i LCount)"
    show ?thesis by (rule loops_good_upd [OF g d(1,2) l(1), where x' = "LCount"]) (use e ok u in \<open>simp_all add: count_snoc\<close>)
  next
    assume e: "l = LCall" "e = KernelEvent (ends_with (ps ! i))" "k = (\<lambda>_. Loop i (loop_top (ps ! i)))"
    show ?thesis by (rule loops_good_upd [OF g d(1,2) l(1), where x' = "loop_top (ps ! i)"]) (use e ok u in \<open>auto simp: count_snoc\<close>)
  qed
next
  case (app_do tr A u f l')
  note g = app_do.IH
  from loops_locals [OF app_do.hyps(3)] show ?case
  proof (elim disjE exE conjE)
    fix i x assume l: "pc A u = Loop i LCount" "f = bump (ps ! i)" "l' = Loop i x" "loop_counted x"
    note u = loops_goodD [OF g l(1)]
    show ?thesis by (rule loops_good_upd [OF g d(1,2) l(1), where x' = "x"]) (use l u bump_own [OF u(1)] bump_other [OF _ u(1)] in simp_all)
  next
    fix i x x' assume l: "pc A u = Loop i x" "l' = Loop i x'" "f = id" "loop_counted x' = loop_counted x"
    show ?thesis by (rule loops_good_upd [OF g d(1,2) l(1), where x' = "x'"]) (use l loops_goodD [OF g l(1)] in simp_all)
  next
    assume "pc A u = CpuIdle" "l' = CpuIdle" "f = id"
    then have "(pc A)(u := l') = pc A" "f (statics A) = statics A" by auto
    then show ?thesis using g by (simp add: loops_good_def)
  qed
next
  case (app_cycles tr A u k c)
  then show ?case using loops_no_cycles by blast
qed

text \<open>The counter of a thread is the number of its rounds, or one more while a round is not finished.\<close>

lemma loops_counters:
  assumes "app_run (loops_program ps) (loops_start ps us g S) tr A" "run_inv (kern S)" "new_objects S"
    "distinct us" "length us = length ps" "\<And>i. i < length ps \<Longrightarrow> counter i g = 0" "i < length ps"
  shows "counter i (statics A) - of_nat (count_by (us ! i) (KernelEvent (ends_with (ps ! i))) tr) \<in> {0, 1}"
  using loops_run_good [OF assms(1-6)] assms(7) unfolding loops_good_def by fastforce

end

end
