(* ===== verification/SmallExamples.thy ===== *)
theory SmallExamples
  imports CountLoops
begin

text \<open>
  The example programs \<^verbatim>\<open>minimal_cfs.rs\<close>, \<^verbatim>\<open>sleep_wake.rs\<close>, \<^verbatim>\<open>minimal_rt.rs\<close> and \<^verbatim>\<open>mixed_rt_cfs.rs\<close>: threads of one or both
  classes that count their rounds. Their main functions complete, and in every execution the counters are exact.
  In the main functions \<open>taken\<close> says whether the peripherals could be taken.
\<close>

section \<open>One CFS thread: minimal\_cfs\<close>

record mc_statics =
  WORKER_RUNS :: u32

record mc_layout = idle_layout +
  WORKER_STACK :: addr
  WORKER_THREAD :: addr
  cfs_worker_fn :: addr

definition cfs_worker :: "mc_statics rounds" where
  "cfs_worker = \<lparr>restarts = False, bump = WORKER_RUNS_update (\<lambda>x. x + 1), spins = Some 2000, ends_with = YieldThread\<rparr>"

definition mc_main :: "bool \<Rightarrow> mc_layout \<Rightarrow> kstate \<times> mem \<Rightarrow> (kstate \<times> mem) option" where
  "mc_main taken L = (\<lambda>(s, m). do {
     s \<leftarrow> init_scheduler True s;
     (_, s, m) \<leftarrow> CfsThreadBuilder_spawn (WORKER_THREAD L) (WORKER_STACK L) STACK_WORDS
        (CfsThreadBuilder_new ''worker'' (cfs_worker_fn L) 1) (s, m);
     require taken;
     s \<leftarrow> configure_systick s;
     start_idle L (s, m)
   })"

section \<open>Two sleepers: sleep\_wake\<close>

record sw_statics =
  FAST_WAKEUPS :: u32
  SLOW_WAKEUPS :: u32

record sw_layout = idle_layout +
  FAST_SLEEPER_STACK :: addr
  FAST_SLEEPER_THREAD :: addr
  SLOW_SLEEPER_STACK :: addr
  SLOW_SLEEPER_THREAD :: addr
  fast_sleeper_fn :: addr
  slow_sleeper_fn :: addr

definition fast_sleeper :: "sw_statics rounds" where
  "fast_sleeper = \<lparr>restarts = False, bump = FAST_WAKEUPS_update (\<lambda>x. x + 1), spins = None, ends_with = Sleep 50\<rparr>"

definition slow_sleeper :: "sw_statics rounds" where
  "slow_sleeper = \<lparr>restarts = False, bump = SLOW_WAKEUPS_update (\<lambda>x. x + 1), spins = None, ends_with = Sleep 250\<rparr>"

definition sw_main :: "bool \<Rightarrow> sw_layout \<Rightarrow> kstate \<times> mem \<Rightarrow> (kstate \<times> mem) option" where
  "sw_main taken L = (\<lambda>(s, m). do {
     s \<leftarrow> init_scheduler True s;
     (_, s, m) \<leftarrow> CfsThreadBuilder_spawn (FAST_SLEEPER_THREAD L) (FAST_SLEEPER_STACK L) STACK_WORDS
        (CfsThreadBuilder_new ''fast_sleeper'' (fast_sleeper_fn L) 1) (s, m);
     (_, s, m) \<leftarrow> CfsThreadBuilder_spawn (SLOW_SLEEPER_THREAD L) (SLOW_SLEEPER_STACK L) STACK_WORDS
        (CfsThreadBuilder_new ''slow_sleeper'' (slow_sleeper_fn L) 1) (s, m);
     require taken;
     s \<leftarrow> configure_systick s;
     start_idle L (s, m)
   })"

section \<open>One real-time thread: minimal\_rt\<close>

record mr_statics =
  CONTROL_JOBS :: u32

record mr_layout = idle_layout +
  CONTROL_STACK :: addr
  CONTROL_THREAD :: addr
  CONTROL_TIMER :: addr
  control_loop_fn :: addr

definition RT_PERIOD_TICKS :: u32 where
  "RT_PERIOD_TICKS = 50 * TICKS_PER_MS"

definition RT_DEADLINE_TICKS :: u32 where
  "RT_DEADLINE_TICKS = 20 * TICKS_PER_MS"

definition RT_BUDGET_TICKS :: u32 where
  "RT_BUDGET_TICKS = 5 * TICKS_PER_MS"

definition control_timer_init :: RtKTimer where
  "control_timer_init = RtKTimer_new_with_timing (RtTiming_new RT_PERIOD_TICKS RT_DEADLINE_TICKS RT_BUDGET_TICKS) 0 ''control''"

definition control_loop :: "mr_statics rounds" where
  "control_loop = \<lparr>restarts = True, bump = CONTROL_JOBS_update (\<lambda>x. x + 1), spins = Some 8000, ends_with = YieldThread\<rparr>"

definition mr_main :: "bool \<Rightarrow> mr_layout \<Rightarrow> kstate \<times> mem \<Rightarrow> (kstate \<times> mem) option" where
  "mr_main taken L = (\<lambda>(s, m). do {
     s \<leftarrow> init_scheduler False s;
     (_, s, m) \<leftarrow> RtThreadBuilder_spawn (CONTROL_THREAD L) (CONTROL_STACK L) STACK_WORDS
        (RtThreadBuilder_new ''control'' (control_loop_fn L) (CONTROL_TIMER L)) (s, m);
     require taken;
     s \<leftarrow> configure_systick s;
     start_idle L (s, m)
   })"

section \<open>Both classes: mixed\_rt\_cfs\<close>

record mx_statics =
  FAST_JOBS :: u32
  SLOW_JOBS :: u32
  BACKGROUND_LOOPS :: u32

record mx_layout = idle_layout +
  BACKGROUND_STACK :: addr
  BACKGROUND_THREAD :: addr
  FAST_RT_STACK :: addr
  FAST_RT_THREAD :: addr
  FAST_RT_TIMER :: addr
  SLOW_RT_STACK :: addr
  SLOW_RT_THREAD :: addr
  SLOW_RT_TIMER :: addr
  background_work_fn :: addr
  fast_rt_job_fn :: addr
  slow_rt_job_fn :: addr

definition FAST_PERIOD_TICKS :: u32 where
  "FAST_PERIOD_TICKS = 40 * TICKS_PER_MS"

definition FAST_DEADLINE_TICKS :: u32 where
  "FAST_DEADLINE_TICKS = 15 * TICKS_PER_MS"

definition FAST_BUDGET_TICKS :: u32 where
  "FAST_BUDGET_TICKS = 4 * TICKS_PER_MS"

definition SLOW_PERIOD_TICKS :: u32 where
  "SLOW_PERIOD_TICKS = 100 * TICKS_PER_MS"

definition SLOW_DEADLINE_TICKS :: u32 where
  "SLOW_DEADLINE_TICKS = 60 * TICKS_PER_MS"

definition SLOW_BUDGET_TICKS :: u32 where
  "SLOW_BUDGET_TICKS = 10 * TICKS_PER_MS"

definition fast_rt_timer_init :: RtKTimer where
  "fast_rt_timer_init = RtKTimer_new_with_timing (RtTiming_new FAST_PERIOD_TICKS FAST_DEADLINE_TICKS FAST_BUDGET_TICKS) 0 ''fast_rt''"

definition slow_rt_timer_init :: RtKTimer where
  "slow_rt_timer_init = RtKTimer_new_with_timing (RtTiming_new SLOW_PERIOD_TICKS SLOW_DEADLINE_TICKS SLOW_BUDGET_TICKS) 0 ''slow_rt''"

definition background_work :: "mx_statics rounds" where
  "background_work = \<lparr>restarts = False, bump = BACKGROUND_LOOPS_update (\<lambda>x. x + 1), spins = None, ends_with = Sleep 100\<rparr>"

definition fast_rt_job :: "mx_statics rounds" where
  "fast_rt_job = \<lparr>restarts = True, bump = FAST_JOBS_update (\<lambda>x. x + 1), spins = Some 4000, ends_with = YieldThread\<rparr>"

definition slow_rt_job :: "mx_statics rounds" where
  "slow_rt_job = \<lparr>restarts = True, bump = SLOW_JOBS_update (\<lambda>x. x + 1), spins = Some 12000, ends_with = YieldThread\<rparr>"

definition mx_main :: "bool \<Rightarrow> mx_layout \<Rightarrow> kstate \<times> mem \<Rightarrow> (kstate \<times> mem) option" where
  "mx_main taken L = (\<lambda>(s, m). do {
     s \<leftarrow> init_scheduler True s;
     (_, s, m) \<leftarrow> CfsThreadBuilder_spawn (BACKGROUND_THREAD L) (BACKGROUND_STACK L) STACK_WORDS
        (CfsThreadBuilder_new ''background'' (background_work_fn L) 4) (s, m);
     (_, s, m) \<leftarrow> RtThreadBuilder_spawn (FAST_RT_THREAD L) (FAST_RT_STACK L) STACK_WORDS
        (RtThreadBuilder_new ''fast_rt'' (fast_rt_job_fn L) (FAST_RT_TIMER L)) (s, m);
     (_, s, m) \<leftarrow> RtThreadBuilder_spawn (SLOW_RT_THREAD L) (SLOW_RT_STACK L) STACK_WORDS
        (RtThreadBuilder_new ''slow_rt'' (slow_rt_job_fn L) (SLOW_RT_TIMER L)) (s, m);
     require taken;
     s \<leftarrow> configure_systick s;
     start_idle L (s, m)
   })"

section \<open>The loops count\<close>

abbreviation mc_loops :: "mc_statics rounds list" where
  "mc_loops \<equiv> [cfs_worker]"

abbreviation sw_loops :: "sw_statics rounds list" where
  "sw_loops \<equiv> [fast_sleeper, slow_sleeper]"

abbreviation mr_loops :: "mr_statics rounds list" where
  "mr_loops \<equiv> [control_loop]"

abbreviation mx_loops :: "mx_statics rounds list" where
  "mx_loops \<equiv> [background_work, fast_rt_job, slow_rt_job]"

abbreviation mc_counter :: "nat \<Rightarrow> mc_statics \<Rightarrow> u32" where
  "mc_counter i \<equiv> [WORKER_RUNS] ! i"

abbreviation sw_counter :: "nat \<Rightarrow> sw_statics \<Rightarrow> u32" where
  "sw_counter i \<equiv> [FAST_WAKEUPS, SLOW_WAKEUPS] ! i"

abbreviation mr_counter :: "nat \<Rightarrow> mr_statics \<Rightarrow> u32" where
  "mr_counter i \<equiv> [CONTROL_JOBS] ! i"

abbreviation mx_counter :: "nat \<Rightarrow> mx_statics \<Rightarrow> u32" where
  "mx_counter i \<equiv> [BACKGROUND_LOOPS, FAST_JOBS, SLOW_JOBS] ! i"

interpretation mcl: counting_loops mc_loops mc_counter
  by unfold_locales (simp_all add: cfs_worker_def)

interpretation swl: counting_loops sw_loops sw_counter
  by unfold_locales (auto simp: less_Suc_eq fast_sleeper_def slow_sleeper_def)

interpretation mrl: counting_loops mr_loops mr_counter
  by unfold_locales (simp_all add: control_loop_def)

interpretation mxl: counting_loops mx_loops mx_counter
  by unfold_locales (auto simp: less_Suc_eq background_work_def fast_rt_job_def slow_rt_job_def)

section \<open>The whole programs\<close>

definition cfs_req :: "string \<Rightarrow> addr \<Rightarrow> u32 \<Rightarrow> addr \<Rightarrow> addr \<Rightarrow> spawn_request" where
  "cfs_req nm fn p t st = \<lparr>req_thread = t, req_stack = st, req_words = STACK_WORDS, req_start = ThreadStart_new nm fn, req_args = CfsArgs p\<rparr>"

definition rt_req :: "string \<Rightarrow> addr \<Rightarrow> addr \<Rightarrow> addr \<Rightarrow> addr \<Rightarrow> spawn_request" where
  "rt_req nm fn k t st = \<lparr>req_thread = t, req_stack = st, req_words = STACK_WORDS, req_start = ThreadStart_new nm fn, req_args = RtArgs k\<rparr>"

lemmas req_defs = cfs_req_def rt_req_def valid_requests_def cfs_requests_def req_timers_def

text \<open>The threads count from zero, and every execution keeps the invariant of the system.\<close>

lemma small_programs_count:
  assumes S: "run_inv (kern S)" "new_objects S"
  shows "app_run (loops_program mc_loops) (loops_start mc_loops [w] \<lparr>WORKER_RUNS = 0\<rparr> S) tr A \<Longrightarrow>
      sys_inv (sys A) \<and> WORKER_RUNS (statics A) - of_nat (count_by w (KernelEvent YieldThread) tr) \<in> {0, 1}"
    "f \<noteq> w \<Longrightarrow> app_run (loops_program sw_loops) (loops_start sw_loops [f, w] \<lparr>FAST_WAKEUPS = 0, SLOW_WAKEUPS = 0\<rparr> S) tr B \<Longrightarrow>
      sys_inv (sys B) \<and> FAST_WAKEUPS (statics B) - of_nat (count_by f (KernelEvent (Sleep 50)) tr) \<in> {0, 1}
      \<and> SLOW_WAKEUPS (statics B) - of_nat (count_by w (KernelEvent (Sleep 250)) tr) \<in> {0, 1}"
    "app_run (loops_program mr_loops) (loops_start mr_loops [w] \<lparr>CONTROL_JOBS = 0\<rparr> S) tr C \<Longrightarrow>
      sys_inv (sys C) \<and> CONTROL_JOBS (statics C) - of_nat (count_by w (KernelEvent YieldThread) tr) \<in> {0, 1}"
    "distinct [b, f, w] \<Longrightarrow>
      app_run (loops_program mx_loops) (loops_start mx_loops [b, f, w] \<lparr>FAST_JOBS = 0, SLOW_JOBS = 0, BACKGROUND_LOOPS = 0\<rparr> S) tr D \<Longrightarrow>
      sys_inv (sys D) \<and> BACKGROUND_LOOPS (statics D) - of_nat (count_by b (KernelEvent (Sleep 100)) tr) \<in> {0, 1}
      \<and> FAST_JOBS (statics D) - of_nat (count_by f (KernelEvent YieldThread) tr) \<in> {0, 1}
      \<and> SLOW_JOBS (statics D) - of_nat (count_by w (KernelEvent YieldThread) tr) \<in> {0, 1}"
proof -
  assume r: "app_run (loops_program mc_loops) (loops_start mc_loops [w] \<lparr>WORKER_RUNS = 0\<rparr> S) tr A"
  show "sys_inv (sys A) \<and> WORKER_RUNS (statics A) - of_nat (count_by w (KernelEvent YieldThread) tr) \<in> {0, 1}"
    using mcl.loops_counters [OF r S, of 0] mcl.app_run_sys(3) [OF r mcl.loops_starts [OF S]] by (simp add: cfs_worker_def)
next
  assume r: "f \<noteq> w" "app_run (loops_program sw_loops) (loops_start sw_loops [f, w] \<lparr>FAST_WAKEUPS = 0, SLOW_WAKEUPS = 0\<rparr> S) tr B"
  have c: "sw_counter i \<lparr>FAST_WAKEUPS = 0, SLOW_WAKEUPS = 0\<rparr> = 0" if "i < length sw_loops" for i
    using that by (auto simp: less_Suc_eq)
  show "sys_inv (sys B) \<and> FAST_WAKEUPS (statics B) - of_nat (count_by f (KernelEvent (Sleep 50)) tr) \<in> {0, 1}
      \<and> SLOW_WAKEUPS (statics B) - of_nat (count_by w (KernelEvent (Sleep 250)) tr) \<in> {0, 1}"
    using swl.loops_counters [OF r(2) S _ _ c, of 0] swl.loops_counters [OF r(2) S _ _ c, of 1] r(1)
      swl.app_run_sys(3) [OF r(2) swl.loops_starts [OF S]] by (simp add: fast_sleeper_def slow_sleeper_def)
next
  assume r: "app_run (loops_program mr_loops) (loops_start mr_loops [w] \<lparr>CONTROL_JOBS = 0\<rparr> S) tr C"
  show "sys_inv (sys C) \<and> CONTROL_JOBS (statics C) - of_nat (count_by w (KernelEvent YieldThread) tr) \<in> {0, 1}"
    using mrl.loops_counters [OF r S, of 0] mrl.app_run_sys(3) [OF r mrl.loops_starts [OF S]] by (simp add: control_loop_def)
next
  let ?g = "\<lparr>FAST_JOBS = 0, SLOW_JOBS = 0, BACKGROUND_LOOPS = 0\<rparr>"
  assume r: "distinct [b, f, w]" "app_run (loops_program mx_loops) (loops_start mx_loops [b, f, w] ?g S) tr D"
  have c: "mx_counter i ?g = 0" if "i < length mx_loops" for i using that by (auto simp: less_Suc_eq)
  note n = mxl.loops_counters [OF r(2) S r(1) _ c]
  show "sys_inv (sys D) \<and> BACKGROUND_LOOPS (statics D) - of_nat (count_by b (KernelEvent (Sleep 100)) tr) \<in> {0, 1}
      \<and> FAST_JOBS (statics D) - of_nat (count_by f (KernelEvent YieldThread) tr) \<in> {0, 1}
      \<and> SLOW_JOBS (statics D) - of_nat (count_by w (KernelEvent YieldThread) tr) \<in> {0, 1}"
    using n [of 0] n [of 1] n [of 2] mxl.app_run_sys(3) [OF r(2) mxl.loops_starts [OF S]]
    by (simp add: background_work_def fast_rt_job_def slow_rt_job_def)
qed

definition mx_loaded :: "mx_layout \<Rightarrow> kstate \<Rightarrow> bool" where
  "mx_loaded L s \<longleftrightarrow>
     loaded s \<and> distinct [0, BACKGROUND_THREAD L, FAST_RT_THREAD L, SLOW_RT_THREAD L, IDLE_THREAD L]
     \<and> stack_ok (BACKGROUND_STACK L) \<and> stack_ok (FAST_RT_STACK L) \<and> stack_ok (SLOW_RT_STACK L) \<and> stack_ok (IDLE_STACK L)
     \<and> distinct [0, CFS_KTIMER s, WAIT_KTIMER s, FAST_RT_TIMER L, SLOW_RT_TIMER L]
     \<and> ktimers s (FAST_RT_TIMER L) = fast_rt_timer_init \<and> ktimers s (SLOW_RT_TIMER L) = slow_rt_timer_init"

lemma mx_main_ok:
  assumes "mx_loaded L s"
  obtains s' m' where "mx_main True L (s, m) = Some (s', m')" "run_inv s'" "CURRENT_THREAD_CTX s' = IDLE_THREAD L"
    "runnable_set s' = {BACKGROUND_THREAD L}" "queued s' = {FAST_RT_TIMER L, SLOW_RT_TIMER L, CFS_KTIMER s, WAIT_KTIMER s}"
proof -
  note l = assms [unfolded mx_loaded_def]
  let ?rs = "[cfs_req ''background'' (background_work_fn L) 4 (BACKGROUND_THREAD L) (BACKGROUND_STACK L),
    rt_req ''fast_rt'' (fast_rt_job_fn L) (FAST_RT_TIMER L) (FAST_RT_THREAD L) (FAST_RT_STACK L),
    rt_req ''slow_rt'' (slow_rt_job_fn L) (SLOW_RT_TIMER L) (SLOW_RT_THREAD L) (SLOW_RT_STACK L)]"
  have v: "valid_requests ?rs s" using l stack_ok_spawn by (simp add: req_defs)
  have r: "cfs_requests ?rs = {BACKGROUND_THREAD L}" "set (req_timers ?rs) = {FAST_RT_TIMER L, SLOW_RT_TIMER L}"
    "IDLE_THREAD L \<notin> req_thread ` set ?rs" using l by (auto simp: req_defs)
  obtain s1 s2 m2 s3 s' m' where
    s: "init_scheduler True s = Some s1" "spawn_all ?rs (s1, m) = Some (s2, m2)" "configure_systick s2 = Some s3"
      "start_idle L (s3, m2) = Some (s', m')" "run_inv s'" "CURRENT_THREAD_CTX s' = IDLE_THREAD L" "runnable_set s' = cfs_requests ?rs"
      "queued s' = set (req_timers ?rs) \<union> {CFS_KTIMER s} \<union> {WAIT_KTIMER s}"
    by (rule example_runs [of s ?rs True L m]) (use l v r in auto)
  from s(1-4) have "mx_main True L (s, m) = Some (s', m')"
    by (auto simp: mx_main_def require_def req_defs spawn_defs split: bind_splits)
  then show ?thesis using that s(5-8) r(1,2) by (simp add: insert_commute)
qed

text \<open>
  C11: the example program \<^verbatim>\<open>mixed_rt_cfs.rs\<close> from reset on: its main function completes for every layout of its statics, with
  both real-time timers queued and the background thread runnable; every execution that follows keeps the
  invariants of the system, and the three counters are the numbers of rounds the threads have finished, or one more
  during a round.
\<close>

theorem rounds_counted:
  assumes "mx_loaded L s"
  shows "\<exists>s' m'. mx_main True L (s, m) = Some (s', m') \<and> CURRENT_THREAD_CTX s' = IDLE_THREAD L
    \<and> runnable_set s' = {BACKGROUND_THREAD L} \<and> queued s' = {FAST_RT_TIMER L, SLOW_RT_TIMER L, CFS_KTIMER s, WAIT_KTIMER s}
    \<and> (\<forall>S tr A. kern S = s' \<and> new_objects S
        \<and> app_run (loops_program mx_loops) (loops_start mx_loops [BACKGROUND_THREAD L, FAST_RT_THREAD L, SLOW_RT_THREAD L]
            \<lparr>FAST_JOBS = 0, SLOW_JOBS = 0, BACKGROUND_LOOPS = 0\<rparr> S) tr A \<longrightarrow>
        sys_inv (sys A)
        \<and> BACKGROUND_LOOPS (statics A) - of_nat (count_by (BACKGROUND_THREAD L) (KernelEvent (Sleep 100)) tr) \<in> {0, 1}
        \<and> FAST_JOBS (statics A) - of_nat (count_by (FAST_RT_THREAD L) (KernelEvent YieldThread) tr) \<in> {0, 1}
        \<and> SLOW_JOBS (statics A) - of_nat (count_by (SLOW_RT_THREAD L) (KernelEvent YieldThread) tr) \<in> {0, 1})"
proof -
  obtain s' m' where s': "mx_main True L (s, m) = Some (s', m')" "run_inv s'" "CURRENT_THREAD_CTX s' = IDLE_THREAD L"
    "runnable_set s' = {BACKGROUND_THREAD L}" "queued s' = {FAST_RT_TIMER L, SLOW_RT_TIMER L, CFS_KTIMER s, WAIT_KTIMER s}"
    by (rule mx_main_ok [OF assms])
  have d: "distinct [BACKGROUND_THREAD L, FAST_RT_THREAD L, SLOW_RT_THREAD L]" using assms by (simp add: mx_loaded_def)
  show ?thesis using s' small_programs_count(4) [OF _ _ d] by blast
qed

definition mx_sample_layout :: mx_layout where
  "mx_sample_layout =
     \<lparr>IDLE_STACK = 8000, IDLE_THREAD = 1000, cpu_idle_fn = 64, BACKGROUND_STACK = 12000, BACKGROUND_THREAD = 2000,
      FAST_RT_STACK = 16000, FAST_RT_THREAD = 3000, FAST_RT_TIMER = 500, SLOW_RT_STACK = 20000, SLOW_RT_THREAD = 4000, SLOW_RT_TIMER = 600,
      background_work_fn = 68, fast_rt_job_fn = 72, slow_rt_job_fn = 76\<rparr>"

definition mx_sample_loaded :: kstate where
  "mx_sample_loaded = sample_loaded\<lparr>ktimers := (ktimers sample_loaded)(500 := fast_rt_timer_init, 600 := slow_rt_timer_init)\<rparr>"

lemma mx_sample_loaded: "mx_loaded mx_sample_layout mx_sample_loaded"
proof -
  have c: "CFS_KTIMER sample_loaded = 100" "WAIT_KTIMER sample_loaded = 104" by (simp_all add: sample_loaded_def)
  have "loaded mx_sample_loaded" using sample_loaded by (simp add: loaded_def mx_sample_loaded_def)
  then show ?thesis by (simp add: mx_loaded_def mx_sample_layout_def stack_ok_def) (simp add: mx_sample_loaded_def c)
qed

theorem rounds_counted_witness:
  "\<exists>s' m' S. mx_main True mx_sample_layout (mx_sample_loaded, \<lambda>_. 0) = Some (s', m') \<and> kern S = s' \<and> new_objects S \<and> sys_inv S
    \<and> app_run (loops_program mx_loops) (loops_start mx_loops [2000, 3000, 4000] \<lparr>FAST_JOBS = 0, SLOW_JOBS = 0, BACKGROUND_LOOPS = 0\<rparr> S) []
        (loops_start mx_loops [2000, 3000, 4000] \<lparr>FAST_JOBS = 0, SLOW_JOBS = 0, BACKGROUND_LOOPS = 0\<rparr> S)"
proof -
  let ?A = "\<lambda>S. loops_start mx_loops [2000, 3000, 4000] \<lparr>FAST_JOBS = 0, SLOW_JOBS = 0, BACKGROUND_LOOPS = 0\<rparr> S"
  have L: "BACKGROUND_THREAD mx_sample_layout = 2000" "FAST_RT_THREAD mx_sample_layout = 3000" "SLOW_RT_THREAD mx_sample_layout = 4000"
    by (simp_all add: mx_sample_layout_def)
  from rounds_counted [OF mx_sample_loaded, of "\<lambda>_. 0", unfolded L] obtain s' m' where
    m: "mx_main True mx_sample_layout (mx_sample_loaded, \<lambda>_. 0) = Some (s', m')"
    and e: "\<And>S tr A. kern S = s' \<Longrightarrow> new_objects S \<Longrightarrow> app_run (loops_program mx_loops) (?A S) tr A \<Longrightarrow> sys_inv (sys A)" by blast
  define S where "S = (new_system ())\<lparr>kern := s'\<rparr>"
  have S: "kern S = s'" "new_objects S" using new_system_objects [of "()"] by (simp_all add: S_def new_objects_def mutex_def)
  have "sys_inv S" using e [OF S app_init] by (simp add: loops_start_def)
  then show ?thesis using m S app_init by blast
qed

text \<open>The main functions of the other programs.\<close>

lemma mc_main_ok:
  assumes "loaded s" "distinct [0, WORKER_THREAD L, IDLE_THREAD L]" "stack_ok (WORKER_STACK L)" "stack_ok (IDLE_STACK L)"
  obtains s' m' where "mc_main True L (s, m) = Some (s', m')" "run_inv s'" "CURRENT_THREAD_CTX s' = IDLE_THREAD L"
    "runnable_set s' = {WORKER_THREAD L}"
proof -
  let ?rs = "[cfs_req ''worker'' (cfs_worker_fn L) 1 (WORKER_THREAD L) (WORKER_STACK L)]"
  have v: "valid_requests ?rs s" using assms stack_ok_spawn by (simp add: req_defs loaded_def)
  have r: "cfs_requests ?rs = {WORKER_THREAD L}" "IDLE_THREAD L \<notin> req_thread ` set ?rs" using assms by (auto simp: req_defs)
  obtain s1 s2 m2 s3 s' m' where
    s: "init_scheduler True s = Some s1" "spawn_all ?rs (s1, m) = Some (s2, m2)" "configure_systick s2 = Some s3"
      "start_idle L (s3, m2) = Some (s', m')" "run_inv s'" "CURRENT_THREAD_CTX s' = IDLE_THREAD L" "runnable_set s' = cfs_requests ?rs"
    by (rule example_runs [of s ?rs True L m]) (use assms v r in auto)
  from s(1-4) have "mc_main True L (s, m) = Some (s', m')"
    by (auto simp: mc_main_def require_def req_defs spawn_defs split: bind_splits)
  then show ?thesis using that s(5-7) r(1) by simp
qed

lemma sw_main_ok:
  assumes "loaded s" "distinct [0, FAST_SLEEPER_THREAD L, SLOW_SLEEPER_THREAD L, IDLE_THREAD L]"
    "stack_ok (FAST_SLEEPER_STACK L)" "stack_ok (SLOW_SLEEPER_STACK L)" "stack_ok (IDLE_STACK L)"
  obtains s' m' where "sw_main True L (s, m) = Some (s', m')" "run_inv s'" "CURRENT_THREAD_CTX s' = IDLE_THREAD L"
    "runnable_set s' = {FAST_SLEEPER_THREAD L, SLOW_SLEEPER_THREAD L}"
proof -
  let ?rs = "[cfs_req ''fast_sleeper'' (fast_sleeper_fn L) 1 (FAST_SLEEPER_THREAD L) (FAST_SLEEPER_STACK L),
    cfs_req ''slow_sleeper'' (slow_sleeper_fn L) 1 (SLOW_SLEEPER_THREAD L) (SLOW_SLEEPER_STACK L)]"
  have v: "valid_requests ?rs s" using assms stack_ok_spawn by (simp add: req_defs loaded_def)
  have r: "cfs_requests ?rs = {FAST_SLEEPER_THREAD L, SLOW_SLEEPER_THREAD L}" "IDLE_THREAD L \<notin> req_thread ` set ?rs"
    using assms by (auto simp: req_defs)
  obtain s1 s2 m2 s3 s' m' where
    s: "init_scheduler True s = Some s1" "spawn_all ?rs (s1, m) = Some (s2, m2)" "configure_systick s2 = Some s3"
      "start_idle L (s3, m2) = Some (s', m')" "run_inv s'" "CURRENT_THREAD_CTX s' = IDLE_THREAD L" "runnable_set s' = cfs_requests ?rs"
    by (rule example_runs [of s ?rs True L m]) (use assms v r in auto)
  from s(1-4) have "sw_main True L (s, m) = Some (s', m')"
    by (auto simp: sw_main_def require_def req_defs spawn_defs split: bind_splits)
  then show ?thesis using that s(5-7) r(1) by simp
qed

lemma mr_main_ok:
  assumes "loaded s" "distinct [0, CONTROL_THREAD L, IDLE_THREAD L]" "stack_ok (CONTROL_STACK L)" "stack_ok (IDLE_STACK L)"
    "distinct [0, CFS_KTIMER s, WAIT_KTIMER s, CONTROL_TIMER L]" "ktimers s (CONTROL_TIMER L) = control_timer_init"
  obtains s' m' where "mr_main True L (s, m) = Some (s', m')" "run_inv s'" "CURRENT_THREAD_CTX s' = IDLE_THREAD L"
    "queued s' = {CONTROL_TIMER L, WAIT_KTIMER s}"
proof -
  let ?rs = "[rt_req ''control'' (control_loop_fn L) (CONTROL_TIMER L) (CONTROL_THREAD L) (CONTROL_STACK L)]"
  have v: "valid_requests ?rs s" using assms stack_ok_spawn by (simp add: req_defs)
  have r: "cfs_requests ?rs = {}" "set (req_timers ?rs) = {CONTROL_TIMER L}" "IDLE_THREAD L \<notin> req_thread ` set ?rs"
    using assms by (auto simp: req_defs)
  obtain s1 s2 m2 s3 s' m' where
    s: "init_scheduler False s = Some s1" "spawn_all ?rs (s1, m) = Some (s2, m2)" "configure_systick s2 = Some s3"
      "start_idle L (s3, m2) = Some (s', m')" "run_inv s'" "CURRENT_THREAD_CTX s' = IDLE_THREAD L"
      "queued s' = set (req_timers ?rs) \<union> {WAIT_KTIMER s}"
    by (rule example_runs [of s ?rs False L m]) (use assms v r in auto)
  from s(1-4) have "mr_main True L (s, m) = Some (s', m')"
    by (auto simp: mr_main_def require_def req_defs spawn_defs split: bind_splits)
  then show ?thesis using that s(5-7) r(2) by (simp add: insert_commute)
qed

end
