(* ===== verification/Spec2Isabelle.thy ===== *)
theory Spec2Isabelle
  imports RbApi QueueProps TimerProps SchedProps SyncProps MessageProps StartProps SystemProps SwitchProps DiagProps LayoutProps Ports Wakeups MsgExample MtxExample CntExample BinExample SmallExamples
begin

text \<open>
  A verification development of the \<^verbatim>\<open>rtsched\<close> scheduler library, a preemptive scheduler for
  Cortex-M microcontrollers with fixed-period real-time threads (earliest deadline first) and
  proportional-share CFS threads.

  \<^bold>\<open>The program.\<close> Threads are control blocks in static storage (\<^verbatim>\<open>src/thread.rs\<close>). Runnable CFS
  threads are in the run queue (\<^verbatim>\<open>src/runq.rs\<close>), blocked threads in the wait queue (\<^verbatim>\<open>src/waitq.rs\<close>),
  and every real-time thread, the CFS class as a whole and the wait queue own a kernel timer in the
  timer queue (\<^verbatim>\<open>src/ktimer.rs\<close>); all queues are intrusive red-black trees (\<^verbatim>\<open>src/rbtree.rs\<close>). The timer
  interrupt advances time, dispatches expired timers and requests a context switch, in which
  \<open>schedule\<close> (\<^verbatim>\<open>src/sched.rs\<close>) selects the next thread. Semaphores and mutexes (\<^verbatim>\<open>src/sync.rs\<close>) and message
  queues (\<^verbatim>\<open>src/message.rs\<close>) block and wake threads through the same moves between queues. The platform
  (\<^verbatim>\<open>src/arch\<close>) supplies the timer, critical sections and the context switch, for Cortex-M and for the host;
  \<^verbatim>\<open>src/diagnostics\<close> and \<^verbatim>\<open>src/print.rs\<close> report on all of it.

  \<^bold>\<open>How it is modelled.\<close> All statics and control blocks are one record \<open>kstate\<close> (theory \<open>Kernel\<close>) with the
  names of the source; a thread, a timer and their entities are addressed by numbers, and null is \<open>0\<close>. Every
  function is a definition of the same name on this state. Integers are words of the source's width with its
  wrapping, saturating or checked arithmetic. The result \<open>None\<close> stands for everything after which the
  program does not go on: a panic, a failed debug assertion, overflow, a null access, and a loop that does
  not end (\<^theory_text>\<open>partial_function\<close>); errors the source returns are values. Where a theorem is about the kind of failure, a
  finer definition tells them apart: \<open>dispatch_rounds\<close> a loop that goes on from one that panics,
  \<open>spawn_thread_or_panic\<close> the message of a panic and the state it leaves. Debug assertions are on, as in a debug build. \<open>wpo m P\<close> says that \<open>m\<close> returns,
  and \<open>P\<close> holds of the result, so theorems of this form are about total correctness; no fuel is used. A tree of
  the program is, above \<open>RbApi\<close>, the ordered list of its entities; \<open>RbApi\<close> proves that the pointer
  implementation behaves like that list, and \<open>LayoutProps\<close> that this holds for the nodes embedded in control
  blocks. An operation in a critical section is one step.

  \<^bold>\<open>The theories.\<close>
  \<^item> \<open>Prelude\<close>: word arithmetic, \<open>wpo\<close>, shared lemmas; \<open>OrdList\<close>: ordered lists, the contract of
    \<open>RBTreeNode::cmp\<close> (locale \<open>strict_cmp\<close>) and of a queue over it (locale \<open>ordered_queue\<close>).
  \<^item> \<open>RbHeap\<close>, \<open>RbShape\<close>, \<open>RbInsert\<close>, \<open>RbRemove\<close>, \<open>RbApi\<close>: \<^verbatim>\<open>rbtree.rs\<close> at the level of node pointers and
    colours; every operation ends, keeps the red-black shape and refines the ordered list; the depth is
    logarithmic. \<open>Layout\<close>, \<open>LayoutProps\<close>: the \<open>repr(C)\<close> layout and the pointer arithmetic of the accessors.
  \<^item> \<open>Kernel\<close>: the state, the entities and their comparisons; \<open>WaitQ\<close>, \<open>SuspList\<close>: \<^verbatim>\<open>waitq.rs\<close> with the doubly
    linked list of suspended threads; \<open>RunQ\<close>: \<^verbatim>\<open>runq.rs\<close> with the exact arithmetic of virtual runtimes; \<open>KTimerQ\<close>,
    \<open>KTimer\<close>, \<open>KTimerApi\<close>: \<^verbatim>\<open>ktimer.rs\<close>.
  \<^item> \<open>KInv\<close>: the invariant \<open>kinv\<close> across all queues (each well-formed, every blocked thread in the wait queue,
    real-time threads linked to their timers); \<open>KMoves\<close>, \<open>Wake\<close>, \<open>Dispatch\<close>, \<open>Blocking\<close>: that moving threads
    between queues, waking, expiry dispatch, yielding and sleeping complete and keep it.
  \<^item> \<open>Sched\<close>: \<^verbatim>\<open>sched.rs\<close> and the invariant \<open>sched_inv\<close> of a running scheduler; \<open>Thread\<close>, \<open>ThreadLaws\<close>, \<open>ThreadApi\<close>,
    \<open>Boot\<close>: creation of threads, initial stack frames, start-up.
  \<^item> \<open>Sync\<close>, \<open>SyncLaws\<close>, \<open>Semaphore\<close> (the contract as a locale, met by the binary and the counting semaphore
    and by an object of either class), \<open>Quiet\<close>, \<open>MutexLaws\<close>: \<^verbatim>\<open>sync.rs\<close> with deadline inheritance; \<open>Message\<close>: \<^verbatim>\<open>message.rs\<close>, a ring buffer that refines a
    bounded list; \<open>SyncApi\<close>: the rest of both interfaces.
  \<^item> \<open>Machine\<close>: the scheduler as a state machine of ticks, yields, sleeps and context switches (\<open>run_inv\<close>);
    \<open>System\<close>: threads that use semaphores, mutexes with the values they protect, and message queues, in every
    interleaving (\<open>sys_step\<close>, \<open>sys_run\<close>, invariant \<open>sys_inv\<close>). A message queue call that blocks is cut where
    the thread is suspended, and retries as a new event when it runs again. The SysTick counter is part of the state: programming the timer
    clears it, and between any two steps it may be found at any value up to the reload value (event \<open>Counter\<close>).
    \<open>Wakeups\<close>: runs in which suspended message queue calls are repeated.
  \<^item> \<open>App\<close>: application threads as programs, a statement at every control location, run by the system with a
    preemption possible between any two statements (\<open>app_run\<close>), and the contract of a program that unlocks only what
    it locked (locale \<open>guarded\<close>); \<open>ExCommon\<close>: \<^verbatim>\<open>examples/common/mod.rs\<close>; \<open>MsgExample\<close>, \<open>MtxExample\<close>, \<open>CntExample\<close>, \<open>BinExample\<close>:
    the examples of message queues, mutexes and semaphores; \<open>CountLoops\<close> (locale \<open>counting_loops\<close>) and \<open>SmallExamples\<close>: the
    four examples whose threads count their rounds.
  \<^item> \<open>CtxSwitch\<close>: the assembly of \<^verbatim>\<open>arch/cm/ctx_switch.rs\<close> on registers and stacks; \<open>Timing\<close>: trace counters, interrupt
    timing and the cycle counter; \<open>CritSec\<close>, \<open>HostPort\<close>, \<open>Ports\<close>: critical sections of the host builds as a
    concurrent state machine, the host port, and the platform traits with both ports.
  \<^item> \<open>Traverse\<close>, \<open>Diagnostics\<close>, \<open>PrintSink\<close>: traversals, the timer dump, the deadline-miss report and its output.
  \<^item> \<open>QueueProps\<close>, \<open>TimerProps\<close>, \<open>SchedProps\<close>, \<open>SyncProps\<close>, \<open>MessageProps\<close>, \<open>StartProps\<close>, \<open>SwitchProps\<close>, \<open>SystemProps\<close>,
    \<open>DiagProps\<close>: the properties, applied to a concrete system (\<open>Sample\<close>) where they have hypotheses.

  \<^bold>\<open>What is shown.\<close> The trees refine ordered lists and the suspended list a list; the queue and timer operations
  complete, keep the invariants and do what they say, errors included; the dispatch and wake-up loops end (and
  the dispatch loop does not for a relative deadline of zero, which the program accepts); the context switch
  picks the right thread and preserves every thread's registers; semaphores, mutexes and message queues meet their
  contracts alone and together: over all runs tokens and messages are conserved, mutexes exclude, protected values
  are only touched by the owner, no wake-up is lost and no admissible event panics. The example programs, all
  eight, start from reset, and their threads do under every preemption what they are written to show: samples arrive in
  order, no update is lost, tokens are accounted for, one thread at a time has the signal, counters are
  exact. \<open>start_up\<close> below ties the runs to the program's
  start. Hypotheses such as \<open>can_wake\<close>, \<open>between_ticks\<close> and \<open>charge_fits\<close> state the conditions under which
  the source's checked arithmetic and assertions do not fail.

  \<^bold>\<open>Not modelled.\<close> An operation and the context switch it requests are one step of a run; the main stack that the
  handlers themselves use is not modelled. Runs leave out steps that would need weaker conditions than those
  proved: the unlock of a boosted owner after its original deadline, and a contended lock when a timer has already
  expired within the current interval. Peripheral registers and the \<^verbatim>\<open>cortex_m\<close> crate are parameters; the application's trace and
  print functions are parameters; threads other than those of the examples appear only by the calls they
  make; re-exports and module files have no content; the other hooks of \<^verbatim>\<open>test_support.rs\<close>, the tests and the
  build script are not part of the library. The critical section of the Cortex-M port is the
  crate's \<^verbatim>\<open>interrupt::free\<close>; on one core it makes each operation one step.
\<close>

section \<open>The whole program\<close>

text \<open>
  C19: the program from reset on: from the loaded statics, initialising the timer queue and the CFS class,
  spawning any list of threads with valid arguments and storage of their own, and starting the main thread completes
  and gives a started system in which the idle thread runs, every CFS thread is runnable and every real-time
  thread's timer is queued. With semaphores, mutexes
  and message queues as their constructors make them, every run of this system keeps the invariants of the
  scheduler and of all primitives, with exactly one running thread, and what has been received from a
  queue and what is buffered in it is what has been sent.
\<close>

theorem start_up:
  assumes "loaded s" "valid_requests rs s" "t \<noteq> 0" "t \<notin> req_thread ` set rs"
    "stack \<noteq> 0" "16 \<le> n" "(stack + 4 * n) mod 8 = 0"
  shows "\<exists>s' m'. init_ktimer_queue s \<bind> init_cfs period exec \<bind> (\<lambda>s. spawn_all rs (s, m)) \<bind> spawn_main_thread nm entry t stack n = Some (s', m')
    \<and> SCHEDULER_STARTED s' \<and> CURRENT_THREAD_CTX s' = t \<and> IDLE_THREAD_CTX s' = t
    \<and> runnable_set s' = cfs_requests rs \<and> queued s' = set (req_timers rs) \<union> {CFS_KTIMER s, WAIT_KTIMER s}
    \<and> (\<forall>(S :: 'm system) tr S'. kern S = s' \<longrightarrow> new_objects S \<longrightarrow> sys_run S tr S' \<longrightarrow>
         sys_inv S' \<and> (\<forall>u. state (threads (kern S') u) = Running \<longleftrightarrow> u = running S')
         \<and> (\<forall>i. received i tr @ contents (mqs S' i) = sent i tr))"
proof -
  from start_up_ok [OF assms, of period exec m nm entry] obtain s' m' where
    s': "init_ktimer_queue s \<bind> init_cfs period exec \<bind> (\<lambda>s. spawn_all rs (s, m)) \<bind> spawn_main_thread nm entry t stack n = Some (s', m')"
      "run_inv s'" "SCHEDULER_STARTED s'" "CURRENT_THREAD_CTX s' = t" "IDLE_THREAD_CTX s' = t" "runnable_set s' = cfs_requests rs"
      "queued s' = set (req_timers rs) \<union> {CFS_KTIMER s, WAIT_KTIMER s}" by (auto simp: wpo_def)
  have "sys_inv S' \<and> (\<forall>u. state (threads (kern S') u) = Running \<longleftrightarrow> u = running S')
      \<and> (\<forall>i. received i tr @ contents (mqs S' i) = sent i tr)"
    if S: "kern S = s'" "new_objects S" and r: "sys_run S tr S'" for S :: "'m system" and tr S'
  proof -
    have n: "sys_inv S" "contents (mqs S i) = []" for i using new_objects_inv [OF _ S(2)] s'(2) S(1) by simp_all
    note i = sys_run_inv [OF r n(1)]
    then have "state (threads (kern S') u) = Running \<longleftrightarrow> u = running S'" for u
      using sys_invD [of S'] sched_invD(7) [of "kern S'" u] by blast
    then show ?thesis using i n(2) by (metis append_Nil)
  qed
  then show ?thesis using s' by blast
qed

text \<open>One CFS and one real-time thread.\<close>

definition sample_requests :: "spawn_request list" where
  "sample_requests =
     [\<lparr>req_thread = 4000, req_stack = 8000, req_words = 32, req_start = ThreadStart_new ''a'' 64, req_args = CfsArgs 3\<rparr>,
      \<lparr>req_thread = 5000, req_stack = 8128, req_words = 32, req_start = ThreadStart_new ''b'' 68, req_args = RtArgs 108\<rparr>]"

theorem start_up_witness:
  "\<exists>s' m' (S :: nat system) ok S'. init_ktimer_queue sample_loaded \<bind> init_cfs 100 50 \<bind> (\<lambda>s. spawn_all sample_requests (s, \<lambda>_. 0))
      \<bind> spawn_main_thread ''main'' 64 1000 9000 32 = Some (s', m')
    \<and> CURRENT_THREAD_CTX s' = 1000 \<and> runnable_set s' = {4000} \<and> queued s' = {100, 104, 108}
    \<and> kern S = s' \<and> new_objects S \<and> sys_run S [(1000, TryTake 0, ok)] S' \<and> sys_inv S'"
proof -
  have c: "CFS_KTIMER sample_loaded = 100" "WAIT_KTIMER sample_loaded = 104" by (simp_all add: sample_loaded_def)
  have v: "valid_requests sample_requests sample_loaded"
    by (simp add: valid_requests_def sample_requests_def spawn_error_None req_timers_def c)
  have r: "cfs_requests sample_requests = {4000}" "set (req_timers sample_requests) = {108}" "1000 \<notin> req_thread ` set sample_requests"
    by (auto simp: cfs_requests_def sample_requests_def req_timers_def)
  from start_up [where 'm = nat, OF sample_loaded v _ r(3), of 9000 32 100 50 "\<lambda>_. 0" "''main''" 64]
  obtain s' m' where s': "init_ktimer_queue sample_loaded \<bind> init_cfs 100 50 \<bind> (\<lambda>s. spawn_all sample_requests (s, \<lambda>_. 0))
      \<bind> spawn_main_thread ''main'' 64 1000 9000 32 = Some (s', m')" "CURRENT_THREAD_CTX s' = 1000" "runnable_set s' = {4000}" "queued s' = {100, 104, 108}" "IDLE_THREAD_CTX s' = 1000"
    "\<And>(S :: nat system) tr S'. kern S = s' \<Longrightarrow> new_objects S \<Longrightarrow> sys_run S tr S' \<Longrightarrow> sys_inv S'" by (auto simp: r c)
  define S :: "nat system" where "S = (new_system 0)\<lparr>kern := s'\<rparr>"
  have S: "kern S = s'" "new_objects S" using new_system_objects [of 0] by (simp_all add: S_def new_objects_def mutex_def)
  have i: "sys_inv S" by (rule s'(6) [OF S run_init])
  have "\<not> pays s'" using sched_invD(4,9) [OF sys_invD(2) [OF i]] s'(2,5) S(1) by (simp add: pays_def)
  then have "sys_admissible (TryTake 0) S"
    using S(1) by (auto simp: sys_fits_def with_sem_def charge_fits_def dest: sem_try_take_kern split: option.split bind_split)
  moreover have o: "owns (TryTake 0) S" by (simp add: owns_def uses_guard_def)
  ultimately obtain ok S' where "sys_step S (TryTake 0) ok S'" using sys_step_ok [OF i] by blast
  then have "sys_run S [(1000, TryTake 0, ok)] S'"
    using run_step [OF run_init, of S "TryTake 0" ok S'] s'(2) S(1) by (simp add: has_guard_def uses_guard_def)
  then show ?thesis using s'(1-4) s'(6) [OF S] S by blast
qed

end
